(* ===== verification/SFI_Prelude.thy ===== *)
theory SFI_Prelude
  imports "HOL-Library.Word"
begin

text \<open>
  Shared vocabulary of the development: machine-word type names, the result type of
  code that can stop with an error, and the generic lemmas on words, bits and results
  that the component theories use.

  The collections \<open>c_const\<close> and \<open>reg_const\<close> hold the defining equations of the
  \<^verbatim>\<open>#define\<close> constants (flags, and register numbers);
  \<open>mask_bit\<close> turns a C test of a one-bit mask into a statement about that bit.
\<close>

unbundle bit_operations_syntax

named_theorems c_const
named_theorems reg_const
named_theorems mask_bit

section \<open>Types\<close>

text \<open>The program is compiled for 32-bit x86: \<^verbatim>\<open>unsigned int\<close>, \<^verbatim>\<open>unsigned long\<close> and
  addresses are 32 bits wide.\<close>

type_synonym byte = "8 word"
type_synonym u32 = "32 word"
type_synonym u64 = "64 word"
type_synonym addr = "32 word"

section \<open>Results\<close>

text \<open>A computation that can stop the program: \<open>Inl e\<close> is the failure.\<close>

fun res_bind :: "'e + 'a \<Rightarrow> ('a \<Rightarrow> 'e + 'b) \<Rightarrow> 'e + 'b" where
  "res_bind (Inl e) f = Inl e"
| "res_bind (Inr x) f = f x"

definition guard :: "bool \<Rightarrow> 'e \<Rightarrow> 'e + unit" where
  "guard b e = (if b then Inr () else Inl e)"

lemma res_bind_Inr [simp]: "res_bind r f = Inr y \<longleftrightarrow> (\<exists>x. r = Inr x \<and> f x = Inr y)"
  by (cases r) auto

lemma res_bind_Inl: "res_bind r f = Inl e \<longleftrightarrow> r = Inl e \<or> (\<exists>x. r = Inr x \<and> f x = Inl e)"
  by (cases r) auto

lemma guard_Inr [simp]: "guard b e = Inr u \<longleftrightarrow> b"
  by (simp add: guard_def)

lemma guard_Inl [simp]: "guard b e = Inl e' \<longleftrightarrow> \<not> b \<and> e' = e"
  by (auto simp: guard_def)

section \<open>Bits\<close>

text \<open>C's truth value of \<^verbatim>\<open>x & m\<close>.\<close>

definition has :: "u32 \<Rightarrow> u32 \<Rightarrow> bool" where
  "has x m \<longleftrightarrow> x AND m \<noteq> 0"

lemma has_0 [simp]: "\<not> has 0 m"
  by (simp add: has_def)

lemma has_exp: "has x (2 ^ n) \<longleftrightarrow> bit x n"
  by (simp add: has_def and_exp_eq_0_iff_not_bit)

lemma has_or_mask: "has x (a OR b) \<longleftrightarrow> has x a \<or> has x b"
  by (auto simp: has_def bit_eq_iff bit_simps)

lemma has_or: "has (x OR y) m \<longleftrightarrow> has x m \<or> has y m"
  by (auto simp: has_def bit_eq_iff bit_simps)

lemma and_mask_or_push_bit:
  "x AND (push_bit k t OR mask k) = push_bit k (t AND drop_bit k x) + take_bit k (x :: 'a::len word)"
proof -
  have "x AND (push_bit k t OR mask k) = push_bit k (t AND drop_bit k x) OR take_bit k x"
    by (rule bit_word_eqI) (auto simp: bit_simps)
  also have "\<dots> = push_bit k (t AND drop_bit k x) + take_bit k x"
    by (rule disjunctive_add [symmetric]) (auto simp: bit_simps)
  finally show ?thesis .
qed

lemma and_not_mask_eq_0_iff: "x AND NOT (mask k) = (x :: 'a::len word) \<longleftrightarrow> take_bit k x = 0"
  by (auto simp: bit_eq_iff bit_simps)

text \<open>\<^verbatim>\<open>x & (2^k - 1)\<close> is zero exactly for the multiples of \<open>2 ^ k\<close>.\<close>

lemma unat_take_bit: "unat (take_bit k (x :: 'a::len word)) = unat x mod 2 ^ k"
  by (simp only: unsigned_take_bit_eq) (simp add: take_bit_eq_mod)

lemma unat_push_bit:
  "unat x * 2 ^ k < 2 ^ LENGTH('a) \<Longrightarrow> unat (push_bit k (x :: 'a::len word)) = unat x * 2 ^ k"
  by (simp only: unsigned_push_bit_eq) (simp add: push_bit_eq_mult take_bit_eq_mod)

lemma unat_exp: "k < LENGTH('a) \<Longrightarrow> unat (2 ^ k :: 'a::len word) = 2 ^ k"
  using unat_push_bit [where x = "1 :: 'a word" and k = k] by (simp add: push_bit_eq_mult)

lemma and_mask_zero_iff_dvd: "x AND mask k = (0 :: 'a::len word) \<longleftrightarrow> 2 ^ k dvd unat x"
proof -
  have "x AND mask k = 0 \<longleftrightarrow> unat (take_bit k x) = 0"
    by (simp add: take_bit_eq_mask unat_eq_0)
  then show ?thesis by (simp only: unat_take_bit dvd_eq_mod_eq_0)
qed

lemma exp_and: "2 ^ n AND y = (if bit y n then 2 ^ n else 0 :: 'a::len word)"
  by (rule bit_word_eqI) (auto simp: bit_simps)

lemma bit_if: "bit (if c then a else b) n \<longleftrightarrow> (if c then bit a n else bit b n)"
  by simp

section \<open>Lists\<close>

lemma filter_nth_split:
  assumes "i < length (filter P xs)"
  shows "P (filter P xs ! i)"
  using assms nth_mem by fastforce

lemma unat_and_not_mask: "unat (x AND NOT (mask k) :: u32) = unat x div 2 ^ k * 2 ^ k"
proof -
  have "x AND NOT (mask k) = push_bit k (drop_bit k x)"
    by (rule bit_word_eqI) (auto simp: bit_simps)
  moreover have "unat x div 2 ^ k * 2 ^ k < 2 ^ 32"
    by (rule le_less_trans [OF div_times_less_eq_dividend]) (use unsigned_less [of x] in simp)
  moreover have "unat (drop_bit k x) = unat x div 2 ^ k"
    by (simp only: unat_drop_bit_eq) (simp only: drop_bit_eq_div)
  ultimately show ?thesis using unat_push_bit [of "drop_bit k x" k] by fastforce
qed

end
