(* ===== verification/SFI_Sizes.thy ===== *)
theory SFI_Sizes
  imports SFI_Prelude
begin

text \<open>
  The memory layout of the sandbox. The C sources take it from the generated header
  \<^verbatim>\<open>sizes.h\<close>; the generator is \<^verbatim>\<open>src/sizes.pm\<close>, whose \<^verbatim>\<open>%sizes\<close> table and \<^verbatim>\<open>compute_sizes\<close>
  are modelled here. The locale \<open>sandbox\<close> states what the other components rely on:
  sizes are powers of two and the masks are built from the region tags. It is
  interpreted on the three layouts the table has.
\<close>

section \<open>The layout\<close>

record layout =
  CODE_START :: u32
  CODE_SIZE :: u32
  DATA_START :: u32
  DATA_SIZE :: u32
  DATA_MASK :: u32
  JUMP_MASK :: u32
  CHUNK_SIZE :: u32
  STUB_SIZE :: u32

datatype size_name = classic | medium | large

text \<open>The rows of \<^verbatim>\<open>%sizes\<close>: code size (log), code tag, data size (log), data tag.\<close>

fun sizes :: "size_name \<Rightarrow> nat \<times> u32 \<times> nat \<times> u32" where
  "sizes classic = (24, 0x10, 24, 0x20)"
| "sizes medium = (24, 0x10, 27, 0x4)"
| "sizes large = (24, 0x90, 30, 0x1)"

definition log_chunk_size :: nat where
  "log_chunk_size = 4"

text \<open>With the style \<^verbatim>\<open>and\<close>, a stub takes one chunk.\<close>

definition log_stub_size :: nat where
  "log_stub_size = log_chunk_size"

definition compute_sizes :: "size_name \<Rightarrow> layout" where
  "compute_sizes sz =
     (let (log_code_size, code_tag, log_data_size, data_tag) = sizes sz;
          code_start = push_bit log_code_size code_tag;
          data_start = push_bit log_data_size data_tag;
          code_size = push_bit log_code_size 1;
          data_size = push_bit log_data_size 1
      in \<lparr>CODE_START = code_start, CODE_SIZE = code_size,
          DATA_START = data_start, DATA_SIZE = data_size,
          DATA_MASK = data_start OR (data_size - 1),
          JUMP_MASK = (code_start OR (code_size - 1)) AND NOT (push_bit log_chunk_size 1 - 1),
          CHUNK_SIZE = push_bit log_chunk_size 1,
          STUB_SIZE = push_bit log_stub_size 1\<rparr>)"

definition CODE_END :: "layout \<Rightarrow> u32" where
  "CODE_END L = CODE_START L + CODE_SIZE L"

definition DATA_END :: "layout \<Rightarrow> u32" where
  "DATA_END L = DATA_START L + DATA_SIZE L"

definition CODE_IS_LOWER :: "layout \<Rightarrow> bool" where
  "CODE_IS_LOWER L \<longleftrightarrow> CODE_START L < DATA_START L"

section \<open>Regions\<close>

text \<open>The regions of the safety policy (\<^verbatim>\<open>src/checks.txt\<close>): data, code, and the zero-tag
  region that a masked address falls into when its tag bits were clear.\<close>

definition in_data :: "layout \<Rightarrow> u32 \<Rightarrow> bool" where
  "in_data L a \<longleftrightarrow> DATA_START L \<le> a \<and> a < DATA_END L"

definition in_code :: "layout \<Rightarrow> u32 \<Rightarrow> bool" where
  "in_code L a \<longleftrightarrow> CODE_START L \<le> a \<and> a < CODE_END L"

definition data_or_zero :: "layout \<Rightarrow> u32 \<Rightarrow> bool" where
  "data_or_zero L a \<longleftrightarrow> in_data L a \<or> a < DATA_SIZE L"

definition code_or_zero :: "layout \<Rightarrow> u32 \<Rightarrow> bool" where
  "code_or_zero L a \<longleftrightarrow> in_code L a \<or> a < CODE_SIZE L"

definition chunk_aligned :: "layout \<Rightarrow> u32 \<Rightarrow> bool" where
  "chunk_aligned L a \<longleftrightarrow> a AND (CHUNK_SIZE L - 1) = 0"

section \<open>What the layout promises\<close>

lemma exp_minus_1_mask: "2 ^ k - 1 = (mask k :: 'a::len word)"
  by (simp add: mask_eq_exp_minus_1)

lemma push_bit_add_range:
  fixes t x :: u32
  assumes "k < 32" and "unat t * 2 ^ k + 2 ^ k < 2 ^ 32"
  shows "push_bit k t \<le> push_bit k t + take_bit k x" (is "?lo \<le> ?a")
    and "push_bit k t + take_bit k x < push_bit k t + 2 ^ k" (is "_ < ?hi")
proof -
  have t: "unat (push_bit k t) = unat t * 2 ^ k"
    using assms by (simp add: unat_push_bit)
  have x: "unat (take_bit k x) < 2 ^ k"
    by (simp add: unat_take_bit)
  have "unat ?a = unat t * 2 ^ k + unat (take_bit k x)"
    using assms(2) t x by (simp add: unat_word_ariths)
  moreover have "unat ?hi = unat t * 2 ^ k + 2 ^ k"
    using assms t by (simp add: unat_word_ariths unat_exp)
  ultimately show "?lo \<le> ?a" "?a < ?hi"
    using t x by (simp_all add: word_le_nat_alt word_less_nat_alt)
qed

text \<open>A mask with the region's tag bits and all offset bits keeps the offset and clears
  every other bit; when the tag is a single bit, the result is in the tagged region or
  in the zero-tag region.\<close>

locale sandbox =
  fixes L :: layout and ctag dtag :: u32 and kc kd kk :: nat
  assumes code_start: "CODE_START L = push_bit kc ctag"
    and data_start: "DATA_START L = push_bit kd dtag"
    and code_size: "CODE_SIZE L = 2 ^ kc"
    and data_size: "DATA_SIZE L = 2 ^ kd"
    and chunk_size: "CHUNK_SIZE L = 2 ^ kk"
    and data_mask: "DATA_MASK L = DATA_START L OR (DATA_SIZE L - 1)"
    and jump_mask: "JUMP_MASK L = (CODE_START L OR (CODE_SIZE L - 1)) AND NOT (CHUNK_SIZE L - 1)"
    and logs: "kk \<le> kc" "kc < 32" "kd < 32"
    and code_fits: "unat ctag * 2 ^ kc + 2 ^ kc < 2 ^ 32"
    and data_fits: "unat dtag * 2 ^ kd + 2 ^ kd < 2 ^ 32"
begin

lemma data_mask_decomp:
  "x AND DATA_MASK L = push_bit kd (dtag AND drop_bit kd x) + take_bit kd x"
  by (simp only: data_mask data_start data_size exp_minus_1_mask and_mask_or_push_bit)

lemma jump_mask_decomp:
  "x AND JUMP_MASK L = push_bit kc (ctag AND drop_bit kc x) + take_bit kc (x AND NOT (mask kk))"
proof -
  have "x AND JUMP_MASK L = (x AND NOT (mask kk)) AND (push_bit kc ctag OR mask kc)"
    by (simp add: jump_mask code_start code_size chunk_size exp_minus_1_mask ac_simps)
  also have "\<dots> = push_bit kc (ctag AND drop_bit kc (x AND NOT (mask kk)))
      + take_bit kc (x AND NOT (mask kk))"
    by (rule and_mask_or_push_bit)
  also have "drop_bit kc (x AND NOT (mask kk)) = drop_bit kc x"
    using logs by (intro bit_word_eqI) (auto simp: bit_simps dest: bit_imp_le_length)
  finally show ?thesis .
qed

lemma jump_mask_aligned: "chunk_aligned L (x AND JUMP_MASK L)"
  by (auto simp: chunk_aligned_def jump_mask chunk_size exp_minus_1_mask bit_eq_iff bit_simps)

lemma jump_mask_idem: "chunk_aligned L a \<Longrightarrow> in_code L a \<Longrightarrow> a AND JUMP_MASK L = a"
proof -
  assume al: "chunk_aligned L a" and ic: "in_code L a"
  have c: "unat (push_bit kc ctag) = unat ctag * 2 ^ kc"
    using code_fits by (simp add: unat_push_bit)
  then have e: "unat (CODE_END L) = unat ctag * 2 ^ kc + 2 ^ kc"
    using code_fits logs by (simp add: CODE_END_def code_start code_size unat_word_ariths unat_exp)
  have "unat ctag * 2 ^ kc \<le> unat a" "unat a < unat ctag * 2 ^ kc + 2 ^ kc"
    using ic c e by (simp_all add: in_code_def code_start word_le_nat_alt word_less_nat_alt)
  then have "unat a div 2 ^ kc = unat ctag"
    by (intro div_nat_eqI) (simp_all add: mult.commute)
  then have d: "drop_bit kc a = ctag"
    by (simp only: word_unat_eq_iff unat_drop_bit_eq) (simp add: drop_bit_eq_div)
  have "a AND NOT (mask kk) = a"
    using al by (simp add: chunk_aligned_def chunk_size exp_minus_1_mask and_not_mask_eq_0_iff
        take_bit_eq_mask)
  then have "a AND JUMP_MASK L = push_bit kc ctag + take_bit kc a"
    using jump_mask_decomp [of a] d by simp
  also have "\<dots> = push_bit kc (drop_bit kc a) OR take_bit kc a"
    unfolding d by (rule disjunctive_add) (auto simp: bit_simps)
  also have "\<dots> = a"
    by (intro bit_word_eqI) (auto simp: bit_simps)
  finally show ?thesis .
qed

lemma data_mask_region:
  assumes "\<And>y. dtag AND y = 0 \<or> dtag AND y = dtag"
  shows "data_or_zero L (x AND DATA_MASK L)"
proof -
  consider "dtag AND drop_bit kd x = 0" | "dtag AND drop_bit kd x = dtag"
    using assms by blast
  then show ?thesis
  proof cases
    case 1
    then show ?thesis
      using push_bit_add_range(2) [of kd 0 x] data_fits logs
      by (simp add: data_mask_decomp data_or_zero_def data_size)
  next
    case 2
    then show ?thesis
      using push_bit_add_range [of kd dtag x] data_fits logs
      by (simp add: data_mask_decomp data_or_zero_def in_data_def DATA_END_def data_size data_start)
  qed
qed

lemma jump_mask_region:
  assumes "\<And>y. ctag AND y = 0 \<or> ctag AND y = ctag"
  shows "code_or_zero L (x AND JUMP_MASK L)"
proof -
  consider "ctag AND drop_bit kc x = 0" | "ctag AND drop_bit kc x = ctag"
    using assms by blast
  then show ?thesis
  proof cases
    case 1
    then show ?thesis
      using push_bit_add_range(2) [of kc 0 "x AND NOT (mask kk)"] code_fits logs
      by (simp add: jump_mask_decomp code_or_zero_def code_size)
  next
    case 2
    then show ?thesis
      using push_bit_add_range [of kc ctag "x AND NOT (mask kk)"] code_fits logs
      by (simp add: jump_mask_decomp code_or_zero_def in_code_def CODE_END_def code_size code_start)
  qed
qed

end

section \<open>The three layouts\<close>

lemmas layout_eval = compute_sizes_def log_chunk_size_def log_stub_size_def CODE_END_def DATA_END_def

interpretation sb_classic: sandbox "compute_sizes classic" "0x10" "0x20" 24 24 4
  by unfold_locales (simp_all add: layout_eval)

interpretation sb_medium: sandbox "compute_sizes medium" "0x10" "0x4" 24 27 4
  by unfold_locales (simp_all add: layout_eval)

interpretation sb_large: sandbox "compute_sizes large" "0x90" "0x1" 24 30 4
  by unfold_locales (simp_all add: layout_eval)

text \<open>A tag of one bit is kept or cleared as a whole.\<close>

lemma one_bit_tag: "t = 2 ^ n \<Longrightarrow> t AND y = 0 \<or> t AND y = (t :: 'a::len word)"
  by (simp add: exp_and)

lemma classic_tags: "(0x10 :: u32) = 2 ^ 4" "(0x20 :: u32) = 2 ^ 5" "(0x4 :: u32) = 2 ^ 2" "(1 :: u32) = 2 ^ 0"
  by simp_all

text \<open>The large code tag has two bits, so four tags survive the mask.\<close>

lemma large_tag_cases: "(0x90 :: u32) AND y \<in> {0, 0x10, 0x80, 0x90}"
proof -
  have "(0x90 :: u32) AND y = (2 ^ 4 AND y) OR (2 ^ 7 AND y)"
    by (simp flip: bit.conj_disj_distrib2)
  then show ?thesis by (simp only: exp_and) auto
qed

section \<open>What masking an address achieves\<close>

text \<open>Claim C25. In every layout, a data address after \<^verbatim>\<open>and $DATA_MASK\<close> lies in the data region
  or in the zero-tag region of the same size.\<close>

theorem masked_data_address: "data_or_zero (compute_sizes sz) (x AND DATA_MASK (compute_sizes sz))"
proof (cases sz)
  case classic
  then show ?thesis using sb_classic.data_mask_region [OF one_bit_tag [OF classic_tags(2)]] by simp
next
  case medium
  then show ?thesis using sb_medium.data_mask_region [OF one_bit_tag [OF classic_tags(3)]] by simp
next
  case large
  then show ?thesis using sb_large.data_mask_region [OF one_bit_tag [OF classic_tags(4)]] by simp
qed

text \<open>Claim C26. In the classic and medium layouts, a jump target after \<^verbatim>\<open>and $JUMP_MASK\<close> is
  chunk-aligned and lies in the code region or in the zero-tag region.\<close>

theorem masked_jump_target:
  "code_or_zero (compute_sizes classic) (x AND JUMP_MASK (compute_sizes classic)) \<and>
   code_or_zero (compute_sizes medium) (x AND JUMP_MASK (compute_sizes medium)) \<and>
   chunk_aligned (compute_sizes classic) (x AND JUMP_MASK (compute_sizes classic)) \<and>
   chunk_aligned (compute_sizes medium) (x AND JUMP_MASK (compute_sizes medium))"
  using sb_classic.jump_mask_region [OF one_bit_tag [OF classic_tags(1)]]
    sb_medium.jump_mask_region [OF one_bit_tag [OF classic_tags(1)]]
    sb_classic.jump_mask_aligned sb_medium.jump_mask_aligned by blast

text \<open>Claim C27. In the large layout, whose code tag 0x90 has two bits, a masked jump target is
  chunk-aligned and lies in one of the four 16 MB regions with tags 0x00, 0x10, 0x80 and
  0x90.\<close>

theorem masked_jump_target_large:
  "let a = x AND JUMP_MASK (compute_sizes large)
   in chunk_aligned (compute_sizes large) a \<and>
      (\<exists>t \<in> {0, 0x10, 0x80, 0x90}. push_bit 24 t \<le> a \<and> a < push_bit 24 t + 2 ^ 24)"
proof -
  let ?y = "x AND NOT (mask 4)" and ?t = "(0x90 :: u32) AND drop_bit 24 x"
  have t: "?t \<in> {0, 0x10, 0x80, 0x90}" by (rule large_tag_cases)
  then have "push_bit 24 ?t \<le> push_bit 24 ?t + take_bit 24 ?y \<and>
      push_bit 24 ?t + take_bit 24 ?y < push_bit 24 ?t + 2 ^ 24"
    using push_bit_add_range [of 24 ?t ?y] by auto
  then have "\<exists>t \<in> {0, 0x10, 0x80, 0x90}. push_bit 24 t \<le> x AND JUMP_MASK (compute_sizes large) \<and>
      x AND JUMP_MASK (compute_sizes large) < push_bit 24 t + 2 ^ 24"
    using t unfolding sb_large.jump_mask_decomp by blast
  then show ?thesis unfolding Let_def using sb_large.jump_mask_aligned by blast
qed

end
