(* ===== verification/SFI_Disasm.thy ===== *)
theory SFI_Disasm
  imports SFI_Prelude
begin

text \<open>
  The part of the libdisasm interface (\<^verbatim>\<open>libdis.h\<close>, a third-party library) that the
  verifier of \<^verbatim>\<open>src/loader.c\<close> reads. Enumerations list the constants the verifier names
  and one constructor for every other value. The disassembler itself is a parameter of
  the verifier: a function from a code offset to the length \<^verbatim>\<open>x86_disasm\<close> returns and the
  instruction it fills in.

  An operand's \<^verbatim>\<open>data\<close> is a C union. The record has one field per member the verifier
  reads, so a member read at the wrong type is the value the disassembler left there,
  whatever it is.
\<close>

datatype x86_insn_group =
    insn_controlflow | insn_arithmetic | insn_logic | insn_stack | insn_comparison
  | insn_move | insn_bit_manip | insn_fpu | insn_interrupt | insn_other
  | insn_group_unlisted nat

text \<open>\<open>insn_fpu_0xa000\<close> is the literal type code that the verifier uses for every
  floating-point instruction.\<close>

datatype x86_insn_type =
    insn_jmp | insn_jcc | insn_call | insn_return
  | insn_add | insn_sub | insn_mul | insn_div | insn_inc | insn_dec
  | insn_shl | insn_shr | insn_rol | insn_ror
  | insn_and | insn_or | insn_xor | insn_not | insn_neg
  | insn_push | insn_pop | insn_pushflags | insn_popflags | insn_leave
  | insn_test | insn_cmp | insn_mov | insn_movcc | insn_bittest
  | insn_fpu_0xa000 | insn_debug | insn_nop | insn_szconv
  | insn_type_unlisted nat

datatype x86_op_type =
    op_register | op_immediate | op_relative_near | op_relative_far
  | op_expression | op_offset | op_type_unlisted nat

datatype x86_op_datatype = op_byte | op_dword | op_datatype_unlisted nat

record x86_reg =
  reg_id :: nat
  reg_alias :: nat

record x86_ea =
  ea_base :: x86_reg
  ea_index :: x86_reg
  ea_disp :: u32
  ea_disp_sign :: bool
  ea_disp_size :: nat

record x86_op =
  op_type :: x86_op_type
  op_datatype :: x86_op_datatype
  op_implied :: bool
  data_reg :: x86_reg
  data_dword :: u32
  data_relative_near :: byte
  data_relative_far :: u32
  data_expression :: x86_ea
  data_offset :: u32

record x86_insn =
  insn_group :: x86_insn_group
  insn_type :: x86_insn_type
  insn_size :: u32
  explicit_count :: int
  operands :: "x86_op list"

text \<open>What \<^verbatim>\<open>x86_disasm\<close> gives at an offset: its result and the instruction.\<close>

type_synonym disassembler = "int \<Rightarrow> int \<times> x86_insn"

end
