(* ===== verification/SFI_Verifier.thy ===== *)
theory SFI_Verifier
  imports SFI_Sizes SFI_Disasm
begin

text \<open>
  The load-time verifier of \<^verbatim>\<open>src/loader.c\<close> (\<^verbatim>\<open>classify_ea\<close> and \<^verbatim>\<open>verify\<close>). The body of
  \<^verbatim>\<open>verify\<close> is split at its outer \<^verbatim>\<open>switch (arg_types)\<close>: one definition per operand
  configuration computes the flag word, \<open>insn_flags\<close> selects among them, \<open>check_flags\<close>
  and \<open>update_state\<close> are the code after the switch, \<open>verify_step\<close> is one iteration and
  \<open>verify_loop\<close> the loop. Every call of \<^verbatim>\<open>fail_verify\<close>, \<^verbatim>\<open>fail_verify_int\<close> and
  \<^verbatim>\<open>fail_verify_insn\<close>, which print and exit, is a value of \<open>vfail\<close>.
\<close>

section \<open>Failures\<close>

datatype fail_arg = Arg_type x86_insn_type | Arg_word u32 | Arg_config "x86_op_type list"

datatype vfail =
    fail_verify string int
  | fail_verify_group string x86_insn_group int
  | fail_verify_int string x86_insn_type int
  | fail_verify_insn string fail_arg int
  | assert_explicit_count int
  | args_overrun int  \<comment> \<open>more than the ten operands \<^verbatim>\<open>args\<close> has room for\<close>

section \<open>Registers and effective addresses\<close>

definition REGISTER_EAX :: nat where [reg_const]: "REGISTER_EAX = 1"
definition REGISTER_ECX :: nat where [reg_const]: "REGISTER_ECX = 2"
definition REGISTER_EDX :: nat where [reg_const]: "REGISTER_EDX = 3"
definition REGISTER_EBX :: nat where [reg_const]: "REGISTER_EBX = 4"
definition REGISTER_ESP :: nat where [reg_const]: "REGISTER_ESP = 5"
definition REGISTER_EBP :: nat where [reg_const]: "REGISTER_EBP = 6"
definition REGISTER_ESI :: nat where [reg_const]: "REGISTER_ESI = 7"
definition REGISTER_EDI :: nat where [reg_const]: "REGISTER_EDI = 8"

datatype eff_addr_type =
  EA_EBX_EXACT | EA_ESP_EXACT | EA_EBP_OFFSET | EA_ESP_OFFSET | EA_DIRECT | EA_OTHER

definition classify_ea :: "x86_ea \<Rightarrow> eff_addr_type" where
  "classify_ea ea =
     (if reg_id (ea_base ea) = REGISTER_EBX \<and> reg_id (ea_index ea) = 0 \<and> ea_disp_size ea = 0
      then EA_EBX_EXACT
      else if reg_id (ea_base ea) = REGISTER_ESP \<and> reg_id (ea_index ea) = 0 \<and> ea_disp_size ea = 0
      then EA_ESP_EXACT
      else if reg_id (ea_base ea) = REGISTER_EBP \<and> reg_id (ea_index ea) = 0 \<and>
        (ea_disp_size ea \<le> 2 \<or> (ea_disp_sign ea \<and> sint (ea_disp ea) > -32768)
          \<or> ea_disp ea < 32768)
      then EA_EBP_OFFSET
      else if reg_id (ea_base ea) = REGISTER_ESP \<and> reg_id (ea_index ea) = 0 \<and> ea_disp_size ea \<le> 1
      then EA_ESP_OFFSET
      else if reg_id (ea_base ea) = 0 \<and> reg_id (ea_index ea) = 0 \<and> ea_disp_size ea = 4
      then EA_DIRECT
      else EA_OTHER)"

section \<open>The flag word\<close>

definition BUMP_ESP :: u32 where [c_const]: "BUMP_ESP = 0x1"
definition CHANGE_EBP :: u32 where [c_const]: "CHANGE_EBP = 0x2"
definition CHANGE_ESP :: u32 where [c_const]: "CHANGE_ESP = 0x4"
definition EBP_DATA_SAFE :: u32 where [c_const]: "EBP_DATA_SAFE = 0x8"
definition EBX_CODE_SAFE :: u32 where [c_const]: "EBX_CODE_SAFE = 0x10"
definition EBX_DATA_SAFE :: u32 where [c_const]: "EBX_DATA_SAFE = 0x20"
definition IJUMP :: u32 where [c_const]: "IJUMP = 0x40"
definition IREAD :: u32 where [c_const]: "IREAD = 0x80"
definition IWRITE :: u32 where [c_const]: "IWRITE = 0x100"
definition JUMP :: u32 where [c_const]: "JUMP = 0x200"
definition STACK_TOP_SAFE :: u32 where [c_const]: "STACK_TOP_SAFE = 0x400"
definition USE_ESP :: u32 where [c_const]: "USE_ESP = 0x800"
definition USE_EBP :: u32 where [c_const]: "USE_EBP = 0x1000"

definition DATA_SAFETY :: u32 where [c_const]: "DATA_SAFETY = EBX_DATA_SAFE"
definition CODE_SAFETY :: u32 where [c_const]: "CODE_SAFETY = EBX_CODE_SAFE"
definition STACK_TOP_SAFETY :: u32 where [c_const]: "STACK_TOP_SAFETY = STACK_TOP_SAFE"
definition EBP_SAFETY :: u32 where [c_const]: "EBP_SAFETY = EBP_DATA_SAFE"
definition ESP_SAFETY :: u32 where [c_const]: "ESP_SAFETY = USE_ESP"

section \<open>The state of the loop\<close>

record vstate =
  offset :: int
  next_aligned :: int
  safety :: u32
  unsafety :: u32
  bump_count :: nat

definition init_vstate :: vstate where
  "init_vstate = \<lparr>offset = 0, next_aligned = 0, safety = 0, unsafety = 0, bump_count = 0\<rparr>"

section \<open>Permitted instructions\<close>

definition group_ok :: "x86_insn_group \<Rightarrow> bool" where
  "group_ok g \<longleftrightarrow> g \<in> {insn_controlflow, insn_arithmetic, insn_logic, insn_stack,
     insn_comparison, insn_move, insn_bit_manip, insn_fpu, insn_interrupt, insn_other}"

definition type_ok :: "x86_insn_type \<Rightarrow> bool" where
  "type_ok t \<longleftrightarrow> t \<in> {insn_jmp, insn_jcc, insn_call, insn_return,
     insn_add, insn_sub, insn_mul, insn_div, insn_inc, insn_dec,
     insn_shl, insn_shr, insn_rol, insn_ror,
     insn_and, insn_or, insn_xor, insn_not, insn_neg,
     insn_push, insn_pop, insn_pushflags, insn_popflags, insn_leave,
     insn_test, insn_cmp, insn_mov, insn_movcc, insn_bittest,
     insn_fpu_0xa000, insn_debug, insn_nop, insn_szconv}"

section \<open>Operand configurations\<close>

text \<open>The explicit operands, in the disassembler's order.\<close>

definition explicit_args :: "x86_insn \<Rightarrow> x86_op list" where
  "explicit_args insn = filter (\<lambda>op. \<not> op_implied op) (operands insn)"

text \<open>The switch is on a packed integer: a count in the low four bits and operand types
  in the nibbles above. The macro \<^verbatim>\<open>TERNARY\<close> puts its first operand type in the last
  nibble too, so the third operand's type does not reach the switch.\<close>

datatype arg_types =
  No_args | UNARY_args x86_op_type | BINARY_args x86_op_type x86_op_type
| TERNARY_args x86_op_type x86_op_type x86_op_type | Bad_args

definition TERNARY :: "x86_op_type \<Rightarrow> x86_op_type \<Rightarrow> x86_op_type \<Rightarrow> arg_types" where
  "TERNARY op1 op2 op3 = TERNARY_args op1 op2 op1"

fun arg_types_of :: "x86_op list \<Rightarrow> arg_types" where
  "arg_types_of [] = No_args"
| "arg_types_of [a] = UNARY_args (op_type a)"
| "arg_types_of [a, b] = BINARY_args (op_type a) (op_type b)"
| "arg_types_of [a, b, c] = TERNARY (op_type a) (op_type b) (op_type c)"
| "arg_types_of _ = Bad_args"

text \<open>The integer that the macros compute, for a numbering \<open>code\<close> of the operand types.\<close>

fun packed_args :: "(x86_op_type \<Rightarrow> nat) \<Rightarrow> arg_types \<Rightarrow> int" where
  "packed_args code No_args = 0"
| "packed_args code (UNARY_args a) = push_bit 4 (int (code a)) OR 1"
| "packed_args code (BINARY_args a b) = push_bit 8 (int (code a)) OR push_bit 4 (int (code b)) OR 2"
| "packed_args code (TERNARY_args a b c) =
     push_bit 12 (int (code a)) OR push_bit 8 (int (code b)) OR push_bit 4 (int (code c)) OR 3"
| "packed_args code Bad_args = -1"

text \<open>\<^verbatim>\<open>reg.id == r || reg.alias == r\<close>\<close>

definition names_reg :: "x86_reg \<Rightarrow> nat \<Rightarrow> bool" where
  "names_reg r k \<longleftrightarrow> reg_id r = k \<or> reg_alias r = k"

text \<open>The flags for a change of a register operand.\<close>

definition change_flags :: "x86_reg \<Rightarrow> u32" where
  "change_flags r =
     (if names_reg r REGISTER_EBP then CHANGE_EBP else 0) OR
     (if names_reg r REGISTER_ESP then CHANGE_ESP else 0)"

section \<open>Flags, by operand configuration\<close>

type_synonym flags_result = "vfail + u32"

definition flags_none :: "x86_insn_type \<Rightarrow> vstate \<Rightarrow> flags_result" where
  "flags_none ty s =
     (if ty = insn_nop then Inr 0
      else if ty = insn_return then
        Inr (if has (safety s) STACK_TOP_SAFETY then JUMP OR USE_ESP OR CHANGE_ESP
             else JUMP OR IJUMP OR USE_ESP OR CHANGE_ESP)
      else if ty = insn_leave then
        Inr (if \<not> has (unsafety s) CHANGE_EBP then USE_ESP OR CHANGE_EBP
             else USE_ESP OR CHANGE_EBP OR USE_ESP)
      else if ty \<in> {insn_pushflags, insn_popflags} then Inr (USE_ESP OR CHANGE_ESP)
      else if ty \<in> {insn_szconv, insn_fpu_0xa000, insn_debug, insn_mov} then Inr 0
      else Inl (fail_verify_insn ''Unknown no-argument insn'' (Arg_type ty) (offset s)))"

text \<open>The target is computed modulo \<open>2 ^ 32\<close>; a near offset is a signed char.\<close>

definition relative_target :: "layout \<Rightarrow> x86_insn \<Rightarrow> x86_op \<Rightarrow> int \<Rightarrow> u32" where
  "relative_target L insn a off =
     CODE_START L + word_of_int off + insn_size insn +
       (if op_type a = op_relative_near then scast (data_relative_near a) else data_relative_far a)"

definition flags_relative :: "layout \<Rightarrow> x86_insn \<Rightarrow> x86_op \<Rightarrow> vstate \<Rightarrow> flags_result" where
  "flags_relative L insn a s =
     (let target = relative_target L insn a (offset s); ty = insn_type insn
      in if ty \<in> {insn_jcc, insn_jmp, insn_call} then
           if has target (CHUNK_SIZE L - 1)
           then Inl (fail_verify_insn ''Unaligned literal target'' (Arg_word target) (offset s))
           else if target < CODE_START L \<or> target \<ge> CODE_END L
           then Inl (fail_verify_insn ''Literal target out of range'' (Arg_word target) (offset s))
           else Inr (if ty = insn_call then JUMP OR USE_ESP else JUMP)
         else Inl (fail_verify_insn ''Unknown relative insn'' (Arg_type ty) (offset s)))"

definition flags_reg :: "x86_insn_type \<Rightarrow> x86_op \<Rightarrow> vstate \<Rightarrow> flags_result" where
  "flags_reg ty a s =
     (let flags = change_flags (data_reg a)
      in if ty = insn_push then Inr (USE_ESP OR CHANGE_ESP)
         else if ty = insn_pop then Inr (flags OR USE_ESP OR CHANGE_ESP)
         else if ty \<in> {insn_inc, insn_dec, insn_movcc, insn_fpu_0xa000,
                       insn_neg, insn_not, insn_mul, insn_div} then Inr flags
         else if ty \<in> {insn_call, insn_jmp} then
           Inr ((if ty = insn_call then flags OR USE_ESP else flags) OR JUMP OR
                (if reg_id (data_reg a) = REGISTER_EBX \<and> has (safety s) CODE_SAFETY
                 then 0 else IJUMP))
         else Inl (fail_verify_insn ''Unknown one-reg insn'' (Arg_type ty) (offset s)))"

definition flags_imm :: "x86_insn_type \<Rightarrow> vstate \<Rightarrow> flags_result" where
  "flags_imm ty s =
     (if ty = insn_push then Inr (USE_ESP OR CHANGE_ESP)
      else if ty = insn_return then Inr (USE_ESP OR CHANGE_ESP)
      else Inl (fail_verify_insn ''Unknown one-immediate insn'' (Arg_type ty) (offset s)))"

definition flags_reg_imm :: "layout \<Rightarrow> x86_insn_type \<Rightarrow> x86_op \<Rightarrow> x86_op \<Rightarrow> vstate \<Rightarrow> flags_result" where
  "flags_reg_imm L ty a b s =
     (let r = reg_id (data_reg a);
          flags = (if names_reg (data_reg a) REGISTER_EBP then CHANGE_EBP else 0) OR
            (if r = REGISTER_ESP then
               if ty \<in> {insn_add, insn_sub} \<and> op_datatype b = op_byte then BUMP_ESP
               else if ty = insn_and \<and> op_datatype b = op_byte \<and> data_dword b = 0xf0 then BUMP_ESP
               else CHANGE_ESP
             else 0)
      in if ty = insn_and then
           Inr (if r = REGISTER_EBX \<and> op_datatype b = op_dword \<and> data_dword b = DATA_MASK L
                then EBX_DATA_SAFE
                else if r = REGISTER_EBX \<and> op_datatype b = op_dword \<and> data_dword b = JUMP_MASK L
                then EBX_CODE_SAFE
                else if r = REGISTER_EBP \<and> op_datatype b = op_dword \<and> data_dword b = DATA_MASK L
                then EBP_DATA_SAFE
                else if r = REGISTER_ESP \<and> op_datatype b = op_dword \<and> data_dword b = DATA_MASK L
                then ESP_SAFETY
                else flags)
         else if ty \<in> {insn_add, insn_sub, insn_mov, insn_shr, insn_shl, insn_rol, insn_ror,
                       insn_cmp, insn_test, insn_or, insn_xor} then Inr flags
         else Inl (fail_verify_insn ''Unknown imm,reg insn'' (Arg_type ty) (offset s)))"

definition flags_reg_reg :: "x86_insn_type \<Rightarrow> x86_op \<Rightarrow> x86_op \<Rightarrow> vstate \<Rightarrow> flags_result" where
  "flags_reg_reg ty a b s =
     (let flags = change_flags (data_reg b)
      in if ty = insn_mov then
           Inr (if reg_id (data_reg a) = REGISTER_ESP \<and> reg_id (data_reg b) = REGISTER_EBP \<and>
                   \<not> has (unsafety s) (CHANGE_ESP OR BUMP_ESP) then EBP_SAFETY
                else if reg_id (data_reg a) = REGISTER_EBP \<and> reg_id (data_reg b) = REGISTER_ESP \<and>
                   \<not> has (unsafety s) CHANGE_EBP then USE_ESP
                else flags)
         else if ty \<in> {insn_add, insn_sub, insn_mul, insn_div, insn_shr, insn_shl, insn_rol,
                       insn_ror, insn_cmp, insn_test, insn_and, insn_or, insn_xor,
                       insn_bittest, insn_fpu_0xa000} then Inr flags
         else Inl (fail_verify_insn ''Unknown reg,reg insn'' (Arg_type ty) (offset s)))"

definition flags_reg_expr :: "x86_insn_type \<Rightarrow> x86_op \<Rightarrow> vstate \<Rightarrow> flags_result" where
  "flags_reg_expr ty a s =
     (if ty \<in> {insn_mov, insn_cmp, insn_test, insn_add, insn_sub, insn_and, insn_or, insn_xor,
               insn_mul, insn_div, insn_bittest} then Inr (change_flags (data_reg a))
      else Inl (fail_verify_insn ''Unknown (expr),reg insn'' (Arg_type ty) (offset s)))"

definition direct_in_data :: "layout \<Rightarrow> x86_ea \<Rightarrow> bool" where
  "direct_in_data L ea \<longleftrightarrow>
     classify_ea ea = EA_DIRECT \<and> ea_disp ea \<ge> DATA_START L \<and> ea_disp ea < DATA_END L"

definition flags_expr :: "layout \<Rightarrow> x86_insn_type \<Rightarrow> x86_op \<Rightarrow> vstate \<Rightarrow> flags_result" where
  "flags_expr L ty a s =
     (if ty = insn_push then Inr (USE_ESP OR CHANGE_ESP)
      else if ty = insn_fpu_0xa000 then Inr 0
      else if ty \<in> {insn_mul, insn_div} then Inr 0
      else if ty \<in> {insn_inc, insn_dec, insn_not, insn_neg, insn_movcc} then
        (let ea = data_expression a; ea_type = classify_ea ea
         in Inr (if ea_type = EA_EBX_EXACT \<and> has (safety s) DATA_SAFETY then 0
                 else if ea_type = EA_EBP_OFFSET \<and> \<not> has (unsafety s) CHANGE_EBP then 0
                 else if ea_type \<in> {EA_ESP_OFFSET, EA_ESP_EXACT} \<and> \<not> has (unsafety s) CHANGE_ESP
                 then USE_ESP
                 else if direct_in_data L ea then 0
                 else IWRITE))
      else Inl (fail_verify_insn ''Unknown unary memory insn'' (Arg_type ty) (offset s)))"

text \<open>The two configurations that store through an expression start alike: either the
  flags are settled at once, or \<^verbatim>\<open>simple\<close> is set and the instruction type decides.\<close>

definition simple_write :: "u32 \<Rightarrow> x86_insn_type set \<Rightarrow> string \<Rightarrow> x86_insn_type \<Rightarrow> vstate \<Rightarrow> flags_result" where
  "simple_write simple writers msg ty s =
     (if ty \<in> {insn_cmp, insn_test} then Inr (if simple \<noteq> 0 then simple else IREAD)
      else if ty \<in> writers then Inr (if simple \<noteq> 0 then simple else IWRITE)
      else Inl (fail_verify_insn msg (Arg_type ty) (offset s)))"

definition store_types :: "x86_insn_type set" where
  "store_types = {insn_mov, insn_add, insn_sub, insn_and, insn_or, insn_xor,
     insn_shr, insn_shl, insn_rol, insn_ror}"

definition flags_expr_reg :: "layout \<Rightarrow> x86_insn_type \<Rightarrow> x86_op \<Rightarrow> vstate \<Rightarrow> flags_result" where
  "flags_expr_reg L ty a s =
     (let ea = data_expression a; ea_type = classify_ea ea;
          settle = (\<lambda>simple. simple_write simple store_types ''Unknown reg,(expr) insn'' ty s)
      in if ea_type = EA_EBX_EXACT \<and> has (safety s) DATA_SAFETY then Inr 0
         else if ea_type = EA_EBP_OFFSET \<and> \<not> has (unsafety s) CHANGE_EBP then settle USE_EBP
         else if ea_type \<in> {EA_ESP_OFFSET, EA_ESP_EXACT} \<and> \<not> has (unsafety s) CHANGE_ESP
         then settle USE_ESP
         else if direct_in_data L ea then Inr 0
         else settle 0)"

definition flags_expr_imm :: "layout \<Rightarrow> x86_insn_type \<Rightarrow> x86_op \<Rightarrow> x86_op \<Rightarrow> vstate \<Rightarrow> flags_result" where
  "flags_expr_imm L ty a b s =
     (let ea = data_expression a; ea_type = classify_ea ea;
          settle = (\<lambda>simple. simple_write simple store_types ''Unknown imm,(expr) insn'' ty s)
      in if ea_type = EA_EBX_EXACT \<and> has (safety s) DATA_SAFETY then Inr 0
         else if ea_type = EA_EBP_OFFSET \<and> \<not> has (unsafety s) CHANGE_EBP then settle USE_EBP
         else if ea_type = EA_ESP_EXACT \<and> ty = insn_and \<and> op_datatype b = op_dword \<and>
                 data_dword b = JUMP_MASK L then Inr (USE_ESP OR STACK_TOP_SAFE)
         else if ea_type \<in> {EA_ESP_OFFSET, EA_ESP_EXACT} \<and> \<not> has (unsafety s) CHANGE_ESP
         then settle USE_ESP
         else if direct_in_data L ea then Inr 0
         else settle 0)"

definition flags_offset_reg :: "layout \<Rightarrow> x86_insn_type \<Rightarrow> x86_op \<Rightarrow> vstate \<Rightarrow> flags_result" where
  "flags_offset_reg L ty a s =
     (if ty = insn_mov then
        (let d_offset = data_offset a
         in if d_offset \<ge> DATA_START L \<and> d_offset < DATA_END L then Inr 0
            else Inl (fail_verify_insn ''Direct store outside data region'' (Arg_word d_offset)
                        (offset s)))
      else Inl (fail_verify_insn ''Unknown direct store insn'' (Arg_type ty) (offset s)))"

definition flags_reg_offset :: "x86_insn_type \<Rightarrow> vstate \<Rightarrow> flags_result" where
  "flags_reg_offset ty s =
     (if ty = insn_mov then Inr 0
      else Inl (fail_verify_insn ''Unknown direct load insn'' (Arg_type ty) (offset s)))"

definition flags_reg_reg_reg :: "x86_insn_type \<Rightarrow> x86_op \<Rightarrow> x86_op \<Rightarrow> vstate \<Rightarrow> flags_result" where
  "flags_reg_reg_reg ty b c s =
     (if ty \<in> {insn_fpu_0xa000, insn_shr, insn_shl, insn_rol, insn_ror, insn_inc, insn_dec,
               insn_mul, insn_div}
      then Inr (change_flags (data_reg b) OR change_flags (data_reg c))
      else Inl (fail_verify_insn ''Unknown 3-reg insn'' (Arg_type ty) (offset s)))"

definition flags_reg_expr_reg :: "x86_insn_type \<Rightarrow> vstate \<Rightarrow> flags_result" where
  "flags_reg_expr_reg ty s =
     (if ty \<in> {insn_mul, insn_div} then Inr 0
      else Inl (fail_verify_insn ''Unknown (expr),reg,reg insn'' (Arg_type ty) (offset s)))"

section \<open>One iteration\<close>

text \<open>The outer switch.\<close>

definition insn_flags :: "layout \<Rightarrow> x86_insn \<Rightarrow> x86_op list \<Rightarrow> vstate \<Rightarrow> flags_result" where
  "insn_flags L insn args s =
     (let ty = insn_type insn; at = arg_types_of args
      in if at = No_args then flags_none ty s
         else if at \<in> {UNARY_args op_relative_near, UNARY_args op_relative_far}
         then flags_relative L insn (args ! 0) s
         else if at = UNARY_args op_register then flags_reg ty (args ! 0) s
         else if at = UNARY_args op_immediate then flags_imm ty s
         else if at = BINARY_args op_register op_immediate
         then flags_reg_imm L ty (args ! 0) (args ! 1) s
         else if at = BINARY_args op_register op_register
         then flags_reg_reg ty (args ! 0) (args ! 1) s
         else if at = BINARY_args op_register op_expression then flags_reg_expr ty (args ! 0) s
         else if at = UNARY_args op_expression then flags_expr L ty (args ! 0) s
         else if at = BINARY_args op_expression op_register then flags_expr_reg L ty (args ! 0) s
         else if at = BINARY_args op_expression op_immediate
         then flags_expr_imm L ty (args ! 0) (args ! 1) s
         else if at = BINARY_args op_offset op_register then flags_offset_reg L ty (args ! 0) s
         else if at = BINARY_args op_register op_offset then flags_reg_offset ty s
         else if at = TERNARY op_register op_register op_register
         then flags_reg_reg_reg ty (args ! 1) (args ! 2) s
         else if at = TERNARY op_register op_expression op_register then flags_reg_expr_reg ty s
         else if at = TERNARY op_relative_far op_register op_relative_far
         then Inl (fail_verify_insn ''Unknown 3-arg relative insn'' (Arg_type ty) (offset s))
         else Inl (fail_verify_insn ''Illegal arg configuration''
                     (Arg_config (map op_type args)) (offset s)))"

text \<open>The chain of rejections after the switch.\<close>

definition check_flags :: "u32 \<Rightarrow> vstate \<Rightarrow> vfail + unit" where
  "check_flags flags s =
     (if has flags IJUMP
      then Inl (fail_verify_insn ''Unsafe indirect jump'' (Arg_word flags) (offset s))
      else if has flags IWRITE
      then Inl (fail_verify_insn ''Unsafe indirect write'' (Arg_word flags) (offset s))
      else if has flags JUMP \<and> has (unsafety s) (CHANGE_ESP OR BUMP_ESP)
      then Inl (fail_verify_insn ''Unsafe %esp escapes by jump'' (Arg_word flags) (offset s))
      else if has flags JUMP \<and> has (unsafety s) CHANGE_EBP
      then Inl (fail_verify_insn ''Unsafe %ebp escapes by jump'' (Arg_word flags) (offset s))
      else Inr ())"

text \<open>The update of the tracked facts.\<close>

definition update_state :: "x86_insn_type \<Rightarrow> u32 \<Rightarrow> vstate \<Rightarrow> vstate" where
  "update_state ty flags s =
     (let safety1 = (if ty = insn_popflags then safety s AND (EBX_DATA_SAFE OR EBX_CODE_SAFE) else 0);
          safety2 = safety1 OR (flags AND (EBX_DATA_SAFE OR EBX_CODE_SAFE OR STACK_TOP_SAFE OR EBP_DATA_SAFE));
          unsafety1 = unsafety s OR (flags AND (CHANGE_ESP OR CHANGE_EBP OR BUMP_ESP));
          bump1 = (if has flags BUMP_ESP then Suc (bump_count s) else bump_count s);
          unsafety2 = (if bump1 \<ge> 250 then unsafety1 OR CHANGE_ESP else unsafety1);
          unsafety3 = (if has flags USE_ESP then unsafety2 AND NOT (CHANGE_ESP OR BUMP_ESP) else unsafety2);
          bump2 = (if has flags USE_ESP then 0 else bump1);
          unsafety4 = (if has flags EBP_SAFETY then unsafety3 AND NOT CHANGE_EBP else unsafety3)
      in s\<lparr>safety := safety2, unsafety := unsafety4, bump_count := bump2\<rparr>)"

text \<open>The alignment bookkeeping at the top of the loop body.\<close>

definition align_step :: "layout \<Rightarrow> vstate \<Rightarrow> vfail + vstate" where
  "align_step L s =
     (if offset s = next_aligned s
      then Inr (s\<lparr>next_aligned := next_aligned s + uint (CHUNK_SIZE L)\<rparr>)
      else if offset s > next_aligned s then Inl (fail_verify ''Bad chunk alignment'' (offset s))
      else Inr s)"

definition screen_insn :: "x86_insn \<Rightarrow> int \<Rightarrow> int \<Rightarrow> vfail + x86_op list" where
  "screen_insn insn len off =
     (if len \<le> 0 then Inl (fail_verify ''Illegal instruction'' off)
      else if \<not> group_ok (insn_group insn)
      then Inl (fail_verify_group ''Illegal insn group'' (insn_group insn) off)
      else if \<not> type_ok (insn_type insn)
      then Inl (fail_verify_int ''Illegal insn type'' (insn_type insn) off)
      else if explicit_count insn > 3 then Inl (assert_explicit_count off)
      else if length (explicit_args insn) > 10 then Inl (args_overrun off)
      else Inr (explicit_args insn))"

definition verify_step :: "layout \<Rightarrow> disassembler \<Rightarrow> vstate \<Rightarrow> vfail + vstate" where
  "verify_step L disasm s =
     res_bind (align_step L s) (\<lambda>s1.
       let (len, insn) = disasm (offset s1)
       in res_bind (screen_insn insn len (offset s1)) (\<lambda>args.
          res_bind (insn_flags L insn args s1) (\<lambda>flags.
          res_bind (check_flags flags s1) (\<lambda>_.
          Inr ((update_state (insn_type insn) flags s1)\<lparr>offset := offset s1 + len\<rparr>)))))"

section \<open>The loop\<close>

lemma align_step_offset: "align_step L s = Inr s1 \<Longrightarrow> offset s1 = offset s"
  by (auto simp: align_step_def split: if_splits)

lemma screen_insn_Inr:
  "screen_insn insn len off = Inr args \<longleftrightarrow>
     0 < len \<and> group_ok (insn_group insn) \<and> type_ok (insn_type insn) \<and> explicit_count insn \<le> 3 \<and>
     args = explicit_args insn \<and> length args \<le> 10"
  by (auto simp: screen_insn_def)

text \<open>One iteration succeeds exactly when every stage does.\<close>

lemma verify_step_Inr:
  "verify_step L disasm s = Inr s' \<longleftrightarrow>
     (\<exists>s1 len insn flags. align_step L s = Inr s1 \<and> disasm (offset s) = (len, insn) \<and>
        screen_insn insn len (offset s) = Inr (explicit_args insn) \<and>
        insn_flags L insn (explicit_args insn) s1 = Inr flags \<and>
        check_flags flags s1 = Inr () \<and>
        s' = (update_state (insn_type insn) flags s1)\<lparr>offset := offset s + len\<rparr>)"
  by (cases "disasm (offset s)")
     (auto simp: verify_step_def screen_insn_Inr align_step_offset Let_def)

lemma verify_step_progress: "verify_step L disasm s = Inr s' \<Longrightarrow> offset s < offset s'"
  by (auto simp: verify_step_Inr screen_insn_Inr)

function verify_loop :: "layout \<Rightarrow> disassembler \<Rightarrow> int \<Rightarrow> vstate \<Rightarrow> vfail + vstate" where
  "verify_loop L disasm code_len s =
     (if offset s < code_len
      then case verify_step L disasm s of
             Inl e \<Rightarrow> Inl e
           | Inr s' \<Rightarrow> verify_loop L disasm code_len s'
      else Inr s)"
  by pat_completeness auto
termination
  by (relation "measure (\<lambda>(L, d, n, s). nat (n - offset s))") (auto dest: verify_step_progress)

declare verify_loop.simps [simp del]

definition verify :: "layout \<Rightarrow> disassembler \<Rightarrow> int \<Rightarrow> vfail + vstate" where
  "verify L disasm code_len = verify_loop L disasm code_len init_vstate"

end
