(* ===== verification/SFI_Verifier_Inv.thy ===== *)
theory SFI_Verifier_Inv
  imports SFI_Verifier
begin

text \<open>
  What an accepted module looks like. The states of the verifier's loop are the inductive
  predicate \<open>vreach\<close>; the lemmas say what the flag words mean, which instruction set a
  tracked fact, and what the instructions that pass \<open>check_flags\<close> can be.
\<close>

section \<open>Flag words as bits\<close>

lemma has_flag [mask_bit]:
  "has x BUMP_ESP \<longleftrightarrow> bit x 0" "has x CHANGE_EBP \<longleftrightarrow> bit x 1" "has x CHANGE_ESP \<longleftrightarrow> bit x 2"
  "has x EBP_DATA_SAFE \<longleftrightarrow> bit x 3" "has x EBX_CODE_SAFE \<longleftrightarrow> bit x 4" "has x EBX_DATA_SAFE \<longleftrightarrow> bit x 5"
  "has x IJUMP \<longleftrightarrow> bit x 6" "has x IREAD \<longleftrightarrow> bit x 7" "has x IWRITE \<longleftrightarrow> bit x 8"
  "has x JUMP \<longleftrightarrow> bit x 9" "has x STACK_TOP_SAFE \<longleftrightarrow> bit x 10" "has x USE_ESP \<longleftrightarrow> bit x 11"
  "has x USE_EBP \<longleftrightarrow> bit x 12"
  using has_exp [of x 0] has_exp [of x 1] has_exp [of x 2] has_exp [of x 3] has_exp [of x 4]
    has_exp [of x 5] has_exp [of x 6] has_exp [of x 7] has_exp [of x 8] has_exp [of x 9]
    has_exp [of x 10] has_exp [of x 11] has_exp [of x 12]
  by (simp_all add: c_const)

lemma has_alias [mask_bit]:
  "has x DATA_SAFETY \<longleftrightarrow> bit x 5" "has x CODE_SAFETY \<longleftrightarrow> bit x 4"
  "has x STACK_TOP_SAFETY \<longleftrightarrow> bit x 10" "has x EBP_SAFETY \<longleftrightarrow> bit x 3" "has x ESP_SAFETY \<longleftrightarrow> bit x 11"
  unfolding DATA_SAFETY_def CODE_SAFETY_def STACK_TOP_SAFETY_def EBP_SAFETY_def ESP_SAFETY_def
  by (simp_all only: mask_bit)

lemma bit_flag [mask_bit]:
  "bit BUMP_ESP n \<longleftrightarrow> n = 0" "bit CHANGE_EBP n \<longleftrightarrow> n = 1" "bit CHANGE_ESP n \<longleftrightarrow> n = 2"
  "bit EBP_DATA_SAFE n \<longleftrightarrow> n = 3" "bit EBX_CODE_SAFE n \<longleftrightarrow> n = 4" "bit EBX_DATA_SAFE n \<longleftrightarrow> n = 5"
  "bit IJUMP n \<longleftrightarrow> n = 6" "bit IREAD n \<longleftrightarrow> n = 7" "bit IWRITE n \<longleftrightarrow> n = 8"
  "bit JUMP n \<longleftrightarrow> n = 9" "bit STACK_TOP_SAFE n \<longleftrightarrow> n = 10" "bit USE_ESP n \<longleftrightarrow> n = 11"
  "bit USE_EBP n \<longleftrightarrow> n = 12" "bit EBP_SAFETY n \<longleftrightarrow> n = 3" "bit ESP_SAFETY n \<longleftrightarrow> n = 11"
proof -
  have e: "bit (2 ^ m :: u32) n \<longleftrightarrow> n = m" if "m < 32" for m
    using that by (auto simp: bit_simps)
  show "bit BUMP_ESP n \<longleftrightarrow> n = 0" "bit CHANGE_EBP n \<longleftrightarrow> n = 1" "bit CHANGE_ESP n \<longleftrightarrow> n = 2"
    "bit EBP_DATA_SAFE n \<longleftrightarrow> n = 3" "bit EBX_CODE_SAFE n \<longleftrightarrow> n = 4" "bit EBX_DATA_SAFE n \<longleftrightarrow> n = 5"
    "bit IJUMP n \<longleftrightarrow> n = 6" "bit IREAD n \<longleftrightarrow> n = 7" "bit IWRITE n \<longleftrightarrow> n = 8"
    "bit JUMP n \<longleftrightarrow> n = 9" "bit STACK_TOP_SAFE n \<longleftrightarrow> n = 10" "bit USE_ESP n \<longleftrightarrow> n = 11"
    "bit USE_EBP n \<longleftrightarrow> n = 12" "bit EBP_SAFETY n \<longleftrightarrow> n = 3" "bit ESP_SAFETY n \<longleftrightarrow> n = 11"
    using e [of 0] e [of 1] e [of 2] e [of 3] e [of 4] e [of 5] e [of 6] e [of 7] e [of 8]
      e [of 9] e [of 10] e [of 11] e [of 12] by (simp_all add: c_const)
qed

lemmas bits = mask_bit has_or_mask bit_or_iff bit_and_iff bit_not_iff bit_if

section \<open>Operand configurations\<close>

lemma arg_types_of_eq:
  "arg_types_of as = No_args \<longleftrightarrow> as = []"
  "arg_types_of as = UNARY_args t \<longleftrightarrow> (\<exists>a. as = [a] \<and> op_type a = t)"
  "arg_types_of as = BINARY_args t u \<longleftrightarrow> (\<exists>a b. as = [a, b] \<and> op_type a = t \<and> op_type b = u)"
  "arg_types_of as = TERNARY_args t u v \<longleftrightarrow>
     (\<exists>a b c. as = [a, b, c] \<and> op_type a = t \<and> op_type b = u \<and> v = t)"
  by (cases as rule: arg_types_of.cases; auto simp: TERNARY_def)+

lemma insn_flags_cases:
  assumes "insn_flags L insn as s = Inr f"
  obtains (none) "as = []" "flags_none (insn_type insn) s = Inr f"
  | (relative) a where "as = [a]" "op_type a \<in> {op_relative_near, op_relative_far}"
      "flags_relative L insn a s = Inr f"
  | (reg) a where "as = [a]" "op_type a = op_register" "flags_reg (insn_type insn) a s = Inr f"
  | (imm) a where "as = [a]" "op_type a = op_immediate" "flags_imm (insn_type insn) s = Inr f"
  | (reg_imm) a b where "as = [a, b]" "op_type a = op_register" "op_type b = op_immediate"
      "flags_reg_imm L (insn_type insn) a b s = Inr f"
  | (reg_reg) a b where "as = [a, b]" "op_type a = op_register" "op_type b = op_register"
      "flags_reg_reg (insn_type insn) a b s = Inr f"
  | (reg_expr) a b where "as = [a, b]" "op_type a = op_register" "op_type b = op_expression"
      "flags_reg_expr (insn_type insn) a s = Inr f"
  | (expr) a where "as = [a]" "op_type a = op_expression" "flags_expr L (insn_type insn) a s = Inr f"
  | (expr_reg) a b where "as = [a, b]" "op_type a = op_expression" "op_type b = op_register"
      "flags_expr_reg L (insn_type insn) a s = Inr f"
  | (expr_imm) a b where "as = [a, b]" "op_type a = op_expression" "op_type b = op_immediate"
      "flags_expr_imm L (insn_type insn) a b s = Inr f"
  | (offset_reg) a b where "as = [a, b]" "op_type a = op_offset" "op_type b = op_register"
      "flags_offset_reg L (insn_type insn) a s = Inr f"
  | (reg_offset) a b where "as = [a, b]" "op_type a = op_register" "op_type b = op_offset"
      "flags_reg_offset (insn_type insn) s = Inr f"
  | (reg_reg_reg) a b c where "as = [a, b, c]" "op_type a = op_register" "op_type b = op_register"
      "flags_reg_reg_reg (insn_type insn) b c s = Inr f"
  | (reg_expr_reg) a b c where "as = [a, b, c]" "op_type a = op_register" "op_type b = op_expression"
      "flags_reg_expr_reg (insn_type insn) s = Inr f"
proof (cases "arg_types_of as")
  case No_args
  then show thesis
    using assms none by (auto simp: insn_flags_def arg_types_of_eq)
next
  case (UNARY_args t)
  then obtain a where a: "as = [a]" "op_type a = t" by (auto simp: arg_types_of_eq)
  show thesis
    using assms a relative [OF a(1)] reg [OF a(1)] imm [OF a(1)] expr [OF a(1)]
    by (cases t) (simp_all add: insn_flags_def TERNARY_def)
next
  case (BINARY_args t u)
  then obtain a b where ab: "as = [a, b]" "op_type a = t" "op_type b = u"
    by (auto simp: arg_types_of_eq)
  show thesis
    using assms ab reg_imm [OF ab(1)] reg_reg [OF ab(1)] reg_expr [OF ab(1)] expr_reg [OF ab(1)]
      expr_imm [OF ab(1)] offset_reg [OF ab(1)] reg_offset [OF ab(1)]
    by (cases t; cases u) (simp_all add: insn_flags_def TERNARY_def)
next
  case (TERNARY_args t u v)
  then obtain a b c where abc: "as = [a, b, c]" "op_type a = t" "op_type b = u"
    by (auto simp: arg_types_of_eq)
  show thesis
    using assms abc reg_reg_reg [OF abc(1)] reg_expr_reg [OF abc(1)]
    by (cases t; cases u) (simp_all add: insn_flags_def TERNARY_def)
next
  case Bad_args
  then show thesis using assms by (simp add: insn_flags_def TERNARY_def)
qed

text \<open>The definitions of the flag computations, unfolded together.\<close>

lemmas flags_defs = flags_none_def flags_relative_def flags_reg_def flags_imm_def flags_reg_imm_def
  flags_reg_reg_def flags_reg_expr_def flags_expr_def flags_expr_reg_def flags_expr_imm_def
  flags_offset_reg_def flags_reg_offset_def flags_reg_reg_reg_def flags_reg_expr_reg_def
  simple_write_def change_flags_def Let_def

section \<open>Instructions that establish a fact\<close>

definition is_mask_insn :: "nat \<Rightarrow> u32 \<Rightarrow> x86_insn \<Rightarrow> bool" where
  "is_mask_insn r m insn \<longleftrightarrow> insn_type insn = insn_and \<and>
     (\<exists>a b. explicit_args insn = [a, b] \<and> op_type a = op_register \<and> op_type b = op_immediate \<and>
        reg_id (data_reg a) = r \<and> op_datatype b = op_dword \<and> data_dword b = m)"

definition is_top_mask_insn :: "u32 \<Rightarrow> x86_insn \<Rightarrow> bool" where
  "is_top_mask_insn m insn \<longleftrightarrow> insn_type insn = insn_and \<and>
     (\<exists>a b. explicit_args insn = [a, b] \<and> op_type a = op_expression \<and> op_type b = op_immediate \<and>
        classify_ea (data_expression a) = EA_ESP_EXACT \<and> op_datatype b = op_dword \<and> data_dword b = m)"

lemma flags_code_safe:
  assumes "insn_flags L insn (explicit_args insn) s = Inr f" and "has f EBX_CODE_SAFE"
  shows "is_mask_insn REGISTER_EBX (JUMP_MASK L) insn"
  using assms(1)
proof (cases rule: insn_flags_cases)
  case (reg_imm a b)
  with assms(2) show ?thesis
    by (auto simp: flags_defs bits is_mask_insn_def split: if_splits)
qed (use assms(2) in \<open>auto simp: flags_defs bits split: if_splits\<close>)

lemma flags_data_safe:
  assumes "insn_flags L insn (explicit_args insn) s = Inr f" and "has f EBX_DATA_SAFE"
  shows "is_mask_insn REGISTER_EBX (DATA_MASK L) insn"
  using assms(1)
proof (cases rule: insn_flags_cases)
  case (reg_imm a b)
  with assms(2) show ?thesis
    by (auto simp: flags_defs bits is_mask_insn_def split: if_splits)
qed (use assms(2) in \<open>auto simp: flags_defs bits split: if_splits\<close>)

lemma flags_stack_top_safe:
  assumes "insn_flags L insn (explicit_args insn) s = Inr f" and "has f STACK_TOP_SAFE"
  shows "is_top_mask_insn (JUMP_MASK L) insn"
  using assms(1)
proof (cases rule: insn_flags_cases)
  case (expr_imm a b)
  with assms(2) show ?thesis
    by (auto simp: flags_defs bits is_top_mask_insn_def split: if_splits)
qed (use assms(2) in \<open>auto simp: flags_defs bits split: if_splits\<close>)

section \<open>The update of the tracked facts\<close>

lemma update_state_safety:
  "bit (safety (update_state ty f s)) 4 \<longleftrightarrow> (ty = insn_popflags \<and> bit (safety s) 4) \<or> bit f 4"
  "bit (safety (update_state ty f s)) 5 \<longleftrightarrow> (ty = insn_popflags \<and> bit (safety s) 5) \<or> bit f 5"
  "bit (safety (update_state ty f s)) 10 \<longleftrightarrow> bit f 10"
  by (auto simp: update_state_def Let_def bits)

lemma update_state_unsafety:
  "bit (unsafety (update_state ty f s)) 0 \<longleftrightarrow> (bit (unsafety s) 0 \<or> bit f 0) \<and> \<not> bit f 11"
  "bit (unsafety (update_state ty f s)) 1 \<longleftrightarrow> (bit (unsafety s) 1 \<or> bit f 1) \<and> \<not> bit f 3"
  "bit (unsafety (update_state ty f s)) 2 \<longleftrightarrow>
     (bit (unsafety s) 2 \<or> bit f 2 \<or>
        250 \<le> (if bit f 0 then Suc (bump_count s) else bump_count s)) \<and> \<not> bit f 11"
  "2 < n \<Longrightarrow> bit (unsafety (update_state ty f s)) n \<Longrightarrow> bit (unsafety s) n"
  by (auto simp: update_state_def Let_def bits split: if_splits)

lemma update_state_bump:
  "bump_count (update_state ty f s) =
     (if bit f 11 then 0 else if bit f 0 then Suc (bump_count s) else bump_count s)"
  by (simp add: update_state_def Let_def bits)

lemma update_state_frame [simp]:
  "offset (update_state ty f s) = offset s" "next_aligned (update_state ty f s) = next_aligned s"
  by (simp_all add: update_state_def Let_def)

lemma align_step_frame:
  assumes "align_step L s = Inr s1"
  shows "safety s1 = safety s" "unsafety s1 = unsafety s" "bump_count s1 = bump_count s"
    "offset s1 = offset s"
    "next_aligned s1 = (if offset s = next_aligned s then next_aligned s + uint (CHUNK_SIZE L)
       else next_aligned s)" "offset s \<le> next_aligned s"
  using assms by (auto simp: align_step_def split: if_splits)

section \<open>States of the loop\<close>

inductive vreach :: "layout \<Rightarrow> disassembler \<Rightarrow> int \<Rightarrow> vstate \<Rightarrow> bool"
  for L :: layout and d :: disassembler and n :: int where
  vreach_init: "vreach L d n init_vstate"
| vreach_step: "vreach L d n s \<Longrightarrow> offset s < n \<Longrightarrow> verify_step L d s = Inr s' \<Longrightarrow> vreach L d n s'"

definition insn_at :: "disassembler \<Rightarrow> vstate \<Rightarrow> x86_insn" where
  "insn_at d s = snd (d (offset s))"

text \<open>A state at which the loop body ran: one per instruction of the module.\<close>

definition visited :: "layout \<Rightarrow> disassembler \<Rightarrow> int \<Rightarrow> vstate \<Rightarrow> bool" where
  "visited L d n s \<longleftrightarrow> vreach L d n s \<and> offset s < n"

lemma verify_loop_vreach:
  "verify_loop L d n s = Inr sf \<Longrightarrow> vreach L d n s \<Longrightarrow> vreach L d n sf \<and> n \<le> offset sf"
proof (induction L d n s rule: verify_loop.induct)
  case (1 L d n s)
  then show ?case
    by (subst (asm) (2) verify_loop.simps)
       (auto split: if_splits sum.splits intro: vreach_step)
qed

text \<open>The loop is deterministic: in an accepted module every visited state has a successor,
  from which the loop is accepted too.\<close>

lemma vreach_accepted:
  assumes "verify L d n = Inr sf" and "vreach L d n s"
  shows "verify_loop L d n s = Inr sf"
  using assms(2)
proof induction
  case vreach_init
  show ?case using assms(1) by (simp add: verify_def)
next
  case (vreach_step s s')
  then show ?case by (subst (asm) verify_loop.simps) simp
qed

lemma visited_step:
  assumes "verify L d n = Inr sf" and "visited L d n s"
  obtains s' where "verify_step L d s = Inr s'"
proof -
  have "verify_loop L d n s = Inr sf" and "offset s < n"
    using vreach_accepted [OF assms(1)] assms(2) by (auto simp: visited_def)
  then show thesis
    by (subst (asm) verify_loop.simps) (auto split: sum.splits intro: that)
qed

text \<open>The instruction of a visited state passed every check.\<close>

lemma visited_flags:
  assumes "verify L d n = Inr sf" and "visited L d n s"
  obtains s1 f where "align_step L s = Inr s1"
    "insn_flags L (insn_at d s) (explicit_args (insn_at d s)) s1 = Inr f" "check_flags f s1 = Inr ()"
    "verify_step L d s =
       Inr ((update_state (insn_type (insn_at d s)) f s1)\<lparr>offset := offset s + fst (d (offset s))\<rparr>)"
proof -
  obtain s' where s': "verify_step L d s = Inr s'" using visited_step [OF assms] .
  then show thesis
    by (auto simp: verify_step_Inr insn_at_def intro: that)
qed

text \<open>The stages of one step, with the loop state spelled out.\<close>

lemma verify_step_cases:
  assumes "verify_step L d s = Inr s'"
  obtains s1 f where "align_step L s = Inr s1"
    "insn_flags L (insn_at d s) (explicit_args (insn_at d s)) s1 = Inr f" "check_flags f s1 = Inr ()"
    "s' = (update_state (insn_type (insn_at d s)) f s1)\<lparr>offset := offset s + fst (d (offset s))\<rparr>"
  using assms by (auto simp: verify_step_Inr insn_at_def intro: that)

section \<open>Where a tracked fact comes from\<close>

text \<open>\<open>masked_since L d r m s\<close>: the last instruction before \<open>s\<close> was an \<^verbatim>\<open>and\<close> of the mask
  \<open>m\<close> into the register \<open>r\<close>, or only \<^verbatim>\<open>popf\<close> instructions came since.\<close>

inductive masked_since :: "layout \<Rightarrow> disassembler \<Rightarrow> nat \<Rightarrow> u32 \<Rightarrow> vstate \<Rightarrow> bool"
  for L :: layout and d :: disassembler and r :: nat and m :: u32 where
  masked_now: "verify_step L d s = Inr s' \<Longrightarrow> is_mask_insn r m (insn_at d s) \<Longrightarrow> masked_since L d r m s'"
| masked_popf: "masked_since L d r m s \<Longrightarrow> verify_step L d s = Inr s' \<Longrightarrow>
     insn_type (insn_at d s) = insn_popflags \<Longrightarrow> masked_since L d r m s'"

lemma vreach_code_safe:
  "vreach L d n s \<Longrightarrow> has (safety s) CODE_SAFETY \<Longrightarrow> masked_since L d REGISTER_EBX (JUMP_MASK L) s"
proof (induction rule: vreach.induct)
  case vreach_init
  then show ?case by (simp add: init_vstate_def)
next
  case (vreach_step s s')
  from \<open>verify_step L d s = Inr s'\<close> show ?case
  proof (cases rule: verify_step_cases)
    case (1 s1 f)
    with vreach_step.prems have "(insn_type (insn_at d s) = insn_popflags \<and> bit (safety s) 4) \<or> bit f 4"
      by (simp add: mask_bit update_state_safety align_step_frame(1) [OF 1(1)])
    then show ?thesis
      using vreach_step 1 masked_now [OF vreach_step.hyps(3)] masked_popf [OF _ vreach_step.hyps(3)]
        flags_code_safe [OF 1(2)]
      by (auto simp: mask_bit)
  qed
qed

lemma vreach_data_safe:
  "vreach L d n s \<Longrightarrow> has (safety s) DATA_SAFETY \<Longrightarrow> masked_since L d REGISTER_EBX (DATA_MASK L) s"
proof (induction rule: vreach.induct)
  case vreach_init
  then show ?case by (simp add: init_vstate_def)
next
  case (vreach_step s s')
  from \<open>verify_step L d s = Inr s'\<close> show ?case
  proof (cases rule: verify_step_cases)
    case (1 s1 f)
    with vreach_step.prems have "(insn_type (insn_at d s) = insn_popflags \<and> bit (safety s) 5) \<or> bit f 5"
      by (simp add: mask_bit update_state_safety align_step_frame(1) [OF 1(1)])
    then show ?thesis
      using vreach_step 1 masked_now [OF vreach_step.hyps(3)] masked_popf [OF _ vreach_step.hyps(3)]
        flags_data_safe [OF 1(2)]
      by (auto simp: mask_bit)
  qed
qed

lemma vreach_stack_top_safe:
  assumes "vreach L d n s'" and "has (safety s') STACK_TOP_SAFETY"
  shows "\<exists>s. visited L d n s \<and> verify_step L d s = Inr s' \<and> is_top_mask_insn (JUMP_MASK L) (insn_at d s)"
  using assms
proof (cases rule: vreach.cases)
  case vreach_init
  with assms show ?thesis by (simp add: init_vstate_def)
next
  case (vreach_step s)
  from \<open>verify_step L d s = Inr s'\<close> show ?thesis
  proof (cases rule: verify_step_cases)
    case (1 s1 f)
    with assms(2) have "bit f 10" by (simp add: mask_bit update_state_safety)
    then show ?thesis
      using vreach_step flags_stack_top_safe [OF 1(2)] by (auto simp: mask_bit visited_def)
  qed
qed

section \<open>Control flow\<close>

lemma check_flags_Inr:
  "check_flags f s = Inr u \<longleftrightarrow> \<not> bit f 6 \<and> \<not> bit f 8 \<and>
     (bit f 9 \<longrightarrow> \<not> bit (unsafety s) 0 \<and> \<not> bit (unsafety s) 1 \<and> \<not> bit (unsafety s) 2)"
  by (auto simp: check_flags_def bits)

definition is_indirect :: "x86_insn \<Rightarrow> nat \<Rightarrow> bool" where
  "is_indirect insn r \<longleftrightarrow> insn_type insn \<in> {insn_jmp, insn_call} \<and>
     (\<exists>a. explicit_args insn = [a] \<and> op_type a = op_register \<and> reg_id (data_reg a) = r)"

lemma flags_indirect:
  assumes "insn_flags L insn (explicit_args insn) s = Inr f" "check_flags f s = Inr ()"
    and "is_indirect insn r"
  shows "r = REGISTER_EBX \<and> has (safety s) CODE_SAFETY \<and> bit f 9"
  using assms(1)
proof (cases rule: insn_flags_cases)
  case (reg a)
  with assms(2,3) show ?thesis
    by (auto simp: flags_defs bits check_flags_Inr is_indirect_def split: if_splits)
qed (use assms(3) in \<open>auto simp: is_indirect_def\<close>)

definition is_return :: "x86_insn \<Rightarrow> bool" where
  "is_return insn \<longleftrightarrow> insn_type insn = insn_return \<and> explicit_args insn = []"

lemma flags_return:
  assumes "insn_flags L insn (explicit_args insn) s = Inr f" "check_flags f s = Inr ()"
    and "is_return insn"
  shows "has (safety s) STACK_TOP_SAFETY \<and> bit f 9"
  using assms(1)
proof (cases rule: insn_flags_cases)
  case none
  with assms(2,3) show ?thesis
    by (auto simp: flags_defs bits check_flags_Inr is_return_def split: if_splits)
qed (use assms(3) in \<open>auto simp: is_return_def\<close>)

definition is_direct_jump :: "x86_insn \<Rightarrow> x86_op \<Rightarrow> bool" where
  "is_direct_jump insn a \<longleftrightarrow> explicit_args insn = [a] \<and> op_type a \<in> {op_relative_near, op_relative_far}"

lemma flags_direct:
  assumes "insn_flags L insn (explicit_args insn) s = Inr f" and "is_direct_jump insn a"
  shows "insn_type insn \<in> {insn_jcc, insn_jmp, insn_call} \<and> bit f 9 \<and>
    (let t = relative_target L insn a (offset s) in chunk_aligned L t \<and> in_code L t)"
  using assms(1)
proof (cases rule: insn_flags_cases)
  case (relative a')
  with assms(2) show ?thesis
    by (auto simp: flags_relative_def Let_def bits is_direct_jump_def in_code_def chunk_aligned_def
        has_def not_less not_le split: if_splits)
qed (use assms(2) in \<open>auto simp: is_direct_jump_def\<close>)

section \<open>Stores\<close>

text \<open>Where a store through an expression goes, by the form of its address.\<close>

definition store_justified :: "layout \<Rightarrow> vstate \<Rightarrow> x86_insn \<Rightarrow> x86_ea \<Rightarrow> bool" where
  "store_justified L s insn ea =
     (case classify_ea ea of
        EA_EBX_EXACT \<Rightarrow> has (safety s) DATA_SAFETY
      | EA_EBP_OFFSET \<Rightarrow> \<not> has (unsafety s) CHANGE_EBP
      | EA_ESP_EXACT \<Rightarrow> \<not> has (unsafety s) CHANGE_ESP \<or> is_top_mask_insn (JUMP_MASK L) insn
      | EA_ESP_OFFSET \<Rightarrow> \<not> has (unsafety s) CHANGE_ESP
      | EA_DIRECT \<Rightarrow> in_data L (ea_disp ea)
      | EA_OTHER \<Rightarrow> False)"

definition is_store :: "x86_insn \<Rightarrow> x86_op \<Rightarrow> bool" where
  "is_store insn a \<longleftrightarrow> op_type a = op_expression \<and>
     (explicit_args insn = [a] \<and> insn_type insn \<in> {insn_inc, insn_dec, insn_not, insn_neg, insn_movcc} \<or>
      (\<exists>b. explicit_args insn = [a, b] \<and> op_type b \<in> {op_register, op_immediate} \<and> insn_type insn \<in> store_types))"

lemma simple_write_store:
  assumes "simple_write simple store_types msg ty s = Inr f" "\<not> bit f 8" "ty \<in> store_types"
  shows "simple \<noteq> 0"
proof -
  have "ty \<notin> {insn_cmp, insn_test}" using assms(3) by (auto simp: store_types_def)
  with assms show ?thesis by (auto simp: simple_write_def bits split: if_splits)
qed

lemmas store_simps = store_justified_def direct_in_data_def in_data_def check_flags_Inr Let_def bits

lemma flags_store:
  assumes "insn_flags L insn (explicit_args insn) s = Inr f" "check_flags f s = Inr ()"
    and "is_store insn a"
  shows "store_justified L s insn (data_expression a)"
  using assms(1)
proof (cases rule: insn_flags_cases)
  case (expr a')
  with assms(3) have "a' = a" "insn_type insn \<in> {insn_inc, insn_dec, insn_not, insn_neg, insn_movcc}"
    by (auto simp: is_store_def)
  with expr(3) assms(2) show ?thesis
    by (cases "classify_ea (data_expression a)") (auto simp: flags_expr_def store_simps split: if_splits)
next
  case (expr_reg a' b')
  with assms(3) have eq: "a' = a" and ty: "insn_type insn \<in> store_types" by (auto simp: is_store_def)
  from expr_reg(4) assms(2) show ?thesis unfolding eq
    by (cases "classify_ea (data_expression a)")
       (auto simp: flags_expr_reg_def store_simps dest: simple_write_store [OF _ _ ty] split: if_splits)
next
  case (expr_imm a' b')
  with assms(3) have eq: "a' = a" and ty: "insn_type insn \<in> store_types" by (auto simp: is_store_def)
  from expr_imm(4) assms(2) show ?thesis unfolding eq
    by (cases "classify_ea (data_expression a)")
       (use expr_imm(1-3) eq in \<open>auto simp: flags_expr_imm_def store_simps is_top_mask_insn_def
         dest: simple_write_store [OF _ _ ty] split: if_splits\<close>)
qed (use assms(3) in \<open>auto simp: is_store_def\<close>)

section \<open>Invariants of the loop state\<close>

definition vstate_wf :: "vstate \<Rightarrow> bool" where
  "vstate_wf s \<longleftrightarrow> (\<forall>n > 2. \<not> bit (unsafety s) n) \<and>
     (has (unsafety s) BUMP_ESP \<longleftrightarrow> 0 < bump_count s) \<and>
     (250 \<le> bump_count s \<longrightarrow> has (unsafety s) CHANGE_ESP)"

lemma update_state_wf:
  assumes "vstate_wf s" and "align_step L s = Inr s1"
  shows "vstate_wf ((update_state ty f s1)\<lparr>offset := k\<rparr>)"
proof -
  note fr = align_step_frame(1-3) [OF assms(2)]
  have "\<not> bit (unsafety (update_state ty f s1)) n" if "2 < n" for n
    using assms(1) update_state_unsafety(4) [OF that, of ty f s1] fr that by (auto simp: vstate_wf_def)
  then show ?thesis
    using assms(1) fr
    by (auto simp: vstate_wf_def mask_bit update_state_unsafety(1-3) update_state_bump)
qed

lemma vreach_wf: "vreach L d n s \<Longrightarrow> vstate_wf s"
proof (induction rule: vreach.induct)
  case vreach_init
  then show ?case by (simp add: vstate_wf_def init_vstate_def)
next
  case (vreach_step s s')
  from \<open>verify_step L d s = Inr s'\<close> show ?case
    by (cases rule: verify_step_cases) (use vreach_step.IH in \<open>auto intro: update_state_wf\<close>)
qed

text \<open>A state whose unsafety has no tracked bit has none at all.\<close>

lemma vstate_wf_clean:
  assumes "vstate_wf s" "\<not> bit (unsafety s) 0" "\<not> bit (unsafety s) 1" "\<not> bit (unsafety s) 2"
  shows "unsafety s = 0 \<and> bump_count s = 0"
proof -
  have "\<not> bit (unsafety s) n" for n
    using assms by (cases "n = 0"; cases "n = 1"; cases "n = 2") (auto simp: vstate_wf_def)
  then show ?thesis using assms by (auto simp: vstate_wf_def mask_bit intro: bit_eqI)
qed

section \<open>Chunk alignment\<close>

definition align_inv :: "layout \<Rightarrow> disassembler \<Rightarrow> int \<Rightarrow> vstate \<Rightarrow> bool" where
  "align_inv L d n s \<longleftrightarrow> 0 \<le> next_aligned s \<and> uint (CHUNK_SIZE L) dvd next_aligned s \<and>
     next_aligned s < offset s + uint (CHUNK_SIZE L) \<and>
     (\<forall>k. 0 \<le> k \<longrightarrow> k < next_aligned s \<longrightarrow> uint (CHUNK_SIZE L) dvd k \<longrightarrow>
        (\<exists>t. visited L d n t \<and> offset t = k))"

lemma dvd_between:
  "c dvd a \<Longrightarrow> c dvd k \<Longrightarrow> a \<le> k \<Longrightarrow> k < a + c \<Longrightarrow> k = (a :: int)"
proof -
  assume "c dvd a" "c dvd k" "a \<le> k" "k < a + c"
  then have "c dvd k - a" "k - a < c" by simp_all
  then show "k = a" using zdvd_imp_le [of c "k - a"] \<open>a \<le> k\<close> by linarith
qed

lemma align_inv_step:
  assumes "align_inv L d n s" "vreach L d n s" "offset s < n" "verify_step L d s = Inr s'"
  shows "align_inv L d n s'"
  using assms(4)
proof (cases rule: verify_step_cases)
  case (1 s1 f)
  note fr = align_step_frame(5,6) [OF 1(1)]
  have n1: "next_aligned s' = next_aligned s1" using 1(4) by simp
  have pr: "offset s < offset s'" using verify_step_progress [OF assms(4)] .
  have vis: "visited L d n s" using assms(2,3) by (simp add: visited_def)
  show ?thesis
  proof (cases "offset s = next_aligned s")
    case True
    have "\<exists>t. visited L d n t \<and> offset t = k"
      if "0 \<le> k" "k < next_aligned s + uint (CHUNK_SIZE L)" "uint (CHUNK_SIZE L) dvd k" for k
    proof (cases "k < next_aligned s")
      case True
      then show ?thesis using that assms(1) by (auto simp: align_inv_def)
    next
      case False
      then have "k = next_aligned s"
        using that assms(1) by (intro dvd_between [of "uint (CHUNK_SIZE L)"]) (auto simp: align_inv_def)
      then show ?thesis using True vis by auto
    qed
    then show ?thesis
      using True fr n1 pr assms(1) by (auto simp: align_inv_def)
  next
    case False
    then show ?thesis using fr n1 pr assms(1) by (auto simp: align_inv_def)
  qed
qed

lemma vreach_align_inv:
  assumes "0 < CHUNK_SIZE L" and "vreach L d n s"
  shows "align_inv L d n s"
  using assms(2)
proof induction
  case vreach_init
  show ?case using assms(1) by (simp add: align_inv_def init_vstate_def word_less_def)
next
  case (vreach_step s s')
  then show ?case by (blast intro: align_inv_step)
qed

end
