(* ===== verification/SFI_Verifier_Props.thy ===== *)
theory SFI_Verifier_Props
  imports SFI_Verifier_Inv
begin

text \<open>
  The verifier's guarantees for an accepted module, with a small module as the witness of
  each, and the inputs on which the verifier accepts more than the policy of
  \<^verbatim>\<open>src/checks.txt\<close> and the second verifier \<^verbatim>\<open>src/verify.pl\<close> allow.
\<close>

section \<open>Sample modules\<close>

text \<open>Disassemblers for short instruction sequences, given as a table from offsets.\<close>

definition fx_reg :: "nat \<Rightarrow> x86_reg" where
  "fx_reg r = \<lparr>reg_id = r, reg_alias = 0\<rparr>"

definition fx_ea :: "nat \<Rightarrow> u32 \<Rightarrow> nat \<Rightarrow> x86_ea" where
  "fx_ea r w n = \<lparr>ea_base = fx_reg r, ea_index = fx_reg 0, ea_disp = w,
     ea_disp_sign = False, ea_disp_size = n\<rparr>"

definition fx_op :: "x86_op_type \<Rightarrow> nat \<Rightarrow> u32 \<Rightarrow> x86_ea \<Rightarrow> x86_op" where
  "fx_op t r w ea = \<lparr>op_type = t, op_datatype = op_dword, op_implied = False,
     data_reg = fx_reg r, data_dword = w, data_relative_near = 0, data_relative_far = w,
     data_expression = ea, data_offset = w\<rparr>"

definition op_r :: "nat \<Rightarrow> x86_op" where "op_r r = fx_op op_register r 0 (fx_ea 0 0 0)"
definition op_i :: "u32 \<Rightarrow> x86_op" where "op_i w = fx_op op_immediate 0 w (fx_ea 0 0 0)"
definition op_rel :: "u32 \<Rightarrow> x86_op" where "op_rel w = fx_op op_relative_far 0 w (fx_ea 0 0 0)"
definition op_m :: "x86_ea \<Rightarrow> x86_op" where "op_m ea = fx_op op_expression 0 0 ea"

definition fx_insn :: "x86_insn_type \<Rightarrow> u32 \<Rightarrow> x86_op list \<Rightarrow> x86_insn" where
  "fx_insn t n ops = \<lparr>insn_group = insn_other, insn_type = t, insn_size = n,
     explicit_count = int (length ops), operands = ops\<rparr>"

definition fx_module :: "(int \<times> int \<times> x86_insn) list \<Rightarrow> disassembler" where
  "fx_module prog off = (case map_of prog off of None \<Rightarrow> (0, fx_insn insn_nop 1 []) | Some p \<Rightarrow> p)"

abbreviation sfi_classic :: layout where
  "sfi_classic \<equiv> compute_sizes classic"

text \<open>\<^verbatim>\<open>and $JUMP_MASK,%ebx; jmp *%ebx\<close>\<close>

definition jump_prog :: disassembler where
  "jump_prog = fx_module
     [(0, 6, fx_insn insn_and 6 [op_r REGISTER_EBX, op_i (JUMP_MASK sfi_classic)]),
      (6, 2, fx_insn insn_jmp 2 [op_r REGISTER_EBX])]"

text \<open>\<^verbatim>\<open>and $JUMP_MASK,(%esp); ret\<close>\<close>

definition ret_prog :: disassembler where
  "ret_prog = fx_module
     [(0, 7, fx_insn insn_and 7 [op_m (fx_ea REGISTER_ESP 0 0), op_i (JUMP_MASK sfi_classic)]),
      (7, 1, fx_insn insn_return 1 [])]"

text \<open>A 16-byte chunk: masked store, padding, and a jump back to the start.\<close>

definition store_prog :: disassembler where
  "store_prog = fx_module
     [(0, 6, fx_insn insn_and 6 [op_r REGISTER_EBX, op_i (DATA_MASK sfi_classic)]),
      (6, 2, fx_insn insn_mov 2 [op_m (fx_ea REGISTER_EBX 0 0), op_r REGISTER_EAX]),
      (8, 3, fx_insn insn_nop 3 []),
      (11, 5, fx_insn insn_jmp 5 [op_rel (- 16)])]"

section \<open>Control transfers\<close>

text \<open>Claim C4. In a module the verifier accepts, every jump or call through a register goes
  through \<^verbatim>\<open>%ebx\<close>, comes after an \<^verbatim>\<open>and $JUMP_MASK,%ebx\<close> with nothing but
  \<^verbatim>\<open>popf\<close> instructions in between, and happens with neither \<^verbatim>\<open>%esp\<close> nor \<^verbatim>\<open>%ebp\<close> in an
  unsafe state.\<close>

theorem verify_indirect_jumps:
  assumes "verify L d n = Inr sf" and "visited L d n s" and "is_indirect (insn_at d s) r"
  shows "r = REGISTER_EBX \<and> masked_since L d REGISTER_EBX (JUMP_MASK L) s \<and> unsafety s = 0"
  using assms(1,2)
proof (cases rule: visited_flags)
  case (1 s1 f)
  note fr = align_step_frame(1-2) [OF 1(1)]
  have r: "r = REGISTER_EBX" "has (safety s1) CODE_SAFETY" "bit f 9"
    using flags_indirect [OF 1(2,3) assms(3)] by auto
  then have "masked_since L d REGISTER_EBX (JUMP_MASK L) s"
    using vreach_code_safe assms(2) fr(1) by (auto simp: visited_def)
  moreover have "unsafety s = 0"
    using vstate_wf_clean vreach_wf assms(2) 1(3) r(3) fr(2)
    by (auto simp: visited_def check_flags_Inr)
  ultimately show ?thesis using r(1) by blast
qed

lemma jump_prog_run:
  "verify sfi_classic jump_prog 8 =
     Inr \<lparr>offset = 8, next_aligned = 16, safety = 0, unsafety = 0, bump_count = 0\<rparr>"
  "verify_step sfi_classic jump_prog init_vstate =
     Inr \<lparr>offset = 6, next_aligned = 16, safety = 0x10, unsafety = 0, bump_count = 0\<rparr>"
  by code_simp+

theorem verify_indirect_jumps_witness:
  "masked_since sfi_classic jump_prog REGISTER_EBX (JUMP_MASK sfi_classic)
     \<lparr>offset = 6, next_aligned = 16, safety = 0x10, unsafety = 0, bump_count = 0\<rparr>"
proof -
  let ?s = "\<lparr>offset = 6, next_aligned = 16, safety = 0x10, unsafety = 0, bump_count = 0\<rparr>"
  have v: "visited sfi_classic jump_prog 8 ?s"
    using vreach_step [OF vreach_init _ jump_prog_run(2)] by (simp add: visited_def init_vstate_def)
  have "is_indirect (insn_at jump_prog ?s) REGISTER_EBX"
    by (simp add: is_indirect_def insn_at_def jump_prog_def fx_module_def fx_insn_def explicit_args_def
        op_r_def fx_op_def fx_reg_def)
  then show ?thesis using verify_indirect_jumps [OF jump_prog_run(1) v] by blast
qed

text \<open>Claim C5. In an accepted module every plain \<^verbatim>\<open>ret\<close> comes right after an
  \<^verbatim>\<open>and $JUMP_MASK,(%esp)\<close>, with \<^verbatim>\<open>%esp\<close> and \<^verbatim>\<open>%ebp\<close> in a safe state.\<close>

theorem verify_returns:
  assumes "verify L d n = Inr sf" and "visited L d n s" and "is_return (insn_at d s)"
  shows "unsafety s = 0 \<and> (\<exists>s0. visited L d n s0 \<and> verify_step L d s0 = Inr s \<and>
    is_top_mask_insn (JUMP_MASK L) (insn_at d s0))"
  using assms(1,2)
proof (cases rule: visited_flags)
  case (1 s1 f)
  note fr = align_step_frame(1-2) [OF 1(1)]
  have r: "has (safety s) STACK_TOP_SAFETY" "bit f 9"
    using flags_return [OF 1(2,3) assms(3)] fr by auto
  have "unsafety s = 0"
    using vstate_wf_clean vreach_wf assms(2) 1(3) r(2) fr(2)
    by (auto simp: visited_def check_flags_Inr)
  then show ?thesis using vreach_stack_top_safe r(1) assms(2) by (auto simp: visited_def)
qed

lemma ret_prog_run:
  "verify sfi_classic ret_prog 8 =
     Inr \<lparr>offset = 8, next_aligned = 16, safety = 0, unsafety = 0, bump_count = 0\<rparr>"
  "verify_step sfi_classic ret_prog init_vstate =
     Inr \<lparr>offset = 7, next_aligned = 16, safety = 0x400, unsafety = 0, bump_count = 0\<rparr>"
  by code_simp+

theorem verify_returns_witness:
  "\<exists>s0. verify_step sfi_classic ret_prog s0 =
       Inr \<lparr>offset = 7, next_aligned = 16, safety = 0x400, unsafety = 0, bump_count = 0\<rparr> \<and>
     is_top_mask_insn (JUMP_MASK sfi_classic) (insn_at ret_prog s0)"
proof -
  let ?s = "\<lparr>offset = 7, next_aligned = 16, safety = 0x400, unsafety = 0, bump_count = 0\<rparr>"
  have v: "visited sfi_classic ret_prog 8 ?s"
    using vreach_step [OF vreach_init _ ret_prog_run(2)] by (simp add: visited_def init_vstate_def)
  have "is_return (insn_at ret_prog ?s)"
    by (simp add: is_return_def insn_at_def ret_prog_def fx_module_def fx_insn_def explicit_args_def)
  then show ?thesis using verify_returns [OF ret_prog_run(1) v] by blast
qed

text \<open>Claim C6. In an accepted module every direct jump, branch or call goes to a
  chunk-aligned address of the code region, with \<^verbatim>\<open>%esp\<close> and \<^verbatim>\<open>%ebp\<close> in a safe state.\<close>

theorem verify_direct_jumps:
  assumes "verify L d n = Inr sf" and "visited L d n s" and "is_direct_jump (insn_at d s) a"
  shows "let t = relative_target L (insn_at d s) a (offset s)
    in chunk_aligned L t \<and> in_code L t \<and> unsafety s = 0"
  using assms(1,2)
proof (cases rule: visited_flags)
  case (1 s1 f)
  note fr = align_step_frame(2,4) [OF 1(1)]
  have r: "bit f 9" "let t = relative_target L (insn_at d s) a (offset s) in chunk_aligned L t \<and> in_code L t"
    using flags_direct [OF 1(2) assms(3)] fr by auto
  moreover have "unsafety s = 0"
    using vstate_wf_clean vreach_wf assms(2) 1(3) r(1) fr(1)
    by (auto simp: visited_def check_flags_Inr)
  ultimately show ?thesis by (simp add: Let_def)
qed

lemma store_prog_run:
  "verify sfi_classic store_prog 16 =
     Inr \<lparr>offset = 16, next_aligned = 16, safety = 0, unsafety = 0, bump_count = 0\<rparr>"
  "verify_step sfi_classic store_prog init_vstate =
     Inr \<lparr>offset = 6, next_aligned = 16, safety = 0x20, unsafety = 0, bump_count = 0\<rparr>"
  "verify_step sfi_classic store_prog
     \<lparr>offset = 6, next_aligned = 16, safety = 0x20, unsafety = 0, bump_count = 0\<rparr> =
     Inr \<lparr>offset = 8, next_aligned = 16, safety = 0, unsafety = 0, bump_count = 0\<rparr>"
  "verify_step sfi_classic store_prog
     \<lparr>offset = 8, next_aligned = 16, safety = 0, unsafety = 0, bump_count = 0\<rparr> =
     Inr \<lparr>offset = 11, next_aligned = 16, safety = 0, unsafety = 0, bump_count = 0\<rparr>"
  by code_simp+

lemma store_prog_vreach:
  "visited sfi_classic store_prog 16
     \<lparr>offset = 6, next_aligned = 16, safety = 0x20, unsafety = 0, bump_count = 0\<rparr>"
  "visited sfi_classic store_prog 16
     \<lparr>offset = 11, next_aligned = 16, safety = 0, unsafety = 0, bump_count = 0\<rparr>"
proof -
  have 1: "vreach sfi_classic store_prog 16
      \<lparr>offset = 6, next_aligned = 16, safety = 0x20, unsafety = 0, bump_count = 0\<rparr>"
    by (rule vreach_step [OF vreach_init _ store_prog_run(2)]) (simp add: init_vstate_def)
  have 2: "vreach sfi_classic store_prog 16
      \<lparr>offset = 8, next_aligned = 16, safety = 0, unsafety = 0, bump_count = 0\<rparr>"
    by (rule vreach_step [OF 1 _ store_prog_run(3)]) simp
  have 3: "vreach sfi_classic store_prog 16
      \<lparr>offset = 11, next_aligned = 16, safety = 0, unsafety = 0, bump_count = 0\<rparr>"
    by (rule vreach_step [OF 2 _ store_prog_run(4)]) simp
  show "visited sfi_classic store_prog 16
     \<lparr>offset = 6, next_aligned = 16, safety = 0x20, unsafety = 0, bump_count = 0\<rparr>"
  "visited sfi_classic store_prog 16
     \<lparr>offset = 11, next_aligned = 16, safety = 0, unsafety = 0, bump_count = 0\<rparr>"
    using 1 3 by (simp_all add: visited_def)
qed

theorem verify_direct_jumps_witness:
  "in_code sfi_classic (relative_target sfi_classic
     (fx_insn insn_jmp 5 [op_rel (- 16)]) (op_rel (- 16)) 11)"
proof -
  let ?s = "\<lparr>offset = 11, next_aligned = 16, safety = 0, unsafety = 0, bump_count = 0\<rparr>"
  have i: "insn_at store_prog ?s = fx_insn insn_jmp 5 [op_rel (- 16)]"
    by (simp add: insn_at_def store_prog_def fx_module_def)
  have "is_direct_jump (insn_at store_prog ?s) (op_rel (- 16))"
    by (simp add: i is_direct_jump_def fx_insn_def explicit_args_def op_rel_def fx_op_def)
  then show ?thesis
    using verify_direct_jumps [OF store_prog_run(1) store_prog_vreach(2)] by (simp add: i Let_def)
qed

section \<open>Stores\<close>

text \<open>The address forms an accepted store may have, over the bytes of the instruction.\<close>

lemma classify_ea_forms:
  "classify_ea ea = EA_EBX_EXACT \<Longrightarrow>
     reg_id (ea_index ea) = 0 \<and> reg_id (ea_base ea) = REGISTER_EBX \<and> ea_disp_size ea = 0"
  "classify_ea ea = EA_ESP_EXACT \<Longrightarrow>
     reg_id (ea_index ea) = 0 \<and> reg_id (ea_base ea) = REGISTER_ESP \<and> ea_disp_size ea = 0"
  "classify_ea ea = EA_EBP_OFFSET \<Longrightarrow>
     reg_id (ea_index ea) = 0 \<and> reg_id (ea_base ea) = REGISTER_EBP \<and>
     (ea_disp_size ea \<le> 2 \<or> ea_disp_sign ea \<and> - 32768 < sint (ea_disp ea) \<or> ea_disp ea < 32768)"
  "classify_ea ea = EA_ESP_OFFSET \<Longrightarrow>
     reg_id (ea_index ea) = 0 \<and> reg_id (ea_base ea) = REGISTER_ESP \<and> ea_disp_size ea \<le> 1"
  "classify_ea ea = EA_DIRECT \<Longrightarrow>
     reg_id (ea_index ea) = 0 \<and> reg_id (ea_base ea) = 0 \<and> ea_disp_size ea = 4"
  by (simp_all add: classify_ea_def split: if_splits)

text \<open>Claim C3. In an accepted module, an integer instruction that writes memory through an
  expression uses no index register, and its address is one of these: \<^verbatim>\<open>(%ebx)\<close> without
  displacement, after \<^verbatim>\<open>and $DATA_MASK,%ebx\<close> with nothing but \<^verbatim>\<open>popf\<close> in between; a
  displacement off a safe \<^verbatim>\<open>%ebp\<close> that has at most two bytes, or is negative and above -32768,
  or below 32768; a displacement of at most one byte off a safe \<^verbatim>\<open>%esp\<close>; \<^verbatim>\<open>(%esp)\<close> itself, with
  \<^verbatim>\<open>%esp\<close> in any state, by the instruction \<^verbatim>\<open>and $JUMP_MASK,(%esp)\<close>; or a constant of four
  bytes in the data region.\<close>

theorem verify_stores:
  assumes "verify L d n = Inr sf" and "visited L d n s" and "is_store (insn_at d s) a"
  shows "let ea = data_expression a; base = reg_id (ea_base ea) in reg_id (ea_index ea) = 0 \<and>
    (base = REGISTER_EBX \<and> ea_disp_size ea = 0 \<and> masked_since L d REGISTER_EBX (DATA_MASK L) s \<or>
     base = REGISTER_EBP \<and> \<not> has (unsafety s) CHANGE_EBP \<and>
       (ea_disp_size ea \<le> 2 \<or> ea_disp_sign ea \<and> - 32768 < sint (ea_disp ea) \<or> ea_disp ea < 32768) \<or>
     base = REGISTER_ESP \<and> \<not> has (unsafety s) CHANGE_ESP \<and> ea_disp_size ea \<le> 1 \<or>
     base = REGISTER_ESP \<and> ea_disp_size ea = 0 \<and> insn_type (insn_at d s) = insn_and \<and>
       is_top_mask_insn (JUMP_MASK L) (insn_at d s) \<or>
     base = 0 \<and> ea_disp_size ea = 4 \<and> in_data L (ea_disp ea))"
  using assms(1,2)
proof (cases rule: visited_flags)
  case (1 s1 f)
  let ?ea = "data_expression a"
  have "store_justified L s1 (insn_at d s) ?ea" by (rule flags_store [OF 1(2,3) assms(3)])
  moreover have "masked_since L d REGISTER_EBX (DATA_MASK L) s" if "has (safety s1) DATA_SAFETY"
    using that vreach_data_safe assms(2) align_step_frame(1) [OF 1(1)] by (auto simp: visited_def)
  moreover have "unsafety s1 = unsafety s" by (rule align_step_frame(2) [OF 1(1)])
  ultimately show ?thesis
    using classify_ea_forms [of ?ea]
    by (cases "classify_ea ?ea") (auto simp: store_justified_def is_top_mask_insn_def Let_def)
qed

theorem verify_stores_witness:
  "masked_since sfi_classic store_prog REGISTER_EBX (DATA_MASK sfi_classic)
     \<lparr>offset = 6, next_aligned = 16, safety = 0x20, unsafety = 0, bump_count = 0\<rparr>"
proof -
  let ?s = "\<lparr>offset = 6, next_aligned = 16, safety = 0x20, unsafety = 0, bump_count = 0\<rparr>"
  have i: "insn_at store_prog ?s = fx_insn insn_mov 2 [op_m (fx_ea REGISTER_EBX 0 0), op_r REGISTER_EAX]"
    by (simp add: insn_at_def store_prog_def fx_module_def)
  have "is_store (insn_at store_prog ?s) (op_m (fx_ea REGISTER_EBX 0 0))"
    by (simp add: i is_store_def fx_insn_def explicit_args_def op_m_def op_r_def fx_op_def store_types_def)
  from verify_stores [OF store_prog_run(1) store_prog_vreach(1) this] show ?thesis
    by (simp add: op_m_def fx_op_def fx_ea_def fx_reg_def reg_const Let_def)
qed

section \<open>Chunk alignment\<close>

text \<open>Claim C7. In an accepted module an instruction starts at every chunk-aligned offset of the
  code, except possibly inside the very last instruction, whose end is not checked.\<close>

theorem verify_chunk_alignment:
  assumes "verify L d n = Inr sf" and "0 < CHUNK_SIZE L"
    and "0 \<le> k" and "k < n" and "uint (CHUNK_SIZE L) dvd k"
  shows "(\<exists>s. visited L d n s \<and> offset s = k) \<or>
    (\<exists>s. visited L d n s \<and> verify_step L d s = Inr sf \<and> offset s < k \<and> k < offset sf)"
proof (cases "k < next_aligned sf")
  case True
  have "vreach L d n sf"
    using verify_loop_vreach [OF assms(1) [unfolded verify_def] vreach_init] by blast
  with assms True show ?thesis using vreach_align_inv [OF assms(2)] by (auto simp: align_inv_def)
next
  case False
  have sf: "vreach L d n sf" "n \<le> offset sf"
    using verify_loop_vreach [OF assms(1) [unfolded verify_def] vreach_init] by auto
  from sf(1) show ?thesis
  proof (cases rule: vreach.cases)
    case vreach_init
    with sf(2) assms show ?thesis by (simp add: init_vstate_def)
  next
    case (vreach_step s)
    from vreach_step(3) obtain s1 where al: "align_step L s = Inr s1" and "next_aligned sf = next_aligned s1"
      by (cases rule: verify_step_cases) auto
    then have "offset s \<le> next_aligned sf"
      using align_step_frame(5,6) [OF al] by (auto split: if_splits)
    then have "offset s \<le> k" using False by simp
    moreover have "visited L d n s" using vreach_step by (simp add: visited_def)
    moreover have "k < offset sf" using sf(2) assms(4) by simp
    ultimately show ?thesis using vreach_step(3) by (cases "offset s = k") (blast, force)
  qed
qed

theorem verify_chunk_alignment_witness:
  "\<exists>s. visited sfi_classic store_prog 16 s \<and> offset s = 0"
proof -
  have c: "uint (CHUNK_SIZE sfi_classic) = 16" by (simp add: layout_eval)
  have "0 < CHUNK_SIZE sfi_classic" by (simp add: layout_eval)
  from verify_chunk_alignment [OF store_prog_run(1) this, of 0]
  have "(\<exists>s. visited sfi_classic store_prog 16 s \<and> offset s = 0) \<or>
    (\<exists>s. visited sfi_classic store_prog 16 s \<and> offset s < 0)" by (auto simp: c)
  moreover have "0 \<le> offset s" if "vreach sfi_classic store_prog 16 s" for s
    using that by (induction) (auto simp: init_vstate_def dest: verify_step_progress)
  ultimately show ?thesis by (fastforce simp: visited_def)
qed

section \<open>The switch on the operand configuration\<close>

lemma or_shift_add: "0 \<le> b \<Longrightarrow> b < 2 ^ k \<Longrightarrow> push_bit k a OR b = a * 2 ^ k + (b :: int)"
proof -
  assume "0 \<le> b" "b < 2 ^ k"
  then have "b = take_bit k b" by (simp add: take_bit_int_eq_self)
  then have "push_bit k a OR b = push_bit k a OR take_bit k b" by simp
  also have "\<dots> = push_bit k a + take_bit k b"
    by (rule disjunctive_add [symmetric]) (auto simp: bit_simps)
  finally show ?thesis using \<open>b = take_bit k b\<close> by (simp add: push_bit_eq_mult)
qed

fun arg_types_ops :: "arg_types \<Rightarrow> x86_op_type set" where
  "arg_types_ops (UNARY_args a) = {a}"
| "arg_types_ops (BINARY_args a b) = {a, b}"
| "arg_types_ops (TERNARY_args a b c) = {a, b, c}"
| "arg_types_ops _ = {}"

lemma packed_args_arith:
  "code a < 16 \<Longrightarrow> packed_args code (UNARY_args a) = 16 * int (code a) + 1"
  "code a < 16 \<Longrightarrow> code b < 16 \<Longrightarrow>
     packed_args code (BINARY_args a b) = 16 * (16 * int (code a) + int (code b)) + 2"
  "code a < 16 \<Longrightarrow> code b < 16 \<Longrightarrow> code c < 16 \<Longrightarrow>
     packed_args code (TERNARY_args a b c) =
       16 * (16 * (16 * int (code a) + int (code b)) + int (code c)) + 3"
  by (simp_all add: or.assoc or_shift_add)

lemma mod_16_digit: "0 \<le> r \<Longrightarrow> r < 16 \<Longrightarrow> (16 * q + r) mod 16 = (r :: int)"
  by simp

lemma packed_args_tag:
  "\<forall>t \<in> arg_types_ops x. code t < 16 \<Longrightarrow> packed_args code x mod 16 =
     (case x of No_args \<Rightarrow> 0 | UNARY_args _ \<Rightarrow> 1 | BINARY_args _ _ \<Rightarrow> 2 | TERNARY_args _ _ _ \<Rightarrow> 3 | Bad_args \<Rightarrow> 15)"
  by (cases x) (simp_all only: packed_args_arith arg_types_ops.simps ball_simps simp_thms mod_16_digit
      arg_types.case packed_args.simps(1,5), simp_all)

lemma digit_eq: "a < 16 \<Longrightarrow> b < 16 \<Longrightarrow> 16 * p + int a = 16 * q + int b \<Longrightarrow> p = q \<and> a = b"
proof -
  assume ab: "a < 16" "b < 16" and h: "16 * p + int a = 16 * q + int b"
  have "(16 * p + int a) mod 16 = int a" "(16 * q + int b) mod 16 = int b"
    using ab by (simp_all add: mod_16_digit)
  with h show ?thesis by simp
qed

text \<open>For any numbering of the operand types below 16, the packed integer of the
  \<^verbatim>\<open>UNARY\<close>, \<^verbatim>\<open>BINARY\<close> and \<^verbatim>\<open>TERNARY\<close> macros identifies the operand configuration, so the
  \<^verbatim>\<open>switch\<close> selects the case the configuration names.\<close>

lemma packed_args_inj:
  assumes "inj_on code T" and "\<forall>t \<in> T. code t < 16"
    and "arg_types_ops x \<subseteq> T" and "arg_types_ops y \<subseteq> T"
  shows "packed_args code x = packed_args code y \<longleftrightarrow> x = y"
proof
  assume h: "packed_args code x = packed_args code y"
  have eq: "a = b" if "code a = code b" "a \<in> T" "b \<in> T" for a b
    using that assms(1) by (auto simp: inj_on_def)
  have lt: "code a < 16" if "a \<in> T" for a using that assms(2) by blast
  have tags: "packed_args code x mod 16 = packed_args code y mod 16" by (simp only: h)
  have tx: "\<forall>t \<in> arg_types_ops x. code t < 16" and ty: "\<forall>t \<in> arg_types_ops y. code t < 16"
    using assms by blast+
  show "x = y"
  proof (cases x)
    case (UNARY_args a)
    then obtain b where y: "y = UNARY_args b"
      using tags packed_args_tag [OF tx] packed_args_tag [OF ty] by (cases y) auto
    with UNARY_args h assms(3,4) lt show ?thesis
      by (auto simp: packed_args_arith digit_eq intro: eq simp del: packed_args.simps)
  next
    case (BINARY_args a b)
    then obtain c e where y: "y = BINARY_args c e"
      using tags packed_args_tag [OF tx] packed_args_tag [OF ty] by (cases y) auto
    have T: "a \<in> T" "b \<in> T" "c \<in> T" "e \<in> T" using BINARY_args y assms(3,4) by auto
    then have "16 * int (code a) + int (code b) = 16 * int (code c) + int (code e)"
      using h BINARY_args y lt by (simp add: packed_args_arith del: packed_args.simps)
    then have "int (code a) = int (code c) \<and> code b = code e"
      by (rule digit_eq [OF lt [OF T(2)] lt [OF T(4)]])
    with T eq show ?thesis by (simp add: BINARY_args y)
  next
    case (TERNARY_args a b c)
    then obtain e f g where y: "y = TERNARY_args e f g"
      using tags packed_args_tag [OF tx] packed_args_tag [OF ty] by (cases y) auto
    have T: "a \<in> T" "b \<in> T" "c \<in> T" "e \<in> T" "f \<in> T" "g \<in> T"
      using TERNARY_args y assms(3,4) by auto
    then have "16 * (16 * int (code a) + int (code b)) + int (code c) =
        16 * (16 * int (code e) + int (code f)) + int (code g)"
      using h TERNARY_args y lt by (simp add: packed_args_arith del: packed_args.simps)
    then have 1: "16 * int (code a) + int (code b) = 16 * int (code e) + int (code f) \<and> code c = code g"
      by (rule digit_eq [OF lt [OF T(3)] lt [OF T(6)]])
    then have "int (code a) = int (code e) \<and> code b = code f"
      by (intro digit_eq [OF lt [OF T(2)] lt [OF T(5)]]) simp
    with 1 T eq show ?thesis by (simp add: TERNARY_args y)
  qed (use tags packed_args_tag [OF tx] packed_args_tag [OF ty] in \<open>cases y; auto\<close>)+
qed simp

definition fx_op_code :: "x86_op_type \<Rightarrow> nat" where
  "fx_op_code t = (case t of op_register \<Rightarrow> 1 | op_immediate \<Rightarrow> 2 | op_relative_near \<Rightarrow> 3
     | op_relative_far \<Rightarrow> 4 | op_expression \<Rightarrow> 6 | op_offset \<Rightarrow> 7 | op_type_unlisted k \<Rightarrow> 8 + k)"

section \<open>Where the verifier accepts more than the policy\<close>

text \<open>A masked register is still trusted at the next chunk boundary, where a jump from
  elsewhere can enter; \<^verbatim>\<open>verify.pl\<close> forgets it there.\<close>

definition boundary_prog :: disassembler where
  "boundary_prog = fx_module
     [(0, 10, fx_insn insn_nop 10 []),
      (10, 6, fx_insn insn_and 6 [op_r REGISTER_EBX, op_i (JUMP_MASK sfi_classic)]),
      (16, 2, fx_insn insn_jmp 2 [op_r REGISTER_EBX])]"

lemma accepts_masked_across_chunk:
  "verify sfi_classic boundary_prog 18 =
     Inr \<lparr>offset = 18, next_aligned = 32, safety = 0, unsafety = 0, bump_count = 0\<rparr>"
  by code_simp

text \<open>\<^verbatim>\<open>ret $n\<close> needs neither a masked return address nor safe registers.\<close>

definition ret_imm_prog :: disassembler where
  "ret_imm_prog = fx_module [(0, 3, fx_insn insn_return 3 [op_i 4])]"

lemma accepts_ret_imm:
  "verify sfi_classic ret_imm_prog 3 =
     Inr \<lparr>offset = 3, next_aligned = 16, safety = 0, unsafety = 0, bump_count = 0\<rparr>"
  by code_simp

text \<open>\<^verbatim>\<open>mov $imm,%esp; push %eax\<close>: the use of the unsafe stack pointer is accepted, and
  counts as proof that it is safe.\<close>

definition push_prog :: disassembler where
  "push_prog = fx_module
     [(0, 5, fx_insn insn_mov 5 [op_r REGISTER_ESP, op_i 0x08048000]),
      (5, 1, fx_insn insn_push 1 [op_r REGISTER_EAX])]"

lemma accepts_push_unsafe_esp:
  "verify_step sfi_classic push_prog init_vstate =
     Inr \<lparr>offset = 5, next_aligned = 16, safety = 0, unsafety = CHANGE_ESP, bump_count = 0\<rparr>"
  "verify sfi_classic push_prog 6 =
     Inr \<lparr>offset = 6, next_aligned = 16, safety = 0, unsafety = 0, bump_count = 0\<rparr>"
  by code_simp+

text \<open>\<^verbatim>\<open>mov $imm,%ebp; leave; mov %eax,(%esp)\<close>: the two branches for \<^verbatim>\<open>leave\<close> give the same
  flags, so an unsafe \<^verbatim>\<open>%ebp\<close> becomes a trusted \<^verbatim>\<open>%esp\<close>.\<close>

definition leave_prog :: disassembler where
  "leave_prog = fx_module
     [(0, 5, fx_insn insn_mov 5 [op_r REGISTER_EBP, op_i 0x08048000]),
      (5, 1, fx_insn insn_leave 1 []),
      (6, 3, fx_insn insn_mov 3 [op_m (fx_ea REGISTER_ESP 0 0), op_r REGISTER_EAX])]"

lemma accepts_leave_unsafe_ebp:
  "verify sfi_classic leave_prog 9 =
     Inr \<lparr>offset = 9, next_aligned = 16, safety = 0, unsafety = CHANGE_EBP, bump_count = 0\<rparr>"
  by code_simp

text \<open>\<^verbatim>\<open>pop %esp; mov %eax,(%esp)\<close>: popping into the stack pointer leaves it trusted.\<close>

definition pop_esp_prog :: disassembler where
  "pop_esp_prog = fx_module
     [(0, 1, fx_insn insn_pop 1 [op_r REGISTER_ESP]),
      (1, 3, fx_insn insn_mov 3 [op_m (fx_ea REGISTER_ESP 0 0), op_r REGISTER_EAX])]"

lemma accepts_pop_esp:
  "verify sfi_classic pop_esp_prog 4 =
     Inr \<lparr>offset = 4, next_aligned = 16, safety = 0, unsafety = 0, bump_count = 0\<rparr>"
  by code_simp

text \<open>\<^verbatim>\<open>popf\<close> between the mask and the jump keeps the register masked; \<^verbatim>\<open>src/checks.txt\<close> has
  every other instruction forget it.\<close>

definition popf_prog :: disassembler where
  "popf_prog = fx_module
     [(0, 6, fx_insn insn_and 6 [op_r REGISTER_EBX, op_i (JUMP_MASK sfi_classic)]),
      (6, 1, fx_insn insn_popflags 1 []),
      (7, 2, fx_insn insn_jmp 2 [op_r REGISTER_EBX])]"

lemma accepts_popf_after_mask:
  "verify sfi_classic popf_prog 9 =
     Inr \<lparr>offset = 9, next_aligned = 16, safety = 0, unsafety = 0, bump_count = 0\<rparr>"
  by code_simp

text \<open>\<^verbatim>\<open>mov $imm,%esp; and $JUMP_MASK,(%esp)\<close>: the mask of the return address stores through a
  stack pointer known to be unsafe, and makes it safe.\<close>

definition top_mask_prog :: disassembler where
  "top_mask_prog = fx_module
     [(0, 5, fx_insn insn_mov 5 [op_r REGISTER_ESP, op_i 0x08048000]),
      (5, 7, fx_insn insn_and 7 [op_m (fx_ea REGISTER_ESP 0 0), op_i (JUMP_MASK sfi_classic)])]"

lemma accepts_top_mask_unsafe_esp:
  "verify_step sfi_classic top_mask_prog init_vstate =
     Inr \<lparr>offset = 5, next_aligned = 16, safety = 0, unsafety = CHANGE_ESP, bump_count = 0\<rparr>"
  "verify sfi_classic top_mask_prog 12 =
     Inr \<lparr>offset = 12, next_aligned = 16, safety = 0x400, unsafety = 0, bump_count = 0\<rparr>"
  by code_simp+

text \<open>The last instruction may cover a chunk-aligned address (here 16): the check for a
  skipped address runs only when another instruction follows.\<close>

definition tail_prog :: disassembler where
  "tail_prog = fx_module [(0, 14, fx_insn insn_nop 14 []), (14, 4, fx_insn insn_nop 4 [])]"

lemma accepts_unaligned_tail:
  "verify sfi_classic tail_prog 18 =
     Inr \<lparr>offset = 18, next_aligned = 16, safety = 0, unsafety = 0, bump_count = 0\<rparr>"
  by code_simp

text \<open>The type of a third operand is not looked at.\<close>

lemma ternary_ignores_third: "arg_types_of [a, b, c] = arg_types_of [a, b, c']"
  by (simp add: TERNARY_def)

end
