(* ===== verification/SFI_Machine.thy ===== *)
theory SFI_Machine
  imports SFI_Verifier_Props
begin

text \<open>
  The machine against which the verifier's guarantees are read: the two tracked pointer
  registers \<^verbatim>\<open>%ebp\<close> and \<^verbatim>\<open>%esp\<close>, the address register \<^verbatim>\<open>%ebx\<close> and the word at the top of
  the stack; every other register and all of memory are arbitrary. Executing an instruction
  emits the addresses it writes and the addresses it transfers control to. An access to a
  guard page faults, so \<open>exec\<close> has no successor for it. The relation over-approximates:
  whatever is not tracked may take any value.
\<close>

section \<open>The machine the policy is about\<close>

record mstate =
  r_ebx :: u32
  r_ebp :: u32
  r_esp :: u32
  stack_top :: u32

datatype event = Write u32 | Goto u32

definition near :: "layout \<Rightarrow> nat \<Rightarrow> u32 \<Rightarrow> bool" where
  "near L k a \<longleftrightarrow> (\<exists>b i. data_or_zero L b \<and> \<bar>i\<bar> \<le> int k \<and> a = b + word_of_int i)"

definition guard_page :: "layout \<Rightarrow> u32 \<Rightarrow> bool" where
  "guard_page L a \<longleftrightarrow> near L 65536 a \<and> \<not> data_or_zero L a"

lemma near_region: "data_or_zero L a \<Longrightarrow> near L k a"
  unfolding near_def by (rule exI [of _ a], rule exI [of _ 0]) simp

lemma near_mono: "near L k a \<Longrightarrow> k \<le> k' \<Longrightarrow> near L k' a"
proof -
  assume "near L k a" and k: "k \<le> k'"
  then obtain b i where "data_or_zero L b" "\<bar>i\<bar> \<le> int k" "a = b + word_of_int i"
    by (auto simp: near_def)
  with k show ?thesis unfolding near_def by (intro exI [of _ b] exI [of _ i]) simp
qed

lemma near_shift: "near L k a \<Longrightarrow> \<bar>i\<bar> \<le> int j \<Longrightarrow> near L (k + j) (a + word_of_int i)"
proof -
  assume "near L k a" and i: "\<bar>i\<bar> \<le> int j"
  then obtain b x where "data_or_zero L b" "\<bar>x\<bar> \<le> int k" "a = b + word_of_int x"
    by (auto simp: near_def)
  then show ?thesis
    unfolding near_def using i by (intro exI [of _ b] exI [of _ "x + i"]) (auto simp: algebra_simps)
qed

lemma near_access: "near L k a \<Longrightarrow> k \<le> 65536 \<Longrightarrow> \<not> guard_page L a \<Longrightarrow> data_or_zero L a"
  using near_mono by (auto simp: guard_page_def)

lemma near_plus_4: "near L k a \<Longrightarrow> near L (k + 4) (a + 4)"
  using near_shift [of L k a 4 4] by simp

lemma near_minus_4: "near L k a \<Longrightarrow> near L (k + 4) (a - 4)"
  using near_shift [of L k a "-4" 4] by simp

lemma near_signed: "near L k a \<Longrightarrow> \<bar>sint w\<bar> \<le> int j \<Longrightarrow> near L (k + j) (a + w)"
  using near_shift [of L k a "sint w" j] by simp

lemma near_signed_minus: "near L k a \<Longrightarrow> \<bar>sint w\<bar> \<le> int j \<Longrightarrow> near L (k + j) (a - w)"
  using near_shift [of L k a "- sint w" j] by simp

lemma near_unshift: "near L k (a + w) \<Longrightarrow> \<bar>sint w\<bar> \<le> int j \<Longrightarrow> near L (k + j) a"
  using near_signed_minus [of L k "a + w" w j] by simp

text \<open>Clearing the low four bits moves an address by less than 16.\<close>

lemma near_and_f0: "near L k a \<Longrightarrow> near L (k + 16) (a AND 0xfffffff0)"
proof -
  assume n: "near L k a"
  have "a = (a AND NOT (mask 4)) OR take_bit 4 a"
    by (rule bit_word_eqI) (auto simp: bit_simps)
  also have "\<dots> = (a AND NOT (mask 4)) + take_bit 4 a"
    by (rule disjunctive_add [symmetric]) (auto simp: bit_simps)
  finally have "a AND NOT (mask 4) = a + word_of_int (- uint (take_bit 4 a))"
    by (simp add: algebra_simps)
  moreover have "NOT (mask 4) = (0xfffffff0 :: u32)" by (simp add: mask_eq_exp_minus_1)
  moreover have "\<bar>- uint (take_bit 4 a)\<bar> \<le> int 16"
    using take_bit_int_less_exp [of 4 "uint a"] by (simp add: unsigned_take_bit_eq)
  ultimately show ?thesis using near_shift [OF n] by metis
qed

section \<open>Effective addresses\<close>

text \<open>The address an expression denotes, for the forms whose registers are tracked.\<close>

definition ea_addr :: "mstate \<Rightarrow> x86_ea \<Rightarrow> u32 \<Rightarrow> bool" where
  "ea_addr m ea a \<longleftrightarrow>
     (reg_id (ea_index ea) = 0 \<longrightarrow>
        (reg_id (ea_base ea) = REGISTER_EBX \<longrightarrow> a = r_ebx m + ea_disp ea) \<and>
        (reg_id (ea_base ea) = REGISTER_ESP \<longrightarrow> a = r_esp m + ea_disp ea) \<and>
        (reg_id (ea_base ea) = REGISTER_EBP \<longrightarrow> a = r_ebp m + ea_disp ea) \<and>
        (reg_id (ea_base ea) = 0 \<longrightarrow> a = ea_disp ea))"

text \<open>What libdisasm documents of a displacement: it fits its size, and the sign flag says
  whether it is negative.\<close>

definition ea_wf :: "x86_ea \<Rightarrow> bool" where
  "ea_wf ea \<longleftrightarrow> (ea_disp_size ea = 0 \<longrightarrow> ea_disp ea = 0) \<and>
     (ea_disp_size ea \<le> 1 \<longrightarrow> \<bar>sint (ea_disp ea)\<bar> \<le> 128) \<and>
     (ea_disp_size ea \<le> 2 \<longrightarrow> \<bar>sint (ea_disp ea)\<bar> \<le> 32768) \<and>
     (ea_disp_sign ea \<longleftrightarrow> sint (ea_disp ea) < 0)"

lemma sint_small_unsigned: "(w :: u32) < 32768 \<Longrightarrow> sint w = uint w"
proof -
  assume "w < 32768"
  then have "uint w < 2 ^ 31" by (simp add: word_less_def)
  moreover have "- (2 ^ 31) \<le> uint w" by (rule order_trans [OF _ uint_ge_0]) simp
  ultimately have "signed_take_bit 31 (uint w) = uint w" by (rule signed_take_bit_int_eq_self [rotated])
  then show ?thesis by (simp add: sint_uint)
qed

lemma classify_ea_offset:
  assumes "ea_wf ea"
  shows "classify_ea ea = EA_EBP_OFFSET \<Longrightarrow> \<bar>sint (ea_disp ea)\<bar> \<le> 32768"
    and "classify_ea ea = EA_ESP_OFFSET \<Longrightarrow> \<bar>sint (ea_disp ea)\<bar> \<le> 128"
    and "classify_ea ea \<in> {EA_EBX_EXACT, EA_ESP_EXACT} \<Longrightarrow> ea_disp ea = 0"
  using assms by (auto simp: classify_ea_def ea_wf_def sint_small_unsigned word_less_def split: if_splits)

section \<open>Execution of one instruction\<close>

text \<open>\<open>havoc r m m'\<close>: at most the register \<open>r\<close> changes (and, with the stack pointer, the
  word it points at).\<close>

definition havoc :: "x86_reg \<Rightarrow> mstate \<Rightarrow> mstate \<Rightarrow> bool" where
  "havoc r m m' \<longleftrightarrow>
     (\<not> names_reg r REGISTER_EBX \<longrightarrow> r_ebx m' = r_ebx m) \<and>
     (\<not> names_reg r REGISTER_EBP \<longrightarrow> r_ebp m' = r_ebp m) \<and>
     (\<not> names_reg r REGISTER_ESP \<longrightarrow> r_esp m' = r_esp m)"

text \<open>Pushing and popping: the access must not hit a guard page.\<close>

definition pushes :: "layout \<Rightarrow> mstate \<Rightarrow> mstate \<Rightarrow> bool" where
  "pushes L m m' \<longleftrightarrow> \<not> guard_page L (r_esp m - 4) \<and> r_esp m' = r_esp m - 4 \<and>
     r_ebp m' = r_ebp m \<and> r_ebx m' = r_ebx m"

definition pops :: "layout \<Rightarrow> mstate \<Rightarrow> mstate \<Rightarrow> bool" where
  "pops L m m' \<longleftrightarrow> \<not> guard_page L (r_esp m) \<and> r_esp m' = r_esp m + 4"

definition same_regs :: "mstate \<Rightarrow> mstate \<Rightarrow> bool" where
  "same_regs m m' \<longleftrightarrow> r_ebx m' = r_ebx m \<and> r_ebp m' = r_ebp m \<and> r_esp m' = r_esp m"

definition exec_none :: "layout \<Rightarrow> x86_insn_type \<Rightarrow> mstate \<Rightarrow> event list \<Rightarrow> mstate \<Rightarrow> bool" where
  "exec_none L ty m ev m' \<longleftrightarrow>
     (if ty = insn_return then pops L m m' \<and> ev = [Goto (stack_top m)] \<and> r_ebp m' = r_ebp m
      else if ty = insn_leave then \<not> guard_page L (r_ebp m) \<and> r_esp m' = r_ebp m + 4 \<and> ev = []
      else if ty = insn_pushflags then pushes L m m' \<and> ev = [Write (r_esp m - 4)]
      else if ty = insn_popflags then pops L m m' \<and> r_ebp m' = r_ebp m \<and> r_ebx m' = r_ebx m \<and> ev = []
      else same_regs m m' \<and> ev = [])"

definition exec_relative :: "layout \<Rightarrow> x86_insn \<Rightarrow> x86_op \<Rightarrow> int \<Rightarrow> mstate \<Rightarrow> event list \<Rightarrow> mstate \<Rightarrow> bool" where
  "exec_relative L insn a off m ev m' \<longleftrightarrow>
     (let t = relative_target L insn a off
      in if insn_type insn = insn_call
         then pushes L m m' \<and> ev = [Write (r_esp m - 4), Goto t]
         else same_regs m m' \<and> (ev = [Goto t] \<or> insn_type insn = insn_jcc \<and> ev = []))"

definition exec_reg :: "layout \<Rightarrow> x86_insn_type \<Rightarrow> x86_op \<Rightarrow> mstate \<Rightarrow> event list \<Rightarrow> mstate \<Rightarrow> bool" where
  "exec_reg L ty a m ev m' \<longleftrightarrow>
     (let r = data_reg a
      in if ty = insn_push then pushes L m m' \<and> ev = [Write (r_esp m - 4)]
         else if ty = insn_pop then
           (\<exists>m1. pops L m m1 \<and> r_ebp m1 = r_ebp m \<and> r_ebx m1 = r_ebx m \<and> havoc r m1 m') \<and> ev = []
         else if ty \<in> {insn_jmp, insn_call} then
           (\<exists>t. (reg_id r = REGISTER_EBX \<longrightarrow> t = r_ebx m) \<and>
              (if ty = insn_call then pushes L m m' \<and> ev = [Write (r_esp m - 4), Goto t]
               else same_regs m m' \<and> ev = [Goto t]))
         else havoc r m m' \<and> ev = [])"

definition exec_reg_imm :: "x86_insn_type \<Rightarrow> x86_op \<Rightarrow> x86_op \<Rightarrow> mstate \<Rightarrow> mstate \<Rightarrow> bool" where
  "exec_reg_imm ty a b m m' \<longleftrightarrow> havoc (data_reg a) m m' \<and>
     (let r = reg_id (data_reg a); w = data_dword b; sb = scast (ucast w :: byte) :: u32
      in (ty = insn_and \<and> op_datatype b = op_dword \<longrightarrow>
            (r = REGISTER_EBX \<longrightarrow> r_ebx m' = r_ebx m AND w) \<and>
            (r = REGISTER_EBP \<longrightarrow> r_ebp m' = r_ebp m AND w) \<and>
            (r = REGISTER_ESP \<longrightarrow> r_esp m' = r_esp m AND w)) \<and>
         (op_datatype b = op_byte \<and> r = REGISTER_ESP \<longrightarrow>
            (ty = insn_add \<longrightarrow> r_esp m' = r_esp m + sb) \<and>
            (ty = insn_sub \<longrightarrow> r_esp m' = r_esp m - sb) \<and>
            (ty = insn_and \<and> w = 0xf0 \<longrightarrow> r_esp m' = r_esp m AND 0xfffffff0)))"

definition exec_reg_reg :: "x86_insn_type \<Rightarrow> x86_op \<Rightarrow> x86_op \<Rightarrow> mstate \<Rightarrow> mstate \<Rightarrow> bool" where
  "exec_reg_reg ty a b m m' \<longleftrightarrow> havoc (data_reg a) m m' \<and>
     (ty = insn_mov \<longrightarrow>
        (reg_id (data_reg a) = REGISTER_EBP \<and> reg_id (data_reg b) = REGISTER_ESP \<longrightarrow> r_ebp m' = r_esp m) \<and>
        (reg_id (data_reg a) = REGISTER_ESP \<and> reg_id (data_reg b) = REGISTER_EBP \<longrightarrow> r_esp m' = r_ebp m))"

text \<open>A store through an expression; a masking store at the top of the stack masks the
  tracked word.\<close>

definition exec_store :: "layout \<Rightarrow> x86_insn \<Rightarrow> x86_op \<Rightarrow> mstate \<Rightarrow> event list \<Rightarrow> mstate \<Rightarrow> bool" where
  "exec_store L insn a m ev m' \<longleftrightarrow> same_regs m m' \<and>
     (\<exists>x. ea_addr m (data_expression a) x \<and> \<not> guard_page L x \<and> ev = [Write x]) \<and>
     (\<forall>w. is_top_mask_insn w insn \<longrightarrow> stack_top m' = stack_top m AND w)"

definition exec_unary_expr :: "layout \<Rightarrow> x86_insn \<Rightarrow> x86_op \<Rightarrow> mstate \<Rightarrow> event list \<Rightarrow> mstate \<Rightarrow> bool" where
  "exec_unary_expr L insn a m ev m' \<longleftrightarrow>
     (if insn_type insn = insn_push then pushes L m m' \<and> ev = [Write (r_esp m - 4)]
      else if insn_type insn \<in> {insn_mul, insn_div} then same_regs m m' \<and> ev = []
      else exec_store L insn a m ev m')"

definition exec_binary_expr :: "layout \<Rightarrow> x86_insn \<Rightarrow> x86_op \<Rightarrow> mstate \<Rightarrow> event list \<Rightarrow> mstate \<Rightarrow> bool" where
  "exec_binary_expr L insn a m ev m' \<longleftrightarrow>
     (if insn_type insn \<in> {insn_cmp, insn_test}
      then same_regs m m' \<and> ev = [] \<and> (\<exists>x. ea_addr m (data_expression a) x \<and> \<not> guard_page L x)
      else exec_store L insn a m ev m')"

definition exec :: "layout \<Rightarrow> x86_insn \<Rightarrow> int \<Rightarrow> mstate \<Rightarrow> event list \<Rightarrow> mstate \<Rightarrow> bool" where
  "exec L insn off m ev m' \<longleftrightarrow>
     (case explicit_args insn of
        [] \<Rightarrow> exec_none L (insn_type insn) m ev m'
      | [a] \<Rightarrow> if op_type a \<in> {op_relative_near, op_relative_far} then exec_relative L insn a off m ev m'
          else if op_type a = op_register then exec_reg L (insn_type insn) a m ev m'
          else if op_type a = op_expression then exec_unary_expr L insn a m ev m'
          else pushes L m m' \<and> ev = [Write (r_esp m - 4)]
      | a # b # cs \<Rightarrow>
          if op_type a = op_expression then exec_binary_expr L insn a m ev m'
          else if op_type a = op_offset then same_regs m m' \<and> ev = [Write (data_offset a)]
          else ev = [] \<and>
            (if cs = [] \<and> op_type b = op_immediate then exec_reg_imm (insn_type insn) a b m m'
             else if cs = [] \<and> op_type b = op_register then exec_reg_reg (insn_type insn) a b m m'
             else havoc (data_reg a) m m'))"

section \<open>Instructions the soundness theorem covers\<close>

definition uses_stack :: "x86_insn_type \<Rightarrow> bool" where
  "uses_stack ty \<longleftrightarrow> ty \<in> {insn_push, insn_pop, insn_pushflags, insn_popflags, insn_call, insn_return}"

definition free_reg :: "x86_reg \<Rightarrow> bool" where
  "free_reg r \<longleftrightarrow> \<not> names_reg r REGISTER_ESP \<and> \<not> names_reg r REGISTER_EBP"

text \<open>The instructions on which the verifier is stricter than or equal to the policy: a
  conjunct for each gap.\<close>

definition covered :: "layout \<Rightarrow> vstate \<Rightarrow> x86_insn \<Rightarrow> bool" where
  "covered L s insn \<longleftrightarrow>
     (let ty = insn_type insn; as = explicit_args insn
      in (\<forall>a \<in> set as. op_type a = op_expression \<longrightarrow> ea_wf (data_expression a)) \<and>
         (uses_stack ty \<longrightarrow> \<not> has (unsafety s) CHANGE_ESP) \<and>
         (ty \<in> {insn_return, insn_popflags} \<longrightarrow> as = []) \<and>
         (ty = insn_leave \<longrightarrow> \<not> has (unsafety s) CHANGE_EBP) \<and>
         (is_top_mask_insn (JUMP_MASK L) insn \<longrightarrow> \<not> has (unsafety s) CHANGE_ESP) \<and>
         (case as of
            [a] \<Rightarrow> (ty = insn_pop \<longrightarrow> \<not> names_reg (data_reg a) REGISTER_ESP) \<and>
              (ty = insn_fpu_0xa000 \<longrightarrow> op_type a \<noteq> op_expression)
          | [a, b] \<Rightarrow>
              (op_type a = op_register \<and> op_type b = op_immediate \<longrightarrow>
                 (names_reg (data_reg a) REGISTER_ESP \<longrightarrow> reg_id (data_reg a) = REGISTER_ESP) \<and>
                 \<not> (names_reg (data_reg a) REGISTER_ESP \<and> names_reg (data_reg a) REGISTER_EBP) \<and>
                 (reg_id (data_reg a) = REGISTER_EBX \<longrightarrow> free_reg (data_reg a))) \<and>
              (op_type a = op_register \<and> op_type b = op_register \<longrightarrow>
                 free_reg (data_reg a) \<or>
                 ty = insn_mov \<and> unsafety s = 0 \<and>
                   (data_reg a = \<lparr>reg_id = REGISTER_EBP, reg_alias = 0\<rparr> \<and> reg_id (data_reg b) = REGISTER_ESP \<or>
                    data_reg a = \<lparr>reg_id = REGISTER_ESP, reg_alias = 0\<rparr> \<and> reg_id (data_reg b) = REGISTER_EBP)) \<and>
              (op_type a = op_register \<and> op_type b = op_offset \<longrightarrow> free_reg (data_reg a))
          | [a, b, c] \<Rightarrow> free_reg (data_reg a)
          | _ \<Rightarrow> True))"

section \<open>The invariant\<close>

definition jump_ok :: "layout \<Rightarrow> u32 \<Rightarrow> bool" where
  "jump_ok L t \<longleftrightarrow> (\<exists>x. t = x AND JUMP_MASK L) \<or> chunk_aligned L t \<and> in_code L t"

definition entry_ok :: "layout \<Rightarrow> mstate \<Rightarrow> bool" where
  "entry_ok L m \<longleftrightarrow> near L 132 (r_ebp m) \<and> near L 132 (r_esp m)"

definition sound_state :: "layout \<Rightarrow> vstate \<Rightarrow> mstate \<Rightarrow> bool" where
  "sound_state L s m \<longleftrightarrow>
     (\<not> has (unsafety s) CHANGE_EBP \<longrightarrow> near L 132 (r_ebp m)) \<and>
     (\<not> has (unsafety s) CHANGE_ESP \<longrightarrow> near L (132 + 128 * bump_count s) (r_esp m)) \<and>
     (has (safety s) CODE_SAFETY \<longrightarrow> (\<exists>x. r_ebx m = x AND JUMP_MASK L)) \<and>
     (has (safety s) DATA_SAFETY \<longrightarrow> data_or_zero L (r_ebx m)) \<and>
     (has (safety s) STACK_TOP_SAFETY \<longrightarrow> (\<exists>x. stack_top m = x AND JUMP_MASK L))"

fun event_ok :: "layout \<Rightarrow> event \<Rightarrow> bool" where
  "event_ok L (Write a) = data_or_zero L a"
| "event_ok L (Goto t) = jump_ok L t"

definition is_goto :: "event \<Rightarrow> bool" where
  "is_goto e \<longleftrightarrow> (\<exists>t. e = Goto t)"

end
