(* ===== verification/SFI_Host.thy ===== *)
theory SFI_Host
  imports SFI_Sizes
begin

text \<open>
  What the trusted side of the sandbox is made of: the loader's global variables, the ways a
  wrapper can end, and the host's C library, which is a parameter. A host call has a name and
  arguments; doubles and floats are carried as their bit patterns, pointers as addresses. The
  host's own state is an abstract type \<open>'w\<close>.
\<close>


lemma ucast_u64_u32 [simp]: "ucast (ucast (x :: u32) :: u64) = x"
  by (rule bit_word_eqI) (auto simp: bit_simps)

datatype 'f carg = Word u32 | Dword u64 | Stream "'f option" | Text string

section \<open>The host\<close>

text \<open>The fields of \<^verbatim>\<open>struct stat\<close> that the wrappers read.\<close>

record host_stat =
  st_size :: u32
  st_mode :: u32
  st_mtime :: u32
  st_nlink :: u32
  st_ino :: u32
  st_dev :: u64
  st_uid :: u32
  st_gid :: u32
  st_rdev :: u64
  st_atime :: u32
  st_ctime :: u32

record ('f, 'w) host =
  h_call :: "string \<Rightarrow> 'f carg list \<Rightarrow> 'w \<Rightarrow> u64 \<times> 'w"  \<comment> \<open>any function returning a scalar\<close>
  h_open :: "string \<Rightarrow> 'f carg list \<Rightarrow> 'w \<Rightarrow> 'f option \<times> 'w"  \<comment> \<open>\<^verbatim>\<open>fopen\<close> and \<^verbatim>\<open>fdopen\<close>\<close>
  h_stat :: "string \<Rightarrow> u32 \<Rightarrow> 'w \<Rightarrow> (u32 \<times> host_stat) \<times> 'w"  \<comment> \<open>\<^verbatim>\<open>stat\<close>, \<^verbatim>\<open>lstat\<close>, \<^verbatim>\<open>fstat\<close>\<close>
  h_errno :: "'w \<Rightarrow> u32"
  h_stdio :: "nat \<Rightarrow> 'f"  \<comment> \<open>\<^verbatim>\<open>stdin\<close>, \<^verbatim>\<open>stdout\<close>, \<^verbatim>\<open>stderr\<close>\<close>

section \<open>Outcomes\<close>

datatype stop =
    Aborted                 \<comment> \<open>\<^verbatim>\<open>abort()\<close> or a failed \<^verbatim>\<open>assert\<close>\<close>
  | Exited u32              \<comment> \<open>\<^verbatim>\<open>exit(n)\<close>\<close>
  | Out_of_bounds int       \<comment> \<open>an array access outside its bounds, undefined in C\<close>
  | Divide_error            \<comment> \<open>division by zero, a processor trap\<close>
  | Trapped                 \<comment> \<open>\<^verbatim>\<open>int3\<close>\<close>
  | Unterminated            \<comment> \<open>a loop over a string that has no end\<close>

datatype ('s, 'a) outcome = Return 'a 's | Longjmp 's | Halt stop

fun out_bind :: "('s, 'a) outcome \<Rightarrow> ('a \<Rightarrow> 's \<Rightarrow> ('s, 'b) outcome) \<Rightarrow> ('s, 'b) outcome" where
  "out_bind (Return x s) k = k x s"
| "out_bind (Longjmp s) k = Longjmp s"
| "out_bind (Halt e) k = Halt e"

lemma out_bind_Return [simp]:
  "out_bind r k = Return y t \<longleftrightarrow> (\<exists>x s. r = Return x s \<and> k x s = Return y t)"
  by (cases r) auto

section \<open>A table of streams\<close>

definition max_files :: nat where
  "max_files = 16"

text \<open>The first free slot of a table, by the loop \<^verbatim>\<open>for (i = 0; i < 16; i++) if (!files[i]) break;\<close>\<close>

fun free_slot_from :: "nat \<Rightarrow> 'f option list \<Rightarrow> nat" where
  "free_slot_from i [] = i"
| "free_slot_from i (x # xs) = (if x = None then i else free_slot_from (Suc i) xs)"

abbreviation free_slot :: "'f option list \<Rightarrow> nat" where
  "free_slot \<equiv> free_slot_from 0"

lemma free_slot_from_bounds: "i \<le> free_slot_from i xs \<and> free_slot_from i xs \<le> i + length xs"
  by (induction i xs rule: free_slot_from.induct) auto

lemma free_slot_from_nth:
  "free_slot_from i xs < i + length xs \<Longrightarrow> xs ! (free_slot_from i xs - i) = None"
proof (induction i xs rule: free_slot_from.induct)
  case (2 i x xs)
  show ?case
  proof (cases "x = None")
    case False
    then have "Suc i \<le> free_slot_from (Suc i) xs" using free_slot_from_bounds [of "Suc i" xs] by simp
    then have "free_slot_from (Suc i) xs - i = Suc (free_slot_from (Suc i) xs - Suc i)" by simp
    then show ?thesis using 2 False by auto
  qed simp
qed simp

lemma free_slot_from_least:
  "j < free_slot_from i xs \<Longrightarrow> i \<le> j \<Longrightarrow> xs ! (j - i) \<noteq> None"
proof (induction i xs rule: free_slot_from.induct)
  case (2 i x xs)
  show ?case
  proof (cases "i = j")
    case False
    then have "j - i = Suc (j - Suc i)" using 2(3) by simp
    then show ?thesis using 2 False by (auto split: if_splits)
  qed (use 2 in \<open>auto split: if_splits\<close>)
qed simp

lemma free_slot_le: "free_slot xs \<le> length xs"
  using free_slot_from_bounds [of 0 xs] by simp

lemma free_slot_None: "free_slot xs < length xs \<Longrightarrow> xs ! free_slot xs = None"
  using free_slot_from_nth [of 0 xs] by simp

lemma free_slot_least: "j < free_slot xs \<Longrightarrow> xs ! j \<noteq> None"
  using free_slot_from_least [of j 0 xs] by simp

lemma free_slot_full: "free_slot xs = length xs \<longleftrightarrow> None \<notin> set xs"
proof
  assume "free_slot xs = length xs"
  then show "None \<notin> set xs" using free_slot_least [of _ xs] by (auto simp: in_set_conv_nth)
next
  assume "None \<notin> set xs"
  then show "free_slot xs = length xs"
    using free_slot_None [of xs] free_slot_le [of xs] nth_mem [of "free_slot xs" xs] by fastforce
qed

text \<open>A C index expression into the table: negative or too large is undefined.\<close>

definition slot_of :: "'a list \<Rightarrow> u32 \<Rightarrow> nat option" where
  "slot_of fs fi = (if 0 \<le> sint fi \<and> sint fi < int (length fs) then Some (nat (sint fi)) else None)"

lemma slot_of_Some: "slot_of fs fi = Some k \<Longrightarrow> k < length fs \<and> int k = sint fi"
  by (auto simp: slot_of_def split: if_splits)

lemma slot_of_of_nat:
  assumes "k < length fs" "length fs \<le> 2 ^ 31"
  shows "slot_of fs (of_nat k) = Some k"
proof -
  have "sint (word_of_int (int k) :: u32) = int k"
    using assms by (simp only: int_word_sint) simp
  then show ?thesis using assms by (simp add: slot_of_def)
qed

end
