(* ===== verification/SFI_Streams.thy ===== *)
theory SFI_Streams
  imports SFI_Host
begin

text \<open>
  The contract of a stream table, stated once: \<^verbatim>\<open>src/loader.c\<close> keeps one in \<^verbatim>\<open>files\<close> and
  \<^verbatim>\<open>src/outside.c\<close> another in \<^verbatim>\<open>outside_files\<close>. A client opens streams, gets small integers
  for them, and closes them; the lemmas say what such an integer is worth.
\<close>

definition streams_free :: "'f option list \<Rightarrow> nat" where
  "streams_free fs = length (filter (\<lambda>x. x = None) fs)"

lemma streams_free_update:
  assumes "k < length fs"
  shows "fs ! k = None \<Longrightarrow> streams_free fs = Suc (streams_free (fs[k := Some f]))"
    and "fs ! k \<noteq> None \<Longrightarrow> streams_free (fs[k := None]) = Suc (streams_free fs)"
proof -
  have split: "fs = take k fs @ fs ! k # drop (Suc k) fs" "fs[k := x] = take k fs @ x # drop (Suc k) fs" for x
    using assms by (simp_all add: id_take_nth_drop upd_conv_take_nth_drop)
  have e: "streams_free fs = streams_free (take k fs) + streams_free [fs ! k] + streams_free (drop (Suc k) fs)"
    by (subst split(1)) (simp add: streams_free_def)
  show "fs ! k = None \<Longrightarrow> streams_free fs = Suc (streams_free (fs[k := Some f]))"
    unfolding e split(2) by (simp add: streams_free_def)
  show "fs ! k \<noteq> None \<Longrightarrow> streams_free (fs[k := None]) = Suc (streams_free fs)"
    unfolding e split(2) by (simp add: streams_free_def)
qed

text \<open>What a client asks to have opened: a path or a descriptor, and a mode.\<close>

datatype open_arg = Fopen u32 u32 | Fdopen u32 u32

locale stream_table =
  fixes tab :: "'s \<Rightarrow> 'f option list"
    and open_stream :: "'a \<Rightarrow> 's \<Rightarrow> ('s, u64) outcome"
    and close_stream :: "u32 \<Rightarrow> 's \<Rightarrow> ('s, u64) outcome"
    and host_open :: "'a \<Rightarrow> 's \<Rightarrow> 'f option"
  assumes open_full: "length (tab s) = max_files \<Longrightarrow> None \<notin> set (tab s) \<Longrightarrow> open_stream a s = Halt Aborted"
    and open_ok: "length (tab s) = max_files \<Longrightarrow> None \<in> set (tab s) \<Longrightarrow> host_open a s = Some f \<Longrightarrow>
      \<exists>s'. open_stream a s = Return (ucast (of_nat (free_slot (tab s)) :: u32)) s' \<and>
        tab s' = (tab s)[free_slot (tab s) := Some f]"
    and open_fail: "length (tab s) = max_files \<Longrightarrow> None \<in> set (tab s) \<Longrightarrow> host_open a s = None \<Longrightarrow>
      \<exists>s'. open_stream a s = Return (ucast (- 1 :: u32)) s' \<and> tab s' = tab s"
    and close_ok: "slot_of (tab s) fi = Some k \<Longrightarrow>
      \<exists>r s'. close_stream fi s = Return r s' \<and> tab s' = (tab s)[k := None]"
    and close_bad: "slot_of (tab s) fi = None \<Longrightarrow> close_stream fi s = Halt (Out_of_bounds (sint fi))"
begin

definition table_wf :: "'s \<Rightarrow> bool" where
  "table_wf s \<longleftrightarrow> length (tab s) = max_files"

lemma free_slot_lt:
  assumes "table_wf s" "None \<in> set (tab s)"
  shows "free_slot (tab s) < max_files"
  using assms free_slot_full [of "tab s"] free_slot_le [of "tab s"] by (auto simp: table_wf_def le_less)

text \<open>An open that succeeds returns the least free slot and changes only that slot.\<close>

lemma open_result:
  assumes "table_wf s" "host_open a s = Some f" "open_stream a s = Return r s'"
  shows "\<exists>k < max_files. r = ucast (of_nat k :: u32) \<and> tab s ! k = None \<and> (\<forall>j < k. tab s ! j \<noteq> None) \<and>
    tab s' = (tab s)[k := Some f]"
proof -
  have free: "None \<in> set (tab s)" using assms open_full [of s a] by (force simp: table_wf_def)
  have "r = ucast (of_nat (free_slot (tab s)) :: u32)" "tab s' = (tab s)[free_slot (tab s) := Some f]"
    using open_ok [of s a f] assms free by (auto simp: table_wf_def)
  moreover have "tab s ! free_slot (tab s) = None"
    using free_slot_lt [OF assms(1) free] free_slot_None [of "tab s"] assms(1) by (simp add: table_wf_def)
  ultimately show ?thesis
    using free_slot_lt [OF assms(1) free] free_slot_least [of _ "tab s"] by blast
qed

lemma open_wf: "table_wf s \<Longrightarrow> open_stream a s = Return r s' \<Longrightarrow> table_wf s'"
proof -
  assume wf: "table_wf s" and o: "open_stream a s = Return r s'"
  then have free: "None \<in> set (tab s)" using open_full [of s a] by (force simp: table_wf_def)
  show "table_wf s'"
    using open_ok [of s a] open_fail [of s a] wf free o
    by (cases "host_open a s") (auto simp: table_wf_def)
qed

lemma close_wf: "table_wf s \<Longrightarrow> close_stream fi s = Return r s' \<Longrightarrow> table_wf s'"
  using close_ok [of s fi] close_bad [of s fi] by (cases "slot_of (tab s) fi") (auto simp: table_wf_def)

text \<open>Closing what was opened gives the table back.\<close>

lemma open_close:
  assumes "table_wf s" "host_open a s = Some f" "open_stream a s = Return r s'"
  shows "\<exists>r' s''. close_stream (ucast r) s' = Return r' s'' \<and> tab s'' = tab s"
proof -
  obtain k where k: "k < max_files" "r = ucast (of_nat k :: u32)" "tab s ! k = None" "tab s' = (tab s)[k := Some f]"
    using open_result [OF assms] by blast
  then have len: "length (tab s') = max_files" using assms(1) by (simp add: table_wf_def)
  then have "slot_of (tab s') (of_nat k) = Some k" using k(1) by (intro slot_of_of_nat) (auto simp: max_files_def)
  moreover have "ucast r = (of_nat k :: u32)" using k(2) by simp
  ultimately obtain r' s'' where "close_stream (ucast r) s' = Return r' s''" "tab s'' = (tab s')[k := None]"
    using close_ok [of s' "of_nat k" k] by auto
  moreover have "(tab s')[k := None] = tab s" using k(3) k(4) list_update_id [of "tab s" k] by simp
  ultimately show ?thesis by auto
qed

text \<open>Each successful open uses up one slot; with none left the process aborts.\<close>

lemma open_uses_slot:
  assumes "table_wf s" "host_open a s = Some f" "open_stream a s = Return r s'"
  shows "streams_free (tab s) = Suc (streams_free (tab s'))"
proof -
  obtain k where "k < max_files" "tab s ! k = None" "tab s' = (tab s)[k := Some f]"
    using open_result [OF assms] by blast
  then show ?thesis using streams_free_update(1) [of k "tab s" f] assms(1) by (simp add: table_wf_def)
qed

lemma open_total:
  assumes "table_wf s"
  shows "(\<exists>r s'. open_stream a s = Return r s') \<longleftrightarrow> 0 < streams_free (tab s)"
proof -
  have "0 < streams_free (tab s) \<longleftrightarrow> None \<in> set (tab s)"
    by (auto simp: streams_free_def filter_empty_conv)
  then show ?thesis
    using assms open_full [of s a] open_ok [of s a] open_fail [of s a]
    by (cases "host_open a s") (auto simp: table_wf_def)
qed

end

end
