(* ===== verification/SFI_Wrappers.thy ===== *)
theory SFI_Wrappers
  imports SFI_Streams "HOL-Library.Signed_Division"
begin

text \<open>
  The trusted functions that sandboxed code can call (\<^verbatim>\<open>src/loader.c\<close>, the \<^verbatim>\<open>wrap_\<close>
  functions). Most hand their arguments to the host's function of the same name; those that
  take a stream index look it up in \<^verbatim>\<open>files\<close> first. Every result is the 64-bit register
  pair; a function returning \<^verbatim>\<open>int\<close> leaves its result in the low half.
\<close>

named_theorems wrapper_def

section \<open>The loader's variables\<close>

record inside_stat =
  inside_st_size :: u32
  inside_st_mode :: u32
  inside_st_mtime :: u32
  inside_st_nlink :: u32
  inside_st_ino :: u32
  inside_st_dev :: u64
  inside_st_uid :: u32
  inside_st_gid :: u32
  inside_st_rdev :: u64
  inside_st_atime :: u32
  inside_st_ctime :: u32

record ('f, 'w) rt =
  files :: "'f option list"
  data_break :: u32
  exit_value :: u32
  in_bufs :: "addr \<Rightarrow> inside_stat option"  \<comment> \<open>the \<^verbatim>\<open>struct inside_stat\<close> buffers filled so far\<close>
  world :: 'w

type_synonym ('f, 'w) wrapper = "('f, 'w) rt \<Rightarrow> (('f, 'w) rt, u64) outcome"

definition int_result :: "u32 \<Rightarrow> u64" where
  "int_result r = ucast r"

definition host_call :: "('f, 'w) host \<Rightarrow> string \<Rightarrow> 'f carg list \<Rightarrow> ('f, 'w) wrapper" where
  "host_call H fn args s = (let (r, w) = h_call H fn args (world s) in Return r (s\<lparr>world := w\<rparr>))"

text \<open>\<^verbatim>\<open>files[fi]\<close> as an argument.\<close>

definition with_stream :: "u32 \<Rightarrow> ('f option \<Rightarrow> ('f, 'w) wrapper) \<Rightarrow> ('f, 'w) wrapper" where
  "with_stream fi k s =
     (case slot_of (files s) fi of
        None \<Rightarrow> Halt (Out_of_bounds (sint fi))
      | Some i \<Rightarrow> k (files s ! i) s)"

section \<open>64-bit arithmetic\<close>

definition wrap___udivdi3 :: "u64 \<Rightarrow> u64 \<Rightarrow> ('f, 'w) wrapper" where
  "wrap___udivdi3 a b s = (if b = 0 then Halt Divide_error else Return (a div b) s)"

definition wrap___divdi3 :: "u64 \<Rightarrow> u64 \<Rightarrow> ('f, 'w) wrapper" where
  "wrap___divdi3 a b s =
     (if b = 0 then Halt Divide_error else Return (word_of_int (sint a sdiv sint b)) s)"

definition wrap___umoddi3 :: "u64 \<Rightarrow> u64 \<Rightarrow> ('f, 'w) wrapper" where
  "wrap___umoddi3 a b s = (if b = 0 then Halt Divide_error else Return (a mod b) s)"

definition wrap___moddi3 :: "u64 \<Rightarrow> u64 \<Rightarrow> ('f, 'w) wrapper" where
  "wrap___moddi3 a b s =
     (if b = 0 then Halt Divide_error else Return (word_of_int (sint a smod sint b)) s)"

section \<open>Heap, exit and errors\<close>

definition wrap_sbrk :: "layout \<Rightarrow> u32 \<Rightarrow> ('f, 'w) wrapper" where
  "wrap_sbrk L incr s =
     (let new_brk = data_break s + incr
      in if new_brk > DATA_START L \<and> new_brk < DATA_END L
         then Return (int_result (data_break s)) (s\<lparr>data_break := new_brk\<rparr>)
         else Return (int_result (-1)) s)"

definition wrap_exit :: "u32 \<Rightarrow> ('f, 'w) wrapper" where
  "wrap_exit val s = Longjmp (s\<lparr>exit_value := val\<rparr>)"

definition wrap_abort :: "('f, 'w) wrapper" where
  "wrap_abort s = Halt Aborted"

definition wrap_outside_errno :: "('f, 'w) host \<Rightarrow> ('f, 'w) wrapper" where
  "wrap_outside_errno H s = Return (int_result (h_errno H (world s))) s"

definition wrap_fail_check :: "('f, 'w) host \<Rightarrow> ('f, 'w) wrapper" where
  "wrap_fail_check H s =
     out_bind (host_call H ''printf''
         [Text (''Program has performed an illegal operation and will be terminated'' @ [CHR 0x0A])] s)
       (\<lambda>_ _. Halt (Exited 1))"

definition wrap_print_int :: "('f, 'w) host \<Rightarrow> u32 \<Rightarrow> ('f, 'w) wrapper" where
  "wrap_print_int H i = host_call H ''printf'' [Text (''%d'' @ [CHR 0x0A]), Word i]"

section \<open>Streams\<close>

definition wrap_outside_fopen :: "('f, 'w) host \<Rightarrow> u32 \<Rightarrow> u32 \<Rightarrow> ('f, 'w) wrapper" where
  "wrap_outside_fopen H path mode s =
     (let i = free_slot (files s)
      in if i = max_files then Halt Aborted
         else let (f, w) = h_open H ''fopen'' [Word path, Word mode] (world s);
                  s' = s\<lparr>files := (files s)[i := f], world := w\<rparr>
              in if f = None then Return (int_result (-1)) s'
                 else Return (int_result (of_nat i)) s')"

definition wrap_outside_fdopen :: "('f, 'w) host \<Rightarrow> u32 \<Rightarrow> u32 \<Rightarrow> ('f, 'w) wrapper" where
  "wrap_outside_fdopen H fd mode s =
     (let i = free_slot (files s)
      in if i = max_files then Halt Aborted
         else let (f, w) = h_open H ''fdopen'' [Word fd, Word mode] (world s);
                  s' = s\<lparr>files := (files s)[i := f], world := w\<rparr>
              in if f = None then Return (int_result (-1)) s'
                 else Return (int_result (of_nat i)) s')"

definition wrap_outside_fclose :: "('f, 'w) host \<Rightarrow> u32 \<Rightarrow> ('f, 'w) wrapper" where
  "wrap_outside_fclose H fi s =
     (case slot_of (files s) fi of
        None \<Rightarrow> Halt (Out_of_bounds (sint fi))
      | Some i \<Rightarrow> out_bind (host_call H ''fclose'' [Stream (files s ! i)] s)
          (\<lambda>ret s'. Return ret (s'\<lparr>files := (files s')[i := None]\<rparr>)))"

definition init_wrappers :: "('f, 'w) host \<Rightarrow> ('f, 'w) rt \<Rightarrow> ('f, 'w) rt" where
  "init_wrappers H s =
     s\<lparr>files := (files s)[0 := Some (h_stdio H 0), 1 := Some (h_stdio H 1), 2 := Some (h_stdio H 2)]\<rparr>"

section \<open>File status\<close>

definition copy_stat :: "host_stat \<Rightarrow> inside_stat" where
  "copy_stat buf =
     \<lparr>inside_st_size = st_size buf, inside_st_mode = st_mode buf, inside_st_mtime = st_mtime buf,
      inside_st_nlink = st_nlink buf, inside_st_ino = st_ino buf, inside_st_dev = st_dev buf,
      inside_st_uid = st_uid buf, inside_st_gid = st_gid buf, inside_st_rdev = st_rdev buf,
      inside_st_atime = st_atime buf, inside_st_ctime = st_ctime buf\<rparr>"

text \<open>The body that the three functions share; \<open>arg\<close> is the path or the descriptor.\<close>

definition stat_into :: "('f, 'w) host \<Rightarrow> string \<Rightarrow> u32 \<Rightarrow> addr \<Rightarrow> ('f, 'w) wrapper" where
  "stat_into H fn arg in_buf s =
     (let ((ret, buf), w) = h_stat H fn arg (world s);
          s' = s\<lparr>world := w\<rparr>
      in Return (int_result ret)
           (if ret = 0 then s'\<lparr>in_bufs := (in_bufs s')(in_buf := Some (copy_stat buf))\<rparr> else s'))"

definition wrap_outside_stat :: "('f, 'w) host \<Rightarrow> u32 \<Rightarrow> addr \<Rightarrow> ('f, 'w) wrapper" where
  "wrap_outside_stat H fname in_buf = stat_into H ''stat'' fname in_buf"

definition wrap_outside_lstat :: "('f, 'w) host \<Rightarrow> u32 \<Rightarrow> addr \<Rightarrow> ('f, 'w) wrapper" where
  "wrap_outside_lstat H fname in_buf = stat_into H ''lstat'' fname in_buf"

definition wrap_outside_fstat :: "('f, 'w) host \<Rightarrow> u32 \<Rightarrow> addr \<Rightarrow> ('f, 'w) wrapper" where
  "wrap_outside_fstat H fd in_buf = stat_into H ''fstat'' fd in_buf"

section \<open>The VX32 interface\<close>

definition errno_to_vx32 :: "u32 \<Rightarrow> u32" where
  "errno_to_vx32 host_errno =
     (if host_errno = 22 then 1       \<comment> \<open>\<^verbatim>\<open>EINVAL\<close>\<close>
      else if host_errno = 12 then 2  \<comment> \<open>\<^verbatim>\<open>ENOMEM\<close>\<close>
      else if host_errno = 33 then 3  \<comment> \<open>\<^verbatim>\<open>EDOM\<close>\<close>
      else if host_errno = 34 then 4  \<comment> \<open>\<^verbatim>\<open>ERANGE\<close>\<close>
      else if host_errno = 9 then 5   \<comment> \<open>\<^verbatim>\<open>EBADF\<close>\<close>
      else if host_errno = 71 then 6  \<comment> \<open>\<^verbatim>\<open>EPROTO\<close>\<close>
      else if host_errno = 5 then 7   \<comment> \<open>\<^verbatim>\<open>EIO\<close>\<close>
      else if host_errno = 2 then 8   \<comment> \<open>\<^verbatim>\<open>ENOENT\<close>\<close>
      else if host_errno = 32 then 9  \<comment> \<open>\<^verbatim>\<open>EPIPE\<close>\<close>
      else if host_errno = 11 then 10 \<comment> \<open>\<^verbatim>\<open>EAGAIN\<close>\<close>
      else 1)"

definition wrap_vx32__exit :: "u32 \<Rightarrow> ('f, 'w) wrapper" where
  "wrap_vx32__exit status s = Longjmp (s\<lparr>exit_value := status\<rparr>)"

definition wrap_vx32_read :: "('f, 'w) host \<Rightarrow> u32 \<Rightarrow> u32 \<Rightarrow> u32 \<Rightarrow> ('f, 'w) wrapper" where
  "wrap_vx32_read H fd buf count s =
     out_bind (host_call H ''read'' [Word fd, Word buf, Word count] s)
       (\<lambda>rc s'. if (ucast rc :: u32) = -1
          then Return (int_result (- errno_to_vx32 (h_errno H (world s')))) s'
          else Return rc s')"

definition wrap_vx32_sbrk :: "layout \<Rightarrow> u32 \<Rightarrow> ('f, 'w) wrapper" where
  "wrap_vx32_sbrk L inc = wrap_sbrk L inc"

definition wrap_vx32_write :: "('f, 'w) host \<Rightarrow> u32 \<Rightarrow> u32 \<Rightarrow> u32 \<Rightarrow> ('f, 'w) wrapper" where
  "wrap_vx32_write H fd buf count s =
     out_bind (host_call H ''write'' [Word fd, Word buf, Word count] s)
       (\<lambda>rc s'. if (ucast rc :: u32) = -1
          then Return (int_result (- errno_to_vx32 (h_errno H (world s')))) s'
          else Return rc s')"

section \<open>Delegating wrappers\<close>

definition wrap___floatdidf :: "('f, 'w) host \<Rightarrow> u64 \<Rightarrow> ('f, 'w) wrapper" where
  [wrapper_def]: "wrap___floatdidf H a = host_call H ''__floatdidf'' [Dword a]"

definition wrap___fixdfdi :: "('f, 'w) host \<Rightarrow> u64 \<Rightarrow> ('f, 'w) wrapper" where
  [wrapper_def]: "wrap___fixdfdi H a = host_call H ''__fixdfdi'' [Dword a]"

definition wrap_printf :: "('f, 'w) host \<Rightarrow> u32 \<Rightarrow> u32 \<Rightarrow> ('f, 'w) wrapper" where
  [wrapper_def]: "wrap_printf H fmt ap = host_call H ''vprintf'' [Word fmt, Word ap]"

definition wrap_atoll :: "('f, 'w) host \<Rightarrow> u32 \<Rightarrow> ('f, 'w) wrapper" where
  [wrapper_def]: "wrap_atoll H nptr = host_call H ''atoll'' [Word nptr]"

definition wrap_putchar :: "('f, 'w) host \<Rightarrow> u32 \<Rightarrow> ('f, 'w) wrapper" where
  [wrapper_def]: "wrap_putchar H c = host_call H ''putchar'' [Word c]"

definition wrap_outside_strerror :: "('f, 'w) host \<Rightarrow> u32 \<Rightarrow> ('f, 'w) wrapper" where
  [wrapper_def]: "wrap_outside_strerror H errnum = host_call H ''strerror'' [Word errnum]"

definition wrap_outside_ferror :: "('f, 'w) host \<Rightarrow> u32 \<Rightarrow> ('f, 'w) wrapper" where
  [wrapper_def]: "wrap_outside_ferror H fi = with_stream fi (\<lambda>f. host_call H ''ferror'' [Stream f])"

definition wrap_outside_fflush :: "('f, 'w) host \<Rightarrow> u32 \<Rightarrow> ('f, 'w) wrapper" where
  [wrapper_def]: "wrap_outside_fflush H fi = with_stream fi (\<lambda>f. host_call H ''fflush'' [Stream f])"

definition wrap_outside_fileno :: "('f, 'w) host \<Rightarrow> u32 \<Rightarrow> ('f, 'w) wrapper" where
  [wrapper_def]: "wrap_outside_fileno H fi = with_stream fi (\<lambda>f. host_call H ''fileno'' [Stream f])"

definition wrap_outside_feof :: "('f, 'w) host \<Rightarrow> u32 \<Rightarrow> ('f, 'w) wrapper" where
  [wrapper_def]: "wrap_outside_feof H fi = with_stream fi (\<lambda>f. host_call H ''feof'' [Stream f])"

definition wrap_outside_fgetc :: "('f, 'w) host \<Rightarrow> u32 \<Rightarrow> ('f, 'w) wrapper" where
  [wrapper_def]: "wrap_outside_fgetc H fi = with_stream fi (\<lambda>f. host_call H ''fgetc'' [Stream f])"

definition wrap_outside_vfprintf :: "('f, 'w) host \<Rightarrow> u32 \<Rightarrow> u32 \<Rightarrow> u32 \<Rightarrow> ('f, 'w) wrapper" where
  [wrapper_def]: "wrap_outside_vfprintf H fi fmt ap = with_stream fi (\<lambda>f. host_call H ''vfprintf'' [Stream f, Word fmt, Word ap])"

definition wrap_outside_vfscanf :: "('f, 'w) host \<Rightarrow> u32 \<Rightarrow> u32 \<Rightarrow> u32 \<Rightarrow> ('f, 'w) wrapper" where
  [wrapper_def]: "wrap_outside_vfscanf H fi fmt ap = with_stream fi (\<lambda>f. host_call H ''vfscanf'' [Stream f, Word fmt, Word ap])"

definition wrap_outside_fread :: "('f, 'w) host \<Rightarrow> u32 \<Rightarrow> u32 \<Rightarrow> u32 \<Rightarrow> u32 \<Rightarrow> ('f, 'w) wrapper" where
  [wrapper_def]: "wrap_outside_fread H ptr sz num fi = with_stream fi (\<lambda>f. host_call H ''fread'' [Word ptr, Word sz, Word num, Stream f])"

definition wrap_outside_fwrite :: "('f, 'w) host \<Rightarrow> u32 \<Rightarrow> u32 \<Rightarrow> u32 \<Rightarrow> u32 \<Rightarrow> ('f, 'w) wrapper" where
  [wrapper_def]: "wrap_outside_fwrite H ptr sz num fi = with_stream fi (\<lambda>f. host_call H ''fwrite'' [Word ptr, Word sz, Word num, Stream f])"

definition wrap_outside_rewind :: "('f, 'w) host \<Rightarrow> u32 \<Rightarrow> ('f, 'w) wrapper" where
  [wrapper_def]: "wrap_outside_rewind H fi = with_stream fi (\<lambda>f. host_call H ''rewind'' [Stream f])"

definition wrap_outside_ungetc :: "('f, 'w) host \<Rightarrow> u32 \<Rightarrow> u32 \<Rightarrow> ('f, 'w) wrapper" where
  [wrapper_def]: "wrap_outside_ungetc H c fi = with_stream fi (\<lambda>f. host_call H ''ungetc'' [Word c, Stream f])"

definition wrap_gettimeofday :: "('f, 'w) host \<Rightarrow> u32 \<Rightarrow> u32 \<Rightarrow> ('f, 'w) wrapper" where
  [wrapper_def]: "wrap_gettimeofday H tv tz = host_call H ''gettimeofday'' [Word tv, Word tz]"

definition wrap_sscanf :: "('f, 'w) host \<Rightarrow> u32 \<Rightarrow> u32 \<Rightarrow> u32 \<Rightarrow> ('f, 'w) wrapper" where
  [wrapper_def]: "wrap_sscanf H str fmt ap = host_call H ''vsscanf'' [Word str, Word fmt, Word ap]"

definition wrap_atof :: "('f, 'w) host \<Rightarrow> u32 \<Rightarrow> ('f, 'w) wrapper" where
  [wrapper_def]: "wrap_atof H nptr = host_call H ''atof'' [Word nptr]"

definition wrap_outside_fseek :: "('f, 'w) host \<Rightarrow> u32 \<Rightarrow> u32 \<Rightarrow> u32 \<Rightarrow> ('f, 'w) wrapper" where
  [wrapper_def]: "wrap_outside_fseek H fi off whence = with_stream fi (\<lambda>f. host_call H ''fseek'' [Stream f, Word off, Word whence])"

definition wrap_ldexp :: "('f, 'w) host \<Rightarrow> u64 \<Rightarrow> u32 \<Rightarrow> ('f, 'w) wrapper" where
  [wrapper_def]: "wrap_ldexp H x expn = host_call H ''ldexp'' [Dword x, Word expn]"

definition wrap_outside_ftell :: "('f, 'w) host \<Rightarrow> u32 \<Rightarrow> ('f, 'w) wrapper" where
  [wrapper_def]: "wrap_outside_ftell H fi = with_stream fi (\<lambda>f. host_call H ''ftell'' [Stream f])"

definition wrap_floor :: "('f, 'w) host \<Rightarrow> u64 \<Rightarrow> ('f, 'w) wrapper" where
  [wrapper_def]: "wrap_floor H x = host_call H ''floor'' [Dword x]"

definition wrap_floorf :: "('f, 'w) host \<Rightarrow> u32 \<Rightarrow> ('f, 'w) wrapper" where
  [wrapper_def]: "wrap_floorf H x = host_call H ''floorf'' [Word x]"

definition wrap_sin :: "('f, 'w) host \<Rightarrow> u64 \<Rightarrow> ('f, 'w) wrapper" where
  [wrapper_def]: "wrap_sin H x = host_call H ''sin'' [Dword x]"

definition wrap_sqrt :: "('f, 'w) host \<Rightarrow> u64 \<Rightarrow> ('f, 'w) wrapper" where
  [wrapper_def]: "wrap_sqrt H x = host_call H ''sqrt'' [Dword x]"

definition wrap_sqrtf :: "('f, 'w) host \<Rightarrow> u32 \<Rightarrow> ('f, 'w) wrapper" where
  [wrapper_def]: "wrap_sqrtf H x = host_call H ''sqrtf'' [Word x]"

definition wrap_rint :: "('f, 'w) host \<Rightarrow> u64 \<Rightarrow> ('f, 'w) wrapper" where
  [wrapper_def]: "wrap_rint H x = host_call H ''rint'' [Dword x]"

definition wrap_lrint :: "('f, 'w) host \<Rightarrow> u64 \<Rightarrow> ('f, 'w) wrapper" where
  [wrapper_def]: "wrap_lrint H x = host_call H ''lrint'' [Dword x]"

definition wrap_lrintf :: "('f, 'w) host \<Rightarrow> u32 \<Rightarrow> ('f, 'w) wrapper" where
  [wrapper_def]: "wrap_lrintf H x = host_call H ''lrintf'' [Word x]"

definition wrap_acos :: "('f, 'w) host \<Rightarrow> u64 \<Rightarrow> ('f, 'w) wrapper" where
  [wrapper_def]: "wrap_acos H x = host_call H ''acos'' [Dword x]"

definition wrap_asin :: "('f, 'w) host \<Rightarrow> u64 \<Rightarrow> ('f, 'w) wrapper" where
  [wrapper_def]: "wrap_asin H x = host_call H ''asin'' [Dword x]"

definition wrap_atan :: "('f, 'w) host \<Rightarrow> u64 \<Rightarrow> ('f, 'w) wrapper" where
  [wrapper_def]: "wrap_atan H x = host_call H ''atan'' [Dword x]"

definition wrap_cos :: "('f, 'w) host \<Rightarrow> u64 \<Rightarrow> ('f, 'w) wrapper" where
  [wrapper_def]: "wrap_cos H x = host_call H ''cos'' [Dword x]"

definition wrap_exp :: "('f, 'w) host \<Rightarrow> u64 \<Rightarrow> ('f, 'w) wrapper" where
  [wrapper_def]: "wrap_exp H x = host_call H ''exp'' [Dword x]"

definition wrap_expf :: "('f, 'w) host \<Rightarrow> u32 \<Rightarrow> ('f, 'w) wrapper" where
  [wrapper_def]: "wrap_expf H x = host_call H ''expf'' [Word x]"

definition wrap_fabs :: "('f, 'w) host \<Rightarrow> u64 \<Rightarrow> ('f, 'w) wrapper" where
  [wrapper_def]: "wrap_fabs H x = host_call H ''fabs'' [Dword x]"

definition wrap_log :: "('f, 'w) host \<Rightarrow> u64 \<Rightarrow> ('f, 'w) wrapper" where
  [wrapper_def]: "wrap_log H x = host_call H ''log'' [Dword x]"

definition wrap_log10 :: "('f, 'w) host \<Rightarrow> u64 \<Rightarrow> ('f, 'w) wrapper" where
  [wrapper_def]: "wrap_log10 H x = host_call H ''log10'' [Dword x]"

definition wrap_ceil :: "('f, 'w) host \<Rightarrow> u64 \<Rightarrow> ('f, 'w) wrapper" where
  [wrapper_def]: "wrap_ceil H x = host_call H ''ceil'' [Dword x]"

definition wrap_ceilf :: "('f, 'w) host \<Rightarrow> u32 \<Rightarrow> ('f, 'w) wrapper" where
  [wrapper_def]: "wrap_ceilf H x = host_call H ''ceilf'' [Word x]"

definition wrap_pow :: "('f, 'w) host \<Rightarrow> u64 \<Rightarrow> u64 \<Rightarrow> ('f, 'w) wrapper" where
  [wrapper_def]: "wrap_pow H x y = host_call H ''pow'' [Dword x, Dword y]"

definition wrap_frexp :: "('f, 'w) host \<Rightarrow> u64 \<Rightarrow> u32 \<Rightarrow> ('f, 'w) wrapper" where
  [wrapper_def]: "wrap_frexp H x expn = host_call H ''frexp'' [Dword x, Word expn]"

definition wrap_sprintf :: "('f, 'w) host \<Rightarrow> u32 \<Rightarrow> u32 \<Rightarrow> u32 \<Rightarrow> ('f, 'w) wrapper" where
  [wrapper_def]: "wrap_sprintf H str fmt ap = host_call H ''vsprintf'' [Word str, Word fmt, Word ap]"

definition wrap_outside_getenv :: "('f, 'w) host \<Rightarrow> u32 \<Rightarrow> ('f, 'w) wrapper" where
  [wrapper_def]: "wrap_outside_getenv H nm = host_call H ''getenv'' [Word nm]"

definition wrap_outside_access :: "('f, 'w) host \<Rightarrow> u32 \<Rightarrow> u32 \<Rightarrow> ('f, 'w) wrapper" where
  [wrapper_def]: "wrap_outside_access H pathname mode = host_call H ''access'' [Word pathname, Word mode]"

definition wrap_getrusage :: "('f, 'w) host \<Rightarrow> u32 \<Rightarrow> u32 \<Rightarrow> ('f, 'w) wrapper" where
  [wrapper_def]: "wrap_getrusage H who usage = host_call H ''getrusage'' [Word who, Word usage]"

definition wrap_outside_close :: "('f, 'w) host \<Rightarrow> u32 \<Rightarrow> ('f, 'w) wrapper" where
  [wrapper_def]: "wrap_outside_close H fd = host_call H ''close'' [Word fd]"

definition wrap_outside_fgets :: "('f, 'w) host \<Rightarrow> u32 \<Rightarrow> u32 \<Rightarrow> u32 \<Rightarrow> ('f, 'w) wrapper" where
  [wrapper_def]: "wrap_outside_fgets H buf sz fi = with_stream fi (\<lambda>f. host_call H ''fgets'' [Word buf, Word sz, Stream f])"

definition wrap_outside_fputc :: "('f, 'w) host \<Rightarrow> u32 \<Rightarrow> u32 \<Rightarrow> ('f, 'w) wrapper" where
  [wrapper_def]: "wrap_outside_fputc H c fi = with_stream fi (\<lambda>f. host_call H ''fputc'' [Word c, Stream f])"

definition wrap_outside_fputs :: "('f, 'w) host \<Rightarrow> u32 \<Rightarrow> u32 \<Rightarrow> ('f, 'w) wrapper" where
  [wrapper_def]: "wrap_outside_fputs H str fi = with_stream fi (\<lambda>f. host_call H ''fputs'' [Word str, Stream f])"

definition wrap_outside_open :: "('f, 'w) host \<Rightarrow> u32 \<Rightarrow> u32 \<Rightarrow> u32 \<Rightarrow> ('f, 'w) wrapper" where
  [wrapper_def]: "wrap_outside_open H pathname flags mode = host_call H ''open'' [Word pathname, Word flags, Word mode]"

definition wrap_outside_lseek :: "('f, 'w) host \<Rightarrow> u32 \<Rightarrow> u32 \<Rightarrow> u32 \<Rightarrow> ('f, 'w) wrapper" where
  [wrapper_def]: "wrap_outside_lseek H fd off whence = host_call H ''lseek'' [Word fd, Word off, Word whence]"

definition wrap_outside_read :: "('f, 'w) host \<Rightarrow> u32 \<Rightarrow> u32 \<Rightarrow> u32 \<Rightarrow> ('f, 'w) wrapper" where
  [wrapper_def]: "wrap_outside_read H fd buf count = host_call H ''read'' [Word fd, Word buf, Word count]"

definition wrap_outside_opendir :: "('f, 'w) host \<Rightarrow> u32 \<Rightarrow> ('f, 'w) wrapper" where
  [wrapper_def]: "wrap_outside_opendir H nm = host_call H ''opendir'' [Word nm]"

definition wrap_outside_closedir :: "('f, 'w) host \<Rightarrow> u32 \<Rightarrow> ('f, 'w) wrapper" where
  [wrapper_def]: "wrap_outside_closedir H dir = host_call H ''closedir'' [Word dir]"

definition wrap_outside_readdir :: "('f, 'w) host \<Rightarrow> u32 \<Rightarrow> ('f, 'w) wrapper" where
  [wrapper_def]: "wrap_outside_readdir H dir = host_call H ''readdir'' [Word dir]"

definition wrap_outside_free :: "('f, 'w) host \<Rightarrow> u32 \<Rightarrow> ('f, 'w) wrapper" where
  [wrapper_def]: "wrap_outside_free H buf = host_call H ''free'' [Word buf]"

definition wrap_outside_vasprintf :: "('f, 'w) host \<Rightarrow> u32 \<Rightarrow> u32 \<Rightarrow> u32 \<Rightarrow> ('f, 'w) wrapper" where
  [wrapper_def]: "wrap_outside_vasprintf H strp fmt ap = host_call H ''vasprintf'' [Word strp, Word fmt, Word ap]"

definition wrap_outside_vsnprintf :: "('f, 'w) host \<Rightarrow> u32 \<Rightarrow> u32 \<Rightarrow> u32 \<Rightarrow> u32 \<Rightarrow> ('f, 'w) wrapper" where
  [wrapper_def]: "wrap_outside_vsnprintf H str sz fmt ap = host_call H ''vsnprintf'' [Word str, Word sz, Word fmt, Word ap]"

definition wrap_clock :: "('f, 'w) host \<Rightarrow> ('f, 'w) wrapper" where
  [wrapper_def]: "wrap_clock H = host_call H ''clock'' []"

definition wrap_outside_times :: "('f, 'w) host \<Rightarrow> u32 \<Rightarrow> ('f, 'w) wrapper" where
  [wrapper_def]: "wrap_outside_times H buf = host_call H ''times'' [Word buf]"

definition wrap_outside_unlink :: "('f, 'w) host \<Rightarrow> u32 \<Rightarrow> ('f, 'w) wrapper" where
  [wrapper_def]: "wrap_outside_unlink H path = host_call H ''unlink'' [Word path]"

definition wrap_outside_chmod :: "('f, 'w) host \<Rightarrow> u32 \<Rightarrow> u32 \<Rightarrow> ('f, 'w) wrapper" where
  [wrapper_def]: "wrap_outside_chmod H path mode = host_call H ''chmod'' [Word path, Word mode]"

definition wrap_outside_isatty :: "('f, 'w) host \<Rightarrow> u32 \<Rightarrow> ('f, 'w) wrapper" where
  [wrapper_def]: "wrap_outside_isatty H fd = host_call H ''isatty'' [Word fd]"

definition wrap_outside_select :: "('f, 'w) host \<Rightarrow> u32 \<Rightarrow> u32 \<Rightarrow> u32 \<Rightarrow> u32 \<Rightarrow> u32 \<Rightarrow> ('f, 'w) wrapper" where
  [wrapper_def]: "wrap_outside_select H n rfds wfds xfds tv = host_call H ''select'' [Word n, Word rfds, Word wfds, Word xfds, Word tv]"

definition wrap_outside_dup :: "('f, 'w) host \<Rightarrow> u32 \<Rightarrow> ('f, 'w) wrapper" where
  [wrapper_def]: "wrap_outside_dup H oldfd = host_call H ''dup'' [Word oldfd]"

definition wrap_outside_dup2 :: "('f, 'w) host \<Rightarrow> u32 \<Rightarrow> u32 \<Rightarrow> ('f, 'w) wrapper" where
  [wrapper_def]: "wrap_outside_dup2 H oldfd newfd = host_call H ''dup2'' [Word oldfd, Word newfd]"

definition wrap_outside_clearerr :: "('f, 'w) host \<Rightarrow> u32 \<Rightarrow> ('f, 'w) wrapper" where
  [wrapper_def]: "wrap_outside_clearerr H fi = with_stream fi (\<lambda>f. host_call H ''clearerr'' [Stream f])"

definition wrap_outside_rename :: "('f, 'w) host \<Rightarrow> u32 \<Rightarrow> u32 \<Rightarrow> ('f, 'w) wrapper" where
  [wrapper_def]: "wrap_outside_rename H oldpath newpath = host_call H ''rename'' [Word oldpath, Word newpath]"

definition wrap_outside_chdir :: "('f, 'w) host \<Rightarrow> u32 \<Rightarrow> ('f, 'w) wrapper" where
  [wrapper_def]: "wrap_outside_chdir H path = host_call H ''chdir'' [Word path]"

definition wrap_vsprintf :: "('f, 'w) host \<Rightarrow> u32 \<Rightarrow> u32 \<Rightarrow> u32 \<Rightarrow> ('f, 'w) wrapper" where
  [wrapper_def]: "wrap_vsprintf H str fmt ap = host_call H ''vsprintf'' [Word str, Word fmt, Word ap]"

definition wrap_atan2 :: "('f, 'w) host \<Rightarrow> u64 \<Rightarrow> u64 \<Rightarrow> ('f, 'w) wrapper" where
  [wrapper_def]: "wrap_atan2 H y x = host_call H ''atan2'' [Dword y, Dword x]"

definition wrap_modf :: "('f, 'w) host \<Rightarrow> u64 \<Rightarrow> u32 \<Rightarrow> ('f, 'w) wrapper" where
  [wrapper_def]: "wrap_modf H x iptr = host_call H ''modf'' [Dword x, Word iptr]"

definition wrap_sleep :: "('f, 'w) host \<Rightarrow> u32 \<Rightarrow> ('f, 'w) wrapper" where
  [wrapper_def]: "wrap_sleep H secs = host_call H ''sleep'' [Word secs]"

definition wrap_outside_wait :: "('f, 'w) host \<Rightarrow> u32 \<Rightarrow> ('f, 'w) wrapper" where
  [wrapper_def]: "wrap_outside_wait H status = host_call H ''wait'' [Word status]"

definition wrap_umask :: "('f, 'w) host \<Rightarrow> u32 \<Rightarrow> ('f, 'w) wrapper" where
  [wrapper_def]: "wrap_umask H cmask = host_call H ''umask'' [Word cmask]"

definition wrap_outside_write :: "('f, 'w) host \<Rightarrow> u32 \<Rightarrow> u32 \<Rightarrow> u32 \<Rightarrow> ('f, 'w) wrapper" where
  [wrapper_def]: "wrap_outside_write H fd buf count = host_call H ''write'' [Word fd, Word buf, Word count]"

definition wrap_outside_truncate :: "('f, 'w) host \<Rightarrow> u32 \<Rightarrow> u32 \<Rightarrow> ('f, 'w) wrapper" where
  [wrapper_def]: "wrap_outside_truncate H path len = host_call H ''truncate'' [Word path, Word len]"

definition wrap_outside_ftruncate :: "('f, 'w) host \<Rightarrow> u32 \<Rightarrow> u32 \<Rightarrow> ('f, 'w) wrapper" where
  [wrapper_def]: "wrap_outside_ftruncate H fd len = host_call H ''ftruncate'' [Word fd, Word len]"

definition wrap_outside_mkdir :: "('f, 'w) host \<Rightarrow> u32 \<Rightarrow> u32 \<Rightarrow> ('f, 'w) wrapper" where
  [wrapper_def]: "wrap_outside_mkdir H pathname mode = host_call H ''mkdir'' [Word pathname, Word mode]"

definition wrap_outside_rmdir :: "('f, 'w) host \<Rightarrow> u32 \<Rightarrow> ('f, 'w) wrapper" where
  [wrapper_def]: "wrap_outside_rmdir H path = host_call H ''rmdir'' [Word path]"

definition wrap_outside_setbuf :: "('f, 'w) host \<Rightarrow> u32 \<Rightarrow> u32 \<Rightarrow> ('f, 'w) wrapper" where
  [wrapper_def]: "wrap_outside_setbuf H fi buf = with_stream fi (\<lambda>f. host_call H ''setbuf'' [Stream f, Word buf])"

definition wrap_tan :: "('f, 'w) host \<Rightarrow> u64 \<Rightarrow> ('f, 'w) wrapper" where
  [wrapper_def]: "wrap_tan H theta = host_call H ''tan'' [Dword theta]"

definition wrap_outside_fork :: "('f, 'w) host \<Rightarrow> ('f, 'w) wrapper" where
  [wrapper_def]: "wrap_outside_fork H = host_call H ''fork'' []"

definition wrap_outside_execvp :: "('f, 'w) host \<Rightarrow> u32 \<Rightarrow> u32 \<Rightarrow> ('f, 'w) wrapper" where
  [wrapper_def]: "wrap_outside_execvp H path argv = host_call H ''execvp'' [Word path, Word argv]"

definition wrap_outside_execv :: "('f, 'w) host \<Rightarrow> u32 \<Rightarrow> u32 \<Rightarrow> ('f, 'w) wrapper" where
  [wrapper_def]: "wrap_outside_execv H path argv = host_call H ''execvp'' [Word path, Word argv]"

definition wrap_outside_pipe :: "('f, 'w) host \<Rightarrow> u32 \<Rightarrow> ('f, 'w) wrapper" where
  [wrapper_def]: "wrap_outside_pipe H fds = host_call H ''pipe'' [Word fds]"

definition wrap_gmtime :: "('f, 'w) host \<Rightarrow> u32 \<Rightarrow> ('f, 'w) wrapper" where
  [wrapper_def]: "wrap_gmtime H timep = host_call H ''gmtime'' [Word timep]"

section \<open>What the wrappers keep\<close>

text \<open>A wrapper of which only the host's state is affected, or which has an index outside the
  table.\<close>

definition frame :: "('f, 'w) wrapper \<Rightarrow> bool" where
  "frame wr \<longleftrightarrow> (\<forall>s. case wr s of
       Return r s' \<Rightarrow> s' = s\<lparr>world := world s'\<rparr>
     | Longjmp s' \<Rightarrow> False
     | Halt e \<Rightarrow> (\<exists>fi. e = Out_of_bounds fi \<and> \<not> (0 \<le> fi \<and> fi < int (length (files s)))))"

lemma frame_host_call: "frame (host_call H fn args)"
  by (simp add: frame_def host_call_def split: prod.splits)

lemma frame_with_stream: "(\<And>f. frame (k f)) \<Longrightarrow> frame (with_stream fi k)"
  by (auto simp: frame_def with_stream_def slot_of_def split: option.splits if_splits)

lemmas frame_intros = frame_host_call frame_with_stream

text \<open>None of the delegating wrappers changes the stream table, the break, the exit value
  or a status buffer, and none stops other than on a stream index outside the table.\<close>

theorem delegating_frame:
  "frame (wrap___floatdidf H ad) \<and>
   frame (wrap___fixdfdi H ad) \<and>
   frame (wrap_printf H fmt ap) \<and>
   frame (wrap_atoll H nptr) \<and>
   frame (wrap_putchar H c) \<and>
   frame (wrap_outside_strerror H errnum) \<and>
   frame (wrap_outside_ferror H fi) \<and>
   frame (wrap_outside_fflush H fi) \<and>
   frame (wrap_outside_fileno H fi) \<and>
   frame (wrap_outside_feof H fi) \<and>
   frame (wrap_outside_fgetc H fi) \<and>
   frame (wrap_outside_vfprintf H fi fmt ap) \<and>
   frame (wrap_outside_vfscanf H fi fmt ap) \<and>
   frame (wrap_outside_fread H ptr sz num fi) \<and>
   frame (wrap_outside_fwrite H ptr sz num fi) \<and>
   frame (wrap_outside_rewind H fi) \<and>
   frame (wrap_outside_ungetc H c fi) \<and>
   frame (wrap_gettimeofday H tv tz) \<and>
   frame (wrap_sscanf H str fmt ap) \<and>
   frame (wrap_atof H nptr) \<and>
   frame (wrap_outside_fseek H fi off whence) \<and>
   frame (wrap_ldexp H xd expn) \<and>
   frame (wrap_outside_ftell H fi) \<and>
   frame (wrap_floor H xd) \<and>
   frame (wrap_floorf H x) \<and>
   frame (wrap_sin H xd) \<and>
   frame (wrap_sqrt H xd) \<and>
   frame (wrap_sqrtf H x) \<and>
   frame (wrap_rint H xd) \<and>
   frame (wrap_lrint H xd) \<and>
   frame (wrap_lrintf H x) \<and>
   frame (wrap_acos H xd) \<and>
   frame (wrap_asin H xd) \<and>
   frame (wrap_atan H xd) \<and>
   frame (wrap_cos H xd) \<and>
   frame (wrap_exp H xd) \<and>
   frame (wrap_expf H x) \<and>
   frame (wrap_fabs H xd) \<and>
   frame (wrap_log H xd) \<and>
   frame (wrap_log10 H xd) \<and>
   frame (wrap_ceil H xd) \<and>
   frame (wrap_ceilf H x) \<and>
   frame (wrap_pow H xd yd) \<and>
   frame (wrap_frexp H xd expn) \<and>
   frame (wrap_sprintf H str fmt ap) \<and>
   frame (wrap_outside_getenv H nm) \<and>
   frame (wrap_outside_access H pathname mode) \<and>
   frame (wrap_getrusage H who usage) \<and>
   frame (wrap_outside_close H fd) \<and>
   frame (wrap_outside_fgets H buf sz fi) \<and>
   frame (wrap_outside_fputc H c fi) \<and>
   frame (wrap_outside_fputs H str fi) \<and>
   frame (wrap_outside_open H pathname flags mode) \<and>
   frame (wrap_outside_lseek H fd off whence) \<and>
   frame (wrap_outside_read H fd buf count) \<and>
   frame (wrap_outside_opendir H nm) \<and>
   frame (wrap_outside_closedir H dir) \<and>
   frame (wrap_outside_readdir H dir) \<and>
   frame (wrap_outside_free H buf) \<and>
   frame (wrap_outside_vasprintf H strp fmt ap) \<and>
   frame (wrap_outside_vsnprintf H str sz fmt ap) \<and>
   frame (wrap_clock H) \<and>
   frame (wrap_outside_times H buf) \<and>
   frame (wrap_outside_unlink H path) \<and>
   frame (wrap_outside_chmod H path mode) \<and>
   frame (wrap_outside_isatty H fd) \<and>
   frame (wrap_outside_select H n rfds wfds xfds tv) \<and>
   frame (wrap_outside_dup H oldfd) \<and>
   frame (wrap_outside_dup2 H oldfd newfd) \<and>
   frame (wrap_outside_clearerr H fi) \<and>
   frame (wrap_outside_rename H oldpath newpath) \<and>
   frame (wrap_outside_chdir H path) \<and>
   frame (wrap_vsprintf H str fmt ap) \<and>
   frame (wrap_atan2 H yd xd) \<and>
   frame (wrap_modf H xd iptr) \<and>
   frame (wrap_sleep H secs) \<and>
   frame (wrap_outside_wait H status) \<and>
   frame (wrap_umask H cmask) \<and>
   frame (wrap_outside_write H fd buf count) \<and>
   frame (wrap_outside_truncate H path len) \<and>
   frame (wrap_outside_ftruncate H fd len) \<and>
   frame (wrap_outside_mkdir H pathname mode) \<and>
   frame (wrap_outside_rmdir H path) \<and>
   frame (wrap_outside_setbuf H fi buf) \<and>
   frame (wrap_tan H thetad) \<and>
   frame (wrap_outside_fork H) \<and>
   frame (wrap_outside_execvp H path argv) \<and>
   frame (wrap_outside_execv H path argv) \<and>
   frame (wrap_outside_pipe H fds) \<and>
   frame (wrap_gmtime H timep)"
  unfolding wrapper_def by (intro conjI frame_intros)

section \<open>The stream table\<close>

fun loader_open :: "('f, 'w) host \<Rightarrow> open_arg \<Rightarrow> ('f, 'w) wrapper" where
  "loader_open H (Fopen path mode) = wrap_outside_fopen H path mode"
| "loader_open H (Fdopen fd mode) = wrap_outside_fdopen H fd mode"

fun loader_host_open :: "('f, 'w) host \<Rightarrow> open_arg \<Rightarrow> ('f, 'w) rt \<Rightarrow> 'f option" where
  "loader_host_open H (Fopen path mode) s = fst (h_open H ''fopen'' [Word path, Word mode] (world s))"
| "loader_host_open H (Fdopen fd mode) s = fst (h_open H ''fdopen'' [Word fd, Word mode] (world s))"

lemma list_update_None: "free_slot fs < length fs \<Longrightarrow> fs[free_slot fs := None] = fs"
  using free_slot_None [of fs] list_update_id [of fs "free_slot fs"] by simp

lemma free_slot_not_full: "length fs = n \<Longrightarrow> None \<in> set fs \<Longrightarrow> free_slot fs < n"
  using free_slot_full [of fs] free_slot_le [of fs] by (auto simp: le_less)

interpretation loader_streams: stream_table files "loader_open H" "wrap_outside_fclose H" "loader_host_open H"
  for H :: "('f, 'w) host"
proof
  fix s :: "('f, 'w) rt" and a f fi k
  note defs = wrap_outside_fopen_def wrap_outside_fdopen_def int_result_def Let_def
  show "loader_open H a s = Halt Aborted"
    if "length (files s) = max_files" "None \<notin> set (files s)"
    using that free_slot_full [of "files s"] by (cases a) (simp_all add: defs)
  show "\<exists>s'. loader_open H a s = Return (ucast (of_nat (free_slot (files s)) :: u32)) s' \<and>
      files s' = (files s)[free_slot (files s) := Some f]"
    if "length (files s) = max_files" "None \<in> set (files s)" "loader_host_open H a s = Some f"
    using that free_slot_not_full [of "files s" max_files]
    by (cases a) (auto simp: defs split: prod.splits)
  show "\<exists>s'. loader_open H a s = Return (ucast (- 1 :: u32)) s' \<and> files s' = files s"
    if "length (files s) = max_files" "None \<in> set (files s)" "loader_host_open H a s = None"
    using that free_slot_not_full [of "files s" max_files] list_update_None [of "files s"]
    by (cases a) (auto simp: defs split: prod.splits)
  show "\<exists>r s'. wrap_outside_fclose H fi s = Return r s' \<and> files s' = (files s)[k := None]"
    if "slot_of (files s) fi = Some k"
    using that by (auto simp: wrap_outside_fclose_def host_call_def split: prod.splits)
  show "wrap_outside_fclose H fi s = Halt (Out_of_bounds (sint fi))" if "slot_of (files s) fi = None"
    using that by (simp add: wrap_outside_fclose_def)
qed

end
