(* ===== verification/SFI_Runtime.thy ===== *)
theory SFI_Runtime
  imports SFI_Wrappers
begin

text \<open>
  Properties of the trusted wrappers: the stream table as a client sees it, the heap break,
  64-bit division, the VX32 error numbers, and the invariant that every sequence of calls
  from the sandbox keeps.
\<close>

section \<open>Streams\<close>

text \<open>Claim C35. An open that succeeds returns the least free index of \<^verbatim>\<open>files\<close>, below 16, and
  changes no other entry; closing that index gives the table back as it was.\<close>

theorem fopen_fclose_restores:
  assumes "length (files s) = max_files" and "loader_host_open H a s = Some f"
    and "loader_open H a s = Return r s'"
  shows "\<exists>k < max_files. r = int_result (of_nat k) \<and> files s ! k = None \<and> (\<forall>j < k. files s ! j \<noteq> None) \<and>
    files s' = (files s)[k := Some f] \<and>
    (\<exists>r' s''. wrap_outside_fclose H (ucast r) s' = Return r' s'' \<and> files s'' = files s)"
proof -
  have wf: "loader_streams.table_wf s" by (simp add: loader_streams.table_wf_def assms(1))
  show ?thesis
    using loader_streams.open_result [OF wf assms(2,3)] loader_streams.open_close [OF wf assms(2,3)]
    by (auto simp: int_result_def)
qed

text \<open>A host for the witnesses: its streams are numbers, every call returns its argument count.\<close>

definition fx_host :: "(nat, nat) host" where
  "fx_host = \<lparr>h_call = \<lambda>fn args w. (of_nat (length args), Suc w),
     h_open = \<lambda>fn args w. (Some (100 + w), Suc w),
     h_stat = \<lambda>fn arg w. ((0, \<lparr>st_size = 7, st_mode = 0, st_mtime = 0, st_nlink = 1, st_ino = 2,
       st_dev = 3, st_uid = 0, st_gid = 0, st_rdev = 0, st_atime = 0, st_ctime = 0\<rparr>), w),
     h_errno = \<lambda>w. 9, h_stdio = \<lambda>n. n\<rparr>"

definition fx_rt :: "(nat, nat) rt" where
  "fx_rt = \<lparr>files = [Some 0, Some 1, Some 2, None, None, None, None, None, None, None, None, None, None, None, None, None], data_break = 0x20002000,
     exit_value = 0, in_bufs = Map.empty, world = 5\<rparr>"

theorem fopen_fclose_restores_witness:
  "\<exists>r s'. loader_open fx_host (Fopen 1 2) fx_rt = Return r s' \<and>
     (\<exists>r' s''. wrap_outside_fclose fx_host (ucast r) s' = Return r' s'' \<and> files s'' = files fx_rt)"
proof -
  obtain r s' where o: "loader_open fx_host (Fopen 1 2) fx_rt = Return r s'"
    by (simp add: wrap_outside_fopen_def fx_host_def fx_rt_def max_files_def Let_def)
  have "length (files fx_rt) = max_files" "loader_host_open fx_host (Fopen 1 2) fx_rt = Some 105"
    by (simp_all add: fx_rt_def fx_host_def max_files_def)
  from fopen_fclose_restores [OF this o] o show ?thesis by blast
qed

text \<open>Claim C36. An open aborts the loader exactly when all 16 entries are in use; otherwise it
  returns, and a success leaves one free entry less.\<close>

theorem fopen_capacity:
  assumes "length (files s) = max_files"
  shows "(loader_open H a s = Halt Aborted \<longleftrightarrow> streams_free (files s) = 0) \<and>
    (\<forall>f r s'. loader_host_open H a s = Some f \<longrightarrow> loader_open H a s = Return r s' \<longrightarrow>
      streams_free (files s) = Suc (streams_free (files s')))"
proof -
  have wf: "loader_streams.table_wf s" by (simp add: loader_streams.table_wf_def assms)
  have "loader_open H a s = Halt Aborted \<longleftrightarrow> streams_free (files s) = 0"
    using loader_streams.open_total [OF wf, of H a] loader_streams.open_full [OF assms, of H a]
    by (auto simp: streams_free_def filter_empty_conv)
  then show ?thesis using loader_streams.open_uses_slot [OF wf] by blast
qed

theorem fopen_capacity_witness:
  "loader_open fx_host (Fdopen 3 0) (fx_rt\<lparr>files := replicate 16 (Some 1)\<rparr>) = Halt Aborted"
  using fopen_capacity [of "fx_rt\<lparr>files := replicate 16 (Some 1)\<rparr>" fx_host "Fdopen 3 0"]
  by (simp add: max_files_def streams_free_def)

text \<open>The index is not checked: any other value reads outside the array.\<close>

lemma stream_index_unchecked:
  "wrap_outside_fgetc H (- 1) s = Halt (Out_of_bounds (- 1))"
  "length (files s) = max_files \<Longrightarrow> wrap_outside_fclose H 16 s = Halt (Out_of_bounds 16)"
  by (simp_all add: wrap_outside_fgetc_def with_stream_def wrap_outside_fclose_def slot_of_def max_files_def)

section \<open>The break\<close>

definition break_ok :: "layout \<Rightarrow> ('f, 'w) rt \<Rightarrow> bool" where
  "break_ok L s \<longleftrightarrow> DATA_START L < data_break s \<and> data_break s < DATA_END L"

text \<open>\<^verbatim>\<open>sbrk\<close> returns the old break and moves it, when the new one is inside the data
  region; otherwise it returns -1 and changes nothing. Moving by \<open>n\<close> and back by \<open>n\<close> is the
  identity.\<close>

theorem sbrk_spec:
  "wrap_sbrk L n s = Return (int_result (data_break s)) (s\<lparr>data_break := data_break s + n\<rparr>) \<and>
     break_ok L (s\<lparr>data_break := data_break s + n\<rparr>) \<and>
     (break_ok L s \<longrightarrow> wrap_sbrk L (- n) (s\<lparr>data_break := data_break s + n\<rparr>) =
        Return (int_result (data_break s + n)) s)
   \<or> wrap_sbrk L n s = Return (int_result (- 1)) s \<and> \<not> break_ok L (s\<lparr>data_break := data_break s + n\<rparr>)"
  by (auto simp: wrap_sbrk_def break_ok_def Let_def)

theorem sbrk_spec_witness:
  "wrap_sbrk (compute_sizes classic) 0x1000 fx_rt =
     Return 0x20002000 (fx_rt\<lparr>data_break := 0x20003000\<rparr>)"
  using sbrk_spec [of "compute_sizes classic" "0x1000" fx_rt]
  by (simp add: break_ok_def fx_rt_def layout_eval int_result_def)

section \<open>64-bit division\<close>

lemma smod_sign: "(a :: int) smod b \<noteq> 0 \<Longrightarrow> a smod b < 0 \<longleftrightarrow> a < 0"
proof -
  assume n: "a smod b \<noteq> 0"
  have "0 \<le> \<bar>a\<bar> mod \<bar>b\<bar>" by (cases "b = 0") simp_all
  with n have "0 < \<bar>a\<bar> mod \<bar>b\<bar>" by (auto simp: smod_int_alt_def le_less)
  then show ?thesis by (auto simp: smod_int_alt_def sgn_if zero_less_mult_iff mult_less_0_iff)
qed

lemma sint_smod:
  assumes "b \<noteq> 0"
  shows "sint (word_of_int (sint a smod sint b) :: u64) = sint a smod sint (b :: u64)"
    and "\<bar>sint a smod sint b\<bar> < \<bar>sint b\<bar>"
proof -
  have "sint b \<noteq> 0" using assms by (simp add: signed_eq_0_iff)
  then have "sint a smod sint b \<in> {- \<bar>sint b\<bar> + 1..\<bar>sint b\<bar> - 1}" by (rule smod_int_range)
  moreover have "- (2 ^ 63) \<le> sint b" "sint b < 2 ^ 63"
    using sint_range_size [of b] by (simp_all add: word_size)
  ultimately have "- (2 ^ 63) \<le> sint a smod sint b" "sint a smod sint b < 2 ^ 63"
    and r: "\<bar>sint a smod sint b\<bar> < \<bar>sint b\<bar>" by auto
  then have "signed_take_bit 63 (sint a smod sint b) = sint a smod sint b"
    by (intro signed_take_bit_int_eq_self) simp_all
  then show "sint (word_of_int (sint a smod sint b) :: u64) = sint a smod sint b"
    by (simp add: sint_sbintrunc')
  show "\<bar>sint a smod sint b\<bar> < \<bar>sint b\<bar>" by (rule r)
qed

text \<open>The division helpers: quotient and remainder recombine to the dividend, the
  remainder is smaller than the divisor and, signed, has the dividend's sign; division by
  zero traps.\<close>

theorem div_mod_helpers:
  "if b = 0
   then wrap___udivdi3 a b s = Halt Divide_error \<and> wrap___umoddi3 a b s = Halt Divide_error \<and>
     wrap___divdi3 a b s = Halt Divide_error \<and> wrap___moddi3 a b s = Halt Divide_error
   else (\<exists>q r. wrap___udivdi3 a b s = Return q s \<and> wrap___umoddi3 a b s = Return r s \<and>
       q * b + r = a \<and> r < b) \<and>
     (\<exists>q r. wrap___divdi3 a b s = Return q s \<and> wrap___moddi3 a b s = Return r s \<and>
       q * b + r = a \<and> \<bar>sint r\<bar> < \<bar>sint b\<bar> \<and> (sint r = 0 \<or> (sint r < 0 \<longleftrightarrow> sint a < 0)))"
proof (cases "b = 0")
  case False
  let ?q = "word_of_int (sint a sdiv sint b) :: u64" and ?r = "word_of_int (sint a smod sint b) :: u64"
  have "?q * b + ?r = word_of_int (sint a sdiv sint b * sint b + sint a smod sint b)" by simp
  also have "\<dots> = a" by (simp only: sdiv_mult_smod_eq of_int_sint scast_id)
  finally have "?q * b + ?r = a" .
  moreover have "a div b * b + a mod b = a" by (rule div_mult_mod_eq)
  ultimately show ?thesis
    using False sint_smod [OF False, of a] smod_sign [of "sint a" "sint b"]
    by (auto simp: wrap___udivdi3_def wrap___umoddi3_def wrap___divdi3_def wrap___moddi3_def
        word_mod_less_divisor word_greater_zero_iff)
qed (simp add: wrap___udivdi3_def wrap___divdi3_def wrap___umoddi3_def wrap___moddi3_def)

section \<open>VX32 error numbers\<close>

lemma errno_to_vx32_range: "errno_to_vx32 e \<in> {1, 2, 3, 4, 5, 6, 7, 8, 9, 10}"
  by (simp add: errno_to_vx32_def)

text \<open>\<^verbatim>\<open>vx32_read\<close> and \<^verbatim>\<open>vx32_write\<close> pass on what the host returns, except that -1
  becomes one of the error numbers -10 to -1.\<close>

lemma vx32_results:
  "\<exists>s'. wrap_vx32_read H fd buf n s = Return
      (if (ucast (fst (h_call H ''read'' [Word fd, Word buf, Word n] (world s))) :: u32) = - 1
       then int_result (- errno_to_vx32 (h_errno H (world s')))
       else fst (h_call H ''read'' [Word fd, Word buf, Word n] (world s))) s' \<and>
    errno_to_vx32 (h_errno H (world s')) \<in> {1, 2, 3, 4, 5, 6, 7, 8, 9, 10} \<and> s' = s\<lparr>world := world s'\<rparr>"
  using errno_to_vx32_range
  by (cases "h_call H ''read'' [Word fd, Word buf, Word n] (world s)")
     (simp del: insert_iff add: wrap_vx32_read_def host_call_def)

section \<open>Sequences of trusted calls\<close>

text \<open>A step is one call from the sandbox that returns.\<close>

inductive rt_step :: "layout \<Rightarrow> ('f, 'w) host \<Rightarrow> ('f, 'w) rt \<Rightarrow> ('f, 'w) rt \<Rightarrow> bool"
  for L :: layout and H :: "('f, 'w) host" where
  rt_delegate: "frame wr \<Longrightarrow> wr s = Return r s' \<Longrightarrow> rt_step L H s s'"
| rt_sbrk: "wrap_sbrk L n s = Return r s' \<Longrightarrow> rt_step L H s s'"
| rt_open: "loader_open H a s = Return r s' \<Longrightarrow> rt_step L H s s'"
| rt_close: "wrap_outside_fclose H fi s = Return r s' \<Longrightarrow> rt_step L H s s'"
| rt_stat: "stat_into H fn arg b s = Return r s' \<Longrightarrow> rt_step L H s s'"

definition rt_inv :: "layout \<Rightarrow> ('f, 'w) rt \<Rightarrow> bool" where
  "rt_inv L s \<longleftrightarrow> length (files s) = max_files \<and> break_ok L s"

lemma open_break: "loader_open H a s = Return r s' \<Longrightarrow> data_break s' = data_break s"
  by (cases a) (auto simp: wrap_outside_fopen_def wrap_outside_fdopen_def Let_def split: prod.splits if_splits)

lemma close_break: "wrap_outside_fclose H fi s = Return r s' \<Longrightarrow> data_break s' = data_break s"
  by (auto simp: wrap_outside_fclose_def host_call_def split: prod.splits option.splits)

lemma rt_step_inv: "rt_step L H s s' \<Longrightarrow> rt_inv L s \<Longrightarrow> rt_inv L s'"
proof (induction rule: rt_step.induct)
  case (rt_delegate wr s r s')
  then have "s' = s\<lparr>world := world s'\<rparr>" by (auto simp: frame_def dest: spec [of _ s])
  from arg_cong [OF this, of files] arg_cong [OF this, of data_break]
  have "files s' = files s" "data_break s' = data_break s" by simp_all
  then show ?case using rt_delegate by (simp add: rt_inv_def break_ok_def)
next
  case (rt_sbrk n s r s')
  then show ?case by (auto simp: wrap_sbrk_def rt_inv_def break_ok_def Let_def split: if_splits)
next
  case (rt_open a s r s')
  then show ?case
    using loader_streams.open_wf [of s H a r s'] open_break [of H a s r s']
    by (simp add: rt_inv_def break_ok_def loader_streams.table_wf_def)
next
  case (rt_close fi s r s')
  then show ?case
    using loader_streams.close_wf [of s H fi r s'] close_break [of H fi s r s']
    by (simp add: rt_inv_def break_ok_def loader_streams.table_wf_def)
next
  case (rt_stat fn arg b s r s')
  then show ?case
    by (auto simp: stat_into_def rt_inv_def break_ok_def Let_def split: prod.splits if_splits)
qed

text \<open>Claim C21. Whatever sequence of calls the sandbox makes, the stream table keeps its 16
  entries and the break stays inside the data region.\<close>

theorem trusted_calls_inv:
  assumes "(rt_step L H)\<^sup>*\<^sup>* s s'" and "length (files s) = max_files" and "break_ok L s"
  shows "length (files s') = max_files \<and> break_ok L s'"
  using assms(1)
proof induction
  case base
  then show ?case using assms(2,3) by simp
next
  case (step t u)
  then show ?case using rt_step_inv [of L H t u] by (simp add: rt_inv_def)
qed

theorem trusted_calls_inv_witness:
  "break_ok (compute_sizes classic) (fx_rt\<lparr>data_break := 0x20003000\<rparr>)"
proof -
  have b: "break_ok (compute_sizes classic) fx_rt" "length (files fx_rt) = max_files"
    by (simp_all add: break_ok_def fx_rt_def layout_eval max_files_def)
  have "wrap_sbrk (compute_sizes classic) 0x1000 fx_rt =
      Return (int_result 0x20002000) (fx_rt\<lparr>data_break := 0x20003000\<rparr>)"
    by (simp add: wrap_sbrk_def fx_rt_def layout_eval)
  then have "(rt_step (compute_sizes classic) fx_host)\<^sup>*\<^sup>* fx_rt (fx_rt\<lparr>data_break := 0x20003000\<rparr>)"
    by (intro r_into_rtranclp) (rule rt_sbrk)
  from trusted_calls_inv [OF this b(2,1)] show ?thesis by simp
qed

section \<open>File status\<close>

text \<open>\<^verbatim>\<open>stat\<close>, \<^verbatim>\<open>lstat\<close> and \<^verbatim>\<open>fstat\<close> fill the caller's buffer with all eleven fields when the
  host succeeds, leave every buffer alone when it fails, and return the host's result.\<close>

lemma stat_buffers:
  "let ((ret, buf), w) = h_stat H fn arg (world s)
   in \<exists>s'. stat_into H fn arg b s = Return (int_result ret) s' \<and> files s' = files s \<and>
      in_bufs s' = (if ret = 0 then (in_bufs s)(b := Some (copy_stat buf)) else in_bufs s)"
  by (simp add: stat_into_def Let_def split: prod.splits)

end
