(* ===== verification/SFI_Mem.thy ===== *)
theory SFI_Mem
  imports SFI_Prelude
begin

text \<open>
  Byte-addressed memory of a 32-bit little-endian machine: reading and writing 32-bit words,
  and blocks of bytes.
\<close>

type_synonym mem = "addr \<Rightarrow> byte"

definition load32 :: "mem \<Rightarrow> addr \<Rightarrow> u32" where
  "load32 m a = ucast (m a) OR push_bit 8 (ucast (m (a + 1))) OR push_bit 16 (ucast (m (a + 2))) OR
     push_bit 24 (ucast (m (a + 3)))"

definition store32 :: "addr \<Rightarrow> u32 \<Rightarrow> mem \<Rightarrow> mem" where
  "store32 a w m = m(a := ucast w, a + 1 := ucast (drop_bit 8 w), a + 2 := ucast (drop_bit 16 w),
     a + 3 := ucast (drop_bit 24 w))"

fun write_bytes :: "addr \<Rightarrow> byte list \<Rightarrow> mem \<Rightarrow> mem" where
  "write_bytes a [] m = m"
| "write_bytes a (b # bs) m = write_bytes (a + 1) bs (m(a := b))"

definition read_bytes :: "mem \<Rightarrow> addr \<Rightarrow> nat \<Rightarrow> byte list" where
  "read_bytes m a n = map (\<lambda>i. m (a + of_nat i)) [0..<n]"

text \<open>A range of \<open>n\<close> bytes from \<open>a\<close>, modulo \<open>2 ^ 32\<close>.\<close>

definition in_range :: "addr \<Rightarrow> nat \<Rightarrow> addr \<Rightarrow> bool" where
  "in_range a n x \<longleftrightarrow> unat (x - a) < n"

lemma in_range_iff: "n \<le> 2 ^ 32 \<Longrightarrow> in_range a n x \<longleftrightarrow> (\<exists>i < n. x = a + of_nat i)"
proof
  assume "in_range a n x"
  then show "\<exists>i < n. x = a + of_nat i"
    unfolding in_range_def by (intro exI [of _ "unat (x - a)"]) simp
next
  assume "n \<le> 2 ^ 32" "\<exists>i < n. x = a + of_nat i"
  then show "in_range a n x" by (auto simp: in_range_def unsigned_of_nat take_bit_nat_eq_self)
qed

lemma small_offsets [simp]: "a + 1 \<noteq> (a :: u32)" "a + 2 \<noteq> a" "a + 3 \<noteq> a" "a + 1 \<noteq> a + 2" "a + 1 \<noteq> a + 3" "a + 2 \<noteq> a + 3"
  "a \<noteq> a + 1" "a \<noteq> a + 2" "a \<noteq> a + 3" "a + 2 \<noteq> a + 1" "a + 3 \<noteq> a + 1" "a + 3 \<noteq> a + 2"
  by simp_all

lemma word_from_bytes:
  "(ucast (ucast w :: byte) :: u32) OR push_bit 8 (ucast (ucast (drop_bit 8 w) :: byte)) OR
     push_bit 16 (ucast (ucast (drop_bit 16 w) :: byte)) OR push_bit 24 (ucast (ucast (drop_bit 24 w) :: byte)) = (w :: u32)"
proof (rule bit_word_eqI)
  fix n assume "n < LENGTH(32)"
  then consider "n < 8" | "8 \<le> n" "n < 16" | "16 \<le> n" "n < 24" | "24 \<le> n" "n < 32" by force
  then show "bit ((ucast (ucast w :: byte) :: u32) OR push_bit 8 (ucast (ucast (drop_bit 8 w) :: byte)) OR
     push_bit 16 (ucast (ucast (drop_bit 16 w) :: byte)) OR push_bit 24 (ucast (ucast (drop_bit 24 w) :: byte))) n = bit w n"
    by cases (auto simp: bit_simps less_diff_conv2)
qed

lemma load_store32 [simp]: "load32 (store32 a w m) a = w"
  by (simp add: load32_def store32_def word_from_bytes)

lemma store32_other: "\<not> in_range a 4 x \<Longrightarrow> store32 a w m x = m x"
  by (auto simp: store32_def in_range_def)

lemma load32_cong:
  "(\<And>x. in_range a 4 x \<Longrightarrow> m x = m' x) \<Longrightarrow> load32 m a = load32 m' a"
  by (simp add: load32_def in_range_def)

lemma in_range_sub:
  assumes "in_range b k x" "unat (b - a) + k \<le> n" "n \<le> 2 ^ 32"
  shows "in_range a n x"
proof -
  have "x - a = (x - b) + (b - a)" by simp
  moreover have "unat (x - b) + unat (b - a) < 2 ^ 32" using assms by (simp add: in_range_def)
  ultimately have "unat (x - a) = unat (x - b) + unat (b - a)"
    by (simp only: unat_word_ariths(1)) simp
  then show ?thesis using assms by (simp add: in_range_def)
qed

lemma write_bytes_other:
  "length bs \<le> 2 ^ 32 \<Longrightarrow> \<not> in_range a (length bs) x \<Longrightarrow> write_bytes a bs m x = m x"
proof (induction a bs m rule: write_bytes.induct)
  case (2 a b bs m)
  have "\<not> in_range (a + 1) (length bs) x"
    using 2(3) in_range_sub [of "a + 1" "length bs" x a "length (b # bs)"] 2(2) by auto
  moreover have "x \<noteq> a" using 2(3) by (auto simp: in_range_def)
  moreover have "length bs \<le> 2 ^ 32" using 2(2) by simp
  ultimately have "write_bytes (a + 1) bs (m(a := b)) x = (m(a := b)) x" by (intro 2(1))
  then show ?case using \<open>x \<noteq> a\<close> by (simp only: write_bytes.simps fun_upd_other not_False_eq_True)
qed simp

lemma write_bytes_nth:
  "length bs \<le> 2 ^ 32 \<Longrightarrow> i < length bs \<Longrightarrow> write_bytes a bs m (a + of_nat i) = bs ! i"
proof (induction bs arbitrary: a i m)
  case (Cons b bs)
  show ?case
  proof (cases i)
    case 0
    have "\<not> in_range (a + 1) (length bs) a"
    proof -
      have "a - (a + 1) = (- 1 :: u32)" by simp
      moreover have "unat (- 1 :: u32) = 2 ^ 32 - 1" by (simp add: unsigned_minus_1_eq_mask mask_nat_def)
      ultimately show ?thesis using Cons(2) by (simp add: in_range_def)
    qed
    then show ?thesis using 0 Cons(2) by (simp add: write_bytes_other)
  next
    case (Suc j)
    then have "write_bytes (a + 1) bs (m(a := b)) (a + 1 + of_nat j) = bs ! j"
      using Cons(2,3) by (intro Cons(1)) simp_all
    then show ?thesis by (simp only: Suc write_bytes.simps of_nat_Suc nth_Cons_Suc add.assoc)
  qed
qed simp

lemma read_write_bytes:
  "length bs \<le> 2 ^ 32 \<Longrightarrow> read_bytes (write_bytes a bs m) a (length bs) = bs"
  by (rule nth_equalityI) (simp_all add: read_bytes_def write_bytes_nth)

end
