(* ===== verification/SFI_Loader.thy ===== *)
theory SFI_Loader
  imports SFI_Policy SFI_Runtime SFI_Mem
begin

text \<open>
  The loader proper (\<^verbatim>\<open>src/loader.c\<close>): checking and loading the module's ELF image, the stubs
  through which sandboxed code reaches the wrappers, and the transfer into the sandbox and
  back. The ELF library, the file and libdisasm are parameters; the two fixed mappings are
  taken to succeed. A failed \<^verbatim>\<open>assert\<close> is \<open>Aborted\<close>, a rejection by the verifier \<open>Exited 1\<close>.
\<close>

section \<open>Stubs\<close>

text \<open>The loop stops at the null pointer that ends the table.\<close>

fun install_stubs_at :: "layout \<Rightarrow> addr \<Rightarrow> addr list \<Rightarrow> mem \<Rightarrow> mem" where
  "install_stubs_at L a [] m = m"
| "install_stubs_at L a (p # ps) m =
     (if p = 0 then m
      else install_stubs_at L (a + STUB_SIZE L) ps (store32 (a + 1) (p - (a + 5)) (m(a := 0xe9))))"

definition stub_base :: "layout \<Rightarrow> addr" where
  "stub_base L = CODE_START L + 2 * CHUNK_SIZE L"

definition install_stubs :: "layout \<Rightarrow> addr list \<Rightarrow> mem \<Rightarrow> mem" where
  "install_stubs L stubs m = install_stubs_at L (stub_base L) stubs m"

text \<open>Where a \<^verbatim>\<open>jmp rel32\<close> at an address goes.\<close>

definition jmp_target :: "mem \<Rightarrow> addr \<Rightarrow> addr option" where
  "jmp_target m a = (if m a = 0xe9 then Some (a + 5 + load32 m (a + 1)) else None)"

section \<open>The ELF image\<close>

record elf_phdr =
  p_type :: u32
  p_vaddr :: u32
  p_paddr :: u32
  p_memsz :: u32
  p_flags :: u32

record elf_shdr =
  sh_name :: "string option"  \<comment> \<open>as \<^verbatim>\<open>elf_strptr\<close> gives it\<close>
  sh_size :: u32
  sh_addr :: u32
  sh_type :: u32
  sh_flags :: u32
  sh_offset :: u32

record module =
  phdrs :: "elf_phdr list"
  shdrs :: "elf_shdr list"
  file_read :: "u32 \<Rightarrow> u32 \<Rightarrow> byte list"  \<comment> \<open>\<^verbatim>\<open>lseek\<close> to an offset, then \<^verbatim>\<open>read\<close> a length\<close>

definition PT_LOAD :: u32 where "PT_LOAD = 1"
definition PF_X :: u32 where "PF_X = 1"
definition PF_W :: u32 where "PF_W = 2"
definition PF_R :: u32 where "PF_R = 4"
definition SHT_PROGBITS :: u32 where "SHT_PROGBITS = 1"
definition SHF_WRITE :: u32 where "SHF_WRITE = 1"
definition SHF_ALLOC :: u32 where "SHF_ALLOC = 2"
definition SHF_EXECINSTR :: u32 where "SHF_EXECINSTR = 4"

definition code_phdr_ok :: "layout \<Rightarrow> elf_phdr \<Rightarrow> bool" where
  "code_phdr_ok L p \<longleftrightarrow> p_type p = PT_LOAD \<and> p_vaddr p = CODE_START L \<and> p_paddr p = CODE_START L \<and>
     p_memsz p \<le> CODE_SIZE L \<and> p_flags p = PF_R OR PF_X"

definition data_phdr_ok :: "layout \<Rightarrow> elf_phdr \<Rightarrow> bool" where
  "data_phdr_ok L p \<longleftrightarrow> p_type p = PT_LOAD \<and> p_vaddr p = DATA_START L \<and> p_paddr p = DATA_START L \<and>
     p_memsz p \<le> DATA_SIZE L \<and> p_flags p = PF_R OR PF_W"

text \<open>The first two headers; how many there are is not checked.\<close>

definition check_phdrs :: "layout \<Rightarrow> elf_phdr list \<Rightarrow> stop + unit" where
  "check_phdrs L ps =
     (if length ps < 2 then Inl (Out_of_bounds (int (length ps)))
      else guard (if CODE_IS_LOWER L then code_phdr_ok L (ps ! 0) \<and> data_phdr_ok L (ps ! 1)
                  else data_phdr_ok L (ps ! 0) \<and> code_phdr_ok L (ps ! 1)) Aborted)"

text \<open>The locals of \<^verbatim>\<open>main\<close> that the section loop fills.\<close>

record sections =
  data_size_total :: u32
  data_len :: u32
  data_offset :: u32
  code_len :: u32
  code_offset :: u32
  code_mapped :: bool  \<comment> \<open>the \<^verbatim>\<open>mmap\<close> of the code region\<close>

definition text_ok :: "layout \<Rightarrow> elf_shdr \<Rightarrow> bool" where
  "text_ok L sh \<longleftrightarrow> sh_size sh \<le> CODE_SIZE L \<and> sh_addr sh = CODE_START L \<and> sh_type sh = SHT_PROGBITS \<and>
     sh_flags sh = SHF_ALLOC OR SHF_EXECINSTR \<and> \<not> has (sh_offset sh) 0xfff"

definition data_ok :: "layout \<Rightarrow> elf_shdr \<Rightarrow> bool" where
  "data_ok L sh \<longleftrightarrow> sh_size sh \<le> DATA_SIZE L \<and> sh_addr sh = DATA_START L \<and> sh_type sh = SHT_PROGBITS \<and>
     sh_flags sh = SHF_WRITE OR SHF_ALLOC \<and> \<not> has (sh_offset sh) 0xfff"

definition section_step :: "layout \<Rightarrow> elf_shdr \<Rightarrow> sections \<Rightarrow> stop + sections" where
  "section_step L sh s =
     (case sh_name sh of
        None \<Rightarrow> Inr s
      | Some name \<Rightarrow>
          if name = ''.text'' then
            res_bind (guard (text_ok L sh) Aborted)
              (\<lambda>_. Inr (s\<lparr>code_len := sh_size sh, code_offset := sh_offset sh, code_mapped := True\<rparr>))
          else if name = ''.rodata'' then Inl Aborted
          else if name = ''.data'' then
            res_bind (guard (data_ok L sh) Aborted)
              (\<lambda>_. Inr (s\<lparr>data_len := sh_size sh, data_offset := sh_offset sh,
                           data_size_total := data_size_total s + sh_size sh\<rparr>))
          else if name = ''.bss'' then Inr (s\<lparr>data_size_total := data_size_total s + sh_size sh\<rparr>)
          else Inr s)"

fun scan_sections :: "layout \<Rightarrow> elf_shdr list \<Rightarrow> sections \<Rightarrow> stop + sections" where
  "scan_sections L [] s = Inr s"
| "scan_sections L (sh # shs) s = res_bind (section_step L sh s) (scan_sections L shs)"

definition no_sections :: sections where
  "no_sections = \<lparr>data_size_total = 0, data_len = 0, data_offset = 0, code_len = 0, code_offset = 0,
     code_mapped = False\<rparr>"

text \<open>\<^verbatim>\<open>lseek\<close>, \<^verbatim>\<open>read\<close> into memory, and the assertion that everything came.\<close>

definition load_part :: "module \<Rightarrow> u32 \<Rightarrow> u32 \<Rightarrow> addr \<Rightarrow> mem \<Rightarrow> stop + mem" where
  "load_part md off len a m =
     (let bs = file_read md off len
      in if length bs = unat len then Inr (write_bytes a bs m) else Inl Aborted)"

section \<open>Main\<close>

record loaded =
  ld_mem :: mem
  ld_break :: addr
  inside_esp :: u32
  inside_ebp :: u32
  ld_code_len :: int

text \<open>The first page boundary at least a page beyond the data.\<close>

definition initial_break :: "layout \<Rightarrow> u32 \<Rightarrow> addr" where
  "initial_break L n = (DATA_START L + n + 2 * 4096) AND NOT 4095"

text \<open>A rejection prints a message and exits.\<close>

definition run_verifier :: "layout \<Rightarrow> disassembler \<Rightarrow> int \<Rightarrow> stop + unit" where
  "run_verifier L d n = (case verify L d n of Inl e \<Rightarrow> Inl (Exited 1) | Inr _ \<Rightarrow> Inr ())"

text \<open>The first argument says whether \<^verbatim>\<open>VERIFY\<close> is defined when \<^verbatim>\<open>loader.c\<close> is compiled: the call
  of \<^verbatim>\<open>verify\<close> is under \<^verbatim>\<open>#ifdef VERIFY\<close>, and \<^verbatim>\<open>src/Makefile\<close> leaves it undefined.\<close>

definition load_module ::
  "bool \<Rightarrow> layout \<Rightarrow> (mem \<Rightarrow> disassembler) \<Rightarrow> addr list \<Rightarrow> module \<Rightarrow> mem \<Rightarrow> stop + loaded" where
  "load_module VERIFY L disasm stubs md m0 =
     res_bind (check_phdrs L (phdrs md)) (\<lambda>_.
     res_bind (scan_sections L (shdrs md) no_sections) (\<lambda>s.
     res_bind (guard (data_size_total s \<le> DATA_SIZE L) Aborted) (\<lambda>_.
     let m1 = (\<lambda>a. if in_data L a \<or> in_code L a then 0 else m0 a)
     in res_bind (load_part md (code_offset s) (code_len s) (CODE_START L) m1) (\<lambda>m2.
     res_bind (load_part md (data_offset s) (data_len s) (DATA_START L) m2) (\<lambda>m3.
     res_bind (if VERIFY then run_verifier L (disasm m3) (sint (code_len s)) else Inr ()) (\<lambda>_.
     res_bind (guard (code_mapped s) (Out_of_bounds (uint (CODE_START L)))) (\<lambda>_.
       Inr \<lparr>ld_mem = install_stubs L stubs m3,
                     ld_break = initial_break L (data_size_total s),
                     inside_esp = DATA_END L - 4, inside_ebp = DATA_END L - 4,
                     ld_code_len = sint (code_len s)\<rparr>)))))))"

text \<open>The wrappers' variables when the module starts.\<close>

definition start_rt :: "('f, 'w) host \<Rightarrow> loaded \<Rightarrow> 'w \<Rightarrow> ('f, 'w) rt" where
  "start_rt H ld w = init_wrappers H \<lparr>files = replicate max_files None, data_break = ld_break ld,
     exit_value = 0, in_bufs = Map.empty, world = w\<rparr>"

section \<open>Into the sandbox and back\<close>

record cpu =
  eax :: u32
  ebx :: u32
  ecx :: u32
  edx :: u32
  esi :: u32
  edi :: u32
  ebp :: u32
  esp :: u32

text \<open>The globals \<^verbatim>\<open>outside_*\<close> and \<^verbatim>\<open>inside_*\<close>.\<close>

record gate =
  outside_esp :: u32
  outside_ebp :: u32
  outside_ebx :: u32
  outside_esi :: u32
  outside_edi :: u32
  gate_esp :: u32
  gate_ebp :: u32

text \<open>How the guest ends: it returns with some registers, or a wrapper's \<^verbatim>\<open>longjmp\<close> unwinds it.\<close>

datatype guest_end = Guest_returned cpu | Guest_exited u32

definition enter_regs :: "addr \<Rightarrow> u32 \<Rightarrow> u32 \<Rightarrow> gate \<Rightarrow> cpu \<Rightarrow> cpu" where
  "enter_regs a argc argv g c =
     c\<lparr>ecx := argc, edx := argv, eax := a, esp := gate_esp g - 4, ebp := gate_ebp g\<rparr>"

definition save_outside :: "gate \<Rightarrow> cpu \<Rightarrow> gate" where
  "save_outside g c = g\<lparr>outside_esp := esp c, outside_ebp := ebp c, outside_ebx := ebx c,
     outside_esi := esi c, outside_edi := edi c\<rparr>"

text \<open>\<^verbatim>\<open>longjmp\<close> gives back the registers that \<^verbatim>\<open>setjmp\<close> saved.\<close>

definition call_in ::
  "(cpu \<Rightarrow> guest_end) \<Rightarrow> addr \<Rightarrow> u32 \<Rightarrow> u32 \<Rightarrow> gate \<Rightarrow> cpu \<Rightarrow> u32 \<times> gate \<times> cpu" where
  "call_in guest a argc argv g c =
     (let g1 = save_outside g c
      in case guest (enter_regs a argc argv g1 c) of
           Guest_exited v \<Rightarrow> (v, g1, c\<lparr>eax := v\<rparr>)
         | Guest_returned r \<Rightarrow>
             let g2 = g1\<lparr>gate_esp := esp r, gate_ebp := ebp r\<rparr>
             in (eax r, g2, r\<lparr>esp := outside_esp g2, ebp := outside_ebp g2, ebx := outside_ebx g2,
                  esi := outside_esi g2, edi := outside_edi g2\<rparr>))"

section \<open>The segment descriptor\<close>

record user_desc =
  seg_32bit :: nat
  read_exec_only :: nat
  limit_in_pages :: nat
  seg_not_present :: nat
  useable :: nat
  entry_number :: nat
  base_addr :: u32
  limit :: u32
  contents :: nat

definition gs_selector :: nat where "gs_selector = 16 + 4 + 3"

text \<open>\<^verbatim>\<open>modify_ldt\<close> is the system call: \<open>True\<close> for success.\<close>

definition setup_gs_ldt :: "(user_desc \<Rightarrow> bool) \<Rightarrow> u32 \<Rightarrow> stop + nat" where
  "setup_gs_ldt modify_ldt a =
     (let desc = \<lparr>seg_32bit = 1, read_exec_only = 0, limit_in_pages = 1, seg_not_present = 0,
                  useable = 1, entry_number = gs_selector div 8, base_addr = a, limit = 1, contents = 0\<rparr>
      in if modify_ldt desc then Inr gs_selector else Inl (Exited (- 1)))"

section \<open>Stubs reach their wrappers\<close>

lemma in_range_disjoint:
  assumes "in_range a 5 x" "n + 16 \<le> 2 ^ 32"
  shows "\<not> in_range (a + 16) n x"
proof -
  let ?d = "x - a"
  have d: "unat ?d < 5" using assms(1) by (simp add: in_range_def)
  have "unat (?d - 16) = unat ?d + 2 ^ 32 - 16"
    using d by (simp add: unat_sub_if')
  then have "\<not> unat (?d - 16) < n" using assms(2) by simp
  then show ?thesis by (simp only: in_range_def diff_diff_add not_False_eq_True)
qed

lemma install_stubs_at_other:
  assumes "STUB_SIZE L = 16" "length ps * 16 \<le> 2 ^ 32" "\<not> in_range a (length ps * 16) x"
  shows "install_stubs_at L a ps m x = m x"
  using assms(2,3)
proof (induction ps arbitrary: a m)
  case (Cons p ps)
  have n: "\<not> in_range b k x" if "unat (b - a) + k \<le> 16 + length ps * 16" for b k
    using Cons(2,3) that in_range_sub [of b k x a "length (p # ps) * 16"] by auto
  have "\<not> in_range (a + 1) 4 x" "\<not> in_range a 1 x" "\<not> in_range (a + 16) (length ps * 16) x"
    by (rule n, simp)+
  then have "store32 (a + 1) (p - (a + 5)) (m(a := 0xe9)) x = m x" "\<not> in_range (a + 16) (length ps * 16) x"
    by (auto simp: store32_other in_range_def)
  then show ?case using Cons(1) [of "a + 16"] Cons(2) assms(1) by simp
qed simp

lemma install_stubs_at_target:
  assumes "STUB_SIZE L = 16" "length ps * 16 \<le> 2 ^ 32" "0 \<notin> set ps" "i < length ps"
  shows "jmp_target (install_stubs_at L a ps m) (a + of_nat i * 16) = Some (ps ! i)"
  using assms(2-4)
proof (induction ps arbitrary: a m i)
  case (Cons p ps)
  let ?m = "store32 (a + 1) (p - (a + 5)) (m(a := 0xe9))"
  have p: "p \<noteq> 0" using Cons(3) by auto
  show ?case
  proof (cases i)
    case 0
    have keep: "install_stubs_at L (a + 16) ps ?m x = ?m x" if "in_range a 5 x" for x
      using that Cons(2) by (intro install_stubs_at_other [OF assms(1)] in_range_disjoint) simp_all
    have "load32 (install_stubs_at L (a + 16) ps ?m) (a + 1) = load32 ?m (a + 1)"
      by (rule load32_cong, rule keep, erule in_range_sub) simp_all
    moreover have "install_stubs_at L (a + 16) ps ?m a = 0xe9"
      by (subst keep) (simp_all add: in_range_def store32_other unsigned_minus_1_eq_mask mask_nat_def)
    ultimately show ?thesis using 0 p assms(1) by (simp add: jmp_target_def)
  next
    case (Suc j)
    have "jmp_target (install_stubs_at L (a + 16) ps ?m) (a + 16 + of_nat j * 16) = Some (ps ! j)"
      using Cons(2-4) Suc by (intro Cons(1)) simp_all
    then show ?thesis using Suc p assms(1) by (simp add: algebra_simps)
  qed
qed simp

lemma stub_size: "STUB_SIZE (compute_sizes sz) = 16"
  by (cases sz) (simp_all add: layout_eval)

text \<open>Claim C22. After the stubs are installed, the code at the \<open>i\<close>-th stub address is a jump to the
  \<open>i\<close>-th wrapper. Each stub address is chunk-aligned and in the code region, and no byte
  outside the stub area changed.\<close>

theorem stubs_reach_wrappers:
  assumes "0 \<notin> set stubs" and "i < length stubs" and "length stubs \<le> 2 ^ 19"
  shows "let L = compute_sizes sz; a = stub_base L + of_nat i * 16
    in jmp_target (install_stubs L stubs m) a = Some (stubs ! i) \<and> chunk_aligned L a \<and> in_code L a \<and>
      (\<forall>x. \<not> in_range (stub_base L) (length stubs * 16) x \<longrightarrow> install_stubs L stubs m x = m x)"
proof -
  let ?L = "compute_sizes sz" and ?k = "of_nat i * 16 :: u32"
  have k: "unat ?k = i * 16"
    using assms(2,3) by (simp add: unat_word_ariths unsigned_of_nat take_bit_nat_eq_self)
  have u: "unat (stub_base ?L + ?k) = unat (CODE_START ?L) + 32 + i * 16"
    using k assms(2,3) by (cases sz) (simp_all add: unat_word_ariths stub_base_def layout_eval)
  have "16 dvd unat (stub_base ?L + ?k)"
    unfolding u by (cases sz) (simp_all add: layout_eval)
  then have al: "chunk_aligned ?L (stub_base ?L + ?k)"
    using and_mask_zero_iff_dvd [of "stub_base ?L + ?k" 4]
    by (cases sz) (simp_all add: chunk_aligned_def layout_eval mask_eq_exp_minus_1)
  have "in_code ?L (stub_base ?L + ?k)"
    unfolding in_code_def word_le_nat_alt word_less_nat_alt u
    using assms(2,3) by (cases sz) (simp_all add: layout_eval)
  then show ?thesis
    using assms al install_stubs_at_target [OF stub_size, of stubs i sz "stub_base ?L" m]
      install_stubs_at_other [OF stub_size, of stubs "stub_base ?L" _ sz m]
    by (simp add: Let_def install_stubs_def)
qed

theorem stubs_reach_wrappers_witness:
  "jmp_target (install_stubs (compute_sizes classic) [0x8048000, 0x8049000] (\<lambda>_. 0)) 0x10000030 = Some 0x8049000"
  using stubs_reach_wrappers [of "[0x8048000, 0x8049000]" 1 classic "\<lambda>_. 0"]
  by (simp add: stub_base_def layout_eval Let_def)

section \<open>What a loaded module is\<close>






text \<open>An image with a 16-byte text section and 8 bytes of data.\<close>

definition fx_elf :: module where
  "fx_elf = \<lparr>phdrs = [\<lparr>p_type = 1, p_vaddr = 0x10000000, p_paddr = 0x10000000, p_memsz = 16, p_flags = 5\<rparr>,
       \<lparr>p_type = 1, p_vaddr = 0x20000000, p_paddr = 0x20000000, p_memsz = 8, p_flags = 6\<rparr>],
     shdrs = [\<lparr>sh_name = Some ''.text'', sh_size = 16, sh_addr = 0x10000000, sh_type = 1, sh_flags = 6, sh_offset = 0x1000\<rparr>,
       \<lparr>sh_name = Some ''.data'', sh_size = 8, sh_addr = 0x20000000, sh_type = 1, sh_flags = 3, sh_offset = 0x2000\<rparr>],
     file_read = \<lambda>off n. replicate (unat n) 0x90\<rparr>"

lemma fx_elf_sections:
  "check_phdrs sfi_classic (phdrs fx_elf) = Inr ()"
  "scan_sections sfi_classic (shdrs fx_elf) no_sections =
      Inr \<lparr>data_size_total = 8, data_len = 8, data_offset = 0x2000, code_len = 16, code_offset = 0x1000,
        code_mapped = True\<rparr>"
  "load_part fx_elf off n a m = Inr (write_bytes a (replicate (unat n) 0x90) m)"
  "(8 :: u32) \<le> DATA_SIZE sfi_classic"
  by (simp_all add: check_phdrs_def section_step_def fx_elf_def code_phdr_ok_def data_phdr_ok_def
      CODE_IS_LOWER_def PT_LOAD_def PF_X_def PF_W_def PF_R_def text_ok_def data_ok_def no_sections_def
      SHT_PROGBITS_def SHF_WRITE_def SHF_ALLOC_def SHF_EXECINSTR_def has_def layout_eval guard_def
      load_part_def Let_def)


text \<open>The default build starts any code at all.\<close>

lemma default_build_unverified:
  "\<exists>ld. load_module False sfi_classic disasm [] fx_elf (\<lambda>_. 0) = Inr ld"
  by (simp add: load_module_def fx_elf_sections guard_def Let_def)


section \<open>The break\<close>

text \<open>Claim C24. If the data leaves two pages free, the break starts at a page boundary inside the
  data region, more than a page beyond the data, and the trusted calls' invariant holds.\<close>

theorem initial_break_in_region:
  assumes "unat n + 8192 < unat (DATA_SIZE (compute_sizes sz))" and "ld_break ld = initial_break (compute_sizes sz) n"
  shows "DATA_START (compute_sizes sz) + n + 4096 < ld_break ld \<and> ld_break ld AND 4095 = 0 \<and>
    rt_inv (compute_sizes sz) (start_rt H ld w)"
proof -
  let ?L = "compute_sizes sz" and ?a = "DATA_START (compute_sizes sz) + n + 8192"
  have b: "ld_break ld = ?a AND NOT (mask 12)" using assms(2) by (simp add: initial_break_def mask_eq_exp_minus_1)
  have a: "unat ?a = unat (DATA_START ?L) + unat n + 8192"
    using assms(1) by (cases sz) (simp_all add: unat_word_ariths layout_eval)
  have e: "unat (DATA_END ?L) = unat (DATA_START ?L) + unat (DATA_SIZE ?L)"
    by (cases sz) (simp_all add: layout_eval)
  have c: "unat (DATA_START ?L + n + 4096) = unat (DATA_START ?L) + unat n + 4096"
    using assms(1) by (cases sz) (simp_all add: unat_word_ariths layout_eval)
  define q where "q = unat ?a div 4096"
  have q: "unat (ld_break ld) = q * 4096" "q * 4096 \<le> unat ?a" "unat ?a < q * 4096 + 4096"
    unfolding b unat_and_not_mask q_def using div_mult_mod_eq [of "unat ?a" 4096] mod_less_divisor [of 4096 "unat ?a"]
    by (simp_all add: algebra_simps)
  have g: "DATA_START ?L + n + 4096 < ld_break ld"
    using q c a by (simp add: word_less_nat_alt)
  have r: "break_ok ?L (start_rt H ld w)"
    using q a e assms(1) by (simp add: break_ok_def start_rt_def init_wrappers_def word_less_nat_alt)
  have "ld_break ld AND mask 12 = 0" unfolding b by (rule bit_word_eqI) (simp add: bit_simps)
  then show ?thesis
    using g r by (simp add: rt_inv_def start_rt_def init_wrappers_def max_files_def mask_eq_exp_minus_1)
qed

theorem initial_break_in_region_witness:
  "rt_inv (compute_sizes classic) (start_rt fx_host
     \<lparr>ld_mem = (\<lambda>_. 0), ld_break = 0x20002000, inside_esp = 0, inside_ebp = 0, ld_code_len = 0\<rparr> 0)"
  using initial_break_in_region [of 8 classic
     "\<lparr>ld_mem = (\<lambda>_. 0), ld_break = 0x20002000, inside_esp = 0, inside_ebp = 0, ld_code_len = 0\<rparr>" fx_host 0]
  by (simp add: initial_break_def layout_eval)

text \<open>Without that slack the break can start beyond the region: the assertion on the size allows
  data that fills it.\<close>

lemma initial_break_outside:
  "DATA_END (compute_sizes classic) < initial_break (compute_sizes classic) (DATA_SIZE (compute_sizes classic))"
  by (simp add: initial_break_def layout_eval)

section \<open>The gate\<close>

text \<open>Claim C23. Whatever the guest does to the registers, after \<^verbatim>\<open>call_in\<close> the loader has its own
  stack pointer, frame pointer and callee-saved registers back; the result is the guest's
  \<^verbatim>\<open>%eax\<close>, or the value given to \<^verbatim>\<open>exit\<close>, and a second call enters with the stack the guest left.\<close>

theorem call_in_restores:
  "case call_in guest a argc argv g c of (v, g', c') \<Rightarrow>
     esp c' = esp c \<and> ebp c' = ebp c \<and> ebx c' = ebx c \<and> esi c' = esi c \<and> edi c' = edi c \<and>
     (case guest (enter_regs a argc argv g c) of
        Guest_exited x \<Rightarrow> v = x \<and> gate_esp g' = gate_esp g \<and> gate_ebp g' = gate_ebp g
      | Guest_returned r \<Rightarrow> v = eax r \<and> gate_esp g' = esp r \<and> gate_ebp g' = ebp r)"
proof -
  have "enter_regs a argc argv (save_outside g c) c = enter_regs a argc argv g c"
    by (simp add: enter_regs_def save_outside_def)
  then show ?thesis
    by (simp add: call_in_def Let_def save_outside_def split: guest_end.splits)
qed

end
