(* ===== verification/SFI_Outside.thy ===== *)
theory SFI_Outside
  imports SFI_Runtime
begin

text \<open>
  The unsandboxed counterparts of the wrappers (\<^verbatim>\<open>src/outside.c\<close>): the functions that a module
  compiled without the sandbox is linked with, so that both builds run the same library. The
  theory shows that the two agree, call by call, and names the ones that do not.
\<close>

record o_inside_stat =
  o_st_size :: u32
  o_st_mode :: u32
  o_st_mtime :: u32

record ('f, 'w) ort =
  outside_files :: "'f option list"
  o_bufs :: "addr \<Rightarrow> o_inside_stat option"
  o_world :: 'w

type_synonym ('f, 'w) o_wrapper = "('f, 'w) ort \<Rightarrow> (('f, 'w) ort, u64) outcome"

definition o_host_call :: "('f, 'w) host \<Rightarrow> string \<Rightarrow> 'f carg list \<Rightarrow> ('f, 'w) o_wrapper" where
  "o_host_call H fn args s = (let (r, w) = h_call H fn args (o_world s) in Return r (s\<lparr>o_world := w\<rparr>))"

definition o_with_stream :: "u32 \<Rightarrow> ('f option \<Rightarrow> ('f, 'w) o_wrapper) \<Rightarrow> ('f, 'w) o_wrapper" where
  "o_with_stream fi k s =
     (case slot_of (outside_files s) fi of
        None \<Rightarrow> Halt (Out_of_bounds (sint fi))
      | Some i \<Rightarrow> k (outside_files s ! i) s)"

section \<open>Functions with a body of their own\<close>

definition outside_fopen :: "('f, 'w) host \<Rightarrow> u32 \<Rightarrow> u32 \<Rightarrow> ('f, 'w) o_wrapper" where
  "outside_fopen H path mode s =
     (let i = free_slot (outside_files s)
      in if i = max_files then Halt Aborted
         else let (f, w) = h_open H ''fopen'' [Word path, Word mode] (o_world s);
                  s' = s\<lparr>outside_files := (outside_files s)[i := f], o_world := w\<rparr>
              in if f = None then Return (int_result (-1)) s'
                 else Return (int_result (of_nat i)) s')"

definition outside_fdopen :: "('f, 'w) host \<Rightarrow> u32 \<Rightarrow> u32 \<Rightarrow> ('f, 'w) o_wrapper" where
  "outside_fdopen H fd mode s =
     (let i = free_slot (outside_files s)
      in if i = max_files then Halt Aborted
         else let (f, w) = h_open H ''fdopen'' [Word fd, Word mode] (o_world s);
                  s' = s\<lparr>outside_files := (outside_files s)[i := f], o_world := w\<rparr>
              in if f = None then Return (int_result (-1)) s'
                 else Return (int_result (of_nat i)) s')"

definition outside_fclose :: "('f, 'w) host \<Rightarrow> u32 \<Rightarrow> ('f, 'w) o_wrapper" where
  "outside_fclose H fi s =
     (case slot_of (outside_files s) fi of
        None \<Rightarrow> Halt (Out_of_bounds (sint fi))
      | Some i \<Rightarrow> out_bind (o_host_call H ''fclose'' [Stream (outside_files s ! i)] s)
          (\<lambda>ret s'. Return ret (s'\<lparr>outside_files := (outside_files s')[i := None]\<rparr>)))"

definition outside_errno :: "('f, 'w) host \<Rightarrow> ('f, 'w) o_wrapper" where
  "outside_errno H s = Return (int_result (h_errno H (o_world s))) s"

definition o_copy_stat :: "host_stat \<Rightarrow> o_inside_stat" where
  "o_copy_stat buf = \<lparr>o_st_size = st_size buf, o_st_mode = st_mode buf, o_st_mtime = st_mtime buf\<rparr>"

definition o_stat_into :: "('f, 'w) host \<Rightarrow> string \<Rightarrow> u32 \<Rightarrow> addr \<Rightarrow> ('f, 'w) o_wrapper" where
  "o_stat_into H fn arg in_buf s =
     (let ((ret, buf), w) = h_stat H fn arg (o_world s);
          s' = s\<lparr>o_world := w\<rparr>
      in Return (int_result ret)
           (if ret = 0 then s'\<lparr>o_bufs := (o_bufs s')(in_buf := Some (o_copy_stat buf))\<rparr> else s'))"

definition outside_stat :: "('f, 'w) host \<Rightarrow> u32 \<Rightarrow> addr \<Rightarrow> ('f, 'w) o_wrapper" where
  "outside_stat H fname in_buf = o_stat_into H ''stat'' fname in_buf"

definition outside_fstat :: "('f, 'w) host \<Rightarrow> u32 \<Rightarrow> addr \<Rightarrow> ('f, 'w) o_wrapper" where
  "outside_fstat H fd in_buf = o_stat_into H ''fstat'' fd in_buf"

definition o_init_wrappers :: "('f, 'w) host \<Rightarrow> ('f, 'w) ort \<Rightarrow> ('f, 'w) ort" where
  "o_init_wrappers H s = s\<lparr>outside_files := (outside_files s)
     [0 := Some (h_stdio H 0), 1 := Some (h_stdio H 1), 2 := Some (h_stdio H 2)]\<rparr>"

section \<open>Delegating functions\<close>

definition outside_ferror :: "('f, 'w) host \<Rightarrow> u32 \<Rightarrow> ('f, 'w) o_wrapper" where
  [wrapper_def]: "outside_ferror H fi = o_with_stream fi (\<lambda>f. o_host_call H ''ferror'' [Stream f])"

definition outside_fflush :: "('f, 'w) host \<Rightarrow> u32 \<Rightarrow> ('f, 'w) o_wrapper" where
  [wrapper_def]: "outside_fflush H fi = o_with_stream fi (\<lambda>f. o_host_call H ''fflush'' [Stream f])"

definition outside_fgetc :: "('f, 'w) host \<Rightarrow> u32 \<Rightarrow> ('f, 'w) o_wrapper" where
  [wrapper_def]: "outside_fgetc H fi = o_with_stream fi (\<lambda>f. o_host_call H ''fgetc'' [Stream f])"

definition outside_vfprintf :: "('f, 'w) host \<Rightarrow> u32 \<Rightarrow> u32 \<Rightarrow> u32 \<Rightarrow> ('f, 'w) o_wrapper" where
  [wrapper_def]: "outside_vfprintf H fi fmt ap = o_with_stream fi (\<lambda>f. o_host_call H ''vfprintf'' [Stream f, Word fmt, Word ap])"

definition outside_fread :: "('f, 'w) host \<Rightarrow> u32 \<Rightarrow> u32 \<Rightarrow> u32 \<Rightarrow> u32 \<Rightarrow> ('f, 'w) o_wrapper" where
  [wrapper_def]: "outside_fread H ptr sz num fi = o_with_stream fi (\<lambda>f. o_host_call H ''fread'' [Word ptr, Word sz, Word num, Stream f])"

definition outside_fwrite :: "('f, 'w) host \<Rightarrow> u32 \<Rightarrow> u32 \<Rightarrow> u32 \<Rightarrow> u32 \<Rightarrow> ('f, 'w) o_wrapper" where
  [wrapper_def]: "outside_fwrite H ptr sz num fi = o_with_stream fi (\<lambda>f. o_host_call H ''fwrite'' [Word ptr, Word sz, Word num, Stream f])"

definition outside_rewind :: "('f, 'w) host \<Rightarrow> u32 \<Rightarrow> ('f, 'w) o_wrapper" where
  [wrapper_def]: "outside_rewind H fi = o_with_stream fi (\<lambda>f. o_host_call H ''rewind'' [Stream f])"

definition outside_ungetc :: "('f, 'w) host \<Rightarrow> u32 \<Rightarrow> u32 \<Rightarrow> ('f, 'w) o_wrapper" where
  [wrapper_def]: "outside_ungetc H c fi = o_with_stream fi (\<lambda>f. o_host_call H ''ungetc'' [Word c, Stream f])"

definition outside_getenv :: "('f, 'w) host \<Rightarrow> u32 \<Rightarrow> ('f, 'w) o_wrapper" where
  [wrapper_def]: "outside_getenv H nm = o_host_call H ''getenv'' [Word nm]"

definition outside_access :: "('f, 'w) host \<Rightarrow> u32 \<Rightarrow> u32 \<Rightarrow> ('f, 'w) o_wrapper" where
  [wrapper_def]: "outside_access H pathname mode = o_host_call H ''access'' [Word pathname, Word mode]"

definition outside_close :: "('f, 'w) host \<Rightarrow> u32 \<Rightarrow> ('f, 'w) o_wrapper" where
  [wrapper_def]: "outside_close H fd = o_host_call H ''close'' [Word fd]"

definition outside_fseek :: "('f, 'w) host \<Rightarrow> u32 \<Rightarrow> u32 \<Rightarrow> u32 \<Rightarrow> ('f, 'w) o_wrapper" where
  [wrapper_def]: "outside_fseek H fi off whence = o_with_stream fi (\<lambda>f. o_host_call H ''fseek'' [Stream f, Word off, Word whence])"

definition outside_ftell :: "('f, 'w) host \<Rightarrow> u32 \<Rightarrow> ('f, 'w) o_wrapper" where
  [wrapper_def]: "outside_ftell H fi = o_with_stream fi (\<lambda>f. o_host_call H ''ftell'' [Stream f])"

definition outside_lseek :: "('f, 'w) host \<Rightarrow> u32 \<Rightarrow> u32 \<Rightarrow> u32 \<Rightarrow> ('f, 'w) o_wrapper" where
  [wrapper_def]: "outside_lseek H fd off whence = o_host_call H ''lseek'' [Word fd, Word off, Word whence]"

definition outside_open :: "('f, 'w) host \<Rightarrow> u32 \<Rightarrow> u32 \<Rightarrow> u32 \<Rightarrow> ('f, 'w) o_wrapper" where
  [wrapper_def]: "outside_open H pathname flags mode = o_host_call H ''open'' [Word pathname, Word flags, Word mode]"

definition outside_read :: "('f, 'w) host \<Rightarrow> u32 \<Rightarrow> u32 \<Rightarrow> u32 \<Rightarrow> ('f, 'w) o_wrapper" where
  [wrapper_def]: "outside_read H fd buf count = o_host_call H ''read'' [Word fd, Word buf, Word count]"

definition outside_times :: "('f, 'w) host \<Rightarrow> u32 \<Rightarrow> ('f, 'w) o_wrapper" where
  [wrapper_def]: "outside_times H buf = o_host_call H ''times'' [Word buf]"

definition outside_opendir :: "('f, 'w) host \<Rightarrow> u32 \<Rightarrow> ('f, 'w) o_wrapper" where
  [wrapper_def]: "outside_opendir H nm = o_host_call H ''opendir'' [Word nm]"

definition outside_closedir :: "('f, 'w) host \<Rightarrow> u32 \<Rightarrow> ('f, 'w) o_wrapper" where
  [wrapper_def]: "outside_closedir H dir = o_host_call H ''closedir'' [Word dir]"

definition outside_readdir :: "('f, 'w) host \<Rightarrow> u32 \<Rightarrow> ('f, 'w) o_wrapper" where
  [wrapper_def]: "outside_readdir H dir = o_host_call H ''readdir'' [Word dir]"

definition outside_fputc :: "('f, 'w) host \<Rightarrow> u32 \<Rightarrow> u32 \<Rightarrow> ('f, 'w) o_wrapper" where
  [wrapper_def]: "outside_fputc H c fi = o_with_stream fi (\<lambda>f. o_host_call H ''fputc'' [Word c, Stream f])"

definition outside_fputs :: "('f, 'w) host \<Rightarrow> u32 \<Rightarrow> u32 \<Rightarrow> ('f, 'w) o_wrapper" where
  [wrapper_def]: "outside_fputs H s fi = o_with_stream fi (\<lambda>f. o_host_call H ''fputs'' [Word s, Stream f])"

definition outside_fileno :: "('f, 'w) host \<Rightarrow> u32 \<Rightarrow> ('f, 'w) o_wrapper" where
  [wrapper_def]: "outside_fileno H fi = o_with_stream fi (\<lambda>f. o_host_call H ''fileno'' [Stream f])"

definition outside_vasprintf :: "('f, 'w) host \<Rightarrow> u32 \<Rightarrow> u32 \<Rightarrow> u32 \<Rightarrow> ('f, 'w) o_wrapper" where
  [wrapper_def]: "outside_vasprintf H strp fmt ap = o_host_call H ''vasprintf'' [Word strp, Word fmt, Word ap]"

definition outside_free :: "('f, 'w) host \<Rightarrow> u32 \<Rightarrow> ('f, 'w) o_wrapper" where
  [wrapper_def]: "outside_free H ptr = o_host_call H ''free'' [Word ptr]"

definition outside_vsnprintf :: "('f, 'w) host \<Rightarrow> u32 \<Rightarrow> u32 \<Rightarrow> u32 \<Rightarrow> u32 \<Rightarrow> ('f, 'w) o_wrapper" where
  [wrapper_def]: "outside_vsnprintf H str sz fmt ap = o_host_call H ''vsnprintf'' [Word str, Word sz, Word fmt, Word ap]"

definition outside_execv :: "('f, 'w) host \<Rightarrow> u32 \<Rightarrow> u32 \<Rightarrow> ('f, 'w) o_wrapper" where
  [wrapper_def]: "outside_execv H path argv = o_host_call H ''execv'' [Word path, Word argv]"

definition outside_vfscanf :: "('f, 'w) host \<Rightarrow> u32 \<Rightarrow> u32 \<Rightarrow> u32 \<Rightarrow> ('f, 'w) o_wrapper" where
  [wrapper_def]: "outside_vfscanf H fi fmt ap = o_with_stream fi (\<lambda>f. o_host_call H ''vfscanf'' [Stream f, Word fmt, Word ap])"

definition outside_isatty :: "('f, 'w) host \<Rightarrow> u32 \<Rightarrow> ('f, 'w) o_wrapper" where
  [wrapper_def]: "outside_isatty H fd = o_host_call H ''isatty'' [Word fd]"

definition outside_fgets :: "('f, 'w) host \<Rightarrow> u32 \<Rightarrow> u32 \<Rightarrow> u32 \<Rightarrow> ('f, 'w) o_wrapper" where
  [wrapper_def]: "outside_fgets H buf sz fi = o_with_stream fi (\<lambda>f. o_host_call H ''fgets'' [Word buf, Word sz, Stream f])"

definition outside_chdir :: "('f, 'w) host \<Rightarrow> u32 \<Rightarrow> ('f, 'w) o_wrapper" where
  [wrapper_def]: "outside_chdir H path = o_host_call H ''chdir'' [Word path]"

definition outside_chmod :: "('f, 'w) host \<Rightarrow> u32 \<Rightarrow> u32 \<Rightarrow> ('f, 'w) o_wrapper" where
  [wrapper_def]: "outside_chmod H path mode = o_host_call H ''chmod'' [Word path, Word mode]"

definition outside_dup2 :: "('f, 'w) host \<Rightarrow> u32 \<Rightarrow> u32 \<Rightarrow> ('f, 'w) o_wrapper" where
  [wrapper_def]: "outside_dup2 H oldfd newfd = o_host_call H ''dup2'' [Word oldfd, Word newfd]"

definition outside_dup :: "('f, 'w) host \<Rightarrow> u32 \<Rightarrow> ('f, 'w) o_wrapper" where
  [wrapper_def]: "outside_dup H oldfd = o_host_call H ''dup'' [Word oldfd]"

definition outside_execvp :: "('f, 'w) host \<Rightarrow> u32 \<Rightarrow> u32 \<Rightarrow> ('f, 'w) o_wrapper" where
  [wrapper_def]: "outside_execvp H path argv = o_host_call H ''execvp'' [Word path, Word argv]"

definition outside_fork :: "('f, 'w) host \<Rightarrow> ('f, 'w) o_wrapper" where
  [wrapper_def]: "outside_fork H = o_host_call H ''fork'' []"

definition outside_ftruncate :: "('f, 'w) host \<Rightarrow> u32 \<Rightarrow> u32 \<Rightarrow> ('f, 'w) o_wrapper" where
  [wrapper_def]: "outside_ftruncate H fd len = o_host_call H ''ftruncate'' [Word fd, Word len]"

definition outside_mkdir :: "('f, 'w) host \<Rightarrow> u32 \<Rightarrow> u32 \<Rightarrow> ('f, 'w) o_wrapper" where
  [wrapper_def]: "outside_mkdir H pathname mode = o_host_call H ''mkdir'' [Word pathname, Word mode]"

definition outside_rename :: "('f, 'w) host \<Rightarrow> u32 \<Rightarrow> u32 \<Rightarrow> ('f, 'w) o_wrapper" where
  [wrapper_def]: "outside_rename H oldpath newpath = o_host_call H ''rename'' [Word oldpath, Word newpath]"

definition outside_wait :: "('f, 'w) host \<Rightarrow> u32 \<Rightarrow> ('f, 'w) o_wrapper" where
  [wrapper_def]: "outside_wait H status = o_host_call H ''wait'' [Word status]"

definition outside_pipe :: "('f, 'w) host \<Rightarrow> u32 \<Rightarrow> ('f, 'w) o_wrapper" where
  [wrapper_def]: "outside_pipe H fds = o_host_call H ''pipe'' [Word fds]"

definition outside_rmdir :: "('f, 'w) host \<Rightarrow> u32 \<Rightarrow> ('f, 'w) o_wrapper" where
  [wrapper_def]: "outside_rmdir H path = o_host_call H ''rmdir'' [Word path]"

definition outside_select :: "('f, 'w) host \<Rightarrow> u32 \<Rightarrow> u32 \<Rightarrow> u32 \<Rightarrow> u32 \<Rightarrow> u32 \<Rightarrow> ('f, 'w) o_wrapper" where
  [wrapper_def]: "outside_select H n rfds wfds xfds tv = o_host_call H ''select'' [Word n, Word rfds, Word wfds, Word xfds, Word tv]"

definition outside_lstat :: "('f, 'w) host \<Rightarrow> u32 \<Rightarrow> u32 \<Rightarrow> ('f, 'w) o_wrapper" where
  [wrapper_def]: "outside_lstat H fname buf = o_host_call H ''lstat'' [Word fname, Word buf]"

definition outside_truncate :: "('f, 'w) host \<Rightarrow> u32 \<Rightarrow> u32 \<Rightarrow> ('f, 'w) o_wrapper" where
  [wrapper_def]: "outside_truncate H path len = o_host_call H ''truncate'' [Word path, Word len]"

definition outside_unlink :: "('f, 'w) host \<Rightarrow> u32 \<Rightarrow> ('f, 'w) o_wrapper" where
  [wrapper_def]: "outside_unlink H path = o_host_call H ''unlink'' [Word path]"

definition outside_write :: "('f, 'w) host \<Rightarrow> u32 \<Rightarrow> u32 \<Rightarrow> u32 \<Rightarrow> ('f, 'w) o_wrapper" where
  [wrapper_def]: "outside_write H fd buf count = o_host_call H ''write'' [Word fd, Word buf, Word count]"

definition outside_clearerr :: "('f, 'w) host \<Rightarrow> u32 \<Rightarrow> ('f, 'w) o_wrapper" where
  [wrapper_def]: "outside_clearerr H fi = o_with_stream fi (\<lambda>f. o_host_call H ''clearerr'' [Stream f])"

definition outside_feof :: "('f, 'w) host \<Rightarrow> u32 \<Rightarrow> ('f, 'w) o_wrapper" where
  [wrapper_def]: "outside_feof H fi = o_with_stream fi (\<lambda>f. o_host_call H ''feof'' [Stream f])"

definition outside_setbuf :: "('f, 'w) host \<Rightarrow> u32 \<Rightarrow> u32 \<Rightarrow> ('f, 'w) o_wrapper" where
  [wrapper_def]: "outside_setbuf H fi buf = o_with_stream fi (\<lambda>f. o_host_call H ''setbuf'' [Stream f, Word buf])"

section \<open>The stream table again\<close>

fun outside_open_stream :: "('f, 'w) host \<Rightarrow> open_arg \<Rightarrow> ('f, 'w) o_wrapper" where
  "outside_open_stream H (Fopen path mode) = outside_fopen H path mode"
| "outside_open_stream H (Fdopen fd mode) = outside_fdopen H fd mode"

fun outside_host_open :: "('f, 'w) host \<Rightarrow> open_arg \<Rightarrow> ('f, 'w) ort \<Rightarrow> 'f option" where
  "outside_host_open H (Fopen path mode) s = fst (h_open H ''fopen'' [Word path, Word mode] (o_world s))"
| "outside_host_open H (Fdopen fd mode) s = fst (h_open H ''fdopen'' [Word fd, Word mode] (o_world s))"

interpretation outside_streams: stream_table outside_files "outside_open_stream H" "outside_fclose H" "outside_host_open H"
  for H :: "('f, 'w) host"
proof
  fix s :: "('f, 'w) ort" and a f fi k
  note defs = outside_fopen_def outside_fdopen_def int_result_def Let_def
  show "outside_open_stream H a s = Halt Aborted"
    if "length (outside_files s) = max_files" "None \<notin> set (outside_files s)"
    using that free_slot_full [of "outside_files s"] by (cases a) (simp_all add: defs)
  show "\<exists>s'. outside_open_stream H a s = Return (ucast (of_nat (free_slot (outside_files s)) :: u32)) s' \<and>
      outside_files s' = (outside_files s)[free_slot (outside_files s) := Some f]"
    if "length (outside_files s) = max_files" "None \<in> set (outside_files s)" "outside_host_open H a s = Some f"
    using that free_slot_not_full [of "outside_files s" max_files]
    by (cases a) (auto simp: defs split: prod.splits)
  show "\<exists>s'. outside_open_stream H a s = Return (ucast (- 1 :: u32)) s' \<and> outside_files s' = outside_files s"
    if "length (outside_files s) = max_files" "None \<in> set (outside_files s)" "outside_host_open H a s = None"
    using that free_slot_not_full [of "outside_files s" max_files] list_update_None [of "outside_files s"]
    by (cases a) (auto simp: defs split: prod.splits)
  show "\<exists>r s'. outside_fclose H fi s = Return r s' \<and> outside_files s' = (outside_files s)[k := None]"
    if "slot_of (outside_files s) fi = Some k"
    using that by (auto simp: outside_fclose_def o_host_call_def split: prod.splits)
  show "outside_fclose H fi s = Halt (Out_of_bounds (sint fi))" if "slot_of (outside_files s) fi = None"
    using that by (simp add: outside_fclose_def)
qed

text \<open>The unsandboxed table behaves as the loader's: an index that an open returned is
  free before, and closing it gives the table back.\<close>

lemma outside_fopen_fclose:
  assumes "length (outside_files s) = max_files" and "outside_host_open H a s = Some f"
    and "outside_open_stream H a s = Return r s'"
  shows "\<exists>r' s''. outside_fclose H (ucast r) s' = Return r' s'' \<and> outside_files s'' = outside_files s"
  using assms by (intro outside_streams.open_close) (simp_all add: outside_streams.table_wf_def)

section \<open>The two builds agree\<close>

definition same_view :: "('f, 'w) rt \<Rightarrow> ('f, 'w) ort \<Rightarrow> bool" where
  "same_view s t \<longleftrightarrow> files s = outside_files t \<and> world s = o_world t"

text \<open>From states with the same table and the same host, two calls return the same result and
  end in such states, or stop the same way.\<close>

definition agrees :: "('f, 'w) wrapper \<Rightarrow> ('f, 'w) o_wrapper \<Rightarrow> bool" where
  "agrees wr ow \<longleftrightarrow> (\<forall>s t. same_view s t \<longrightarrow>
     (case (wr s, ow t) of
        (Return r s', Return r' t') \<Rightarrow> r = r' \<and> same_view s' t'
      | (Halt e, Halt e') \<Rightarrow> e = e'
      | _ \<Rightarrow> False))"

lemma agrees_call: "agrees (host_call H fn args) (o_host_call H fn args)"
  by (simp add: agrees_def same_view_def host_call_def o_host_call_def split: prod.splits)

lemma agrees_stream: "(\<And>f. agrees (k f) (k' f)) \<Longrightarrow> agrees (with_stream fi k) (o_with_stream fi k')"
  by (simp add: agrees_def same_view_def with_stream_def o_with_stream_def split: option.splits)

lemma agrees_open:
  "agrees (wrap_outside_fopen H path mode) (outside_fopen H path mode)"
  "agrees (wrap_outside_fdopen H fd mode) (outside_fdopen H fd mode)"
  by (simp_all add: agrees_def same_view_def wrap_outside_fopen_def outside_fopen_def
      wrap_outside_fdopen_def outside_fdopen_def Let_def split: prod.splits)

lemma agrees_close: "agrees (wrap_outside_fclose H fi) (outside_fclose H fi)"
  by (simp add: agrees_def same_view_def wrap_outside_fclose_def outside_fclose_def host_call_def
      o_host_call_def split: prod.splits option.splits)

lemma agrees_errno: "agrees (wrap_outside_errno H) (outside_errno H)"
  by (simp add: agrees_def same_view_def wrap_outside_errno_def outside_errno_def)

lemma agrees_stat:
  "agrees (wrap_outside_stat H a b) (outside_stat H a b)"
  "agrees (wrap_outside_fstat H a b) (outside_fstat H a b)"
  by (simp_all add: agrees_def same_view_def wrap_outside_stat_def outside_stat_def wrap_outside_fstat_def
      outside_fstat_def stat_into_def o_stat_into_def Let_def split: prod.splits)

lemmas agrees_intros = agrees_call agrees_stream agrees_open agrees_close agrees_errno agrees_stat

text \<open>The functions of \<^verbatim>\<open>outside.c\<close> other than \<^verbatim>\<open>execv\<close> and \<^verbatim>\<open>lstat\<close> agree with the loader's wrappers of
  the same name: same result, same stream table, same calls of the host. The status buffers that
  \<^verbatim>\<open>stat\<close> and \<^verbatim>\<open>fstat\<close> fill have a different layout in the two files and are not compared.\<close>

lemma builds_agree:
  "agrees (wrap_outside_fopen H path mode) (outside_fopen H path mode) \<and>
   agrees (wrap_outside_fdopen H fd mode) (outside_fdopen H fd mode) \<and>
   agrees (wrap_outside_fclose H fi) (outside_fclose H fi) \<and>
   agrees (wrap_outside_errno H) (outside_errno H) \<and>
   agrees (wrap_outside_stat H fname in_buf) (outside_stat H fname in_buf) \<and>
   agrees (wrap_outside_fstat H fd in_buf) (outside_fstat H fd in_buf) \<and>
   agrees (wrap_outside_ferror H fi) (outside_ferror H fi) \<and>
   agrees (wrap_outside_fflush H fi) (outside_fflush H fi) \<and>
   agrees (wrap_outside_fgetc H fi) (outside_fgetc H fi) \<and>
   agrees (wrap_outside_vfprintf H fi fmt ap) (outside_vfprintf H fi fmt ap) \<and>
   agrees (wrap_outside_fread H ptr sz num fi) (outside_fread H ptr sz num fi) \<and>
   agrees (wrap_outside_fwrite H ptr sz num fi) (outside_fwrite H ptr sz num fi) \<and>
   agrees (wrap_outside_rewind H fi) (outside_rewind H fi) \<and>
   agrees (wrap_outside_ungetc H c fi) (outside_ungetc H c fi) \<and>
   agrees (wrap_outside_getenv H nm) (outside_getenv H nm) \<and>
   agrees (wrap_outside_access H pathname mode) (outside_access H pathname mode) \<and>
   agrees (wrap_outside_close H fd) (outside_close H fd) \<and>
   agrees (wrap_outside_fseek H fi off whence) (outside_fseek H fi off whence) \<and>
   agrees (wrap_outside_ftell H fi) (outside_ftell H fi) \<and>
   agrees (wrap_outside_lseek H fd off whence) (outside_lseek H fd off whence) \<and>
   agrees (wrap_outside_open H pathname flags mode) (outside_open H pathname flags mode) \<and>
   agrees (wrap_outside_read H fd buf count) (outside_read H fd buf count) \<and>
   agrees (wrap_outside_times H buf) (outside_times H buf) \<and>
   agrees (wrap_outside_opendir H nm) (outside_opendir H nm) \<and>
   agrees (wrap_outside_closedir H dir) (outside_closedir H dir) \<and>
   agrees (wrap_outside_readdir H dir) (outside_readdir H dir) \<and>
   agrees (wrap_outside_fputc H c fi) (outside_fputc H c fi) \<and>
   agrees (wrap_outside_fputs H s fi) (outside_fputs H s fi) \<and>
   agrees (wrap_outside_fileno H fi) (outside_fileno H fi) \<and>
   agrees (wrap_outside_vasprintf H strp fmt ap) (outside_vasprintf H strp fmt ap) \<and>
   agrees (wrap_outside_free H ptr) (outside_free H ptr) \<and>
   agrees (wrap_outside_vsnprintf H str sz fmt ap) (outside_vsnprintf H str sz fmt ap) \<and>
   agrees (wrap_outside_vfscanf H fi fmt ap) (outside_vfscanf H fi fmt ap) \<and>
   agrees (wrap_outside_isatty H fd) (outside_isatty H fd) \<and>
   agrees (wrap_outside_fgets H buf sz fi) (outside_fgets H buf sz fi) \<and>
   agrees (wrap_outside_chdir H path) (outside_chdir H path) \<and>
   agrees (wrap_outside_chmod H path mode) (outside_chmod H path mode) \<and>
   agrees (wrap_outside_dup2 H oldfd newfd) (outside_dup2 H oldfd newfd) \<and>
   agrees (wrap_outside_dup H oldfd) (outside_dup H oldfd) \<and>
   agrees (wrap_outside_execvp H path argv) (outside_execvp H path argv) \<and>
   agrees (wrap_outside_fork H) (outside_fork H) \<and>
   agrees (wrap_outside_ftruncate H fd len) (outside_ftruncate H fd len) \<and>
   agrees (wrap_outside_mkdir H pathname mode) (outside_mkdir H pathname mode) \<and>
   agrees (wrap_outside_rename H oldpath newpath) (outside_rename H oldpath newpath) \<and>
   agrees (wrap_outside_wait H status) (outside_wait H status) \<and>
   agrees (wrap_outside_pipe H fds) (outside_pipe H fds) \<and>
   agrees (wrap_outside_rmdir H path) (outside_rmdir H path) \<and>
   agrees (wrap_outside_select H n rfds wfds xfds tv) (outside_select H n rfds wfds xfds tv) \<and>
   agrees (wrap_outside_truncate H path len) (outside_truncate H path len) \<and>
   agrees (wrap_outside_unlink H path) (outside_unlink H path) \<and>
   agrees (wrap_outside_write H fd buf count) (outside_write H fd buf count) \<and>
   agrees (wrap_outside_clearerr H fi) (outside_clearerr H fi) \<and>
   agrees (wrap_outside_feof H fi) (outside_feof H fi) \<and>
   agrees (wrap_outside_setbuf H fi buf) (outside_setbuf H fi buf)"
  unfolding wrapper_def by (intro conjI agrees_intros)

text \<open>\<^verbatim>\<open>execv\<close> does not: the loader's version searches the path, as \<^verbatim>\<open>execvp\<close> does.\<close>

lemma execv_differs:
  assumes "h_call H ''execv'' args w \<noteq> h_call H ''execvp'' args w" and "args = [Word path, Word argv]"
    and "same_view s t" and "world s = w"
  shows "wrap_outside_execv H path argv s = Return r s' \<Longrightarrow> outside_execv H path argv t = Return r' t' \<Longrightarrow>
    (r, world s') \<noteq> (r', o_world t')"
  using assms by (auto simp: wrapper_def same_view_def host_call_def o_host_call_def split: prod.splits)

end
