(* ===== verification/SFI_Strings.thy ===== *)
theory SFI_Strings
  imports SFI_Cstring
begin

text \<open>
  What the string functions compute, in terms of the strings stored in memory (\<open>cstr\<close>).
\<close>

section \<open>Stored strings\<close>

fun cstr :: "mem \<Rightarrow> addr \<Rightarrow> byte list \<Rightarrow> bool" where
  "cstr m s [] \<longleftrightarrow> m s = 0"
| "cstr m s (x # xs) \<longleftrightarrow> m s = x \<and> x \<noteq> 0 \<and> cstr m (s + 1) xs"

lemma cstr_unique: "cstr m s xs \<Longrightarrow> cstr m s ys \<Longrightarrow> xs = ys"
proof (induction xs arbitrary: s ys)
  case Nil
  then show ?case by (cases ys) auto
next
  case (Cons x xs)
  then show ?case by (cases ys) auto
qed

lemma cstr_nth: "cstr m s xs \<Longrightarrow> i < length xs \<Longrightarrow> m (s + of_nat i) = xs ! i"
proof (induction xs arbitrary: s i)
  case (Cons x xs)
  then show ?case using Cons.IH [of "s + 1" "i - 1"] by (cases i) (simp_all add: algebra_simps)
qed simp

lemma cstr_end: "cstr m s xs \<Longrightarrow> m (s + of_nat (length xs)) = 0"
proof (induction xs arbitrary: s)
  case (Cons x xs)
  then show ?case using Cons.IH [of "s + 1"] by (simp add: add.assoc)
qed simp

lemma cstr_nonzero: "cstr m s xs \<Longrightarrow> 0 \<notin> set xs"
  by (induction xs arbitrary: s) auto

lemma cstr_length: "cstr m s xs \<Longrightarrow> length xs < 2 ^ 32"
proof (rule ccontr)
  assume c: "cstr m s xs" and "\<not> length xs < 2 ^ 32"
  then have l: "length xs - 2 ^ 32 < length xs" "2 ^ 32 \<le> length xs" by simp_all
  have "(of_nat (length xs - 2 ^ 32) :: u32) = of_nat (length xs) - of_nat (2 ^ 32)"
    using l(2) by (rule of_nat_diff)
  also have "(of_nat (2 ^ 32) :: u32) = 0" by simp
  finally have "m (s + of_nat (length xs)) = m (s + of_nat (length xs - 2 ^ 32))" by simp
  then have "xs ! (length xs - 2 ^ 32) = 0" using cstr_end [OF c] cstr_nth [OF c l(1)] by simp
  then show False using cstr_nonzero [OF c] nth_mem [OF l(1)] by simp
qed

text \<open>A string is stored at an address iff there is a zero somewhere after it.\<close>

lemma cstr_cong: "cstr m s xs \<Longrightarrow> (\<And>i. i \<le> length xs \<Longrightarrow> m' (s + of_nat i) = m (s + of_nat i)) \<Longrightarrow> cstr m' s xs"
proof (induction xs arbitrary: s)
  case Nil
  from Nil(2) [of 0] show ?case using Nil(1) by simp
next
  case (Cons x xs)
  from Cons(3) [of 0] have "m' s = m s" by simp
  moreover have "cstr m' (s + 1) xs"
  proof (rule Cons(1))
    show "cstr m (s + 1) xs" using Cons(2) by simp
    show "m' (s + 1 + of_nat i) = m (s + 1 + of_nat i)" if "i \<le> length xs" for i
      using Cons(3) [of "Suc i"] that by (simp add: algebra_simps)
  qed
  ultimately show ?case using Cons(2) by simp
qed

lemma cstrI:
  assumes "0 \<notin> set xs" "\<And>i. i < length xs \<Longrightarrow> m (s + of_nat i) = xs ! i" "m (s + of_nat (length xs)) = 0"
  shows "cstr m s xs"
proof -
  have "cstr m (s + of_nat k) (drop k xs)" if "k \<le> length xs" for k
    using that
  proof (induction rule: inc_induct)
    case base
    then show ?case using assms(3) by simp
  next
    case (step k)
    then have "drop k xs = xs ! k # drop (Suc k) xs" by (simp add: Cons_nth_drop_Suc)
    moreover have "xs ! k \<noteq> 0" using assms(1) step(2) nth_mem [of k xs] by metis
    ultimately show ?case using step assms(2) [of k] by (simp add: algebra_simps)
  qed
  from this [of 0] show ?thesis by simp
qed

lemma cstr_write:
  assumes "0 \<notin> set xs" "length xs < 2 ^ 32"
  shows "cstr (write_bytes s (xs @ [0]) m) s xs"
proof -
  have "write_bytes s (xs @ [0]) m (s + of_nat i) = (xs @ [0]) ! i" if "i \<le> length xs" for i
    using that assms(2) by (intro write_bytes_nth) simp_all
  then show ?thesis using assms(1) by (intro cstrI) (simp_all add: nth_append)
qed

section \<open>Functions that read strings\<close>

lemma strlen_from_cstr: "cstr m s xs \<Longrightarrow> strlen_from m s i = Some (i + of_nat (length xs))"
  by (induction xs arbitrary: s i) (simp_all add: strlen_from.simps algebra_simps)

lemma strlen_cstr: "cstr m s xs \<Longrightarrow> strlen m s = Some (of_nat (length xs))"
  by (simp add: strlen_def strlen_from_cstr)

lemma strlen_from_returns:
  assumes "strlen_from m s i = Some n"
  shows "\<exists>xs. cstr m s xs"
proof (rule strlen_from.raw_induct [where P = "\<lambda>m s i n. \<exists>xs. cstr m s xs", OF _ assms])
  fix f m s i n
  assume IH: "\<And>m s i y. f m s i = Some y \<Longrightarrow> \<exists>xs. cstr m s xs"
    and e: "(if m s = 0 then Some i else f m (s + 1) (i + 1)) = Some n"
  show "\<exists>xs. cstr m s xs"
  proof (cases "m s = 0")
    case True
    then show ?thesis by (intro exI [of _ "[]"]) simp
  next
    case False
    then have "f m (s + 1) (i + 1) = Some n" using e by simp
    from IH [OF this] obtain xs where "cstr m (s + 1) xs" by blast
    then show ?thesis using False by (intro exI [of _ "m s # xs"]) simp
  qed
qed

fun cmp_list :: "byte list \<Rightarrow> byte list \<Rightarrow> int" where
  "cmp_list [] [] = 0"
| "cmp_list [] (y # ys) = - chr y"
| "cmp_list (x # xs) [] = chr x"
| "cmp_list (x # xs) (y # ys) = (if x = y then cmp_list xs ys else chr x - chr y)"

lemma chr_eq [simp]: "chr a = chr b \<longleftrightarrow> a = b" "chr 0 = 0" "chr a = 0 \<longleftrightarrow> a = 0"
  by (auto simp: chr_def signed_eq_0_iff intro: signed_word_eqI)

lemma cmp_list_0: "0 \<notin> set xs \<Longrightarrow> 0 \<notin> set ys \<Longrightarrow> cmp_list xs ys = 0 \<longleftrightarrow> xs = ys"
  by (induction xs ys rule: cmp_list.induct) auto

lemma strcmp_cstr: "cstr m a xs \<Longrightarrow> cstr m b ys \<Longrightarrow> strcmp m a b = Some (cmp_list xs ys)"
proof (induction xs ys arbitrary: a b rule: cmp_list.induct)
  case (4 x xs y ys)
  then show ?case by (cases "x = y") (simp_all add: strcmp.simps [of m a b])
qed (simp_all add: strcmp.simps)

lemma span_from_cstr:
  "cstr m s xs \<Longrightarrow> span_from m P True s n = Some (n + of_nat (length (takeWhile P xs)))"
proof (induction xs arbitrary: s n)
  case (Cons x xs)
  show ?case
  proof (cases "P x")
    case True
    then show ?thesis using Cons by (simp add: span_from.simps [of m P True s] algebra_simps)
  next
    case False
    then show ?thesis using Cons(2) by (simp add: span_from.simps [of m P True s] span_from.simps [of m P False])
  qed
qed (simp add: span_from.simps)

lemma in_charset_cstr:
  assumes "cstr m cs ys" "length ys < 2 ^ 31"
  shows "in_charset m cs (of_nat (length ys)) = (\<lambda>c. c \<in> set ys)"
proof (rule ext)
  fix c
  have "sint (word_of_int (int (length ys)) :: u32) = int (length ys)"
    using assms(2) by (simp only: int_word_sint) simp
  then have "nat (sint (of_nat (length ys) :: u32)) = length ys" by simp
  then show "in_charset m cs (of_nat (length ys)) c = (c \<in> set ys)"
    using cstr_nth [OF assms(1)] by (auto simp: in_charset_def list_ex_iff in_set_conv_nth)
qed

lemma strspn_cstr:
  "cstr m s xs \<Longrightarrow> cstr m cs ys \<Longrightarrow> length ys < 2 ^ 31 \<Longrightarrow>
     strspn m s cs = Some (of_nat (length (takeWhile (\<lambda>c. c \<in> set ys) xs)))"
  by (simp add: strspn_def strlen_cstr span_from_cstr in_charset_cstr)

lemma strcspn_cstr:
  "cstr m s xs \<Longrightarrow> cstr m cs ys \<Longrightarrow> length ys < 2 ^ 31 \<Longrightarrow>
     strcspn m s cs = Some (of_nat (length (takeWhile (\<lambda>c. c \<notin> set ys) xs)))"
  by (simp add: strcspn_def strlen_cstr span_from_cstr in_charset_cstr)

lemma cstr_drop: "cstr m s xs \<Longrightarrow> k \<le> length xs \<Longrightarrow> cstr m (s + of_nat k) (drop k xs)"
proof (induction k)
  case (Suc k)
  then have "drop k xs = xs ! k # drop (Suc k) xs" by (simp add: Cons_nth_drop_Suc)
  then show ?case using Suc by (simp add: algebra_simps)
qed simp


section \<open>Functions that write\<close>

text \<open>Two ranges of addresses that do not meet.\<close>

definition disjoint_ranges :: "addr \<Rightarrow> nat \<Rightarrow> addr \<Rightarrow> nat \<Rightarrow> bool" where
  "disjoint_ranges a n b k \<longleftrightarrow> (\<forall>i < n. \<forall>j < k. a + of_nat i \<noteq> b + of_nat j)"

lemma disjoint_ranges_tl:
  "disjoint_ranges a (Suc n) b (Suc k) \<Longrightarrow> disjoint_ranges (a + 1) n (b + 1) k"
  unfolding disjoint_ranges_def
proof (intro allI impI)
  fix i j assume d: "\<forall>i < Suc n. \<forall>j < Suc k. a + of_nat i \<noteq> b + of_nat j" and "i < n" "j < k"
  then have "a + of_nat (Suc i) \<noteq> b + of_nat (Suc j)" by blast
  then show "a + 1 + of_nat i \<noteq> b + 1 + of_nat j" by (simp add: add.assoc)
qed

text \<open>Writing in front of a disjoint string leaves it alone.\<close>

lemma cstr_upd: "cstr m s xs \<Longrightarrow> (\<And>i. i \<le> length xs \<Longrightarrow> s + of_nat i \<noteq> p) \<Longrightarrow> cstr (m(p := b)) s xs"
  by (erule cstr_cong) simp

lemma strcpy_from_step: "strcpy_from p src m =
    (if m src = 0 then Some (m(p := 0)) else strcpy_from (p + 1) (src + 1) (m(p := m src)))"
  by (subst strcpy_from.simps) (rule refl)

lemma strcpy_from_cstr:
  "cstr m s xs \<Longrightarrow> disjoint_ranges p (length xs + 1) s (length xs + 1) \<Longrightarrow>
     strcpy_from p s m = Some (write_bytes p (xs @ [0]) m)"
proof (induction xs arbitrary: p s m)
  case Nil
  then show ?case by (subst strcpy_from_step) simp
next
  case (Cons x xs)
  have "p \<noteq> s + of_nat i" if "i \<le> length xs + 1" for i
  proof -
    have "p + of_nat 0 \<noteq> s + of_nat i" using Cons(3)[unfolded disjoint_ranges_def, rule_format, of 0 i] that by simp
    then show ?thesis by simp
  qed
  then have "s + 1 + of_nat i \<noteq> p" if "i \<le> length xs" for i
    using that spec [of "\<lambda>i. i \<le> length xs + 1 \<longrightarrow> p \<noteq> s + of_nat i" "Suc i"] by (auto simp: add.assoc)
  then have "cstr (m(p := x)) (s + 1) xs" using Cons(2) by (intro cstr_upd) auto
  moreover have "disjoint_ranges (p + 1) (length xs + 1) (s + 1) (length xs + 1)"
    using Cons(3) disjoint_ranges_tl by simp
  ultimately have "strcpy_from (p + 1) (s + 1) (m(p := x)) = Some (write_bytes (p + 1) (xs @ [0]) (m(p := x)))"
    by (rule Cons(1))
  then show ?case using Cons(2) by (subst strcpy_from_step) simp
qed

lemma copy_byte_apply: "copy_byte d s i m x = (if x = d + of_nat i then m (s + of_nat i) else m x)"
  by (simp add: copy_byte_def)

lemma fold_copy_up:
  assumes "\<And>i j. i < j \<Longrightarrow> j < n \<Longrightarrow> d + of_nat i \<noteq> s + of_nat j"
    and "n \<le> 2 ^ 32"
  shows "i < n \<Longrightarrow> fold (copy_byte d s) [0..<n] m (d + of_nat i) = m (s + of_nat i)"
    and "\<not> in_range d n x \<Longrightarrow> fold (copy_byte d s) [0..<n] m x = m x"
proof -
  have inj: "of_nat i \<noteq> (of_nat j :: u32)" if "i < j" "j < n" for i j
    using that assms(2) by (simp add: word_of_nat_eq_iff take_bit_nat_eq_self)
  have "(\<forall>i < k. fold (copy_byte d s) [0..<k] m (d + of_nat i) = m (s + of_nat i)) \<and>
     (\<forall>x. (\<forall>i < k. x \<noteq> d + of_nat i) \<longrightarrow> fold (copy_byte d s) [0..<k] m x = m x)" if "k \<le> n" for k
    using that
  proof (induction k)
    case (Suc k)
    define f where "f = fold (copy_byte d s) [0..<k] m"
    have f: "f (d + of_nat i) = m (s + of_nat i)" if "i < k" for i using Suc that by (simp add: f_def)
    have g: "f x = m x" if "\<And>i. i < k \<Longrightarrow> x \<noteq> d + of_nat i" for x using Suc that by (simp add: f_def)
    have sk: "f (s + of_nat k) = m (s + of_nat k)"
      by (rule g) (use Suc(2) assms(1) [of _ k] in force)
    have ne: "d + of_nat i \<noteq> d + of_nat k" if "i < k" for i
      using inj [of i k] that Suc(2) by simp
    have e: "fold (copy_byte d s) [0..<Suc k] m x = (if x = d + of_nat k then m (s + of_nat k) else f x)" for x
      by (simp add: f_def [symmetric] copy_byte_apply sk)
    show ?case unfolding e using f g ne by (simp add: less_Suc_eq)
  qed simp
  from this [of n] show "i < n \<Longrightarrow> fold (copy_byte d s) [0..<n] m (d + of_nat i) = m (s + of_nat i)"
    "\<not> in_range d n x \<Longrightarrow> fold (copy_byte d s) [0..<n] m x = m x"
    using in_range_iff [OF assms(2)] by auto
qed


lemma fold_copy_down:
  assumes "\<And>i j. j < i \<Longrightarrow> i < n \<Longrightarrow> d + of_nat i \<noteq> s + of_nat j"
    and "n \<le> 2 ^ 32"
  shows "i < n \<Longrightarrow> fold (copy_byte d s) (rev [0..<n]) m (d + of_nat i) = m (s + of_nat i)"
    and "\<not> in_range d n x \<Longrightarrow> fold (copy_byte d s) (rev [0..<n]) m x = m x"
proof -
  have inj: "of_nat i \<noteq> (of_nat j :: u32)" if "j < i" "i < n" for i j
    using that assms(2) by (simp add: word_of_nat_eq_iff take_bit_nat_eq_self)
  have "(\<forall>i. k \<le> i \<longrightarrow> i < n \<longrightarrow> foldr (copy_byte d s) [k..<n] m (d + of_nat i) = m (s + of_nat i)) \<and>
     (\<forall>x. (\<forall>i. k \<le> i \<longrightarrow> i < n \<longrightarrow> x \<noteq> d + of_nat i) \<longrightarrow> foldr (copy_byte d s) [k..<n] m x = m x)" if "k \<le> n" for k
    using that
  proof (induction rule: inc_induct)
    case (step k)
    define f where "f = foldr (copy_byte d s) [Suc k..<n] m"
    have f: "f (d + of_nat i) = m (s + of_nat i)" if "Suc k \<le> i" "i < n" for i using step that by (simp add: f_def)
    have g: "f x = m x" if "\<And>i. Suc k \<le> i \<Longrightarrow> i < n \<Longrightarrow> x \<noteq> d + of_nat i" for x
      using step that by (simp add: f_def)
    have sk: "f (s + of_nat k) = m (s + of_nat k)"
      by (rule g) (metis assms(1) Suc_le_lessD)
    have ne: "d + of_nat i \<noteq> d + of_nat k" if "Suc k \<le> i" "i < n" for i
      using inj [of k i] that by simp
    have e: "foldr (copy_byte d s) [k..<n] m x = (if x = d + of_nat k then m (s + of_nat k) else f x)" for x
      using step(2) by (simp add: upt_conv_Cons f_def [symmetric] copy_byte_apply sk)
    show ?case unfolding e
    proof (intro conjI allI impI)
      fix i assume "k \<le> i" "i < n"
      then show "(if d + of_nat i = d + of_nat k then m (s + of_nat k) else f (d + of_nat i)) = m (s + of_nat i)"
        using f [of i] ne [of i] by (cases "i = k") auto
    next
      fix x assume x: "\<forall>i. k \<le> i \<longrightarrow> i < n \<longrightarrow> x \<noteq> d + of_nat i"
      then have "x \<noteq> d + of_nat k" using step(2) by auto
      moreover have "f x = m x" by (rule g) (use x in auto)
      ultimately show "(if x = d + of_nat k then m (s + of_nat k) else f x) = m x" by simp
    qed
  qed simp
  from this [of 0] show "i < n \<Longrightarrow> fold (copy_byte d s) (rev [0..<n]) m (d + of_nat i) = m (s + of_nat i)"
    "\<not> in_range d n x \<Longrightarrow> fold (copy_byte d s) (rev [0..<n]) m x = m x"
    using in_range_iff [OF assms(2)] by (auto simp: foldr_conv_fold)
qed

lemma unat_offset: "unat a + n \<le> 2 ^ 32 \<Longrightarrow> i < n \<Longrightarrow> unat (a + of_nat i :: u32) = unat a + i"
  by (simp add: unat_word_ariths unsigned_of_nat take_bit_nat_eq_self)

text \<open>Claim C32. \<^verbatim>\<open>memmove\<close> copies: afterwards the destination holds what the source held before, also
  when the two overlap, and no other byte changed.\<close>

theorem memmove_copies:
  assumes "unat d + unat n \<le> 2 ^ 32" and "unat s + unat n \<le> 2 ^ 32"
  shows "fst (memmove d s n m) = d \<and>
    (\<forall>i < unat n. snd (memmove d s n m) (d + of_nat i) = m (s + of_nat i)) \<and>
    (\<forall>x. \<not> in_range d (unat n) x \<longrightarrow> snd (memmove d s n m) x = m x)"
proof -
  have n: "unat n \<le> 2 ^ 32" using assms(1) by simp
  note u = unat_offset [OF assms(1)] unat_offset [OF assms(2)]
  show ?thesis
  proof (cases "d < s")
    case True
    have "d + of_nat i \<noteq> s + of_nat j" if "i < j" "j < unat n" for i j
    proof
      assume "d + of_nat i = s + of_nat j"
      then have "unat (d + of_nat i) = unat (s + of_nat j)" by simp
      then show False using u(1) [of i] u(2) [of j] that True by (simp add: word_less_nat_alt)
    qed
    then show ?thesis using fold_copy_up [OF _ n, of d s] True by (simp add: memmove_def)
  next
    case False
    have "d + of_nat i \<noteq> s + of_nat j" if "j < i" "i < unat n" for i j
    proof
      assume "d + of_nat i = s + of_nat j"
      then have "unat (d + of_nat i) = unat (s + of_nat j)" by simp
      then show False using u(1) [of i] u(2) [of j] that False by (simp add: word_less_nat_alt)
    qed
    then show ?thesis using fold_copy_down [OF _ n, of d s] False by (simp add: memmove_def)
  qed
qed

theorem memmove_copies_witness:
  "snd (memmove 0x11 0x10 3 (\<lambda>a. ucast a)) 0x13 = 0x12"
  using memmove_copies [of "0x11" 3 "0x10" "\<lambda>a. ucast a"]
  by (auto dest: spec [of _ "2 :: nat"])

text \<open>Claim C33. \<^verbatim>\<open>strlen\<close> returns exactly when a string is stored at the address, and then its length;
  \<^verbatim>\<open>strcmp\<close> returns, and returns zero, exactly for equal strings.\<close>

theorem strlen_strcmp_spec:
  "((\<exists>n. strlen m s = Some n) \<longleftrightarrow> (\<exists>xs. cstr m s xs)) \<and>
   (\<forall>xs. cstr m s xs \<longrightarrow> strlen m s = Some (of_nat (length xs)) \<and> length xs < 2 ^ 32) \<and>
   (\<forall>xs ys. cstr m s xs \<and> cstr m t ys \<longrightarrow>
      (\<exists>r. strcmp m s t = Some r \<and> (r = 0 \<longleftrightarrow> xs = ys)))"
  using strlen_cstr strlen_from_returns cstr_length strcmp_cstr cmp_list_0 cstr_nonzero
  by (auto simp: strlen_def)

text \<open>A memory with the string ``hi'' in it.\<close>

definition fx_hi :: mem where
  "fx_hi = write_bytes 0x20 ([104, 105] @ [0]) (\<lambda>_. 7)"

lemma fx_hi: "cstr fx_hi 0x20 [104, 105]"
  unfolding fx_hi_def by (rule cstr_write) simp_all

theorem strlen_strcmp_spec_witness: "strlen fx_hi 0x20 = Some 2"
  using strlen_strcmp_spec [of fx_hi "0x20" "0x20"] fx_hi by fastforce

lemma strcpy_spec:
  assumes "cstr m s xs" and "disjoint_ranges buf (length xs + 1) s (length xs + 1)"
  shows "\<exists>m'. strcpy buf s m = Some (buf, m') \<and> cstr m' buf xs \<and> cstr m' s xs \<and>
    (\<forall>x. \<not> in_range buf (length xs + 1) x \<longrightarrow> m' x = m x)"
proof -
  let ?m = "write_bytes buf (xs @ [0]) m"
  have l: "length (xs @ [0]) \<le> 2 ^ 32" using cstr_length [OF assms(1)] by simp
  have other: "?m x = m x" if "\<not> in_range buf (length xs + 1) x" for x
    using write_bytes_other [OF l, of buf x m] that by simp
  have "\<not> in_range buf (length xs + 1) (s + of_nat i)" if "i \<le> length xs" for i
  proof
    assume "in_range buf (length xs + 1) (s + of_nat i)"
    then obtain k where "k < length xs + 1" "s + of_nat i = buf + of_nat k"
      using in_range_iff [of "length xs + 1" buf] l by auto
    moreover have "i < length xs + 1" using that by simp
    ultimately show False using assms(2) unfolding disjoint_ranges_def by metis
  qed
  then have "cstr ?m s xs" using other by (intro cstr_cong [OF assms(1)]) simp
  moreover have "cstr ?m buf xs" using cstr_write cstr_nonzero [OF assms(1)] cstr_length [OF assms(1)] by blast
  ultimately show ?thesis using strcpy_from_cstr [OF assms] other by (simp add: strcpy_def)
qed

text \<open>Claim C34. \<^verbatim>\<open>strcpy\<close> to a place that does not overlap the source writes the string with its
  terminator there, changes nothing else, and leaves the source readable.\<close>

theorem strcpy_copies:
  assumes "cstr m s xs" and "disjoint_ranges buf (length xs + 1) s (length xs + 1)"
  shows "\<exists>m'. strcpy buf s m = Some (buf, m') \<and> cstr m' buf xs \<and> cstr m' s xs \<and>
    (\<forall>x. \<not> in_range buf (length xs + 1) x \<longrightarrow> m' x = m x)"
  by (rule strcpy_spec [OF assms])

theorem strcpy_copies_witness:
  "\<exists>m'. strcpy 0x40 0x20 fx_hi = Some (0x40, m') \<and> cstr m' 0x40 [104, 105]"
proof -
  have "disjoint_ranges 0x40 (length [104 :: byte, 105] + 1) 0x20 (length [104 :: byte, 105] + 1)"
    by (simp add: disjoint_ranges_def less_Suc_eq numeral_3_eq_3)
  from strcpy_copies [OF fx_hi this] show ?thesis by blast
qed

section \<open>Tokens\<close>

lemma of_nat_offset_neq: "i < j \<Longrightarrow> j < 2 ^ 32 \<Longrightarrow> a + of_nat i \<noteq> (a + of_nat j :: u32)"
  by (simp add: word_of_nat_eq_iff take_bit_nat_eq_self)

lemma cstr_cut:
  assumes "cstr m a (xs @ ys)"
  shows "cstr (m(a + of_nat (length xs) := 0)) a xs"
proof (rule cstrI)
  show "0 \<notin> set xs" using cstr_nonzero [OF assms] by simp
  show "(m(a + of_nat (length xs) := 0)) (a + of_nat i) = xs ! i" if "i < length xs" for i
    using that cstr_nth [OF assms, of i] cstr_length [OF assms] of_nat_offset_neq [of i "length xs" a]
    by (simp add: nth_append)
qed simp

text \<open>Claim C31. A call of \<^verbatim>\<open>strtok\<close> on a string skips the leading delimiters. With nothing left it
  returns null; otherwise it returns the address of the next token, cut off as a string of its
  own, and the saved position is where the rest of the string is stored.\<close>

theorem strtok_token:
  assumes "cstr m s (pre @ token @ more)" and "cstr m delim ys" and "length ys < 2 ^ 31" and "s \<noteq> 0"
    and "set pre \<subseteq> set ys" and "set token \<inter> set ys = {}"
    and "more = [] \<or> token \<noteq> [] \<and> hd more \<in> set ys"
  shows "\<exists>q m'. strtok s delim (saved, m) =
        Some (if token = [] then 0 else s + of_nat (length pre), q, m') \<and>
      cstr m' q (tl more) \<and> (token \<noteq> [] \<longrightarrow> cstr m' (s + of_nat (length pre)) token) \<and>
      (\<forall>x. x \<noteq> s + of_nat (length pre) + of_nat (length token) \<longrightarrow> m' x = m x)"
proof -
  let ?a = "s + of_nat (length pre)" and ?b = "s + of_nat (length pre) + of_nat (length token)"
  have r: "cstr m ?a (token @ more)" using cstr_drop [OF assms(1), of "length pre"] by simp
  have mo: "cstr m ?b more" using cstr_drop [OF r, of "length token"] by simp
  have "takeWhile (\<lambda>c. c \<in> set ys) (pre @ token @ more) = pre"
    using assms(5-7) by (cases token; cases more) (auto simp: takeWhile_append)
  then have s1: "strspn m s delim = Some (of_nat (length pre))" using strspn_cstr [OF assms(1-3)] by simp
  have "takeWhile (\<lambda>c. c \<notin> set ys) (token @ more) = token"
    using assms(6,7) by (cases more) (auto simp: takeWhile_append)
  then have s2: "strcspn m ?a delim = Some (of_nat (length token))" using strcspn_cstr [OF r assms(2,3)] by simp
  show ?thesis
  proof (cases "token = []")
    case True
    then have "more = []" "m ?a = 0" using assms(7) r by auto
    then show ?thesis using True s1 assms(4) by (simp add: strtok_def strtok_r_def)
  next
    case False
    then have "m ?a \<noteq> 0" using r by (cases token) auto
    then have res: "strtok s delim (saved, m) =
        (if m ?b \<noteq> 0 then Some (?a, ?b + 1, m(?b := 0)) else Some (?a, ?b, m))"
      using s1 s2 assms(4) by (simp add: strtok_def strtok_r_def Let_def)
    show ?thesis
    proof (cases more)
      case Nil
      then show ?thesis using res mo r False by (simp add: False)
    next
      case (Cons c cs)
      then have c: "m ?b \<noteq> 0" "cstr m (?b + 1) cs" using mo by auto
      have "?b + of_nat 0 \<noteq> ?b + of_nat (Suc i)" if "i \<le> length cs" for i
        using that cstr_length [OF mo] Cons by (intro of_nat_offset_neq) simp_all
      then have "cstr (m(?b := 0)) (?b + 1) cs" using c(2) by (intro cstr_upd) (auto simp: add.assoc)
      then show ?thesis using res c cstr_cut [OF r] False Cons by simp
    qed
  qed
qed

definition fx_words :: mem where
  "fx_words = write_bytes 0x20 ([44, 104, 105, 44, 111] @ [0]) (write_bytes 0x40 ([44] @ [0]) (\<lambda>_. 7))"

theorem strtok_token_witness:
  "\<exists>q m'. strtok 0x20 0x40 (0, fx_words) = Some (0x21, q, m') \<and> cstr m' q [111] \<and> cstr m' 0x21 [104, 105]"
proof -
  have "cstr fx_words 0x20 ([44] @ [104, 105] @ [44, 111])" "cstr fx_words 0x40 [44]"
    by (simp_all add: fx_words_def)
  from strtok_token [OF this, of 0] show ?thesis by (simp del: cstr.simps) blast
qed

end
