(* ===== verification/SFI_Sort.thy ===== *)
theory SFI_Sort
  imports SFI_Strings "HOL-Library.Multiset"
begin

text \<open>
  Sorting and searching (\<^verbatim>\<open>isort\<close>, \<^verbatim>\<open>Qsort\<close>, \<^verbatim>\<open>qsort\<close>, \<^verbatim>\<open>bsearch\<close> in \<^verbatim>\<open>src/libc.c\<close>). An array
  of \<open>n\<close> elements of \<open>sz\<close> bytes is the list \<open>elems\<close> of its blocks; the exchange of two
  blocks in memory is the exchange of two list elements (\<open>elems_swap\<close>), so the algorithms are
  translated on lists, with the comparison function as an argument. An element outside the
  array is undefined: \<open>Qsort\<close>, whose scans have no bound of their own, is \<open>None\<close> there.
\<close>

section \<open>Blocks of memory\<close>

definition iswap :: "addr \<Rightarrow> addr \<Rightarrow> nat \<Rightarrow> mem \<Rightarrow> mem" where
  "iswap a b sz m = fold (\<lambda>i m. m(a + of_nat i := m (b + of_nat i), b + of_nat i := m (a + of_nat i))) [0..<sz] m"

definition idx :: "addr \<Rightarrow> nat \<Rightarrow> nat \<Rightarrow> addr" where
  "idx base sz x = base + of_nat (x * sz)"

definition swap_mem :: "addr \<Rightarrow> nat \<Rightarrow> nat \<Rightarrow> nat \<Rightarrow> mem \<Rightarrow> mem" where
  "swap_mem base sz a b m = iswap (idx base sz a) (idx base sz b) sz m"

definition elems :: "addr \<Rightarrow> nat \<Rightarrow> nat \<Rightarrow> mem \<Rightarrow> byte list list" where
  "elems base sz n m = map (\<lambda>x. read_bytes m (idx base sz x) sz) [0..<n]"

section \<open>The algorithms\<close>

definition swap :: "'a list \<Rightarrow> nat \<Rightarrow> nat \<Rightarrow> 'a list" where
  "swap xs i j = xs[i := xs ! j, j := xs ! i]"

text \<open>Selection sort of \<open>n\<close> elements from \<open>base\<close>; the inner loop keeps the place of the minimum.\<close>

definition min_index :: "('a \<Rightarrow> 'a \<Rightarrow> int) \<Rightarrow> 'a list \<Rightarrow> nat \<Rightarrow> nat \<Rightarrow> nat" where
  "min_index compar xs base n =
     fold (\<lambda>i mn. if compar (xs ! (base + i)) (xs ! mn) < 0 then base + i else mn) [1..<n] base"

fun isort :: "('a \<Rightarrow> 'a \<Rightarrow> int) \<Rightarrow> 'a list \<Rightarrow> nat \<Rightarrow> nat \<Rightarrow> 'a list" where
  "isort compar xs base 0 = xs"
| "isort compar xs base (Suc n) =
     (if n = 0 then xs
      else isort compar (swap xs (min_index compar xs base (Suc n)) base) (base + 1) n)"

text \<open>Array access with the C index, an \<^verbatim>\<open>int\<close>.\<close>

definition at :: "'a list \<Rightarrow> int \<Rightarrow> 'a option" where
  "at xs i = (if 0 \<le> i \<and> i < int (length xs) then Some (xs ! nat i) else None)"

definition iswap_at :: "'a list \<Rightarrow> int \<Rightarrow> int \<Rightarrow> 'a list option" where
  "iswap_at xs i j = (case (at xs i, at xs j) of
     (Some _, Some _) \<Rightarrow> Some (swap xs (nat i) (nat j)) | _ \<Rightarrow> None)"

text \<open>\<^verbatim>\<open>while (compar(idx(base, sz, ++i), v) < 0);\<close> on a pivot at index \<open>r\<close>\<close>

partial_function (option) scan_up :: "('a \<Rightarrow> 'a \<Rightarrow> int) \<Rightarrow> 'a list \<Rightarrow> int \<Rightarrow> int \<Rightarrow> int option" where
  "scan_up compar xs r i =
     (case (at xs (i + 1), at xs r) of
        (Some x, Some v) \<Rightarrow> if compar x v < 0 then scan_up compar xs r (i + 1) else Some (i + 1)
      | _ \<Rightarrow> None)"

partial_function (option) scan_down :: "('a \<Rightarrow> 'a \<Rightarrow> int) \<Rightarrow> 'a list \<Rightarrow> int \<Rightarrow> int \<Rightarrow> int \<Rightarrow> int option" where
  "scan_down compar xs l r j =
     (case (at xs (j - 1), at xs r) of
        (Some x, Some v) \<Rightarrow> if compar x v > 0 \<and> j - 1 \<noteq> l then scan_down compar xs l r (j - 1) else Some (j - 1)
      | _ \<Rightarrow> None)"

text \<open>An element equal to the pivot goes to the left end (\<open>p\<close>) or the right end (\<open>q\<close>).\<close>

definition move_left :: "('a \<Rightarrow> 'a \<Rightarrow> int) \<Rightarrow> int \<Rightarrow> int \<Rightarrow> 'a list \<times> int \<Rightarrow> ('a list \<times> int) option" where
  "move_left compar r i st = (case st of (xs, p) \<Rightarrow>
     (case (at xs i, at xs r) of
        (Some x, Some v) \<Rightarrow> if compar x v = 0 then map_option (\<lambda>ys. (ys, p + 1)) (iswap_at xs (p + 1) i) else Some (xs, p)
      | _ \<Rightarrow> None))"

definition move_right :: "('a \<Rightarrow> 'a \<Rightarrow> int) \<Rightarrow> int \<Rightarrow> int \<Rightarrow> 'a list \<times> int \<Rightarrow> ('a list \<times> int) option" where
  "move_right compar r j st = (case st of (xs, q) \<Rightarrow>
     (case (at xs j, at xs r) of
        (Some x, Some v) \<Rightarrow> if compar x v = 0 then map_option (\<lambda>ys. (ys, q - 1)) (iswap_at xs (q - 1) j) else Some (xs, q)
      | _ \<Rightarrow> None))"

text \<open>The loop \<^verbatim>\<open>for (;;)\<close> on \<open>(xs, i, j, p, q)\<close>\<close>

partial_function (option) partition_loop ::
  "('a \<Rightarrow> 'a \<Rightarrow> int) \<Rightarrow> int \<Rightarrow> int \<Rightarrow> 'a list \<times> int \<times> int \<times> int \<times> int \<Rightarrow> ('a list \<times> int \<times> int \<times> int \<times> int) option" where
  "partition_loop compar l r st = (case st of (xs, i, j, p, q) \<Rightarrow>
     Option.bind (scan_up compar xs r i) (\<lambda>i1.
     Option.bind (scan_down compar xs l r j) (\<lambda>j1.
     if i1 \<ge> j1 then Some (xs, i1, j1, p, q)
     else Option.bind (iswap_at xs i1 j1) (\<lambda>xs1.
          Option.bind (move_left compar r i1 (xs1, p)) (\<lambda>(xs2, p2).
          Option.bind (move_right compar r j1 (xs2, q)) (\<lambda>(xs3, q2).
          partition_loop compar l r (xs3, i1, j1, p2, q2)))))))"

text \<open>The two loops that bring the equal elements to the middle.\<close>

partial_function (option) gather_left :: "'a list \<Rightarrow> int \<Rightarrow> int \<Rightarrow> int \<Rightarrow> ('a list \<times> int) option" where
  "gather_left xs k p j =
     (if k < p then Option.bind (iswap_at xs k j) (\<lambda>ys. gather_left ys (k + 1) p (j - 1)) else Some (xs, j))"

partial_function (option) gather_right :: "'a list \<Rightarrow> int \<Rightarrow> int \<Rightarrow> int \<Rightarrow> ('a list \<times> int) option" where
  "gather_right xs k q i =
     (if k > q then Option.bind (iswap_at xs k i) (\<lambda>ys. gather_right ys (k - 1) q (i + 1)) else Some (xs, i))"

definition isort_at :: "('a \<Rightarrow> 'a \<Rightarrow> int) \<Rightarrow> 'a list \<Rightarrow> int \<Rightarrow> int \<Rightarrow> 'a list option" where
  "isort_at compar xs l n =
     (if n \<le> 1 then Some xs
      else if 0 \<le> l \<and> l + n \<le> int (length xs) then Some (isort compar xs (nat l) (nat n)) else None)"

partial_function (option) Qsort :: "('a \<Rightarrow> 'a \<Rightarrow> int) \<Rightarrow> 'a list \<Rightarrow> int \<Rightarrow> int \<Rightarrow> 'a list option" where
  "Qsort compar xs l r =
     (if r - l < 10 then isort_at compar xs l (r - l + 1)
      else
        Option.bind (partition_loop compar l r (xs, l - 1, r, l - 1, r)) (\<lambda>(xs1, i, j0, p, q).
        Option.bind (iswap_at xs1 i r) (\<lambda>xs2.
        Option.bind (gather_left xs2 l p (i - 1)) (\<lambda>(xs3, j).
        Option.bind (gather_right xs3 (r - 1) q (i + 1)) (\<lambda>(xs4, i').
        Option.bind (if j > l then Qsort compar xs4 l j else Some xs4) (\<lambda>xs5.
        if r > i' then Qsort compar xs5 i' r else Some xs5))))))"

definition qsort :: "('a \<Rightarrow> 'a \<Rightarrow> int) \<Rightarrow> 'a list \<Rightarrow> 'a list option" where
  "qsort compar xs = Qsort compar xs 0 (int (length xs) - 1)"

text \<open>Binary search: the index of a matching element in the \<open>n\<close> elements from \<open>base\<close>.\<close>

function bsearch :: "('k \<Rightarrow> 'a \<Rightarrow> int) \<Rightarrow> 'k \<Rightarrow> 'a list \<Rightarrow> nat \<Rightarrow> nat \<Rightarrow> nat option" where
  "bsearch compar key xs base n =
     (if n = 0 then None
      else let m = n div 2; t = compar key (xs ! (base + m))
           in if t < 0 then bsearch compar key xs base m
              else if t > 0 then bsearch compar key xs (base + m + 1) (n - (m + 1))
              else Some (base + m))"
  by pat_completeness auto
termination by (relation "measure (\<lambda>(c, k, xs, b, n). n)") auto

declare bsearch.simps [simp del]


section \<open>Exchanging blocks\<close>

lemma mset_swap: "i < length xs \<Longrightarrow> j < length xs \<Longrightarrow> mset (swap xs i j) = mset xs"
  by (simp add: swap_def mset_swap)

lemma length_swap [simp]: "length (swap xs i j) = length xs"
  by (simp add: swap_def)

lemma nth_swap: "i < length xs \<Longrightarrow> j < length xs \<Longrightarrow> k < length xs \<Longrightarrow>
    swap xs i j ! k = (if k = j then xs ! i else if k = i then xs ! j else xs ! k)"
  by (simp add: swap_def nth_list_update)

lemma fold_iswap:
  assumes "\<And>i j. i < n \<Longrightarrow> j < n \<Longrightarrow> a + of_nat i \<noteq> b + of_nat j" and "n \<le> 2 ^ 32"
  shows "i < n \<Longrightarrow> iswap a b n m (a + of_nat i) = m (b + of_nat i)"
    and "i < n \<Longrightarrow> iswap a b n m (b + of_nat i) = m (a + of_nat i)"
    and "(\<And>i. i < n \<Longrightarrow> x \<noteq> a + of_nat i \<and> x \<noteq> b + of_nat i) \<Longrightarrow> iswap a b n m x = m x"
proof -
  have P: "(\<forall>i < k. iswap a b k m (a + of_nat i) = m (b + of_nat i) \<and> iswap a b k m (b + of_nat i) = m (a + of_nat i)) \<and>
     (\<forall>x. (\<forall>i < k. x \<noteq> a + of_nat i \<and> x \<noteq> b + of_nat i) \<longrightarrow> iswap a b k m x = m x)" if "k \<le> n" for k
    using that
  proof (induction k)
    case (Suc k)
    define f where "f = iswap a b k m"
    have f: "f (a + of_nat i) = m (b + of_nat i)" "f (b + of_nat i) = m (a + of_nat i)" if "i < k" for i
      using Suc that by (simp_all add: f_def)
    have g: "f x = m x" if "\<And>i. i < k \<Longrightarrow> x \<noteq> a + of_nat i \<and> x \<noteq> b + of_nat i" for x
      using Suc that by (simp add: f_def)
    have ne: "of_nat i \<noteq> (of_nat k :: u32)" if "i < k" for i
      using that Suc(2) assms(2) by (simp add: word_of_nat_eq_iff take_bit_nat_eq_self)
    have ab: "a + of_nat i \<noteq> b + of_nat j" if "i \<le> k" "j \<le> k" for i j
      using assms(1) [of i j] that Suc(2) by simp
    have ba: "b + of_nat j \<noteq> a + of_nat i" if "i \<le> k" "j \<le> k" for i j using ab [OF that] by metis
    have ne': "of_nat k \<noteq> (of_nat i :: u32)" if "i < k" for i using ne [OF that] by metis
    have k: "f (a + of_nat k) = m (a + of_nat k)" "f (b + of_nat k) = m (b + of_nat k)"
      by (rule g, use ne' ab ba in simp)+
    have e: "iswap a b (Suc k) m x = (if x = b + of_nat k then m (a + of_nat k) else if x = a + of_nat k then m (b + of_nat k) else f x)" for x
      by (simp add: iswap_def f_def [unfolded iswap_def, symmetric] k)
    show ?case unfolding e using f g ne ab ba by (auto simp: less_Suc_eq)
  qed (simp add: iswap_def)
  show "i < n \<Longrightarrow> iswap a b n m (a + of_nat i) = m (b + of_nat i)"
    "i < n \<Longrightarrow> iswap a b n m (b + of_nat i) = m (a + of_nat i)"
    "(\<And>i. i < n \<Longrightarrow> x \<noteq> a + of_nat i \<and> x \<noteq> b + of_nat i) \<Longrightarrow> iswap a b n m x = m x"
    using P [of n] by auto
qed

lemma iswap_same: "iswap a a n m = m"
proof -
  have "fold (\<lambda>i m. m(a + of_nat i := m (a + of_nat i), a + of_nat i := m (a + of_nat i))) xs m = m" for xs
    by (induction xs) simp_all
  then show ?thesis by (simp add: iswap_def)
qed

lemma block_offset_neq:
  assumes "x < n" "y < n" "x \<noteq> y" "i < sz" "j < sz" "n * sz \<le> 2 ^ 32"
  shows "idx base sz x + of_nat i \<noteq> idx base sz y + of_nat j"
proof -
  have b: "z * sz + k < n * sz" if "z < n" "k < sz" for z k
  proof -
    have "z * sz + k < Suc z * sz" using that by simp
    also have "\<dots> \<le> n * sz" using that by (intro mult_le_mono1) simp
    finally show ?thesis .
  qed
  have "(x * sz + i) div sz \<noteq> (y * sz + j) div sz" using assms(3-5) by simp
  then have "x * sz + i \<noteq> y * sz + j" by metis
  then have "(of_nat (x * sz + i) :: u32) \<noteq> of_nat (y * sz + j)"
    using b [OF assms(1,4)] b [OF assms(2,5)] assms(6) by (simp only: word_of_nat_eq_iff) (simp add: take_bit_nat_eq_self)
  then show ?thesis by (simp add: idx_def add.assoc)
qed

text \<open>Exchanging two blocks of an array in memory is exchanging two elements of the list
  of its blocks.\<close>

theorem elems_swap:
  assumes "a < n" and "b < n" and "n * sz \<le> 2 ^ 32"
  shows "elems base sz n (swap_mem base sz a b m) = swap (elems base sz n m) a b"
proof (cases "a = b")
  case True
  then show ?thesis using assms by (simp add: swap_mem_def iswap_same swap_def)
next
  case False
  let ?A = "idx base sz a" and ?B = "idx base sz b" and ?m = "swap_mem base sz a b m"
  have s: "sz \<le> 2 ^ 32" using assms by (cases n) auto
  have ab: "?A + of_nat i \<noteq> ?B + of_nat j" if "i < sz" "j < sz" for i j
    by (rule block_offset_neq [OF assms(1,2) False that assms(3)])
  note F = fold_iswap [OF ab s, where m = m]
  show ?thesis
  proof (rule nth_equalityI)
    fix k assume "k < length (elems base sz n ?m)"
    then have k: "k < n" by (simp add: elems_def)
    have "read_bytes ?m (idx base sz k) sz =
        (if k = b then read_bytes m ?A sz else if k = a then read_bytes m ?B sz else read_bytes m (idx base sz k) sz)"
    proof -
      have "?m (idx base sz k + of_nat i) = m (idx base sz k + of_nat i)" if "k \<noteq> a" "k \<noteq> b" "i < sz" for i
        unfolding swap_mem_def
      proof (rule F(3))
        fix j assume "j < sz"
        then show "idx base sz k + of_nat i \<noteq> ?A + of_nat j \<and> idx base sz k + of_nat i \<noteq> ?B + of_nat j"
          using block_offset_neq [OF k assms(1) that(1,3) _ assms(3), where base = base and j = j]
            block_offset_neq [OF k assms(2) that(2,3) _ assms(3), where base = base and j = j] by blast
      qed
      then show ?thesis using F(1,2) by (auto simp: read_bytes_def swap_mem_def)
    qed
    then show "elems base sz n ?m ! k = swap (elems base sz n m) a b ! k"
      using k assms(1,2) by (simp add: elems_def nth_swap)
  qed (simp add: elems_def)
qed

theorem elems_swap_witness:
  "elems 0x20 2 3 (swap_mem 0x20 2 0 2 (\<lambda>a. ucast a)) = [[0x24, 0x25], [0x22, 0x23], [0x20, 0x21]]"
proof -
  have "elems 0x20 2 3 (\<lambda>a. ucast a) = [[0x20, 0x21], [0x22, 0x23], [0x24, 0x25]]"
    by code_simp
  with elems_swap [of 0 3 2 2 "0x20" "\<lambda>a. ucast a"] show ?thesis by (simp add: swap_def)
qed


section \<open>Selection sort\<close>

lemma segment_mset:
  fixes xs ys :: "'a list"
  assumes "mset ys = mset xs" "take a ys = take a xs" "drop (a + n) ys = drop (a + n) xs"
  shows "mset (take n (drop a ys)) = mset (take n (drop a xs))"
proof -
  have s: "zs = take a zs @ take n (drop a zs) @ drop (a + n) zs" for zs :: "'a list"
    by (metis append_take_drop_id drop_drop add.commute)
  have "mset (take a ys) + mset (take n (drop a ys)) + mset (drop (a + n) ys) =
      mset (take a xs) + mset (take n (drop a xs)) + mset (drop (a + n) xs)"
    using assms(1) s [of xs] s [of ys] by (metis mset_append add.assoc)
  then show ?thesis using assms(2,3) by simp
qed

text \<open>A comparison function, on the elements it is meant for.\<close>

locale comparator =
  fixes compar :: "'a \<Rightarrow> 'a \<Rightarrow> int" and valid :: "'a \<Rightarrow> bool"
  assumes flip: "valid x \<Longrightarrow> valid y \<Longrightarrow> compar x y < 0 \<longleftrightarrow> compar y x > 0"
    and trans: "valid x \<Longrightarrow> valid y \<Longrightarrow> valid z \<Longrightarrow> compar x y \<le> 0 \<Longrightarrow> compar y z \<le> 0 \<Longrightarrow> compar x z \<le> 0"
begin

abbreviation le :: "'a \<Rightarrow> 'a \<Rightarrow> bool" where
  "le x y \<equiv> compar x y \<le> 0"

lemma refl: "valid x \<Longrightarrow> le x x"
  using flip [of x x] by linarith

lemma not_less_le: "valid x \<Longrightarrow> valid y \<Longrightarrow> \<not> compar x y < 0 \<Longrightarrow> le y x"
  using flip [of x y] by linarith

lemma min_fold:
  assumes "\<forall>x \<in> set xs. valid x" "base + n \<le> length xs" "k \<le> n" "1 \<le> k"
  shows "let mn = fold (\<lambda>i mn. if compar (xs ! (base + i)) (xs ! mn) < 0 then base + i else mn) [1..<k] base
    in base \<le> mn \<and> mn < base + k \<and> (\<forall>i < k. le (xs ! mn) (xs ! (base + i)))"
  using assms(3,4)
proof (induction k)
  case (Suc k)
  have v: "valid (xs ! i)" if "i < base + n" for i using assms(1,2) that by simp
  show ?case
  proof (cases "k = 0")
    case True
    then show ?thesis using refl v [of base] Suc(2) by simp
  next
    case False
    define mn where "mn = fold (\<lambda>i mn. if compar (xs ! (base + i)) (xs ! mn) < 0 then base + i else mn) [1..<k] base"
    have mn: "base \<le> mn" "mn < base + k" "\<forall>i < k. le (xs ! mn) (xs ! (base + i))"
      using Suc False by (simp_all add: mn_def Let_def)
    have vm: "valid (xs ! mn)" "valid (xs ! (base + k))" using mn Suc(2) by (auto intro!: v)
    have e: "fold (\<lambda>i mn. if compar (xs ! (base + i)) (xs ! mn) < 0 then base + i else mn) [1..<Suc k] base =
        (if compar (xs ! (base + k)) (xs ! mn) < 0 then base + k else mn)"
      using False by (simp add: mn_def)
    show ?thesis
    proof (cases "compar (xs ! (base + k)) (xs ! mn) < 0")
      case True
      have "le (xs ! (base + k)) (xs ! (base + i))" if "i < k" for i
        using trans [OF vm(2,1) v] mn(3) that True Suc(2) by auto
      then show ?thesis unfolding e using True mn refl [OF vm(2)] by (auto simp: less_Suc_eq Let_def)
    next
      case False
      then have "le (xs ! mn) (xs ! (base + k))" using not_less_le [OF vm(2,1)] by simp
      then show ?thesis unfolding e using False mn by (auto simp: less_Suc_eq Let_def)
    qed
  qed
qed simp

lemma min_index_least:
  assumes "\<forall>x \<in> set xs. valid x" "base + Suc n \<le> length xs"
  shows "base \<le> min_index compar xs base (Suc n)" "min_index compar xs base (Suc n) < base + Suc n"
    "\<forall>i < Suc n. le (xs ! min_index compar xs base (Suc n)) (xs ! (base + i))"
  using min_fold [OF assms, of "Suc n"] by (simp_all add: min_index_def Let_def)

lemma isort_sorts:
  assumes "\<forall>x \<in> set xs. valid x" "base + n \<le> length xs"
  shows "let ys = isort compar xs base n in mset ys = mset xs \<and> take base ys = take base xs \<and>
    drop (base + n) ys = drop (base + n) xs \<and> sorted_wrt le (take n (drop base ys))"
  using assms
proof (induction n arbitrary: xs base)
  case (Suc n)
  show ?case
  proof (cases "n = 0")
    case True
    then show ?thesis by (simp add: Let_def take_Suc)  (cases "drop base xs", simp_all)
  next
    case False
    define mn where "mn = min_index compar xs base (Suc n)"
    define xs' where "xs' = swap xs mn base"
    define ys where "ys = isort compar xs' (base + 1) n"
    note least = min_index_least [OF Suc(2,3), folded mn_def]
    have len: "mn < length xs" "base < length xs" using least Suc(3) by auto
    have ms: "mset xs' = mset xs" unfolding xs'_def by (rule mset_swap [OF len])
    then have v: "\<forall>x \<in> set xs'. valid x" using Suc(2) by (metis set_mset_mset)
    have lx: "length xs' = length xs" by (simp add: xs'_def)
    have IH: "mset ys = mset xs'" "take (base + 1) ys = take (base + 1) xs'"
      "drop (base + 1 + n) ys = drop (base + 1 + n) xs'" "sorted_wrt le (take n (drop (base + 1) ys))"
      using Suc(1) [OF v, of "base + 1"] Suc(3) lx by (simp_all add: ys_def Let_def)
    have ly: "length ys = length xs" using IH(1) lx by (metis size_mset)
    have tk: "take base xs' = take base xs" "drop (base + Suc n) xs' = drop (base + Suc n) xs"
      using least by (simp_all add: xs'_def swap_def)
    have "take base (take (base + 1) ys) = take base (take (base + 1) xs')" using IH(2) by simp
    then have ty: "take base ys = take base xs" using tk by simp
    have yb: "ys ! base = xs ! mn"
    proof -
      have "take (base + 1) ys ! base = take (base + 1) xs' ! base" using IH(2) by simp
      then show ?thesis using len by (simp add: xs'_def nth_swap)
    qed
    have seg: "take (Suc n) (drop base ys) = ys ! base # take n (drop (base + 1) ys)"
      using len ly by (simp add: Cons_nth_drop_Suc [symmetric])
    have "le (xs ! mn) z" if "z \<in> set (take n (drop (base + 1) ys))" for z
    proof -
      have dy: "drop (base + Suc n) ys = drop (base + Suc n) xs" using IH(3) tk(2) by simp
      have "mset (take (Suc n) (drop base ys)) = mset (take (Suc n) (drop base xs))"
        using segment_mset [OF _ ty dy] IH(1) ms by simp
      then have "set (take (Suc n) (drop base ys)) = set (take (Suc n) (drop base xs))" by (metis set_mset_mset)
      then have "z \<in> set (take (Suc n) (drop base xs))" using that seg by auto
      then obtain i where "i < Suc n" "z = xs ! (base + i)" using Suc(3) by (auto simp: in_set_conv_nth)
      then show ?thesis using least(3) by simp
    qed
    then have "sorted_wrt le (take (Suc n) (drop base ys))" unfolding seg yb using IH(4) by simp
    moreover have "isort compar xs base (Suc n) = ys" using False by (simp add: ys_def xs'_def mn_def)
    ultimately show ?thesis using IH(1,3) ms ty tk(2) by (simp add: Let_def)
  qed
qed simp

text \<open>Binary search in a sorted segment finds an element exactly when there is one.\<close>

lemma bsearch_segment:
  assumes "sorted_wrt le xs" "\<forall>x \<in> set xs. valid x" "valid key" "base + n \<le> length xs"
  shows "case bsearch compar key xs base n of
      Some i \<Rightarrow> base \<le> i \<and> i < base + n \<and> compar key (xs ! i) = 0
    | None \<Rightarrow> \<forall>i. base \<le> i \<and> i < base + n \<longrightarrow> compar key (xs ! i) \<noteq> 0"
  using assms(4)
proof (induction n arbitrary: base rule: less_induct)
  case (less n)
  show ?case
  proof (cases "n = 0")
    case True
    then show ?thesis by (simp add: bsearch.simps)
  next
    case False
    define m where "m = n div 2"
    define t where "t = compar key (xs ! (base + m))"
    have m: "m < n" "base + m < length xs" using False less(2) by (auto simp: m_def)
    have v: "valid (xs ! i)" if "i < length xs" for i using assms(2) that by simp
    have up: "compar key (xs ! i) \<noteq> 0" if "t < 0" "base + m \<le> i" "i < length xs" for i
    proof -
      have "le (xs ! (base + m)) (xs ! i)"
        using sorted_wrt_nth_less [OF assms(1), of "base + m" i] that refl [OF v [OF that(3)]]
        by (cases "base + m = i") auto
      then have "compar (xs ! i) key \<noteq> 0 \<or> compar key (xs ! i) \<noteq> 0" 
        using trans [OF v [OF m(2)] v [OF that(3)] assms(3)] flip [OF assms(3) v [OF m(2)]] that(1)
        by (force simp: t_def)
      moreover have "compar key (xs ! i) = 0 \<Longrightarrow> compar (xs ! i) key = 0"
        using flip [OF assms(3) v [OF that(3)]] flip [OF v [OF that(3)] assms(3)] by linarith
      ultimately show ?thesis by blast
    qed
    have down: "compar key (xs ! i) \<noteq> 0" if "t > 0" "i \<le> base + m" for i
    proof -
      have i: "i < length xs" using that m by simp
      have "le (xs ! i) (xs ! (base + m))"
        using sorted_wrt_nth_less [OF assms(1), of i "base + m"] that m refl [OF v [OF i]]
        by (cases "base + m = i") auto
      then show ?thesis
        using trans [OF assms(3) v [OF i] v [OF m(2)]] that(1) by (force simp: t_def)
    qed
    have e: "bsearch compar key xs base n =
        (if t < 0 then bsearch compar key xs base m
         else if t > 0 then bsearch compar key xs (base + m + 1) (n - (m + 1)) else Some (base + m))"
      using False by (subst bsearch.simps) (simp add: m_def t_def Let_def)
    consider "t < 0" | "t > 0" | "t = 0" by linarith
    then show ?thesis
    proof cases
      case 1
      then show ?thesis
        using less(1) [OF m(1), of base] less(2) m up unfolding e
        by (auto split: option.splits simp: not_le) (metis le_less_linear less_le_trans)
    next
      case 2
      then have "\<not> t < 0" by simp
      moreover have "case bsearch compar key xs (base + m + 1) (n - (m + 1)) of
          Some i \<Rightarrow> base + m + 1 \<le> i \<and> i < base + m + 1 + (n - (m + 1)) \<and> compar key (xs ! i) = 0
        | None \<Rightarrow> \<forall>i. base + m + 1 \<le> i \<and> i < base + m + 1 + (n - (m + 1)) \<longrightarrow> compar key (xs ! i) \<noteq> 0"
        using less(2) m by (intro less(1)) auto
      ultimately show ?thesis
        using 2 m down unfolding e by (auto split: option.splits) (metis Suc_leI le_less_linear)
    next
      case 3
      then show ?thesis using m unfolding e by (simp add: t_def)
    qed
  qed
qed

end

section \<open>Sorting strings\<close>

text \<open>\<^verbatim>\<open>strcmp\<close> is a comparison function on strings.\<close>

lemma cmp_list_flip:
  "0 \<notin> set xs \<Longrightarrow> 0 \<notin> set ys \<Longrightarrow> cmp_list xs ys < 0 \<longleftrightarrow> cmp_list ys xs > 0"
  by (induction xs ys rule: cmp_list.induct) auto

lemma cmp_list_trans:
  "0 \<notin> set xs \<Longrightarrow> 0 \<notin> set ys \<Longrightarrow> 0 \<notin> set zs \<Longrightarrow> cmp_list xs ys \<le> 0 \<Longrightarrow> cmp_list ys zs \<le> 0 \<Longrightarrow> cmp_list xs zs \<le> 0"
proof (induction xs ys arbitrary: zs rule: cmp_list.induct)
  case (1 zs)
  then show ?case by simp
next
  case (2 y ys)
  then show ?case by (cases zs) (auto split: if_splits)
next
  case (3 x xs)
  then show ?case by (cases zs) (auto split: if_splits)
next
  case (4 x xs y ys)
  then show ?case by (cases zs) (auto split: if_splits)
qed

interpretation strings: comparator cmp_list "\<lambda>xs. 0 \<notin> set xs"
  using cmp_list_flip cmp_list_trans by unfold_locales blast+

text \<open>Claim C29. Sorting an array of strings with \<^verbatim>\<open>isort\<close> and \<^verbatim>\<open>strcmp\<close>: the result is a permutation in
  ascending order, and \<^verbatim>\<open>bsearch\<close> in it returns an index of the key exactly when the key is one
  of the strings.\<close>

theorem isort_bsearch_strings:
  assumes "\<forall>x \<in> set xs. 0 \<notin> set x" and "0 \<notin> set key"
  shows "let ys = isort cmp_list xs 0 (length xs)
    in mset ys = mset xs \<and> sorted_wrt (\<lambda>x y. cmp_list x y \<le> 0) ys \<and>
      (case bsearch cmp_list key ys 0 (length ys) of
         Some i \<Rightarrow> i < length ys \<and> ys ! i = key
       | None \<Rightarrow> key \<notin> set xs)"
proof -
  define ys where "ys = isort cmp_list xs 0 (length xs)"
  have S: "mset ys = mset xs \<and> sorted_wrt (\<lambda>x y. cmp_list x y \<le> 0) (take (length xs) ys)"
    using strings.isort_sorts [OF assms(1), of 0 "length xs"] unfolding ys_def Let_def
    by (simp del: take_all_iff take_all)
  then have len: "length ys = length xs" by (metis size_mset)
  with S have ys: "mset ys = mset xs" "sorted_wrt (\<lambda>x y. cmp_list x y \<le> 0) ys" by simp_all
  have st: "set ys = set xs" using ys(1) by (metis set_mset_mset)
  have eq: "cmp_list key (ys ! i) = 0 \<longleftrightarrow> ys ! i = key" if "i < length ys" for i
    using cmp_list_0 [of key "ys ! i"] assms st that nth_mem [OF that] by auto
  have "case bsearch cmp_list key ys 0 (length ys) of
      Some i \<Rightarrow> 0 \<le> i \<and> i < 0 + length ys \<and> cmp_list key (ys ! i) = 0
    | None \<Rightarrow> \<forall>i. 0 \<le> i \<and> i < 0 + length ys \<longrightarrow> cmp_list key (ys ! i) \<noteq> 0"
    using ys(2) len assms st by (intro strings.bsearch_segment) auto
  then have "case bsearch cmp_list key ys 0 (length ys) of
         Some i \<Rightarrow> i < length ys \<and> ys ! i = key
       | None \<Rightarrow> key \<notin> set xs"
    using eq unfolding st [symmetric] by (auto split: option.splits simp: in_set_conv_nth)
  then show ?thesis using ys len by (simp add: ys_def [symmetric] Let_def)
qed

theorem isort_bsearch_strings_witness:
  "sorted_wrt (\<lambda>x y. cmp_list x y \<le> 0) (isort cmp_list [[104], [97, 98], [97]] 0 (Suc (Suc (Suc 0))))"
  using isort_bsearch_strings [of "[[104], [97, 98], [97]]" "[97]"] unfolding Let_def by (simp del: isort.simps)

end
