(* ===== verification/SFI_Qsort.thy ===== *)
theory SFI_Qsort
  imports SFI_Sort
begin

text \<open>
  The three-way quicksort of \<^verbatim>\<open>src/libc.c\<close> (\<^verbatim>\<open>Qsort\<close>, \<^verbatim>\<open>qsort\<close>) sorts, for every comparison function
  that is a total preorder. Its scans stay inside the array, the partition puts equal elements at
  both ends, and the two exchange loops bring them to the middle.
\<close>

section \<open>Ranges of an array\<close>

text \<open>What holds of the elements from \<open>a\<close> to \<open>b\<close>; indices are C's, integers.\<close>

definition on :: "'a list \<Rightarrow> int \<Rightarrow> int \<Rightarrow> ('a \<Rightarrow> bool) \<Rightarrow> bool" where
  "on xs a b P \<longleftrightarrow> (\<forall>m. a \<le> m \<and> m \<le> b \<longrightarrow> P (xs ! nat m))"

text \<open>Rearranged between \<open>a\<close> and \<open>b\<close> only.\<close>

definition perm_in :: "int \<Rightarrow> int \<Rightarrow> 'a list \<Rightarrow> 'a list \<Rightarrow> bool" where
  "perm_in a b xs ys \<longleftrightarrow> mset ys = mset xs \<and>
     (\<forall>m. 0 \<le> m \<and> m < int (length xs) \<and> (m < a \<or> b < m) \<longrightarrow> ys ! nat m = xs ! nat m)"

lemma onD: "on xs a b P \<Longrightarrow> a \<le> m \<Longrightarrow> m \<le> b \<Longrightarrow> P (xs ! nat m)"
  by (simp add: on_def)

lemma perm_in_refl: "perm_in a b xs xs"
  by (simp add: perm_in_def)

lemma perm_in_length: "perm_in a b xs ys \<Longrightarrow> length ys = length xs"
  unfolding perm_in_def by (metis size_mset)

lemma perm_in_set: "perm_in a b xs ys \<Longrightarrow> set ys = set xs"
  unfolding perm_in_def by (metis set_mset_mset)

lemma perm_in_trans: "perm_in a b xs ys \<Longrightarrow> perm_in a b ys zs \<Longrightarrow> perm_in a b xs zs"
  using perm_in_length [of a b xs ys] by (simp add: perm_in_def)

lemma perm_in_mono: "perm_in a b xs ys \<Longrightarrow> a' \<le> a \<Longrightarrow> b \<le> b' \<Longrightarrow> perm_in a' b' xs ys"
  by (auto simp: perm_in_def)

lemma perm_in_nth: "perm_in a b xs ys \<Longrightarrow> 0 \<le> m \<Longrightarrow> m < int (length xs) \<Longrightarrow> m < a \<or> b < m \<Longrightarrow> ys ! nat m = xs ! nat m"
  by (simp add: perm_in_def)

lemma perm_in_outside:
  assumes "perm_in a b xs ys" "on xs c d P" "0 \<le> c" "d < int (length xs)" "d < a \<or> b < c"
  shows "on ys c d P"
  using assms by (auto simp: on_def perm_in_def)

lemma at_Some: "0 \<le> i \<Longrightarrow> i < int (length xs) \<Longrightarrow> at xs i = Some (xs ! nat i)"
  by (simp add: at_def)

lemma swap_int:
  assumes "0 \<le> i" "i < int (length xs)" "0 \<le> j" "j < int (length xs)" "0 \<le> m" "m < int (length xs)"
  shows "swap xs (nat i) (nat j) ! nat m = (if m = j then xs ! nat i else if m = i then xs ! nat j else xs ! nat m)"
proof -
  have "nat i < length xs" "nat j < length xs" "nat m < length xs" using assms by simp_all
  from nth_swap [OF this] show ?thesis using assms by (simp add: nat_eq_iff2 eq_nat_nat_iff)
qed

lemma iswap_at_Some:
  "0 \<le> i \<Longrightarrow> i < int (length xs) \<Longrightarrow> 0 \<le> j \<Longrightarrow> j < int (length xs) \<Longrightarrow> iswap_at xs i j = Some (swap xs (nat i) (nat j))"
  by (simp add: iswap_at_def at_Some)

lemma swap_perm_in:
  assumes "0 \<le> i" "i < int (length xs)" "0 \<le> j" "j < int (length xs)" "a \<le> i" "i \<le> b" "a \<le> j" "j \<le> b"
  shows "perm_in a b xs (swap xs (nat i) (nat j))"
  unfolding perm_in_def
proof (intro conjI allI impI)
  show "mset (swap xs (nat i) (nat j)) = mset xs" using assms by (intro mset_swap) simp_all
  fix m assume "0 \<le> m \<and> m < int (length xs) \<and> (m < a \<or> b < m)"
  then show "swap xs (nat i) (nat j) ! nat m = xs ! nat m" using assms swap_int [of i xs j m] by auto
qed

text \<open>What holds of a whole range still holds after a rearrangement of the range.\<close>

lemma range_drop_take: "0 \<le> a \<Longrightarrow> b < int (length xs) \<Longrightarrow> on xs a b P \<longleftrightarrow> (\<forall>x \<in> set (take (nat (b - a + 1)) (drop (nat a) xs)). P x)"
proof -
  assume r: "0 \<le> a" "b < int (length xs)"
  show ?thesis
  proof
    assume o: "on xs a b P"
    show "\<forall>x \<in> set (take (nat (b - a + 1)) (drop (nat a) xs)). P x"
    proof
      fix x assume "x \<in> set (take (nat (b - a + 1)) (drop (nat a) xs))"
      then obtain i where i: "i < nat (b - a + 1)" "x = xs ! (nat a + i)" using r by (auto simp: in_set_conv_nth)
      then have "nat a + i = nat (a + int i)" "a + int i \<le> b" using r by simp_all
      then show "P x" using onD [OF o, of "a + int i"] i by simp
    qed
  next
    assume s: "\<forall>x \<in> set (take (nat (b - a + 1)) (drop (nat a) xs)). P x"
    show "on xs a b P"
      unfolding on_def
    proof (intro allI impI)
      fix m assume m: "a \<le> m \<and> m \<le> b"
      then have i: "nat (m - a) < nat (b - a + 1)" "nat a + nat (m - a) = nat m" using r by (simp_all flip: nat_add_distrib)
      have "nat (m - a) < length (take (nat (b - a + 1)) (drop (nat a) xs))" using m r by simp
      then have "take (nat (b - a + 1)) (drop (nat a) xs) ! nat (m - a) \<in> set (take (nat (b - a + 1)) (drop (nat a) xs))"
        by (rule nth_mem)
      moreover have "nat a \<le> length xs" using m r by linarith
      ultimately show "P (xs ! nat m)" using s i by simp
    qed
  qed
qed

lemma perm_in_parts:
  assumes "perm_in a b xs ys" "0 \<le> a" "b < int (length xs)" "a \<le> b + 1"
  shows "take (nat a) ys = take (nat a) xs" "drop (nat a + nat (b - a + 1)) ys = drop (nat a + nat (b - a + 1)) xs"
proof -
  have l: "length ys = length xs" by (rule perm_in_length [OF assms(1)])
  have o: "ys ! m = xs ! m" if "m < length xs" "int m < a \<or> b < int m" for m
    using perm_in_nth [OF assms(1), of "int m"] that by simp
  show "take (nat a) ys = take (nat a) xs"
  proof (rule nth_equalityI)
    fix i assume "i < length (take (nat a) ys)"
    then have "i < nat a" "i < length xs" using l by simp_all
    then have "i < length xs" "int i < a" "i < nat a" by linarith+
    then show "take (nat a) ys ! i = take (nat a) xs ! i" using o [of i] by simp
  qed (simp add: l)
  show "drop (nat a + nat (b - a + 1)) ys = drop (nat a + nat (b - a + 1)) xs"
    using o l assms(2,4) by (intro nth_equalityI) auto
qed

lemma perm_in_on:
  assumes "perm_in a b xs ys" "on xs a b P" "0 \<le> a" "b < int (length xs)" "a \<le> b + 1"
  shows "on ys a b P"
proof -
  note p = perm_in_parts [OF assms(1,3,4,5)]
  have "mset (take (nat (b - a + 1)) (drop (nat a) ys)) = mset (take (nat (b - a + 1)) (drop (nat a) xs))"
    using assms(1) by (intro segment_mset [OF _ p]) (simp add: perm_in_def)
  then have "set (take (nat (b - a + 1)) (drop (nat a) ys)) = set (take (nat (b - a + 1)) (drop (nat a) xs))"
    by (metis set_mset_mset)
  then show ?thesis using range_drop_take [of a b xs P] range_drop_take [of a b ys P] assms perm_in_length [OF assms(1)] by simp
qed

section \<open>The scans\<close>

lemma scan_up_stops:
  assumes "i < b" "0 \<le> i + 1" "b < int (length xs)" "at xs r = Some v" "\<not> compar (xs ! nat b) v < 0"
  shows "\<exists>i1. scan_up compar xs r i = Some i1 \<and> i < i1 \<and> i1 \<le> b \<and>
    on xs (i + 1) (i1 - 1) (\<lambda>x. compar x v < 0) \<and> \<not> compar (xs ! nat i1) v < 0"
  using assms(1,2)
proof (induction "nat (b - i)" arbitrary: i rule: less_induct)
  case less
  have a: "at xs (i + 1) = Some (xs ! nat (i + 1))" using less(2,3) assms(3) by (intro at_Some) simp_all
  show ?case
  proof (cases "compar (xs ! nat (i + 1)) v < 0")
    case True
    then have "i + 1 \<noteq> b" using assms(5) by auto
    then obtain i1 where I: "scan_up compar xs r (i + 1) = Some i1" "i + 1 < i1" "i1 \<le> b"
      "on xs (i + 1 + 1) (i1 - 1) (\<lambda>x. compar x v < 0)" "\<not> compar (xs ! nat i1) v < 0"
      using less(1) [of "i + 1"] less(2,3) by auto
    have "on xs (i + 1) (i1 - 1) (\<lambda>x. compar x v < 0)"
      unfolding on_def
    proof (intro allI impI)
      fix m assume "i + 1 \<le> m \<and> m \<le> i1 - 1"
      then show "compar (xs ! nat m) v < 0" using True onD [OF I(4), of m] by (cases "m = i + 1") auto
    qed
    then show ?thesis using I True a assms(4)
      by (intro exI [of _ i1]) (subst scan_up.simps, simp)
  next
    case False
    then show ?thesis using less(2) a assms(4)
      by (intro exI [of _ "i + 1"]) (subst scan_up.simps, simp add: on_def)
  qed
qed

lemma scan_down_stops:
  assumes "b < j" "0 \<le> l" "l \<le> b" "j \<le> int (length xs)" "at xs r = Some v" "b = l \<or> \<not> compar (xs ! nat b) v > 0"
  shows "\<exists>j1. scan_down compar xs l r j = Some j1 \<and> b \<le> j1 \<and> j1 < j \<and>
    on xs (j1 + 1) (j - 1) (\<lambda>x. compar x v > 0) \<and> (j1 = l \<or> \<not> compar (xs ! nat j1) v > 0)"
  using assms(1,4)
proof (induction "nat (j - b)" arbitrary: j rule: less_induct)
  case less
  have a: "at xs (j - 1) = Some (xs ! nat (j - 1))" using less(2,3) assms(2,3) by (intro at_Some) simp_all
  show ?case
  proof (cases "compar (xs ! nat (j - 1)) v > 0 \<and> j - 1 \<noteq> l")
    case True
    then have "j - 1 \<noteq> b" using assms(6) by auto
    then obtain j1 where I: "scan_down compar xs l r (j - 1) = Some j1" "b \<le> j1" "j1 < j - 1"
      "on xs (j1 + 1) (j - 1 - 1) (\<lambda>x. compar x v > 0)" "j1 = l \<or> \<not> compar (xs ! nat j1) v > 0"
      using less(1) [of "j - 1"] less(2,3) by auto
    have "on xs (j1 + 1) (j - 1) (\<lambda>x. compar x v > 0)"
      unfolding on_def
    proof (intro allI impI)
      fix m assume "j1 + 1 \<le> m \<and> m \<le> j - 1"
      then show "compar (xs ! nat m) v > 0" using True onD [OF I(4), of m] by (cases "m = j - 1") auto
    qed
    then show ?thesis using I True a assms(5)
      by (intro exI [of _ j1]) (subst scan_down.simps, simp)
  next
    case False
    then show ?thesis using less(2) a assms(5)
      by (intro exI [of _ "j - 1"]) (subst scan_down.simps, auto simp: on_def)
  qed
qed

section \<open>The partition\<close>

text \<open>While the loop runs: equal elements at both ends, smaller ones up to \<open>i\<close>, greater ones from \<open>j\<close>.\<close>

definition part_inv :: "('a \<Rightarrow> 'a \<Rightarrow> int) \<Rightarrow> 'a \<Rightarrow> int \<Rightarrow> int \<Rightarrow> 'a list \<Rightarrow> int \<Rightarrow> int \<Rightarrow> int \<Rightarrow> int \<Rightarrow> bool" where
  "part_inv compar v l r xs i j p q \<longleftrightarrow>
     0 \<le> l \<and> r < int (length xs) \<and> l - 1 \<le> p \<and> p \<le> i \<and> i < j \<and> l < j \<and> j \<le> q \<and> q \<le> r \<and> xs ! nat r = v \<and>
     on xs l p (\<lambda>x. compar x v = 0) \<and> on xs (p + 1) i (\<lambda>x. compar x v < 0) \<and>
     on xs j (q - 1) (\<lambda>x. compar x v > 0) \<and> on xs q (r - 1) (\<lambda>x. compar x v = 0)"

text \<open>When it stops.\<close>

definition part_post :: "('a \<Rightarrow> 'a \<Rightarrow> int) \<Rightarrow> 'a \<Rightarrow> int \<Rightarrow> int \<Rightarrow> 'a list \<Rightarrow> int \<Rightarrow> int \<Rightarrow> int \<Rightarrow> bool" where
  "part_post compar v l r xs i p q \<longleftrightarrow>
     l - 1 \<le> p \<and> p < i \<and> l \<le> i \<and> i \<le> q \<and> q \<le> r \<and> xs ! nat r = v \<and>
     on xs l p (\<lambda>x. compar x v = 0) \<and> on xs (p + 1) (i - 1) (\<lambda>x. compar x v < 0) \<and>
     on xs i (q - 1) (\<lambda>x. \<not> compar x v < 0) \<and> on xs q (r - 1) (\<lambda>x. compar x v = 0)"

lemma on_weaken: "on xs a b P \<Longrightarrow> a \<le> a' \<Longrightarrow> b' \<le> b \<Longrightarrow> (\<And>x. P x \<Longrightarrow> Q x) \<Longrightarrow> on xs a' b' Q"
  by (simp add: on_def)

lemma on_glue:
  assumes "on xs a c P" "on xs d b P" "d \<le> c + 1"
  shows "on xs a b P"
  unfolding on_def
proof (intro allI impI)
  fix m assume m: "a \<le> m \<and> m \<le> b"
  show "P (xs ! nat m)" using onD [OF assms(1), of m] onD [OF assms(2), of m] assms(3) m by (cases "m \<le> c") auto
qed

lemma on_single: "on xs a a P \<longleftrightarrow> P (xs ! nat a)"
  by (auto simp: on_def)

lemma move_left_ok:
  assumes "0 \<le> l" "l - 1 \<le> p" "p < i" "i < r" "r < int (length xs)" "xs ! nat r = v"
    and "on xs l p (\<lambda>x. compar x v = 0)" "on xs (p + 1) (i - 1) (\<lambda>x. compar x v < 0)" "\<not> compar (xs ! nat i) v > 0"
  shows "\<exists>ys p'. move_left compar r i (xs, p) = Some (ys, p') \<and> perm_in l i xs ys \<and> l - 1 \<le> p' \<and> p' \<le> i \<and>
    on ys l p' (\<lambda>x. compar x v = 0) \<and> on ys (p' + 1) i (\<lambda>x. compar x v < 0)"
proof -
  have a: "at xs i = Some (xs ! nat i)" "at xs r = Some v" using assms at_Some [of i xs] at_Some [of r xs] by simp_all
  show ?thesis
  proof (cases "compar (xs ! nat i) v = 0")
    case False
    then have "on xs (p + 1) i (\<lambda>x. compar x v < 0)"
      using assms(9) on_glue [OF assms(8), of i i] by (simp add: on_single)
    then show ?thesis using a False assms(2,3,7) by (intro exI [of _ xs] exI [of _ p]) (simp add: move_left_def perm_in_refl)
  next
    case True
    let ?ys = "swap xs (nat (p + 1)) (nat i)"
    have b: "0 \<le> p + 1" "p + 1 < int (length xs)" "0 \<le> i" "i < int (length xs)" using assms by simp_all
    note nth = swap_int [OF b]
    have "on ?ys l (p + 1) (\<lambda>x. compar x v = 0)"
      unfolding on_def
    proof (intro allI impI)
      fix m assume m: "l \<le> m \<and> m \<le> p + 1"
      then show "compar (?ys ! nat m) v = 0"
        using nth [of m] True onD [OF assms(7), of m] assms(1,3) b by (cases "m = p + 1") auto
    qed
    moreover have "on ?ys (p + 1 + 1) i (\<lambda>x. compar x v < 0)"
      unfolding on_def
    proof (intro allI impI)
      fix m assume m: "p + 1 + 1 \<le> m \<and> m \<le> i"
      then show "compar (?ys ! nat m) v < 0"
        using nth [of m] onD [OF assms(8), of m] onD [OF assms(8), of "p + 1"] assms(3) b by (cases "m = i") auto
    qed
    moreover have "perm_in l i xs ?ys" using b assms(2,3) by (intro swap_perm_in) simp_all
    ultimately show ?thesis using a True assms(2,3) iswap_at_Some [OF b]
      by (intro exI [of _ ?ys] exI [of _ "p + 1"]) (simp add: move_left_def)
  qed
qed

lemma move_right_ok:
  assumes "0 \<le> j" "j < q" "q \<le> r" "r < int (length xs)" "xs ! nat r = v"
    and "on xs q (r - 1) (\<lambda>x. compar x v = 0)" "on xs (j + 1) (q - 1) (\<lambda>x. compar x v > 0)" "\<not> compar (xs ! nat j) v < 0"
  shows "\<exists>ys q'. move_right compar r j (xs, q) = Some (ys, q') \<and> perm_in j (r - 1) xs ys \<and> j \<le> q' \<and> q' \<le> r \<and>
    on ys q' (r - 1) (\<lambda>x. compar x v = 0) \<and> on ys j (q' - 1) (\<lambda>x. compar x v > 0)"
proof -
  have a: "at xs j = Some (xs ! nat j)" "at xs r = Some v" using assms at_Some [of j xs] at_Some [of r xs] by simp_all
  show ?thesis
  proof (cases "compar (xs ! nat j) v = 0")
    case False
    then have "on xs j j (\<lambda>x. compar x v > 0)" using assms(8) by (simp add: on_single)
    from on_glue [OF this assms(7)] have "on xs j (q - 1) (\<lambda>x. compar x v > 0)" by simp
    then show ?thesis using a False assms(2,3,6) by (intro exI [of _ xs] exI [of _ q]) (simp add: move_right_def perm_in_refl)
  next
    case True
    let ?ys = "swap xs (nat (q - 1)) (nat j)"
    have b: "0 \<le> q - 1" "q - 1 < int (length xs)" "0 \<le> j" "j < int (length xs)" using assms by simp_all
    note nth = swap_int [OF b]
    have "on ?ys (q - 1) (r - 1) (\<lambda>x. compar x v = 0)"
      unfolding on_def
    proof (intro allI impI)
      fix m assume m: "q - 1 \<le> m \<and> m \<le> r - 1"
      then show "compar (?ys ! nat m) v = 0"
        using nth [of m] True onD [OF assms(6), of m] assms(2,4) b by (cases "m = q - 1") auto
    qed
    moreover have "on ?ys j (q - 1 - 1) (\<lambda>x. compar x v > 0)"
      unfolding on_def
    proof (intro allI impI)
      fix m assume m: "j \<le> m \<and> m \<le> q - 1 - 1"
      then show "compar (?ys ! nat m) v > 0"
        using nth [of m] onD [OF assms(7), of m] onD [OF assms(7), of "q - 1"] b by (cases "m = j") auto
    qed
    moreover have "perm_in j (r - 1) xs ?ys" using b assms(2,3) by (intro swap_perm_in) simp_all
    ultimately show ?thesis using a True assms(2,3) iswap_at_Some [OF b]
      by (intro exI [of _ ?ys] exI [of _ "q - 1"]) (simp add: move_right_def)
  qed
qed

lemma partition_ok:
  assumes "compar v v = 0" "part_inv compar v l r xs i j p q"
  shows "\<exists>ys i1 j1 p1 q1. partition_loop compar l r (xs, i, j, p, q) = Some (ys, i1, j1, p1, q1) \<and>
    perm_in l (r - 1) xs ys \<and> part_post compar v l r ys i1 p1 q1"
  using assms(2)
proof (induction "nat (j - i)" arbitrary: xs i j p q rule: less_induct)
  case less
  have I: "0 \<le> l" "r < int (length xs)" "l - 1 \<le> p" "p \<le> i" "i < j" "l < j" "j \<le> q" "q \<le> r" "xs ! nat r = v"
    "on xs l p (\<lambda>x. compar x v = 0)" "on xs (p + 1) i (\<lambda>x. compar x v < 0)"
    "on xs j (q - 1) (\<lambda>x. compar x v > 0)" "on xs q (r - 1) (\<lambda>x. compar x v = 0)"
    using less(2) unfolding part_inv_def by blast+
  have r: "at xs r = Some v" using I at_Some [of r xs] by simp
  have "\<not> compar (xs ! nat q) v < 0"
    using I(8,9) assms(1) onD [OF I(13), of q] by (cases "q = r") auto
  then obtain i1 where U: "scan_up compar xs r i = Some i1" "i < i1" "i1 \<le> q"
    "on xs (i + 1) (i1 - 1) (\<lambda>x. compar x v < 0)" "\<not> compar (xs ! nat i1) v < 0"
    using scan_up_stops [of i q xs r v compar] I r by auto
  have "max l p = l \<or> \<not> compar (xs ! nat (max l p)) v > 0"
    using onD [OF I(10), of p] I(3) by (cases "l \<le> p") auto
  then obtain j1 where D: "scan_down compar xs l r j = Some j1" "max l p \<le> j1" "j1 < j"
    "on xs (j1 + 1) (j - 1) (\<lambda>x. compar x v > 0)" "j1 = l \<or> \<not> compar (xs ! nat j1) v > 0"
    using scan_down_stops [of "max l p" j l xs r v compar] I r by auto
  have lo: "on xs (p + 1) (i1 - 1) (\<lambda>x. compar x v < 0)" by (rule on_glue [OF I(11) U(4)]) simp
  have hi: "on xs (j1 + 1) (q - 1) (\<lambda>x. compar x v > 0)" by (rule on_glue [OF D(4) I(12)]) simp
  show ?case
  proof (cases "i1 \<ge> j1")
    case True
    have "on xs i1 (q - 1) (\<lambda>x. \<not> compar x v < 0)"
      unfolding on_def
    proof (intro allI impI)
      fix m assume "i1 \<le> m \<and> m \<le> q - 1"
      then show "\<not> compar (xs ! nat m) v < 0"
        using U(5) onD [OF hi, of m] True by (cases "m = i1") auto
    qed
    then have "part_post compar v l r xs i1 p q"
      using I U(2,3) D(2) True lo by (simp add: part_post_def)
    then show ?thesis using U(1) D(1) True
      by (intro exI [of _ xs] exI [of _ i1] exI [of _ j1] exI [of _ p] exI [of _ q])
         (subst partition_loop.simps, simp add: perm_in_refl)
  next
    case False
    let ?ys = "swap xs (nat i1) (nat j1)"
    have b: "0 \<le> i1" "i1 < int (length xs)" "0 \<le> j1" "j1 < int (length xs)" "l \<le> i1" "j1 < r"
      using I U(2) D(2,3) False by simp_all
    note nth = swap_int [OF b(1-4)]
    have P1: "perm_in i1 j1 xs ?ys" using b False by (intro swap_perm_in) simp_all
    have l1: "length ?ys = length xs" by simp
    have e: "?ys ! nat r = v" using nth [of r] b I(1,2,9) False by simp
    have yi: "\<not> compar (?ys ! nat i1) v > 0" "\<not> compar (?ys ! nat j1) v < 0"
      using nth [of i1] nth [of j1] b U(5) D(5) False by auto
    have A: "on ?ys l p (\<lambda>x. compar x v = 0)" "on ?ys (p + 1) (i1 - 1) (\<lambda>x. compar x v < 0)"
      "on ?ys (j1 + 1) (q - 1) (\<lambda>x. compar x v > 0)" "on ?ys q (r - 1) (\<lambda>x. compar x v = 0)"
      using perm_in_outside [OF P1 I(10)] perm_in_outside [OF P1 lo] perm_in_outside [OF P1 hi] perm_in_outside [OF P1 I(13)]
        I b U(2) D(3) by simp_all
    obtain zs p1 where L: "move_left compar r i1 (?ys, p) = Some (zs, p1)" "perm_in l i1 ?ys zs" "l - 1 \<le> p1" "p1 \<le> i1"
      "on zs l p1 (\<lambda>x. compar x v = 0)" "on zs (p1 + 1) i1 (\<lambda>x. compar x v < 0)"
      using move_left_ok [of l p i1 r ?ys v compar, OF I(1,3) _ _ _ e A(1,2) yi(1)] I b U(2) False by auto
    note lz = perm_in_length [OF L(2)]
    have out: "zs ! nat m = ?ys ! nat m" if "i1 < m" "m < int (length xs)" for m
      using perm_in_nth [OF L(2), of m] that b(1) l1 by simp
    have B: "on zs (j1 + 1) (q - 1) (\<lambda>x. compar x v > 0)" "on zs q (r - 1) (\<lambda>x. compar x v = 0)" "zs ! nat r = v"
      "\<not> compar (zs ! nat j1) v < 0"
      using perm_in_outside [OF L(2) A(3)] perm_in_outside [OF L(2) A(4)] out [of r] out [of j1] e yi(2) I b False D(3) by simp_all
    obtain us q1 where R: "move_right compar r j1 (zs, q) = Some (us, q1)" "perm_in j1 (r - 1) zs us" "j1 \<le> q1" "q1 \<le> r"
      "on us q1 (r - 1) (\<lambda>x. compar x v = 0)" "on us j1 (q1 - 1) (\<lambda>x. compar x v > 0)"
      using move_right_ok [of j1 q r zs v compar, OF b(3) _ I(8) _ B(3,2,1,4)] I(2,7) D(3) lz by auto
    have C: "on us l p1 (\<lambda>x. compar x v = 0)" "on us (p1 + 1) i1 (\<lambda>x. compar x v < 0)" "us ! nat r = v"
      using perm_in_outside [OF R(2) L(5)] perm_in_outside [OF R(2) L(6)] perm_in_nth [OF R(2), of r] B(3) I b L(3,4) lz False by simp_all
    have lu: "length us = length xs" using perm_in_length [OF R(2)] lz by simp
    have inv: "part_inv compar v l r us i1 j1 p1 q1"
      unfolding part_inv_def using I(1,2) L(3,4) R(3-6) C False b lu by simp
    have P: "perm_in l (r - 1) xs us"
      using perm_in_mono [OF P1, of l "r - 1"] perm_in_mono [OF L(2), of l "r - 1"] perm_in_mono [OF R(2), of l "r - 1"] b False
      by (auto intro: perm_in_trans)
    have "nat (j1 - i1) < nat (j - i)" using U(2) D(3) False I(5) by simp
    from less(1) [OF this inv] obtain ws i2 j2 p2 q2 where
      "partition_loop compar l r (us, i1, j1, p1, q1) = Some (ws, i2, j2, p2, q2)"
      "perm_in l (r - 1) us ws" "part_post compar v l r ws i2 p2 q2" by blast
    then show ?thesis using U(1) D(1) False iswap_at_Some [OF b(1-4)] L(1) R(1) perm_in_trans [OF P]
      by (intro exI [of _ ws] exI [of _ i2] exI [of _ j2] exI [of _ p2] exI [of _ q2])
         (subst partition_loop.simps, simp)
  qed
qed

section \<open>Bringing the equal elements to the middle\<close>

text \<open>\<open>k\<close> and \<open>j\<close> move towards and past each other, with the same sum. An element that \<open>k\<close> has
  passed equals the pivot again if its partner was in the equal range.\<close>

lemma gather_left_ok:
  assumes "0 \<le> l" "i \<le> int (length xs)" "p < i \<and> l \<le> i" "l \<le> k" "k + j = l + i - 1" "k \<le> max l p"
    and "on xs l (i - 1) (\<lambda>x. compar x v \<le> 0)" "on xs (j + 1) (i - 1) (\<lambda>x. compar x v = 0)"
    and "on xs k p (\<lambda>x. compar x v = 0)" "\<forall>m. l \<le> m \<and> m < k \<and> l + i - 1 - m \<le> p \<longrightarrow> compar (xs ! nat m) v = 0"
  shows "\<exists>ys j'. gather_left xs k p j = Some (ys, j') \<and> perm_in l (i - 1) xs ys \<and> l - 1 \<le> j' \<and> j' < i \<and>
    on ys l (i - 1) (\<lambda>x. compar x v \<le> 0) \<and> on ys (j' + 1) (i - 1) (\<lambda>x. compar x v = 0)"
  using assms
proof (induction "nat (p - k)" arbitrary: xs k j rule: less_induct)
  case less
  show ?case
  proof (cases "k < p")
    case False
    have "l - 1 \<le> j \<and> j < i" using less(4-7) by (auto simp: max_def split: if_splits)
    then show ?thesis using False less(8,9) by (intro exI [of _ xs] exI [of _ j]) (subst gather_left.simps, simp add: perm_in_refl)
  next
    case True
    let ?ys = "swap xs (nat k) (nat j)"
    have b: "0 \<le> k" "k < int (length xs)" "0 \<le> j" "j < int (length xs)" "l \<le> j" "j < i" "k < i"
      using less(2-7) True by simp_all
    note nth = swap_int [OF b(1-4)]
    have n: "?ys ! nat m = (if m = j then xs ! nat k else if m = k then xs ! nat j else xs ! nat m)" if "l \<le> m" "m < i" for m
      using nth [of m] that less(2,3) by simp
    have ek: "compar (xs ! nat k) v = 0" using onD [OF less(10), of k] True by simp
    have ej: "compar (xs ! nat j) v = 0" if "j \<le> p"
      using that onD [OF less(10), of j] less(11) [rule_format, of j] b(5) less(6) True by (cases "k \<le> j") auto
    have P: "perm_in l (i - 1) xs ?ys" using b less(5) by (intro swap_perm_in) simp_all
    have C: "on ?ys l (i - 1) (\<lambda>x. compar x v \<le> 0)"
      using perm_in_on [OF P less(8)] less(2-5) b by simp
    have A: "on ?ys (j - 1 + 1) (i - 1) (\<lambda>x. compar x v = 0)"
      unfolding on_def
    proof (intro allI impI)
      fix m assume m: "j - 1 + 1 \<le> m \<and> m \<le> i - 1"
      then show "compar (?ys ! nat m) v = 0"
        using n [of m] ek ej onD [OF less(9), of m] b(5) True by (cases "m = j"; cases "m = k") auto
    qed
    have K: "on ?ys (k + 1) p (\<lambda>x. compar x v = 0)"
      unfolding on_def
    proof (intro allI impI)
      fix m assume m: "k + 1 \<le> m \<and> m \<le> p"
      then show "compar (?ys ! nat m) v = 0"
        using n [of m] ek onD [OF less(10), of m] less(4,5) by auto
    qed
    have B: "\<forall>m. l \<le> m \<and> m < k + 1 \<and> l + i - 1 - m \<le> p \<longrightarrow> compar (?ys ! nat m) v = 0"
    proof (intro allI impI)
      fix m assume m: "l \<le> m \<and> m < k + 1 \<and> l + i - 1 - m \<le> p"
      then show "compar (?ys ! nat m) v = 0"
        using n [of m] ek ej less(11) [rule_format, of m] less(6) b(7) by (cases "m = j"; cases "m = k") auto
    qed
    have "nat (p - (k + 1)) < nat (p - k)" using True by simp
    then obtain zs j' where "gather_left ?ys (k + 1) p (j - 1) = Some (zs, j')" "perm_in l (i - 1) ?ys zs" "l - 1 \<le> j'" "j' < i"
      "on zs l (i - 1) (\<lambda>x. compar x v \<le> 0)" "on zs (j' + 1) (i - 1) (\<lambda>x. compar x v = 0)"
      using less(1) [of "k + 1" ?ys "j - 1"] less(2-7) C A K B True by auto
    then show ?thesis using True iswap_at_Some [OF b(1-4)] perm_in_trans [OF P]
      by (intro exI [of _ zs] exI [of _ j']) (subst gather_left.simps, simp)
  qed
qed

lemma gather_right_ok:
  assumes "0 \<le> c" "r < int (length xs)" "c \<le> q \<and> c \<le> r" "k \<le> r - 1" "k + i = r + c" "min (r - 1) q \<le> k"
    and "on xs (c + 1) r (\<lambda>x. \<not> compar x v < 0)" "on xs (c + 1) (i - 1) (\<lambda>x. compar x v = 0)"
    and "on xs q k (\<lambda>x. compar x v = 0)" "\<forall>m. k < m \<and> m \<le> r - 1 \<and> q \<le> r + c - m \<longrightarrow> compar (xs ! nat m) v = 0"
  shows "\<exists>ys i'. gather_right xs k q i = Some (ys, i') \<and> perm_in (c + 1) r xs ys \<and> c < i' \<and> i' \<le> r + 1 \<and>
    on ys (c + 1) r (\<lambda>x. \<not> compar x v < 0) \<and> on ys (c + 1) (i' - 1) (\<lambda>x. compar x v = 0)"
  using assms
proof (induction "nat (k - q)" arbitrary: xs k i rule: less_induct)
  case less
  show ?case
  proof (cases "k > q")
    case False
    have "c < i \<and> i \<le> r + 1" using less(4-7) by (auto simp: min_def split: if_splits)
    then show ?thesis using False less(8,9) by (intro exI [of _ xs] exI [of _ i]) (subst gather_right.simps, simp add: perm_in_refl)
  next
    case True
    let ?ys = "swap xs (nat k) (nat i)"
    have b: "0 \<le> k" "k < int (length xs)" "0 \<le> i" "i < int (length xs)" "i < r" "c < i" "c < k"
      using less(2-7) True by simp_all
    note nth = swap_int [OF b(1-4)]
    have n: "?ys ! nat m = (if m = i then xs ! nat k else if m = k then xs ! nat i else xs ! nat m)" if "c < m" "m \<le> r" for m
      using nth [of m] that less(2,3) by simp
    have ek: "compar (xs ! nat k) v = 0" using onD [OF less(10), of k] True by simp
    have ei: "compar (xs ! nat i) v = 0" if "q \<le> i"
      using that onD [OF less(10), of i] less(11) [rule_format, of i] b(5) less(6) True by (cases "i \<le> k") auto
    have P: "perm_in (c + 1) r xs ?ys" using b less(5) by (intro swap_perm_in) simp_all
    have C: "on ?ys (c + 1) r (\<lambda>x. \<not> compar x v < 0)"
      using perm_in_on [OF P less(8)] less(2-5) b by simp
    have A: "on ?ys (c + 1) (i + 1 - 1) (\<lambda>x. compar x v = 0)"
      unfolding on_def
    proof (intro allI impI)
      fix m assume m: "c + 1 \<le> m \<and> m \<le> i + 1 - 1"
      then show "compar (?ys ! nat m) v = 0"
        using n [of m] ek ei onD [OF less(9), of m] b(5) True by (cases "m = i"; cases "m = k") auto
    qed
    have K: "on ?ys q (k - 1) (\<lambda>x. compar x v = 0)"
      unfolding on_def
    proof (intro allI impI)
      fix m assume m: "q \<le> m \<and> m \<le> k - 1"
      show "compar (?ys ! nat m) v = 0"
      proof (cases "m = c")
        case True
        then show ?thesis using nth [of c] onD [OF less(10), of m] m b less(2) by auto
      next
        case False
        then show ?thesis using n [of m] ek onD [OF less(10), of m] m less(4,5) by auto
      qed
    qed
    have B: "\<forall>m. k - 1 < m \<and> m \<le> r - 1 \<and> q \<le> r + c - m \<longrightarrow> compar (?ys ! nat m) v = 0"
    proof (intro allI impI)
      fix m assume m: "k - 1 < m \<and> m \<le> r - 1 \<and> q \<le> r + c - m"
      then show "compar (?ys ! nat m) v = 0"
        using n [of m] ek ei less(11) [rule_format, of m] less(6) b(7) by (cases "m = i"; cases "m = k") auto
    qed
    have "nat (k - 1 - q) < nat (k - q)" using True by simp
    then obtain zs i' where "gather_right ?ys (k - 1) q (i + 1) = Some (zs, i')" "perm_in (c + 1) r ?ys zs" "c < i'" "i' \<le> r + 1"
      "on zs (c + 1) r (\<lambda>x. \<not> compar x v < 0)" "on zs (c + 1) (i' - 1) (\<lambda>x. compar x v = 0)"
      using less(1) [of "k - 1" ?ys "i + 1"] less(2-7) C A K B True by auto
    then show ?thesis using True iswap_at_Some [OF b(1-4)] perm_in_trans [OF P]
      by (intro exI [of _ zs] exI [of _ i']) (subst gather_right.simps, simp)
  qed
qed

text \<open>The pivot goes to the place where the scans met.\<close>

lemma pivot_placed:
  assumes v: "compar v v = 0" and I: "part_post compar v l r ys i p q" and l: "0 \<le> l" "r < int (length ys)"
    and zs: "zs = swap ys (nat i) (nat r)"
  shows "iswap_at ys i r = Some zs" "perm_in i r ys zs" "compar (zs ! nat i) v = 0"
    "on zs l (i - 1) (\<lambda>x. compar x v \<le> 0)" "on zs (i + 1) r (\<lambda>x. \<not> compar x v < 0)"
    "on zs l p (\<lambda>x. compar x v = 0)" "on zs q (r - 1) (\<lambda>x. compar x v = 0)"
proof -
  have I: "l - 1 \<le> p" "p < i" "l \<le> i" "i \<le> q" "q \<le> r" "ys ! nat r = v" "on ys l p (\<lambda>x. compar x v = 0)"
    "on ys (p + 1) (i - 1) (\<lambda>x. compar x v < 0)" "on ys i (q - 1) (\<lambda>x. \<not> compar x v < 0)" "on ys q (r - 1) (\<lambda>x. compar x v = 0)"
    using I unfolding part_post_def by blast+
  have b: "0 \<le> i" "i < int (length ys)" "0 \<le> r" "r < int (length ys)" using I l by simp_all
  show "iswap_at ys i r = Some zs" unfolding zs by (rule iswap_at_Some [OF b])
  show P: "perm_in i r ys zs" unfolding zs using b I by (intro swap_perm_in) simp_all
  have nth: "zs ! nat m = (if m = r then ys ! nat i else if m = i then v else ys ! nat m)" if "0 \<le> m" "m \<le> r" for m
    using swap_int [OF b, of m] that l I(6) unfolding zs by auto
  show "compar (zs ! nat i) v = 0" using nth [of i] b I v by auto
  have ge: "\<not> compar (ys ! nat m) v < 0" if h: "i \<le> m" "m \<le> r" for m
  proof -
    consider "m \<le> q - 1" | "q \<le> m" "m \<le> r - 1" | "m = r" using h(2) by linarith
    then show ?thesis using onD [OF I(9), of m] onD [OF I(10), of m] h I(6) v by cases auto
  qed
  show "on zs l (i - 1) (\<lambda>x. compar x v \<le> 0)"
    unfolding on_def
  proof (intro allI impI)
    fix m assume m: "l \<le> m \<and> m \<le> i - 1"
    then have "zs ! nat m = ys ! nat m" using nth [of m] I l by auto
    then show "compar (zs ! nat m) v \<le> 0"
      using onD [OF I(7), of m] onD [OF I(8), of m] m by (cases "m \<le> p") auto
  qed
  show "on zs (i + 1) r (\<lambda>x. \<not> compar x v < 0)"
    unfolding on_def using nth ge b(1) by auto
  show "on zs l p (\<lambda>x. compar x v = 0)" using perm_in_outside [OF P I(7)] I l by simp
  show "on zs q (r - 1) (\<lambda>x. compar x v = 0)"
    unfolding on_def
  proof (intro allI impI)
    fix m assume m: "q \<le> m \<and> m \<le> r - 1"
    then show "compar (zs ! nat m) v = 0" using nth [of m] onD [OF I(10), of m] v I(4) b(1) by auto
  qed
qed

text \<open>All that happens before the two recursive calls.\<close>

lemma three_way:
  assumes v: "compar v v = 0" and l: "0 \<le> l" "l < r" "r < int (length xs)" "xs ! nat r = v"
  shows "\<exists>ys i j0 p q zs us j ws i'. partition_loop compar l r (xs, l - 1, r, l - 1, r) = Some (ys, i, j0, p, q) \<and>
    iswap_at ys i r = Some zs \<and> gather_left zs l p (i - 1) = Some (us, j) \<and> gather_right us (r - 1) q (i + 1) = Some (ws, i') \<and>
    perm_in l r xs ws \<and> l - 1 \<le> j \<and> i' \<le> r + 1 \<and>
    on ws l j (\<lambda>x. compar x v \<le> 0) \<and> on ws i' r (\<lambda>x. \<not> compar x v < 0) \<and> on ws (j + 1) (i' - 1) (\<lambda>x. compar x v = 0) \<and>
    j < i' - 1 \<and> j < r \<and> l < i'"
proof -
  have "part_inv compar v l r xs (l - 1) r (l - 1) r" using l by (simp add: part_inv_def on_def)
  then obtain ys i j0 p q where P: "partition_loop compar l r (xs, l - 1, r, l - 1, r) = Some (ys, i, j0, p, q)"
    "perm_in l (r - 1) xs ys" "part_post compar v l r ys i p q"
    using partition_ok [of compar v l r xs "l - 1" r "l - 1" r, OF v] by blast
  have I: "l - 1 \<le> p" "p < i" "l \<le> i" "i \<le> q" "q \<le> r" using P(3) unfolding part_post_def by blast+
  have ly: "length ys = length xs" by (rule perm_in_length [OF P(2)])
  define zs where "zs = swap ys (nat i) (nat r)"
  note Z = pivot_placed [OF v P(3) l(1) _ zs_def, unfolded ly, OF l(3)]
  have b: "0 \<le> i" "i \<le> r" "length zs = length xs" using I l perm_in_length [OF Z(2)] ly by simp_all
  obtain us j where G: "gather_left zs l p (i - 1) = Some (us, j)" "perm_in l (i - 1) zs us" "l - 1 \<le> j" "j < i"
    "on us l (i - 1) (\<lambda>x. compar x v \<le> 0)" "on us (j + 1) (i - 1) (\<lambda>x. compar x v = 0)"
    using gather_left_ok [of l i zs p l "i - 1" compar v] l(1,3) b I Z(4,6) by (auto simp: on_def)
  have lu: "length us = length xs" using perm_in_length [OF G(2)] b(3) by simp
  have hu: "on us (i + 1) r (\<lambda>x. \<not> compar x v < 0)" "on us q (r - 1) (\<lambda>x. compar x v = 0)"
    using perm_in_outside [OF G(2) Z(5)] perm_in_outside [OF G(2) Z(7)] I l b(3) by simp_all
  have ui: "us ! nat i = zs ! nat i" using perm_in_nth [OF G(2), of i] b l(3) by simp
  obtain ws i' where R: "gather_right us (r - 1) q (i + 1) = Some (ws, i')" "perm_in (i + 1) r us ws" "i < i'" "i' \<le> r + 1"
    "on ws (i + 1) r (\<lambda>x. \<not> compar x v < 0)" "on ws (i + 1) (i' - 1) (\<lambda>x. compar x v = 0)"
    using gather_right_ok [of i r us q "r - 1" "i + 1" compar v] b lu l(3) I hu by (auto simp: on_def min_less_iff_disj)
  have W: "on ws l (i - 1) (\<lambda>x. compar x v \<le> 0)" "on ws (j + 1) (i - 1) (\<lambda>x. compar x v = 0)" "compar (ws ! nat i) v = 0"
    using perm_in_outside [OF R(2) G(5)] perm_in_outside [OF R(2) G(6)] perm_in_nth [OF R(2), of i] ui Z(3) G(3) l b lu by simp_all
  have mid: "on ws (j + 1) (i' - 1) (\<lambda>x. compar x v = 0)"
    unfolding on_def
  proof (intro allI impI)
    fix m assume m: "j + 1 \<le> m \<and> m \<le> i' - 1"
    consider "m \<le> i - 1" | "m = i" | "i + 1 \<le> m" by linarith
    then show "compar (ws ! nat m) v = 0" using onD [OF W(2), of m] W(3) onD [OF R(6), of m] m by cases auto
  qed
  have perm: "perm_in l r xs ws"
    using perm_in_mono [OF P(2), of l r] perm_in_mono [OF Z(2), of l r] perm_in_mono [OF G(2), of l r]
      perm_in_mono [OF R(2), of l r] I by (auto intro: perm_in_trans)
  have ends: "on ws l j (\<lambda>x. compar x v \<le> 0)" "on ws i' r (\<lambda>x. \<not> compar x v < 0)"
    using W(1) R(5) G(4) R(3) by (auto simp: on_def)
  have B: "j < i' - 1" "j < r" "l < i'" using I G(4) R(3) by linarith+
  show ?thesis
    by (intro exI [of _ ys] exI [of _ i] exI [of _ j0] exI [of _ p] exI [of _ q] exI [of _ zs] exI [of _ us] exI [of _ j]
        exI [of _ ws] exI [of _ i'] conjI P(1) Z(1) G(1,3) R(1,4) perm ends mid B)
qed

section \<open>The whole sort\<close>

definition sorted_in :: "('a \<Rightarrow> 'a \<Rightarrow> int) \<Rightarrow> 'a list \<Rightarrow> int \<Rightarrow> int \<Rightarrow> bool" where
  "sorted_in compar xs a b \<longleftrightarrow> (\<forall>m n. a \<le> m \<and> m < n \<and> n \<le> b \<longrightarrow> compar (xs ! nat m) (xs ! nat n) \<le> 0)"

lemma sorted_in_outside:
  assumes "perm_in a b xs ys" "sorted_in compar xs c d" "0 \<le> c" "d < int (length xs)" "d < a \<or> b < c"
  shows "sorted_in compar ys c d"
  unfolding sorted_in_def
proof (intro allI impI)
  fix m n assume m: "c \<le> m \<and> m < n \<and> n \<le> d"
  then have "ys ! nat m = xs ! nat m" "ys ! nat n = xs ! nat n"
    using perm_in_nth [OF assms(1), of m] perm_in_nth [OF assms(1), of n] assms(3-5) by auto
  then show "compar (ys ! nat m) (ys ! nat n) \<le> 0" using assms(2) m by (simp add: sorted_in_def)
qed

context comparator
begin

lemma isort_at_sorts:
  assumes "\<forall>x \<in> set xs. valid x" "0 \<le> l" "r < int (length xs)"
  shows "\<exists>ys. isort_at compar xs l (r - l + 1) = Some ys \<and> perm_in l r xs ys \<and> sorted_in compar ys l r"
proof (cases "r - l + 1 \<le> 1")
  case True
  then show ?thesis by (intro exI [of _ xs]) (simp add: isort_at_def perm_in_refl sorted_in_def)
next
  case False
  let ?n = "nat (r - l + 1)"
  define ys where "ys = isort compar xs (nat l) ?n"
  have len: "nat l + ?n \<le> length xs" using assms(2,3) False by linarith
  have S: "mset ys = mset xs" "take (nat l) ys = take (nat l) xs" "drop (nat l + ?n) ys = drop (nat l + ?n) xs"
    "sorted_wrt le (take ?n (drop (nat l) ys))"
    using isort_sorts [OF assms(1) len] by (simp_all add: ys_def Let_def)
  have ly: "length ys = length xs" using S(1) by (metis size_mset)
  have "ys ! nat m = xs ! nat m" if m: "0 \<le> m" "m < int (length xs)" "m < l \<or> r < m" for m
  proof (cases "m < l")
    case True
    then have "nat m < nat l" using m(1) by simp
    then show ?thesis using S(2) by (metis nth_take)
  next
    case False
    then have "nat l + ?n \<le> nat m" using m(3) assms(2) by linarith
    then obtain k where k: "nat m = nat l + ?n + k" using le_Suc_ex by blast
    then have "ys ! nat m = drop (nat l + ?n) ys ! k" "xs ! nat m = drop (nat l + ?n) xs ! k" using len ly by simp_all
    then show ?thesis using S(3) by simp
  qed
  then have "perm_in l r xs ys" using S(1) by (simp add: perm_in_def)
  moreover have "sorted_in compar ys l r"
    unfolding sorted_in_def
  proof (intro allI impI)
    fix m n assume m: "l \<le> m \<and> m < n \<and> n \<le> r"
    have k: "nat (m - l) < nat (n - l)" "nat (n - l) < length (take ?n (drop (nat l) ys))"
      "nat l + nat (m - l) = nat m" "nat l + nat (n - l) = nat n"
      using m assms(2) len ly by (simp_all flip: nat_add_distrib)
    have "nat l \<le> length ys" using len ly by simp
    from sorted_wrt_nth_less [OF S(4) k(1,2)] show "le (ys ! nat m) (ys ! nat n)" using k \<open>nat l \<le> length ys\<close> by simp
  qed
  moreover have "isort_at compar xs l (r - l + 1) = Some ys"
    using False assms(2,3) by (simp add: isort_at_def ys_def)
  ultimately show ?thesis by blast
qed

text \<open>Two sorted ends around elements that equal the pivot.\<close>

lemma sorted_in_glue:
  assumes "\<And>m. l \<le> m \<Longrightarrow> m \<le> r \<Longrightarrow> valid (bs ! nat m)" "valid v"
    and "on bs l j (\<lambda>x. compar x v \<le> 0)" "on bs (j + 1) (i - 1) (\<lambda>x. compar x v = 0)" "on bs i r (\<lambda>x. \<not> compar x v < 0)"
    and "sorted_in compar bs l j" "sorted_in compar bs i r"
  shows "sorted_in compar bs l r"
  unfolding sorted_in_def
proof (intro allI impI)
  fix m n assume m: "l \<le> m \<and> m < n \<and> n \<le> r"
  then have vm: "valid (bs ! nat m)" "valid (bs ! nat n)" using assms(1) by simp_all
  consider "n \<le> j" | "i \<le> m" | "m < i" "j < n" by linarith
  then show "le (bs ! nat m) (bs ! nat n)"
  proof cases
    case 1
    then show ?thesis using assms(6) m by (simp add: sorted_in_def)
  next
    case 2
    then show ?thesis using assms(7) m by (simp add: sorted_in_def)
  next
    case 3
    have "le (bs ! nat m) v" using onD [OF assms(3), of m] onD [OF assms(4), of m] 3 m by (cases "m \<le> j") auto
    moreover have "\<not> compar (bs ! nat n) v < 0"
      using onD [OF assms(4), of n] onD [OF assms(5), of n] 3 m by (cases "n < i") auto
    then have "le v (bs ! nat n)" by (rule not_less_le [OF vm(2) assms(2)])
    ultimately show ?thesis by (rule trans [OF vm(1) assms(2) vm(2)])
  qed
qed

lemma Qsort_sorts:
  assumes "\<forall>x \<in> set xs. valid x" "0 \<le> l" "r < int (length xs)"
  shows "\<exists>ys. Qsort compar xs l r = Some ys \<and> perm_in l r xs ys \<and> sorted_in compar ys l r"
  using assms
proof (induction "nat (r - l)" arbitrary: xs l r rule: less_induct)
  case less
  show ?case
  proof (cases "r - l < 10")
    case True
    then show ?thesis using isort_at_sorts [OF less(2-4)] by (subst Qsort.simps) simp
  next
    case False
    define v where "v = xs ! nat r"
    have vv: "valid v" using less(2-4) False by (simp add: v_def)
    have v: "compar v v = 0" using flip [OF vv vv] by linarith
    obtain ys i j0 p q zs us j ws i' where Q:
      "partition_loop compar l r (xs, l - 1, r, l - 1, r) = Some (ys, i, j0, p, q)" "iswap_at ys i r = Some zs"
      "gather_left zs l p (i - 1) = Some (us, j)" "gather_right us (r - 1) q (i + 1) = Some (ws, i')"
      and P: "perm_in l r xs ws" and B: "l - 1 \<le> j" "i' \<le> r + 1" "j < i' - 1" "j < r" "l < i'"
      and L: "on ws l j (\<lambda>x. compar x v \<le> 0)" and M: "on ws (j + 1) (i' - 1) (\<lambda>x. compar x v = 0)"
      and R: "on ws i' r (\<lambda>x. \<not> compar x v < 0)"
      using three_way [of compar v l r xs, OF v less(3) _ less(4)] False by (auto simp: v_def)
    have lw: "length ws = length xs" by (rule perm_in_length [OF P])
    have vw: "\<forall>x \<in> set ws. valid x" using perm_in_set [OF P] less(2) by simp
    obtain as where A: "(if j > l then Qsort compar ws l j else Some ws) = Some as" "perm_in l j ws as" "sorted_in compar as l j"
    proof (cases "j > l")
      case True
      then have "nat (j - l) < nat (r - l)" "j < int (length ws)" using B lw less(4) by simp_all
      from less(1) [OF this(1) vw less(3) this(2)] True that show ?thesis by auto
    next
      case False
      then show ?thesis using that [of ws] by (simp add: perm_in_refl sorted_in_def)
    qed
    have la: "length as = length xs" using perm_in_length [OF A(2)] lw by simp
    have va: "\<forall>x \<in> set as. valid x" using perm_in_set [OF A(2)] vw by simp
    have ja: "j < int (length ws)" using B lw less(4) by simp
    have LA: "on as l j (\<lambda>x. compar x v \<le> 0)" "on as (j + 1) (i' - 1) (\<lambda>x. compar x v = 0)" "on as i' r (\<lambda>x. \<not> compar x v < 0)"
      using perm_in_on [OF A(2) L less(3) ja] perm_in_outside [OF A(2) M] perm_in_outside [OF A(2) R] B lw less(3,4) by simp_all
    obtain bs where C: "(if r > i' then Qsort compar as i' r else Some as) = Some bs" "perm_in i' r as bs" "sorted_in compar bs i' r"
    proof (cases "r > i'")
      case True
      then have "nat (r - i') < nat (r - l)" "0 \<le> i'" "r < int (length as)" using B la less(3,4) by simp_all
      from less(1) [OF this(1) va this(2,3)] True that show ?thesis by auto
    next
      case False
      then show ?thesis using that [of as] by (simp add: perm_in_refl sorted_in_def)
    qed
    have lb: "length bs = length xs" using perm_in_length [OF C(2)] la by simp
    have vb: "valid (bs ! nat m)" if "0 \<le> m" "m \<le> r" for m
      using perm_in_set [OF C(2)] va lb that less(4) by (metis nat_less_iff nth_mem order_le_less_trans)
    have LB: "on bs l j (\<lambda>x. compar x v \<le> 0)" "on bs (j + 1) (i' - 1) (\<lambda>x. compar x v = 0)" "on bs i' r (\<lambda>x. \<not> compar x v < 0)"
      using perm_in_outside [OF C(2) LA(1)] perm_in_outside [OF C(2) LA(2)] perm_in_on [OF C(2) LA(3)] B la less(3,4) by simp_all
    have SL: "sorted_in compar bs l j" using sorted_in_outside [OF C(2) A(3) less(3)] B la less(4) by simp
    have "sorted_in compar bs l r"
      using less(3) by (intro sorted_in_glue [OF _ vv LB SL C(3)]) (simp add: vb)
    moreover have "perm_in l r xs bs"
      using P perm_in_mono [OF A(2), of l r] perm_in_mono [OF C(2), of l r] B by (auto intro: perm_in_trans)
    moreover have "Qsort compar xs l r = Some bs"
      using False Q A(1) C(1) by (subst Qsort.simps) simp
    ultimately show ?thesis by blast
  qed
qed

lemma qsort_sorts:
  assumes "\<forall>x \<in> set xs. valid x"
  shows "\<exists>ys. qsort compar xs = Some ys \<and> mset ys = mset xs \<and> sorted_wrt le ys"
proof -
  obtain ys where Q: "Qsort compar xs 0 (int (length xs) - 1) = Some ys" "perm_in 0 (int (length xs) - 1) xs ys"
    "sorted_in compar ys 0 (int (length xs) - 1)"
    using Qsort_sorts [OF assms, of 0 "int (length xs) - 1"] by auto
  have "sorted_wrt le ys"
    unfolding sorted_wrt_iff_nth_less
  proof (intro allI impI)
    fix i j assume "i < j" "j < length ys"
    then show "le (ys ! i) (ys ! j)"
      using Q(3) [unfolded sorted_in_def, rule_format, of "int i" "int j"] perm_in_length [OF Q(2)] by simp
  qed
  then show ?thesis using Q by (auto simp: qsort_def perm_in_def)
qed

end

text \<open>Claim C28. \<^verbatim>\<open>qsort\<close> with \<^verbatim>\<open>strcmp\<close> returns for every array of strings, without leaving the array, and
  the result is a permutation in ascending order.\<close>

theorem qsort_strings:
  assumes "\<forall>x \<in> set xs. 0 \<notin> set x"
  shows "\<exists>ys. qsort cmp_list xs = Some ys \<and> mset ys = mset xs \<and> sorted_wrt (\<lambda>x y. cmp_list x y \<le> 0) ys"
  by (rule strings.qsort_sorts [OF assms])

theorem qsort_strings_witness:
  "\<exists>ys. qsort cmp_list (map (\<lambda>k. [of_nat k]) [3, 1, 4, 1, 5, 9, 2, 6, 5, 3, 5, 8, 9, 7]) = Some ys \<and>
     sorted_wrt (\<lambda>x y. cmp_list x y \<le> 0) ys"
  using qsort_strings [of "map (\<lambda>k. [of_nat k]) [3, 1, 4, 1, 5, 9, 2, 6, 5, 3, 5, 8, 9, 7]"] by auto

end
