(* ===== verification/SFI_Numbers.thy ===== *)
theory SFI_Numbers
  imports SFI_Strings
begin

text \<open>
  Character classes, number parsing and the random generator of \<^verbatim>\<open>src/libc.c\<close>. Characters
  are passed as \<^verbatim>\<open>int\<close>, so the classes are predicates on \<open>int\<close>.
\<close>

section \<open>Character classes\<close>

definition isupper :: "int \<Rightarrow> bool" where "isupper c \<longleftrightarrow> c \<ge> 65 \<and> c \<le> 90"
definition islower :: "int \<Rightarrow> bool" where "islower c \<longleftrightarrow> c \<ge> 97 \<and> c \<le> 122"
definition isalpha :: "int \<Rightarrow> bool" where "isalpha c \<longleftrightarrow> isupper c \<or> islower c"
definition isdigit :: "int \<Rightarrow> bool" where "isdigit c \<longleftrightarrow> c \<ge> 48 \<and> c \<le> 57"
definition isalnum :: "int \<Rightarrow> bool" where "isalnum c \<longleftrightarrow> isalpha c \<or> isdigit c"
definition isascii :: "int \<Rightarrow> bool" where "isascii c \<longleftrightarrow> c AND 0x80 = 0"
definition isblank :: "int \<Rightarrow> bool" where "isblank c \<longleftrightarrow> c = 32 \<or> c = 9"
definition iscntrl :: "int \<Rightarrow> bool" where "iscntrl c \<longleftrightarrow> c \<ge> 0 \<and> c < 32 \<or> c = 0x7f"
definition isgraph :: "int \<Rightarrow> bool" where "isgraph c \<longleftrightarrow> c \<ge> 33 \<and> c \<le> 126"
definition isprint :: "int \<Rightarrow> bool" where "isprint c \<longleftrightarrow> isgraph c \<or> c = 32"
definition ispunct :: "int \<Rightarrow> bool" where "ispunct c \<longleftrightarrow> isgraph c \<and> \<not> isalnum c"
definition isspace :: "int \<Rightarrow> bool" where
  "isspace c \<longleftrightarrow> c = 32 \<or> c = 12 \<or> c = 10 \<or> c = 13 \<or> c = 9 \<or> c = 11"
definition isxdigit :: "int \<Rightarrow> bool" where
  "isxdigit c \<longleftrightarrow> isdigit c \<or> c \<ge> 65 \<and> c \<le> 70 \<or> c \<ge> 97 \<and> c \<le> 102"
definition toupper :: "int \<Rightarrow> int" where "toupper c = (if islower c then c - 97 + 65 else c)"
definition tolower :: "int \<Rightarrow> int" where "tolower c = (if isupper c then c - 65 + 97 else c)"

lemmas ctype_defs = isupper_def islower_def isalpha_def isdigit_def isalnum_def isblank_def
  iscntrl_def isgraph_def isprint_def ispunct_def isspace_def isxdigit_def toupper_def tolower_def

text \<open>The classes partition the ASCII codes as C requires: every code from 0 to 127 is
  either a control character or printable; a printable one is a space, a letter, a digit or
  punctuation, and exactly one of these; the case conversions are inverse on letters and the
  identity elsewhere.\<close>

theorem ctype_classes:
  assumes "0 \<le> c" and "c < 128"
  shows "(iscntrl c \<longleftrightarrow> \<not> isprint c) \<and>
    (isprint c \<longleftrightarrow> c = 32 \<or> isalpha c \<or> isdigit c \<or> ispunct c) \<and>
    \<not> (isalpha c \<and> isdigit c) \<and> \<not> (ispunct c \<and> isalnum c) \<and> \<not> (isupper c \<and> islower c) \<and>
    (isupper c \<longrightarrow> islower (tolower c) \<and> toupper (tolower c) = c) \<and>
    (islower c \<longrightarrow> isupper (toupper c) \<and> tolower (toupper c) = c) \<and>
    (\<not> isalpha c \<longrightarrow> toupper c = c \<and> tolower c = c)"
  using assms by (auto simp: ctype_defs)

theorem ctype_classes_witness: "ispunct 33 \<and> isprint 33"
  using ctype_classes [of 33] by (simp add: ispunct_def isgraph_def isalnum_def isalpha_def isupper_def islower_def isdigit_def)

section \<open>Absolute value\<close>

definition abs_c :: "u32 \<Rightarrow> u32" where
  "abs_c x = (if sint x > 0 then x else - x)"

definition labs_c :: "u32 \<Rightarrow> u32" where
  "labs_c x = (if sint x > 0 then x else - x)"

text \<open>The most negative number is its own absolute value.\<close>

lemma abs_c_min: "abs_c 0x80000000 = 0x80000000"
  by (simp add: abs_c_def)

section \<open>Parsing numbers\<close>

definition EINVAL :: u32 where "EINVAL = 22"
definition ERANGE :: u32 where "ERANGE = 34"
definition ULONG_MAX :: u32 where "ULONG_MAX = 0xffffffff"
definition LONG_MAX :: u32 where "LONG_MAX = 0x7fffffff"
definition LONG_MIN :: u32 where "LONG_MIN = 0x80000000"

partial_function (option) skip_spaces :: "mem \<Rightarrow> addr \<Rightarrow> addr option" where
  "skip_spaces m p = (if isspace (chr (m p)) then skip_spaces m (p + 1) else Some p)"

text \<open>The digit value of a character, as an \<^verbatim>\<open>unsigned char\<close>.\<close>

definition digit_value :: "byte \<Rightarrow> byte" where
  "digit_value c = (if c \<ge> 97 then c - 97 + 10 else if c \<ge> 65 then c - 65 + 10
     else if c \<le> 57 then c - 48 else 0xff)"

text \<open>One digit: the product is split at bit 8 so that no intermediate value overflows.\<close>

definition digit_step :: "nat \<Rightarrow> byte \<Rightarrow> u32 \<times> bool \<Rightarrow> u32 \<times> bool" where
  "digit_step base c st =
     (case st of (v, overflow) \<Rightarrow>
       let x = (v AND 0xff) * of_nat base + ucast c;
           w = drop_bit 8 v * of_nat base + drop_bit 8 x
       in (push_bit 8 w + (x AND 0xff), overflow \<or> w > drop_bit 8 ULONG_MAX))"

partial_function (option) digits_loop :: "mem \<Rightarrow> nat \<Rightarrow> addr \<Rightarrow> u32 \<times> bool \<Rightarrow> (addr \<times> u32 \<times> bool) option" where
  "digits_loop m base p st =
     (if m p = 0 then Some (p, st)
      else let c = digit_value (m p)
           in if unat c \<ge> base then Some (p, st) else digits_loop m base (p + 1) (digit_step base c st))"

text \<open>The label \<^verbatim>\<open>skip0x\<close>: an optional prefix, and the base it implies.\<close>

definition skip0x :: "mem \<Rightarrow> addr \<Rightarrow> nat \<Rightarrow> addr \<times> nat" where
  "skip0x m p base =
     (if (m (p + 1) = 120 \<or> m (p + 1) = 88) \<and> isxdigit (chr (m (p + 2))) then (p + 2, 16) else (p, base))"

text \<open>The number's start and its base, or \<open>None\<close> for a base that is not allowed.\<close>

definition base_of :: "mem \<Rightarrow> addr \<Rightarrow> u32 \<Rightarrow> (addr \<times> nat) option" where
  "base_of m p base =
     (if base = 16 \<and> m p = 48 then Some (skip0x m p 16)
      else if base \<noteq> 0 then if base - 2 > 34 then None else Some (p, unat base)
      else if m p = 48 then Some (skip0x m p 8) else Some (p, 10))"

text \<open>What a parsing call leaves: the value, the end position if it is stored, and the new
  \<^verbatim>\<open>errno\<close> if it is set.\<close>

record parsed =
  pvalue :: u32
  pend :: "addr option"
  perrno :: "u32 option"

definition strtoul :: "mem \<Rightarrow> addr \<Rightarrow> u32 \<Rightarrow> parsed option" where
  "strtoul m ptr base =
     (case skip_spaces m ptr of
        None \<Rightarrow> None
      | Some p0 \<Rightarrow>
          let neg = (m p0 = 45); orig = (if m p0 = 45 \<or> m p0 = 43 then p0 + 1 else p0)
          in case base_of m orig base of
               None \<Rightarrow> Some \<lparr>pvalue = 0, pend = None, perrno = Some EINVAL\<rparr>
             | Some (start, b) \<Rightarrow>
                 (case digits_loop m b start (0, False) of
                    None \<Rightarrow> None
                  | Some (p, v, overflow) \<Rightarrow>
                      let (nptr, v', e) = (if p = orig then (ptr, 0, Some EINVAL) else (p, v, None))
                      in Some (if overflow then \<lparr>pvalue = ULONG_MAX, pend = Some nptr, perrno = Some ERANGE\<rparr>
                               else \<lparr>pvalue = (if neg then - v' else v'), pend = Some nptr, perrno = e\<rparr>)))"

definition strtol :: "mem \<Rightarrow> addr \<Rightarrow> u32 \<Rightarrow> parsed option" where
  "strtol m orig base =
     (case skip_spaces m orig of
        None \<Rightarrow> None
      | Some p0 \<Rightarrow>
          let neg = (m p0 = 45 \<and> isalnum (chr (m (p0 + 1)))); nptr = (if neg then p0 + 1 else p0)
          in case strtoul m nptr base of
               None \<Rightarrow> None
             | Some r \<Rightarrow>
                 let e = (if pend r = Some nptr then Some orig else pend r); v = pvalue r
                 in Some (if v \<ge> 0x80000000 then
                            if v = 0x80000000 \<and> neg then \<lparr>pvalue = v, pend = e, perrno = Some 0\<rparr>
                            else \<lparr>pvalue = (if neg then LONG_MIN else LONG_MAX), pend = e, perrno = Some ERANGE\<rparr>
                          else \<lparr>pvalue = (if neg then - v else v), pend = e, perrno = perrno r\<rparr>))"

definition atoi :: "mem \<Rightarrow> addr \<Rightarrow> u32 option" where
  "atoi m nptr = map_option pvalue (strtol m nptr 10)"

definition atol :: "mem \<Rightarrow> addr \<Rightarrow> u32 option" where
  "atol m nptr = atoi m nptr"

section \<open>The random generator\<close>

definition srand :: "u32 \<Rightarrow> u32" where
  "srand seed = seed"

text \<open>The arithmetic is in \<^verbatim>\<open>int\<close>, with C's division that truncates towards zero; no step
  overflows.\<close>

definition tdiv :: "int \<Rightarrow> int \<Rightarrow> int" where
  "tdiv a b = sgn a * sgn b * (\<bar>a\<bar> div \<bar>b\<bar>)"

definition rand :: "u32 \<Rightarrow> int \<times> u32" where
  "rand random_seed =
     (let x = sint random_seed;
          y = 48271 * (x - tdiv x 44488 * 44488) - 3399 * tdiv x 44488;
          z = (if y < 0 then y + 48271 else y)
      in (z, word_of_int z))"


section \<open>One digit\<close>

text \<open>What the accumulator knows about the exact value \<open>A\<close> of the digits read so far.\<close>

definition acc_rel :: "u32 \<times> bool \<Rightarrow> nat \<Rightarrow> bool" where
  "acc_rel st A \<longleftrightarrow> (snd st \<longleftrightarrow> 2 ^ 32 \<le> A) \<and> (A < 2 ^ 32 \<longrightarrow> unat (fst st) = A)"

lemma digit_step_exact:
  assumes "base \<le> 36" "unat c < base"
  shows "unat (fst (digit_step base c (v, b))) = (unat v * base + unat c) mod 2 ^ 32"
    and "snd (digit_step base c (v, b)) \<longleftrightarrow> b \<or> 2 ^ 32 \<le> unat v * base + unat c"
proof -
  define x where "x = (v AND 0xff) * of_nat base + ucast c"
  define w where "w = drop_bit 8 v * of_nat base + drop_bit 8 x"
  define X where "X = unat v mod 256 * base + unat c"
  define W where "W = unat v div 256 * base + X div 256"
  have m: "unat (v AND 0xff) = unat v mod 256"
    using unat_take_bit [of 8 v] by (simp add: take_bit_eq_mask mask_eq_exp_minus_1)
  have d: "unat (drop_bit 8 y) = unat y div 256" for y :: u32
    by (simp only: unat_drop_bit_eq) (simp add: drop_bit_eq_div)
  have bb: "unat (of_nat base :: u32) = base" using assms(1) by (simp add: unsigned_of_nat take_bit_nat_eq_self)
  have cc: "unat (ucast c :: u32) = unat c" proof -
    have "unat c < 2 ^ 32" by (rule less_trans [OF unsigned_less]) simp
    then show ?thesis by (simp add: unsigned_ucast_eq take_bit_nat_eq_self)
  qed
  have "unat v mod 256 * base \<le> 255 * 36" using assms(1) by (intro mult_le_mono) simp_all
  then have Xb: "X < 2 ^ 14" using assms by (simp add: X_def)
  have x: "unat x = X" using Xb by (simp add: x_def X_def unat_word_ariths m bb cc)
  have "unat v < 2 ^ 24 * 256" by (rule less_le_trans [OF unsigned_less]) simp
  then have "unat v div 256 < 2 ^ 24" by (rule less_mult_imp_div_less)
  then have "unat v div 256 * base \<le> 2 ^ 24 * 36" using assms(1) by (intro mult_le_mono) simp_all
  then have Wb: "W < 2 ^ 31" using Xb by (simp add: W_def less_mult_imp_div_less) 
  have w: "unat w = W" using Wb x by (simp add: w_def W_def unat_word_ariths d bb)
  have e: "unat v * base + unat c = 256 * W + X mod 256"
  proof -
    have "unat v * base = 256 * (unat v div 256 * base) + unat v mod 256 * base"
      by (metis add_mult_distrib mult.assoc mult_div_mod_eq)
    then have "unat v * base + unat c = 256 * (unat v div 256 * base) + X" by (simp add: X_def)
    also have "\<dots> = 256 * W + X mod 256" by (simp add: W_def add_mult_distrib2)
    finally show ?thesis .
  qed
  have st: "digit_step base c (v, b) = (push_bit 8 w + (x AND 0xff), b \<or> w > 0xffffff)"
    by (simp add: digit_step_def Let_def x_def w_def ULONG_MAX_def)
  have "unat (x AND 0xff) = X mod 256"
    using unat_take_bit [of 8 x] x by (simp add: take_bit_eq_mask mask_eq_exp_minus_1)
  moreover have "unat (push_bit 8 w) = (256 * W) mod 2 ^ 32"
    by (simp only: unsigned_push_bit_eq w) (simp add: take_bit_eq_mod push_bit_eq_mult mult.commute)
  ultimately show "unat (fst (digit_step base c (v, b))) = (unat v * base + unat c) mod 2 ^ 32"
    unfolding st e by (simp add: unat_word_ariths mod_simps)
  have "w > 0xffffff \<longleftrightarrow> 2 ^ 24 \<le> W" using w by (auto simp: word_less_nat_alt)
  then show "snd (digit_step base c (v, b)) \<longleftrightarrow> b \<or> 2 ^ 32 \<le> unat v * base + unat c"
    unfolding st e by (auto)
qed

lemma digit_step_rel:
  assumes "acc_rel st A" "unat c < base" "base \<le> 36"
  shows "acc_rel (digit_step base c st) (A * base + unat c)"
proof (cases st)
  case (Pair v b)
  note ex = digit_step_exact [OF assms(3,2), of v b]
  show ?thesis
  proof (cases "A < 2 ^ 32")
    case True
    then show ?thesis using assms(1) ex Pair by (auto simp: acc_rel_def)
  next
    case False
    have "A \<le> A * base" using assms(2) by simp
    then have "2 ^ 32 \<le> A * base + unat (c :: byte)" using False by linarith
    then show ?thesis using False assms(1) ex(2) Pair by (simp add: acc_rel_def)
  qed
qed

fun num :: "nat \<Rightarrow> nat \<Rightarrow> byte list \<Rightarrow> nat" where
  "num base A [] = A"
| "num base A (c # cs) = num base (A * base + unat (digit_value c)) cs"

lemma digits_loop_cstr:
  assumes "cstr m p (ds @ rest)" "\<forall>c \<in> set ds. unat (digit_value c) < base"
    "rest = [] \<or> base \<le> unat (digit_value (hd rest))" "base \<le> 36" "acc_rel st A"
  shows "\<exists>st'. digits_loop m base p st = Some (p + of_nat (length ds), st') \<and> acc_rel st' (num base A ds)"
  using assms(1,2,5)
proof (induction ds arbitrary: p st A)
  case Nil
  then show ?case using assms(3) by (cases rest) (auto simp: digits_loop.simps)
next
  case (Cons c ds)
  have r: "acc_rel (digit_step base (digit_value c) st) (A * base + unat (digit_value c))"
    using Cons.prems assms(4) by (intro digit_step_rel) auto
  obtain st' where "digits_loop m base (p + 1) (digit_step base (digit_value c) st) =
      Some (p + 1 + of_nat (length ds), st')" "acc_rel st' (num base (A * base + unat (digit_value c)) ds)"
    using Cons.IH [OF _ _ r, of "p + 1"] Cons.prems by auto
  then show ?case using Cons.prems by (simp add: digits_loop.simps [of m base p st] add.assoc)
qed

lemma skip_spaces_cstr:
  "cstr m p (sp @ xs) \<Longrightarrow> \<forall>c \<in> set sp. isspace (chr c) \<Longrightarrow> xs = [] \<or> \<not> isspace (chr (hd xs)) \<Longrightarrow>
     skip_spaces m p = Some (p + of_nat (length sp))"
proof (induction sp arbitrary: p)
  case Nil
  then show ?case by (cases xs) (auto simp: skip_spaces.simps [of m p] isspace_def)
next
  case (Cons c sp)
  then have "skip_spaces m (p + 1) = Some (p + 1 + of_nat (length sp))" by auto
  then show ?case using Cons.prems by (simp add: skip_spaces.simps [of m p] add.assoc)
qed

definition dec_digit :: "byte \<Rightarrow> bool" where
  "dec_digit c \<longleftrightarrow> 48 \<le> c \<and> c \<le> 57"

lemma byte_cases:
  assumes "list_all (\<lambda>n. P (of_nat n :: byte)) [0..<256]"
  shows "P c"
proof -
  have "unat c \<in> set [0..<256]" using unsigned_less [of c] by simp
  with assms have "P (of_nat (unat c))" unfolding list_all_iff by (rule bspec)
  then show ?thesis by simp
qed

lemma dec_digit_value: "dec_digit c \<longleftrightarrow> unat (digit_value c) < 10"
  by (rule byte_cases [where c = c]) code_simp

lemma dec_digit_class: "\<not> dec_digit c \<or> isalnum (chr c) \<and> \<not> isspace (chr c) \<and> c \<noteq> 45 \<and> c \<noteq> 43 \<and> c \<noteq> 0"
  by (rule byte_cases [where c = c]) code_simp


section \<open>Whole numbers\<close>

definition stops :: "byte list \<Rightarrow> bool" where
  "stops rest \<longleftrightarrow> rest = [] \<or> \<not> dec_digit (hd rest)"

lemma strtoul_decimal:
  assumes c: "cstr m p (sg @ ds @ rest)" and sg: "sg \<in> {[], [43]}" and ds: "ds \<noteq> []" "\<forall>c \<in> set ds. dec_digit c"
    and st: "stops rest"
  shows "strtoul m p 10 = Some
    (if 2 ^ 32 \<le> num 10 0 ds
     then \<lparr>pvalue = ULONG_MAX, pend = Some (p + of_nat (length (sg @ ds))), perrno = Some ERANGE\<rparr>
     else \<lparr>pvalue = of_nat (num 10 0 ds), pend = Some (p + of_nat (length (sg @ ds))), perrno = None\<rparr>)"
proof -
  let ?o = "p + of_nat (length sg)"
  obtain d ds' where ds': "ds = d # ds'" using ds(1) by (cases ds) auto
  have d: "\<not> isspace (chr d)" "d \<noteq> 45" "d \<noteq> 43" using ds(2) ds' dec_digit_class [of d] by auto
  have "isspace (chr 43) = False" by code_simp
  then have sk: "skip_spaces m p = Some p"
    using skip_spaces_cstr [of m p "[]" "sg @ ds @ rest"] c sg ds' d by auto
  have o: "(if m p = 45 \<or> m p = 43 then p + 1 else p) = ?o" "m p \<noteq> 45"
    using c sg ds' d by auto
  have co: "cstr m ?o (ds @ rest)" using cstr_drop [OF c, of "length sg"] by simp
  obtain v b where dl: "digits_loop m 10 ?o (0, False) = Some (?o + of_nat (length ds), v, b)"
    and ar: "acc_rel (v, b) (num 10 0 ds)"
    using digits_loop_cstr [OF co, of 10 "(0, False)" 0] ds(2) st dec_digit_value
    by (auto simp: stops_def acc_rel_def not_less)
  have "length ds < 2 ^ 32" using cstr_length [OF co] by simp
  then have ne: "?o + of_nat (length ds) \<noteq> ?o"
    using of_nat_offset_neq [of 0 "length ds" ?o] ds(1) by fastforce
  have ba: "base_of m ?o 10 = Some (?o, 10)" by (simp add: base_of_def)
  have "v = of_nat (unat v)" by simp
  then have "\<not> b \<Longrightarrow> v = of_nat (num 10 0 ds)"
    using ar by (simp add: acc_rel_def not_le del: of_nat_unat)
  then show ?thesis
    using sk o ba dl ne ar by (auto simp: strtoul_def Let_def acc_rel_def add.assoc)
qed

lemma sint_small: "n < 2 ^ 31 \<Longrightarrow> sint (of_nat n :: u32) = int n"
proof -
  assume "n < 2 ^ 31"
  then have "sint (word_of_int (int n) :: u32) = int n" by (simp only: int_word_sint) simp
  then show ?thesis by simp
qed

lemma sint_small_neg: "n \<le> 2 ^ 31 \<Longrightarrow> sint (- of_nat n :: u32) = - int n"
proof -
  assume "n \<le> 2 ^ 31"
  then have "sint (word_of_int (- int n) :: u32) = - int n" by (simp only: int_word_sint) simp
  then show ?thesis by simp
qed

text \<open>The end of \<^verbatim>\<open>strtol\<close>, on the value that \<^verbatim>\<open>strtoul\<close> returns.\<close>

lemma strtol_clamp:
  fixes V :: nat
  defines "v \<equiv> (if 2 ^ 32 \<le> V then ULONG_MAX else of_nat V)"
    and "e \<equiv> (if 2 ^ 32 \<le> V then Some ERANGE else None)"
  assumes r: "r = (if v \<ge> 0x80000000 then
       if v = 0x80000000 \<and> neg then \<lparr>pvalue = v, pend = q, perrno = Some 0\<rparr>
       else \<lparr>pvalue = (if neg then LONG_MIN else LONG_MAX), pend = q, perrno = Some ERANGE\<rparr>
     else \<lparr>pvalue = (if neg then - v else v), pend = q, perrno = e\<rparr>)"
  shows "let n = (if neg then - int V else int V)
    in sint (pvalue r) = max (- (2 ^ 31)) (min (2 ^ 31 - 1) n) \<and>
      (perrno r = Some ERANGE \<longleftrightarrow> n < - (2 ^ 31) \<or> n > 2 ^ 31 - 1) \<and> pend r = q"
proof -
  have un: "unat (of_nat V :: u32) = V" if "V < 2 ^ 32" using that by (simp add: unsigned_of_nat take_bit_nat_eq_self)
  consider "V < 2 ^ 31" | "V = 2 ^ 31" | "2 ^ 31 < V" by linarith
  then show ?thesis
  proof cases
    case 1
    then have "\<not> v \<ge> 0x80000000" "v = of_nat V" "e = None"
      using un by (simp_all add: v_def e_def word_le_nat_alt)
    then show ?thesis using 1 r sint_small [of V] sint_small_neg [of V] by (simp add: Let_def)
  next
    case 2
    then have "v = 0x80000000" by (simp add: v_def)
    then show ?thesis using 2 r by (simp add: Let_def ERANGE_def LONG_MAX_def)
  next
    case 3
    have "v > 0x80000000"
    proof (cases "2 ^ 32 \<le> V")
      case False
      then show ?thesis using 3 un by (simp add: v_def word_less_nat_alt)
    qed (simp add: v_def ULONG_MAX_def)
    then have "v \<ge> 0x80000000" "v \<noteq> 0x80000000" by auto
    then show ?thesis using 3 r by (simp add: Let_def LONG_MIN_def LONG_MAX_def)
  qed
qed

lemma strtol_after:
  assumes "skip_spaces m s = Some p0" "(m p0 = 45 \<and> isalnum (chr (m (p0 + 1)))) = neg"
    and "q = (if neg then p0 + 1 else p0)" and "strtoul m q b = Some R" and "pend R \<noteq> Some q"
  shows "strtol m s b = Some (if pvalue R \<ge> 0x80000000 then
       if pvalue R = 0x80000000 \<and> neg then \<lparr>pvalue = pvalue R, pend = pend R, perrno = Some 0\<rparr>
       else \<lparr>pvalue = (if neg then LONG_MIN else LONG_MAX), pend = pend R, perrno = Some ERANGE\<rparr>
     else \<lparr>pvalue = (if neg then - pvalue R else pvalue R), pend = pend R, perrno = perrno R\<rparr>)"
  unfolding strtol_def assms(1) option.case assms(2) Let_def assms(3) [symmetric] assms(4) using assms(5) by simp

text \<open>Claim C30. \<^verbatim>\<open>strtol\<close> in base 10, on white space, an optional sign, digits and whatever follows
  them: the result is the number, clamped to the range of \<^verbatim>\<open>long\<close>; the end pointer is behind
  the last digit; \<^verbatim>\<open>errno\<close> becomes \<^verbatim>\<open>ERANGE\<close> exactly when the number was out of range.\<close>

theorem strtol_decimal:
  assumes "cstr m s (sp @ sg @ ds @ rest)" and "\<forall>c \<in> set sp. isspace (chr c)" and "sg \<in> {[], [43], [45]}"
    and "ds \<noteq> []" and "\<forall>c \<in> set ds. dec_digit c" and "stops rest"
  shows "\<exists>r. strtol m s 10 = Some r \<and>
    (let n = (if sg = [45] then - int (num 10 0 ds) else int (num 10 0 ds))
     in sint (pvalue r) = max (- (2 ^ 31)) (min (2 ^ 31 - 1) n) \<and>
        (perrno r = Some ERANGE \<longleftrightarrow> n < - (2 ^ 31) \<or> n > 2 ^ 31 - 1) \<and>
        pend r = Some (s + of_nat (length (sp @ sg @ ds))))"
proof -
  let ?p = "s + of_nat (length sp)" and ?V = "num 10 0 ds" and ?neg = "sg = [45]"
  let ?sg = "if ?neg then [] else sg" and ?q = "if ?neg then s + of_nat (length sp) + 1 else s + of_nat (length sp)"
  let ?stop = "s + of_nat (length (sp @ sg @ ds))"
  obtain d ds' where ds': "ds = d # ds'" using assms(4) by (cases ds) auto
  have d: "isalnum (chr d)" "\<not> isspace (chr d)" "d \<noteq> 45" "d \<noteq> 43"
    using assms(5) ds' dec_digit_class [of d] by auto
  have cp: "cstr m ?p (sg @ ds @ rest)" using cstr_drop [OF assms(1), of "length sp"] by simp
  have "\<not> isspace (chr 43)" "\<not> isspace (chr 45)" by code_simp+
  then have sk: "skip_spaces m s = Some ?p"
    using skip_spaces_cstr [OF assms(1,2)] assms(3) ds' d by auto
  have cq: "cstr m ?q (?sg @ ds @ rest)" using cp by auto
  have neg: "(m ?p = 45 \<and> isalnum (chr (m (?p + 1)))) = ?neg"
    using cp assms(3) ds' d by auto
  have e: "?q + of_nat (length (?sg @ ds)) = ?stop"
    using assms(3) by (auto simp: algebra_simps)
  have ne: "?stop \<noteq> ?q"
  proof -
    have "0 < length (?sg @ ds)" using ds' by simp
    moreover have "length (?sg @ ds) < 2 ^ 32" using cstr_length [OF cq] by simp
    ultimately show ?thesis
      using of_nat_offset_neq [of 0 "length (?sg @ ds)" ?q] unfolding e [symmetric] by fastforce
  qed
  have "?sg \<in> {[], [43]}" using assms(3) by auto
  note U = strtoul_decimal [OF cq this assms(4-6), unfolded e]
  define r where "r = (let v = (if 2 ^ 32 \<le> ?V then ULONG_MAX else of_nat ?V)
    in if v \<ge> 0x80000000 then
       if v = 0x80000000 \<and> ?neg then \<lparr>pvalue = v, pend = Some ?stop, perrno = Some 0\<rparr>
       else \<lparr>pvalue = (if ?neg then LONG_MIN else LONG_MAX), pend = Some ?stop, perrno = Some ERANGE\<rparr>
     else \<lparr>pvalue = (if ?neg then - v else v), pend = Some ?stop, perrno = (if 2 ^ 32 \<le> ?V then Some ERANGE else None)\<rparr>)"
  define q where "q = ?q"
  define en where "en = ?stop"
  have U': "strtoul m q 10 = Some
    (if 2 ^ 32 \<le> ?V then \<lparr>pvalue = ULONG_MAX, pend = Some en, perrno = Some ERANGE\<rparr>
     else \<lparr>pvalue = of_nat ?V, pend = Some en, perrno = None\<rparr>)"
    using U by (simp only: q_def en_def)
  have "en \<noteq> q" using ne unfolding q_def en_def .
  have "strtol m s 10 = Some r"
    using strtol_after [OF sk neg q_def U'] \<open>en \<noteq> q\<close> by (simp add: r_def Let_def en_def)
  then show ?thesis using strtol_clamp [OF r_def [unfolded Let_def]] by (auto simp: Let_def)
qed


definition fx_num :: mem where
  "fx_num = write_bytes 0x20 ([32, 45, 52, 50, 120] @ [0]) (\<lambda>_. 7)"

theorem strtol_decimal_witness: "\<exists>r. strtol fx_num 0x20 10 = Some r \<and> sint (pvalue r) = - 42"
proof -
  have "cstr fx_num 0x20 ([32] @ [45] @ [52, 50] @ [120])"
  proof -
    have "cstr fx_num 0x20 [32, 45, 52, 50, 120]" unfolding fx_num_def by (rule cstr_write) simp_all
    then show ?thesis by simp
  qed
  moreover have "isspace (chr 32)" "dec_digit 52" "dec_digit 50" "stops [120]" "num 10 0 [52, 50] = 42"
    by code_simp+
  ultimately show ?thesis
    using strtol_decimal [of fx_num "0x20" "[32]" "[45]" "[52, 50]" "[120]"] by (auto simp: Let_def)
qed

section \<open>The random generator\<close>

text \<open>Up to the last correction the generator is Schrage's method: the next value is congruent to
  \<open>48271 * x\<close> modulo \<open>2 ^ 31 - 1\<close>. The correction adds the multiplier instead of the modulus,
  so a negative number can remain, which \<^verbatim>\<open>rand\<close> must not return.\<close>

lemma rand_schrage:
  assumes "0 \<le> sint seed"
  shows "fst (rand seed) = 48271 * sint seed - (2 ^ 31 - 1) * (sint seed div 44488) \<or>
    fst (rand seed) = 48271 * sint seed - (2 ^ 31 - 1) * (sint seed div 44488) + 48271"
proof -
  have "tdiv (sint seed) 44488 = sint seed div 44488" using assms by (simp add: tdiv_def sgn_if)
  then show ?thesis by (auto simp: rand_def Let_def algebra_simps)
qed

lemma rand_negative: "fst (rand 667320) = - 2714"
  by code_simp

end
