(* ===== verification/SFI_Libc.thy ===== *)
theory SFI_Libc
  imports SFI_Runtime SFI_Numbers
begin

text \<open>
  The sandbox's C library (\<^verbatim>\<open>src/libc.c\<close>): system calls. The library runs inside the sandbox
  and reaches the host only through the stubs, so every \<^verbatim>\<open>outside_\<close> function it calls is the
  loader's wrapper of that name. The sandbox's memory is the first half of the host's world:
  a host call may read and write it. The status buffers of \<^verbatim>\<open>stat\<close> are kept by the wrappers' own model.
\<close>

named_theorems libc_def

section \<open>The library's state\<close>

record ('f, 'v) lib =
  trusted :: "('f, mem \<times> 'v) rt"
  errno :: u32
  nextf :: "addr list"  \<comment> \<open>the free lists of \<^verbatim>\<open>malloc\<close>\<close>
  tmp_count :: u32      \<comment> \<open>the static \<^verbatim>\<open>count\<close> of \<^verbatim>\<open>tmpfile\<close>\<close>

type_synonym ('f, 'v, 'a) action = "('f, 'v) lib \<Rightarrow> (('f, 'v) lib, 'a) outcome"

type_synonym ('f, 'v) libc = "('f, 'v, u32) action"

text \<open>What the linker and the compiler choose: the address of \<^verbatim>\<open>myfiles\<close>, the addresses of string
  literals, and where the array in the frame of a running function is.\<close>

record image =
  myfiles :: addr
  literal :: "string \<Rightarrow> addr"
  frame_at :: addr

definition lmem :: "('f, 'v) lib \<Rightarrow> mem" where
  "lmem s = fst (world (trusted s))"

definition map_mem :: "(mem \<Rightarrow> mem) \<Rightarrow> ('f, 'v) lib \<Rightarrow> ('f, 'v) lib" where
  "map_mem g s = s\<lparr>trusted := (trusted s)\<lparr>world := apfst g (world (trusted s))\<rparr>\<rparr>"

text \<open>A call of a stub; the result is the low half of the register pair.\<close>

definition outside :: "('f, mem \<times> 'v) wrapper \<Rightarrow> ('f, 'v) libc" where
  "outside w s =
     (case w (trusted s) of
        Return r t \<Rightarrow> Return (ucast r) (s\<lparr>trusted := t\<rparr>)
      | Longjmp t \<Rightarrow> Longjmp (s\<lparr>trusted := t\<rparr>)
      | Halt e \<Rightarrow> Halt e)"

definition EOF :: u32 where "EOF = - 1"

definition set_errno :: "u32 \<Rightarrow> u32 \<Rightarrow> ('f, 'v) libc" where
  "set_errno e ret s = Return ret (s\<lparr>errno := e\<rparr>)"

definition refresh_errno :: "('f, mem \<times> 'v) host \<Rightarrow> ('f, 'v, unit) action" where
  "refresh_errno H s = out_bind (outside (wrap_outside_errno H) s) (\<lambda>e s. Return () (s\<lparr>errno := e\<rparr>))"

text \<open>The shape of most functions: call outside, refresh \<^verbatim>\<open>errno\<close> (some only after a failure),
  return the result.\<close>

definition call_errno ::
  "('f, mem \<times> 'v) host \<Rightarrow> (u32 \<Rightarrow> bool) \<Rightarrow> ('f, mem \<times> 'v) wrapper \<Rightarrow> ('f, 'v) libc" where
  "call_errno H failed w s =
     out_bind (outside w s) (\<lambda>ret s.
       if failed ret then out_bind (refresh_errno H s) (\<lambda>_ s. Return ret s) else Return ret s)"

section \<open>System calls\<close>

definition access :: "('f, mem \<times> 'v) host \<Rightarrow> u32 \<Rightarrow> u32 \<Rightarrow> ('f, 'v) libc" where
  [libc_def]: "access H pathname mode = call_errno H (\<lambda>_. True) (wrap_outside_access H pathname mode)"

definition close :: "('f, mem \<times> 'v) host \<Rightarrow> u32 \<Rightarrow> ('f, 'v) libc" where
  [libc_def]: "close H fd = call_errno H (\<lambda>_. True) (wrap_outside_close H fd)"

definition chdir :: "('f, mem \<times> 'v) host \<Rightarrow> u32 \<Rightarrow> ('f, 'v) libc" where
  [libc_def]: "chdir H path = call_errno H (\<lambda>_. True) (wrap_outside_chdir H path)"

definition chmod :: "('f, mem \<times> 'v) host \<Rightarrow> u32 \<Rightarrow> u32 \<Rightarrow> ('f, 'v) libc" where
  [libc_def]: "chmod H path mode = call_errno H (\<lambda>_. True) (wrap_outside_chmod H path mode)"

definition dup2 :: "('f, mem \<times> 'v) host \<Rightarrow> u32 \<Rightarrow> u32 \<Rightarrow> ('f, 'v) libc" where
  [libc_def]: "dup2 H oldfd newfd = call_errno H (\<lambda>_. True) (wrap_outside_dup2 H oldfd newfd)"

definition dup :: "('f, mem \<times> 'v) host \<Rightarrow> u32 \<Rightarrow> ('f, 'v) libc" where
  [libc_def]: "dup H oldfd = call_errno H (\<lambda>_. True) (wrap_outside_dup H oldfd)"

definition execv :: "('f, mem \<times> 'v) host \<Rightarrow> u32 \<Rightarrow> u32 \<Rightarrow> ('f, 'v) libc" where
  [libc_def]: "execv H path argv = call_errno H (\<lambda>_. True) (wrap_outside_execv H path argv)"

definition execvp :: "('f, mem \<times> 'v) host \<Rightarrow> u32 \<Rightarrow> u32 \<Rightarrow> ('f, 'v) libc" where
  [libc_def]: "execvp H path argv = call_errno H (\<lambda>_. True) (wrap_outside_execvp H path argv)"

definition fork :: "('f, mem \<times> 'v) host \<Rightarrow> ('f, 'v) libc" where
  [libc_def]: "fork H = call_errno H (\<lambda>_. True) (wrap_outside_fork H)"

definition fstat :: "('f, mem \<times> 'v) host \<Rightarrow> u32 \<Rightarrow> u32 \<Rightarrow> ('f, 'v) libc" where
  [libc_def]: "fstat H fd buf = call_errno H (\<lambda>_. True) (wrap_outside_fstat H fd buf)"

definition ftruncate :: "('f, mem \<times> 'v) host \<Rightarrow> u32 \<Rightarrow> u32 \<Rightarrow> ('f, 'v) libc" where
  [libc_def]: "ftruncate H fd len = call_errno H (\<lambda>_. True) (wrap_outside_ftruncate H fd len)"

definition isatty :: "('f, mem \<times> 'v) host \<Rightarrow> u32 \<Rightarrow> ('f, 'v) libc" where
  [libc_def]: "isatty H fd = call_errno H (\<lambda>_. True) (wrap_outside_isatty H fd)"

definition lseek :: "('f, mem \<times> 'v) host \<Rightarrow> u32 \<Rightarrow> u32 \<Rightarrow> u32 \<Rightarrow> ('f, 'v) libc" where
  [libc_def]: "lseek H fd off whence = call_errno H (\<lambda>_. True) (wrap_outside_lseek H fd off whence)"

definition mkdir :: "('f, mem \<times> 'v) host \<Rightarrow> u32 \<Rightarrow> u32 \<Rightarrow> ('f, 'v) libc" where
  [libc_def]: "mkdir H pathname mode = call_errno H (\<lambda>_. True) (wrap_outside_mkdir H pathname mode)"

definition open_c :: "('f, mem \<times> 'v) host \<Rightarrow> u32 \<Rightarrow> u32 \<Rightarrow> u32 \<Rightarrow> ('f, 'v) libc" where
  [libc_def]: "open_c H pathname flags mode = call_errno H (\<lambda>_. True) (wrap_outside_open H pathname flags mode)"

definition pipe :: "('f, mem \<times> 'v) host \<Rightarrow> u32 \<Rightarrow> ('f, 'v) libc" where
  [libc_def]: "pipe H fds = call_errno H (\<lambda>_. True) (wrap_outside_pipe H fds)"

definition read :: "('f, mem \<times> 'v) host \<Rightarrow> u32 \<Rightarrow> u32 \<Rightarrow> u32 \<Rightarrow> ('f, 'v) libc" where
  [libc_def]: "read H fd buf count = call_errno H (\<lambda>_. True) (wrap_outside_read H fd buf count)"

definition rename :: "('f, mem \<times> 'v) host \<Rightarrow> u32 \<Rightarrow> u32 \<Rightarrow> ('f, 'v) libc" where
  [libc_def]: "rename H oldpath newpath = call_errno H (\<lambda>_. True) (wrap_outside_rename H oldpath newpath)"

definition rmdir :: "('f, mem \<times> 'v) host \<Rightarrow> u32 \<Rightarrow> ('f, 'v) libc" where
  [libc_def]: "rmdir H path = call_errno H (\<lambda>_. True) (wrap_outside_rmdir H path)"

definition select :: "('f, mem \<times> 'v) host \<Rightarrow> u32 \<Rightarrow> u32 \<Rightarrow> u32 \<Rightarrow> u32 \<Rightarrow> u32 \<Rightarrow> ('f, 'v) libc" where
  [libc_def]: "select H n rfds wfds xfds tv = call_errno H (\<lambda>_. True) (wrap_outside_select H n rfds wfds xfds tv)"

definition mystat :: "('f, mem \<times> 'v) host \<Rightarrow> u32 \<Rightarrow> u32 \<Rightarrow> ('f, 'v) libc" where
  [libc_def]: "mystat H file_name buf = call_errno H (\<lambda>_. True) (wrap_outside_stat H file_name buf)"

definition stat :: "('f, mem \<times> 'v) host \<Rightarrow> u32 \<Rightarrow> u32 \<Rightarrow> ('f, 'v) libc" where
  [libc_def]: "stat H file_name buf = call_errno H (\<lambda>_. True) (wrap_outside_stat H file_name buf)"

definition lstat :: "('f, mem \<times> 'v) host \<Rightarrow> u32 \<Rightarrow> u32 \<Rightarrow> ('f, 'v) libc" where
  [libc_def]: "lstat H file_name buf = call_errno H (\<lambda>_. True) (wrap_outside_lstat H file_name buf)"

definition times_c :: "('f, mem \<times> 'v) host \<Rightarrow> u32 \<Rightarrow> ('f, 'v) libc" where
  [libc_def]: "times_c H buf = call_errno H (\<lambda>_. True) (wrap_outside_times H buf)"

definition truncate :: "('f, mem \<times> 'v) host \<Rightarrow> u32 \<Rightarrow> u32 \<Rightarrow> ('f, 'v) libc" where
  [libc_def]: "truncate H path len = call_errno H (\<lambda>_. True) (wrap_outside_truncate H path len)"

definition unlink :: "('f, mem \<times> 'v) host \<Rightarrow> u32 \<Rightarrow> ('f, 'v) libc" where
  [libc_def]: "unlink H path = call_errno H (\<lambda>_. True) (wrap_outside_unlink H path)"

definition wait :: "('f, mem \<times> 'v) host \<Rightarrow> u32 \<Rightarrow> ('f, 'v) libc" where
  [libc_def]: "wait H status = call_errno H (\<lambda>_. True) (wrap_outside_wait H status)"

definition write_c :: "('f, mem \<times> 'v) host \<Rightarrow> u32 \<Rightarrow> u32 \<Rightarrow> u32 \<Rightarrow> ('f, 'v) libc" where
  [libc_def]: "write_c H fd buf count = call_errno H (\<lambda>_. True) (wrap_outside_write H fd buf count)"

definition opendir :: "('f, mem \<times> 'v) host \<Rightarrow> u32 \<Rightarrow> ('f, 'v) libc" where
  [libc_def]: "opendir H name = call_errno H (\<lambda>_. True) (wrap_outside_opendir H name)"

definition closedir :: "('f, mem \<times> 'v) host \<Rightarrow> u32 \<Rightarrow> ('f, 'v) libc" where
  [libc_def]: "closedir H dir = call_errno H (\<lambda>_. True) (wrap_outside_closedir H dir)"

definition readdir :: "('f, mem \<times> 'v) host \<Rightarrow> u32 \<Rightarrow> ('f, 'v) libc" where
  [libc_def]: "readdir H dir = call_errno H (\<lambda>_. True) (wrap_outside_readdir H dir)"

section \<open>Calls that never leave the sandbox\<close>

definition EPERM :: u32 where "EPERM = 1"
definition E2BIG :: u32 where "E2BIG = 7"
definition ENOTTY :: u32 where "ENOTTY = 25"
definition ENOSYS :: u32 where "ENOSYS = 38"

definition myabort :: "('f, 'v) libc" where
  "myabort s = Halt Trapped"

definition execlp :: "u32 \<Rightarrow> u32 \<Rightarrow> ('f, 'v) libc" where
  "execlp path args s = out_bind (myabort s) (\<lambda>_. set_errno ENOSYS (- 1))"

definition execle :: "u32 \<Rightarrow> u32 \<Rightarrow> ('f, 'v) libc" where
  "execle path args s = out_bind (myabort s) (\<lambda>_. set_errno ENOSYS (- 1))"

definition execve :: "u32 \<Rightarrow> u32 \<Rightarrow> u32 \<Rightarrow> ('f, 'v) libc" where
  "execve path argv envp s = out_bind (myabort s) (\<lambda>_. set_errno ENOSYS (- 1))"

definition fcntl :: "u32 \<Rightarrow> u32 \<Rightarrow> ('f, 'v) libc" where
  "fcntl fd cmd = set_errno ENOSYS (- 1)"

definition ioctl :: "u32 \<Rightarrow> u32 \<Rightarrow> ('f, 'v) libc" where
  "ioctl fd request = set_errno ENOSYS (- 1)"

definition kill :: "u32 \<Rightarrow> u32 \<Rightarrow> ('f, 'v) libc" where
  "kill pid sig = set_errno EPERM (- 1)"

definition setuid :: "u32 \<Rightarrow> ('f, 'v) libc" where
  "setuid uid = set_errno EPERM (- 1)"

definition setgid :: "u32 \<Rightarrow> ('f, 'v) libc" where
  "setgid gid = set_errno EPERM (- 1)"

definition getpagesize :: u32 where "getpagesize = 8192"
definition getuid :: u32 where "getuid = 15168"
definition geteuid :: u32 where "geteuid = 15168"
definition getgid :: u32 where "getgid = 15168"
definition getegid :: u32 where "getegid = 15168"
definition getpid :: u32 where "getpid = 2163"

definition signal :: "u32 \<Rightarrow> u32 \<Rightarrow> u32" where
  "signal signum handler = 0"

definition sysconf :: "u32 \<Rightarrow> u32" where
  "sysconf name = (if name = 2 then 1000 else - 1)"

definition system :: "u32 \<Rightarrow> u32" where
  "system str = - 1"

definition utime :: "u32 \<Rightarrow> u32 \<Rightarrow> u32" where
  "utime filename buf = 0"

definition ctime :: "image \<Rightarrow> u32 \<Rightarrow> addr" where
  "ctime I timep = literal I (''Wed Jun 30 21:49:08 1993'' @ [CHR 0x0A])"

definition strerror :: "image \<Rightarrow> u32 \<Rightarrow> addr" where
  "strerror I errnum = literal I ''an error message''"

definition gettext :: "addr \<Rightarrow> addr" where
  "gettext msgid = msgid"

definition ttyname :: "('f, mem \<times> 'v) host \<Rightarrow> image \<Rightarrow> u32 \<Rightarrow> ('f, 'v) libc" where
  "ttyname H I fd s =
     out_bind (isatty H fd s) (\<lambda>r.
       if r \<noteq> 0 then Return (literal I ''/dev/tty'') else set_errno ENOTTY 0)"

section \<open>Calls with a local array\<close>

text \<open>The bytes of a string constant.\<close>

definition bytes_of :: "string \<Rightarrow> byte list" where
  "bytes_of cs = map of_char cs"

text \<open>A copy of a string constant, with its terminator.\<close>

definition put_string :: "addr \<Rightarrow> string \<Rightarrow> ('f, 'v) lib \<Rightarrow> ('f, 'v) lib" where
  "put_string a cs = map_mem (write_bytes a (bytes_of cs @ [0]))"

text \<open>Words side by side, as \<^verbatim>\<open>argv\<close> or the arguments of a variadic call are.\<close>

fun put_words :: "addr \<Rightarrow> u32 list \<Rightarrow> mem \<Rightarrow> mem" where
  "put_words a [] m = m"
| "put_words a (x # xs) m = put_words (a + 4) xs (store32 a x m)"

definition getcwd :: "addr \<Rightarrow> u32 \<Rightarrow> ('f, 'v) libc" where
  "getcwd buf sz s =
     (if sz \<ge> 4 then Return buf (put_string buf ''/tmp'' s) else set_errno ERANGE 0 s)"

text \<open>The loop stores an argument, then gives up when more than 250 are stored.\<close>

fun execl_args :: "addr \<Rightarrow> nat \<Rightarrow> u32 list \<Rightarrow> mem \<Rightarrow> nat option \<times> mem" where
  "execl_args argv i [] m = (Some i, m)"
| "execl_args argv i (a # as) m =
     (let m' = store32 (argv + of_nat (4 * i)) a m
      in if i + 1 > 250 then (None, m') else execl_args argv (i + 1) as m')"

definition execl :: "('f, mem \<times> 'v) host \<Rightarrow> image \<Rightarrow> u32 \<Rightarrow> u32 \<Rightarrow> u32 list \<Rightarrow> ('f, 'v) libc" where
  "execl H I path arg0 args s =
     (let argv = frame_at I
      in case execl_args argv 1 args (store32 argv arg0 (lmem s)) of
           (None, m) \<Rightarrow> set_errno E2BIG (- 1) (map_mem (\<lambda>_. m) s)
         | (Some i, m) \<Rightarrow>
             call_errno H (\<lambda>_. True) (wrap_outside_execv H path argv)
               (map_mem (\<lambda>_. store32 (argv + of_nat (4 * i)) 0 m) s))"

text \<open>\<^verbatim>\<open>tv\<close> is in the frame; its first word is \<^verbatim>\<open>tv_sec\<close>.\<close>

definition time :: "('f, mem \<times> 'v) host \<Rightarrow> image \<Rightarrow> addr \<Rightarrow> ('f, 'v) libc" where
  "time H I t s =
     out_bind (outside (wrap_gettimeofday H (frame_at I) 0) s) (\<lambda>_ s.
       let sec = load32 (lmem s) (frame_at I)
       in Return sec (if t \<noteq> 0 then map_mem (store32 t sec) s else s))"

definition localtime :: "('f, mem \<times> 'v) host \<Rightarrow> u32 \<Rightarrow> ('f, 'v) libc" where
  "localtime H timep = outside (wrap_gmtime H timep)"

definition exit_c :: "u32 \<Rightarrow> ('f, 'v) libc" where
  "exit_c status = outside (wrap_exit status)"

text \<open>\<^verbatim>\<open>_exit\<close>, as long as there is no \<^verbatim>\<open>atexit\<close>.\<close>

definition u_exit :: "u32 \<Rightarrow> ('f, 'v) libc" where
  "u_exit status = exit_c status"

end
