(* ===== verification/SFI_Malloc.thy ===== *)
theory SFI_Malloc
  imports SFI_Libc
begin

text \<open>
  The sandbox's allocator (\<^verbatim>\<open>src/libc.c\<close>): Kingsley's buckets of powers of two. A block of bucket
  \<open>b\<close> has \<open>2 ^ (b + 3)\<close> bytes, the first four its header: the address of the next free block
  while it is free, a magic byte and the bucket while it is in use.
\<close>

section \<open>The operations\<close>

definition MAGIC :: byte where "MAGIC = 0xff"

definition NBUCKETS :: nat where "NBUCKETS = 30"

definition sbrk :: "layout \<Rightarrow> u32 \<Rightarrow> ('f, 'v) libc" where
  "sbrk L incr = outside (wrap_sbrk L incr)"

lemma unat_drop_bit_1: "unat (drop_bit 1 (x :: u32)) = unat x div 2"
  by (simp add: drop_bit_eq_div unat_div)

lemma drop_bit_1_less: "drop_bit 1 (x :: u32) \<noteq> 0 \<Longrightarrow> unat (drop_bit 1 x) < unat x"
  unfolding unat_drop_bit_1 by (metis div_less_dividend drop_bit_of_0 gr0I one_less_numeral_iff semiring_norm(76) unsigned_eq_0_iff)

text \<open>\<^verbatim>\<open>while (shiftr >>= 1) bucket++;\<close>\<close>

function bucket_loop :: "u32 \<Rightarrow> nat \<Rightarrow> nat" where
  "bucket_loop sh b = (if drop_bit 1 sh = 0 then b else bucket_loop (drop_bit 1 sh) (Suc b))"
  by pat_completeness auto

termination
  by (relation "measure (\<lambda>(sh, b). unat sh)") (simp_all add: drop_bit_1_less [unfolded One_nat_def])

declare bucket_loop.simps [simp del]

definition block_units :: "u32 \<Rightarrow> u32" where
  "block_units nbytes = (nbytes + 4 + 3) AND NOT 3"

definition bucket_of :: "u32 \<Rightarrow> nat" where
  "bucket_of nbytes = bucket_loop (drop_bit 2 (block_units nbytes - 1)) 0"

text \<open>The \<open>n\<close> blocks after the first are chained to it; the header of the last is not written.\<close>

fun link_blocks :: "addr \<Rightarrow> u32 \<Rightarrow> nat \<Rightarrow> mem \<Rightarrow> mem" where
  "link_blocks op siz 0 m = m"
| "link_blocks op siz (Suc n) m = link_blocks (op + siz) siz n (store32 op (op + siz) m)"

text \<open>Asking for \<open>2 ^ 32\<close> bytes is an undefined shift.\<close>

definition morecore :: "layout \<Rightarrow> nat \<Rightarrow> ('f, 'v, unit) action" where
  "morecore L bucket s =
     (if nextf s ! bucket \<noteq> 0 then Return () s
      else out_bind (sbrk L 0 s) (\<lambda>op s.
           out_bind (if op AND 0x3ff \<noteq> 0 then sbrk L (1024 - (op AND 0x3ff)) s else Return 0 s) (\<lambda>_ s.
             let rnu = (if bucket \<le> 8 then 11 else bucket + 3);
                 nblks = 2 ^ (rnu - (bucket + 3));
                 rnu = (if rnu < bucket then bucket else rnu)
             in if rnu \<ge> 32 then Halt (Out_of_bounds (int rnu))
                else out_bind (sbrk L (push_bit rnu 1) s) (\<lambda>op s.
                  if op = - 1 then Return () s
                  else let (op, nblks) = (if op AND 7 \<noteq> 0 then ((op + 8) AND NOT 7, nblks - 1)
                                          else (op, nblks)) :: u32 \<times> int
                       in Return () (map_mem (link_blocks op (push_bit (bucket + 3) 1) (nat (nblks - 1)))
                                       (s\<lparr>nextf := (nextf s)[bucket := op]\<rparr>))))))"

text \<open>A message for a free list that leads out of the data region.\<close>

definition check_next :: "('f, mem \<times> 'v) host \<Rightarrow> image \<Rightarrow> layout \<Rightarrow> addr \<Rightarrow> ('f, 'v) libc" where
  "check_next H I L p s =
     (let x = load32 (lmem s) p
      in if x \<noteq> 0 \<and> (x < DATA_START L \<or> x \<ge> DATA_START L + DATA_SIZE L)
         then outside (wrap_printf H (literal I (''Corrupt malloc ptr 0x%x at %p'' @ [CHR 0x0A])) (frame_at I))
                (map_mem (put_words (frame_at I) [x, p]) s)
         else Return 0 s)"

definition malloc :: "('f, mem \<times> 'v) host \<Rightarrow> image \<Rightarrow> layout \<Rightarrow> u32 \<Rightarrow> ('f, 'v) libc" where
  "malloc H I L nbytes s =
     (let bucket = bucket_of nbytes
      in out_bind (if nextf s ! bucket = 0 then morecore L bucket s else Return () s) (\<lambda>_ s.
         let p = nextf s ! bucket
         in if p = 0 then Return 0 s
            else out_bind (check_next H I L p s) (\<lambda>_ s.
              Return (p + 4)
                (map_mem (\<lambda>m. m(p := MAGIC, p + 1 := of_nat bucket))
                  (s\<lparr>nextf := (nextf s)[bucket := load32 (lmem s) (nextf s ! bucket)]\<rparr>)))))"

definition free :: "addr \<Rightarrow> ('f, 'v, unit) action" where
  "free cp s =
     (if cp = 0 then Return () s
      else let op = cp - 4; sz = unat (lmem s (op + 1))
           in if lmem s op \<noteq> MAGIC then Return () s
              else if sz \<ge> NBUCKETS then Halt (Out_of_bounds (int sz))
              else Return () (map_mem (store32 op (nextf s ! sz)) (s\<lparr>nextf := (nextf s)[sz := op]\<rparr>)))"

text \<open>The copy runs over the smaller of the two sizes.\<close>

definition realloc :: "('f, mem \<times> 'v) host \<Rightarrow> image \<Rightarrow> layout \<Rightarrow> addr \<Rightarrow> u32 \<Rightarrow> ('f, 'v) libc" where
  "realloc H I L cp nbytes s =
     (if cp = 0 then malloc H I L nbytes s
      else let i = unat (lmem s (cp - 4 + 1)); onb = push_bit (i + 3) 1 - 4 :: u32
           in if i + 3 \<ge> 32 then Halt (Out_of_bounds (int (i + 3)))
              else if nbytes \<le> onb \<and> nbytes > drop_bit 1 onb - 4 then Return cp s
              else out_bind (malloc H I L nbytes s) (\<lambda>res s.
                if res = 0 then Return 0 s
                else out_bind (free cp (if cp \<noteq> res
                       then map_mem (\<lambda>m. snd (memcpy res cp (if nbytes < onb then nbytes else onb) m)) s
                       else s)) (\<lambda>_. Return res)))"

definition calloc :: "('f, mem \<times> 'v) host \<Rightarrow> image \<Rightarrow> layout \<Rightarrow> u32 \<Rightarrow> u32 \<Rightarrow> ('f, 'v) libc" where
  "calloc H I L nmemb sz s =
     (let len = nmemb * sz
      in out_bind (malloc H I L len s) (\<lambda>buf s.
           if buf = 0 then Return 0 s else Return buf (map_mem (\<lambda>m. snd (memset buf 0 len m)) s)))"

definition vmalloc :: "('f, mem \<times> 'v) host \<Rightarrow> image \<Rightarrow> layout \<Rightarrow> u32 \<Rightarrow> ('f, 'v) libc" where
  "vmalloc H I L sz s =
     out_bind (malloc H I L sz s) (\<lambda>ptr s.
       if ptr AND 8191 = 0 then Return ptr s
       else out_bind (free ptr s) (\<lambda>_ s.
         out_bind (malloc H I L (sz + 8192) s) (\<lambda>q. Return ((q + 8191) AND NOT 8191))))"

end
