(* ===== verification/SFI_Heap.thy ===== *)
theory SFI_Heap
  imports SFI_Malloc
begin

text \<open>
  The allocator's invariant: free lists are chains in memory, blocks lie below the break and do
  not overlap, and each operation moves one block between the free lists and the blocks in use.
  The break comes from an interface (\<open>break_source\<close>) that the loader's \<^verbatim>\<open>sbrk\<close> provides.
\<close>

section \<open>The break as a source of memory\<close>

text \<open>What an allocator needs: growing returns the old position and moves it, or fails when there
  is no room.\<close>

locale break_source =
  fixes grow :: "nat \<Rightarrow> 's \<Rightarrow> u32 \<times> 's" and pos :: "'s \<Rightarrow> nat" and limit :: nat and ok :: "'s \<Rightarrow> bool"
  assumes room: "ok s \<Longrightarrow> k \<le> 2 ^ 31 \<Longrightarrow> pos s + k < limit \<Longrightarrow>
      fst (grow k s) = of_nat (pos s) \<and> pos (snd (grow k s)) = pos s + k \<and> ok (snd (grow k s))"
    and full: "ok s \<Longrightarrow> k \<le> 2 ^ 31 \<Longrightarrow> limit \<le> pos s + k \<Longrightarrow> grow k s = (- 1, s)"
begin

lemma step:
  assumes "ok s" "k \<le> 2 ^ 31"
  obtains "fst (grow k s) = of_nat (pos s)" "pos (snd (grow k s)) = pos s + k" "ok (snd (grow k s))" "pos s + k < limit"
  | "grow k s = (- 1, s)" "limit \<le> pos s + k"
  using room [OF assms] full [OF assms] by (cases "pos s + k < limit") auto

text \<open>Moving up to a multiple of 1024 first makes the area that follows aligned; when even that
  fails, so does the request.\<close>

lemma aligned_area:
  assumes "ok s" and "1024 \<le> k" and "k \<le> 2 ^ 31"
    and t: "t = (if pos s mod 1024 = 0 then s else snd (grow (1024 - pos s mod 1024) s))"
  shows "ok (snd (grow k t)) \<and> pos s \<le> pos (snd (grow k t)) \<and>
    (fst (grow k t) = - 1 \<or>
     (\<exists>a. fst (grow k t) = of_nat a \<and> 1024 dvd a \<and> pos s \<le> a \<and> pos (snd (grow k t)) = a + k \<and> a + k < limit))"
proof (cases "pos s mod 1024 = 0")
  case True
  then have t: "t = s" and "1024 dvd pos s" using t by (simp_all add: dvd_eq_mod_eq_0)
  then show ?thesis
    by (cases rule: step [OF assms(1,3)]) (use assms(1) in \<open>auto intro!: exI [of _ "pos s"]\<close>)
next
  case False
  define d where "d = 1024 - pos s mod 1024"
  have d: "d \<le> 2 ^ 31" "d \<le> k" using assms(2) by (simp_all add: d_def)
  have t: "t = snd (grow d s)" using t False by (simp add: d_def)
  show ?thesis
  proof (rule step [OF assms(1) d(1)])
    assume u: "pos (snd (grow d s)) = pos s + d" "ok (snd (grow d s))"
    obtain q r where q: "pos s = 1024 * q + r" "r < 1024"
    using mult_div_mod_eq [of 1024 "pos s"] mod_less_divisor [of 1024 "pos s"] by (metis zero_less_numeral)
  then have "pos s + d = 1024 * (q + 1)" by (simp add: d_def)
  then have "1024 dvd pos s + d" by simp
    then have al: "1024 dvd pos t" "pos s \<le> pos t" using u(1) t by simp_all
    have "ok t" using u(2) t by simp
    then show ?thesis
      by (cases rule: step [OF _ assms(3)]) (use al in \<open>auto intro!: exI [of _ "pos t"]\<close>)
  next
    assume u: "grow d s = (- 1, s)" "limit \<le> pos s + d"
    then have "t = s" using t by simp
    moreover have "grow k s = (- 1, s)" using u(2) d(2) by (intro full assms) simp
    ultimately show ?thesis using assms(1) by simp
  qed
qed

text \<open>With room for the alignment and the request, the request succeeds.\<close>

lemma aligned_area_room:
  assumes "ok s" and "k \<le> 2 ^ 31" and "pos s + 1024 + k \<le> limit"
    and t: "t = (if pos s mod 1024 = 0 then s else snd (grow (1024 - pos s mod 1024) s))"
  shows "fst (grow k t) = of_nat (pos t) \<and> pos (snd (grow k t)) = pos t + k \<and>
    pos s \<le> pos t \<and> pos t < pos s + 1024"
proof (cases "pos s mod 1024 = 0")
  case True
  then show ?thesis using room [OF assms(1,2)] assms(3) t by simp
next
  case False
  define d where "d = 1024 - pos s mod 1024"
  have d: "d < 1024" using False by (simp add: d_def)
  have u: "pos t = pos s + d \<and> ok t" using room [OF assms(1), of d] d assms(3) t False by (simp add: d_def)
  then show ?thesis using room [OF _ assms(2), of t] d assms(3) by auto
qed

end

text \<open>The loader's \<^verbatim>\<open>sbrk\<close> is such a source, in every layout.\<close>

definition brk :: "('f, 'v) lib \<Rightarrow> nat" where
  "brk s = unat (data_break (trusted s))"

definition move_break :: "u32 \<Rightarrow> ('f, 'v) lib \<Rightarrow> ('f, 'v) lib" where
  "move_break a s = s\<lparr>trusted := (trusted s)\<lparr>data_break := a\<rparr>\<rparr>"

definition grow :: "layout \<Rightarrow> nat \<Rightarrow> ('f, 'v) lib \<Rightarrow> u32 \<times> ('f, 'v) lib" where
  "grow L k s = (case sbrk L (of_nat k) s of Return r s' \<Rightarrow> (r, s') | _ \<Rightarrow> (0, s))"

lemma sbrk_eq:
  "sbrk L k s = (let a = data_break (trusted s) + k
     in if DATA_START L < a \<and> a < DATA_END L then Return (data_break (trusted s)) (move_break a s)
        else Return (- 1) s)"
  by (simp add: sbrk_def outside_def wrap_sbrk_def Let_def move_break_def int_result_def)

lemma sbrk_grow: "sbrk L (of_nat k) s = Return (fst (grow L k s)) (snd (grow L k s))"
  by (simp add: grow_def sbrk_eq Let_def)

lemma data_end_bound: "unat (DATA_END (compute_sizes sz)) \<le> 2 ^ 31"
  by (cases sz) (simp_all add: DATA_END_def layout_eval)

interpretation loader_break: break_source "grow (compute_sizes sz)" brk "unat (DATA_END (compute_sizes sz))"
  "\<lambda>s. break_ok (compute_sizes sz) (trusted s)" for sz
proof
  fix s :: "('f, 'v) lib" and k
  let ?L = "compute_sizes sz" and ?a = "data_break (trusted s) + of_nat k"
  assume s: "break_ok ?L (trusted s)" and k: "k \<le> 2 ^ 31"
  have "brk s < unat (DATA_END ?L)" using s by (simp add: break_ok_def brk_def word_less_nat_alt)
  then have a: "unat ?a = brk s + k"
    using k data_end_bound [of sz] by (simp add: brk_def unat_word_ariths unsigned_of_nat take_bit_nat_eq_self)
  have lo: "DATA_START ?L < ?a"
    using a s by (simp add: break_ok_def brk_def word_less_nat_alt)
  have hi: "?a < DATA_END ?L \<longleftrightarrow> brk s + k < unat (DATA_END ?L)"
    using a by (simp add: word_less_nat_alt)
  show "fst (grow ?L k s) = of_nat (brk s) \<and> brk (snd (grow ?L k s)) = brk s + k \<and>
      break_ok ?L (trusted (snd (grow ?L k s)))" if "brk s + k < unat (DATA_END ?L)"
    using that lo hi a by (simp add: grow_def sbrk_eq Let_def move_break_def brk_def break_ok_def)
  show "grow ?L k s = (- 1, s)" if "unat (DATA_END ?L) \<le> brk s + k"
    using that lo hi by (simp add: grow_def sbrk_eq Let_def)
qed

section \<open>Blocks\<close>

text \<open>Free lists as in memory: every header holds the address of the next block.\<close>

fun chain :: "mem \<Rightarrow> addr \<Rightarrow> nat list \<Rightarrow> bool" where
  "chain m p [] \<longleftrightarrow> p = 0"
| "chain m p (x # xs) \<longleftrightarrow> p = of_nat x \<and> 0 < x \<and> chain m (load32 m (of_nat x)) xs"

text \<open>A block is an address and a bucket.\<close>

definition blk :: "nat \<times> nat \<Rightarrow> nat set" where
  "blk x = {fst x ..< fst x + 2 ^ (snd x + 3)}"

definition free_blocks :: "(nat \<Rightarrow> nat list) \<Rightarrow> (nat \<times> nat) set" where
  "free_blocks F = {(a, b). b < NBUCKETS \<and> a \<in> set (F b)}"

definition geometry :: "nat \<Rightarrow> nat \<Rightarrow> (nat \<times> nat) set \<Rightarrow> bool" where
  "geometry lo hi B \<longleftrightarrow>
     (\<forall>x \<in> B. snd x < NBUCKETS \<and> lo \<le> fst x \<and> fst x + 2 ^ (snd x + 3) \<le> hi) \<and>
     (\<forall>x \<in> B. \<forall>y \<in> B. x \<noteq> y \<longrightarrow> blk x \<inter> blk y = {})"

text \<open>Memory that is the same outside a set of addresses.\<close>

definition same_off :: "nat set \<Rightarrow> mem \<Rightarrow> mem \<Rightarrow> bool" where
  "same_off S m m' \<longleftrightarrow> (\<forall>x. unat x \<notin> S \<longrightarrow> m' x = m x)"

lemma unat_of_nat32: "x < 2 ^ 32 \<Longrightarrow> unat (of_nat x :: u32) = x"
  by (simp add: unsigned_of_nat take_bit_nat_eq_self)

lemma same_off_trans: "same_off S m m' \<Longrightarrow> same_off T m' m'' \<Longrightarrow> same_off (S \<union> T) m m''"
  by (simp add: same_off_def)

lemma same_off_mono: "same_off S m m' \<Longrightarrow> S \<subseteq> T \<Longrightarrow> same_off T m m'"
  by (auto simp: same_off_def)

lemma same_off_refl [simp]: "same_off S m m"
  by (simp add: same_off_def)

lemma same_offD: "same_off S m m' \<Longrightarrow> j < 2 ^ 32 \<Longrightarrow> j \<notin> S \<Longrightarrow> m' (of_nat j) = m (of_nat j)"
  by (simp add: same_off_def unat_of_nat32)

lemma in_range_nat: "unat a + n \<le> 2 ^ 32 \<Longrightarrow> in_range a n x \<longleftrightarrow> unat x \<in> {unat a ..< unat a + n}"
proof
  assume n: "unat a + n \<le> 2 ^ 32" "in_range a n x"
  then obtain i where i: "i < n" "x = a + of_nat i" using in_range_iff [of n a x] by auto
  then have "unat x = unat a + i" using n(1) by (simp add: unat_word_ariths unsigned_of_nat take_bit_nat_eq_self)
  then show "unat x \<in> {unat a ..< unat a + n}" using i by simp
next
  assume n: "unat a + n \<le> 2 ^ 32" "unat x \<in> {unat a ..< unat a + n}"
  then have "unat (x - a) = unat x - unat a" by (simp add: unat_sub_if')
  then show "in_range a n x" using n by (auto simp: in_range_def)
qed

lemma load32_same:
  assumes "same_off S m m'" "x + 4 \<le> 2 ^ 32" "S \<inter> {x ..< x + 4} = {}"
  shows "load32 m' (of_nat x) = load32 m (of_nat x)"
proof (rule load32_cong)
  fix y :: addr assume "in_range (of_nat x) 4 y"
  then have "unat y \<in> {x ..< x + 4}"
    using assms(2) in_range_nat [of "of_nat x" 4 y] unat_of_nat32 [of x] by auto
  then show "m' y = m y" using assms(1,3) by (auto simp: same_off_def)
qed

lemma same_off_store32: "x + 4 \<le> 2 ^ 32 \<Longrightarrow> same_off {x ..< x + 4} m (store32 (of_nat x) w m)"
  unfolding same_off_def
proof (intro allI impI store32_other)
  fix y :: addr assume "x + 4 \<le> 2 ^ 32" "unat y \<notin> {x ..< x + 4}"
  then show "\<not> in_range (of_nat x) 4 y" using in_range_nat [of "of_nat x" 4 y] unat_of_nat32 [of x] by simp
qed

lemma header_in_blk: "{fst x ..< fst x + 4} \<subseteq> blk x"
proof -
  have "(4 :: nat) \<le> 2 ^ (snd x + 3)" by (simp add: power_add)
  then show ?thesis by (auto simp: blk_def)
qed

lemma geometry_range:
  assumes "geometry lo hi B" "x \<in> B" "hi \<le> 2 ^ 32"
  shows "fst x + 8 \<le> 2 ^ 32" "blk x \<subseteq> {lo ..< hi}"
proof -
  have "fst x + 2 ^ (snd x + 3) \<le> hi" "lo \<le> fst x" using assms(1,2) by (simp_all add: geometry_def)
  moreover have "(8 :: nat) \<le> 2 ^ (snd x + 3)" by (simp add: power_add)
  ultimately show "fst x + 8 \<le> 2 ^ 32" "blk x \<subseteq> {lo ..< hi}" using assms(3) by (auto simp: blk_def)
qed

text \<open>A write inside one block leaves the headers of the others alone.\<close>

lemma other_header:
  assumes "same_off S m m'" "geometry lo hi B" "y \<in> B" "hi \<le> 2 ^ 32" "S \<inter> blk y = {}"
  shows "load32 m' (of_nat (fst y)) = load32 m (of_nat (fst y))"
    "m' (of_nat (fst y)) = m (of_nat (fst y))" "m' (of_nat (fst y + 1)) = m (of_nat (fst y + 1))"
proof -
  note r = geometry_range(1) [OF assms(2,3,4)]
  have h: "S \<inter> {fst y ..< fst y + 4} = {}" using assms(5) header_in_blk [of y] by blast
  show "load32 m' (of_nat (fst y)) = load32 m (of_nat (fst y))"
    using r h by (intro load32_same [OF assms(1)]) simp_all
  have n: "fst y \<notin> S" "fst y + 1 \<notin> S" using h by auto
  show "m' (of_nat (fst y)) = m (of_nat (fst y))" using r n by (intro same_offD [OF assms(1)]) simp_all
  show "m' (of_nat (fst y + 1)) = m (of_nat (fst y + 1))" using r n by (intro same_offD [OF assms(1)]) simp_all
qed

lemma chain_cong:
  "chain m p xs \<Longrightarrow> (\<And>x. x \<in> set xs \<Longrightarrow> load32 m' (of_nat x) = load32 m (of_nat x)) \<Longrightarrow> chain m' p xs"
  by (induction xs arbitrary: p) auto

lemma chain_0: "chain m 0 xs \<Longrightarrow> set xs \<subseteq> {..< 2 ^ 32} \<Longrightarrow> xs = []"
  by (cases xs) (auto simp: word_of_nat_eq_0_iff dest: nat_dvd_not_less)

section \<open>Fresh blocks\<close>

lemma link_blocks_chain:
  assumes "8 \<le> siz" "0 < a" "a + (n + 1) * siz \<le> 2 ^ 32" "\<And>j. j \<in> {a ..< a + (n + 1) * siz} \<Longrightarrow> m (of_nat j) = 0"
  shows "chain (link_blocks (of_nat a) (of_nat siz) n m) (of_nat a) (map (\<lambda>i. a + i * siz) [0..<n + 1]) \<and>
    same_off {a ..< a + n * siz} m (link_blocks (of_nat a) (of_nat siz) n m)"
  using assms(2-4)
proof (induction n arbitrary: a m)
  case 0
  have z: "m (of_nat a + of_nat k) = 0" if "k < 4" for k
    using 0(3) [of "a + k"] that assms(1) by simp
  then have "load32 m (of_nat a) = 0"
    using z [of 0] z [of 1] z [of 2] z [of 3] by (simp add: load32_def)
  then show ?case using 0(1) by simp
next
  case (Suc n)
  let ?m = "store32 (of_nat a) (of_nat a + of_nat siz) m"
  have r: "a + siz + (n + 1) * siz \<le> 2 ^ 32" using Suc(3) by (simp add: algebra_simps)
  have "a + 4 \<le> 2 ^ 32" using r assms(1) by simp
  then have s1: "same_off {a ..< a + 4} m ?m" by (rule same_off_store32)
  have f: "?m (of_nat j) = 0" if "j \<in> {a + siz ..< a + siz + (n + 1) * siz}" for j
  proof -
    have "j < 2 ^ 32" "j \<notin> {a ..< a + 4}" "j \<in> {a ..< a + (Suc n + 1) * siz}"
      using that r assms(1) by (auto simp: algebra_simps)
    then show ?thesis using same_offD [OF s1, of j] Suc(4) [of j] by simp
  qed
  have IH: "chain (link_blocks (of_nat (a + siz)) (of_nat siz) n ?m) (of_nat (a + siz)) (map (\<lambda>i. a + siz + i * siz) [0..<n + 1])"
    "same_off {a + siz ..< a + siz + n * siz} ?m (link_blocks (of_nat (a + siz)) (of_nat siz) n ?m)"
    using Suc(1) [of "a + siz" ?m] r f assms(1) by auto
  let ?r = "link_blocks (of_nat a + of_nat siz) (of_nat siz) n ?m"
  have IH': "chain ?r (of_nat a + of_nat siz) (map (\<lambda>i. a + siz + i * siz) [0..<n + 1])"
    "same_off {a + siz ..< a + siz + n * siz} ?m ?r"
    using IH by simp_all
  have "load32 ?r (of_nat a) = load32 ?m (of_nat a)"
    using r assms(1) by (intro load32_same [OF IH'(2)]) auto
  then have l: "load32 ?r (of_nat a) = of_nat a + of_nat siz" by simp
  have "map (\<lambda>i. a + i * siz) [0..<Suc n + 1] = a # map (\<lambda>i. a + siz + i * siz) [0..<n + 1]"
    by (simp add: map_upt_Suc add.assoc del: upt_Suc)
  moreover have "same_off {a ..< a + Suc n * siz} m ?r"
    by (rule same_off_mono [OF same_off_trans [OF s1 IH'(2)]]) (use assms(1) in auto)
  ultimately show ?case using l IH'(1) Suc(2) by (simp del: upt_Suc)
qed

section \<open>The heap\<close>

text \<open>\<open>F\<close> lists the free blocks of each bucket, \<open>A\<close> is the set of blocks in use. All blocks lie
  between the start of the data region and the break and do not overlap; memory beyond the
  break is still zero.\<close>

definition heap_ok :: "layout \<Rightarrow> (nat \<Rightarrow> nat list) \<Rightarrow> (nat \<times> nat) set \<Rightarrow> ('f, 'v) lib \<Rightarrow> bool" where
  "heap_ok L F A s \<longleftrightarrow>
     length (nextf s) = NBUCKETS \<and> break_ok L (trusted s) \<and>
     (\<forall>b < NBUCKETS. chain (lmem s) (nextf s ! b) (F b) \<and> distinct (F b)) \<and>
     A \<inter> free_blocks F = {} \<and>
     geometry (unat (DATA_START L)) (brk s) (A \<union> free_blocks F) \<and>
     (\<forall>x \<in> A. lmem s (of_nat (fst x)) = MAGIC \<and> lmem s (of_nat (fst x + 1)) = of_nat (snd x)) \<and>
     (\<forall>j. brk s \<le> j \<and> j < unat (DATA_END L) \<longrightarrow> lmem s (of_nat j) = 0)"

lemma lmem_simps [simp]:
  "lmem (map_mem g s) = g (lmem s)" "lmem (s\<lparr>nextf := ns\<rparr>) = lmem s" "lmem (move_break a s) = lmem s"
  by (simp_all add: lmem_def map_mem_def move_break_def)

lemma state_simps [simp]:
  "nextf (map_mem g s) = nextf s" "data_break (trusted (map_mem g s)) = data_break (trusted s)"
  "nextf (move_break a s) = nextf s" "brk (map_mem g s) = brk s" "brk (s\<lparr>nextf := ns\<rparr>) = brk s"
  "break_ok L (trusted (map_mem g s)) = break_ok L (trusted s)"
  by (simp_all add: map_mem_def move_break_def brk_def break_ok_def)

lemma grow_simps [simp]: "lmem (snd (grow L k s)) = lmem s" "nextf (snd (grow L k s)) = nextf s"
  by (simp_all add: grow_def sbrk_eq Let_def)

lemma brk_less: "break_ok (compute_sizes sz) (trusted s) \<Longrightarrow> brk s < unat (DATA_END (compute_sizes sz))"
  "break_ok (compute_sizes sz) (trusted s) \<Longrightarrow> unat (DATA_START (compute_sizes sz)) \<le> brk s"
  by (simp_all add: break_ok_def brk_def word_less_nat_alt)

lemma geometry_mono: "geometry lo hi B \<Longrightarrow> hi \<le> hi' \<Longrightarrow> geometry lo hi' B"
  by (fastforce simp: geometry_def)

lemma geometry_add:
  assumes "geometry lo hi B" "hi \<le> a" "lo \<le> a" "a + n * 2 ^ (b + 3) \<le> hi'" "b < NBUCKETS"
  shows "geometry lo hi' (B \<union> (\<lambda>i. (a + i * 2 ^ (b + 3), b)) ` {..<n})"
proof -
  let ?w = "2 ^ (b + 3) :: nat" and ?N = "(\<lambda>i. (a + i * 2 ^ (b + 3), b)) ` {..<n}"
  have step: "a + i * ?w + ?w \<le> a + j * ?w" if "i < j" for i j
    using mult_le_mono1 [of "Suc i" j ?w] that by simp
  have new: "snd x = b \<and> a \<le> fst x \<and> fst x + ?w \<le> hi'" if "x \<in> ?N" for x
    using that step [of _ n] assms(4) by fastforce
  have old: "fst x + 2 ^ (snd x + 3) \<le> a" "snd x < NBUCKETS" "lo \<le> fst x" if "x \<in> B" for x
    using that assms(1,2) by (fastforce simp: geometry_def)+
  have mixed: "blk x \<inter> blk y = {}" if "x \<in> B" "y \<in> ?N" for x y
    using old(1) [OF that(1)] new [OF that(2)] by (auto simp: blk_def)
  have nn: "blk x \<inter> blk y = {}" if xy: "x \<in> ?N" "y \<in> ?N" "x \<noteq> y" for x y
  proof -
    obtain i j where ij: "x = (a + i * ?w, b)" "y = (a + j * ?w, b)" using xy by auto
    then have "i < j \<or> j < i" using xy(3) by auto
    then show ?thesis using step [of i j] step [of j i] unfolding ij blk_def by auto
  qed
  have bb: "blk x \<inter> blk y = {}" if "x \<in> B" "y \<in> B" "x \<noteq> y" for x y
    using assms(1) that by (auto simp: geometry_def)
  have dis: "blk x \<inter> blk y = {}" if "x \<in> B \<union> ?N" "y \<in> B \<union> ?N" "x \<noteq> y" for x y
    using that nn [of x y] bb [of x y] mixed [of x y] mixed [of y x] Int_commute [of "blk x" "blk y"] by blast
  have "snd x < NBUCKETS \<and> lo \<le> fst x \<and> fst x + 2 ^ (snd x + 3) \<le> hi'" if "x \<in> B \<union> ?N" for x
    using that
  proof
    assume "x \<in> B"
    then show ?thesis using old [of x] assms(4) by simp
  next
    assume "x \<in> ?N"
    then show ?thesis using new [of x] assms(3,5) by simp
  qed
  then show ?thesis unfolding geometry_def using dis by blast
qed

lemma sbrk_0: "break_ok L (trusted s) \<Longrightarrow> sbrk L 0 s = Return (data_break (trusted s)) s"
  by (simp add: sbrk_eq break_ok_def move_break_def)

lemma and_low: "unat (x AND 0x3ff :: u32) = unat x mod 1024" "1024 dvd k \<Longrightarrow> (of_nat k :: u32) AND 7 = 0"
proof -
  have "x AND 0x3ff = take_bit 10 x" by (simp add: take_bit_eq_mask mask_eq_exp_minus_1)
  then show "unat (x AND 0x3ff) = unat x mod 1024" by (simp add: unat_take_bit)
  assume "1024 dvd k"
  then obtain q where "k = 2 ^ 10 * q" by auto
  then have "(of_nat k :: u32) = push_bit 10 (of_nat q)" by (simp add: push_bit_eq_mult mult.commute)
  moreover have "(push_bit 10 (of_nat q :: u32)) AND mask 3 = 0" by (rule bit_word_eqI) (auto simp: bit_simps)
  ultimately show "(of_nat k :: u32) AND 7 = 0" by (simp add: mask_eq_exp_minus_1)
qed

text \<open>The alignment step ends in the state that the locale's lemma is about.\<close>

lemma morecore_eq:
  assumes "break_ok L (trusted s)" "nextf s ! b = 0" "b < 29"
    and t: "t = (if brk s mod 1024 = 0 then s else snd (grow L (1024 - brk s mod 1024) s))"
    and n: "n = (if b \<le> 8 then 2 ^ (8 - b) else 1)"
    and g: "grow L (n * 2 ^ (b + 3)) t = (r, u)"
  shows "morecore L b s =
    (if r = - 1 then Return () u
     else let (op, nblks) = (if r AND 7 \<noteq> 0 then ((r + 8) AND NOT 7, int n - 1) else (r, int n))
          in Return () (map_mem (link_blocks op (push_bit (b + 3) 1) (nat (nblks - 1)))
               (u\<lparr>nextf := (nextf u)[b := op]\<rparr>)))"
proof -
  let ?rnu = "if b \<le> 8 then 11 else b + 3" and ?op = "data_break (trusted s)"
  have k: "n * 2 ^ (b + 3) = 2 ^ ?rnu" by (simp add: n flip: power_add)
  have "push_bit ?rnu (1 :: u32) = of_nat (n * 2 ^ (b + 3))"
    unfolding k by (simp add: push_bit_eq_mult)
  then have s3: "sbrk L (push_bit ?rnu 1) t = Return r u" by (simp only: sbrk_grow g fst_conv snd_conv)
  have rnu: "\<not> ?rnu < b" "\<not> 32 \<le> ?rnu" using assms(3) by simp_all
  have nb: "(2 :: int) ^ (?rnu - (b + 3)) = int n" by (simp add: n)
  have z: "?op AND 0x3ff = 0 \<longleftrightarrow> brk s mod 1024 = 0"
    using and_low(1) [of ?op] unat_eq_zero [of "?op AND 0x3ff"] by (simp only: brk_def)
  have m: "brk s mod 1024 \<le> 1024" using mod_less_divisor [of 1024 "brk s"] by (simp del: mod_less_divisor)
  have "?op AND 0x3ff = of_nat (brk s mod 1024)"
    unfolding word_unat_eq_iff and_low(1) brk_def by (rule unat_of_nat32 [symmetric], rule less_trans [OF mod_less_divisor]) simp_all
  then have e: "1024 - (?op AND 0x3ff) = of_nat (1024 - brk s mod 1024)" using m by (simp add: of_nat_diff)
  have al: "out_bind (if ?op AND 0x3ff \<noteq> 0 then sbrk L (1024 - (?op AND 0x3ff)) s else Return 0 s) (\<lambda>_. f) = f t" for f
    by (cases "brk s mod 1024 = 0") (simp_all only: t z e sbrk_grow out_bind.simps simp_thms if_True if_False)
  show ?thesis
    unfolding morecore_def sbrk_0 [OF assms(1)] out_bind.simps al
    using assms(2) rnu s3 nb by (simp add: Let_def n)
qed

lemma heap_okD:
  assumes "heap_ok L F A s"
  shows "length (nextf s) = NBUCKETS" "break_ok L (trusted s)"
    "b < NBUCKETS \<Longrightarrow> chain (lmem s) (nextf s ! b) (F b)" "b < NBUCKETS \<Longrightarrow> distinct (F b)"
    "A \<inter> free_blocks F = {}" "geometry (unat (DATA_START L)) (brk s) (A \<union> free_blocks F)"
    "x \<in> A \<Longrightarrow> lmem s (of_nat (fst x)) = MAGIC \<and> lmem s (of_nat (fst x + 1)) = of_nat (snd x)"
    "brk s \<le> j \<Longrightarrow> j < unat (DATA_END L) \<Longrightarrow> lmem s (of_nat j) = 0"
  using assms by (auto simp: heap_ok_def)

text \<open>Moving the break up keeps the heap.\<close>

lemma heap_ok_brk:
  assumes "heap_ok L F A s" "lmem u = lmem s" "nextf u = nextf s" "break_ok L (trusted u)" "brk s \<le> brk u"
  shows "heap_ok L F A u"
  unfolding heap_ok_def
proof (intro conjI)
  show "geometry (unat (DATA_START L)) (brk u) (A \<union> free_blocks F)"
    by (rule geometry_mono [OF heap_okD(6) [OF assms(1)] assms(5)])
  show "\<forall>j. brk u \<le> j \<and> j < unat (DATA_END L) \<longrightarrow> lmem u (of_nat j) = 0"
    using heap_okD(8) [OF assms(1)] assms(2,5) by simp
qed (use assms(1-4) in \<open>simp_all add: heap_ok_def\<close>)

text \<open>Adding a list of linked blocks.\<close>

lemma heap_ok_link:
  assumes H: "heap_ok L F A u" and b: "b < NBUCKETS" "nextf u ! b = 0"
    and lo: "lo \<le> a" "geometry (unat (DATA_START L)) lo (A \<union> free_blocks F)" "unat (DATA_START L) \<le> lo" "0 < lo"
    and area: "a + n * 2 ^ (b + 3) = brk u" "0 < n"
    and zero: "\<And>j. a \<le> j \<Longrightarrow> j < brk u \<Longrightarrow> lmem u (of_nat j) = 0"
    and hi: "unat (DATA_END L) \<le> 2 ^ 31" "brk u < unat (DATA_END L)"
    and w: "w = map_mem (link_blocks (of_nat a) (push_bit (b + 3) 1) (n - 1)) (u\<lparr>nextf := (nextf u)[b := of_nat a]\<rparr>)"
  shows "heap_ok L (F(b := map (\<lambda>i. a + i * 2 ^ (b + 3)) [0..<n])) A w \<and> same_off {lo ..< 2 ^ 32} (lmem u) (lmem w)"
proof -
  let ?siz = "2 ^ (b + 3) :: nat" and ?xs = "map (\<lambda>i. a + i * 2 ^ (b + 3)) [0..<n]"
  let ?F = "F(b := ?xs)"
  have siz: "8 \<le> ?siz" by (simp add: power_add)
  have pb: "push_bit (b + 3) (1 :: u32) = of_nat ?siz" by (simp add: push_bit_eq_mult)
  have n: "n - 1 + 1 = n" using area(2) by simp
  have a: "0 < a" "a + n * ?siz \<le> 2 ^ 32" using lo(1,4) area(1) hi by simp_all
  have L: "chain (lmem w) (of_nat a) ?xs" "same_off {a ..< a + (n - 1) * ?siz} (lmem u) (lmem w)"
    using link_blocks_chain [OF siz a(1), of "n - 1" "lmem u"] a(2) zero area(1) unfolding n w pb by auto
  have off: "same_off {a ..< brk u} (lmem u) (lmem w)"
    by (rule same_off_mono [OF L(2)]) (use area in \<open>auto simp: algebra_simps\<close>)
  have Fb: "F b = []"
  proof -
    have "set (F b) \<subseteq> {..<2 ^ 32}"
    proof
      fix x assume "x \<in> set (F b)"
      then have "(x, b) \<in> A \<union> free_blocks F" using b(1) by (simp add: free_blocks_def)
      from geometry_range(1) [OF heap_okD(6) [OF H] this] hi show "x \<in> {..<2 ^ 32}" by simp
    qed
    then show ?thesis using chain_0 heap_okD(3) [OF H b(1)] b(2) by simp
  qed
  have fb: "free_blocks ?F = free_blocks F \<union> (\<lambda>i. (a + i * 2 ^ (b + 3), b)) ` {..<n}"
    using Fb b(1) by (auto simp: free_blocks_def image_iff split: if_splits)
  have old: "blk x \<inter> {a ..< brk u} = {}" if "x \<in> A \<union> free_blocks F" for x
    using geometry_range(2) [OF lo(2) that] lo(1) hi by fastforce
  have hd: "load32 (lmem w) (of_nat (fst x)) = load32 (lmem u) (of_nat (fst x))"
    "lmem w (of_nat (fst x)) = lmem u (of_nat (fst x))" "lmem w (of_nat (fst x + 1)) = lmem u (of_nat (fst x + 1))"
    if "x \<in> A \<union> free_blocks F" for x
  proof -
    have l: "lo \<le> 2 ^ 32" "{a ..< brk u} \<inter> blk x = {}" using lo(1) a(2) old [OF that] by auto
    show "load32 (lmem w) (of_nat (fst x)) = load32 (lmem u) (of_nat (fst x))"
      "lmem w (of_nat (fst x)) = lmem u (of_nat (fst x))" "lmem w (of_nat (fst x + 1)) = lmem u (of_nat (fst x + 1))"
      by (rule other_header [OF off lo(2) that l])+
  qed
  have "heap_ok L ?F A w"
    unfolding heap_ok_def
  proof (intro conjI)
    show "length (nextf w) = NBUCKETS" using heap_okD(1) [OF H] w by simp
    show "break_ok L (trusted w)" using heap_okD(2) [OF H] w by simp
    show "\<forall>c < NBUCKETS. chain (lmem w) (nextf w ! c) (?F c) \<and> distinct (?F c)"
    proof (intro allI impI)
      fix c assume c: "c < NBUCKETS"
      show "chain (lmem w) (nextf w ! c) (?F c) \<and> distinct (?F c)"
      proof (cases "c = b")
        case True
        then show ?thesis using L(1) w c heap_okD(1) [OF H] by (simp add: distinct_map inj_on_def)
      next
        case False
        have "chain (lmem w) (nextf u ! c) (F c)"
        proof (rule chain_cong [OF heap_okD(3) [OF H c]])
          fix x assume "x \<in> set (F c)"
          then have "(x, c) \<in> A \<union> free_blocks F" using c by (simp add: free_blocks_def)
          from hd(1) [OF this] show "load32 (lmem w) (of_nat x) = load32 (lmem u) (of_nat x)" by simp
        qed
        then show ?thesis using False heap_okD(4) [OF H c] w by simp
      qed
    qed
    show "geometry (unat (DATA_START L)) (brk w) (A \<union> free_blocks ?F)"
      unfolding fb Un_assoc [symmetric]
      by (rule geometry_add [OF lo(2,1)]) (use lo area b(1) w in simp_all)
    have "x \<notin> A" if "x \<in> (\<lambda>i. (a + i * 2 ^ (b + 3), b)) ` {..<n}" for x
    proof
      assume "x \<in> A"
      then have "fst x + 2 ^ (snd x + 3) \<le> lo" using lo(2) by (auto simp: geometry_def)
      moreover have "(0 :: nat) < 2 ^ (snd x + 3)" by simp
      moreover have "a \<le> fst x" using that by auto
      ultimately show False using lo(1) by linarith
    qed
    then show "A \<inter> free_blocks ?F = {}" using heap_okD(5) [OF H] unfolding fb by blast
    show "\<forall>x \<in> A. lmem w (of_nat (fst x)) = MAGIC \<and> lmem w (of_nat (fst x + 1)) = of_nat (snd x)"
    proof
      fix x assume x: "x \<in> A"
      then show "lmem w (of_nat (fst x)) = MAGIC \<and> lmem w (of_nat (fst x + 1)) = of_nat (snd x)"
        using hd(2,3) [of x] heap_okD(7) [OF H x] by simp
    qed
    show "\<forall>j. brk w \<le> j \<and> j < unat (DATA_END L) \<longrightarrow> lmem w (of_nat j) = 0"
    proof (intro allI impI)
      fix j assume j: "brk w \<le> j \<and> j < unat (DATA_END L)"
      then have "lmem w (of_nat j) = lmem u (of_nat j)"
        using w hi by (intro same_offD [OF off]) simp_all
      then show "lmem w (of_nat j) = 0" using heap_okD(8) [OF H, of j] j w by simp
    qed
  qed
  moreover have "same_off {lo ..< 2 ^ 32} (lmem u) (lmem w)"
    by (rule same_off_mono [OF off]) (use lo(1) area a(2) in auto)
  ultimately show ?thesis by simp
qed

lemma morecore_ok:
  assumes H: "heap_ok (compute_sizes sz) F A s" and b: "b < 29" and z: "nextf s ! b = 0"
  obtains F' s' where "morecore (compute_sizes sz) b s = Return () s'" "heap_ok (compute_sizes sz) F' A s'"
    "same_off {brk s ..< 2 ^ 32} (lmem s) (lmem s')"
proof -
  let ?L = "compute_sizes sz"
  define t where "t = (if brk s mod 1024 = 0 then s else snd (grow ?L (1024 - brk s mod 1024) s))"
  define n :: nat where "n = (if b \<le> 8 then 2 ^ (8 - b) else 1)"
  define k where "k = n * 2 ^ (b + 3)"
  obtain r u where g: "grow ?L k t = (r, u)" by fastforce
  have k': "k = 2 ^ (if b \<le> 8 then 11 else b + 3)" by (simp add: k_def n_def flip: power_add)
  have "(2 :: nat) ^ 10 \<le> k" "k \<le> 2 ^ 31" unfolding k' using b by (intro power_increasing; simp)+
  then have k2: "1024 \<le> k" "k \<le> 2 ^ 31" by simp_all
  note bo = heap_okD(2) [OF H]
  have ar: "break_ok ?L (trusted u) \<and> brk s \<le> brk u \<and>
      (r = - 1 \<or> (\<exists>a. r = of_nat a \<and> 1024 dvd a \<and> brk s \<le> a \<and> brk u = a + k \<and> a + k < unat (DATA_END ?L)))"
    using loader_break.aligned_area [OF bo k2 t_def] g by simp
  have mem: "lmem u = lmem s" "nextf u = nextf s"
  proof -
    have "lmem t = lmem s" "nextf t = nextf s" by (simp_all add: t_def)
    then show "lmem u = lmem s" "nextf u = nextf s"
      using grow_simps [of ?L k t] g by simp_all
  qed
  note me = morecore_eq [OF bo z b t_def n_def, folded k_def, OF g]
  have Hu: "heap_ok ?L F A u" using heap_ok_brk [OF H mem] ar by simp
  show thesis
  proof (cases "r = - 1")
    case True
    then show thesis using that [OF _ Hu] me mem(1) by simp
  next
    case False
    then obtain a where a: "r = of_nat a" "1024 dvd a" "brk s \<le> a" "brk u = a + k" "a + k < unat (DATA_END ?L)"
      using ar by blast
    have al: "r AND 7 = 0" using and_low(2) [OF a(2)] a(1) by simp
    define w where "w = map_mem (link_blocks (of_nat a) (push_bit (b + 3) 1) (n - 1)) (u\<lparr>nextf := (nextf u)[b := of_nat a]\<rparr>)"
    have nb: "nat (int n - 1) = n - Suc 0" by simp
    have m: "morecore ?L b s = Return () w"
      using me False al a(1) nb by (simp add: w_def)
    have "heap_ok ?L (F(b := map (\<lambda>i. a + i * 2 ^ (b + 3)) [0..<n])) A w \<and> same_off {brk s ..< 2 ^ 32} (lmem u) (lmem w)"
    proof (rule heap_ok_link [OF Hu _ _ a(3) heap_okD(6) [OF H] _ _ _ _ _ data_end_bound _ w_def])
      show "b < NBUCKETS" using b by (simp add: NBUCKETS_def)
      show "nextf u ! b = 0" using z mem by simp
      show "unat (DATA_START ?L) \<le> brk s" by (rule brk_less(2) [OF bo])
      show "0 < brk s" using bo by (simp add: break_ok_def brk_def unat_gt_0) (metis word_not_simps(1))
      show "a + n * 2 ^ (b + 3) = brk u" using a(4) by (simp add: k_def)
      show "0 < n" by (simp add: n_def)
      show "lmem u (of_nat j) = 0" if "a \<le> j" "j < brk u" for j
        using heap_okD(8) [OF H, of j] that a(3-5) mem by simp
      show "brk u < unat (DATA_END ?L)" using a(4,5) by simp
    qed
    then show thesis using that [OF m conjunct1] mem(1) by simp
  qed
qed

text \<open>With room for the area, the bucket gets blocks, and the break moves by the area and at most the
  alignment.\<close>

definition area_size :: "nat \<Rightarrow> nat" where
  "area_size b = 2 ^ (if b \<le> 8 then 11 else b + 3)"

lemma morecore_room:
  assumes H: "heap_ok (compute_sizes sz) F A s" and b: "b < 29" and z: "nextf s ! b = 0"
    and room: "brk s + 1024 + area_size b \<le> unat (DATA_END (compute_sizes sz))"
    and m: "morecore (compute_sizes sz) b s = Return () s'"
  shows "nextf s' ! b \<noteq> 0 \<and> brk s' < brk s + 1024 + area_size b"
proof -
  let ?L = "compute_sizes sz"
  define t where "t = (if brk s mod 1024 = 0 then s else snd (grow ?L (1024 - brk s mod 1024) s))"
  define n :: nat where "n = (if b \<le> 8 then 2 ^ (8 - b) else 1)"
  have k: "area_size b = n * 2 ^ (b + 3)" by (simp add: area_size_def n_def flip: power_add)
  obtain r u where g: "grow ?L (area_size b) t = (r, u)" by fastforce
  note bo = heap_okD(2) [OF H]
  have k31: "area_size b \<le> 2 ^ 31" unfolding area_size_def using b by (intro power_increasing) simp_all
  from loader_break.aligned_area_room [OF bo k31 room t_def] g
  have r: "r = of_nat (brk t)" "brk u = brk t + area_size b" "brk s \<le> brk t" "brk t < brk s + 1024" by simp_all
  have pos: "0 < brk s" using bo by (simp add: break_ok_def brk_def unat_gt_0) (metis word_not_simps(1))
  have lt: "brk t + 1024 < 2 ^ 32" using r(4) room data_end_bound [of sz] by simp
  have len: "b < length (nextf u)"
  proof -
    have "nextf t = nextf s" by (simp add: t_def)
    then show ?thesis
      using grow_simps(2) [of ?L "area_size b" t] g heap_okD(1) [OF H] b by (simp add: NBUCKETS_def)
  qed
  have "unat r = brk t" unfolding r(1) using lt by (intro unat_of_nat32) simp
  then have r0: "r \<noteq> 0" "r \<noteq> - 1" using r(3) pos lt by (auto simp: unsigned_minus_1_eq_mask mask_nat_def)
  have "(2 :: nat) ^ 10 \<le> area_size b" unfolding area_size_def by (intro power_increasing) simp_all
  then obtain a where "r = of_nat a" "1024 dvd a"
    using loader_break.aligned_area [OF bo _ k31 t_def] g r0(2) by auto
  then have "r AND 7 = 0" using and_low(2) by simp
  then show ?thesis
    using morecore_eq [OF bo z b t_def n_def, folded k, OF g] m r0 r len by (auto simp: Let_def split: if_splits)
qed

section \<open>Buckets\<close>

lemma bucket_loop_bounds:
  "b \<le> bucket_loop sh b \<and> unat sh < 2 ^ (bucket_loop sh b - b + 1) \<and>
   (bucket_loop sh b = b \<or> 2 ^ (bucket_loop sh b - b) \<le> unat sh)"
proof (induction sh b rule: bucket_loop.induct)
  case (1 sh b)
  show ?case
  proof (cases "drop_bit 1 sh = 0")
    case True
    then have "unat sh div 2 = 0" using unat_drop_bit_1 [of sh] by simp
    then show ?thesis using True by (simp add: bucket_loop.simps [of sh b] del: drop_bit_Suc)
  next
    case False
    let ?c = "bucket_loop (drop_bit 1 sh) (Suc b)"
    have r: "bucket_loop sh b = ?c" using False by (subst bucket_loop.simps) simp
    have IH: "Suc b \<le> ?c" "unat sh div 2 < 2 ^ (?c - Suc b + 1)" "?c = Suc b \<or> 2 ^ (?c - Suc b) \<le> unat sh div 2"
      using 1 [OF False] unfolding unat_drop_bit_1 by simp_all
    obtain k where k: "?c = Suc b + k" using IH(1) le_Suc_ex by blast
    have "0 < unat sh div 2" using False unat_drop_bit_1 [of sh] unat_gt_0 by metis
    then have "2 ^ k \<le> unat sh div 2" using IH(3) k by auto
    moreover have "unat sh div 2 < 2 * 2 ^ k" using IH(2) k by simp
    ultimately have "2 * 2 ^ k \<le> unat sh" "unat sh < 4 * 2 ^ k" by arith+
    then show ?thesis unfolding r k by simp
  qed
qed

lemma unat_block_units: "unat n + 8 \<le> 2 ^ 32 \<Longrightarrow> unat (block_units n) = (unat n + 7) div 4 * 4"
proof -
  assume n: "unat n + 8 \<le> 2 ^ 32"
  have "block_units n = (n + 4 + 3) AND NOT (mask 2)" by (simp add: block_units_def mask_eq_exp_minus_1)
  moreover have "unat (n + 4 + 3) = unat n + 7" using n by (simp add: unat_word_ariths)
  ultimately show ?thesis by (simp add: unat_and_not_mask)
qed

lemma bucket_of_bounds:
  "bucket_of n < NBUCKETS"
  "unat n + 8 \<le> 2 ^ 31 \<Longrightarrow> bucket_of n < 29 \<and> unat n + 4 \<le> 2 ^ (bucket_of n + 3)"
proof -
  define sh where "sh = drop_bit 2 (block_units n - 1)"
  have b: "bucket_of n = bucket_loop sh 0" by (simp add: bucket_of_def sh_def)
  have B: "unat sh < 2 ^ (bucket_of n + 1)" "bucket_of n = 0 \<or> 2 ^ bucket_of n \<le> unat sh"
    using bucket_loop_bounds [of 0 sh] b by simp_all
  have sh: "unat sh = unat (block_units n - 1) div 4"
    by (simp add: sh_def drop_bit_eq_div unat_div)
  have "unat (block_units n - 1) < 2 ^ 32" by (rule less_le_trans [OF unsigned_less]) simp
  then have "unat sh < 2 ^ 30" using sh by simp
  then have "bucket_of n = 0 \<or> (2 :: nat) ^ bucket_of n < 2 ^ 30" using B(2) by linarith
  then show "bucket_of n < NBUCKETS"
    using power_less_imp_less_exp [of "2 :: nat" "bucket_of n" 30] by (auto simp: NBUCKETS_def)
  assume n: "unat n + 8 \<le> 2 ^ 31"
  define u where "u = (unat n + 7) div 4 * 4"
  have u: "unat n + 4 \<le> u" "u < 2 ^ 31" "unat (block_units n) = u" "4 dvd u"
    using n unat_block_units [of n] by (auto simp: u_def)
  then have "unat (block_units n - 1) = u - 1" by (simp add: unat_sub_if' word_le_nat_alt)
  then have s: "unat sh = (u - 1) div 4" using sh by simp
  then have "unat sh < 2 ^ 29" using u(2) by simp
  then have "bucket_of n = 0 \<or> (2 :: nat) ^ bucket_of n < 2 ^ 29" using B(2) by linarith
  then have "bucket_of n < 29" using power_less_imp_less_exp [of "2 :: nat" "bucket_of n" 29] by auto
  moreover have "u - 1 < 4 * (unat sh + 1)" using s by (simp add: dividend_less_times_div algebra_simps)
  then have "u - 1 < 4 * 2 ^ (bucket_of n + 1)"
    by (rule order.strict_trans2) (use Suc_leI [OF B(1)] in simp)
  ultimately show "bucket_of n < 29 \<and> unat n + 4 \<le> 2 ^ (bucket_of n + 3)" using u(1) by (simp add: power_add)
qed

text \<open>The block of the bucket is less than twice as large as it has to be, beyond the smallest.\<close>

lemma bucket_of_tight:
  assumes n: "unat n + 8 \<le> 2 ^ 31"
  shows "area_size (bucket_of n) \<le> 2048 + 2 * unat n"
proof (cases "bucket_of n \<le> 8")
  case False
  define sh where "sh = drop_bit 2 (block_units n - 1)"
  have b: "bucket_of n = bucket_loop sh 0" by (simp add: bucket_of_def sh_def)
  define u where "u = (unat n + 7) div 4 * 4"
  have u: "u \<le> unat n + 7" "1 \<le> u" unfolding u_def by (simp_all add: div_le_mono [of 4, simplified] Suc_le_eq div_greater_zero_iff)
  have "unat (block_units n) = u" unfolding u_def by (rule unat_block_units) (use n in simp)
  then have "unat (block_units n - 1) = u - 1" using u(2) by (simp add: unat_sub_if' word_le_nat_alt)
  then have "unat (block_units n - 1) \<le> unat n + 7" using u(1) by simp
  moreover have "unat sh = unat (block_units n - 1) div 4" by (simp add: sh_def drop_bit_eq_div unat_div)
  ultimately have "4 * unat sh \<le> unat n + 7" by simp
  moreover have "2 ^ bucket_of n \<le> unat sh" using bucket_loop_bounds [of 0 sh] b False by auto
  ultimately have "2 ^ (bucket_of n + 2) \<le> unat n + 7" by (simp add: power_add)
  then show ?thesis using False by (simp add: area_size_def power_add)
qed (simp add: area_size_def)

section \<open>Taking and giving back a block\<close>

text \<open>A step that changes the role of one block, its bytes and its free list only.\<close>

lemma heap_ok_change:
  assumes H: "heap_ok (compute_sizes sz) F A s" and z: "z \<in> A \<union> free_blocks F"
    and B: "A' \<union> free_blocks F' = A \<union> free_blocks F" "A' \<inter> free_blocks F' = {}" "A' \<subseteq> insert z A"
    and m: "same_off (blk z) (lmem s) (lmem s')" and same: "brk s' = brk s" "break_ok (compute_sizes sz) (trusted s')"
    and nx: "length (nextf s') = NBUCKETS" "\<And>c. c < NBUCKETS \<Longrightarrow> c \<noteq> b \<Longrightarrow> F' c = F c \<and> nextf s' ! c = nextf s ! c"
    and zb: "snd z = b" "chain (lmem s') (nextf s' ! b) (F' b)" "distinct (F' b)"
    and hd: "z \<in> A' \<Longrightarrow> lmem s' (of_nat (fst z)) = MAGIC \<and> lmem s' (of_nat (fst z + 1)) = of_nat (snd z)"
  shows "heap_ok (compute_sizes sz) F' A' s'"
proof -
  let ?L = "compute_sizes sz"
  note g = heap_okD(6) [OF H]
  have hi: "brk s \<le> 2 ^ 32" "brk s < unat (DATA_END ?L)"
    using brk_less(1) [OF heap_okD(2) [OF H]] data_end_bound [of sz] by simp_all
  have other: "load32 (lmem s') (of_nat (fst y)) = load32 (lmem s) (of_nat (fst y)) \<and>
      lmem s' (of_nat (fst y)) = lmem s (of_nat (fst y)) \<and> lmem s' (of_nat (fst y + 1)) = lmem s (of_nat (fst y + 1))"
    if y: "y \<in> A \<union> free_blocks F" "y \<noteq> z" for y
  proof -
    have "blk z \<inter> blk y = {}" using g z y unfolding geometry_def by metis
    then show ?thesis using other_header [OF m g y(1) hi(1)] by blast
  qed
  show ?thesis
    unfolding heap_ok_def
  proof (intro conjI)
    show "\<forall>c < NBUCKETS. chain (lmem s') (nextf s' ! c) (F' c) \<and> distinct (F' c)"
    proof (intro allI impI)
      fix c assume c: "c < NBUCKETS"
      show "chain (lmem s') (nextf s' ! c) (F' c) \<and> distinct (F' c)"
      proof (cases "c = b")
        case False
        have "chain (lmem s') (nextf s ! c) (F c)"
        proof (rule chain_cong [OF heap_okD(3) [OF H c]])
          fix x assume "x \<in> set (F c)"
          then have "(x, c) \<in> A \<union> free_blocks F" "(x, c) \<noteq> z" using c zb(1) False by (auto simp: free_blocks_def)
          from other [OF this] show "load32 (lmem s') (of_nat x) = load32 (lmem s) (of_nat x)" by simp
        qed
        then show ?thesis using nx(2) [OF c False] heap_okD(4) [OF H c] by simp
      qed (use zb in simp)
    qed
    show "geometry (unat (DATA_START ?L)) (brk s') (A' \<union> free_blocks F')" using g B(1) same by simp
    show "\<forall>x \<in> A'. lmem s' (of_nat (fst x)) = MAGIC \<and> lmem s' (of_nat (fst x + 1)) = of_nat (snd x)"
    proof
      fix x assume x: "x \<in> A'"
      show "lmem s' (of_nat (fst x)) = MAGIC \<and> lmem s' (of_nat (fst x + 1)) = of_nat (snd x)"
      proof (cases "x = z")
        case False
        then have "x \<in> A" using x B(3) by blast
        then show ?thesis using heap_okD(7) [OF H] other [of x] False by simp
      qed (use hd x in simp)
    qed
    show "\<forall>j. brk s' \<le> j \<and> j < unat (DATA_END ?L) \<longrightarrow> lmem s' (of_nat j) = 0"
    proof (intro allI impI)
      fix j assume j: "brk s' \<le> j \<and> j < unat (DATA_END ?L)"
      have "j \<notin> blk z" using geometry_range(2) [OF g z hi(1)] j same by auto
      moreover have "j < 2 ^ 32" using j data_end_bound [of sz] by simp
      ultimately have "lmem s' (of_nat j) = lmem s (of_nat j)" by (intro same_offD [OF m])
      then show "lmem s' (of_nat j) = 0" using heap_okD(8) [OF H, of j] j same by simp
    qed
  qed (use nx same B in simp_all)
qed

lemma same_off_bytes:
  assumes "x + 8 \<le> 2 ^ 32"
  shows "same_off {x ..< x + 4} m (m(of_nat x := v, of_nat x + 1 := w))"
proof -
  have "unat (of_nat x + 1 :: u32) = x + 1"
    using unat_of_nat32 [of "x + 1"] assms by (simp add: add.commute)
  then show ?thesis using unat_of_nat32 [of x] assms by (auto simp: same_off_def)
qed

lemma block_range:
  assumes "heap_ok (compute_sizes sz) F A s" "z \<in> A \<union> free_blocks F"
  shows "fst z + 8 \<le> 2 ^ 31" "0 < fst z" "unat (DATA_START (compute_sizes sz)) \<le> fst z" "fst z + 2 ^ (snd z + 3) \<le> brk s"
    "brk s < unat (DATA_END (compute_sizes sz))"
proof -
  have "(8 :: nat) \<le> 2 ^ (snd z + 3)" by (simp add: power_add)
  moreover show g: "fst z + 2 ^ (snd z + 3) \<le> brk s" "unat (DATA_START (compute_sizes sz)) \<le> fst z"
    using heap_okD(6) [OF assms(1)] assms(2) by (auto simp: geometry_def)
  moreover show "brk s < unat (DATA_END (compute_sizes sz))" by (rule brk_less(1) [OF heap_okD(2) [OF assms(1)]])
  ultimately show "fst z + 8 \<le> 2 ^ 31" using data_end_bound [of sz] by linarith
  have "0 < unat (DATA_START (compute_sizes sz))" by (cases sz) (simp_all add: layout_eval)
  then show "0 < fst z" using g by linarith
qed

lemma take_block:
  assumes H: "heap_ok (compute_sizes sz) F A s" and b: "b < NBUCKETS" and F: "F b = x # xs"
    and s': "s' = map_mem (\<lambda>m. m(of_nat x := MAGIC, of_nat x + 1 := of_nat b))
      (s\<lparr>nextf := (nextf s)[b := load32 (lmem s) (of_nat x)]\<rparr>)"
  shows "heap_ok (compute_sizes sz) (F(b := xs)) (insert (x, b) A) s' \<and> (x, b) \<notin> A \<and>
    same_off (blk (x, b)) (lmem s) (lmem s')"
proof -
  have z: "(x, b) \<in> free_blocks F" using b F by (simp add: free_blocks_def)
  then have z': "(x, b) \<in> A \<union> free_blocks F" by simp
  have d: "x \<notin> set xs" "distinct xs" using heap_okD(4) [OF H b] F by simp_all
  have fb: "free_blocks F = insert (x, b) (free_blocks (F(b := xs)))" "(x, b) \<notin> free_blocks (F(b := xs))"
    using b F d by (auto simp: free_blocks_def split: if_splits)
  have nA: "(x, b) \<notin> A" using z heap_okD(5) [OF H] by blast
  note r = block_range [OF H z', unfolded fst_conv snd_conv]
  have m4: "same_off {x ..< x + 4} (lmem s) (lmem s')" unfolding s' lmem_simps using r(1) by (intro same_off_bytes) simp
  have m: "same_off (blk (x, b)) (lmem s) (lmem s')"
    by (rule same_off_mono [OF m4]) (use header_in_blk [of "(x, b)"] in simp)
  have c: "chain (lmem s) (load32 (lmem s) (of_nat x)) xs" using heap_okD(3) [OF H b] F by simp
  have hi: "brk s \<le> 2 ^ 32" using r(5) data_end_bound [of sz] by simp
  have "chain (lmem s') (load32 (lmem s) (of_nat x)) xs"
  proof (rule chain_cong [OF c])
    fix y assume "y \<in> set xs"
    then have y: "(y, b) \<in> A \<union> free_blocks F" "(y, b) \<noteq> (x, b)" using b F d(1) by (auto simp: free_blocks_def)
    then have "blk (x, b) \<inter> blk (y, b) = {}" using heap_okD(6) [OF H] z' unfolding geometry_def by metis
    from other_header(1) [OF m heap_okD(6) [OF H] y(1) hi this]
    show "load32 (lmem s') (of_nat y) = load32 (lmem s) (of_nat y)" by simp
  qed
  then have "heap_ok (compute_sizes sz) (F(b := xs)) (insert (x, b) A) s'"
    using b nA fb heap_okD(5) [OF H] heap_okD(1,2) [OF H] d(2)
    by (intro heap_ok_change [OF H z' _ _ _ m, where b = b]) (auto simp: s')
  then show ?thesis using nA m by simp
qed

lemma give_block:
  assumes H: "heap_ok (compute_sizes sz) F A s" and z: "(x, b) \<in> A"
    and s': "s' = map_mem (store32 (of_nat x) (nextf s ! b)) (s\<lparr>nextf := (nextf s)[b := of_nat x]\<rparr>)"
  shows "heap_ok (compute_sizes sz) (F(b := x # F b)) (A - {(x, b)}) s' \<and> same_off (blk (x, b)) (lmem s) (lmem s')"
proof -
  have z': "(x, b) \<in> A \<union> free_blocks F" using z by simp
  note r = block_range [OF H z', unfolded fst_conv snd_conv]
  have b: "b < NBUCKETS" using heap_okD(6) [OF H] z' unfolding geometry_def by (metis snd_conv)
  have nF: "x \<notin> set (F b)" using heap_okD(5) [OF H] z b by (auto simp: free_blocks_def)
  have fb: "free_blocks (F(b := x # F b)) = insert (x, b) (free_blocks F)"
    using b by (auto simp: free_blocks_def split: if_splits)
  have m4: "same_off {x ..< x + 4} (lmem s) (lmem s')" unfolding s' using r(1) by (simp add: same_off_store32)
  have m: "same_off (blk (x, b)) (lmem s) (lmem s')"
    by (rule same_off_mono [OF m4]) (use header_in_blk [of "(x, b)"] in simp)
  have hi: "brk s \<le> 2 ^ 32" using r(5) data_end_bound [of sz] by simp
  have "chain (lmem s') (nextf s ! b) (F b)"
  proof (rule chain_cong [OF heap_okD(3) [OF H b]])
    fix y assume "y \<in> set (F b)"
    then have y: "(y, b) \<in> A \<union> free_blocks F" "(y, b) \<noteq> (x, b)" using b nF by (auto simp: free_blocks_def)
    then have "blk (x, b) \<inter> blk (y, b) = {}" using heap_okD(6) [OF H] z' unfolding geometry_def by metis
    from other_header(1) [OF m heap_okD(6) [OF H] y(1) hi this]
    show "load32 (lmem s') (of_nat y) = load32 (lmem s) (of_nat y)" by simp
  qed
  then have "chain (lmem s') (of_nat x) (x # F b)" using r(2) by (simp add: s')
  then have "heap_ok (compute_sizes sz) (F(b := x # F b)) (A - {(x, b)}) s'"
    using b z nF fb heap_okD(5) [OF H] heap_okD(1,2) [OF H] heap_okD(4) [OF H b]
    by (intro heap_ok_change [OF H z' _ _ _ m, where b = b]) (auto simp: s')
  then show ?thesis using m by simp
qed

section \<open>Allocation\<close>

definition heap_inv :: "layout \<Rightarrow> (nat \<times> nat) set \<Rightarrow> ('f, 'v) lib \<Rightarrow> bool" where
  "heap_inv L A s \<longleftrightarrow> (\<exists>F. heap_ok L F A s)"

text \<open>What a block's owner has stored stays.\<close>

definition keeps :: "(nat \<times> nat) set \<Rightarrow> ('f, 'v) lib \<Rightarrow> ('f, 'v) lib \<Rightarrow> bool" where
  "keeps A s s' \<longleftrightarrow> (\<forall>x \<in> A. \<forall>j \<in> blk x. lmem s' (of_nat j) = lmem s (of_nat j))"

lemma keeps_same_off:
  assumes "heap_ok (compute_sizes sz) F A s" "same_off S (lmem s) (lmem s')" "\<And>x. x \<in> B \<Longrightarrow> S \<inter> blk x = {}" "B \<subseteq> A"
  shows "keeps B s s'"
  unfolding keeps_def
proof (intro ballI)
  fix x j assume x: "x \<in> B" and j: "j \<in> blk x"
  have "j < 2 ^ 32"
    using block_range(4,5) [OF assms(1), of x] x assms(4) j data_end_bound [of sz] by (auto simp: blk_def)
  then show "lmem s' (of_nat j) = lmem s (of_nat j)"
    using assms(3) [OF x] j by (intro same_offD [OF assms(2)]) auto
qed

lemma keeps_trans: "keeps A s t \<Longrightarrow> keeps A t u \<Longrightarrow> keeps A s u"
  by (simp add: keeps_def)

lemma check_next_ok:
  assumes H: "heap_ok (compute_sizes sz) F A s" and b: "b < NBUCKETS" and F: "F b = x # xs"
  shows "check_next H' I (compute_sizes sz) (of_nat x) s = Return 0 s"
proof -
  let ?L = "compute_sizes sz" and ?y = "load32 (lmem s) (of_nat x)"
  have c: "chain (lmem s) ?y xs" using heap_okD(3) [OF H b] F by simp
  have "?y = 0 \<or> DATA_START ?L \<le> ?y \<and> ?y < DATA_START ?L + DATA_SIZE ?L"
  proof (cases xs)
    case (Cons y ys)
    then have z: "(y, b) \<in> A \<union> free_blocks F" and y: "?y = of_nat y" using b F c by (auto simp: free_blocks_def)
    note r = block_range [OF H z, unfolded fst_conv snd_conv]
    have u: "unat (of_nat y :: u32) = y" using r(1) by (intro unat_of_nat32) simp
    have "y < y + 2 ^ (b + 3)" by simp
    then show ?thesis using r u unfolding y word_le_nat_alt word_less_nat_alt u DATA_END_def by simp
  qed (use c in simp)
  then show ?thesis by (auto simp: check_next_def Let_def)
qed

lemma malloc_ok:
  assumes H: "heap_ok (compute_sizes sz) F A s" and n: "unat n + 8 \<le> 2 ^ 31"
  obtains p s' F' where "malloc H' I (compute_sizes sz) n s = Return p s'" "keeps A s s'"
    "p = 0 \<and> heap_ok (compute_sizes sz) F' A s' \<or>
     (\<exists>x. p = of_nat (x + 4) \<and> (x, bucket_of n) \<notin> A \<and> unat n + 4 \<le> 2 ^ (bucket_of n + 3) \<and>
        heap_ok (compute_sizes sz) F' (insert (x, bucket_of n) A) s')"
proof -
  let ?L = "compute_sizes sz" and ?b = "bucket_of n"
  note bb = bucket_of_bounds(2) [OF n] bucket_of_bounds(1) [of n]
  obtain F1 s1 where s1: "(if nextf s ! ?b = 0 then morecore ?L ?b s else Return () s) = Return () s1"
    "heap_ok ?L F1 A s1" "keeps A s s1"
  proof (cases "nextf s ! ?b = 0")
    case True
    obtain F' s' where m: "morecore ?L ?b s = Return () s'" "heap_ok ?L F' A s'"
      "same_off {brk s ..< 2 ^ 32} (lmem s) (lmem s')"
      using morecore_ok [OF H _ True] bb by blast
    have "keeps A s s'"
    proof (rule keeps_same_off [OF H m(3)])
      fix x assume "x \<in> A"
      then show "{brk s ..< 2 ^ 32} \<inter> blk x = {}" using block_range(4) [OF H, of x] by (auto simp: blk_def)
    qed simp
    then show thesis using that m True by simp
  next
    case False
    then show thesis using that [of s F] H by (simp add: keeps_def)
  qed
  show thesis
  proof (cases "nextf s1 ! ?b = 0")
    case True
    then have "malloc H' I ?L n s = Return 0 s1" using s1(1) by (simp add: malloc_def)
    then show thesis using that s1 by blast
  next
    case False
    have c: "chain (lmem s1) (nextf s1 ! ?b) (F1 ?b)" using heap_okD(3) [OF s1(2) bb(2)] .
    then obtain x xs where x: "F1 ?b = x # xs" "nextf s1 ! ?b = of_nat x"
      using False by (cases "F1 ?b") auto
    define s2 where "s2 = map_mem (\<lambda>m. m(of_nat x := MAGIC, of_nat x + 1 := of_nat ?b))
      (s1\<lparr>nextf := (nextf s1)[?b := load32 (lmem s1) (of_nat x)]\<rparr>)"
    have t: "heap_ok ?L (F1(?b := xs)) (insert (x, ?b) A) s2" "(x, ?b) \<notin> A" "same_off (blk (x, ?b)) (lmem s1) (lmem s2)"
      using take_block [OF s1(2) bb(2) x(1) s2_def] by simp_all
    have "malloc H' I ?L n s = Return (of_nat (x + 4)) s2"
      using s1(1) False check_next_ok [OF s1(2) bb(2) x(1)] x(2) by (simp add: malloc_def s2_def Let_def add.commute)
    moreover have "keeps A s1 s2"
    proof (rule keeps_same_off [OF s1(2) t(3)])
      fix y assume "y \<in> A"
      then show "blk (x, ?b) \<inter> blk y = {}"
        using heap_okD(6) [OF t(1)] t(2) unfolding geometry_def by (metis Un_iff insertCI)
    qed simp
    ultimately show thesis using that t bb keeps_trans [OF s1(3)] by blast
  qed
qed

text \<open>With room for a new area, an allocation succeeds.\<close>

lemma malloc_room:
  assumes H: "heap_ok (compute_sizes sz) F A s" and n: "unat n + 8 \<le> 2 ^ 31"
    and room: "brk s + 3072 + 2 * unat n \<le> unat (DATA_END (compute_sizes sz))"
    and m: "malloc H' I (compute_sizes sz) n s = Return p t"
  shows "p \<noteq> 0 \<and> brk t < brk s + 3072 + 2 * unat n"
proof -
  let ?L = "compute_sizes sz" and ?b = "bucket_of n"
  note bb = bucket_of_bounds(2) [OF n] bucket_of_bounds(1) [of n] and at = bucket_of_tight [OF n]
  have r: "brk s + 1024 + area_size ?b \<le> unat (DATA_END ?L)" using room at by simp
  obtain F1 s1 where s1: "(if nextf s ! ?b = 0 then morecore ?L ?b s else Return () s) = Return () s1"
    "heap_ok ?L F1 A s1" "nextf s1 ! ?b \<noteq> 0" "brk s1 < brk s + 3072 + 2 * unat n"
  proof (cases "nextf s ! ?b = 0")
    case True
    obtain F' s' where m: "morecore ?L ?b s = Return () s'" "heap_ok ?L F' A s'"
      using morecore_ok [OF H _ True] bb by blast
    then show thesis using that morecore_room [OF H _ True r m(1)] bb at True by auto
  next
    case False
    then show thesis using that [of s F] H by simp
  qed
  have "chain (lmem s1) (nextf s1 ! ?b) (F1 ?b)" using heap_okD(3) [OF s1(2) bb(2)] .
  then obtain x xs where x: "F1 ?b = x # xs" "nextf s1 ! ?b = of_nat x"
    using s1(3) by (cases "F1 ?b") auto
  then have "(x, ?b) \<in> A \<union> free_blocks F1" using bb(2) by (simp add: free_blocks_def)
  note br = block_range [OF s1(2) this, unfolded fst_conv snd_conv]
  have "unat (of_nat (x + 4) :: u32) = x + 4" using br(1) by (intro unat_of_nat32) simp
  then have "of_nat (x + 4) \<noteq> (0 :: u32)" by auto
  moreover have "p = of_nat (x + 4)" "brk t = brk s1"
    using m s1(1,3) check_next_ok [OF s1(2) bb(2) x(1), of H' I] x(2)
    by (auto simp: malloc_def Let_def add.commute brk_def map_mem_def)
  ultimately show ?thesis using s1(4) by simp
qed

lemma free_ok:
  assumes H: "heap_ok (compute_sizes sz) F A s" and z: "(x, b) \<in> A"
  obtains F' s' where "free (of_nat (x + 4)) s = Return () s'" "heap_ok (compute_sizes sz) F' (A - {(x, b)}) s'"
    "same_off (blk (x, b)) (lmem s) (lmem s')" "keeps (A - {(x, b)}) s s'"
proof -
  have z': "(x, b) \<in> A \<union> free_blocks F" using z by simp
  note r = block_range [OF H z', unfolded fst_conv snd_conv]
  have b: "b < NBUCKETS" using heap_okD(6) [OF H] z' unfolding geometry_def by (metis snd_conv)
  have hd: "lmem s (of_nat x) = MAGIC" "lmem s (of_nat x + 1) = of_nat b"
    using heap_okD(7) [OF H z] by (simp_all add: add.commute)
  have "unat (of_nat (x + 4) :: u32) = x + 4" using r(1) by (intro unat_of_nat32) simp
  then have nz: "of_nat (x + 4) \<noteq> (0 :: u32)" by (metis add_is_0 unsigned_0 zero_neq_numeral)
  have nb: "unat (of_nat b :: byte) = b" using b by (simp add: NBUCKETS_def unsigned_of_nat take_bit_nat_eq_self)
  define s' where "s' = map_mem (store32 (of_nat x) (nextf s ! b)) (s\<lparr>nextf := (nextf s)[b := of_nat x]\<rparr>)"
  have op: "of_nat (x + 4) - 4 = (of_nat x :: u32)" by simp
  have f: "free (of_nat (x + 4)) s = Return () s'"
    using hd nb b nz unfolding free_def op by (simp add: Let_def s'_def)
  have g: "heap_ok (compute_sizes sz) (F(b := x # F b)) (A - {(x, b)}) s'" "same_off (blk (x, b)) (lmem s) (lmem s')"
    using give_block [OF H z s'_def] by simp_all
  have "keeps (A - {(x, b)}) s s'"
  proof (rule keeps_same_off [OF H g(2)])
    fix y assume "y \<in> A - {(x, b)}"
    then show "blk (x, b) \<inter> blk y = {}"
      using heap_okD(6) [OF H] z unfolding geometry_def by (metis DiffE UnI1 insertI1)
  qed auto
  then show thesis using that f g by blast
qed

text \<open>The owner of a block may write anything behind its header.\<close>

lemma payload_write:
  assumes H: "heap_ok (compute_sizes sz) F A s" and z: "(x, b) \<in> A"
    and m: "same_off {x + 4 ..< x + 2 ^ (b + 3)} (lmem s) m'"
  shows "heap_ok (compute_sizes sz) F A (map_mem (\<lambda>_. m') s)"
proof -
  have z': "(x, b) \<in> A \<union> free_blocks F" using z by simp
  note r = block_range [OF H z', unfolded fst_conv snd_conv]
  have b: "b < NBUCKETS" using heap_okD(6) [OF H] z' unfolding geometry_def by (metis snd_conv)
  have hi: "brk s \<le> 2 ^ 32" using r(5) data_end_bound [of sz] by simp
  have m2: "same_off (blk (x, b)) (lmem s) m'" by (rule same_off_mono [OF m]) (auto simp: blk_def)
  have h: "m' (of_nat x) = lmem s (of_nat x)" "m' (of_nat (x + 1)) = lmem s (of_nat (x + 1))"
    using r(1) by (intro same_offD [OF m]; simp)+
  have "chain m' (nextf s ! b) (F b)"
  proof (rule chain_cong [OF heap_okD(3) [OF H b]])
    fix y assume "y \<in> set (F b)"
    then have y: "(y, b) \<in> free_blocks F" using b by (auto simp: free_blocks_def)
    then have "(y, b) \<noteq> (x, b)" using z heap_okD(5) [OF H] by blast
    then have "blk (x, b) \<inter> blk (y, b) = {}" using heap_okD(6) [OF H] z' y unfolding geometry_def by (metis UnI2)
    from other_header(1) [OF m2 heap_okD(6) [OF H] UnI2 hi this] y
    show "load32 m' (of_nat y) = load32 (lmem s) (of_nat y)" by simp
  qed
  then show ?thesis
    using heap_okD(1,2) [OF H] heap_okD(4) [OF H b] heap_okD(5) [OF H] heap_okD(7) [OF H z] h m2
    by (intro heap_ok_change [OF H z', where b = b]) auto
qed

text \<open>The block that \<^verbatim>\<open>malloc\<close> added, and what its owner stores there.\<close>

lemma new_block:
  assumes H: "heap_ok (compute_sizes sz) F (insert (x, b) A) t"
  shows "unat (of_nat (x + 4) :: u32) = x + 4" "of_nat (x + 4) \<noteq> (0 :: u32)" "x + 2 ^ (b + 3) \<le> 2 ^ 31"
    "(x, b) \<notin> A \<Longrightarrow> y \<in> A \<Longrightarrow> blk (x, b) \<inter> blk y = {}"
proof -
  note r = block_range [OF H, of "(x, b)", simplified]
  show u: "unat (of_nat (x + 4) :: u32) = x + 4" using r(1) by (intro unat_of_nat32) simp
  then show "of_nat (x + 4) \<noteq> (0 :: u32)" by (metis add_is_0 unsigned_0 zero_neq_numeral)
  show "x + 2 ^ (b + 3) \<le> 2 ^ 31" using r(4,5) data_end_bound [of sz] by simp
  show "blk (x, b) \<inter> blk y = {}" if "(x, b) \<notin> A" "y \<in> A"
    using heap_okD(6) [OF H] that unfolding geometry_def by (metis UnI1 insertI1 insertI2)
qed

lemma write_block:
  assumes H: "heap_ok (compute_sizes sz) F (insert (x, b) A) t" and n: "(x, b) \<notin> A"
    and m: "same_off {x + 4 ..< x + 2 ^ (b + 3)} (lmem t) m'"
  shows "heap_ok (compute_sizes sz) F (insert (x, b) A) (map_mem (\<lambda>_. m') t)" "keeps A t (map_mem (\<lambda>_. m') t)"
proof -
  show "heap_ok (compute_sizes sz) F (insert (x, b) A) (map_mem (\<lambda>_. m') t)" by (rule payload_write [OF H insertI1 m])
  show "keeps A t (map_mem (\<lambda>_. m') t)"
  proof (rule keeps_same_off [OF H])
    show "same_off {x + 4 ..< x + 2 ^ (b + 3)} (lmem t) (lmem (map_mem (\<lambda>_. m') t))" using m by simp
    show "{x + 4 ..< x + 2 ^ (b + 3)} \<inter> blk y = {}" if "y \<in> A" for y
      using new_block(4) [OF H n that] by (auto simp: blk_def)
  qed auto
qed

lemma map_mem_const: "map_mem (\<lambda>_. g (lmem s)) s = map_mem g s"
  by (simp add: map_mem_def lmem_def apfst_def map_prod_def split: prod.splits)

end
