(* ===== verification/SFI_Heap_Props.thy ===== *)
theory SFI_Heap_Props
  imports SFI_Heap
begin

text \<open>
  What a program inside the sandbox can rely on when it uses \<^verbatim>\<open>malloc\<close>, \<^verbatim>\<open>free\<close> and \<^verbatim>\<open>realloc\<close>.
\<close>

section \<open>What clients can rely on\<close>

text \<open>Claim C16. \<^verbatim>\<open>malloc\<close> returns, for any request below 2 GB. It returns null, or the payload of a
  block that was not in use and is large enough for the request and its header. In both cases
  every byte of the blocks in use is unchanged and the heap stays well-formed.\<close>

theorem malloc_block:
  assumes "heap_inv (compute_sizes sz) A s" and "unat n + 8 \<le> 2 ^ 31"
  shows "\<exists>p t. malloc H I (compute_sizes sz) n s = Return p t \<and> keeps A s t \<and>
    (if p = 0 then heap_inv (compute_sizes sz) A t
     else let x = (unat p - 4, bucket_of n)
       in 4 < unat p \<and> x \<notin> A \<and> unat n + 4 \<le> 2 ^ (snd x + 3) \<and> heap_inv (compute_sizes sz) (insert x A) t)"
proof -
  obtain F where F: "heap_ok (compute_sizes sz) F A s" using assms(1) by (auto simp: heap_inv_def)
  obtain p t F' where m: "malloc H I (compute_sizes sz) n s = Return p t" "keeps A s t"
    "p = 0 \<and> heap_ok (compute_sizes sz) F' A t \<or>
     (\<exists>x. p = of_nat (x + 4) \<and> (x, bucket_of n) \<notin> A \<and> unat n + 4 \<le> 2 ^ (bucket_of n + 3) \<and>
        heap_ok (compute_sizes sz) F' (insert (x, bucket_of n) A) t)"
    by (rule malloc_ok [OF F assms(2)])
  from m(3) show ?thesis
  proof
    assume "p = 0 \<and> heap_ok (compute_sizes sz) F' A t"
    then show ?thesis using m by (auto simp: heap_inv_def)
  next
    assume "\<exists>x. p = of_nat (x + 4) \<and> (x, bucket_of n) \<notin> A \<and> unat n + 4 \<le> 2 ^ (bucket_of n + 3) \<and>
        heap_ok (compute_sizes sz) F' (insert (x, bucket_of n) A) t"
    then obtain x where x: "p = of_nat (x + 4)" "(x, bucket_of n) \<notin> A" "unat n + 4 \<le> 2 ^ (bucket_of n + 3)"
      "heap_ok (compute_sizes sz) F' (insert (x, bucket_of n) A) t" by blast
    note r = block_range [OF x(4), of "(x, bucket_of n)", simplified]
    have "unat p = x + 4" unfolding x(1) using r(1) by (intro unat_of_nat32) simp
    moreover from this have "p \<noteq> 0" by auto
    ultimately show ?thesis using m x r(2) by (auto simp: heap_inv_def Let_def)
  qed
qed

text \<open>A library state with an empty heap.\<close>

definition fresh_heap :: "layout \<Rightarrow> ('f, 'v) lib \<Rightarrow> bool" where
  "fresh_heap L s \<longleftrightarrow> nextf s = replicate NBUCKETS 0 \<and> break_ok L (trusted s) \<and>
     (\<forall>j. brk s \<le> j \<and> j < unat (DATA_END L) \<longrightarrow> lmem s (of_nat j) = 0)"

lemma fresh_heap_inv: "fresh_heap L s \<Longrightarrow> heap_inv L {} s"
  by (auto simp: fresh_heap_def heap_inv_def heap_ok_def geometry_def free_blocks_def intro!: exI [of _ "\<lambda>_. []"])

definition fx_lhost :: "(nat, mem \<times> unit) host" where
  "fx_lhost = \<lparr>h_call = \<lambda>fn args w. (of_nat (length args), w), h_open = \<lambda>fn args w. (Some 100, w),
     h_stat = \<lambda>fn arg w. ((0, \<lparr>st_size = 7, st_mode = 0, st_mtime = 0, st_nlink = 1, st_ino = 2,
       st_dev = 3, st_uid = 0, st_gid = 0, st_rdev = 0, st_atime = 0, st_ctime = 0\<rparr>), w),
     h_errno = \<lambda>w. 9, h_stdio = \<lambda>n. n\<rparr>"

definition fx_lib :: "mem \<Rightarrow> (nat, unit) lib" where
  "fx_lib m = \<lparr>trusted = \<lparr>files = [Some 0, Some 1, Some 2, None, None, None, None, None, None, None, None, None, None,
       None, None, None], data_break = 0x20002000, exit_value = 0, in_bufs = Map.empty, world = (m, ())\<rparr>,
     errno = 0, nextf = replicate NBUCKETS 0, tmp_count = 0\<rparr>"

definition fx_image :: image where
  "fx_image = \<lparr>myfiles = 0x20000100, literal = \<lambda>_. 0x20000200, frame_at = 0x20fffe00\<rparr>"

lemma fx_lib_fresh: "fresh_heap (compute_sizes classic) (fx_lib (\<lambda>_. 0))"
  by (simp add: fresh_heap_def fx_lib_def break_ok_def brk_def lmem_def layout_eval DATA_END_def)

theorem malloc_block_witness:
  "\<exists>p t. malloc fx_lhost fx_image (compute_sizes classic) 10 (fx_lib (\<lambda>_. 0)) = Return p t \<and>
     (if p = 0 then heap_inv (compute_sizes classic) {} t
      else heap_inv (compute_sizes classic) {(unat p - 4, bucket_of 10)} t)"
proof -
  have n: "unat (10 :: u32) + 8 \<le> 2 ^ 31" by simp
  show ?thesis
    using malloc_block [OF fresh_heap_inv [OF fx_lib_fresh] n, of fx_lhost fx_image]
    by (auto simp: Let_def split: if_splits)
qed

text \<open>With room between the break and the end of the data region for twice the request and
  3072 bytes more, \<^verbatim>\<open>malloc\<close> does not return null: the result is the payload of a new block in a
  well-formed heap, and the break has moved by less than that room.\<close>

lemma malloc_succeeds:
  assumes "heap_inv (compute_sizes sz) A s" and "unat n + 8 \<le> 2 ^ 31"
    and "brk s + 3072 + 2 * unat n \<le> unat (DATA_END (compute_sizes sz))"
  shows "\<exists>p t. malloc H I (compute_sizes sz) n s = Return p t \<and> p \<noteq> 0 \<and> brk t < brk s + 3072 + 2 * unat n \<and>
    (unat p - 4, bucket_of n) \<notin> A \<and> heap_inv (compute_sizes sz) (insert (unat p - 4, bucket_of n) A) t \<and>
    unat n + 4 \<le> 2 ^ (bucket_of n + 3)"
proof -
  obtain F where F: "heap_ok (compute_sizes sz) F A s" using assms(1) by (auto simp: heap_inv_def)
  obtain p t F' where m: "malloc H I (compute_sizes sz) n s = Return p t"
    "p = 0 \<and> heap_ok (compute_sizes sz) F' A t \<or>
     (\<exists>x. p = of_nat (x + 4) \<and> (x, bucket_of n) \<notin> A \<and> unat n + 4 \<le> 2 ^ (bucket_of n + 3) \<and>
        heap_ok (compute_sizes sz) F' (insert (x, bucket_of n) A) t)"
    by (rule malloc_ok [OF F assms(2)])
  note r = malloc_room [OF F assms(2,3) m(1)]
  then obtain x where x: "p = of_nat (x + 4)" "(x, bucket_of n) \<notin> A" "unat n + 4 \<le> 2 ^ (bucket_of n + 3)"
    "heap_ok (compute_sizes sz) F' (insert (x, bucket_of n) A) t" using m(2) by blast
  then show ?thesis using m(1) r new_block(1) [OF x(4)] by (auto simp: heap_inv_def)
qed

text \<open>A client that allocates, gives back blocks it has, and writes only into its own blocks.\<close>

inductive heap_step :: "('f, mem \<times> 'v) host \<Rightarrow> image \<Rightarrow> layout \<Rightarrow>
    (nat \<times> nat) set \<times> ('f, 'v) lib \<Rightarrow> (nat \<times> nat) set \<times> ('f, 'v) lib \<Rightarrow> bool"
  for H I L where
  allocate: "unat n + 8 \<le> 2 ^ 31 \<Longrightarrow> malloc H I L n s = Return p t \<Longrightarrow>
    heap_step H I L (A, s) (if p = 0 then A else insert (unat p - 4, bucket_of n) A, t)"
| release: "(x, b) \<in> A \<Longrightarrow> free (of_nat (x + 4)) s = Return () t \<Longrightarrow>
    heap_step H I L (A, s) (A - {(x, b)}, t)"
| modify: "(x, b) \<in> A \<Longrightarrow> same_off {x + 4 ..< x + 2 ^ (b + 3)} (lmem s) m \<Longrightarrow>
    heap_step H I L (A, s) (A, map_mem (\<lambda>_. m) s)"

lemma heap_step_inv:
  assumes "heap_step H I (compute_sizes sz) x y" "heap_inv (compute_sizes sz) (fst x) (snd x)"
  shows "heap_inv (compute_sizes sz) (fst y) (snd y)"
  using assms
proof cases
  case (allocate n s p t A)
  then show ?thesis
    using malloc_block [of sz A s n H I] assms(2) by (auto simp: Let_def split: if_splits)
next
  case (release x b A s t)
  obtain F where F: "heap_ok (compute_sizes sz) F A s" using assms(2) release(1) by (auto simp: heap_inv_def)
  from free_ok [OF F release(3)] obtain F' s' where "free (of_nat (x + 4)) s = Return () s'"
    "heap_ok (compute_sizes sz) F' (A - {(x, b)}) s'" by metis
  then show ?thesis using release by (auto simp: heap_inv_def)
next
  case (modify x b A s m)
  obtain F where F: "heap_ok (compute_sizes sz) F A s" using assms(2) modify(1) by (auto simp: heap_inv_def)
  from payload_write [OF F modify(3,4)] show ?thesis using modify by (auto simp: heap_inv_def)
qed

text \<open>Claim C15. Whatever a client does with \<^verbatim>\<open>malloc\<close> of at most \<open>2 ^ 31 - 8\<close> bytes at a time, \<^verbatim>\<open>free\<close> of
  blocks it has and writes into their payloads, starting with an empty heap: the blocks it has do
  not overlap, and all lie in the data region below the break.\<close>

theorem heap_calls_inv:
  assumes "(heap_step H I (compute_sizes sz))\<^sup>*\<^sup>* ({}, s) (A, t)" and "fresh_heap (compute_sizes sz) s"
  shows "(\<forall>x \<in> A. blk x \<subseteq> {unat (DATA_START (compute_sizes sz)) ..< brk t}) \<and>
    (\<forall>x \<in> A. \<forall>y \<in> A. x \<noteq> y \<longrightarrow> blk x \<inter> blk y = {}) \<and> brk t < unat (DATA_END (compute_sizes sz))"
proof -
  have "heap_inv (compute_sizes sz) (fst (A, t)) (snd (A, t))"
    using assms(1)
  proof (induction rule: rtranclp_induct)
    case base
    show ?case using fresh_heap_inv [OF assms(2)] by simp
  qed (rule heap_step_inv)
  then obtain F where F: "heap_ok (compute_sizes sz) F A t" by (auto simp: heap_inv_def)
  note b = brk_less(1) [OF heap_okD(2) [OF F]]
  have "brk t \<le> 2 ^ 32" using b data_end_bound [of sz] by simp
  then show ?thesis
    using geometry_range(2) [OF heap_okD(6) [OF F]] heap_okD(6) [OF F] b by (auto simp: geometry_def)
qed

theorem heap_calls_inv_witness:
  "\<exists>p t. malloc fx_lhost fx_image (compute_sizes classic) 10 (fx_lib (\<lambda>_. 0)) = Return p t \<and> brk t < 0x21000000"
proof -
  have n: "unat (10 :: u32) + 8 \<le> 2 ^ 31" by simp
  obtain p t F' where m: "malloc fx_lhost fx_image (compute_sizes classic) 10 (fx_lib (\<lambda>_. 0)) = Return p t"
    using malloc_ok [OF _ n] fresh_heap_inv [OF fx_lib_fresh] unfolding heap_inv_def by metis
  have "(heap_step fx_lhost fx_image (compute_sizes classic))\<^sup>*\<^sup>* ({}, fx_lib (\<lambda>_. 0))
      (if p = 0 then {} else insert (unat p - 4, bucket_of 10) {}, t)"
    by (rule r_into_rtranclp, rule heap_step.allocate [OF n m])
  from heap_calls_inv [OF this fx_lib_fresh] m show ?thesis by (simp add: layout_eval DATA_END_def)
qed

section \<open>Reallocation\<close>

text \<open>Copying into the payload of one block from another.\<close>

lemma memcpy_apart:
  assumes "unat d + unat n \<le> 2 ^ 32" "unat c + unat n \<le> 2 ^ 32" "{unat d ..< unat d + unat n} \<inter> {unat c ..< unat c + unat n} = {}"
  shows "same_off {unat d ..< unat d + unat n} m (snd (memcpy d c n m)) \<and>
    (\<forall>i < unat n. snd (memcpy d c n m) (d + of_nat i) = m (c + of_nat i))"
proof -
  have n: "unat n \<le> 2 ^ 32" using assms(1) by simp
  have "d + of_nat i \<noteq> c + of_nat j" if "i < j" "j < unat n" for i j
  proof
    assume "d + of_nat i = c + of_nat j"
    then have "unat d + i = unat c + j"
      using unat_offset [OF assms(1), of i] unat_offset [OF assms(2), of j] that by simp
    then have "unat d + i \<in> {unat d ..< unat d + unat n} \<inter> {unat c ..< unat c + unat n}" using that by simp
    then show False using assms(3) by simp
  qed
  note f = fold_copy_up [OF this n]
  show ?thesis
    using f in_range_nat [OF assms(1)] by (simp add: memcpy_def same_off_def)
qed

text \<open>What \<^verbatim>\<open>realloc\<close> reads off the header of a block in use.\<close>

lemma block_header:
  assumes F: "heap_ok (compute_sizes sz) F A s" and z: "(x, b) \<in> A" and cp: "cp = of_nat (x + 4)"
  shows "unat cp = x + 4" "cp \<noteq> 0" "unat (lmem s (cp - 4 + 1)) = b" "b + 3 < 31"
    "unat (push_bit (b + 3) 1 - 4 :: u32) = 2 ^ (b + 3) - 4" "x + 2 ^ (b + 3) \<le> 2 ^ 31"
proof -
  note n = new_block [of sz F x b A s, unfolded insert_absorb [OF z], OF F]
  show "unat cp = x + 4" "cp \<noteq> 0" "x + 2 ^ (b + 3) \<le> 2 ^ 31" unfolding cp using n(1-3) .
  have "x \<noteq> 0" using block_range(2) [OF F UnI1 [OF z]] by simp
  then have "2 ^ (b + 3) < (2 :: nat) ^ 31" using n(3) by linarith
  then show b: "b + 3 < 31" by (rule power_less_imp_less_exp [rotated]) simp
  have e: "cp - 4 + 1 = of_nat (x + 1)" unfolding cp by simp
  have "lmem s (cp - 4 + 1) = of_nat b" using heap_okD(7) [OF F z] unfolding e by simp
  then show "unat (lmem s (cp - 4 + 1)) = b" using b by (simp add: unsigned_of_nat take_bit_nat_eq_self)
  have "(4 :: nat) \<le> 2 ^ (b + 3)" by (simp add: power_add)
  then show "unat (push_bit (b + 3) 1 - 4 :: u32) = 2 ^ (b + 3) - 4" using b by (simp add: unat_exp unat_sub_if')
qed

text \<open>The contents go to the new block, then the old one is freed.\<close>

lemma copy_to_block:
  assumes H: "heap_ok (compute_sizes sz) F (insert (y, c) A) s1" and n: "(y, c) \<notin> A" and p: "p = of_nat (y + 4)"
    and z: "(x, b) \<in> A" and cp: "cp = of_nat (x + 4)"
    and k: "unat k + 4 \<le> 2 ^ (c + 3)" "unat k + 4 \<le> 2 ^ (b + 3)"
    and s2: "s2 = map_mem (\<lambda>m. snd (memcpy p cp k m)) s1"
  shows "cp \<noteq> p" "heap_ok (compute_sizes sz) F (insert (y, c) A) s2" "keeps A s1 s2"
    "i < unat k \<Longrightarrow> lmem s2 (p + of_nat i) = lmem s1 (cp + of_nat i)"
proof -
  note up = new_block(1,3) [OF H, folded p]
  have z': "(x, b) \<in> insert (y, c) A" using z by simp
  note uc = block_header(1,6) [OF H z' cp]
  have dis: "blk (y, c) \<inter> blk (x, b) = {}" by (rule new_block(4) [OF H n z])
  have pd: "{unat p ..< unat p + unat k} \<subseteq> {y + 4 ..< y + 2 ^ (c + 3)}" using up(1) k(1) by auto
  have "{y + 4 ..< y + 2 ^ (c + 3)} \<subseteq> blk (y, c)" "{unat cp ..< unat cp + unat k} \<subseteq> blk (x, b)"
    using uc(1) k(2) by (auto simp: blk_def)
  then have ap: "{unat p ..< unat p + unat k} \<inter> {unat cp ..< unat cp + unat k} = {}" using pd dis by blast
  have le: "unat p + unat k \<le> 2 ^ 32" "unat cp + unat k \<le> 2 ^ 32" using up uc k by simp_all
  have M: "same_off {unat p ..< unat p + unat k} (lmem s1) (lmem s2)" "\<forall>i < unat k. lmem s2 (p + of_nat i) = lmem s1 (cp + of_nat i)"
    using memcpy_apart [OF le ap, of "lmem s1"] unfolding s2 lmem_simps by (rule conjunct1, rule conjunct2)
  show "i < unat k \<Longrightarrow> lmem s2 (p + of_nat i) = lmem s1 (cp + of_nat i)" by (rule M(2) [rule_format])
  have "s2 = map_mem (\<lambda>_. lmem s2) s1" unfolding s2 lmem_simps by (rule map_mem_const [symmetric])
  then show "heap_ok (compute_sizes sz) F (insert (y, c) A) s2" "keeps A s1 s2"
    using write_block [OF H n same_off_mono [OF M(1) pd]] by simp_all
  have "y \<in> blk (y, c)" "x \<in> blk (x, b)" by (simp_all add: blk_def)
  then have "x \<noteq> y" using dis by auto
  then show "cp \<noteq> p" using up(1) uc(1) by auto
qed

lemma realloc_moves:
  assumes F: "heap_ok (compute_sizes sz) F A s" and z: "(x, b) \<in> A" and n: "unat n + 8 \<le> 2 ^ 31"
    and cp: "cp = of_nat (x + 4)" and onb: "onb = push_bit (b + 3) 1 - 4" and k: "k = (if n < onb then n else onb)"
    and big: "\<not> (n \<le> onb \<and> n > drop_bit 1 onb - 4)"
  shows "\<exists>q t A'. realloc H I (compute_sizes sz) cp n s = Return q t \<and> heap_inv (compute_sizes sz) A' t \<and>
    keeps (A - {(x, b)}) s t \<and>
    (if q = 0 then A' = A \<and> keeps A s t
     else A' = insert (unat q - 4, bucket_of n) (A - {(x, b)}) \<and> unat n + 4 \<le> 2 ^ (bucket_of n + 3) \<and>
       (\<forall>i < unat k. lmem t (q + of_nat i) = lmem s (cp + of_nat i)))"
proof -
  let ?L = "compute_sizes sz"
  note h = block_header [OF F z cp]
  have kk: "unat k \<le> 2 ^ (b + 3) - 4" "unat k \<le> unat n" using k h(5) onb by (auto simp: word_less_nat_alt)
  have "(4 :: nat) \<le> 2 ^ (b + 3)" by (simp add: power_add)
  then have kb: "unat k + 4 \<le> 2 ^ (b + 3)" using kk(1) by linarith
  obtain p s1 F1 where m: "malloc H I ?L n s = Return p s1" "keeps A s s1"
    "p = 0 \<and> heap_ok ?L F1 A s1 \<or>
     (\<exists>y. p = of_nat (y + 4) \<and> (y, bucket_of n) \<notin> A \<and> unat n + 4 \<le> 2 ^ (bucket_of n + 3) \<and>
        heap_ok ?L F1 (insert (y, bucket_of n) A) s1)"
    by (rule malloc_ok [OF F n])
  have f: "(cp = 0) = False" "(32 \<le> b + 3) = False" "(n \<le> onb \<and> drop_bit 1 onb - 4 < n) = False"
    using h(2,4) big by simp_all
  have re: "realloc H I ?L cp n s =
      (if p = 0 then Return 0 s1
       else out_bind (free cp (if cp \<noteq> p then map_mem (\<lambda>m. snd (memcpy p cp k m)) s1 else s1)) (\<lambda>_. Return p))"
    by (simp only: realloc_def h(3) Let_def onb [symmetric] f if_False m(1) out_bind.simps k [symmetric])
  show ?thesis
  proof (cases "p = 0")
    case True
    then have "heap_ok ?L F1 A s1" using m(3) by (metis new_block(2))
    then show ?thesis using re m(2) True by (auto simp: heap_inv_def keeps_def)
  next
    case False
    then obtain y where y: "p = of_nat (y + 4)" "(y, bucket_of n) \<notin> A" "unat n + 4 \<le> 2 ^ (bucket_of n + 3)"
      "heap_ok ?L F1 (insert (y, bucket_of n) A) s1" using m(3) by blast
    let ?y = "(y, bucket_of n)"
    define s2 where "s2 = map_mem (\<lambda>m. snd (memcpy p cp k m)) s1"
    have kn: "unat k + 4 \<le> 2 ^ (bucket_of n + 3)" using y(3) kk(2) by linarith
    note C = copy_to_block [OF y(4,2,1) z cp kn kb s2_def]
    have z2: "(x, b) \<in> insert ?y A" using z by simp
    obtain F3 t where fr: "free (of_nat (x + 4)) s2 = Return () t" "heap_ok ?L F3 (insert ?y A - {(x, b)}) t"
      "keeps (insert ?y A - {(x, b)}) s2 t"
      by (rule free_ok [OF C(2) z2])
    have A': "insert ?y A - {(x, b)} = insert ?y (A - {(x, b)})" using y(2) z by auto
    have keep: "keeps (A - {(x, b)}) s t"
      using keeps_trans [OF m(2) C(3)] fr(3) unfolding A' by (auto simp: keeps_def)
    have "lmem t (p + of_nat i) = lmem s (cp + of_nat i)" if i: "i < unat k" for i
    proof -
      have e: "p + of_nat i = of_nat (y + 4 + i)" "cp + of_nat i = of_nat (x + 4 + i)" unfolding y(1) cp by simp_all
      have j: "y + 4 + i \<in> blk ?y" "x + 4 + i \<in> blk (x, b)" using i kn kb by (auto simp: blk_def)
      have "lmem t (of_nat (y + 4 + i)) = lmem s2 (of_nat (y + 4 + i))"
        using fr(3) j(1) unfolding A' keeps_def by blast
      also have "\<dots> = lmem s1 (of_nat (x + 4 + i))" using C(4) [OF i] unfolding e .
      also have "\<dots> = lmem s (of_nat (x + 4 + i))" using m(2) z j(2) unfolding keeps_def by blast
      finally show ?thesis unfolding e .
    qed
    moreover have "realloc H I ?L cp n s = Return p t"
      using re False C(1) fr(1) by (simp add: s2_def cp)
    moreover have "heap_inv ?L (insert (unat p - 4, bucket_of n) (A - {(x, b)})) t"
      using fr(2) A' new_block(1) [OF y(4)] by (auto simp: heap_inv_def y(1))
    ultimately show ?thesis using keep y(3) False by auto
  qed
qed

text \<open>Claim C17. \<^verbatim>\<open>realloc\<close> of a block in use to at most \<open>2 ^ 31 - 8\<close> bytes returns. Null leaves everything as it was. Otherwise the
  result is large enough, holds the old contents up to the smaller of the two sizes, replaces the
  old block among those in use, and no other block's bytes change.\<close>

theorem realloc_keeps_data:
  assumes "heap_inv (compute_sizes sz) A s" and z: "(x, b) \<in> A" and n: "unat n + 8 \<le> 2 ^ 31"
  shows "\<exists>q t A' b'. realloc H I (compute_sizes sz) (of_nat (x + 4)) n s = Return q t \<and>
    heap_inv (compute_sizes sz) A' t \<and> keeps (A - {(x, b)}) s t \<and>
    (if q = 0 then A' = A \<and> keeps A s t
     else A' = insert (unat q - 4, b') (A - {(x, b)}) \<and> unat n + 4 \<le> 2 ^ (b' + 3) \<and>
       (\<forall>i < min (unat n) (2 ^ (b + 3) - 4). lmem t (q + of_nat i) = lmem s (of_nat (x + 4) + of_nat i)))"
proof -
  let ?L = "compute_sizes sz" and ?cp = "of_nat (x + 4) :: u32"
  obtain F where F: "heap_ok ?L F A s" using assms(1) by (auto simp: heap_inv_def)
  note h = block_header [OF F z refl]
  define onb :: u32 where "onb = push_bit (b + 3) 1 - 4"
  define k where "k = (if n < onb then n else onb)"
  have o: "unat onb = 2 ^ (b + 3) - 4" using h(5) by (simp add: onb_def)
  have k: "unat k = min (unat n) (2 ^ (b + 3) - 4)" using o by (auto simp: k_def word_less_nat_alt)
  show ?thesis
  proof (cases "n \<le> onb \<and> n > drop_bit 1 onb - 4")
    case False
    obtain q t A' where "realloc H I ?L ?cp n s = Return q t" "heap_inv ?L A' t" "keeps (A - {(x, b)}) s t"
      "if q = 0 then A' = A \<and> keeps A s t
       else A' = insert (unat q - 4, bucket_of n) (A - {(x, b)}) \<and> unat n + 4 \<le> 2 ^ (bucket_of n + 3) \<and>
         (\<forall>i < unat k. lmem t (q + of_nat i) = lmem s (?cp + of_nat i))"
      using realloc_moves [OF F z n refl onb_def k_def False] by blast
    then show ?thesis unfolding k by blast
  next
    case True
    have f: "(?cp = 0) = False" "(32 \<le> b + 3) = False" "(n \<le> onb \<and> drop_bit 1 onb - 4 < n) = True"
      using h(2,4) True by simp_all
    have "realloc H I ?L ?cp n s = Return ?cp s"
      by (simp only: realloc_def h(3) Let_def onb_def [symmetric] f if_False if_True)
    moreover have "A = insert (unat ?cp - 4, b) (A - {(x, b)})" using h(1) z by auto
    moreover have "unat n + 4 \<le> 2 ^ (b + 3)"
    proof -
      have "(4 :: nat) \<le> 2 ^ (b + 3)" by (simp add: power_add)
      moreover have "unat n \<le> unat onb" using True by (simp add: word_le_nat_alt)
      ultimately show ?thesis using o by linarith
    qed
    ultimately show ?thesis using assms(1) h(2)
      by (intro exI [of _ ?cp] exI [of _ s] exI [of _ A] exI [of _ b]) (simp add: keeps_def)
  qed
qed

theorem realloc_keeps_data_witness:
  "\<exists>p t. malloc fx_lhost fx_image (compute_sizes classic) 10 (fx_lib (\<lambda>_. 0)) = Return p t \<and>
     (p = 0 \<or> (\<exists>q u. realloc fx_lhost fx_image (compute_sizes classic) p 100 t = Return q u))"
proof -
  have n: "unat (10 :: u32) + 8 \<le> 2 ^ 31" "unat (100 :: u32) + 8 \<le> 2 ^ 31" by simp_all
  obtain F where F: "heap_ok (compute_sizes classic) F {} (fx_lib (\<lambda>_. 0))"
    using fresh_heap_inv [OF fx_lib_fresh] by (auto simp: heap_inv_def)
  obtain p t F' where m: "malloc fx_lhost fx_image (compute_sizes classic) 10 (fx_lib (\<lambda>_. 0)) = Return p t"
    "p = 0 \<and> heap_ok (compute_sizes classic) F' {} t \<or>
     (\<exists>x. p = of_nat (x + 4) \<and> (x, bucket_of 10) \<notin> {} \<and> unat (10 :: u32) + 4 \<le> 2 ^ (bucket_of 10 + 3) \<and>
        heap_ok (compute_sizes classic) F' (insert (x, bucket_of 10) {}) t)"
    by (rule malloc_ok [OF F n(1)])
  have "\<exists>q u. realloc fx_lhost fx_image (compute_sizes classic) p 100 t = Return q u" if np: "p \<noteq> 0"
  proof -
    from m(2) np obtain x where x: "p = of_nat (x + 4)" "heap_inv (compute_sizes classic) {(x, bucket_of 10)} t"
      unfolding heap_inv_def by auto
    show ?thesis using realloc_keeps_data [OF x(2) insertI1 n(2), of fx_lhost fx_image] unfolding x(1) by blast
  qed
  then show ?thesis using m(1) by blast
qed

section \<open>Requests that are too large\<close>

text \<open>The size computation wraps: a request of \<open>2 ^ 32 - 1\<close> bytes gets a block of 8, and a request
  of \<open>2 ^ 31\<close> makes \<^verbatim>\<open>morecore\<close> shift by the width of \<^verbatim>\<open>int\<close>.\<close>

lemma malloc_wraps: "bucket_of 0xffffffff = 0"
  by code_simp

lemma malloc_huge_bucket: "bucket_of 0x80000000 = 29"
  by code_simp

end
