(* ===== verification/SFI_Stdio.thy ===== *)
theory SFI_Stdio
  imports SFI_Heap_Props
begin

text \<open>
  The sandbox's C library (\<^verbatim>\<open>src/libc.c\<close>): streams, and the functions that allocate. A \<^verbatim>\<open>FILE\<close> is a
  word of the array \<^verbatim>\<open>myfiles\<close> that holds an index of the loader's stream table. The arguments of
  a variadic call are passed on as the address of the list.
\<close>

section \<open>Streams\<close>

definition stdin_p :: "image \<Rightarrow> addr" where "stdin_p I = myfiles I"
definition stdout_p :: "image \<Rightarrow> addr" where "stdout_p I = myfiles I + 4"
definition stderr_p :: "image \<Rightarrow> addr" where "stderr_p I = myfiles I + 8"

text \<open>\<^verbatim>\<open>*stream\<close>\<close>

definition at_stream :: "addr \<Rightarrow> (u32 \<Rightarrow> ('f, 'v, 'a) action) \<Rightarrow> ('f, 'v, 'a) action" where
  "at_stream stream k s = k (load32 (lmem s) stream) s"

text \<open>\<^verbatim>\<open>if (fi == -1) { refresh_errno(); return 0; } return &myfiles[fi];\<close>\<close>

definition opened :: "('f, mem \<times> 'v) host \<Rightarrow> image \<Rightarrow> ('f, mem \<times> 'v) wrapper \<Rightarrow> ('f, 'v) libc" where
  "opened H I w s =
     out_bind (outside w s) (\<lambda>fi s.
       if fi = - 1 then out_bind (refresh_errno H s) (\<lambda>_. Return 0)
       else Return (myfiles I + 4 * fi) s)"

definition fopen :: "('f, mem \<times> 'v) host \<Rightarrow> image \<Rightarrow> u32 \<Rightarrow> u32 \<Rightarrow> ('f, 'v) libc" where
  "fopen H I path mode = opened H I (wrap_outside_fopen H path mode)"

definition fdopen :: "('f, mem \<times> 'v) host \<Rightarrow> image \<Rightarrow> u32 \<Rightarrow> u32 \<Rightarrow> ('f, 'v) libc" where
  "fdopen H I fd mode = opened H I (wrap_outside_fdopen H fd mode)"

definition fclose :: "('f, mem \<times> 'v) host \<Rightarrow> u32 \<Rightarrow> ('f, 'v) libc" where
  [libc_def]: "fclose H stream = at_stream stream (\<lambda>fi. call_errno H (\<lambda>ret. ret \<noteq> 0) (wrap_outside_fclose H fi))"

definition fflush :: "('f, mem \<times> 'v) host \<Rightarrow> u32 \<Rightarrow> ('f, 'v) libc" where
  [libc_def]: "fflush H stream = at_stream stream (\<lambda>fi. call_errno H (\<lambda>ret. ret \<noteq> 0) (wrap_outside_fflush H fi))"

definition fgetc :: "('f, mem \<times> 'v) host \<Rightarrow> u32 \<Rightarrow> ('f, 'v) libc" where
  [libc_def]: "fgetc H stream = at_stream stream (\<lambda>fi. call_errno H (\<lambda>ret. ret = EOF) (wrap_outside_fgetc H fi))"

definition fgets :: "('f, mem \<times> 'v) host \<Rightarrow> u32 \<Rightarrow> u32 \<Rightarrow> u32 \<Rightarrow> ('f, 'v) libc" where
  [libc_def]: "fgets H buf sz stream = at_stream stream (\<lambda>fi. call_errno H (\<lambda>ret. ret = 0) (wrap_outside_fgets H buf sz fi))"

definition fputc :: "('f, mem \<times> 'v) host \<Rightarrow> u32 \<Rightarrow> u32 \<Rightarrow> ('f, 'v) libc" where
  [libc_def]: "fputc H c stream = at_stream stream (\<lambda>fi. call_errno H (\<lambda>ret. ret = EOF) (wrap_outside_fputc H c fi))"

definition fputs :: "('f, mem \<times> 'v) host \<Rightarrow> u32 \<Rightarrow> u32 \<Rightarrow> ('f, 'v) libc" where
  [libc_def]: "fputs H s stream = at_stream stream (\<lambda>fi. call_errno H (\<lambda>ret. ret = EOF) (wrap_outside_fputs H s fi))"

definition fileno :: "('f, mem \<times> 'v) host \<Rightarrow> u32 \<Rightarrow> ('f, 'v) libc" where
  [libc_def]: "fileno H stream = at_stream stream (\<lambda>fi. call_errno H (\<lambda>ret. ret = - 1) (wrap_outside_fileno H fi))"

definition fseek :: "('f, mem \<times> 'v) host \<Rightarrow> u32 \<Rightarrow> u32 \<Rightarrow> u32 \<Rightarrow> ('f, 'v) libc" where
  [libc_def]: "fseek H fp off whence = at_stream fp (\<lambda>fi. call_errno H (\<lambda>ret. ret = - 1) (wrap_outside_fseek H fi off whence))"

definition ftell :: "('f, mem \<times> 'v) host \<Rightarrow> u32 \<Rightarrow> ('f, 'v) libc" where
  [libc_def]: "ftell H stream = at_stream stream (\<lambda>fi. call_errno H (\<lambda>ret. ret = - 1) (wrap_outside_ftell H fi))"

definition ungetc :: "('f, mem \<times> 'v) host \<Rightarrow> u32 \<Rightarrow> u32 \<Rightarrow> ('f, 'v) libc" where
  [libc_def]: "ungetc H c stream = at_stream stream (\<lambda>fi. call_errno H (\<lambda>ret. ret = EOF) (wrap_outside_ungetc H c fi))"

text \<open>The functions that pass on the result as it is.\<close>

definition clearerr :: "('f, mem \<times> 'v) host \<Rightarrow> u32 \<Rightarrow> ('f, 'v) libc" where
  "clearerr H stream = at_stream stream (\<lambda>fi. outside (wrap_outside_clearerr H fi))"

definition ferror :: "('f, mem \<times> 'v) host \<Rightarrow> u32 \<Rightarrow> ('f, 'v) libc" where
  "ferror H stream = at_stream stream (\<lambda>fi. outside (wrap_outside_ferror H fi))"

definition feof :: "('f, mem \<times> 'v) host \<Rightarrow> u32 \<Rightarrow> ('f, 'v) libc" where
  "feof H stream = at_stream stream (\<lambda>fi. outside (wrap_outside_feof H fi))"

definition rewind :: "('f, mem \<times> 'v) host \<Rightarrow> u32 \<Rightarrow> ('f, 'v) libc" where
  "rewind H stream = at_stream stream (\<lambda>fi. outside (wrap_outside_rewind H fi))"

definition setbuf :: "('f, mem \<times> 'v) host \<Rightarrow> u32 \<Rightarrow> u32 \<Rightarrow> ('f, 'v) libc" where
  "setbuf H stream buf = at_stream stream (\<lambda>fi. outside (wrap_outside_setbuf H fi buf))"

definition fread :: "('f, mem \<times> 'v) host \<Rightarrow> u32 \<Rightarrow> u32 \<Rightarrow> u32 \<Rightarrow> u32 \<Rightarrow> ('f, 'v) libc" where
  "fread H ptr sz count stream = at_stream stream (\<lambda>fi. outside (wrap_outside_fread H ptr sz count fi))"

definition fwrite :: "('f, mem \<times> 'v) host \<Rightarrow> u32 \<Rightarrow> u32 \<Rightarrow> u32 \<Rightarrow> u32 \<Rightarrow> ('f, 'v) libc" where
  "fwrite H ptr sz count stream = at_stream stream (\<lambda>fi. outside (wrap_outside_fwrite H ptr sz count fi))"

definition fwrite_unlocked :: "('f, mem \<times> 'v) host \<Rightarrow> u32 \<Rightarrow> u32 \<Rightarrow> u32 \<Rightarrow> u32 \<Rightarrow> ('f, 'v) libc" where
  "fwrite_unlocked H ptr sz count stream = fwrite H ptr sz count stream"

definition fprintf :: "('f, mem \<times> 'v) host \<Rightarrow> u32 \<Rightarrow> u32 \<Rightarrow> u32 \<Rightarrow> ('f, 'v) libc" where
  "fprintf H stream fmt args = at_stream stream (\<lambda>fi. outside (wrap_outside_vfprintf H fi fmt args))"

definition vfprintf :: "('f, mem \<times> 'v) host \<Rightarrow> u32 \<Rightarrow> u32 \<Rightarrow> u32 \<Rightarrow> ('f, 'v) libc" where
  "vfprintf H stream fmt ap = at_stream stream (\<lambda>fi. outside (wrap_outside_vfprintf H fi fmt ap))"

definition fscanf :: "('f, mem \<times> 'v) host \<Rightarrow> u32 \<Rightarrow> u32 \<Rightarrow> u32 \<Rightarrow> ('f, 'v) libc" where
  "fscanf H stream fmt args = at_stream stream (\<lambda>fi. outside (wrap_outside_vfscanf H fi fmt args))"

definition scanf :: "('f, mem \<times> 'v) host \<Rightarrow> u32 \<Rightarrow> u32 \<Rightarrow> ('f, 'v) libc" where
  "scanf H fmt args = outside (wrap_outside_vfscanf H 0 fmt args)"

definition snprintf :: "('f, mem \<times> 'v) host \<Rightarrow> u32 \<Rightarrow> u32 \<Rightarrow> u32 \<Rightarrow> u32 \<Rightarrow> ('f, 'v) libc" where
  "snprintf H str sz fmt args = outside (wrap_outside_vsnprintf H str sz fmt args)"

definition getc :: "('f, mem \<times> 'v) host \<Rightarrow> u32 \<Rightarrow> ('f, 'v) libc" where
  "getc H stream = fgetc H stream"

definition putc :: "('f, mem \<times> 'v) host \<Rightarrow> u32 \<Rightarrow> u32 \<Rightarrow> ('f, 'v) libc" where
  "putc H c stream = fputc H c stream"

definition putc_unlocked :: "('f, mem \<times> 'v) host \<Rightarrow> u32 \<Rightarrow> u32 \<Rightarrow> ('f, 'v) libc" where
  "putc_unlocked H c stream = fputc H c stream"

definition fputc_unlocked :: "('f, mem \<times> 'v) host \<Rightarrow> u32 \<Rightarrow> u32 \<Rightarrow> ('f, 'v) libc" where
  "fputc_unlocked H c stream = fputc H c stream"

definition fputs_unlocked :: "('f, mem \<times> 'v) host \<Rightarrow> u32 \<Rightarrow> u32 \<Rightarrow> ('f, 'v) libc" where
  "fputs_unlocked H s stream = fputs H s stream"

definition remove_c :: "('f, mem \<times> 'v) host \<Rightarrow> u32 \<Rightarrow> ('f, 'v) libc" where
  "remove_c H path = unlink H path"

definition puts :: "('f, mem \<times> 'v) host \<Rightarrow> image \<Rightarrow> u32 \<Rightarrow> ('f, 'v) libc" where
  "puts H I str s =
     out_bind (fputs H str (stdout_p I) s) (\<lambda>a s.
       out_bind (fputc H 10 (stdout_p I) s) (\<lambda>b. Return (a OR b)))"

text \<open>The result is where the line ends, not where it starts: \<^verbatim>\<open>buf\<close> itself is advanced.\<close>

definition getchar :: "('f, mem \<times> 'v) host \<Rightarrow> image \<Rightarrow> ('f, 'v) libc" where
  "getchar H I = fgetc H (stdin_p I)"

partial_function (option) gets :: "('f, mem \<times> 'v) host \<Rightarrow> image \<Rightarrow> addr \<Rightarrow> ('f, 'v) lib \<Rightarrow>
    (('f, 'v) lib, addr) outcome option" where
  "gets H I buf s =
     (case getchar H I s of
        Return c s' \<Rightarrow>
          if c = EOF \<or> c = 10 then Some (Return buf (map_mem (\<lambda>m. m(buf := 0)) s'))
          else gets H I (buf + 1) (map_mem (\<lambda>m. m(buf := ucast c)) s')
      | Longjmp s' \<Rightarrow> Some (Longjmp s')
      | Halt e \<Rightarrow> Some (Halt e))"

section \<open>Messages and names\<close>

definition perror :: "('f, mem \<times> 'v) host \<Rightarrow> image \<Rightarrow> u32 \<Rightarrow> ('f, 'v) libc" where
  "perror H I command s =
     fprintf H (stderr_p I) (literal I (''%s: %s'' @ [CHR 0x0A])) (frame_at I)
       (map_mem (put_words (frame_at I) [command, strerror I (errno s)]) s)"

definition stack_chk_fail :: "('f, mem \<times> 'v) host \<Rightarrow> image \<Rightarrow> ('f, 'v) libc" where
  "stack_chk_fail H I s =
     out_bind (fprintf H (stderr_p I) (literal I (''Stack smashing detected, exiting'' @ [CHR 0x0A])) (frame_at I) s)
       (\<lambda>_. exit_c (- 1))"

text \<open>The four digits are stored as numbers, not as characters.\<close>

definition tmp_digit :: "u32 \<Rightarrow> int \<Rightarrow> byte" where
  "tmp_digit count d = word_of_int ((sint count sdiv d) smod 10)"

definition tmpfile :: "('f, mem \<times> 'v) host \<Rightarrow> image \<Rightarrow> ('f, 'v) libc" where
  "tmpfile H I s =
     (let filename = frame_at I; count = tmp_count s
      in fopen H I filename (literal I ''w+b'')
           ((map_mem (\<lambda>m. m(filename + 12 := tmp_digit count 1, filename + 11 := tmp_digit count 10,
                            filename + 10 := tmp_digit count 100, filename + 9 := tmp_digit count 1000))
             (put_string filename ''/tmp/temp0000'' s))\<lparr>tmp_count := count + 1\<rparr>))"

definition tmpnam :: "image \<Rightarrow> addr \<Rightarrow> ('f, 'v) libc" where
  "tmpnam I p s =
     (if p \<noteq> 0 then Return p (put_string p ''/tmp/foo'' s) else Return (literal I ''/tmp/bar'') s)"

section \<open>Functions that allocate\<close>

definition strdup :: "('f, mem \<times> 'v) host \<Rightarrow> image \<Rightarrow> layout \<Rightarrow> addr \<Rightarrow> ('f, 'v) libc" where
  "strdup H I L str s =
     (case strlen (lmem s) str of
        None \<Rightarrow> Halt Unterminated
      | Some n \<Rightarrow>
          out_bind (malloc H I L (n + 1) s) (\<lambda>buf s.
            if buf = 0 then Return buf s
            else case strcpy buf str (lmem s) of
                   None \<Rightarrow> Halt Unterminated
                 | Some (_, m) \<Rightarrow> Return buf (map_mem (\<lambda>_. m) s)))"

definition getenv :: "('f, mem \<times> 'v) host \<Rightarrow> image \<Rightarrow> layout \<Rightarrow> addr \<Rightarrow> ('f, 'v) libc" where
  "getenv H I L name s =
     out_bind (outside (wrap_outside_getenv H name) s) (\<lambda>v s.
       if v \<noteq> 0 then strdup H I L v s else Return v s)"

text \<open>\<^verbatim>\<open>outside_str\<close> is a local variable.\<close>

definition vasprintf :: "('f, mem \<times> 'v) host \<Rightarrow> image \<Rightarrow> layout \<Rightarrow> addr \<Rightarrow> u32 \<Rightarrow> u32 \<Rightarrow> ('f, 'v) libc" where
  "vasprintf H I L strp fmt ap s =
     out_bind (outside (wrap_outside_vasprintf H (frame_at I) fmt ap) s) (\<lambda>ret s.
       if ret \<noteq> - 1 then
         let str = load32 (lmem s) (frame_at I)
         in out_bind (strdup H I L str s) (\<lambda>p s.
              out_bind (outside (wrap_outside_free H str) (map_mem (store32 strp p) s)) (\<lambda>_. Return ret))
       else Return ret s)"

definition asprintf :: "('f, mem \<times> 'v) host \<Rightarrow> image \<Rightarrow> layout \<Rightarrow> addr \<Rightarrow> u32 \<Rightarrow> u32 \<Rightarrow> ('f, 'v) libc" where
  "asprintf H I L str fmt args = vasprintf H I L str fmt args"

section \<open>Program start\<close>

definition cxa_atexit :: "u32 \<Rightarrow> u32 \<Rightarrow> u32 \<Rightarrow> u32" where
  "cxa_atexit func arg d = 0"

definition u_start :: "('f, 'v, unit) action \<Rightarrow> (u32 \<Rightarrow> u32 \<Rightarrow> ('f, 'v) libc) \<Rightarrow> u32 \<Rightarrow> u32 \<Rightarrow> ('f, 'v) libc" where
  "u_start global_constructors main argc argv s = out_bind (global_constructors s) (\<lambda>_. main argc argv)"

end
