(* ===== verification/SFI_Libc_Props.thy ===== *)
theory SFI_Libc_Props
  imports SFI_Stdio
begin

text \<open>
  Properties of the sandbox's library across its layers: the system calls and \<^verbatim>\<open>errno\<close>, streams
  from \<^verbatim>\<open>FILE\<close> down to the loader's table, and strings in allocated memory.
\<close>

section \<open>Errors\<close>

text \<open>A call reports faithfully when it returns what the wrapper returned and \<^verbatim>\<open>errno\<close> is the host's
  after the call; everything else of the library is as before.\<close>

definition reports :: "('f, mem \<times> 'v) host \<Rightarrow> ('f, 'v) libc \<Rightarrow> ('f, mem \<times> 'v) wrapper \<Rightarrow> bool" where
  "reports H f w \<longleftrightarrow> (\<forall>s. f s =
     (case w (trusted s) of
        Return r t \<Rightarrow> Return (ucast r) (s\<lparr>trusted := t, errno := h_errno H (world t)\<rparr>)
      | Longjmp t \<Rightarrow> Longjmp (s\<lparr>trusted := t\<rparr>)
      | Halt e \<Rightarrow> Halt e))"

lemma call_errno_reports: "reports H (call_errno H (\<lambda>_. True) w) w"
  unfolding reports_def
proof
  fix s
  show "call_errno H (\<lambda>_. True) w s =
     (case w (trusted s) of
        Return r t \<Rightarrow> Return (ucast r) (s\<lparr>trusted := t, errno := h_errno H (world t)\<rparr>)
      | Longjmp t \<Rightarrow> Longjmp (s\<lparr>trusted := t\<rparr>)
      | Halt e \<Rightarrow> Halt e)"
    by (cases "w (trusted s)")
       (simp_all add: call_errno_def outside_def refresh_errno_def wrap_outside_errno_def int_result_def)
qed

text \<open>Every system call of the library returns the result of the loader's wrapper of that
  name, with the host's error number in \<^verbatim>\<open>errno\<close>, and changes nothing else of the library's state.\<close>

theorem system_calls_report:
  "reports H (access H pathname mode) (wrap_outside_access H pathname mode) \<and>
   reports H (close H fd) (wrap_outside_close H fd) \<and>
   reports H (chdir H path) (wrap_outside_chdir H path) \<and>
   reports H (chmod H path mode) (wrap_outside_chmod H path mode) \<and>
   reports H (dup2 H oldfd newfd) (wrap_outside_dup2 H oldfd newfd) \<and>
   reports H (dup H oldfd) (wrap_outside_dup H oldfd) \<and>
   reports H (execv H path argv) (wrap_outside_execv H path argv) \<and>
   reports H (execvp H path argv) (wrap_outside_execvp H path argv) \<and>
   reports H (fork H) (wrap_outside_fork H) \<and>
   reports H (fstat H fd buf) (wrap_outside_fstat H fd buf) \<and>
   reports H (ftruncate H fd len) (wrap_outside_ftruncate H fd len) \<and>
   reports H (isatty H fd) (wrap_outside_isatty H fd) \<and>
   reports H (lseek H fd off whence) (wrap_outside_lseek H fd off whence) \<and>
   reports H (mkdir H pathname mode) (wrap_outside_mkdir H pathname mode) \<and>
   reports H (open_c H pathname flags mode) (wrap_outside_open H pathname flags mode) \<and>
   reports H (pipe H fds) (wrap_outside_pipe H fds) \<and>
   reports H (read H fd buf count) (wrap_outside_read H fd buf count) \<and>
   reports H (rename H oldpath newpath) (wrap_outside_rename H oldpath newpath) \<and>
   reports H (rmdir H path) (wrap_outside_rmdir H path) \<and>
   reports H (select H n rfds wfds xfds tv) (wrap_outside_select H n rfds wfds xfds tv) \<and>
   reports H (mystat H file_name buf) (wrap_outside_stat H file_name buf) \<and>
   reports H (stat H file_name buf) (wrap_outside_stat H file_name buf) \<and>
   reports H (lstat H file_name buf) (wrap_outside_lstat H file_name buf) \<and>
   reports H (times_c H buf) (wrap_outside_times H buf) \<and>
   reports H (truncate H path len) (wrap_outside_truncate H path len) \<and>
   reports H (unlink H path) (wrap_outside_unlink H path) \<and>
   reports H (wait H status) (wrap_outside_wait H status) \<and>
   reports H (write_c H fd buf count) (wrap_outside_write H fd buf count) \<and>
   reports H (opendir H name) (wrap_outside_opendir H name) \<and>
   reports H (closedir H dir) (wrap_outside_closedir H dir) \<and>
   reports H (readdir H dir) (wrap_outside_readdir H dir)"
  by (intro conjI; simp only: libc_def call_errno_reports)

section \<open>Opening and closing\<close>

text \<open>The array \<^verbatim>\<open>myfiles\<close> as it is initialised: every entry holds its own index.\<close>

definition myfiles_ok :: "image \<Rightarrow> mem \<Rightarrow> bool" where
  "myfiles_ok I m \<longleftrightarrow> (\<forall>k < max_files. load32 m (myfiles I + 4 * of_nat k) = of_nat k)"

fun libc_open :: "('f, mem \<times> 'v) host \<Rightarrow> image \<Rightarrow> open_arg \<Rightarrow> ('f, 'v) libc" where
  "libc_open H I (Fopen path mode) = fopen H I path mode"
| "libc_open H I (Fdopen fd mode) = fdopen H I fd mode"

lemma libc_open_eq: "libc_open H I a = opened H I (loader_open H a)"
  by (cases a) (simp_all add: fopen_def fdopen_def)

lemma loader_open_mem:
  assumes "\<And>fn args w. fst (snd (h_open H fn args w)) = fst w" and "loader_open H a s = Return r t"
  shows "fst (world t) = fst (world s)"
proof -
  have h: "m = fst w" if "h_open H fn args w = (x, m, v)" for fn args w x m v
    using assms(1) [of fn args w] that by simp
  show ?thesis
    using assms(2) by (cases a) (auto dest!: h simp: wrap_outside_fopen_def wrap_outside_fdopen_def Let_def split: prod.splits option.splits if_splits)
qed

text \<open>Claim C37. \<^verbatim>\<open>fopen\<close> and \<^verbatim>\<open>fdopen\<close>, with a free entry left, the library's array \<^verbatim>\<open>myfiles\<close> as it is
  initialised, and a host whose \<^verbatim>\<open>fopen\<close> does not write into the sandbox. If the host opens the file, the result
  is the address of a \<^verbatim>\<open>FILE\<close> whose entry was free, \<^verbatim>\<open>errno\<close> is untouched, and closing it restores
  the table; if the host fails, the result is null and \<^verbatim>\<open>errno\<close> is the host's.\<close>

theorem libc_open_close:
  assumes "length (files (trusted s)) = max_files" and "None \<in> set (files (trusted s))"
    and mf: "myfiles_ok I (lmem s)" and host: "\<And>fn args w. fst (snd (h_open H fn args w)) = fst w"
  shows "case loader_host_open H a (trusted s) of
      None \<Rightarrow> \<exists>s'. libc_open H I a s = Return 0 s' \<and> errno s' = h_errno H (world (trusted s')) \<and>
        files (trusted s') = files (trusted s)
    | Some f \<Rightarrow> \<exists>k < max_files. \<exists>s'. libc_open H I a s = Return (myfiles I + 4 * of_nat k) s' \<and>
        errno s' = errno s \<and> files (trusted s) ! k = None \<and> files (trusted s') = (files (trusted s))[k := Some f] \<and>
        (\<exists>r s''. fclose H (myfiles I + 4 * of_nat k) s' = Return r s'' \<and>
           files (trusted s'') = files (trusted s))"
proof (cases "loader_host_open H a (trusted s)")
  case None
  obtain t where t: "loader_open H a (trusted s) = Return (ucast (- 1 :: u32)) t" "files t = files (trusted s)"
    using loader_streams.open_fail [OF assms(1,2) None] by auto
  then show ?thesis
    using None by (simp add: libc_open_eq opened_def outside_def refresh_errno_def wrap_outside_errno_def int_result_def)
next
  case (Some f)
  let ?k = "free_slot (files (trusted s))"
  have k: "?k < max_files" by (rule free_slot_not_full [OF assms(1,2)])
  have free: "files (trusted s) ! ?k = None"
    using free_slot_None [of "files (trusted s)"] k assms(1) by simp
  obtain t where t: "loader_open H a (trusted s) = Return (ucast (of_nat ?k :: u32)) t"
    "files t = (files (trusted s))[?k := Some f]"
    using loader_streams.open_ok [OF assms(1,2) Some] by auto
  have "unat (of_nat ?k :: u32) = ?k" using k by (intro unat_of_nat32) (simp add: max_files_def)
  then have n1: "of_nat ?k \<noteq> (- 1 :: u32)"
    using k by (auto simp: max_files_def unsigned_minus_1_eq_mask mask_nat_def)
  let ?s = "s\<lparr>trusted := t\<rparr>"
  have o: "libc_open H I a s = Return (myfiles I + 4 * of_nat ?k) ?s"
    using t(1) n1 by (simp add: libc_open_eq opened_def outside_def)
  have "\<exists>r s''. fclose H (myfiles I + 4 * of_nat ?k) ?s = Return r s'' \<and> files (trusted s'') = files (trusted s)"
  proof -
    have l: "load32 (lmem ?s) (myfiles I + 4 * of_nat ?k) = of_nat ?k"
      using mf loader_open_mem [OF host t(1)] k by (simp add: myfiles_ok_def lmem_def)
    have "slot_of (files t) (of_nat ?k) = Some ?k"
      using k assms(1) t(2) by (intro slot_of_of_nat) (auto simp: max_files_def)
    then obtain r u where "wrap_outside_fclose H (of_nat ?k) t = Return r u" "files u = (files t)[?k := None]"
      using loader_streams.close_ok [of t "of_nat ?k" ?k H] by auto
    moreover have "(files t)[?k := None] = files (trusted s)"
      using t(2) free list_update_id [of "files (trusted s)" ?k] by simp
    ultimately show ?thesis
      using l by (simp add: fclose_def at_stream_def call_errno_def outside_def refresh_errno_def
          wrap_outside_errno_def int_result_def)
  qed
  then show ?thesis
    unfolding Some option.case using k o free t(2) by (intro exI [of _ ?k] conjI exI [of _ ?s]) simp_all
qed

definition fx_myfiles :: mem where
  "fx_myfiles a = (if 0x20000100 \<le> a \<and> a < 0x20000140 \<and> a AND 3 = 0 then ucast (drop_bit 2 (a - 0x20000100)) else 0)"

lemma fx_myfiles_ok: "myfiles_ok fx_image fx_myfiles"
  by code_simp

theorem libc_open_close_witness:
  "\<exists>k < max_files. \<exists>s' r s''. fopen fx_lhost fx_image 0x20000300 0x20000310 (fx_lib fx_myfiles) =
     Return (0x20000100 + 4 * of_nat k) s' \<and> fclose fx_lhost (0x20000100 + 4 * of_nat k) s' = Return r s'' \<and>
     files (trusted s'') = files (trusted (fx_lib fx_myfiles))"
proof -
  have "length (files (trusted (fx_lib fx_myfiles))) = max_files" "None \<in> set (files (trusted (fx_lib fx_myfiles)))"
    "myfiles_ok fx_image (lmem (fx_lib fx_myfiles))" "fst (snd (h_open fx_lhost fn args w)) = fst w" for fn args w
    using fx_myfiles_ok by (simp_all add: fx_lib_def max_files_def lmem_def fx_lhost_def)
  note o = libc_open_close [OF this, where a = "Fopen 0x20000300 0x20000310"]
  have "loader_host_open fx_lhost (Fopen 0x20000300 0x20000310) (trusted (fx_lib fx_myfiles)) = Some 100"
    by (simp add: fx_lhost_def)
  moreover have "myfiles fx_image = 0x20000100" by (simp add: fx_image_def)
  ultimately show ?thesis using o by (simp only: option.case libc_open.simps) metis
qed

section \<open>Copies of strings\<close>

text \<open>A string in the caller's blocks stays one while they are kept.\<close>

lemma cstr_keeps:
  assumes "cstr (lmem s) p xs" "\<forall>i \<le> length xs. \<exists>x \<in> A. unat (p + of_nat i) \<in> blk x" "keeps A s t"
  shows "cstr (lmem t) p xs"
proof (rule cstr_cong [OF assms(1)])
  fix i assume "i \<le> length xs"
  then obtain x where "x \<in> A" "unat (p + of_nat i) \<in> blk x" using assms(2) by blast
  then have "lmem t (of_nat (unat (p + of_nat i))) = lmem s (of_nat (unat (p + of_nat i)))"
    using assms(3) unfolding keeps_def by blast
  then show "lmem t (p + of_nat i) = lmem s (p + of_nat i)" by simp
qed

lemma strcpy_new_block:
  assumes H: "heap_ok (compute_sizes sz) F (insert (x, b) A) t" and n: "(x, b) \<notin> A" and q: "q = of_nat (x + 4)"
    and c: "cstr (lmem t) p xs" and src: "\<forall>i \<le> length xs. \<exists>x \<in> A. unat (p + of_nat i) \<in> blk x"
    and fits: "length xs + 5 \<le> 2 ^ (b + 3)"
  shows "\<exists>m'. strcpy q p (lmem t) = Some (q, m') \<and> cstr m' q xs \<and> cstr m' p xs \<and>
    same_off {x + 4 ..< x + 2 ^ (b + 3)} (lmem t) m'"
proof -
  let ?len = "length xs + 1"
  have uq: "unat q = x + 4" unfolding q by (rule new_block(1) [OF H])
  have le: "unat q + ?len \<le> 2 ^ 32" using uq new_block(3) [OF H] fits by simp
  have "disjoint_ranges q ?len p ?len"
    unfolding disjoint_ranges_def
  proof (intro allI impI notI)
    fix i j assume ij: "i < ?len" "j < ?len" "q + of_nat i = p + of_nat j"
    then have "j \<le> length xs" by simp
    then obtain y where y: "y \<in> A" "unat (p + of_nat j) \<in> blk y" using src by blast
    have "unat (q + of_nat i) \<in> blk (x, b)"
      using unat_offset [OF le ij(1)] uq fits ij(1) by (simp add: blk_def)
    then show False using new_block(4) [OF H n y(1)] y(2) unfolding ij(3) by blast
  qed
  then obtain m' where m': "strcpy q p (lmem t) = Some (q, m')" "cstr m' q xs" "cstr m' p xs"
    "\<forall>a. \<not> in_range q ?len a \<longrightarrow> m' a = lmem t a"
    using strcpy_spec [OF c] by blast
  have "same_off {x + 4 ..< x + 2 ^ (b + 3)} (lmem t) m'"
    unfolding same_off_def
  proof (intro allI impI)
    fix a :: addr assume "unat a \<notin> {x + 4 ..< x + 2 ^ (b + 3)}"
    then have "\<not> in_range q ?len a" using in_range_nat [OF le, of a] uq fits by auto
    then show "m' a = lmem t a" using m'(4) by blast
  qed
  then show ?thesis using m' by blast
qed

text \<open>Claim C38. \<^verbatim>\<open>strdup\<close> of a string in the caller's blocks returns, with null or with a new block that
  holds an equal string; the original and all the caller's other bytes are unchanged.\<close>

theorem strdup_copies:
  assumes "heap_inv (compute_sizes sz) A s" and "cstr (lmem s) p xs" and "length xs + 9 \<le> 2 ^ 31"
    and "\<forall>i \<le> length xs. \<exists>x \<in> A. unat (p + of_nat i) \<in> blk x"
  shows "\<exists>q t. strdup H I (compute_sizes sz) p s = Return q t \<and> keeps A s t \<and>
    (if q = 0 then heap_inv (compute_sizes sz) A t
     else let x = (unat q - 4, bucket_of (of_nat (length xs + 1)))
       in x \<notin> A \<and> heap_inv (compute_sizes sz) (insert x A) t \<and> cstr (lmem t) q xs \<and> cstr (lmem t) p xs)"
proof -
  let ?L = "compute_sizes sz" and ?n = "of_nat (length xs + 1) :: u32"
  let ?b = "bucket_of ?n"
  obtain F where F: "heap_ok ?L F A s" using assms(1) by (auto simp: heap_inv_def)
  have un: "unat ?n = length xs + 1" using assms(3) by (intro unat_of_nat32) simp
  then have n: "unat ?n + 8 \<le> 2 ^ 31" using assms(3) by simp
  obtain q t F' where m: "malloc H I ?L ?n s = Return q t" "keeps A s t"
    "q = 0 \<and> heap_ok ?L F' A t \<or>
     (\<exists>x. q = of_nat (x + 4) \<and> (x, ?b) \<notin> A \<and> unat ?n + 4 \<le> 2 ^ (?b + 3) \<and> heap_ok ?L F' (insert (x, ?b) A) t)"
    by (rule malloc_ok [OF F n])
  have sl: "strlen (lmem s) p = Some (of_nat (length xs))" by (rule strlen_cstr [OF assms(2)])
  have sn: "of_nat (length xs) + 1 = ?n" by simp
  show ?thesis
  proof (cases "q = 0")
    case True
    then have "heap_ok ?L F' A t" using m(3) by (metis new_block(2))
    then show ?thesis using sl m(1,2) True by (auto simp: strdup_def sn heap_inv_def)
  next
    case False
    then obtain x where x: "q = of_nat (x + 4)" "(x, ?b) \<notin> A" "length xs + 5 \<le> 2 ^ (?b + 3)"
      "heap_ok ?L F' (insert (x, ?b) A) t" using m(3) unfolding un by auto
    obtain m' where m': "strcpy q p (lmem t) = Some (q, m')" "cstr m' q xs" "cstr m' p xs"
      "same_off {x + 4 ..< x + 2 ^ (?b + 3)} (lmem t) m'"
      using strcpy_new_block [OF x(4,2,1) cstr_keeps [OF assms(2,4) m(2)] assms(4) x(3)] by blast
    note u = write_block [OF x(4,2) m'(4)]
    have "strdup H I ?L p s = Return q (map_mem (\<lambda>_. m') t)"
      using sl m(1) False m'(1) by (simp add: strdup_def sn)
    then show ?thesis
      using False x(2) m'(2,3) u(1) keeps_trans [OF m(2) u(2)] new_block(1) [OF x(4)] unfolding x(1)
      by (auto simp: Let_def heap_inv_def)
  qed
qed

definition fx_string :: mem where
  "fx_string = (\<lambda>_. 0)(0x20001000 := 0xff, 0x20001004 := 104)"

lemma fx_string_heap: "heap_inv (compute_sizes classic) {(0x20001000, 0)} (fx_lib fx_string)"
  unfolding heap_inv_def
proof (rule exI [of _ "\<lambda>_. []"])
  have "word_of_nat j \<noteq> (0x20001000 :: u32) \<and> word_of_nat j \<noteq> (0x20001004 :: u32)"
    if "0x20002000 \<le> j" "j < 0x21000000" for j
    using that unat_of_nat32 [of j] by auto
  then show "heap_ok (compute_sizes classic) (\<lambda>_. []) {(0x20001000, 0)} (fx_lib fx_string)"
    by (simp add: heap_ok_def fx_lib_def brk_def lmem_def break_ok_def geometry_def free_blocks_def blk_def fx_string_def
        MAGIC_def NBUCKETS_def layout_eval DATA_END_def)
qed

theorem strdup_copies_witness:
  "\<exists>q t. strdup fx_lhost fx_image (compute_sizes classic) 0x20001004 (fx_lib fx_string) = Return q t \<and>
     (q = 0 \<or> cstr (lmem t) q [104])"
proof -
  have c: "cstr (lmem (fx_lib fx_string)) 0x20001004 [104]"
    by (simp add: fx_lib_def lmem_def fx_string_def)
  have "\<forall>i \<le> length [104 :: byte]. \<exists>x \<in> {(0x20001000, 0)}. unat (0x20001004 + of_nat i :: u32) \<in> blk x"
    by (auto simp: le_Suc_eq blk_def)
  from strdup_copies [OF fx_string_heap c _ this, of fx_lhost fx_image] show ?thesis
    by (auto simp: Let_def split: if_splits)
qed

end
