(* ===== verification/SFI_Tests.thy ===== *)
theory SFI_Tests
  imports SFI_Libc_Props
begin

text \<open>
  The test programs that run in the sandbox: the allocator's (\<^verbatim>\<open>src/malloc-test-mod.c\<close>), and the
  small ones for recursion, memory, \<^verbatim>\<open>longjmp\<close>, processes and arguments (\<^verbatim>\<open>src/fib-mod.c\<close>,
  \<^verbatim>\<open>src/test-mod.c\<close>, \<^verbatim>\<open>src/longjump-mod.c\<close>, \<^verbatim>\<open>src/fork-mod.c\<close>, \<^verbatim>\<open>src/args-mod.c\<close>).
\<close>

section \<open>The allocator's test\<close>

text \<open>A chunk: the next one, a number, and as many words. The test does not look for a null
  result of \<^verbatim>\<open>malloc\<close>; storing through it is a trap.\<close>

definition fill_data :: "addr \<Rightarrow> nat \<Rightarrow> mem \<Rightarrow> mem" where
  "fill_data p i m = fold (\<lambda>j. store32 (p + 8 + 4 * of_nat j) (of_nat i)) [0..<i] m"

fun build_chunks :: "('f, mem \<times> 'v) host \<Rightarrow> image \<Rightarrow> layout \<Rightarrow> nat list \<Rightarrow> addr \<Rightarrow> ('f, 'v) libc" where
  "build_chunks H I L [] head s = Return head s"
| "build_chunks H I L (i # is) head s =
     out_bind (malloc H I L (8 + of_nat i * 4) s) (\<lambda>p s.
       if p = 0 then Halt Trapped
       else build_chunks H I L is p
              (map_mem (\<lambda>m. fill_data p i (store32 (p + 4) (of_nat i) (store32 p head m))) s))"

text \<open>The first bad word found: its value, the chunk's number and the place.\<close>

partial_function (option) check_chunks :: "mem \<Rightarrow> addr \<Rightarrow> (u32 \<times> u32 \<times> nat) option option" where
  "check_chunks m p =
     (if p = 0 then Some None
      else let n = load32 m (p + 4)
           in case find (\<lambda>j. load32 m (p + 8 + 4 * of_nat j) \<noteq> n) [0..<nat (sint n)] of
                Some j \<Rightarrow> Some (Some (load32 m (p + 8 + 4 * of_nat j), n, j))
              | None \<Rightarrow> check_chunks m (load32 m p))"

partial_function (option) free_all :: "addr \<Rightarrow> ('f, 'v) lib \<Rightarrow> (('f, 'v) lib, unit) outcome option" where
  "free_all p s =
     (if p = 0 then Some (Halt Trapped)
      else Option.bind (if load32 (lmem s) p \<noteq> 0 then free_all (load32 (lmem s) p) s else Some (Return () s))
             (\<lambda>r. Some (out_bind r (\<lambda>_. free p))))"

definition malloc_test_main :: "('f, mem \<times> 'v) host \<Rightarrow> image \<Rightarrow> layout \<Rightarrow> ('f, 'v) lib \<Rightarrow> (('f, 'v) lib, u32) outcome option" where
  "malloc_test_main H I L s =
     (case build_chunks H I L [0..<100] 0 s of
        Return head s \<Rightarrow>
          (case check_chunks (lmem s) head of
             None \<Rightarrow> None
           | Some (Some (d, n, j)) \<Rightarrow>
               Some (out_bind (outside (wrap_printf H (literal I (''Bad data %d in chunk %d location %d'' @ [CHR 0x0A])) (frame_at I))
                        (map_mem (put_words (frame_at I) [d, n, of_nat j]) s)) (\<lambda>_. Return 1))
           | Some None \<Rightarrow>
               (case free_all head s of None \<Rightarrow> None | Some r \<Rightarrow> Some (out_bind r (\<lambda>_. Return 0))))
      | Longjmp s \<Rightarrow> Some (Longjmp s)
      | Halt e \<Rightarrow> Some (Halt e))"

section \<open>Small tests\<close>

text \<open>The recursion of a negative argument is not bounded by C's rules.\<close>

partial_function (option) fib :: "u32 \<Rightarrow> u32 option" where
  "fib n =
     (if n = 0 then Some 1 else if n = 1 then Some 1
      else Option.bind (fib (n - 1)) (\<lambda>a. Option.bind (fib (n - 2)) (\<lambda>b. Some (a + b))))"

definition fib_main :: "u32 option" where "fib_main = fib 42"

definition fill_ary :: "addr \<Rightarrow> mem \<Rightarrow> mem" where
  "fill_ary p m = fold (\<lambda>i m. m(p + of_nat i := of_nat i)) [0..<10] m"

definition ary_main :: "addr \<Rightarrow> mem \<Rightarrow> byte \<times> mem" where
  "ary_main ary m = (let m = fill_ary ary m in (m (ary + 9), m))"

text \<open>What is printed; a jump to \<^verbatim>\<open>escape_buf\<close> carries its value.\<close>

datatype printed = Iteration nat | Done nat

fun escape_loop :: "nat list \<Rightarrow> printed list \<times> nat option" where
  "escape_loop [] = ([], None)"
| "escape_loop (i # is) =
     (if i = 5 then ([Iteration i], Some i)
      else let (out, j) = escape_loop is in (Iteration i # out, j))"

definition escape_main :: "printed list" where
  "escape_main =
     (case escape_loop [0..<10] of
        (out, None) \<Rightarrow> out @ [Done 0]
      | (out, Some j) \<Rightarrow> out @ [Done (if j = 0 then 1 else j)])"

definition printf_c :: "('f, mem \<times> 'v) host \<Rightarrow> image \<Rightarrow> string \<Rightarrow> u32 list \<Rightarrow> ('f, 'v) libc" where
  "printf_c H I fmt args s = outside (wrap_printf H (literal I fmt) (frame_at I)) (map_mem (put_words (frame_at I) args) s)"

definition fork_main :: "('f, mem \<times> 'v) host \<Rightarrow> image \<Rightarrow> ('f, 'v) libc" where
  "fork_main H I s =
     out_bind (fork H s) (\<lambda>child s.
       out_bind
         (if child = - 1 then
            fprintf H (stderr_p I) (literal I (''Fork failed (%d)'' @ [CHR 0x0A])) (frame_at I) (map_mem (put_words (frame_at I) [errno s]) s)
          else if child = 0 then
            out_bind (printf_c H I (''In child'' @ [CHR 0x0A]) [] s) (\<lambda>_ s.
            out_bind (execl H I (literal I ''/bin/uname'') (literal I ''uname'') [literal I ''-a''] s) (\<lambda>_ s.
              fprintf H (stderr_p I) (literal I (''Exec failed (%d)'' @ [CHR 0x0A])) (frame_at I) (map_mem (put_words (frame_at I) [errno s]) s)))
          else printf_c H I (''In parent'' @ [CHR 0x0A]) [] s) (\<lambda>_. Return 0))"

fun print_args :: "('f, mem \<times> 'v) host \<Rightarrow> image \<Rightarrow> addr \<Rightarrow> nat list \<Rightarrow> ('f, 'v) libc" where
  "print_args H I argv [] s = Return 0 s"
| "print_args H I argv (i # is) s =
     out_bind (printf_c H I (''argv[%d] = '' @ [CHR 0x27] @ ''%s'' @ [CHR 0x27, CHR 0x0A]) [of_nat i, load32 (lmem s) (argv + 4 * of_nat i)] s)
       (\<lambda>_. print_args H I argv is)"

definition args_main :: "('f, mem \<times> 'v) host \<Rightarrow> image \<Rightarrow> u32 \<Rightarrow> addr \<Rightarrow> ('f, 'v) libc" where
  "args_main H I argc argv s =
     out_bind (printf_c H I (''%d arguments:'' @ [CHR 0x0A]) [argc] s) (\<lambda>_. print_args H I argv [0..<nat (sint argc)])"

text \<open>\<^verbatim>\<open>fib\<close> returns, with the numbers of Fibonacci.\<close>

fun fibs :: "nat \<Rightarrow> nat \<Rightarrow> nat \<Rightarrow> nat" where
  "fibs a b 0 = a"
| "fibs a b (Suc n) = fibs b (a + b) n"

lemma fibs_rec: "fibs a b (Suc (Suc n)) = fibs a b (Suc n) + fibs a b n"
  by (induction n arbitrary: a b) simp_all

lemma fibs_numeral: "fibs a b (numeral k) = fibs b (a + b) (pred_numeral k)" "fibs a b 1 = b"
  by (simp_all add: numeral_eq_Suc)

lemma fib_unfold: "n \<noteq> 0 \<Longrightarrow> n \<noteq> 1 \<Longrightarrow> fib (n - 1) = Some x \<Longrightarrow> fib (n - 2) = Some y \<Longrightarrow> fib n = Some (x + y)"
  by (subst fib.simps) simp

lemma fib_fibs: "n < 2 ^ 32 \<Longrightarrow> fib (of_nat n) = Some (of_nat (fibs 1 1 n))"
proof (induction n rule: less_induct)
  case (less n)
  consider "n = 0" | "n = 1" | m where "n = Suc (Suc m)" by (metis not0_implies_Suc One_nat_def)
  then show ?case
  proof cases
    case (3 m)
    have u: "unat (of_nat n :: u32) = n" by (rule unat_of_nat32 [OF less(2)])
    have "of_nat n \<noteq> (0 :: u32)" "of_nat n \<noteq> (1 :: u32)"
      using u 3 by (metis nat.simps(3) unsigned_0, metis One_nat_def nat.inject nat.simps(3) unsigned_1)
    moreover have "of_nat n - 1 = (of_nat (Suc m) :: u32)" "of_nat n - 2 = (of_nat m :: u32)" using 3 by simp_all
    moreover have "fib (of_nat (Suc m)) = Some (of_nat (fibs 1 1 (Suc m)))" "fib (of_nat m) = Some (of_nat (fibs 1 1 m))"
      using 3 less(2) by (intro less(1); simp)+
    ultimately have "fib (of_nat n) = Some (of_nat (fibs 1 1 (Suc m)) + of_nat (fibs 1 1 m))"
      by (intro fib_unfold) simp_all
    then show ?thesis by (simp only: 3 fibs_rec of_nat_add)
  qed (simp_all add: fib.simps [of 0] fib.simps [of 1])
qed

lemma fib_main_value: "fib_main = Some 433494437"
proof -
  have "fibs 1 1 42 = 433494437" by (simp only: fibs_numeral pred_numeral_simps BitM.simps add_numeral_special add_num_simps arith_simps one_add_one numeral_One)
  then show ?thesis using fib_fibs [of 42] by (simp add: fib_main_def)
qed

lemma escape_main_output: "escape_main = map Iteration [0, 1, 2, 3, 4, 5] @ [Done 5]"
  by code_simp

lemma ary_main_9: "fst (ary_main ary m) = 9"
  by (simp add: ary_main_def fill_ary_def numeral_eq_Suc)

section \<open>The test passes\<close>

lemma load_store_apart:
  assumes "x + 4 \<le> 2 ^ 32" "y + 4 \<le> 2 ^ 32" "y + 4 \<le> x \<or> x + 4 \<le> y"
  shows "load32 (store32 (of_nat y) v m) (of_nat x) = load32 m (of_nat x)"
  using load32_same [OF same_off_store32 [OF assms(2)] assms(1)] assms(3) by auto

lemma fill_data_ok:
  fixes v :: u32 and m :: mem
  assumes "p + 8 + 4 * k \<le> 2 ^ 32"
  defines "f \<equiv> \<lambda>k. fold (\<lambda>j. store32 (of_nat p + 8 + 4 * of_nat j) v) [0..<k] m"
  shows "same_off {p + 8 ..< p + 8 + 4 * k} m (f k) \<and> (\<forall>j < k. load32 (f k) (of_nat (p + 8 + 4 * j)) = v)"
  using assms(1)
proof (induction k)
  case 0
  show ?case by (simp add: f_def)
next
  case (Suc k)
  let ?y = "p + 8 + 4 * k"
  have e: "f (Suc k) = store32 (of_nat ?y) v (f k)" by (simp add: f_def)
  have IH: "same_off {p + 8 ..< p + 8 + 4 * k} m (f k)" "\<And>j. j < k \<Longrightarrow> load32 (f k) (of_nat (p + 8 + 4 * j)) = v"
    using Suc by simp_all
  have "same_off {?y ..< ?y + 4} (f k) (f (Suc k))" unfolding e using Suc(2) by (intro same_off_store32) simp
  from same_off_trans [OF IH(1) this] have "same_off {p + 8 ..< p + 8 + 4 * Suc k} m (f (Suc k))"
    by (rule same_off_mono) auto
  moreover have "load32 (f (Suc k)) (of_nat (p + 8 + 4 * j)) = v" if "j < Suc k" for j
  proof (cases "j = k")
    case True
    then show ?thesis unfolding e by (simp only: load_store32)
  next
    case False
    then have "load32 (f (Suc k)) (of_nat (p + 8 + 4 * j)) = load32 (f k) (of_nat (p + 8 + 4 * j))"
      unfolding e using that Suc(2) by (intro load_store_apart) auto
    then show ?thesis using IH(2) False that by simp
  qed
  ultimately show ?case by blast
qed

text \<open>A chunk with its payload at an address; a list of chunks, each an address and a number.\<close>

definition chunk :: "mem \<Rightarrow> nat \<Rightarrow> nat \<Rightarrow> addr \<Rightarrow> bool" where
  "chunk m p i nxt \<longleftrightarrow> load32 m (of_nat p) = nxt \<and> load32 m (of_nat (p + 4)) = of_nat i \<and>
     (\<forall>j < i. load32 m (of_nat (p + 8 + 4 * j)) = of_nat i)"

fun chunks :: "mem \<Rightarrow> addr \<Rightarrow> (nat \<times> nat) list \<Rightarrow> bool" where
  "chunks m p [] \<longleftrightarrow> p = 0"
| "chunks m p ((x, i) # xs) \<longleftrightarrow> p = of_nat (x + 4) \<and> i < 100 \<and> (\<exists>nxt. chunk m (x + 4) i nxt \<and> chunks m nxt xs)"

definition chunk_blk :: "nat \<times> nat \<Rightarrow> nat \<times> nat" where
  "chunk_blk c = (fst c, bucket_of (8 + of_nat (snd c) * 4))"

definition chunk_size :: "nat \<Rightarrow> u32" where "chunk_size i = 8 + of_nat i * 4"

lemma unat_chunk_size: "i < 100 \<Longrightarrow> unat (chunk_size i) = 8 + 4 * i"
proof -
  assume "i < 100"
  moreover have "chunk_size i = of_nat (8 + 4 * i)" by (simp add: chunk_size_def mult.commute)
  ultimately show ?thesis using unat_of_nat32 [of "8 + 4 * i"] by simp
qed

lemma chunk_fits: "i < 100 \<Longrightarrow> 12 + 4 * i \<le> 2 ^ (bucket_of (chunk_size i) + 3)"
  using bucket_of_bounds(2) [of "chunk_size i"] unat_chunk_size [of i] by simp

lemma chunk_same:
  assumes "chunk m p i nxt" "same_off S m m'" "S \<inter> {p ..< p + 8 + 4 * i} = {}" "p + 8 + 4 * i \<le> 2 ^ 32"
  shows "chunk m' p i nxt"
proof -
  have same: "load32 m' (of_nat y) = load32 m (of_nat y)" if "p \<le> y" "y + 4 \<le> p + 8 + 4 * i" for y
    using that assms(3,4) by (intro load32_same [OF assms(2)]) auto
  have "load32 m' (of_nat p) = load32 m (of_nat p)" "load32 m' (of_nat (p + 4)) = load32 m (of_nat (p + 4))"
    "\<And>j. j < i \<Longrightarrow> load32 m' (of_nat (p + 8 + 4 * j)) = load32 m (of_nat (p + 8 + 4 * j))" by (intro same; simp)+
  then show ?thesis using assms(1) by (auto simp: chunk_def)
qed

lemma keeps_same: "keeps B s t \<Longrightarrow> z \<in> B \<Longrightarrow> same_off (- blk z) (lmem s) (lmem t)"
  unfolding same_off_def
proof (intro allI impI)
  fix a :: addr assume "keeps B s t" "z \<in> B" "unat a \<notin> - blk z"
  then have "lmem t (of_nat (unat a)) = lmem s (of_nat (unat a))" unfolding keeps_def by blast
  then show "lmem t a = lmem s a" by simp
qed

lemma chunks_keep:
  assumes "chunks (lmem s) p xs" "keeps B s t" "heap_inv (compute_sizes sz) A s" "chunk_blk ` set xs \<subseteq> A \<inter> B"
  shows "chunks (lmem t) p xs"
  using assms(1,4)
proof (induction xs arbitrary: p)
  case (Cons c xs)
  obtain x i where c: "c = (x, i)" by (cases c)
  let ?b = "bucket_of (chunk_size i)"
  have z: "(x, ?b) \<in> A" "(x, ?b) \<in> B" using Cons(3) by (simp_all add: c chunk_blk_def chunk_size_def)
  obtain F where F: "heap_ok (compute_sizes sz) F A s" using assms(3) by (auto simp: heap_inv_def)
  obtain nxt where n: "p = of_nat (x + 4)" "i < 100" "chunk (lmem s) (x + 4) i nxt" "chunks (lmem s) nxt xs"
    using Cons(2) by (auto simp: c)
  have "x + 2 ^ (?b + 3) \<le> 2 ^ 32"
    using block_range(4,5) [OF F UnI1 [OF z(1)]] data_end_bound [of sz] by simp
  moreover have "{x + 4 ..< x + 4 + 8 + 4 * i} \<subseteq> blk (x, ?b)" using chunk_fits [OF n(2)] by (auto simp: blk_def)
  ultimately have "chunk (lmem t) (x + 4) i nxt"
    using chunk_fits [OF n(2)] by (intro chunk_same [OF n(3) keeps_same [OF assms(2) z(2)]]) auto
  then show ?case using Cons(1) [OF n(4)] Cons(3) n by (auto simp: c)
qed simp

text \<open>What the loop body stores is a chunk, and it stays in the block's payload.\<close>

lemma new_chunk:
  fixes head :: u32 and m :: mem
  assumes "p + 8 + 4 * i \<le> 2 ^ 32"
  defines "m' \<equiv> fill_data (of_nat p) i (store32 (of_nat p + 4) (of_nat i) (store32 (of_nat p) head m))"
  shows "chunk m' p i head" "same_off {p ..< p + 8 + 4 * i} m m'"
proof -
  let ?m1 = "store32 (of_nat p) head m"
  let ?m2 = "store32 (of_nat (p + 4)) (of_nat i) ?m1"
  have e: "m' = fold (\<lambda>j. store32 (of_nat p + 8 + 4 * of_nat j) (of_nat i)) [0..<i] ?m2"
    by (simp add: m'_def fill_data_def add.commute)
  have f: "same_off {p + 8 ..< p + 8 + 4 * i} ?m2 m'" "\<forall>j < i. load32 m' (of_nat (p + 8 + 4 * j)) = of_nat i"
    unfolding e using fill_data_ok [OF assms(1)] by blast+
  have "load32 m' (of_nat p) = load32 ?m2 (of_nat p)" "load32 m' (of_nat (p + 4)) = load32 ?m2 (of_nat (p + 4))"
    using assms(1) by (intro load32_same [OF f(1)]; simp)+
  moreover have "load32 ?m2 (of_nat p) = load32 ?m1 (of_nat p)" using assms(1) by (intro load_store_apart) simp_all
  ultimately show "chunk m' p i head" using f(2) by (simp only: chunk_def load_store32)
  have "same_off {p ..< p + 4} m ?m1" "same_off {p + 4 ..< p + 4 + 4} ?m1 ?m2"
    using assms(1) by (intro same_off_store32; simp)+
  from same_off_trans [OF same_off_trans [OF this] f(1)] show "same_off {p ..< p + 8 + 4 * i} m m'"
    by (rule same_off_mono) auto
qed

definition chunks_in :: "layout \<Rightarrow> addr \<Rightarrow> (nat \<times> nat) list \<Rightarrow> ('f, 'v) lib \<Rightarrow> bool" where
  "chunks_in L p xs s \<longleftrightarrow> chunks (lmem s) p xs \<and> heap_inv L (chunk_blk ` set xs) s \<and> distinct (map chunk_blk xs)"

lemma build_ok:
  "chunks_in (compute_sizes sz) p xs s \<Longrightarrow> \<forall>i \<in> set is. i < 100 \<Longrightarrow>
     build_chunks H I (compute_sizes sz) is p s = Halt Trapped \<and>
       unat (DATA_END (compute_sizes sz)) < brk s + 4000 * length is \<or>
     (\<exists>q ys t. build_chunks H I (compute_sizes sz) is p s = Return q t \<and> chunks_in (compute_sizes sz) q ys t)"
proof (induction "is" arbitrary: p xs s)
  case Nil
  then show ?case by auto
next
  case (Cons i "is")
  let ?L = "compute_sizes sz" and ?n = "chunk_size i" and ?b = "bucket_of (chunk_size i)"
  define A where "A = chunk_blk ` set xs"
  have C: "chunks (lmem s) p xs" "heap_inv ?L A s" "distinct (map chunk_blk xs)"
    using Cons(2) by (simp_all add: chunks_in_def A_def)
  obtain F where F: "heap_ok ?L F A s" using C(2) by (auto simp: heap_inv_def)
  have i: "i < 100" using Cons(3) by simp
  have n: "unat ?n + 8 \<le> 2 ^ 31" using unat_chunk_size [OF i] i by simp
  have room: "q \<noteq> 0 \<and> brk t < brk s + 4000"
    if "malloc H I ?L ?n s = Return q t" "brk s + 4000 * length (i # is) \<le> unat (DATA_END ?L)" for q t
  proof -
    have r: "brk s + 3072 + 2 * unat ?n \<le> unat (DATA_END ?L)" "3072 + 2 * unat ?n \<le> 4000"
      using that(2) unat_chunk_size [OF i] i by simp_all
    show ?thesis using malloc_room [OF F n r(1) that(1)] r(2) by simp
  qed
  obtain q t F' where m: "malloc H I ?L ?n s = Return q t" "keeps A s t"
    "q = 0 \<and> heap_ok ?L F' A t \<or>
     (\<exists>x. q = of_nat (x + 4) \<and> (x, ?b) \<notin> A \<and> unat ?n + 4 \<le> 2 ^ (?b + 3) \<and> heap_ok ?L F' (insert (x, ?b) A) t)"
    by (rule malloc_ok [OF F n])
  show ?case
  proof (cases "q = 0")
    case True
    then have "unat (DATA_END ?L) < brk s + 4000 * length (i # is)" using room [OF m(1)] by (simp add: not_le [symmetric]) blast
    then show ?thesis using m(1) True by (simp add: chunk_size_def)
  next
    case False
    then obtain x where x: "q = of_nat (x + 4)" "(x, ?b) \<notin> A" "heap_ok ?L F' (insert (x, ?b) A) t" using m(3) by blast
    have fit: "x + 4 + 8 + 4 * i \<le> x + 2 ^ (?b + 3)" "x + 2 ^ (?b + 3) \<le> 2 ^ 32"
      using chunk_fits [OF i] new_block(3) [OF x(3)] by simp_all
    define m' where "m' = fill_data q i (store32 (q + 4) (of_nat i) (store32 q p (lmem t)))"
    have w: "chunk m' (x + 4) i p" "same_off {x + 4 ..< x + 4 + 8 + 4 * i} (lmem t) m'"
      unfolding m'_def x(1) using fit by (intro new_chunk; linarith)+
    have so: "same_off {x + 4 ..< x + 2 ^ (?b + 3)} (lmem t) m'" by (rule same_off_mono [OF w(2)]) (use fit in auto)
    let ?u = "map_mem (\<lambda>_. m') t"
    note u = write_block [OF x(3,2) so]
    have k: "keeps A s ?u" by (rule keeps_trans [OF m(2) u(2)])
    have "chunks (lmem ?u) p xs" by (rule chunks_keep [OF C(1) k C(2)]) (simp add: A_def)
    then have "chunks_in ?L q ((x, i) # xs) ?u"
      using w(1) x i u(1) C(3) by (auto simp: chunks_in_def chunk_blk_def chunk_size_def A_def heap_inv_def)
    moreover have "build_chunks H I ?L (i # is) p s = build_chunks H I ?L is q ?u"
      using m(1) False by (simp add: chunk_size_def m'_def map_mem_const [of "\<lambda>m. fill_data q i (store32 (q + 4) (of_nat i) (store32 q p m))"])
    moreover have "unat (DATA_END ?L) < brk s + 4000 * length (i # is)"
      if "unat (DATA_END ?L) < brk ?u + 4000 * length is"
      using that room [OF m(1)]
      by (cases "brk s + 4000 * length (i # is) \<le> unat (DATA_END ?L)") (simp_all add: brk_def map_mem_def)
    ultimately show ?thesis using Cons(1) [of q "(x, i) # xs" ?u] Cons(3) by auto
  qed
qed

lemma check_ok: "chunks m p xs \<Longrightarrow> (\<forall>c \<in> set xs. fst c + 4 < 2 ^ 32) \<Longrightarrow> check_chunks m p = Some None"
proof (induction xs arbitrary: p)
  case Nil
  then show ?case by (simp add: check_chunks.simps)
next
  case (Cons c xs)
  obtain x i where c: "c = (x, i)" by (cases c)
  obtain nxt where n: "p = of_nat (x + 4)" "i < 100" "chunk m (x + 4) i nxt" "chunks m nxt xs"
    using Cons(2) by (auto simp: c)
  have "unat p = x + 4" unfolding n(1) using Cons(3) by (intro unat_of_nat32) (simp add: c)
  then have p0: "p \<noteq> 0" by auto
  have e: "p + 4 = of_nat (x + 4 + 4)" "p + 8 + 4 * of_nat j = of_nat (x + 4 + 8 + 4 * j)" for j
    unfolding n(1) by simp_all
  have l: "load32 m (p + 4) = of_nat i" "load32 m p = nxt" "\<And>j. j < i \<Longrightarrow> load32 m (p + 8 + 4 * of_nat j) = of_nat i"
    using n(3) unfolding e chunk_def by (simp_all add: n(1))
  have "nat (sint (of_nat i :: u32)) = i" using n(2) by (simp add: signed_of_nat signed_take_bit_int_eq_self)
  then have "find (\<lambda>j. load32 m (p + 8 + 4 * of_nat j) \<noteq> load32 m (p + 4)) [0..<nat (sint (load32 m (p + 4)))] = None"
    using l by (simp add: find_None_iff)
  then have "check_chunks m p = check_chunks m nxt"
    using p0 l(2) by (subst check_chunks.simps) (simp add: Let_def)
  then show ?case using Cons(1) [OF n(4)] Cons(3) by simp
qed

text \<open>The recursion frees the tail before the head.\<close>

lemma free_all_ok:
  "chunks (lmem s) p (c # xs) \<Longrightarrow> heap_inv (compute_sizes sz) A s \<Longrightarrow> chunk_blk ` set (c # xs) \<subseteq> A \<Longrightarrow>
     distinct (map chunk_blk (c # xs)) \<Longrightarrow>
     \<exists>t. free_all p s = Some (Return () t) \<and> heap_inv (compute_sizes sz) (A - chunk_blk ` set (c # xs)) t \<and>
       keeps (A - chunk_blk ` set (c # xs)) s t"
proof (induction xs arbitrary: c p A s)
  case Nil
  let ?L = "compute_sizes sz"
  obtain x i where c: "c = (x, i)" by (cases c)
  have p: "p = of_nat (x + 4)" "load32 (lmem s) p = 0" using Nil(1) by (auto simp: c chunk_def)
  have z: "(x, snd (chunk_blk c)) \<in> A" using Nil(3) by (simp add: c chunk_blk_def)
  obtain F where F: "heap_ok ?L F A s" using Nil(2) by (auto simp: heap_inv_def)
  obtain F' t where f: "free (of_nat (x + 4)) s = Return () t" "heap_ok ?L F' (A - {(x, snd (chunk_blk c))}) t"
    "keeps (A - {(x, snd (chunk_blk c))}) s t"
    by (rule free_ok [OF F z])
  have "unat p = x + 4" unfolding p(1) using block_range(1) [OF F UnI1 [OF z]] by (intro unat_of_nat32) simp
  then have "p \<noteq> 0" by auto
  moreover have "chunk_blk c = (x, snd (chunk_blk c))" by (simp add: c chunk_blk_def)
  ultimately show ?case using f p by (subst free_all.simps) (auto simp: heap_inv_def)
next
  case (Cons d xs)
  let ?L = "compute_sizes sz" and ?T = "chunk_blk ` set (d # xs)"
  obtain x i where c: "c = (x, i)" by (cases c)
  let ?b = "snd (chunk_blk c)"
  have cb: "chunk_blk c = (x, ?b)" by (simp add: c chunk_blk_def)
  obtain nxt where n: "p = of_nat (x + 4)" "load32 (lmem s) p = nxt" "chunks (lmem s) nxt (d # xs)"
    using Cons(2) by (auto simp: c chunk_def)
  obtain t where t: "free_all nxt s = Some (Return () t)" "heap_inv ?L (A - ?T) t" "keeps (A - ?T) s t"
    using Cons(1) [OF n(3) Cons(3)] Cons(4,5) by auto
  have z: "(x, ?b) \<in> A - ?T" using Cons(4,5) unfolding cb [symmetric] by auto
  obtain F where F: "heap_ok ?L F (A - ?T) t" using t(2) by (auto simp: heap_inv_def)
  obtain F' u where f: "free (of_nat (x + 4)) t = Return () u" "heap_ok ?L F' (A - ?T - {(x, ?b)}) u"
    "keeps (A - ?T - {(x, ?b)}) t u"
    by (rule free_ok [OF F z])
  have e: "A - ?T - {(x, ?b)} = A - chunk_blk ` set (c # d # xs)" unfolding cb [symmetric] by auto
  have "unat p = x + 4" unfolding n(1) using block_range(1) [OF F UnI1 [OF z]] by (intro unat_of_nat32) simp
  then have p0: "p \<noteq> 0" by auto
  obtain y j where d: "d = (y, j)" by (cases d)
  have nx: "nxt = of_nat (y + 4)" using n(3) by (simp add: d)
  have "(y, snd (chunk_blk d)) \<in> A" using Cons(4) by (auto simp: d chunk_blk_def)
  moreover obtain G where "heap_ok ?L G A s" using Cons(3) by (auto simp: heap_inv_def)
  ultimately have "unat nxt = y + 4"
    unfolding nx using block_range(1) [of sz G A s "(y, snd (chunk_blk d))"] by (intro unat_of_nat32) simp
  then have n0: "nxt \<noteq> 0" by auto
  have "free_all p s = Some (Return () u)"
    using p0 n0 n(1,2) t(1) f(1) by (subst free_all.simps) simp
  moreover have "keeps (A - chunk_blk ` set (c # d # xs)) s u"
    using t(3) f(3) unfolding e by (auto simp: keeps_def)
  ultimately show ?case using f(2) unfolding e by (auto simp: heap_inv_def)
qed

lemma build_nonempty: "build_chunks H I L is p s = Return q t \<Longrightarrow> is \<noteq> [] \<or> p \<noteq> 0 \<Longrightarrow> q \<noteq> 0"
proof (induction "is" arbitrary: p s)
  case (Cons i "is")
  then show ?case by (cases "malloc H I L (8 + of_nat i * 4) s") (auto split: if_splits)
qed simp

text \<open>Claim C18. The allocator's test, run on an empty heap with 400000 bytes between the break and the
  end of the data region, ends and returns 0: no allocation fails, no chunk holds bad data, and
  in the end all chunks are given back to a well-formed heap.\<close>

theorem malloc_test_passes:
  assumes "fresh_heap (compute_sizes sz) s" and "brk s + 400000 \<le> unat (DATA_END (compute_sizes sz))"
  shows "\<exists>u. malloc_test_main H I (compute_sizes sz) s = Some (Return 0 u) \<and> heap_inv (compute_sizes sz) {} u"
proof -
  let ?L = "compute_sizes sz"
  have "chunks_in ?L 0 [] s" using fresh_heap_inv [OF assms(1)] by (simp add: chunks_in_def)
  from build_ok [OF this, of "[0..<100]" H I] assms(2) obtain q ys t where
    b: "build_chunks H I ?L [0..<100] 0 s = Return q t" "chunks_in ?L q ys t"
    by (auto simp del: upt_rec_numeral)
  have C: "chunks (lmem t) q ys" "heap_inv ?L (chunk_blk ` set ys) t" "distinct (map chunk_blk ys)"
    using b(2) by (simp_all add: chunks_in_def)
  obtain F where F: "heap_ok ?L F (chunk_blk ` set ys) t" using C(2) by (auto simp: heap_inv_def)
  have "fst c + 4 < 2 ^ 32" if "c \<in> set ys" for c
    using block_range(1) [OF F, of "chunk_blk c"] that by (simp add: chunk_blk_def)
  then have k: "check_chunks (lmem t) q = Some None" by (intro check_ok [OF C(1)]) blast
  have "q \<noteq> 0" using build_nonempty [OF b(1)] by simp
  then obtain c cs where ys: "ys = c # cs" using C(1) by (cases ys) auto
  obtain u where "free_all q t = Some (Return () u)" "heap_inv ?L (chunk_blk ` set ys - chunk_blk ` set ys) u"
    using free_all_ok [OF C(1) [unfolded ys] C(2)] C(3) ys by auto
  then show ?thesis using b(1) k by (simp add: malloc_test_main_def)
qed

theorem malloc_test_passes_witness:
  "\<exists>u. malloc_test_main fx_lhost fx_image (compute_sizes classic) (fx_lib (\<lambda>_. 0)) = Some (Return 0 u)"
proof -
  have "brk (fx_lib (\<lambda>_. 0)) + 400000 \<le> unat (DATA_END (compute_sizes classic))"
    by (simp add: brk_def fx_lib_def layout_eval DATA_END_def)
  from malloc_test_passes [OF fx_lib_fresh this] show ?thesis by blast
qed

end
