(* ===== verification/SFI_MD5.thy ===== *)
theory SFI_MD5
  imports SFI_Mem
begin

text \<open>
  The hash program (\<^verbatim>\<open>src/md5-mod.c\<close>), statement by statement: the context with its buffer,
  the streaming update, the padding, and the unrolled transformation. Byte order is
  little-endian, so \<^verbatim>\<open>byteReverse\<close> is empty. The byte arguments are lists.
\<close>

unbundle bit_operations_syntax

section \<open>The context\<close>

record md5_context =
  buf :: "u32 list"
  bits :: "u32 \<times> u32"
  inbuf :: "byte list"

type_synonym md5_regs = "u32 \<times> u32 \<times> u32 \<times> u32"

text \<open>What \<^verbatim>\<open>in\<close> holds at the start is not set.\<close>

definition MD5Init :: "md5_context \<Rightarrow> md5_context" where
  "MD5Init ctx = ctx\<lparr>buf := [0x67452301, 0xefcdab89, 0x98badcfe, 0x10325476], bits := (0, 0)\<rparr>"

text \<open>\<^verbatim>\<open>(uint32 *) ctx->in\<close>, and the bytes of a word.\<close>

definition word_at :: "byte list \<Rightarrow> nat \<Rightarrow> u32" where
  "word_at bs i = ucast (bs ! (4 * i)) OR push_bit 8 (ucast (bs ! (4 * i + 1))) OR
     push_bit 16 (ucast (bs ! (4 * i + 2))) OR push_bit 24 (ucast (bs ! (4 * i + 3)))"

definition words_of :: "byte list \<Rightarrow> u32 list" where
  "words_of bs = map (word_at bs) [0..<16]"

definition word_bytes :: "u32 \<Rightarrow> byte list" where
  "word_bytes w = [ucast w, ucast (drop_bit 8 w), ucast (drop_bit 16 w), ucast (drop_bit 24 w)]"

text \<open>\<^verbatim>\<open>memcpy\<close> or \<^verbatim>\<open>memset\<close> into a buffer at a position.\<close>

definition overwrite :: "nat \<Rightarrow> 'a list \<Rightarrow> 'a list \<Rightarrow> 'a list" where
  "overwrite p xs ys = take p ys @ xs @ drop (p + length xs) ys"

section \<open>The transformation\<close>

definition F1 :: "u32 \<Rightarrow> u32 \<Rightarrow> u32 \<Rightarrow> u32" where "F1 x y z = z XOR (x AND (y XOR z))"
definition F2 :: "u32 \<Rightarrow> u32 \<Rightarrow> u32 \<Rightarrow> u32" where "F2 x y z = F1 z x y"
definition F3 :: "u32 \<Rightarrow> u32 \<Rightarrow> u32 \<Rightarrow> u32" where "F3 x y z = x XOR y XOR z"
definition F4 :: "u32 \<Rightarrow> u32 \<Rightarrow> u32 \<Rightarrow> u32" where "F4 x y z = y XOR (x OR NOT z)"

definition MD5STEP :: "(u32 \<Rightarrow> u32 \<Rightarrow> u32 \<Rightarrow> u32) \<Rightarrow> u32 \<Rightarrow> u32 \<Rightarrow> u32 \<Rightarrow> u32 \<Rightarrow> u32 \<Rightarrow> nat \<Rightarrow> u32" where
  "MD5STEP f w x y z data s =
     (let w1 = w + (f x y z + data); w2 = push_bit s w1 OR drop_bit (32 - s) w1 in w2 + x)"

definition round1 :: "u32 list \<Rightarrow> md5_regs \<Rightarrow> md5_regs" where
  "round1 inp = (\<lambda>(a, b, c, d).
     let a = MD5STEP F1 a b c d (inp ! 0 + 0xd76aa478) 7;
         d = MD5STEP F1 d a b c (inp ! 1 + 0xe8c7b756) 12;
         c = MD5STEP F1 c d a b (inp ! 2 + 0x242070db) 17;
         b = MD5STEP F1 b c d a (inp ! 3 + 0xc1bdceee) 22;
         a = MD5STEP F1 a b c d (inp ! 4 + 0xf57c0faf) 7;
         d = MD5STEP F1 d a b c (inp ! 5 + 0x4787c62a) 12;
         c = MD5STEP F1 c d a b (inp ! 6 + 0xa8304613) 17;
         b = MD5STEP F1 b c d a (inp ! 7 + 0xfd469501) 22;
         a = MD5STEP F1 a b c d (inp ! 8 + 0x698098d8) 7;
         d = MD5STEP F1 d a b c (inp ! 9 + 0x8b44f7af) 12;
         c = MD5STEP F1 c d a b (inp ! 10 + 0xffff5bb1) 17;
         b = MD5STEP F1 b c d a (inp ! 11 + 0x895cd7be) 22;
         a = MD5STEP F1 a b c d (inp ! 12 + 0x6b901122) 7;
         d = MD5STEP F1 d a b c (inp ! 13 + 0xfd987193) 12;
         c = MD5STEP F1 c d a b (inp ! 14 + 0xa679438e) 17;
         b = MD5STEP F1 b c d a (inp ! 15 + 0x49b40821) 22
     in (a, b, c, d))"

definition round2 :: "u32 list \<Rightarrow> md5_regs \<Rightarrow> md5_regs" where
  "round2 inp = (\<lambda>(a, b, c, d).
     let a = MD5STEP F2 a b c d (inp ! 1 + 0xf61e2562) 5;
         d = MD5STEP F2 d a b c (inp ! 6 + 0xc040b340) 9;
         c = MD5STEP F2 c d a b (inp ! 11 + 0x265e5a51) 14;
         b = MD5STEP F2 b c d a (inp ! 0 + 0xe9b6c7aa) 20;
         a = MD5STEP F2 a b c d (inp ! 5 + 0xd62f105d) 5;
         d = MD5STEP F2 d a b c (inp ! 10 + 0x02441453) 9;
         c = MD5STEP F2 c d a b (inp ! 15 + 0xd8a1e681) 14;
         b = MD5STEP F2 b c d a (inp ! 4 + 0xe7d3fbc8) 20;
         a = MD5STEP F2 a b c d (inp ! 9 + 0x21e1cde6) 5;
         d = MD5STEP F2 d a b c (inp ! 14 + 0xc33707d6) 9;
         c = MD5STEP F2 c d a b (inp ! 3 + 0xf4d50d87) 14;
         b = MD5STEP F2 b c d a (inp ! 8 + 0x455a14ed) 20;
         a = MD5STEP F2 a b c d (inp ! 13 + 0xa9e3e905) 5;
         d = MD5STEP F2 d a b c (inp ! 2 + 0xfcefa3f8) 9;
         c = MD5STEP F2 c d a b (inp ! 7 + 0x676f02d9) 14;
         b = MD5STEP F2 b c d a (inp ! 12 + 0x8d2a4c8a) 20
     in (a, b, c, d))"

definition round3 :: "u32 list \<Rightarrow> md5_regs \<Rightarrow> md5_regs" where
  "round3 inp = (\<lambda>(a, b, c, d).
     let a = MD5STEP F3 a b c d (inp ! 5 + 0xfffa3942) 4;
         d = MD5STEP F3 d a b c (inp ! 8 + 0x8771f681) 11;
         c = MD5STEP F3 c d a b (inp ! 11 + 0x6d9d6122) 16;
         b = MD5STEP F3 b c d a (inp ! 14 + 0xfde5380c) 23;
         a = MD5STEP F3 a b c d (inp ! 1 + 0xa4beea44) 4;
         d = MD5STEP F3 d a b c (inp ! 4 + 0x4bdecfa9) 11;
         c = MD5STEP F3 c d a b (inp ! 7 + 0xf6bb4b60) 16;
         b = MD5STEP F3 b c d a (inp ! 10 + 0xbebfbc70) 23;
         a = MD5STEP F3 a b c d (inp ! 13 + 0x289b7ec6) 4;
         d = MD5STEP F3 d a b c (inp ! 0 + 0xeaa127fa) 11;
         c = MD5STEP F3 c d a b (inp ! 3 + 0xd4ef3085) 16;
         b = MD5STEP F3 b c d a (inp ! 6 + 0x04881d05) 23;
         a = MD5STEP F3 a b c d (inp ! 9 + 0xd9d4d039) 4;
         d = MD5STEP F3 d a b c (inp ! 12 + 0xe6db99e5) 11;
         c = MD5STEP F3 c d a b (inp ! 15 + 0x1fa27cf8) 16;
         b = MD5STEP F3 b c d a (inp ! 2 + 0xc4ac5665) 23
     in (a, b, c, d))"

definition round4 :: "u32 list \<Rightarrow> md5_regs \<Rightarrow> md5_regs" where
  "round4 inp = (\<lambda>(a, b, c, d).
     let a = MD5STEP F4 a b c d (inp ! 0 + 0xf4292244) 6;
         d = MD5STEP F4 d a b c (inp ! 7 + 0x432aff97) 10;
         c = MD5STEP F4 c d a b (inp ! 14 + 0xab9423a7) 15;
         b = MD5STEP F4 b c d a (inp ! 5 + 0xfc93a039) 21;
         a = MD5STEP F4 a b c d (inp ! 12 + 0x655b59c3) 6;
         d = MD5STEP F4 d a b c (inp ! 3 + 0x8f0ccc92) 10;
         c = MD5STEP F4 c d a b (inp ! 10 + 0xffeff47d) 15;
         b = MD5STEP F4 b c d a (inp ! 1 + 0x85845dd1) 21;
         a = MD5STEP F4 a b c d (inp ! 8 + 0x6fa87e4f) 6;
         d = MD5STEP F4 d a b c (inp ! 15 + 0xfe2ce6e0) 10;
         c = MD5STEP F4 c d a b (inp ! 6 + 0xa3014314) 15;
         b = MD5STEP F4 b c d a (inp ! 13 + 0x4e0811a1) 21;
         a = MD5STEP F4 a b c d (inp ! 4 + 0xf7537e82) 6;
         d = MD5STEP F4 d a b c (inp ! 11 + 0xbd3af235) 10;
         c = MD5STEP F4 c d a b (inp ! 2 + 0x2ad7d2bb) 15;
         b = MD5STEP F4 b c d a (inp ! 9 + 0xeb86d391) 21
     in (a, b, c, d))"

definition MD5Transform :: "u32 list \<Rightarrow> u32 list \<Rightarrow> u32 list" where
  "MD5Transform st inp =
     (let (a, b, c, d) = round4 inp (round3 inp (round2 inp (round1 inp (st ! 0, st ! 1, st ! 2, st ! 3))))
      in [st ! 0 + a, st ! 1 + b, st ! 2 + c, st ! 3 + d])"

section \<open>Update\<close>

text \<open>The 64-bit count of bits, in two words.\<close>

definition add_bits :: "u32 \<times> u32 \<Rightarrow> u32 \<Rightarrow> u32 \<times> u32" where
  "add_bits bs len =
     (let t = fst bs; lo = t + push_bit 3 len; hi = (if lo < t then snd bs + 1 else snd bs)
      in (lo, hi + drop_bit 29 len))"

text \<open>\<^verbatim>\<open>memcpy(ctx->in, buf, 64); MD5Transform(ctx->buf, ctx->in);\<close> while 64 bytes are left\<close>

function blocks_loop :: "byte list \<Rightarrow> md5_context \<Rightarrow> md5_context" where
  "blocks_loop data ctx =
     (if length data \<ge> 64
      then let inb = overwrite 0 (take 64 data) (inbuf ctx)
           in blocks_loop (drop 64 data) (ctx\<lparr>inbuf := inb, buf := MD5Transform (buf ctx) (words_of inb)\<rparr>)
      else ctx\<lparr>inbuf := overwrite 0 data (inbuf ctx)\<rparr>)"
  by pat_completeness auto
termination
  by (relation "measure (\<lambda>(data, ctx). length data)") auto

declare blocks_loop.simps [simp del]

definition MD5Update :: "md5_context \<Rightarrow> byte list \<Rightarrow> md5_context" where
  "MD5Update ctx data =
     (let t0 = fst (bits ctx);
          ctx = ctx\<lparr>bits := add_bits (bits ctx) (of_nat (length data))\<rparr>;
          t = unat (drop_bit 3 t0 AND 0x3f)
      in if t \<noteq> 0 then
           let n = 64 - t
           in if length data < n then ctx\<lparr>inbuf := overwrite t data (inbuf ctx)\<rparr>
              else let inb = overwrite t (take n data) (inbuf ctx)
                   in blocks_loop (drop n data) (ctx\<lparr>inbuf := inb, buf := MD5Transform (buf ctx) (words_of inb)\<rparr>)
         else blocks_loop data ctx)"

section \<open>Final\<close>

text \<open>The digest, and the context afterwards: \<^verbatim>\<open>sizeof(ctx)\<close> is the size of a pointer, so only the
  first word of the context is cleared.\<close>

definition MD5Final :: "md5_context \<Rightarrow> byte list \<times> md5_context" where
  "MD5Final ctx =
     (let count = unat (drop_bit 3 (fst (bits ctx)) AND 0x3f);
          in1 = overwrite count [0x80] (inbuf ctx);
          left = 64 - 1 - count;
          (st, in2) =
            (if left < 8 then
               let inb = overwrite (count + 1) (replicate left 0) in1
               in (MD5Transform (buf ctx) (words_of inb), overwrite 0 (replicate 56 0) inb)
             else (buf ctx, overwrite (count + 1) (replicate (left - 8) 0) in1));
          in3 = overwrite 60 (word_bytes (snd (bits ctx))) (overwrite 56 (word_bytes (fst (bits ctx))) in2);
          st' = MD5Transform st (words_of in3)
      in (concat (map word_bytes st'), ctx\<lparr>buf := st'[0 := 0], inbuf := in3\<rparr>))"

section \<open>The program\<close>

definition SIZE :: nat where "SIZE = 15728640"

definition md5_data :: "byte list" where
  "md5_data = map of_nat [0..<SIZE]"

definition one_pass :: "byte list \<Rightarrow> md5_context \<Rightarrow> md5_context" where
  "one_pass data ctx = fold (\<lambda>k c. MD5Update c (take (min 4096 (length data - k * 4096)) (drop (k * 4096) data)))
     [0..<(length data + 4095) div 4096] ctx"

text \<open>The result is the first word of the signature; the bytes are printed.\<close>

definition md5_main :: "md5_context \<Rightarrow> u32 \<times> byte list" where
  "md5_main ctx =
     (let signature = fst (MD5Final ((one_pass md5_data ^^ 100) (MD5Init ctx)))
      in (word_at signature 0, signature))"

section \<open>The specification\<close>

text \<open>RFC 1321: tables, functions and rotating registers, one step for each of the 64 rounds.\<close>

definition md5_K :: "u32 list" where
  "md5_K =
    [0xd76aa478, 0xe8c7b756, 0x242070db, 0xc1bdceee, 0xf57c0faf, 0x4787c62a, 0xa8304613,
     0xfd469501, 0x698098d8, 0x8b44f7af, 0xffff5bb1, 0x895cd7be, 0x6b901122, 0xfd987193,
     0xa679438e, 0x49b40821, 0xf61e2562, 0xc040b340, 0x265e5a51, 0xe9b6c7aa, 0xd62f105d,
     0x02441453, 0xd8a1e681, 0xe7d3fbc8, 0x21e1cde6, 0xc33707d6, 0xf4d50d87, 0x455a14ed,
     0xa9e3e905, 0xfcefa3f8, 0x676f02d9, 0x8d2a4c8a, 0xfffa3942, 0x8771f681, 0x6d9d6122,
     0xfde5380c, 0xa4beea44, 0x4bdecfa9, 0xf6bb4b60, 0xbebfbc70, 0x289b7ec6, 0xeaa127fa,
     0xd4ef3085, 0x04881d05, 0xd9d4d039, 0xe6db99e5, 0x1fa27cf8, 0xc4ac5665, 0xf4292244,
     0x432aff97, 0xab9423a7, 0xfc93a039, 0x655b59c3, 0x8f0ccc92, 0xffeff47d, 0x85845dd1,
     0x6fa87e4f, 0xfe2ce6e0, 0xa3014314, 0x4e0811a1, 0xf7537e82, 0xbd3af235, 0x2ad7d2bb,
     0xeb86d391]"

definition md5_shifts :: "nat list list" where
  "md5_shifts = [[7, 12, 17, 22], [5, 9, 14, 20], [4, 11, 16, 23], [6, 10, 15, 21]]"

definition md5_fun :: "nat \<Rightarrow> u32 \<Rightarrow> u32 \<Rightarrow> u32 \<Rightarrow> u32" where
  "md5_fun i x y z =
     (if i < 16 then (x AND y) OR (NOT x AND z)
      else if i < 32 then (x AND z) OR (y AND NOT z)
      else if i < 48 then x XOR y XOR z
      else y XOR (x OR NOT z))"

definition md5_index :: "nat \<Rightarrow> nat" where
  "md5_index i =
     (if i < 16 then i else if i < 32 then 5 * i + 1 else if i < 48 then 3 * i + 5 else 7 * i) mod 16"

definition md5_step :: "u32 list \<Rightarrow> nat \<Rightarrow> md5_regs \<Rightarrow> md5_regs" where
  "md5_step inp i = (\<lambda>(a, b, c, d).
     (d, b + word_rotl (md5_shifts ! (i div 16) ! (i mod 4)) (a + md5_fun i b c d + inp ! md5_index i + md5_K ! i), b, c))"

definition md5_compress :: "u32 list \<Rightarrow> u32 list \<Rightarrow> u32 list" where
  "md5_compress st inp =
     (let (a, b, c, d) = fold (md5_step inp) [0..<64] (st ! 0, st ! 1, st ! 2, st ! 3)
      in [st ! 0 + a, st ! 1 + b, st ! 2 + c, st ! 3 + d])"

definition md5_pad :: "byte list \<Rightarrow> byte list" where
  "md5_pad msg = msg @ [0x80] @ replicate ((119 - length msg mod 64) mod 64) 0 @
     (let n = of_nat (8 * length msg) :: 64 word in word_bytes (ucast n) @ word_bytes (ucast (drop_bit 32 n)))"

function md5_blocks :: "byte list \<Rightarrow> u32 list \<Rightarrow> u32 list" where
  "md5_blocks bs st = (if length bs < 64 then st else md5_blocks (drop 64 bs) (md5_compress st (words_of (take 64 bs))))"
  by pat_completeness auto
termination
  by (relation "measure (\<lambda>(bs, st). length bs)") auto

declare md5_blocks.simps [simp del]

definition md5_digest :: "byte list \<Rightarrow> byte list" where
  "md5_digest msg =
     concat (map word_bytes (md5_blocks (md5_pad msg) [0x67452301, 0xefcdab89, 0x98badcfe, 0x10325476]))"

end
