(* ===== verification/SFI_MD5_Props.thy ===== *)
theory SFI_MD5_Props
  imports SFI_MD5
begin

text \<open>
  The hash program computes RFC 1321. The unrolled rounds are the table-driven steps of the
  specification; the streaming update and the padding are one automaton that takes a byte at a
  time; the two words of the bit count hold 8 times the number of bytes.
\<close>

section \<open>The rounds\<close>

lemma F_eq: "F1 x y z = (x AND y) OR (NOT x AND z)" "F2 x y z = (x AND z) OR (y AND NOT z)"
  by (rule bit_word_eqI; auto simp: F1_def F2_def bit_simps)+

lemma rotl_eq: "0 < s \<Longrightarrow> s < 32 \<Longrightarrow> push_bit s w OR drop_bit (32 - s) w = word_rotl s (w :: u32)"
proof (rule bit_word_eqI)
  fix n assume s: "0 < s" "s < 32" and n: "n < LENGTH(32)"
  show "bit (push_bit s w OR drop_bit (32 - s) w) n \<longleftrightarrow> bit (word_rotl s w) n"
  proof (cases "s \<le> n")
    case True
    then have "(n + (32 - s)) mod 32 = n - s" using s n by (simp add: mod_if)
    moreover have "\<not> bit w (32 - s + n)" using True bit_imp_le_length [of w "32 - s + n"] by auto
    ultimately show ?thesis using s n True by (simp add: bit_simps bit_word_rotl_iff)
  next
    case False
    then have "(n + (32 - s)) mod 32 = 32 - s + n" using s n by simp
    then show ?thesis using s n False by (simp add: bit_simps bit_word_rotl_iff)
  qed
qed

lemma step_eq:
  assumes "0 < s" "s < 32"
  shows "MD5STEP f w x y z d s = x + word_rotl s (w + f x y z + d)"
proof -
  have "MD5STEP f w x y z d s = word_rotl s (w + (f x y z + d)) + x"
    by (simp only: MD5STEP_def Let_def rotl_eq [OF assms])
  then show ?thesis by (simp only: add.assoc add.commute [of x])
qed

lemma md5_step_let:
  "fold (md5_step inp) (i # is) (a, b, c, d) =
    Let (b + word_rotl (md5_shifts ! (i div 16) ! (i mod 4)) (a + md5_fun i b c d + inp ! md5_index i + md5_K ! i))
      (\<lambda>v. fold (md5_step inp) is (d, v, b, c))"
  by (simp add: md5_step_def Let_def)

text \<open>The tables at every step, as the code has them.\<close>

lemma table_step:
  assumes "i < 64"
  shows "b + word_rotl (md5_shifts ! (i div 16) ! (i mod 4)) (a + md5_fun i b c d + inp ! md5_index i + md5_K ! i) =
    MD5STEP (if i < 16 then F1 else if i < 32 then F2 else if i < 48 then F3 else F4) a b c d
      (inp ! md5_index i + md5_K ! i) (md5_shifts ! (i div 16) ! (i mod 4))"
proof -
  have "list_all (\<lambda>i. 0 < md5_shifts ! (i div 16) ! (i mod 4) \<and> md5_shifts ! (i div 16) ! (i mod 4) < 32) [0..<64]"
    by code_simp
  then have "0 < md5_shifts ! (i div 16) ! (i mod 4)" "md5_shifts ! (i div 16) ! (i mod 4) < 32"
    using assms by (auto simp: list_all_iff)
  note e = step_eq [OF this]
  show ?thesis
    unfolding e by (simp add: md5_fun_def F_eq F3_def F4_def add.assoc)
qed

definition step_consts :: "nat \<Rightarrow> nat \<times> u32 \<times> nat" where
  "step_consts i = (md5_index i, md5_K ! i, md5_shifts ! (i div 16) ! (i mod 4))"

text \<open>One step of the specification is one assignment of the code.\<close>

lemma fold_md5:
  assumes "i < 64" "step_consts i = (g, k, s)" "f = (if i < 16 then F1 else if i < 32 then F2 else if i < 48 then F3 else F4)"
    and "\<And>v. fold (md5_step inp) is (d, v, b, c) = h v"
  shows "fold (md5_step inp) (i # is) (a, b, c, d) = Let (MD5STEP f a b c d (inp ! g + k) s) h"
  using assms table_step [OF assms(1), of b a c d inp] unfolding md5_step_let by (simp add: step_consts_def)

lemmas tables = step_consts_def md5_index_def md5_K_def md5_shifts_def

lemma fold_nil: "fold f [] x = x" by simp

lemma upt_rounds:
  "[0..<16] = [0, 1, 2, 3, 4, 5, 6, 7, 8, 9, 10, 11, 12, 13, 14, 15]"
  "[16..<32] = [16, 17, 18, 19, 20, 21, 22, 23, 24, 25, 26, 27, 28, 29, 30, 31]"
  "[32..<48] = [32, 33, 34, 35, 36, 37, 38, 39, 40, 41, 42, 43, 44, 45, 46, 47]"
  "[48..<64] = [48, 49, 50, 51, 52, 53, 54, 55, 56, 57, 58, 59, 60, 61, 62, 63]"
  by (simp_all add: upt_rec)

lemma round1_eq: "fold (md5_step inp) [0..<16] (a, b, c, d) = round1 inp (a, b, c, d)"
  unfolding upt_rounds round1_def prod.case
  by (rule fold_md5, simp, simp add: tables, simp)+ (rule fold_nil)

lemma round2_eq: "fold (md5_step inp) [16..<32] (a, b, c, d) = round2 inp (a, b, c, d)"
  unfolding upt_rounds round2_def prod.case
  by (rule fold_md5, simp, simp add: tables, simp)+ (rule fold_nil)

lemma round3_eq: "fold (md5_step inp) [32..<48] (a, b, c, d) = round3 inp (a, b, c, d)"
  unfolding upt_rounds round3_def prod.case
  by (rule fold_md5, simp, simp add: tables, simp)+ (rule fold_nil)

lemma round4_eq: "fold (md5_step inp) [48..<64] (a, b, c, d) = round4 inp (a, b, c, d)"
  unfolding upt_rounds round4_def prod.case
  by (rule fold_md5, simp, simp add: tables, simp)+ (rule fold_nil)

lemma transform_eq: "MD5Transform st inp = md5_compress st inp"
proof -
  have "[0..<64] = [0..<16] @ [16..<32] @ [32..<48] @ [48..<64 :: nat]"
    by code_simp
  then have "fold (md5_step inp) [0..<64] r = round4 inp (round3 inp (round2 inp (round1 inp r)))" for r
    using round1_eq round2_eq round3_eq round4_eq by (simp only: fold_append o_apply) (metis prod_cases4)
  then show ?thesis by (simp add: MD5Transform_def md5_compress_def)
qed

section \<open>Byte by byte\<close>

text \<open>The streaming state: digest words, buffer, position in the buffer.\<close>

definition absorb :: "byte \<Rightarrow> u32 list \<times> byte list \<times> nat \<Rightarrow> u32 list \<times> byte list \<times> nat" where
  "absorb b = (\<lambda>(st, inb, t). let inb' = inb[t := b]
     in if t = 63 then (MD5Transform st (words_of inb'), inb', 0) else (st, inb', t + 1))"

lemma absorb_eq: "absorb b (st, inb, t) =
    (if t = 63 then (MD5Transform st (words_of (inb[t := b])), inb[t := b], 0) else (st, inb[t := b], t + 1))"
  by (simp add: absorb_def Let_def)

lemma length_overwrite [simp]: "p + length xs \<le> length ys \<Longrightarrow> length (overwrite p xs ys) = length ys"
  by (simp add: overwrite_def)

lemma overwrite_Nil [simp]: "overwrite p [] ys = ys"
  by (simp add: overwrite_def)

lemma overwrite_append:
  "p + length xs \<le> length zs \<Longrightarrow> overwrite (p + length xs) ys (overwrite p xs zs) = overwrite p (xs @ ys) zs"
  by (simp add: overwrite_def ac_simps)

lemma overwrite_one: "p < length ys \<Longrightarrow> overwrite p [b] ys = ys[p := b]"
  by (simp add: overwrite_def upd_conv_take_nth_drop)

lemma absorb_part:
  "length inb = 64 \<Longrightarrow> t + length bs < 64 \<Longrightarrow> fold absorb bs (st, inb, t) = (st, overwrite t bs inb, t + length bs)"
proof (induction bs arbitrary: inb t)
  case (Cons b bs)
  have "fold absorb bs (st, inb[t := b], t + 1) = (st, overwrite (t + 1) bs (inb[t := b]), t + 1 + length bs)"
    using Cons by simp
  moreover have "overwrite (t + 1) bs (inb[t := b]) = overwrite t (b # bs) inb"
    using overwrite_append [of t "[b]" inb bs] overwrite_one [of t inb b] Cons by simp
  ultimately show ?case using Cons(3) by (simp add: absorb_eq)
qed simp

lemma absorb_fill:
  assumes "length inb = 64" "bs \<noteq> []" "t + length bs = 64"
  shows "fold absorb bs (st, inb, t) = (MD5Transform st (words_of (overwrite t bs inb)), overwrite t bs inb, 0)"
proof -
  obtain cs c where c: "bs = cs @ [c]" using assms(2) by (metis append_butlast_last_id)
  have t: "t + length cs = 63" using assms(3) c by simp
  have "fold absorb cs (st, inb, t) = (st, overwrite t cs inb, 63)"
    using absorb_part [of inb t cs st] assms(1) t by simp
  moreover have "(overwrite t cs inb)[63 := c] = overwrite t bs inb"
    using overwrite_append [of t cs inb "[c]"] overwrite_one [of 63 "overwrite t cs inb" c] t assms(1) c by simp
  ultimately show ?thesis using c by (simp add: absorb_eq)
qed

definition buf_pos :: "md5_context \<Rightarrow> nat" where
  "buf_pos ctx = unat (drop_bit 3 (fst (bits ctx)) AND 0x3f)"

lemma blocks_loop_absorb:
  "length (inbuf ctx) = 64 \<Longrightarrow> fold absorb data (buf ctx, inbuf ctx, 0) = (st, inb, t) \<Longrightarrow>
     blocks_loop data ctx = ctx\<lparr>buf := st, inbuf := inb\<rparr> \<and> t = length data mod 64 \<and> length inb = 64"
proof (induction data ctx rule: blocks_loop.induct)
  case (1 data ctx)
  show ?case
  proof (cases "length data \<ge> 64")
    case True
    define inb1 where "inb1 = overwrite 0 (take 64 data) (inbuf ctx)"
    let ?ctx = "ctx\<lparr>inbuf := inb1, buf := MD5Transform (buf ctx) (words_of inb1)\<rparr>"
    have l: "length inb1 = 64" using True 1(2) by (simp add: inb1_def)
    have "take 64 data \<noteq> []" using True by (cases data) auto
    then have "fold absorb (take 64 data) (buf ctx, inbuf ctx, 0) = (buf ?ctx, inb1, 0)"
      using absorb_fill [OF 1(2), of "take 64 data" 0 "buf ctx"] True by (simp add: inb1_def)
    then have "fold absorb (take 64 data @ drop 64 data) (buf ctx, inbuf ctx, 0) = fold absorb (drop 64 data) (buf ?ctx, inb1, 0)"
      by (simp only: fold_append o_apply)
    then have "fold absorb (drop 64 data) (buf ?ctx, inbuf ?ctx, 0) = (st, inb, t)"
      using 1(3) by simp
    then have "blocks_loop (drop 64 data) ?ctx = ?ctx\<lparr>buf := st, inbuf := inb\<rparr> \<and> t = length (drop 64 data) mod 64 \<and> length inb = 64"
      using 1(1) [OF True inb1_def] l by simp
    then show ?thesis
      using True by (subst blocks_loop.simps) (simp add: inb1_def [symmetric] mod_if [of "length data"])
  next
    case False
    then show ?thesis
      using 1(2,3) absorb_part [of "inbuf ctx" 0 data "buf ctx"] by (subst blocks_loop.simps) auto
  qed
qed

lemma update_absorb:
  assumes "length (inbuf ctx) = 64" "fold absorb data (buf ctx, inbuf ctx, buf_pos ctx) = (st, inb, t)"
  shows "MD5Update ctx data = ctx\<lparr>buf := st, inbuf := inb, bits := add_bits (bits ctx) (of_nat (length data))\<rparr> \<and>
    t = (buf_pos ctx + length data) mod 64 \<and> length inb = 64"
proof -
  let ?b = "add_bits (bits ctx) (of_nat (length data))"
  let ?c = "ctx\<lparr>bits := ?b\<rparr>"
  have p: "buf_pos ctx < 64"
  proof -
    have "drop_bit 3 (fst (bits ctx)) AND 0x3f = take_bit 6 (drop_bit 3 (fst (bits ctx)))"
      by (simp add: take_bit_eq_mask mask_eq_exp_minus_1)
    then show ?thesis by (simp add: buf_pos_def unat_take_bit)
  qed
  have U: "MD5Update ctx data =
      (if buf_pos ctx \<noteq> 0 then
         if length data < 64 - buf_pos ctx then ?c\<lparr>inbuf := overwrite (buf_pos ctx) data (inbuf ctx)\<rparr>
         else let inb = overwrite (buf_pos ctx) (take (64 - buf_pos ctx) data) (inbuf ctx)
              in blocks_loop (drop (64 - buf_pos ctx) data) (?c\<lparr>inbuf := inb, buf := MD5Transform (buf ctx) (words_of inb)\<rparr>)
       else blocks_loop data ?c)"
    by (simp add: MD5Update_def buf_pos_def Let_def)
  consider "buf_pos ctx = 0" | "buf_pos ctx \<noteq> 0" "length data < 64 - buf_pos ctx" | "buf_pos ctx \<noteq> 0" "64 - buf_pos ctx \<le> length data" by linarith
  then show ?thesis
  proof cases
    case 1
    then show ?thesis using U blocks_loop_absorb [of ?c data st inb t] assms by simp
  next
    case 2
    then show ?thesis using U absorb_part [OF assms(1), of "buf_pos ctx" data "buf ctx"] assms by auto
  next
    case 3
    let ?n = "64 - buf_pos ctx"
    define inb1 where "inb1 = overwrite (buf_pos ctx) (take ?n data) (inbuf ctx)"
    let ?d = "?c\<lparr>inbuf := inb1, buf := MD5Transform (buf ctx) (words_of inb1)\<rparr>"
    have "take ?n data \<noteq> []" using 3 p by (cases data) auto
    then have "fold absorb (take ?n data) (buf ctx, inbuf ctx, buf_pos ctx) = (buf ?d, inb1, 0)"
      using absorb_fill [OF assms(1), of "take ?n data" "buf_pos ctx" "buf ctx"] 3 p by (simp add: inb1_def)
    then have "fold absorb (take ?n data @ drop ?n data) (buf ctx, inbuf ctx, buf_pos ctx) = fold absorb (drop ?n data) (buf ?d, inb1, 0)"
      by (simp only: fold_append o_apply)
    then have "fold absorb (drop ?n data) (buf ?d, inbuf ?d, 0) = (st, inb, t)"
      using assms(2) by simp
    moreover have "length inb1 = 64" using 3 p assms(1) by (simp add: inb1_def)
    ultimately have B: "blocks_loop (drop ?n data) ?d = ?d\<lparr>buf := st, inbuf := inb\<rparr> \<and> t = length (drop ?n data) mod 64 \<and> length inb = 64"
      using blocks_loop_absorb [of ?d "drop ?n data" st inb t] by simp
    have "length (drop ?n data) mod 64 = (buf_pos ctx + length data) mod 64"
    proof -
      have "buf_pos ctx + length data = length (drop ?n data) + 64" using 3 p by simp
      then show ?thesis by (simp only: mod_add_self2)
    qed
    then show ?thesis using U 3 B by (simp add: inb1_def [symmetric])
  qed
qed

section \<open>The count of bits\<close>

definition bit_total :: "u32 \<times> u32 \<Rightarrow> nat" where
  "bit_total b = unat (snd b) * 2 ^ 32 + unat (fst b)"

lemma bit_total_inj: "bit_total a = bit_total b \<Longrightarrow> a = b"
proof -
  assume t: "bit_total a = bit_total b"
  have "unat (fst a) < 2 ^ 32" "unat (fst b) < 2 ^ 32" by (rule less_le_trans [OF unsigned_less], simp)+
  then have "bit_total a mod 2 ^ 32 = unat (fst a)" "bit_total b mod 2 ^ 32 = unat (fst b)"
    "bit_total a div 2 ^ 32 = unat (snd a)" "bit_total b div 2 ^ 32 = unat (snd b)" by (simp_all add: bit_total_def)
  then show "a = b" using t by (intro prod_eqI) (simp_all add: word_unat_eq_iff)
qed

lemma bit_total_less: "bit_total b < 2 ^ 64"
proof -
  have "unat (fst b) < 2 ^ 32" "unat (snd b) < 2 ^ 32" by (rule less_le_trans [OF unsigned_less], simp)+
  then show ?thesis by (simp add: bit_total_def)
qed

lemma bit_total_add:
  assumes "n < 2 ^ 32"
  shows "bit_total (add_bits b (of_nat n)) = (bit_total b + 8 * n) mod 2 ^ 64"
proof -
  let ?lo = "fst b" and ?hi = "snd b"
  have u: "unat (of_nat n :: u32) = n" using assms by (simp add: unsigned_of_nat take_bit_nat_eq_self)
  define h where "h = n div 2 ^ 29"
  define r where "r = n mod 2 ^ 29"
  define a where "a = 8 * r"
  have n: "n = 2 ^ 29 * h + r" "r < 2 ^ 29" unfolding h_def r_def by (rule mult_div_mod_eq [symmetric]) simp
  then have n8: "8 * n = h * 2 ^ 32 + a" "a < 2 ^ 32" by (simp_all add: a_def)
  then have a: "8 * n mod 2 ^ 32 = a" by simp
  have sh: "unat (push_bit 3 (of_nat n :: u32)) = a"
  proof -
    have "push_bit 3 (of_nat n :: u32) = of_nat (8 * n)" by (simp add: push_bit_eq_mult)
    moreover have "unat (of_nat (8 * n) :: u32) = 8 * n mod 2 ^ 32"
      by (simp only: unsigned_of_nat take_bit_eq_mod) simp
    ultimately show ?thesis by (simp only: a)
  qed
  have dr: "unat (drop_bit 29 (of_nat n :: u32)) = h"
    using u by (simp add: drop_bit_eq_div unat_div h_def)
  let ?l = "?lo + push_bit 3 (of_nat n)"
  have L: "unat ?lo < 2 ^ 32" "a < 2 ^ 32" by (rule less_le_trans [OF unsigned_less], simp) (rule n8(2))
  have l: "unat ?l = (unat ?lo + a) mod 2 ^ 32" using sh by (simp add: unat_word_ariths)
  have carry: "?l < ?lo \<longleftrightarrow> 2 ^ 32 \<le> unat ?lo + a"
    unfolding word_less_nat_alt l using L by (simp add: mod_if) arith
  have l': "unat ?l = unat ?lo + a - (if ?l < ?lo then 2 ^ 32 else 0)"
    using l L carry by (simp add: mod_if)
  have s: "snd (add_bits b (of_nat n)) = ?hi + (if ?l < ?lo then 1 else 0) + drop_bit 29 (of_nat n)"
    by (simp add: add_bits_def Let_def)
  have "unat (snd (add_bits b (of_nat n))) = (unat ?hi + (if ?l < ?lo then 1 else 0) + h) mod 2 ^ 32"
    unfolding s using dr by (simp add: unat_word_ariths mod_simps)
  then have "bit_total (add_bits b (of_nat n)) = (unat ?hi + (if ?l < ?lo then 1 else 0) + h) mod 2 ^ 32 * 2 ^ 32 + unat ?l"
    by (simp add: bit_total_def) (simp add: add_bits_def Let_def)
  also have "\<dots> = ((unat ?hi + (if ?l < ?lo then 1 else 0) + h) * 2 ^ 32 + unat ?l) mod 2 ^ 64"
  proof -
    have "(x mod 2 ^ 32 * 2 ^ 32 + y) = (x * 2 ^ 32 + y) mod 2 ^ 64" if "y < 2 ^ 32" for x y :: nat
      using that by (simp add: mod_mult2_eq [of _ "2 ^ 32" "2 ^ 32", simplified])
    moreover have "unat ?l < 2 ^ 32" using l by simp
    ultimately show ?thesis by blast
  qed
  also have "(unat ?hi + (if ?l < ?lo then 1 else 0) + h) * 2 ^ 32 + unat ?l = bit_total b + 8 * n"
    using l' carry L n8 by (auto simp: bit_total_def algebra_simps)
  finally show ?thesis .
qed

section \<open>Updates in sequence\<close>

lemma buf_pos_total: "buf_pos ctx = bit_total (bits ctx) div 8 mod 64"
proof -
  have "drop_bit 3 (fst (bits ctx)) AND 0x3f = take_bit 6 (drop_bit 3 (fst (bits ctx)))"
    by (simp add: take_bit_eq_mask mask_eq_exp_minus_1)
  then have "buf_pos ctx = unat (fst (bits ctx)) div 8 mod 64"
    by (simp add: buf_pos_def unat_take_bit drop_bit_eq_div unat_div)
  moreover have "bit_total (bits ctx) div 8 mod 64 = unat (fst (bits ctx)) div 8 mod 64"
  proof -
    have e: "h * 2 ^ 32 + l = l + 8 * (64 * (h * 2 ^ 23))" for h l :: nat by simp
    have "(l + 8 * (64 * k)) div 8 mod 64 = l div 8 mod 64" for k l :: nat
      by (subst div_mult_self2) (simp_all only: mod_mult_self2, simp)
    then show ?thesis unfolding bit_total_def e .
  qed
  ultimately show ?thesis by simp
qed

text \<open>The state after some bytes: the digest state of absorbing them, and their number.\<close>

definition absorbed :: "byte list \<Rightarrow> md5_context \<Rightarrow> md5_context \<Rightarrow> bool" where
  "absorbed xs c0 c \<longleftrightarrow> length (inbuf c) = 64 \<and> bit_total (bits c) = 8 * length xs mod 2 ^ 64 \<and>
     fold absorb xs (buf c0, inbuf c0, 0) = (buf c, inbuf c, buf_pos c)"

lemma absorbed_pos: "absorbed xs c0 c \<Longrightarrow> buf_pos c = length xs mod 64"
proof -
  assume "absorbed xs c0 c"
  then have "bit_total (bits c) = 8 * (length xs mod 2 ^ 61)" by (simp add: absorbed_def mult_mod_right)
  then have "buf_pos c = length xs mod 2 ^ 61 mod 64" by (simp add: buf_pos_total)
  also have "(64 :: nat) dvd 2 ^ 61" by simp
  then have "length xs mod 2 ^ 61 mod 64 = length xs mod 64" by (rule mod_mod_cancel)
  finally show ?thesis .
qed

lemma absorbed_init: "length (inbuf c) = 64 \<Longrightarrow> absorbed [] (MD5Init c) (MD5Init c)"
  by (simp add: absorbed_def MD5Init_def bit_total_def buf_pos_def)

lemma absorbed_update:
  assumes "absorbed xs c0 c" "length ys < 2 ^ 32"
  shows "absorbed (xs @ ys) c0 (MD5Update c ys)"
proof -
  obtain st inb t where f: "fold absorb ys (buf c, inbuf c, buf_pos c) = (st, inb, t)" by (metis prod_cases3)
  have l: "length (inbuf c) = 64" using assms(1) by (simp add: absorbed_def)
  have u: "MD5Update c ys = c\<lparr>buf := st, inbuf := inb, bits := add_bits (bits c) (of_nat (length ys))\<rparr>"
    "t = (buf_pos c + length ys) mod 64" "length inb = 64" using update_absorb [OF l f] by simp_all
  have tb: "bit_total (bits (MD5Update c ys)) = 8 * length (xs @ ys) mod 2 ^ 64"
    using assms bit_total_add [OF assms(2), of "bits c"] u(1) by (simp add: absorbed_def mod_simps algebra_simps)
  have "fold absorb (xs @ ys) (buf c0, inbuf c0, 0) = (st, inb, t)"
    using assms(1) f by (simp add: absorbed_def)
  moreover have "buf_pos (MD5Update c ys) = t"
  proof -
    have "bit_total (bits (MD5Update c ys)) = 8 * (length (xs @ ys) mod 2 ^ 61)"
      using tb by (simp add: mult_mod_right)
    then have "buf_pos (MD5Update c ys) = length (xs @ ys) mod 2 ^ 61 mod 64" by (simp add: buf_pos_total)
    also have "\<dots> = length (xs @ ys) mod 64" by (rule mod_mod_cancel) simp
    also have "\<dots> = t" using u(2) absorbed_pos [OF assms(1)] by (simp add: mod_simps)
    finally show ?thesis .
  qed
  ultimately show ?thesis using tb u by (simp add: absorbed_def)
qed

lemma absorbed_updates:
  "absorbed xs c0 c \<Longrightarrow> \<forall>d \<in> set ds. length d < 2 ^ 32 \<Longrightarrow>
     absorbed (xs @ concat ds) c0 (fold (\<lambda>d c. MD5Update c d) ds c)"
proof (induction ds arbitrary: xs c)
  case (Cons d ds)
  then show ?case using Cons(1) [OF absorbed_update [OF Cons(2), of d]] by simp
qed simp

section \<open>Padding\<close>

definition length_bytes :: "u32 \<times> u32 \<Rightarrow> byte list" where
  "length_bytes b = word_bytes (fst b) @ word_bytes (snd b)"

lemma length_word_bytes [simp]: "length (word_bytes w) = 4"
  by (simp add: word_bytes_def)

lemma final_absorb:
  assumes l: "length (inbuf c) = 64" and t: "buf_pos c = t" "t < 64"
  shows "fst (MD5Final c) = concat (map word_bytes
     (fst (fold absorb ([0x80] @ replicate ((119 - t) mod 64) 0 @ length_bytes (bits c)) (buf c, inbuf c, t))))"
proof -
  let ?in1 = "overwrite t [0x80] (inbuf c)" and ?lb = "length_bytes (bits c)"
  have lb: "length ?lb = 8" by (simp add: length_bytes_def)
  have two: "overwrite 60 (word_bytes (snd (bits c))) (overwrite 56 (word_bytes (fst (bits c))) x) = overwrite 56 ?lb x"
    if "length x = 64" for x
    using overwrite_append [of 56 "word_bytes (fst (bits c))" x "word_bytes (snd (bits c))"] that
    by (simp add: length_bytes_def)
  show ?thesis
  proof (cases "64 - 1 - t < 8")
    case True
    let ?n = "63 - t"
    define inb where "inb = overwrite (Suc t) (replicate ?n 0) ?in1"
    define z where "z = overwrite 0 (replicate 56 0) inb"
    have inb: "inb = overwrite t ([0x80] @ replicate ?n 0) (inbuf c)" "length inb = 64"
      using overwrite_append [of t "[0x80]" "inbuf c" "replicate ?n 0"] l t(2) by (simp_all add: inb_def)
    have e: "(119 - t) mod 64 = ?n + 56" using True t(2) by simp
    have p: "[0x80] @ replicate ((119 - t) mod 64) 0 @ ?lb = ([0x80] @ replicate ?n 0) @ replicate 56 0 @ ?lb"
      by (simp only: e replicate_add append_assoc)
    have "fold absorb ([0x80] @ replicate ?n 0) (buf c, inbuf c, t) = (MD5Transform (buf c) (words_of inb), inb, 0)"
      using absorb_fill [OF l, of "[0x80] @ replicate ?n 0" t "buf c"] t(2) inb(1) by simp
    moreover have "fold absorb (replicate 56 0 @ ?lb) (st, inb, 0) =
        (MD5Transform st (words_of (overwrite 56 ?lb z)), overwrite 56 ?lb z, 0)" for st
      using absorb_fill [OF inb(2), of "replicate 56 0 @ ?lb" 0 st] overwrite_append [of 0 "replicate 56 0" inb ?lb] inb(2) lb
      by (simp add: z_def)
    ultimately have "fst (fold absorb ([0x80] @ replicate ((119 - t) mod 64) 0 @ ?lb) (buf c, inbuf c, t)) =
        MD5Transform (MD5Transform (buf c) (words_of inb)) (words_of (overwrite 56 ?lb z))"
      unfolding p by (simp only: fold_append o_apply fst_conv)
    moreover have "length z = 64" using inb(2) by (simp add: z_def)
    ultimately show ?thesis
      using True t(1) two [of z] by (simp add: MD5Final_def buf_pos_def [symmetric] inb_def [symmetric] z_def [symmetric] Let_def)
  next
    case False
    let ?n = "55 - t"
    define z where "z = overwrite (Suc t) (replicate ?n 0) ?in1"
    have z: "z = overwrite t ([0x80] @ replicate ?n 0) (inbuf c)" "length z = 64"
      using overwrite_append [of t "[0x80]" "inbuf c" "replicate ?n 0"] l t(2) False by (simp_all add: z_def)
    have e: "(119 - t) mod 64 = ?n" "64 - 1 - t - 8 = ?n" using False by (simp_all add: mod_if)
    have "overwrite t ([0x80] @ replicate ?n 0 @ ?lb) (inbuf c) = overwrite 56 ?lb z"
      using overwrite_append [of t "[0x80] @ replicate ?n 0" "inbuf c" ?lb] l z(1) False by simp
    then have "fst (fold absorb ([0x80] @ replicate ?n 0 @ ?lb) (buf c, inbuf c, t)) =
        MD5Transform (buf c) (words_of (overwrite 56 ?lb z))"
      using absorb_fill [OF l, of "[0x80] @ replicate ?n 0 @ ?lb" t "buf c"] False lb by simp
    then show ?thesis
      unfolding e(1) using False t(1) two [OF z(2)] e(2)
      by (simp add: MD5Final_def buf_pos_def [symmetric] z_def [symmetric] Let_def)
  qed
qed

section \<open>The specification's blocks\<close>

lemma md5_blocks_absorb:
  "length inb = 64 \<Longrightarrow> 64 dvd length bs \<Longrightarrow> md5_blocks bs st = fst (fold absorb bs (st, inb, 0))"
proof (induction bs st arbitrary: inb rule: md5_blocks.induct)
  case (1 bs st)
  show ?case
  proof (cases "length bs < 64")
    case True
    then have "bs = []" using 1(3) dvd_imp_le [of 64 "length bs"] by fastforce
    then show ?thesis by (simp add: md5_blocks.simps)
  next
    case False
    then have ne: "take 64 bs \<noteq> []" "length (take 64 bs) = 64" by (auto simp: min_def)
    have o: "overwrite 0 (take 64 bs) inb = take 64 bs" using 1(2) False by (simp add: overwrite_def)
    have "fold absorb (take 64 bs) (st, inb, 0) = (MD5Transform st (words_of (take 64 bs)), take 64 bs, 0)"
      using absorb_fill [OF 1(2) ne(1), of 0 st] ne(2) o by simp
    then have "fold absorb (take 64 bs @ drop 64 bs) (st, inb, 0) =
        fold absorb (drop 64 bs) (MD5Transform st (words_of (take 64 bs)), take 64 bs, 0)"
      by (simp only: fold_append o_apply)
    then have f: "fold absorb bs (st, inb, 0) = fold absorb (drop 64 bs) (md5_compress st (words_of (take 64 bs)), take 64 bs, 0)"
      by (simp add: transform_eq)
    have "64 dvd length (drop 64 bs)" using 1(3) by (simp add: dvd_diff_nat)
    then show ?thesis
      using 1(1) [OF False ne(2)] False f by (subst md5_blocks.simps) simp
  qed
qed

lemma md5_digest_updates:
  assumes "length (inbuf ctx) = 64" and "\<forall>d \<in> set ds. length d < 2 ^ 32" and "length (concat ds) < 2 ^ 61"
  shows "fst (MD5Final (fold (\<lambda>d c. MD5Update c d) ds (MD5Init ctx))) = md5_digest (concat ds)"
proof -
  let ?msg = "concat ds" and ?c = "fold (\<lambda>d c. MD5Update c d) ds (MD5Init ctx)" and ?st = "buf (MD5Init ctx)"
  have A: "absorbed ?msg (MD5Init ctx) ?c"
    using absorbed_updates [OF absorbed_init [OF assms(1)] assms(2)] by simp
  have l: "length (inbuf ?c) = 64" "bit_total (bits ?c) = 8 * length ?msg"
    "fold absorb ?msg (?st, inbuf ctx, 0) = (buf ?c, inbuf ?c, buf_pos ?c)"
    using A assms(3) by (simp_all add: absorbed_def MD5Init_def)
  have t: "buf_pos ?c = length ?msg mod 64" by (rule absorbed_pos [OF A])
  let ?n = "of_nat (8 * length ?msg) :: 64 word"
  have un: "unat ?n = 8 * length ?msg" unfolding unsigned_of_nat of_nat_id by (rule take_bit_nat_eq_self) (use assms(3) in simp)
  have "(ucast ?n, ucast (drop_bit 32 ?n)) = bits ?c"
  proof (rule bit_total_inj)
    have "unat (ucast ?n :: u32) = 8 * length ?msg mod 2 ^ 32"
      using un by (simp add: unsigned_ucast_eq take_bit_eq_mod)
    moreover have "unat (ucast (drop_bit 32 ?n) :: u32) = 8 * length ?msg div 2 ^ 32"
      using un assms(3) by (simp add: unsigned_ucast_eq take_bit_eq_mod drop_bit_eq_div unat_div)
    ultimately have "bit_total (ucast ?n, ucast (drop_bit 32 ?n)) = 8 * length ?msg div 2 ^ 32 * 2 ^ 32 + 8 * length ?msg mod 2 ^ 32"
      by (simp only: bit_total_def fst_conv snd_conv)
    then show "bit_total (ucast ?n, ucast (drop_bit 32 ?n)) = bit_total (bits ?c)" by (simp only: l(2) div_mult_mod_eq)
  qed
  then have lb: "word_bytes (ucast ?n) @ word_bytes (ucast (drop_bit 32 ?n)) = length_bytes (bits ?c)"
    by (metis fst_conv length_bytes_def snd_conv)
  let ?pad = "[0x80] @ replicate ((119 - buf_pos ?c) mod 64) 0 @ length_bytes (bits ?c)"
  have P: "md5_pad ?msg = ?msg @ ?pad" using t lb by (simp add: md5_pad_def Let_def)
  have "fold absorb (?msg @ ?pad) (?st, inbuf ctx, 0) = fold absorb ?pad (buf ?c, inbuf ?c, buf_pos ?c)"
    using l(3) by (simp only: fold_append o_apply)
  moreover have "64 dvd length (?msg @ ?pad)"
  proof -
    have "length (length_bytes (bits ?c)) = 8" by (simp add: length_bytes_def)
    moreover have "(buf_pos ?c + ((119 - buf_pos ?c) mod 64 + 9)) mod 64 = 0"
    proof -
      have "buf_pos ?c < 64" using t by simp
      then have "(119 - buf_pos ?c) mod 64 = (if buf_pos ?c \<le> 55 then 55 - buf_pos ?c else 119 - buf_pos ?c)"
        by (auto simp: mod_if)
      then show ?thesis using \<open>buf_pos ?c < 64\<close> by simp
    qed
    ultimately have "(length ?msg + length ?pad) mod 64 = 0"
      unfolding t by (simp add: mod_simps add.commute)
    then show ?thesis by (simp add: dvd_eq_mod_eq_0)
  qed
  ultimately have "md5_blocks (md5_pad ?msg) ?st = fst (fold absorb ?pad (buf ?c, inbuf ?c, buf_pos ?c))"
    unfolding P using md5_blocks_absorb [OF assms(1)] by simp
  moreover have "?st = [0x67452301, 0xefcdab89, 0x98badcfe, 0x10325476]" by (simp add: MD5Init_def)
  ultimately show ?thesis
    unfolding md5_digest_def using final_absorb [OF l(1) refl] t by simp
qed

text \<open>Claim C19. Hashing a message in any number of pieces gives the digest that RFC 1321 specifies
  for the whole message: its padding, its table of constants and its round functions.\<close>

theorem md5_streaming:
  assumes "length (inbuf ctx) = 64" and "\<forall>d \<in> set ds. length d < 2 ^ 32" and "length (concat ds) < 2 ^ 61"
  shows "fst (MD5Final (fold (\<lambda>d c. MD5Update c d) ds (MD5Init ctx))) = md5_digest (concat ds)"
  by (intro md5_digest_updates assms)

definition fx_ctx :: md5_context where
  "fx_ctx = \<lparr>buf = [], bits = (0, 0), inbuf = replicate 64 0\<rparr>"

theorem md5_streaming_witness:
  "fst (MD5Final (fold (\<lambda>d c. MD5Update c d) [[97], [], [98, 99]] (MD5Init fx_ctx))) = md5_digest [97, 98, 99]"
  using md5_streaming [of fx_ctx "[[97], [], [98, 99]]"] by (simp add: fx_ctx_def)

section \<open>The program\<close>

text \<open>The pieces of one pass, in order, are the whole array.\<close>

definition pass_pieces :: "byte list \<Rightarrow> byte list list" where
  "pass_pieces data = map (\<lambda>k. take (min 4096 (length data - k * 4096)) (drop (k * 4096) data))
     [0..<(length data + 4095) div 4096]"

lemma one_pass_fold: "one_pass data ctx = fold (\<lambda>d c. MD5Update c d) (pass_pieces data) ctx"
  by (simp add: one_pass_def pass_pieces_def fold_map comp_def)

lemma concat_pieces: "concat (map (\<lambda>k. take n (drop (k * n) xs)) [0..<m]) = take (m * n) xs"
proof (induction m)
  case (Suc m)
  have "take (m * n + n) xs = take (m * n) xs @ take n (drop (m * n) xs)" by (rule take_add)
  then show ?case using Suc by (simp add: add.commute)
qed simp

lemma concat_pass_pieces: "concat (pass_pieces data) = data"
proof -
  let ?m = "(length data + 4095) div 4096"
  have "take (min 4096 (length data - k * 4096)) (drop (k * 4096) data) = take 4096 (drop (k * 4096) data)" for k
    by (simp add: min_def)
  then have "concat (pass_pieces data) = take (?m * 4096) data"
    using concat_pieces [of 4096 data ?m] by (simp add: pass_pieces_def)
  moreover have "length data \<le> ?m * 4096"
    using dividend_less_div_times [of 4096 "length data + 4095"] by linarith
  ultimately show ?thesis by simp
qed

lemma pass_pieces_short: "d \<in> set (pass_pieces data) \<Longrightarrow> length d < 2 ^ 32"
  by (auto simp: pass_pieces_def min_def)

lemma passes_fold:
  "(one_pass data ^^ n) ctx = fold (\<lambda>d c. MD5Update c d) (concat (replicate n (pass_pieces data))) ctx"
proof (induction n arbitrary: ctx)
  case (Suc n)
  then show ?case by (simp only: funpow_Suc_right o_apply one_pass_fold) simp
qed simp

lemma concat_concat_replicate: "concat (concat (replicate n xss)) = concat (replicate n (concat xss))"
  by (induction n) simp_all

lemma length_concat_replicate: "length (concat (replicate n xs)) = n * length xs"
  by (induction n) simp_all

text \<open>The hash program prints the digest that RFC 1321 specifies for its input: a hundred
  copies of its 15 megabyte array, fed in pieces of 4096 bytes.\<close>

lemma md5_main_digest:
  assumes "length (inbuf ctx) = 64"
  shows "snd (md5_main ctx) = md5_digest (concat (replicate 100 md5_data))"
proof -
  let ?ds = "concat (replicate 100 (pass_pieces md5_data))"
  have c: "concat ?ds = concat (replicate 100 md5_data)"
    by (simp only: concat_concat_replicate concat_pass_pieces)
  have "length (concat ?ds) = 100 * SIZE"
    unfolding c length_concat_replicate by (simp add: md5_data_def)
  then have "length (concat ?ds) < 2 ^ 61" by (simp add: SIZE_def)
  moreover have "\<forall>d \<in> set ?ds. length d < 2 ^ 32" using pass_pieces_short by simp
  ultimately show ?thesis
    unfolding md5_main_def Let_def snd_conv passes_fold c [symmetric]
    by (intro md5_digest_updates assms)
qed

end
