(* ===== verification/SFI_Factor.thy ===== *)
theory SFI_Factor
  imports SFI_Prelude
begin

text \<open>
  The factoring program (\<^verbatim>\<open>src/factor-mod.c\<close>): trial division by the primes up to 11 and then by
  the numbers of a wheel that skips their multiples, on 64-bit numbers. The result is the ascending
  list of the prime factors.
\<close>

section \<open>The program\<close>

definition wheel_tab :: "nat list" where
  "wheel_tab =
    [1, 2, 2, 4, 2, 4, 2, 4, 6, 2, 6, 4, 2, 4, 6, 6, 2, 6, 4, 2, 6, 4, 6, 8, 4, 2, 4, 2, 4, 14, 4,
     6, 2, 10, 2, 6, 6, 4, 2, 4, 6, 2, 10, 2, 4, 2, 12, 10, 2, 4, 2, 4, 6, 2, 6, 4, 6, 6, 6, 2, 6,
     4, 2, 6, 4, 6, 8, 4, 2, 4, 6, 8, 6, 10, 2, 4, 6, 2, 6, 6, 4, 2, 4, 6, 2, 6, 4, 2, 6, 10, 2, 10,
     2, 4, 2, 4, 6, 8, 4, 2, 4, 12, 2, 6, 4, 2, 6, 4, 6, 12, 2, 4, 2, 4, 8, 6, 4, 6, 2, 4, 6, 2, 6,
     10, 2, 4, 6, 2, 6, 4, 2, 4, 2, 10, 2, 10, 2, 4, 6, 6, 2, 6, 6, 4, 6, 6, 2, 6, 4, 2, 6, 4, 6, 8,
     4, 2, 6, 4, 8, 6, 4, 6, 2, 4, 6, 8, 6, 4, 2, 10, 2, 6, 4, 2, 4, 2, 10, 2, 10, 2, 4, 2, 4, 8, 6,
     4, 2, 4, 6, 6, 2, 6, 4, 8, 4, 6, 8, 4, 2, 4, 2, 4, 8, 6, 4, 6, 6, 6, 2, 6, 6, 4, 2, 4, 6, 2, 6,
     4, 2, 4, 2, 10, 2, 10, 2, 6, 4, 6, 2, 6, 4, 2, 4, 6, 6, 8, 4, 2, 6, 10, 8, 4, 2, 4, 2, 4, 8,
     10, 6, 2, 4, 8, 6, 6, 4, 2, 4, 6, 2, 6, 4, 6, 2, 10, 2, 10, 2, 4, 2, 4, 6, 2, 6, 4, 2, 4, 6, 6,
     2, 6, 6, 6, 4, 6, 8, 4, 2, 4, 2, 4, 8, 6, 4, 8, 4, 6, 2, 6, 6, 4, 2, 4, 6, 8, 4, 2, 4, 2, 10,
     2, 10, 2, 4, 2, 4, 6, 2, 10, 2, 4, 6, 8, 6, 4, 2, 6, 4, 6, 8, 4, 6, 2, 4, 8, 6, 4, 6, 2, 4, 6,
     2, 6, 6, 4, 6, 6, 2, 6, 6, 4, 2, 10, 2, 10, 2, 4, 2, 4, 6, 2, 6, 4, 2, 10, 6, 2, 6, 4, 2, 6, 4,
     6, 8, 4, 2, 4, 2, 12, 6, 4, 6, 2, 4, 6, 2, 12, 4, 2, 4, 8, 6, 4, 2, 4, 2, 10, 2, 10, 6, 2, 4,
     6, 2, 6, 4, 2, 4, 6, 6, 2, 6, 4, 2, 10, 6, 8, 6, 4, 2, 4, 8, 6, 4, 6, 2, 4, 6, 2, 6, 6, 6, 4,
     6, 2, 6, 4, 2, 4, 2, 10, 12, 2, 4, 2, 10, 2, 6, 4, 2, 4, 6, 6, 2, 10, 2, 6, 4, 14, 4, 2, 4, 2,
     4, 8, 6, 4, 6, 2, 4, 6, 2, 6, 6, 4, 2, 4, 6, 2, 6, 4, 2, 4, 12, 2, 12]"

definition WHEEL_SIZE :: nat where "WHEEL_SIZE = 5"

text \<open>\<^verbatim>\<open>MAX_N_FACTORS\<close>: the space the caller gives for the factors\<close>

definition MAX_N_FACTORS :: nat where "MAX_N_FACTORS = 128"

text \<open>\<^verbatim>\<open>while (n == q * d) { factors[n_factors++] = d; n = q; q = n / d; }\<close>\<close>

partial_function (option) divide_out :: "u64 \<Rightarrow> u64 \<Rightarrow> u64 \<Rightarrow> u64 list \<Rightarrow> (u64 \<times> u64 \<times> u64 list) option" where
  "divide_out d n q fs = (if n = q * d then divide_out d q (q div d) (fs @ [d]) else Some (n, q, fs))"

definition next_spoke :: "nat \<Rightarrow> nat" where
  "next_spoke w = (if w + 1 = length wheel_tab then WHEEL_SIZE else w + 1)"

partial_function (option) factor_loop :: "u64 \<Rightarrow> u64 \<Rightarrow> nat \<Rightarrow> u64 list \<Rightarrow> (u64 \<times> u64 list) option" where
  "factor_loop n d w fs =
     (case divide_out d n (n div d) fs of
        None \<Rightarrow> None
      | Some (n, q, fs) \<Rightarrow>
          let d = d + of_nat (wheel_tab ! w); w = next_spoke w
          in if d \<le> q then factor_loop n d w fs else Some (n, fs))"

definition factor :: "u64 \<Rightarrow> u64 list option" where
  "factor n0 =
     (if n0 < 1 then Some []
      else case factor_loop n0 2 0 [] of
             None \<Rightarrow> None
           | Some (n, fs) \<Rightarrow> Some (if n \<noteq> 1 \<or> n0 = 1 then fs @ [n] else fs))"

text \<open>The number and its factors are printed; \<^verbatim>\<open>atoll\<close> is the host's.\<close>

definition print_factors :: "(string \<Rightarrow> u64) \<Rightarrow> string \<Rightarrow> (u64 \<times> u64 list) option" where
  "print_factors atoll s = (case factor (atoll s) of None \<Rightarrow> None | Some fs \<Rightarrow> Some (atoll s, fs))"

section \<open>The wheel\<close>

text \<open>From a residue on, every step skips only multiples of 2, 3, 5, 7 and 11, and the last one
  comes back to the start.\<close>

definition small_multiple :: "nat \<Rightarrow> bool" where
  "small_multiple k \<longleftrightarrow> list_ex (\<lambda>p. k mod p = 0) [2, 3, 5, 7, 11]"

text \<open>The check runs on integers, where the evaluation is fast.\<close>

definition skips :: "int \<Rightarrow> bool" where
  "skips k \<longleftrightarrow> list_ex (\<lambda>p. k mod p = 0) [2, 3, 5, 7, 11]"

lemma int_mod_iff: "int k mod int p = int c \<longleftrightarrow> k mod p = c"
  by (simp flip: zmod_int)

lemma skips_iff: "skips (int k) = small_multiple k"
  using int_mod_iff [of k 2 0] int_mod_iff [of k 3 0] int_mod_iff [of k 5 0] int_mod_iff [of k 7 0] int_mod_iff [of k 11 0]
  by (simp add: skips_def small_multiple_def)

fun wheel_ok :: "int \<Rightarrow> int list \<Rightarrow> bool" where
  "wheel_ok r [] \<longleftrightarrow> r mod 2310 = 13"
| "wheel_ok r (w # ws) \<longleftrightarrow> 0 < w \<and> w \<le> 14 \<and> list_all (\<lambda>k. skips (r + k)) [1..w - 1] \<and> wheel_ok (r + w) ws"

lemma wheel_tab_ok: "wheel_ok 13 (map int (drop 5 wheel_tab))"
  by code_simp

lemma wheel_lead_in: "take 5 wheel_tab = [1, 2, 2, 4, 2]" "length wheel_tab = 485"
  by (simp_all add: wheel_tab_def)

lemma wheel_ok_nth:
  "wheel_ok (int r) (map int ws) \<Longrightarrow> i < length ws \<Longrightarrow> 0 < ws ! i \<and> ws ! i \<le> 14 \<and>
     (\<forall>k. 0 < k \<and> k < ws ! i \<longrightarrow> small_multiple (r + sum_list (take i ws) + k))"
proof (induction ws arbitrary: r i)
  case (Cons w ws)
  have w: "0 < w" "w \<le> 14" "wheel_ok (int (r + w)) (map int ws)"
    "\<And>k. k \<in> {1..int w - 1} \<Longrightarrow> skips (int r + k)"
    using Cons(2) by (simp_all add: list_all_iff)
  show ?case
  proof (cases i)
    case 0
    have "small_multiple (r + k)" if "0 < k" "k < w" for k
      using w(4) [of "int k"] that skips_iff [of "r + k"] by simp
    then show ?thesis using 0 w(1,2) by simp
  next
    case (Suc j)
    then show ?thesis using Cons(1) [OF w(3), of j] Cons(3) by (simp add: add.assoc)
  qed
qed simp

lemma wheel_ok_end: "wheel_ok (int r) (map int ws) \<Longrightarrow> (r + sum_list ws) mod 2310 = 13"
proof (induction ws arbitrary: r)
  case Nil
  then show ?case using int_mod_iff [of r 2310 13] by simp
next
  case (Cons w ws)
  then show ?case using Cons(1) [of "r + w"] by (simp add: add.assoc)
qed

lemma small_multiple_cong: "a mod 2310 = b mod 2310 \<Longrightarrow> small_multiple a = small_multiple b"
proof -
  assume e: "a mod 2310 = b mod 2310"
  have "a mod p = b mod p" if "p dvd 2310" for p
    using e mod_mod_cancel [OF that, of a] mod_mod_cancel [OF that, of b] by simp
  then have "a mod p = b mod p" if "p \<in> set [2, 3, 5, 7, 11]" for p using that by auto
  then show ?thesis by (simp add: small_multiple_def)
qed

text \<open>\<^verbatim>\<open>w\<close> points at the step that leaves the divisor \<^verbatim>\<open>d\<close>.\<close>

definition wheel_at :: "nat \<Rightarrow> nat \<Rightarrow> bool" where
  "wheel_at w d \<longleftrightarrow> w < 485 \<and>
     (if w < 5 then d = [2, 3, 5, 7, 11] ! w
      else 13 \<le> d \<and> d mod 2310 = (13 + sum_list (take (w - 5) (drop 5 wheel_tab))) mod 2310)"

text \<open>What the step skips has a divisor among the small primes that were tried.\<close>

definition tried :: "nat \<Rightarrow> nat \<Rightarrow> bool" where
  "tried d m \<longleftrightarrow> (\<exists>p \<in> set [2, 3, 5, 7, 11]. p \<le> d \<and> p dvd m)"

lemma tried_iff: "tried d m \<longleftrightarrow> list_ex (\<lambda>p. p \<le> d \<and> m mod p = 0) [2, 3, 5, 7, 11]"
  by (simp add: tried_def dvd_eq_mod_eq_0)

lemma lead_in_step:
  assumes "wheel_at w d" "w < 5"
  shows "wheel_at (next_spoke w) (d + wheel_tab ! w)" "0 < wheel_tab ! w" "wheel_tab ! w \<le> 14"
    "0 < k \<Longrightarrow> k < wheel_tab ! w \<Longrightarrow> tried d (d + k)"
proof -
  have d: "d = [2, 3, 5, 7, 11] ! w" using assms by (simp add: wheel_at_def)
  have t: "wheel_tab ! w = [1, 2, 2, 4, 2] ! w"
    using nth_take [OF assms(2), of wheel_tab] by (simp add: wheel_lead_in)
  have w: "w = 0 \<or> w = 1 \<or> w = 2 \<or> w = 3 \<or> w = 4" using assms(2) by linarith
  then show "wheel_at (next_spoke w) (d + wheel_tab ! w)" "0 < wheel_tab ! w" "wheel_tab ! w \<le> 14"
    unfolding d t by (elim disjE; simp add: wheel_at_def next_spoke_def wheel_lead_in)+
  show "tried d (d + k)" if "0 < k" "k < wheel_tab ! w"
  proof -
    have "wheel_tab ! w \<le> 4" using w unfolding t by (elim disjE) simp_all
    then have "k = 1 \<or> k = 2 \<or> k = 3" using that by linarith
    then show ?thesis using that w unfolding d t tried_iff by (elim disjE) simp_all
  qed
qed

lemma spoke_step:
  assumes "wheel_at w d" "\<not> w < 5"
  shows "wheel_at (next_spoke w) (d + wheel_tab ! w)" "0 < wheel_tab ! w" "wheel_tab ! w \<le> 14"
    "0 < k \<Longrightarrow> k < wheel_tab ! w \<Longrightarrow> tried d (d + k)"
proof -
  define ws where "ws = drop 5 wheel_tab"
  let ?i = "w - 5" and ?r = "13 + sum_list (take (w - 5) ws)"
  have i: "?i < length ws" "ws ! ?i = wheel_tab ! w" "length ws = 480"
    using assms by (simp_all add: ws_def wheel_at_def wheel_lead_in) linarith?
  have d: "13 \<le> d" "d mod 2310 = ?r mod 2310" using assms by (simp_all add: wheel_at_def ws_def)
  have ok: "wheel_ok (int 13) (map int ws)" using wheel_tab_ok by (simp add: ws_def)
  note nth = wheel_ok_nth [OF ok i(1)]
  show "0 < wheel_tab ! w" "wheel_tab ! w \<le> 14" using nth i(2) by simp_all
  show "tried d (d + k)" if "0 < k" "k < wheel_tab ! w"
  proof -
    have "small_multiple (?r + k)" using nth i(2) that by simp
    moreover have "(d + k) mod 2310 = (?r + k) mod 2310" by (rule mod_add_cong [OF d(2) refl])
    ultimately have "small_multiple (d + k)" using small_multiple_cong by blast
    then show ?thesis using d(1) unfolding small_multiple_def tried_iff by auto
  qed
  have s: "sum_list (take (Suc ?i) ws) = sum_list (take ?i ws) + ws ! ?i"
    using i(1) by (simp add: take_Suc_conv_app_nth)
  have m: "(d + wheel_tab ! w) mod 2310 = (13 + sum_list (take (Suc ?i) ws)) mod 2310"
    using mod_add_cong [OF d(2) refl, of "wheel_tab ! w"] by (simp only: s i(2) add.assoc)
  show "wheel_at (next_spoke w) (d + wheel_tab ! w)"
  proof (cases "w = 484")
    case True
    then have "take (Suc ?i) ws = ws" using i(3) by simp
    then have "(d + wheel_tab ! w) mod 2310 = 13" using m wheel_ok_end [OF ok] by simp
    then show ?thesis using True d(1) by (simp add: wheel_at_def next_spoke_def wheel_lead_in WHEEL_SIZE_def)
  next
    case False
    then have "next_spoke w = w + 1" "w + 1 < 485" "w + 1 - 5 = Suc ?i"
      using assms by (auto simp: next_spoke_def wheel_lead_in wheel_at_def)
    then show ?thesis using d(1) m assms(2) by (simp add: wheel_at_def ws_def)
  qed
qed

text \<open>No number between 1 and \<^verbatim>\<open>d\<close> divides \<^verbatim>\<open>n\<close>.\<close>

definition no_small :: "nat \<Rightarrow> nat \<Rightarrow> bool" where
  "no_small n d \<longleftrightarrow> (\<forall>m. 1 < m \<and> m < d \<longrightarrow> \<not> m dvd n)"

lemma wheel_step:
  assumes "wheel_at w d"
  shows "wheel_at (next_spoke w) (d + wheel_tab ! w)" "0 < wheel_tab ! w" "wheel_tab ! w \<le> 14"
    "0 < k \<Longrightarrow> k < wheel_tab ! w \<Longrightarrow> tried d (d + k)"
  using lead_in_step [OF assms] spoke_step [OF assms] by (cases "w < 5"; simp)+

lemma no_small_step:
  assumes "wheel_at w d" "no_small n d" "\<not> d dvd n"
  shows "no_small n (d + wheel_tab ! w)"
  unfolding no_small_def
proof (intro allI impI)
  fix m assume m: "1 < m \<and> m < d + wheel_tab ! w"
  have small: "\<not> p dvd n" if "1 < p" "p \<le> d" for p
    using assms(2,3) that unfolding no_small_def by (cases "p = d") auto
  show "\<not> m dvd n"
  proof (cases "m \<le> d")
    case False
    then have e: "d + (m - d) = m" by simp
    have "tried d (d + (m - d))" by (rule wheel_step(4) [OF assms(1)]) (use False m in linarith)+
    then obtain p where "p \<in> set [2, 3, 5, 7, 11]" "p \<le> d" "p dvd m" unfolding e tried_def by blast
    then show ?thesis using small [of p] dvd_trans by auto
  qed (use small m in simp)
qed

section \<open>Primes\<close>

definition is_prime :: "nat \<Rightarrow> bool" where
  "is_prime p \<longleftrightarrow> 1 < p \<and> (\<forall>m. m dvd p \<longrightarrow> m = 1 \<or> m = p)"

lemma least_divisor_prime:
  assumes "no_small n d" "d dvd n" "1 < d"
  shows "is_prime d"
  unfolding is_prime_def
proof (intro conjI allI impI)
  fix m assume m: "m dvd d"
  then have "m \<noteq> 0" using assms(3) by (cases "m = 0") simp_all
  moreover have "m \<le> d" using m assms(3) by (simp add: dvd_imp_le)
  moreover have "m dvd n" using m assms(2) by (rule dvd_trans)
  ultimately show "m = 1 \<or> m = d" using assms(1) unfolding no_small_def by (metis le_neq_implies_less less_one linorder_neqE_nat)
qed (rule assms(3))

lemma no_small_prime:
  assumes "no_small n d" "1 < n" "n < d * d"
  shows "is_prime n"
  unfolding is_prime_def
proof (intro conjI allI impI)
  fix m assume "m dvd n"
  then obtain k where k: "n = m * k" by (auto elim: dvdE)
  show "m = 1 \<or> m = n"
  proof (rule ccontr)
    assume "\<not> (m = 1 \<or> m = n)"
    then have "1 < m" "1 < k" using k assms(2) by (metis less_one linorder_neqE_nat mult.right_neutral mult_0_right mult_0 not_less0)+
    then have "d \<le> m" "d \<le> k" using assms(1) k unfolding no_small_def by (metis dvd_triv_left dvd_triv_right not_le)+
    then show False using k assms(3) mult_le_mono [of d m d k] by simp
  qed
qed (rule assms(2))

section \<open>The loops\<close>

lemma divides_test:
  assumes "0 < unat d"
  shows "n = n div d * d \<longleftrightarrow> unat d dvd unat (n :: u64)"
proof -
  have "unat n div unat d * unat d \<le> unat n" by (rule div_times_less_eq_dividend)
  then have "unat n div unat d * unat d < 2 ^ LENGTH(64)" using unsigned_less [of n] by (rule le_less_trans)
  then have "unat (n div d * d) = unat n div unat d * unat d"
    using unat_mult_lem [of "n div d" d] by (simp only: unat_div)
  then show ?thesis by (metis dvd_div_mult_self dvd_triv_right word_unat_eq_iff)
qed

lemma divide_out_spec:
  "1 < unat d \<Longrightarrow> 0 < unat n \<Longrightarrow>
     \<exists>n' k. divide_out d n (n div d) fs = Some (n', n' div d, fs @ replicate k d) \<and>
            unat n = unat n' * unat d ^ k \<and> \<not> unat d dvd unat n' \<and> 0 < unat n'"
proof (induction "unat n" arbitrary: n fs rule: less_induct)
  case less
  show ?case
  proof (cases "n = n div d * d")
    case True
    let ?q = "n div d"
    have u: "unat ?q = unat n div unat d" by (rule unat_div)
    have "unat d dvd unat n" using True divides_test [of d n] less(2) by simp
    then have n: "unat n = unat ?q * unat d" unfolding u by simp
    then have q: "0 < unat ?q" using less(3) by (cases "unat ?q") auto
    then have "unat ?q < unat n" using n less(2) by simp
    from less(1) [OF this less(2) q, of "fs @ [d]"] obtain n' k where
      "divide_out d ?q (?q div d) (fs @ [d]) = Some (n', n' div d, (fs @ [d]) @ replicate k d)"
      "unat ?q = unat n' * unat d ^ k" "\<not> unat d dvd unat n'" "0 < unat n'" by blast
    then show ?thesis using True n
      by (intro exI [of _ n'] exI [of _ "Suc k"]) (subst divide_out.simps, simp)
  next
    case False
    then have "\<not> unat d dvd unat n" using divides_test [of d n] less(2) by simp
    then show ?thesis using False less(3)
      by (intro exI [of _ n] exI [of _ 0]) (subst divide_out.simps, simp)
  qed
qed

definition factors_below :: "u64 list \<Rightarrow> nat \<Rightarrow> bool" where
  "factors_below fs d \<longleftrightarrow> sorted (map unat fs) \<and> (\<forall>f \<in> set fs. is_prime (unat f) \<and> unat f < d)"

text \<open>Dividing by \<^verbatim>\<open>d\<close> and going to the next spoke keeps what is known.\<close>

lemma spoke:
  assumes w: "wheel_at w (unat d)" and s: "no_small (unat n) (unat d)" and d: "1 < unat d" "unat d < 2 ^ 63"
    and n: "unat n = unat n' * unat d ^ k" "\<not> unat d dvd unat n'" and fs: "factors_below fs (unat d)"
  defines "d' \<equiv> d + of_nat (wheel_tab ! w)"
  shows "unat d' = unat d + wheel_tab ! w" "unat d < unat d'" "wheel_at (next_spoke w) (unat d')"
    "no_small (unat n') (unat d')" "factors_below (fs @ replicate k d) (unat d')"
proof -
  have t: "0 < wheel_tab ! w" "wheel_tab ! w \<le> 14" using wheel_step [OF w] by simp_all
  have "unat (of_nat (wheel_tab ! w) :: u64) = wheel_tab ! w"
    unfolding unsigned_of_nat of_nat_id by (rule take_bit_nat_eq_self) (rule le_less_trans [OF t(2)], simp)
  then show d': "unat d' = unat d + wheel_tab ! w"
    using d(2) t(2) by (simp add: d'_def unat_word_ariths)
  then show lt: "unat d < unat d'" using t(1) by simp
  show "wheel_at (next_spoke w) (unat d')" using wheel_step(1) [OF w] d' by simp
  have "no_small (unat n') (unat d)" using s unfolding no_small_def n(1) by (metis dvd_mult2)
  from no_small_step [OF w this n(2)] show "no_small (unat n') (unat d')" unfolding d' .
  have "is_prime (unat d)" if "k \<noteq> 0"
    using least_divisor_prime [OF s _ d(1)] that n(1) by (cases k) simp_all
  then show "factors_below (fs @ replicate k d) (unat d')"
    using fs lt unfolding factors_below_def by (auto simp: sorted_append less_imp_le)
qed

definition split_off :: "u64 \<Rightarrow> u64 list \<Rightarrow> u64 \<Rightarrow> u64 list \<Rightarrow> bool" where
  "split_off n fs n' fs' \<longleftrightarrow> unat n = prod_list (map unat fs') * unat n' \<and>
     (unat n' = 1 \<or> is_prime (unat n')) \<and> (\<exists>d. factors_below (fs @ fs') d \<and> (unat n' \<noteq> 1 \<longrightarrow> d \<le> unat n'))"

lemma prod_list_replicate_nat: "prod_list (map unat (replicate k d)) = unat d ^ k"
  by (induction k) simp_all

lemma factor_loop_spec:
  "wheel_at w (unat d) \<Longrightarrow> no_small (unat n) (unat d) \<Longrightarrow> 0 < unat n \<Longrightarrow> 1 < unat d \<Longrightarrow> unat d < 2 ^ 63 \<Longrightarrow>
     factors_below fs (unat d) \<Longrightarrow>
     \<exists>n' fs'. factor_loop n d w fs = Some (n', fs @ fs') \<and> split_off n fs n' fs'"
proof (induction "unat n - unat d" arbitrary: n d w fs rule: less_induct)
  case less
  obtain n' k where D: "divide_out d n (n div d) fs = Some (n', n' div d, fs @ replicate k d)"
    "unat n = unat n' * unat d ^ k" "\<not> unat d dvd unat n'" "0 < unat n'"
    using divide_out_spec [OF less(5) less(4)] by blast
  let ?d = "d + of_nat (wheel_tab ! w)" and ?w = "next_spoke w" and ?fs = "fs @ replicate k d"
  note S = spoke [OF less(2,3,5,6) D(2,3) less(7)]
  have q: "unat (n' div d) = unat n' div unat d" by (rule unat_div)
  show ?case
  proof (cases "?d \<le> n' div d")
    case True
    then have le: "unat ?d \<le> unat n' div unat d" unfolding word_le_nat_alt q .
    have "unat n' div unat d \<le> unat n' div 2" using less(5) by (intro div_le_mono2) simp_all
    moreover have "unat n' < 2 ^ 64" by (rule less_le_trans [OF unsigned_less]) simp
    ultimately have "unat ?d < 2 ^ 63" "unat ?d \<le> unat n'" using le by simp_all
    moreover have "unat n' \<le> unat n" using D(2,4) less(5) by simp
    moreover have "unat n' - unat ?d < unat n - unat d"
      using S(2) \<open>unat ?d \<le> unat n'\<close> \<open>unat n' \<le> unat n\<close> by linarith
    moreover have "1 < unat ?d" using S(2) less(5) by linarith
    ultimately obtain n'' fs' where R: "factor_loop n' ?d ?w ?fs = Some (n'', ?fs @ fs')" "split_off n' ?fs n'' fs'"
      using less(1) [OF _ S(3,4) D(4) _ _ S(5)] by blast
    have "split_off n fs n'' (replicate k d @ fs')"
      using R(2) D(2) unfolding split_off_def by (simp add: prod_list_replicate_nat ac_simps)
    then show ?thesis using True D(1) R(1)
      by (intro exI [of _ n''] exI [of _ "replicate k d @ fs'"]) (subst factor_loop.simps, simp)
  next
    case False
    have big: "unat ?d \<le> unat n'" if "unat n' \<noteq> 1"
    proof (rule ccontr)
      assume "\<not> unat ?d \<le> unat n'"
      then have "1 < unat n'" "unat n' < unat ?d" using that D(4) by linarith+
      then have "\<not> unat n' dvd unat n'" using S(4) unfolding no_small_def by blast
      then show False by simp
    qed
    have "unat n' div unat d < unat ?d" using False unfolding word_le_nat_alt q by (simp only: not_le)
    then have "unat n' < unat ?d * unat d" using div_less_iff_less_mult [of "unat d"] less_trans [OF zero_less_one less(5)] by blast
    then have "unat n' < unat ?d * unat ?d" by (rule less_le_trans) (rule mult_le_mono2 [OF less_imp_le [OF S(2)]])
    then have "unat n' = 1 \<or> is_prime (unat n')" using no_small_prime [OF S(4)] D(4) by linarith
    then have "split_off n fs n' (replicate k d)"
      using D(2) S(5) big unfolding split_off_def by (auto simp: prod_list_replicate_nat)
    then show ?thesis using False D(1)
      by (intro exI [of _ n'] exI [of _ "replicate k d"]) (subst factor_loop.simps, simp)
  qed
qed

section \<open>The result\<close>

lemma prime_factors_length: "\<forall>f \<in> set fs. is_prime (unat f) \<Longrightarrow> 2 ^ length fs \<le> prod_list (map unat fs)"
proof (induction fs)
  case (Cons f fs)
  then have "2 \<le> unat f" "2 ^ length fs \<le> prod_list (map unat fs)" by (simp_all add: is_prime_def)
  then show ?case using mult_le_mono [of 2 "unat f" "2 ^ length fs"] by simp
qed simp

text \<open>Claim C20. On every number the factoring loop ends; for a number above 1 the result is the
  ascending list of its prime factors, at most 63 of them, so that the caller's 128 entries are enough;
  1 is reported as its own factor, and 0 has none.\<close>

theorem factor_correct:
  "case factor n of
     None \<Rightarrow> False
   | Some fs \<Rightarrow>
       (if unat n = 0 then fs = [] else if unat n = 1 then fs = [1]
        else prod_list (map unat fs) = unat n \<and> sorted (map unat fs) \<and> list_all (\<lambda>f. is_prime (unat f)) fs) \<and>
       length fs < 64 \<and> length fs < MAX_N_FACTORS"
proof -
  consider "n = 0" | "0 < unat n" by (metis gr0I unat_eq_zero)
  then show ?thesis
  proof cases
    case 1
    then show ?thesis by (simp add: factor_def MAX_N_FACTORS_def)
  next
    case 2
    have "wheel_at 0 2" "factors_below [] 2" by (simp_all add: wheel_at_def factors_below_def)
    moreover have "no_small (unat n) 2" unfolding no_small_def by linarith
    ultimately obtain n' fs' where R: "factor_loop n 2 0 [] = Some (n', fs')" "split_off n [] n' fs'"
      using factor_loop_spec [of 0 2 n "[]"] 2 by auto
    let ?fs = "if n' \<noteq> 1 \<or> n = 1 then fs' @ [n'] else fs'"
    have F: "factor n = Some ?fs"
      using 2 R(1) by (simp add: factor_def word_less_nat_alt)
    obtain d where d: "factors_below fs' d" "unat n' \<noteq> 1 \<longrightarrow> d \<le> unat n'" "unat n = prod_list (map unat fs') * unat n'"
      "unat n' = 1 \<or> is_prime (unat n')" using R(2) by (auto simp: split_off_def)
    have one: "unat x = 1 \<longleftrightarrow> x = 1" for x :: u64 by (simp add: word_unat_eq_iff)
    show ?thesis
    proof (cases "unat n = 1")
      case True
      then have "prod_list (map unat fs') = 1" "unat n' = 1" using d(3) by simp_all
      moreover have "2 ^ length fs' \<le> prod_list (map unat fs')"
        using prime_factors_length [of fs'] d(1) by (auto simp: factors_below_def)
      ultimately have "(2 :: nat) ^ length fs' \<le> 2 ^ 0" "n' = 1" by (simp_all only: one power_0)
      then have "fs' = []" using power_le_imp_le_exp [of "2 :: nat" "length fs'" 0] by simp
      then show ?thesis using \<open>n' = 1\<close> F True one [of n] by (simp add: MAX_N_FACTORS_def)
    next
      case False
      then have n1: "n \<noteq> 1" by auto
      have P: "prod_list (map unat ?fs) = unat n" "sorted (map unat ?fs)" "list_all (\<lambda>f. is_prime (unat f)) ?fs"
        using d n1 one [of n'] by (auto simp: factors_below_def sorted_append list_all_iff intro: less_imp_le less_le_trans)
      have "2 ^ length ?fs \<le> unat n"
        using prime_factors_length [of ?fs] P(1,3) by (simp only: list_all_iff)
      then have "2 ^ length ?fs < (2 ^ 64 :: nat)" by (rule le_less_trans) (rule less_le_trans [OF unsigned_less], simp)
      then have "length ?fs < 64" by (rule power_less_imp_less_exp [rotated]) simp
      then show ?thesis using F P False 2 by (simp add: MAX_N_FACTORS_def)
    qed
  qed
qed

end
