(* ===== verification/SFI_Interp.thy ===== *)
theory SFI_Interp
  imports SFI_Prelude
begin

text \<open>
  The two toy interpreters (\<^verbatim>\<open>src/interp-fp-mod.c\<close>, \<^verbatim>\<open>src/interp-switch-mod.c\<close>, and both in
  \<^verbatim>\<open>src/op_mockup-mod.c\<close>): the same loop \<^verbatim>\<open>do var--; while (var)\<close> once as linked operations
  called through function pointers, once as an array of instructions run by a switch. Integers
  live in a store of 32-bit words; a pointer to an operation is its index in \<^verbatim>\<open>all_ops\<close>.
  A run may go on forever (\<open>None\<close>) or leave its array (\<open>Some None\<close>).
\<close>

type_synonym store = "addr \<Rightarrow> u32"

section \<open>Linked operations\<close>

datatype pp = pp_null | pp_decr | pp_check | pp_get | pp_set

datatype op_type = OP_NULL | OP_DECR | OP_CHECK | OP_GET | OP_SET

record OP =
  op_next :: "nat option"
  op_ppaddr :: "pp option"
  op_type :: op_type
  op_val :: addr

text \<open>The globals: what \<^verbatim>\<open>stack_pointer\<close> and \<^verbatim>\<open>var\<close> point to, and the integers.\<close>

record vm =
  stack_pointer :: addr
  var :: addr
  ints :: store

definition get_top :: "vm \<Rightarrow> u32" where "get_top s = ints s (stack_pointer s)"

definition set_int :: "addr \<Rightarrow> u32 \<Rightarrow> vm \<Rightarrow> vm" where
  "set_int a v s = s\<lparr>ints := (ints s)(a := v)\<rparr>"

definition set_top :: "u32 \<Rightarrow> vm \<Rightarrow> vm" where "set_top v s = set_int (stack_pointer s) v s"

text \<open>One operation: the new state and the next operation.\<close>

fun call_pp :: "pp \<Rightarrow> OP \<Rightarrow> vm \<Rightarrow> nat option \<times> vm" where
  "call_pp pp_null op s = (op_next op, s)"
| "call_pp pp_decr op s = (op_next op, set_top (get_top s - 1) s)"
| "call_pp pp_check op s = ((if get_top s \<noteq> 0 then op_next op else None), s)"
| "call_pp pp_get op s = (op_next op, set_top (ints s (op_val op)) s)"
| "call_pp pp_set op s = (op_next op, set_int (op_val op) (get_top s) s)"

text \<open>\<^verbatim>\<open>all_ops\<close> is zero at the start; \<^verbatim>\<open>opd\<close> and \<^verbatim>\<open>opc\<close> keep a null \<^verbatim>\<open>op_val\<close>.\<close>

definition zero_op :: OP where
  "zero_op = \<lparr>op_next = None, op_ppaddr = None, op_type = OP_NULL, op_val = 0\<rparr>"

definition initops :: "vm \<Rightarrow> nat \<times> OP list" where
  "initops s =
     (let ops = replicate 10 zero_op;
          opg = (ops ! 0)\<lparr>op_ppaddr := Some pp_get, op_type := OP_GET, op_val := var s\<rparr>;
          opd = (ops ! 1)\<lparr>op_ppaddr := Some pp_decr, op_type := OP_DECR\<rparr>;
          osv = (ops ! 2)\<lparr>op_ppaddr := Some pp_set, op_type := OP_SET, op_val := var s\<rparr>;
          opc = (ops ! 3)\<lparr>op_ppaddr := Some pp_check, op_type := OP_CHECK, op_next := Some 0\<rparr>
      in (0, ops[0 := opg\<lparr>op_next := Some 1\<rparr>, 1 := opd\<lparr>op_next := Some 2\<rparr>, 2 := osv\<lparr>op_next := Some 3\<rparr>, 3 := opc]))"

partial_function (option) runops :: "OP list \<Rightarrow> nat \<Rightarrow> vm \<Rightarrow> vm option option" where
  "runops all_ops i s =
     (if i < length all_ops then
        case op_ppaddr (all_ops ! i) of
          None \<Rightarrow> Some None
        | Some p \<Rightarrow>
            (case call_pp p (all_ops ! i) s of
               (None, s') \<Rightarrow> Some (Some s')
             | (Some j, s') \<Rightarrow> runops all_ops j s')
      else Some None)"

definition fp_main :: "addr \<Rightarrow> vm \<Rightarrow> vm option option" where
  "fp_main var_value s =
     (let s = set_int var_value 100000000 (s\<lparr>var := var_value\<rparr>); (i, ops) = initops s in runops ops i s)"

section \<open>An array of instructions\<close>

datatype in_type = INSN_NULL | INSN_DECR | INSN_CHECK | INSN_JUMP | INSN_GET | INSN_SET

text \<open>\<^verbatim>\<open>void *in_x1\<close>: null, an integer, or an instruction of the array\<close>

datatype in_x1 = Null | Int_at addr | Insn_at int

record INSN =
  in_type :: in_type
  in_flags :: byte
  in_private :: byte
  in_x1 :: in_x1

definition zero_insn :: INSN where "zero_insn = \<lparr>in_type = INSN_NULL, in_flags = 0, in_private = 0, in_x1 = Null\<rparr>"

definition initinsns :: "vm \<Rightarrow> INSN list" where
  "initinsns s =
     (replicate 10 zero_insn)
       [0 := zero_insn\<lparr>in_type := INSN_GET, in_x1 := Int_at (var s)\<rparr>,
        1 := zero_insn\<lparr>in_type := INSN_DECR\<rparr>,
        2 := zero_insn\<lparr>in_type := INSN_SET, in_x1 := Int_at (var s)\<rparr>,
        3 := zero_insn\<lparr>in_type := INSN_CHECK\<rparr>,
        4 := zero_insn\<lparr>in_type := INSN_JUMP, in_x1 := Insn_at (0 - 1)\<rparr>]"

text \<open>One turn of the loop: stop, fault, or go on at the next instruction.\<close>

datatype insn_step = Stop | Fault | Go int vm

definition insn_step :: "INSN list \<Rightarrow> int \<Rightarrow> vm \<Rightarrow> insn_step" where
  "insn_step code p s =
     (if p < 0 \<or> int (length code) \<le> p then Fault
      else let i = code ! nat p
           in case in_type i of
                INSN_NULL \<Rightarrow> Go (p + 1) s
              | INSN_DECR \<Rightarrow> Go (p + 1) (set_top (get_top s - 1) s)
              | INSN_CHECK \<Rightarrow> if get_top s = 0 then Stop else Go (p + 1) s
              | INSN_JUMP \<Rightarrow> (case in_x1 i of Insn_at q \<Rightarrow> Go (q + 1) s | _ \<Rightarrow> Fault)
              | INSN_GET \<Rightarrow> (case in_x1 i of Int_at a \<Rightarrow> Go (p + 1) (set_top (ints s a) s) | _ \<Rightarrow> Fault)
              | INSN_SET \<Rightarrow> (case in_x1 i of Int_at a \<Rightarrow> Go (p + 1) (set_int a (get_top s) s) | _ \<Rightarrow> Fault))"

partial_function (option) runinsns :: "INSN list \<Rightarrow> int \<Rightarrow> vm \<Rightarrow> vm option option" where
  "runinsns code p s =
     (case insn_step code p s of Stop \<Rightarrow> Some (Some s) | Fault \<Rightarrow> Some None | Go p s' \<Rightarrow> runinsns code p s')"

definition switch_main :: "addr \<Rightarrow> vm \<Rightarrow> vm option option" where
  "switch_main var_value s =
     (let s = set_int var_value 100000000 (s\<lparr>var := var_value\<rparr>) in runinsns (initinsns s) 0 s)"

text \<open>Both, one after the other: the state in between, and the state at the end.\<close>

definition mockup_main :: "addr \<Rightarrow> vm \<Rightarrow> (vm \<times> vm) option option" where
  "mockup_main var_value s =
     (case fp_main var_value s of
        None \<Rightarrow> None
      | Some None \<Rightarrow> Some None
      | Some (Some s1) \<Rightarrow>
          (let s1' = set_int (var s1) 100000000 s1
           in case runinsns (initinsns s1') 0 s1' of
                None \<Rightarrow> None
              | Some None \<Rightarrow> Some None
              | Some (Some s2) \<Rightarrow> Some (Some (s1, s2))))"

section \<open>One turn\<close>

text \<open>What a turn of either loop does.\<close>

definition turn :: "vm \<Rightarrow> vm" where
  "turn s = (let v = ints s (var s) - 1 in set_int (var s) v (set_top v s))"

lemma turn_simps [simp]:
  "stack_pointer (turn s) = stack_pointer s" "var (turn s) = var s"
  "var s \<noteq> stack_pointer s \<Longrightarrow> get_top (turn s) = ints s (var s) - 1"
  "ints (turn s) (var s) = ints s (var s) - 1"
  by (simp_all add: turn_def set_top_def set_int_def get_top_def Let_def)

lemma set_chain:
  "var s \<noteq> stack_pointer s \<Longrightarrow> set_int (var s) (get_top (set_top (get_top (set_top (ints s (var s)) s) - 1) (set_top (ints s (var s)) s)))
     (set_top (get_top (set_top (ints s (var s)) s) - 1) (set_top (ints s (var s)) s)) = turn s"
  by (simp add: turn_def set_top_def set_int_def get_top_def Let_def)

lemma initops_unfold:
  "initops s = (0,
    [\<lparr>op_next = Some 1, op_ppaddr = Some pp_get, op_type = OP_GET, op_val = var s\<rparr>,
     \<lparr>op_next = Some 2, op_ppaddr = Some pp_decr, op_type = OP_DECR, op_val = 0\<rparr>,
     \<lparr>op_next = Some 3, op_ppaddr = Some pp_set, op_type = OP_SET, op_val = var s\<rparr>,
     \<lparr>op_next = Some 0, op_ppaddr = Some pp_check, op_type = OP_CHECK, op_val = 0\<rparr>] @ replicate 6 zero_op)"
  by (simp add: initops_def zero_op_def numeral_eq_Suc)

lemma initinsns_unfold:
  "initinsns s =
    [\<lparr>in_type = INSN_GET, in_flags = 0, in_private = 0, in_x1 = Int_at (var s)\<rparr>, \<lparr>in_type = INSN_DECR, in_flags = 0, in_private = 0, in_x1 = Null\<rparr>,
     \<lparr>in_type = INSN_SET, in_flags = 0, in_private = 0, in_x1 = Int_at (var s)\<rparr>, \<lparr>in_type = INSN_CHECK, in_flags = 0, in_private = 0, in_x1 = Null\<rparr>,
     \<lparr>in_type = INSN_JUMP, in_flags = 0, in_private = 0, in_x1 = Insn_at (- 1)\<rparr>] @ replicate 5 zero_insn"
  by (simp add: initinsns_def zero_insn_def numeral_eq_Suc)

lemma inits_turn [simp]: "initops (turn s) = initops s" "initinsns (turn s) = initinsns s"
  by (simp_all add: initops_unfold initinsns_unfold)

lemma runops_turn:
  assumes "var s \<noteq> stack_pointer s"
  shows "runops (snd (initops s)) 0 s =
    (if get_top (turn s) = 0 then Some (Some (turn s)) else runops (snd (initops s)) 0 (turn s))"
  using set_chain [OF assms]
  by (simp add: initops_unfold runops.simps [of _ 0 s] runops.simps [of _ "Suc 0"] runops.simps [of _ 2] runops.simps [of _ 3])

lemma runinsns_turn:
  assumes "var s \<noteq> stack_pointer s"
  shows "runinsns (initinsns s) 0 s =
    (if get_top (turn s) = 0 then Some (Some (turn s)) else runinsns (initinsns s) 0 (turn s))"
  using set_chain [OF assms]
  by (simp add: initinsns_unfold insn_step_def runinsns.simps [of _ 0 s] runinsns.simps [of _ 1] runinsns.simps [of _ 2]
      runinsns.simps [of _ 3] runinsns.simps [of _ 4])

section \<open>The loop ends\<close>

definition finished :: "vm \<Rightarrow> vm" where
  "finished s = set_int (var s) 0 (set_top 0 s)"

lemma finished_turn: "finished (turn s) = finished s"
  by (intro vm.equality ext) (simp_all add: finished_def turn_def set_top_def set_int_def Let_def)

lemma turn_finished: "ints s (var s) = 1 \<Longrightarrow> turn s = finished s"
  by (simp add: finished_def turn_def)

text \<open>A loop that takes such turns until the top of the stack is zero.\<close>

locale counting_loop =
  fixes run :: "vm \<Rightarrow> vm option option"
  assumes run_turn: "var s \<noteq> stack_pointer s \<Longrightarrow>
    run s = (if get_top (turn s) = 0 then Some (Some (turn s)) else run (turn s))"
begin

lemma run_finished: "var s \<noteq> stack_pointer s \<Longrightarrow> run s = Some (Some (finished s))"
proof (induction "unat (ints s (var s) - 1)" arbitrary: s rule: less_induct)
  case less
  show ?case
  proof (cases "ints s (var s) = 1")
    case True
    then have "get_top (turn s) = 0" using less(2) by simp
    then show ?thesis using run_turn [OF less(2)] turn_finished [OF True] by simp
  next
    case False
    then have "ints s (var s) - 1 \<noteq> 0" by simp
    then have "unat (ints s (var s) - 1 - 1) < unat (ints s (var s) - 1)"
      by (metis measure_unat)
    then have "run (turn s) = Some (Some (finished (turn s)))" using less(1) [of "turn s"] less(2) by simp
    then show ?thesis using run_turn [OF less(2)] less(2) False by (simp add: finished_turn)
  qed
qed

end

interpretation linked: counting_loop "\<lambda>s. runops (snd (initops s)) 0 s"
  by unfold_locales (simp add: runops_turn)

interpretation switched: counting_loop "\<lambda>s. runinsns (initinsns s) 0 s"
  by unfold_locales (simp add: runinsns_turn)

text \<open>Claim C39. Both interpreters end on every start value, 0 included, where the counter wraps round,
  and with the same state: the counter and the top of the stack are zero, nothing else has changed.\<close>

theorem interpreters_agree:
  assumes "var s \<noteq> stack_pointer s"
  shows "runops (snd (initops s)) 0 s = Some (Some (finished s)) \<and>
    runinsns (initinsns s) 0 s = Some (Some (finished s))"
  by (intro conjI linked.run_finished switched.run_finished assms)

theorem interpreters_agree_witness:
  "runops (snd (initops \<lparr>stack_pointer = 4, var = 8, ints = \<lambda>_. 0\<rparr>)) 0 \<lparr>stack_pointer = 4, var = 8, ints = \<lambda>_. 0\<rparr> =
     Some (Some (finished \<lparr>stack_pointer = 4, var = 8, ints = \<lambda>_. 0\<rparr>)) \<and>
   runinsns (initinsns \<lparr>stack_pointer = 4, var = 8, ints = \<lambda>_. 0\<rparr>) 0 \<lparr>stack_pointer = 4, var = 8, ints = \<lambda>_. 0\<rparr> =
     Some (Some (finished \<lparr>stack_pointer = 4, var = 8, ints = \<lambda>_. 0\<rparr>))"
  by (rule interpreters_agree) simp

lemma mains_finish:
  assumes "v \<noteq> stack_pointer s"
  shows "fp_main v s = Some (Some (finished (s\<lparr>var := v\<rparr>)))" "switch_main v s = Some (Some (finished (s\<lparr>var := v\<rparr>)))"
    "mockup_main v s = Some (Some (finished (s\<lparr>var := v\<rparr>), finished (s\<lparr>var := v\<rparr>)))"
proof -
  let ?s = "set_int v 100000000 (s\<lparr>var := v\<rparr>)"
  have s: "var ?s \<noteq> stack_pointer ?s" "finished ?s = finished (s\<lparr>var := v\<rparr>)"
    using assms by (simp_all add: set_int_def set_top_def finished_def fun_upd_twist)
  have e: "set_int v 100000000 (finished (s\<lparr>var := v\<rparr>)) = set_top 0 ?s"
    using assms by (intro vm.equality ext) (simp_all add: set_int_def set_top_def finished_def)
  show fp: "fp_main v s = Some (Some (finished (s\<lparr>var := v\<rparr>)))"
    using linked.run_finished [OF s(1)] s(2) by (simp add: fp_main_def Let_def initops_unfold)
  show "switch_main v s = Some (Some (finished (s\<lparr>var := v\<rparr>)))"
    using switched.run_finished [OF s(1)] s(2) by (simp add: switch_main_def)
  have t: "var (set_top 0 ?s) \<noteq> stack_pointer (set_top 0 ?s)" "finished (set_top 0 ?s) = finished (s\<lparr>var := v\<rparr>)"
    using s by (auto simp: set_top_def set_int_def finished_def)
  have "var (finished (s\<lparr>var := v\<rparr>)) = v" by (simp add: finished_def set_int_def set_top_def)
  then show "mockup_main v s = Some (Some (finished (s\<lparr>var := v\<rparr>), finished (s\<lparr>var := v\<rparr>)))"
    using switched.run_finished [OF t(1)] e t(2) by (simp add: mockup_main_def fp)
qed

end
