(* ===== verification/SFI_Crc.thy ===== *)
theory SFI_Crc
  imports SFI_Prelude
begin

text \<open>
  The checksum of the compression program (\<^verbatim>\<open>updcrc\<close> and its table in \<^verbatim>\<open>src/gzip-mod.c\<close>). The table
  is the one of the source. The reference is the division by the CRC-32 polynomial, one bit at a
  time; the table routine is equal to it, and the division is a bijection of the register, which
  is why no change confined to four consecutive bytes goes unnoticed.
\<close>

unbundle bit_operations_syntax

section \<open>The code\<close>

definition crc_32_tab :: "u32 list" where
  "crc_32_tab =
    [0x00000000, 0x77073096, 0xee0e612c, 0x990951ba, 0x076dc419, 0x706af48f, 0xe963a535, 0x9e6495a3,
     0x0edb8832, 0x79dcb8a4, 0xe0d5e91e, 0x97d2d988, 0x09b64c2b, 0x7eb17cbd, 0xe7b82d07, 0x90bf1d91,
     0x1db71064, 0x6ab020f2, 0xf3b97148, 0x84be41de, 0x1adad47d, 0x6ddde4eb, 0xf4d4b551, 0x83d385c7,
     0x136c9856, 0x646ba8c0, 0xfd62f97a, 0x8a65c9ec, 0x14015c4f, 0x63066cd9, 0xfa0f3d63, 0x8d080df5,
     0x3b6e20c8, 0x4c69105e, 0xd56041e4, 0xa2677172, 0x3c03e4d1, 0x4b04d447, 0xd20d85fd, 0xa50ab56b,
     0x35b5a8fa, 0x42b2986c, 0xdbbbc9d6, 0xacbcf940, 0x32d86ce3, 0x45df5c75, 0xdcd60dcf, 0xabd13d59,
     0x26d930ac, 0x51de003a, 0xc8d75180, 0xbfd06116, 0x21b4f4b5, 0x56b3c423, 0xcfba9599, 0xb8bda50f,
     0x2802b89e, 0x5f058808, 0xc60cd9b2, 0xb10be924, 0x2f6f7c87, 0x58684c11, 0xc1611dab, 0xb6662d3d,
     0x76dc4190, 0x01db7106, 0x98d220bc, 0xefd5102a, 0x71b18589, 0x06b6b51f, 0x9fbfe4a5, 0xe8b8d433,
     0x7807c9a2, 0x0f00f934, 0x9609a88e, 0xe10e9818, 0x7f6a0dbb, 0x086d3d2d, 0x91646c97, 0xe6635c01,
     0x6b6b51f4, 0x1c6c6162, 0x856530d8, 0xf262004e, 0x6c0695ed, 0x1b01a57b, 0x8208f4c1, 0xf50fc457,
     0x65b0d9c6, 0x12b7e950, 0x8bbeb8ea, 0xfcb9887c, 0x62dd1ddf, 0x15da2d49, 0x8cd37cf3, 0xfbd44c65,
     0x4db26158, 0x3ab551ce, 0xa3bc0074, 0xd4bb30e2, 0x4adfa541, 0x3dd895d7, 0xa4d1c46d, 0xd3d6f4fb,
     0x4369e96a, 0x346ed9fc, 0xad678846, 0xda60b8d0, 0x44042d73, 0x33031de5, 0xaa0a4c5f, 0xdd0d7cc9,
     0x5005713c, 0x270241aa, 0xbe0b1010, 0xc90c2086, 0x5768b525, 0x206f85b3, 0xb966d409, 0xce61e49f,
     0x5edef90e, 0x29d9c998, 0xb0d09822, 0xc7d7a8b4, 0x59b33d17, 0x2eb40d81, 0xb7bd5c3b, 0xc0ba6cad,
     0xedb88320, 0x9abfb3b6, 0x03b6e20c, 0x74b1d29a, 0xead54739, 0x9dd277af, 0x04db2615, 0x73dc1683,
     0xe3630b12, 0x94643b84, 0x0d6d6a3e, 0x7a6a5aa8, 0xe40ecf0b, 0x9309ff9d, 0x0a00ae27, 0x7d079eb1,
     0xf00f9344, 0x8708a3d2, 0x1e01f268, 0x6906c2fe, 0xf762575d, 0x806567cb, 0x196c3671, 0x6e6b06e7,
     0xfed41b76, 0x89d32be0, 0x10da7a5a, 0x67dd4acc, 0xf9b9df6f, 0x8ebeeff9, 0x17b7be43, 0x60b08ed5,
     0xd6d6a3e8, 0xa1d1937e, 0x38d8c2c4, 0x4fdff252, 0xd1bb67f1, 0xa6bc5767, 0x3fb506dd, 0x48b2364b,
     0xd80d2bda, 0xaf0a1b4c, 0x36034af6, 0x41047a60, 0xdf60efc3, 0xa867df55, 0x316e8eef, 0x4669be79,
     0xcb61b38c, 0xbc66831a, 0x256fd2a0, 0x5268e236, 0xcc0c7795, 0xbb0b4703, 0x220216b9, 0x5505262f,
     0xc5ba3bbe, 0xb2bd0b28, 0x2bb45a92, 0x5cb36a04, 0xc2d7ffa7, 0xb5d0cf31, 0x2cd99e8b, 0x5bdeae1d,
     0x9b64c2b0, 0xec63f226, 0x756aa39c, 0x026d930a, 0x9c0906a9, 0xeb0e363f, 0x72076785, 0x05005713,
     0x95bf4a82, 0xe2b87a14, 0x7bb12bae, 0x0cb61b38, 0x92d28e9b, 0xe5d5be0d, 0x7cdcefb7, 0x0bdbdf21,
     0x86d3d2d4, 0xf1d4e242, 0x68ddb3f8, 0x1fda836e, 0x81be16cd, 0xf6b9265b, 0x6fb077e1, 0x18b74777,
     0x88085ae6, 0xff0f6a70, 0x66063bca, 0x11010b5c, 0x8f659eff, 0xf862ae69, 0x616bffd3, 0x166ccf45,
     0xa00ae278, 0xd70dd2ee, 0x4e048354, 0x3903b3c2, 0xa7672661, 0xd06016f7, 0x4969474d, 0x3e6e77db,
     0xaed16a4a, 0xd9d65adc, 0x40df0b66, 0x37d83bf0, 0xa9bcae53, 0xdebb9ec5, 0x47b2cf7f, 0x30b5ffe9,
     0xbdbdf21c, 0xcabac28a, 0x53b39330, 0x24b4a3a6, 0xbad03605, 0xcdd70693, 0x54de5729, 0x23d967bf,
     0xb3667a2e, 0xc4614ab8, 0x5d681b02, 0x2a6f2b94, 0xb40bbe37, 0xc30c8ea1, 0x5a05df1b, 0x2d02ef8d]"

definition crc_step :: "u32 \<Rightarrow> byte \<Rightarrow> u32" where
  "crc_step c x = crc_32_tab ! unat ((c XOR ucast x) AND 0xff) XOR drop_bit 8 c"

text \<open>The static variable \<^verbatim>\<open>crc\<close> is passed and returned; \<open>None\<close> is the null pointer.\<close>

definition updcrc :: "byte list option \<Rightarrow> u32 \<Rightarrow> u32 \<times> u32" where
  "updcrc s crc =
     (let c = (case s of None \<Rightarrow> 0xffffffff | Some xs \<Rightarrow> foldl crc_step crc xs)
      in (c XOR 0xffffffff, c))"

section \<open>The reference\<close>

definition crc_bit :: "u32 \<Rightarrow> u32" where
  "crc_bit c = (if bit c 0 then drop_bit 1 c XOR 0xedb88320 else drop_bit 1 c)"

definition crc_byte :: "u32 \<Rightarrow> byte \<Rightarrow> u32" where
  "crc_byte c x = (crc_bit ^^ 8) (c XOR ucast x)"

definition crc32 :: "byte list \<Rightarrow> u32" where
  "crc32 xs = foldl crc_byte 0xffffffff xs XOR 0xffffffff"

section \<open>The division is linear\<close>

lemma crc_bit_xor: "crc_bit (x XOR y) = crc_bit x XOR crc_bit y"
  by (rule bit_word_eqI) (auto simp: crc_bit_def bit_simps)

lemma crc_bits_xor: "(crc_bit ^^ n) (x XOR y) = (crc_bit ^^ n) x XOR (crc_bit ^^ n) y"
  by (induction n) (simp_all add: crc_bit_xor)

lemma crc_bits_shift: "take_bit n c = 0 \<Longrightarrow> (crc_bit ^^ n) c = drop_bit n c"
proof (induction n arbitrary: c)
  case (Suc n)
  have b: "\<not> bit c i" if "i \<le> n" for i
    using Suc.prems that by (metis bit_take_bit_iff bit_0_eq bot_apply bot_bool_def le_imp_less_Suc)
  have "take_bit n (drop_bit 1 c) = 0" by (rule bit_word_eqI) (auto simp: bit_simps b)
  then have "(crc_bit ^^ n) (drop_bit 1 c) = drop_bit (Suc n) c" using Suc.IH by (simp add: drop_bit_drop_bit)
  moreover have "crc_bit c = drop_bit 1 c" by (simp add: crc_bit_def b)
  ultimately show ?case by (simp add: funpow_swap1)
qed simp

text \<open>By linearity eight values give the table: each power of two doubles the part below it.\<close>

definition crc_double :: "u32 list \<Rightarrow> u32 \<Rightarrow> u32 list" where
  "crc_double t d = t @ map (\<lambda>x. x XOR d) t"

lemma word_add_xor:
  assumes "i < 2 ^ k" shows "of_nat (2 ^ k + i) = of_nat i XOR (2 ^ k :: u32)"
proof -
  have "\<not> bit i k" using assms by (simp add: bit_iff_odd)
  then have "of_nat i AND (2 ^ k :: u32) = 0" by (simp add: and_exp_eq_0_iff_not_bit bit_simps)
  then have "of_nat i + (2 ^ k :: u32) = of_nat i XOR 2 ^ k" by (rule disjunctive_add_eq_xor)
  then show ?thesis by (simp add: add.commute)
qed

lemma crc_doubles:
  "foldl crc_double [0] (map (\<lambda>k. (crc_bit ^^ 8) (2 ^ k)) [0..<n]) = map (\<lambda>i. (crc_bit ^^ 8) (of_nat i)) [0..<2 ^ n]"
proof (induction n)
  case 0
  have "(crc_bit ^^ 8) 0 = 0" using crc_bits_shift [of 8 0] by simp
  then show ?case by simp
next
  case (Suc n)
  have "[0..<2 ^ Suc n] = [0..<2 ^ n] @ map (\<lambda>i. 2 ^ n + i) [0..<2 ^ n]"
    by (rule nth_equalityI) (auto simp: nth_append)
  then show ?case using Suc by (simp add: crc_double_def crc_bits_xor word_add_xor del: of_nat_add)
qed

lemma crc_basis:
  "map (\<lambda>k. (crc_bit ^^ 8) (2 ^ k)) [0..<8] =
    [0x77073096, 0xee0e612c, 0x76dc419, 0xedb8832, 0x1db71064, 0x3b6e20c8, 0x76dc4190, 0xedb88320]"
  by code_simp

lemma crc_tab_reference: "crc_32_tab = map (\<lambda>i. (crc_bit ^^ 8) (of_nat i)) [0..<256]"
proof -
  have "crc_32_tab = foldl crc_double [0] (map (\<lambda>k. (crc_bit ^^ 8) (2 ^ k)) [0..<8])"
    unfolding crc_basis by (simp add: crc_32_tab_def crc_double_def)
  then show ?thesis unfolding crc_doubles by simp
qed

lemma crc_step_reference: "crc_step c x = crc_byte c x"
proof -
  have m: "(0xff :: u32) = mask 8" by (simp add: mask_eq_exp_minus_1)
  have s: "y = take_bit 8 y XOR push_bit 8 (drop_bit 8 y)" for y :: u32
    by (rule bit_word_eqI) (auto simp: bit_simps)
  have t: "(crc_bit ^^ 8) (push_bit 8 (drop_bit 8 y)) = drop_bit 8 y" for y
  proof -
    have "n < 24" if "bit y (8 + n)" for n using bit_imp_le_length [OF that] by simp
    then show ?thesis by (subst crc_bits_shift) (auto intro!: bit_word_eqI simp: bit_simps)
  qed
  have "\<not> bit x (8 + n)" for n using bit_imp_le_length [of x "8 + n"] by auto
  then have d: "drop_bit 8 (c XOR ucast x) = drop_bit 8 c" by (intro bit_word_eqI) (auto simp: bit_simps)
  have u: "crc_32_tab ! unat (take_bit 8 y) = (crc_bit ^^ 8) (take_bit 8 y)" for y
  proof -
    have "unat (take_bit 8 y) < 256" by (simp add: unat_take_bit)
    then show ?thesis unfolding crc_tab_reference by (simp only: nth_map length_upt nth_upt) simp
  qed
  have "crc_byte c x = (crc_bit ^^ 8) (take_bit 8 (c XOR ucast x)) XOR drop_bit 8 (c XOR ucast x)"
    unfolding crc_byte_def by (subst s) (simp only: crc_bits_xor t)
  then show ?thesis unfolding crc_step_def d m take_bit_eq_mask [symmetric] u by (simp only:)
qed

text \<open>Claim C13. The routine of the source, which looks each byte up in its table, started on the null
  pointer and run over any bytes, returns their CRC-32: the remainder of the division one bit at a
  time by the polynomial of the standard.\<close>

theorem updcrc_reference: "fst (updcrc (Some xs) (snd (updcrc None c))) = crc32 xs"
  by (simp add: updcrc_def crc32_def crc_step_reference [abs_def] Let_def)

lemma updcrc_append: "snd (updcrc (Some ys) (snd (updcrc (Some xs) c))) = snd (updcrc (Some (xs @ ys)) c)"
  by (simp add: updcrc_def Let_def)

section \<open>Changes that are always noticed\<close>

lemma xor_right_eq: "c XOR u = d XOR u \<longleftrightarrow> c = (d :: u32)"
  by (auto simp: bit_eq_iff bit_simps)

lemma xor_left_eq: "u XOR c = u XOR d \<longleftrightarrow> c = (d :: u32)"
  by (auto simp: bit_eq_iff bit_simps)

lemma crc_bit_inj: "inj crc_bit"
proof (rule injI)
  fix x y assume e: "crc_bit x = crc_bit y"
  have h: "bit (crc_bit z) 31 \<longleftrightarrow> bit z 0" for z by (auto simp: crc_bit_def bit_simps dest: bit_imp_le_length)
  have l: "bit x 0 = bit y 0" using arg_cong [OF e, of "\<lambda>z. bit z 31"] by (simp only: h)
  then have d: "drop_bit 1 x = drop_bit 1 y" using e by (auto simp: crc_bit_def xor_right_eq split: if_splits)
  show "x = y"
  proof (rule bit_word_eqI)
    fix n assume "n < LENGTH(32)"
    show "bit x n = bit y n"
      using l arg_cong [OF d, of "\<lambda>z. bit z (n - 1)"] by (cases n) (simp_all add: bit_simps)
  qed
qed

lemma crc_bits_inj: "(crc_bit ^^ n) x = (crc_bit ^^ n) y \<longleftrightarrow> x = y"
  by (induction n) (simp_all add: inj_eq [OF crc_bit_inj])

lemma crc_bytes_inj: "foldl crc_byte c xs = foldl crc_byte d xs \<longleftrightarrow> c = d"
proof (induction xs arbitrary: c d)
  case (Cons x xs)
  then show ?case by (simp add: crc_byte_def crc_bits_inj xor_right_eq)
qed simp

text \<open>Up to four bytes enter the register as one number.\<close>

fun le_word :: "byte list \<Rightarrow> u32" where
  "le_word [] = 0"
| "le_word (x # xs) = ucast x XOR push_bit 8 (le_word xs)"

lemma le_word_bits:
  "bit (le_word xs) n \<longleftrightarrow> n < 32 \<and> n < 8 * length xs \<and> bit (xs ! (n div 8)) (n mod 8)"
proof (induction xs arbitrary: n)
  case (Cons x xs)
  show ?case
  proof (cases "n < 8")
    case False
    then have "n div 8 = Suc ((n - 8) div 8)" "n mod 8 = (n - 8) mod 8"
      by (simp_all add: le_div_geq le_mod_geq)
    moreover have "\<not> bit x n" using False bit_imp_le_length [of x n] by auto
    ultimately show ?thesis using Cons.IH [of "n - 8"] False by (auto simp: bit_simps)
  qed (simp add: bit_simps)
qed simp

lemma le_word_inj:
  assumes "length xs = length ys" "length xs \<le> 4" "le_word xs = le_word ys" shows "xs = ys"
proof (rule nth_equalityI [OF assms(1)])
  fix i assume i: "i < length xs"
  show "xs ! i = ys ! i"
  proof (rule bit_word_eqI)
    fix n assume "n < LENGTH(8)"
    then have "8 * i + n < 32" "8 * i + n < 8 * length xs" "(8 * i + n) div 8 = i" "(8 * i + n) mod 8 = n"
      using i assms(2) by simp_all
    then show "bit (xs ! i) n = bit (ys ! i) n"
      using arg_cong [OF assms(3), of "\<lambda>w. bit w (8 * i + n)"] assms(1) by (simp add: le_word_bits)
  qed
qed

lemma crc_bytes_word:
  "length xs \<le> 4 \<Longrightarrow> foldl crc_byte c xs = (crc_bit ^^ (8 * length xs)) (c XOR le_word xs)"
proof (induction xs arbitrary: c)
  case (Cons x xs)
  have "take_bit 8 (push_bit 8 (le_word xs)) = 0" by (rule bit_word_eqI) (auto simp: bit_simps)
  moreover have "drop_bit 8 (push_bit 8 (le_word xs)) = le_word xs"
    using Cons.prems by (intro bit_word_eqI) (auto simp: bit_simps le_word_bits)
  ultimately have "crc_byte c x XOR le_word xs = (crc_bit ^^ 8) (c XOR (ucast x XOR push_bit 8 (le_word xs)))"
    by (simp add: crc_byte_def crc_bits_xor crc_bits_shift xor.assoc)
  then show ?case using Cons by (simp add: funpow_add add.commute [of 8])
qed simp

text \<open>Claim C14. Two messages that differ only inside four consecutive bytes have different checksums,
  whatever comes before and after.\<close>

theorem crc_detects_bursts:
  assumes "length x = length y" "length x \<le> 4" "x \<noteq> y"
  shows "fst (updcrc (Some (a @ x @ b)) c) \<noteq> fst (updcrc (Some (a @ y @ b)) c)"
proof
  assume "fst (updcrc (Some (a @ x @ b)) c) = fst (updcrc (Some (a @ y @ b)) c)"
  then have "foldl crc_byte c (a @ x @ b) = foldl crc_byte c (a @ y @ b)"
    by (simp add: updcrc_def Let_def crc_step_reference [abs_def] xor_right_eq)
  then have "foldl crc_byte c a XOR le_word x = foldl crc_byte c a XOR le_word y"
    using assms by (simp add: crc_bytes_inj crc_bytes_word crc_bits_inj)
  then have "le_word x = le_word y" by (simp add: xor_left_eq)
  then show False using le_word_inj assms by blast
qed

lemma crc_detects_bursts_witness:
  "fst (updcrc (Some ([1, 2] @ [3, 4, 5] @ [6])) 0) \<noteq> fst (updcrc (Some ([1, 2] @ [3, 9, 5] @ [6])) 0)"
  by (rule crc_detects_bursts) simp_all

end
