(* ===== verification/SFI_Gzip.thy ===== *)
theory SFI_Gzip
  imports SFI_Host SFI_Crc
begin

text \<open>
  The buffers of the compression program (\<^verbatim>\<open>src/gzip-mod.c\<close>): its global variables as one record, the
  input buffer with its refill, the output buffer and the window with their flushes. The kernel's
  \<^verbatim>\<open>read\<close> and \<^verbatim>\<open>write\<close> transfer as many bytes as the parameter says for each call, at least one where
  there is one, and fail where the parameter is negative. The lemmas say what the buffering hides:
  the bytes still to be read, and the bytes written so far.
\<close>

unbundle bit_operations_syntax

section \<open>State\<close>

definition INBUFSIZ :: nat where "INBUFSIZ = 0x8000"
definition OUTBUFSIZ :: nat where "OUTBUFSIZ = 16384"
definition WSIZE :: nat where "WSIZE = 0x8000"

text \<open>How much the \<open>i\<close>-th call transfers, and whether the \<open>i\<close>-th allocation of a table succeeds.\<close>

record sysio =
  rlen :: "nat \<Rightarrow> int"
  wlen :: "nat \<Rightarrow> int"
  hmalloc :: "nat \<Rightarrow> bool"

text \<open>An entry of a decoding table, \<^verbatim>\<open>struct huft\<close>: a value or a pointer to a table. The tables are known
  by number; \<open>links\<close> are the dummy first entries, through which the tables of a tree form a list.\<close>

datatype huftv = Vn "16 word" | Vt nat

record huft =
  h_e :: nat
  h_b :: nat
  h_v :: huftv

record hmem =
  tabs :: "nat \<Rightarrow> nat \<Rightarrow> huft"
  links :: "nat \<Rightarrow> nat option"
  live :: "nat list"
  nalloc :: nat
  hufts :: nat

record gz =
  src :: "byte list"          \<comment> \<open>what is still to be read from \<^verbatim>\<open>ifd\<close>\<close>
  reads :: nat
  sink :: "byte list"         \<comment> \<open>what was written to \<^verbatim>\<open>ofd\<close>\<close>
  writes :: nat
  inbuf :: "nat \<Rightarrow> byte"
  insize :: nat
  inptr :: nat
  outbuf :: "nat \<Rightarrow> byte"
  window :: "nat \<Rightarrow> byte"
  outcnt :: nat               \<comment> \<open>also the position in the window, \<^verbatim>\<open>wp\<close>\<close>
  crc_reg :: u32              \<comment> \<open>the static variable of \<^verbatim>\<open>updcrc\<close>\<close>
  crc :: u32
  bytes_in :: u32
  bytes_out :: u32
  test :: bool
  bi_buf :: "16 word"
  bi_valid :: nat
  bb :: u32
  bk :: nat
  hm :: hmem                  \<comment> \<open>the tables of the decoder\<close>

type_synonym 'a gzip = "(gz, 'a) outcome"

definition sys_read :: "sysio \<Rightarrow> nat \<Rightarrow> gz \<Rightarrow> byte list option \<times> gz" where
  "sys_read S n g =
     (let r = rlen S (reads g); g' = g\<lparr>reads := reads g + 1\<rparr>; k = min n (max 1 (nat r))
      in if r < 0 then (None, g') else (Some (take k (src g)), g'\<lparr>src := drop k (src g)\<rparr>))"

definition sys_write :: "sysio \<Rightarrow> byte list \<Rightarrow> gz \<Rightarrow> nat option \<times> gz" where
  "sys_write S xs g =
     (let r = wlen S (writes g); g' = g\<lparr>writes := writes g + 1\<rparr>; k = min (length xs) (max 1 (nat r))
      in if r < 0 then (None, g') else (Some k, g'\<lparr>sink := sink g @ take k xs\<rparr>))"

text \<open>\<^verbatim>\<open>n\<close> bytes put into an array.\<close>

definition put_array :: "nat \<Rightarrow> byte list \<Rightarrow> (nat \<Rightarrow> byte) \<Rightarrow> nat \<Rightarrow> byte" where
  "put_array p xs a = (\<lambda>i. if p \<le> i \<and> i < p + length xs then xs ! (i - p) else a i)"

definition get_array :: "(nat \<Rightarrow> byte) \<Rightarrow> nat \<Rightarrow> nat \<Rightarrow> byte list" where
  "get_array a p q = map a [p..<q]"

section \<open>Output\<close>

text \<open>\<^verbatim>\<open>read_error\<close> and \<^verbatim>\<open>write_error\<close> report and end in \<^verbatim>\<open>abort_gzip\<close>, which exits with 1.
  The messages, and the removal of a partial output file before the exit, are left out.\<close>

definition abort_gzip :: "'a gzip" where "abort_gzip = Halt (Exited 1)"
definition read_error :: "'a gzip" where "read_error = abort_gzip"
definition write_error :: "'a gzip" where "write_error = abort_gzip"

function write_buf :: "sysio \<Rightarrow> byte list \<Rightarrow> gz \<Rightarrow> unit gzip" where
  "write_buf S buf g =
     (case sys_write S buf g of
        (None, _) \<Rightarrow> write_error
      | (Some n, g') \<Rightarrow> if n = length buf then Return () g' else write_buf S (drop n buf) g')"
  by pat_completeness auto
termination
  by (relation "measure (\<lambda>(S, buf, g). length buf)") (auto simp: sys_write_def Let_def split: if_splits)

declare write_buf.simps [simp del]

definition flush_outbuf :: "sysio \<Rightarrow> gz \<Rightarrow> unit gzip" where
  "flush_outbuf S g =
     (if outcnt g = 0 then Return () g
      else out_bind (write_buf S (get_array (outbuf g) 0 (outcnt g)) g)
        (\<lambda>_ h. Return () (h\<lparr>bytes_out := bytes_out h + of_nat (outcnt h), outcnt := 0\<rparr>)))"

definition put_byte :: "sysio \<Rightarrow> byte \<Rightarrow> gz \<Rightarrow> unit gzip" where
  "put_byte S c g =
     (let g = g\<lparr>outbuf := (outbuf g)(outcnt g := c), outcnt := outcnt g + 1\<rparr>
      in if outcnt g = OUTBUFSIZ then flush_outbuf S g else Return () g)"

definition put_short :: "sysio \<Rightarrow> 16 word \<Rightarrow> gz \<Rightarrow> unit gzip" where
  "put_short S w g =
     (if outcnt g < OUTBUFSIZ - 2
      then Return () (g\<lparr>outbuf := (outbuf g)(outcnt g := ucast (w AND 0xff), outcnt g + 1 := ucast (drop_bit 8 w)),
                        outcnt := outcnt g + 2\<rparr>)
      else out_bind (put_byte S (ucast (w AND 0xff)) g) (\<lambda>_. put_byte S (ucast (drop_bit 8 w))))"

definition put_long :: "sysio \<Rightarrow> u32 \<Rightarrow> gz \<Rightarrow> unit gzip" where
  "put_long S n g =
     out_bind (put_short S (ucast (n AND 0xffff)) g) (\<lambda>_. put_short S (ucast (drop_bit 16 n)))"

definition gz_updcrc :: "byte list option \<Rightarrow> gz \<Rightarrow> u32 \<times> gz" where
  "gz_updcrc s g = (case updcrc s (crc_reg g) of (r, c) \<Rightarrow> (r, g\<lparr>crc_reg := c\<rparr>))"

definition flush_window :: "sysio \<Rightarrow> gz \<Rightarrow> unit gzip" where
  "flush_window S g =
     (if outcnt g = 0 then Return () g
      else let xs = get_array (window g) 0 (outcnt g); g = snd (gz_updcrc (Some xs) g)
        in out_bind (if test g then Return () g else write_buf S xs g)
          (\<lambda>_ h. Return () (h\<lparr>bytes_out := bytes_out h + of_nat (outcnt h), outcnt := 0\<rparr>)))"

section \<open>Input\<close>

definition clear_bufs :: "gz \<Rightarrow> gz" where
  "clear_bufs g = g\<lparr>outcnt := 0, insize := 0, inptr := 0, bytes_in := 0, bytes_out := 0\<rparr>"

function fill_loop :: "sysio \<Rightarrow> gz \<Rightarrow> unit gzip" where
  "fill_loop S g =
     (case sys_read S (INBUFSIZ - insize g) g of
        (None, _) \<Rightarrow> read_error
      | (Some xs, h) \<Rightarrow>
          if xs = [] then Return () h
          else let h' = h\<lparr>inbuf := put_array (insize g) xs (inbuf h), insize := insize g + length xs\<rparr>
            in if insize h' < INBUFSIZ then fill_loop S h' else Return () h')"
  by pat_completeness auto
termination
  by (relation "measure (\<lambda>(S, g). INBUFSIZ - insize g)") (auto simp: Let_def simp flip: length_greater_0_conv)

declare fill_loop.simps [simp del]

text \<open>\<^verbatim>\<open>EOF\<close> is -1. At the end of the file the window is flushed and the program stops.\<close>

definition fill_inbuf :: "sysio \<Rightarrow> bool \<Rightarrow> gz \<Rightarrow> u32 gzip" where
  "fill_inbuf S eof_ok g =
     out_bind (fill_loop S (g\<lparr>insize := 0\<rparr>)) (\<lambda>_ h.
       if insize h = 0 then (if eof_ok then Return (- 1) h else out_bind (flush_window S h) (\<lambda>_ _. read_error))
       else Return (ucast (inbuf h 0)) (h\<lparr>bytes_in := bytes_in h + of_nat (insize h), inptr := 1\<rparr>))"

definition get_byte :: "sysio \<Rightarrow> gz \<Rightarrow> u32 gzip" where
  "get_byte S g =
     (if inptr g < insize g then Return (ucast (inbuf g (inptr g))) (g\<lparr>inptr := inptr g + 1\<rparr>)
      else fill_inbuf S False g)"

definition try_byte :: "sysio \<Rightarrow> gz \<Rightarrow> u32 gzip" where
  "try_byte S g =
     (if inptr g < insize g then Return (ucast (inbuf g (inptr g))) (g\<lparr>inptr := inptr g + 1\<rparr>)
      else fill_inbuf S True g)"

definition file_read :: "sysio \<Rightarrow> nat \<Rightarrow> gz \<Rightarrow> byte list gzip" where
  "file_read S n g =
     (case sys_read S n g of
        (None, _) \<Rightarrow> read_error
      | (Some xs, h) \<Rightarrow>
          if xs = [] then Return [] h
          else (case gz_updcrc (Some xs) h of (r, h') \<Rightarrow>
            Return xs (h'\<lparr>crc := r, bytes_in := bytes_in h' + of_nat (length xs)\<rparr>)))"

section \<open>What the buffering hides\<close>

definition io_ok :: "sysio \<Rightarrow> bool" where
  "io_ok S \<longleftrightarrow> (\<forall>i. 0 \<le> rlen S i \<and> 0 \<le> wlen S i)"

definition instream :: "gz \<Rightarrow> byte list" where
  "instream g = get_array (inbuf g) (inptr g) (insize g) @ src g"

definition outstream :: "gz \<Rightarrow> byte list" where
  "outstream g = sink g @ get_array (outbuf g) 0 (outcnt g)"

lemma io_okD: "io_ok S \<Longrightarrow> 0 \<le> rlen S i" "io_ok S \<Longrightarrow> 0 \<le> wlen S i"
  by (simp_all add: io_ok_def)

lemma get_array_simps [simp]:
  "get_array a p p = []" "length (get_array a p q) = q - p"
  "p \<le> q \<Longrightarrow> get_array (a(q := x)) p (Suc q) = get_array a p q @ [x]"
  "q \<le> i \<Longrightarrow> get_array (a(i := x)) p q = get_array a p q"
  by (auto simp: get_array_def)

lemma get_array_Cons: "p < q \<Longrightarrow> get_array a p q = a p # get_array a (Suc p) q"
  by (simp add: get_array_def upt_conv_Cons)

lemma get_put_array: "get_array (put_array p xs a) 0 (p + length xs) = get_array a 0 p @ xs"
  by (rule nth_equalityI) (auto simp: get_array_def put_array_def nth_append)

lemma sys_write_ok:
  assumes "io_ok S"
  obtains n where "sys_write S xs g = (Some n, g\<lparr>sink := sink g @ take n xs, writes := writes g + 1\<rparr>)"
    "n \<le> length xs" "xs \<noteq> [] \<Longrightarrow> 0 < n"
proof
  let ?n = "min (length xs) (max 1 (nat (wlen S (writes g))))"
  show "sys_write S xs g = (Some ?n, g\<lparr>sink := sink g @ take ?n xs, writes := writes g + 1\<rparr>)"
    using io_okD(2) [OF assms, of "writes g"] by (simp add: sys_write_def Let_def)
qed auto

lemma sys_read_ok:
  assumes "io_ok S" "0 < n"
  obtains k where "sys_read S n g = (Some (take k (src g)), g\<lparr>src := drop k (src g), reads := reads g + 1\<rparr>)"
    "k \<le> n" "0 < k"
proof
  let ?k = "min n (max 1 (nat (rlen S (reads g))))"
  show "sys_read S n g = (Some (take ?k (src g)), g\<lparr>src := drop ?k (src g), reads := reads g + 1\<rparr>)"
    using io_okD(1) [OF assms(1), of "reads g"] by (simp add: sys_read_def Let_def)
qed (use assms(2) in auto)

lemma write_buf_ok:
  assumes "io_ok S"
  shows "\<exists>k. write_buf S xs g = Return () (g\<lparr>sink := sink g @ xs, writes := k\<rparr>)"
proof (induction "length xs" arbitrary: xs g rule: less_induct)
  case less
  obtain n where n: "sys_write S xs g = (Some n, g\<lparr>sink := sink g @ take n xs, writes := writes g + 1\<rparr>)"
    "n \<le> length xs" "xs \<noteq> [] \<Longrightarrow> 0 < n" by (rule sys_write_ok [OF assms]) blast
  let ?h = "g\<lparr>sink := sink g @ take n xs, writes := writes g + 1\<rparr>"
  show ?case
  proof (cases "n = length xs")
    case True
    then show ?thesis by (intro exI [of _ "writes g + 1"]) (simp add: write_buf.simps [of S xs g] n(1))
  next
    case False
    then have "length (drop n xs) < length xs" using n(2,3) by (cases xs) auto
    then obtain k where "write_buf S (drop n xs) ?h = Return () (?h\<lparr>sink := sink ?h @ drop n xs, writes := k\<rparr>)"
      using less by blast
    then show ?thesis using False by (intro exI [of _ k]) (simp add: write_buf.simps [of S xs g] n(1))
  qed
qed

text \<open>What a write or a read leaves alone.\<close>

definition same_but_out :: "gz \<Rightarrow> gz \<Rightarrow> bool" where
  "same_but_out g h \<longleftrightarrow> (let e = (\<lambda>x. x\<lparr>outbuf := \<lambda>_. 0, outcnt := 0, sink := [], writes := 0, bytes_out := 0\<rparr>) in e g = e h)"

definition same_but_in :: "gz \<Rightarrow> gz \<Rightarrow> bool" where
  "same_but_in g h \<longleftrightarrow> (let e = (\<lambda>x. x\<lparr>src := [], reads := 0, inbuf := \<lambda>_. 0, insize := 0, inptr := 0, bytes_in := 0,
     outcnt := 0\<rparr>) in e g = e h)"

lemma same_but_out_trans: "same_but_out g h \<Longrightarrow> same_but_out h k \<Longrightarrow> same_but_out g k"
  by (simp add: same_but_out_def Let_def)

lemma same_but_in_trans: "same_but_in g h \<Longrightarrow> same_but_in h k \<Longrightarrow> same_but_in g k"
  by (simp add: same_but_in_def Let_def)

lemma same_but_outD:
  assumes "same_but_out g h"
  shows "bi_buf h = bi_buf g" "bi_valid h = bi_valid g" "crc_reg h = crc_reg g" "crc h = crc g" "test h = test g"
    "src h = src g" "bytes_in h = bytes_in g" "inbuf h = inbuf g" "window h = window g"
  using assms by (cases g; cases h; simp add: same_but_out_def Let_def)+

lemma same_but_inD:
  assumes "same_but_in g h"
  shows "window h = window g" "sink h = sink g" "writes h = writes g" "crc_reg h = crc_reg g" "test h = test g"
    "bytes_out h = bytes_out g" "bb h = bb g" "bk h = bk g" "hm h = hm g"
  using assms by (cases g; cases h; simp add: same_but_in_def Let_def)+

lemma flush_outbuf_ok:
  assumes "io_ok S"
  obtains h where "flush_outbuf S g = Return () h" "outstream h = outstream g" "outcnt h = 0" "same_but_out g h"
proof -
  obtain k where "write_buf S (get_array (outbuf g) 0 (outcnt g)) g =
      Return () (g\<lparr>sink := sink g @ get_array (outbuf g) 0 (outcnt g), writes := k\<rparr>)"
    using write_buf_ok [OF assms] by blast
  then show ?thesis using that by (cases "outcnt g = 0") (auto simp: flush_outbuf_def outstream_def same_but_out_def Let_def)
qed

lemma put_byte_ok:
  assumes "io_ok S" "outcnt g < OUTBUFSIZ"
  obtains h where "put_byte S c g = Return () h" "outstream h = outstream g @ [c]" "outcnt h < OUTBUFSIZ" "same_but_out g h"
proof -
  let ?g = "g\<lparr>outbuf := (outbuf g)(outcnt g := c), outcnt := outcnt g + 1\<rparr>"
  have s: "outstream ?g = outstream g @ [c]" "same_but_out g ?g" by (simp_all add: outstream_def same_but_out_def Let_def)
  show ?thesis
  proof (cases "outcnt ?g = OUTBUFSIZ")
    case True
    obtain h where "flush_outbuf S ?g = Return () h" "outstream h = outstream ?g" "outcnt h = 0" "same_but_out ?g h"
      by (rule flush_outbuf_ok [OF assms(1)])
    then show ?thesis using that s True same_but_out_trans by (simp add: put_byte_def Let_def OUTBUFSIZ_def)
  next
    case False
    then show ?thesis using that [of ?g] s assms(2) by (simp add: put_byte_def Let_def)
  qed
qed

lemma put_short_ok:
  assumes "io_ok S" "outcnt g < OUTBUFSIZ"
  obtains h where "put_short S w g = Return () h" "outcnt h < OUTBUFSIZ" "same_but_out g h"
    "outstream h = outstream g @ [ucast w, ucast (drop_bit 8 w)]"
proof -
  have m: "ucast (w AND 0xff) = (ucast w :: byte)"
  proof -
    have "(0xff :: 16 word) = mask 8" by (simp add: mask_eq_exp_minus_1)
    then show ?thesis by (simp only: take_bit_eq_mask [symmetric]) (auto intro!: bit_word_eqI simp: bit_simps)
  qed
  show ?thesis
  proof (cases "outcnt g < OUTBUFSIZ - 2")
    case True
    let ?h = "g\<lparr>outbuf := (outbuf g)(outcnt g := ucast w, outcnt g + 1 := ucast (drop_bit 8 w)), outcnt := outcnt g + 2\<rparr>"
    show ?thesis
    proof
      show "put_short S w g = Return () ?h" using True by (simp add: put_short_def m)
      show "outstream ?h = outstream g @ [ucast w, ucast (drop_bit 8 w)]" by (simp add: outstream_def numeral_2_eq_2)
    qed (use True in \<open>simp_all add: same_but_out_def\<close>)
  next
    case False
    obtain h where h: "put_byte S (ucast w) g = Return () h" "outstream h = outstream g @ [ucast w]"
      "outcnt h < OUTBUFSIZ" "same_but_out g h" by (rule put_byte_ok [OF assms])
    obtain k where "put_byte S (ucast (drop_bit 8 w)) h = Return () k" "outstream k = outstream h @ [ucast (drop_bit 8 w)]"
      "outcnt k < OUTBUFSIZ" "same_but_out h k" by (rule put_byte_ok [OF assms(1) h(3)])
    then show ?thesis using that h same_but_out_trans False by (simp add: put_short_def m)
  qed
qed

lemma flush_window_ok:
  assumes "io_ok S"
  obtains h where "flush_window S g = Return () h" "outcnt h = 0"
    "sink h = (if test g then sink g else sink g @ get_array (window g) 0 (outcnt g))"
    "crc_reg h = foldl crc_step (crc_reg g) (get_array (window g) 0 (outcnt g))"
    "h = g\<lparr>sink := sink h, writes := writes h, crc_reg := crc_reg h, bytes_out := bytes_out h, outcnt := 0\<rparr>"
    "bytes_out h = bytes_out g + of_nat (outcnt g)"
proof -
  let ?xs = "get_array (window g) 0 (outcnt g)" let ?g = "snd (gz_updcrc (Some ?xs) g)"
  have g: "?g = g\<lparr>crc_reg := foldl crc_step (crc_reg g) ?xs\<rparr>" by (simp add: gz_updcrc_def updcrc_def Let_def)
  obtain k where k: "write_buf S ?xs ?g = Return () (?g\<lparr>sink := sink ?g @ ?xs, writes := k\<rparr>)"
    using write_buf_ok [OF assms] by blast
  let ?h = "if outcnt g = 0 then g else (if test g then ?g else ?g\<lparr>sink := sink ?g @ ?xs, writes := k\<rparr>)
    \<lparr>bytes_out := bytes_out g + of_nat (outcnt g), outcnt := 0\<rparr>"
  have "flush_window S g = Return () ?h"
    using k by (cases "outcnt g = 0"; cases "test g") (simp_all add: flush_window_def g Let_def)
  then show ?thesis by (rule that) (cases "outcnt g = 0"; cases "test g"; simp add: g)+
qed

lemma fill_loop_ok:
  assumes "io_ok S" "insize g < INBUFSIZ"
  shows "\<exists>h. fill_loop S g = Return () h \<and> insize g \<le> insize h \<and> insize h \<le> INBUFSIZ \<and>
    (src g \<noteq> [] \<longrightarrow> insize g < insize h) \<and> inptr h = inptr g \<and> outcnt h = outcnt g \<and> same_but_in g h \<and>
    get_array (inbuf h) 0 (insize h) @ src h = get_array (inbuf g) 0 (insize g) @ src g"
  using assms(2)
proof (induction "INBUFSIZ - insize g" arbitrary: g rule: less_induct)
  case less
  have "0 < INBUFSIZ - insize g" using less.prems by simp
  then obtain k where r: "sys_read S (INBUFSIZ - insize g) g =
      (Some (take k (src g)), g\<lparr>src := drop k (src g), reads := reads g + 1\<rparr>)" "k \<le> INBUFSIZ - insize g" "0 < k"
    by (rule sys_read_ok [OF assms(1)]) blast
  let ?xs = "take k (src g)" let ?h = "g\<lparr>src := drop k (src g), reads := reads g + 1\<rparr>"
  let ?h' = "?h\<lparr>inbuf := put_array (insize g) ?xs (inbuf g), insize := insize g + length ?xs\<rparr>"
  note u = fill_loop.simps [of S g, unfolded r(1) prod.case option.case Let_def]
  show ?case
  proof (cases "src g = []")
    case True
    then show ?thesis using less.prems by (intro exI [of _ ?h]) (simp add: u same_but_in_def)
  next
    case False
    then have ne: "?xs \<noteq> []" using r(3) by simp
    then have up: "insize g < insize ?h'" by (simp flip: length_greater_0_conv)
    have le: "insize ?h' \<le> INBUFSIZ" using less.prems r(2) by simp
    have v: "get_array (inbuf ?h') 0 (insize ?h') @ src ?h' = get_array (inbuf g) 0 (insize g) @ src g"
      using get_put_array [of "insize g" ?xs "inbuf g"] by simp
    have s: "same_but_in g ?h'" by (simp add: same_but_in_def)
    show ?thesis
    proof (cases "insize ?h' < INBUFSIZ")
      case True
      have less': "INBUFSIZ - insize ?h' < INBUFSIZ - insize g" using up less.prems by linarith
      obtain h where h: "fill_loop S ?h' = Return () h" "insize ?h' \<le> insize h" "insize h \<le> INBUFSIZ"
        "inptr h = inptr g" "outcnt h = outcnt g" "same_but_in ?h' h"
        "get_array (inbuf h) 0 (insize h) @ src h = get_array (inbuf g) 0 (insize g) @ src g"
        using less.hyps [OF less' True] unfolding v by auto
      have "insize g < insize h" using up h(2) by (rule less_le_trans)
      then show ?thesis using h(1,3-) ne True same_but_in_trans [OF s] by (intro exI [of _ h]) (simp add: u)
    next
      case False
      then show ?thesis using u ne up le v s less.prems by (intro exI [of _ ?h']) simp
    qed
  qed
qed

lemma get_byte_ok:
  assumes "io_ok S" "instream g = x # xs" "insize g \<le> INBUFSIZ" "inptr g \<le> insize g"
  obtains h where "get_byte S g = Return (ucast x) h" "instream h = xs" "insize h \<le> INBUFSIZ"
    "inptr h \<le> insize h" "outcnt h = outcnt g" "same_but_in g h" "0 < inptr h" "inbuf h (inptr h - 1) = x"
proof (cases "inptr g < insize g")
  case True
  let ?h = "g\<lparr>inptr := inptr g + 1\<rparr>"
  have "inbuf g (inptr g) = x \<and> instream ?h = xs"
    using assms(2) get_array_Cons [OF True, of "inbuf g"] by (simp add: instream_def)
  then show ?thesis using that [of ?h] True assms(3) by (simp add: get_byte_def same_but_in_def)
next
  case False
  let ?g = "g\<lparr>insize := 0\<rparr>"
  have src: "src g = x # xs" using False assms(2,4) by (simp add: instream_def)
  obtain h where h: "fill_loop S ?g = Return () h" "insize h \<le> INBUFSIZ" "0 < insize h" "outcnt h = outcnt g"
    "same_but_in ?g h" "get_array (inbuf h) 0 (insize h) @ src h = x # xs"
    using fill_loop_ok [OF assms(1), of ?g] src by (auto simp: INBUFSIZ_def)
  let ?h = "h\<lparr>bytes_in := bytes_in h + of_nat (insize h), inptr := 1\<rparr>"
  have "get_byte S g = Return (ucast x) ?h" "instream ?h = xs" "inbuf h 0 = x"
    using h(1,3,6) False get_array_Cons [OF h(3), of "inbuf h"] by (auto simp: get_byte_def fill_inbuf_def instream_def)
  moreover have "same_but_in g ?h" using h(5) by (simp add: same_but_in_def)
  ultimately show ?thesis using that [of ?h] h by simp
qed

end
