(* ===== verification/SFI_Bits.thy ===== *)
theory SFI_Bits
  imports SFI_Gzip
begin

text \<open>
  Bit strings of the compression program (\<^verbatim>\<open>src/gzip-mod.c\<close>): \<^verbatim>\<open>send_bits\<close> collects codes of up to 16
  bits in a 16-bit buffer and writes it two bytes at a time, least significant bit first; the
  macros \<^verbatim>\<open>NEEDBITS\<close> and \<^verbatim>\<open>DUMPBITS\<close> of the decoder read from a 32-bit buffer. Both sides are related to
  a list of bits: sending appends to it, reading takes from it.
\<close>

unbundle bit_operations_syntax

section \<open>Lists of bits\<close>

definition bits_of :: "nat \<Rightarrow> 'a::len word \<Rightarrow> bool list" where
  "bits_of n w = map (bit w) [0..<n]"

definition bytes_bits :: "byte list \<Rightarrow> bool list" where
  "bytes_bits xs = concat (map (bits_of 8) xs)"

lemma length_bits_of [simp]: "length (bits_of n w) = n"
  by (simp add: bits_of_def)

lemma nth_bits_of [simp]: "i < n \<Longrightarrow> bits_of n w ! i = bit w i"
  by (simp add: bits_of_def)

lemma bits_of_0 [simp]: "bits_of 0 w = []"
  by (simp add: bits_of_def)

lemma bytes_bits_simps [simp]:
  "bytes_bits [] = []" "bytes_bits (x # xs) = bits_of 8 x @ bytes_bits xs"
  "bytes_bits (xs @ ys) = bytes_bits xs @ bytes_bits ys"
  by (simp_all add: bytes_bits_def)

lemma bits_of_add: "bits_of (m + n) w = bits_of m w @ bits_of n (drop_bit m w)"
  by (rule nth_equalityI) (auto simp: nth_append bit_simps)

lemma take_bits_of: "m \<le> n \<Longrightarrow> take m (bits_of n w) = bits_of m w"
  by (rule nth_equalityI) auto

lemma drop_bits_of: "drop m (bits_of n w) = bits_of (n - m) (drop_bit m w)"
  by (rule nth_equalityI) (auto simp: bit_simps add.commute)

lemma bits_of_eq_iff: "bits_of n v = bits_of n w \<longleftrightarrow> take_bit n v = take_bit n w"
  by (simp add: list_eq_iff_nth_eq bit_eq_iff bit_simps) (blast dest: bit_imp_le_length)

lemma bits_of_short: "bits_of 16 (w :: 16 word) = bytes_bits [ucast w, ucast (drop_bit 8 w)]"
  by (rule nth_equalityI) (auto simp: nth_append bit_simps)

section \<open>Sending\<close>

definition bi_init :: "gz \<Rightarrow> gz" where
  "bi_init g = g\<lparr>bi_buf := 0, bi_valid := 0\<rparr>"

text \<open>\<^verbatim>\<open>Buf_size\<close> is 16. \<^verbatim>\<open>bi_valid > Buf_size - length\<close> is a comparison of \<^verbatim>\<open>int\<close>.\<close>

definition send_bits :: "sysio \<Rightarrow> u32 \<Rightarrow> nat \<Rightarrow> gz \<Rightarrow> unit gzip" where
  "send_bits S value len g =
     (let buf = bi_buf g OR ucast (push_bit (bi_valid g) value)
      in if bi_valid g + len > 16
         then out_bind (put_short S buf (g\<lparr>bi_buf := buf\<rparr>)) (\<lambda>_ h.
           Return () (h\<lparr>bi_buf := drop_bit (16 - bi_valid h) (ucast value), bi_valid := bi_valid h + len - 16\<rparr>))
         else Return () (g\<lparr>bi_buf := buf, bi_valid := bi_valid g + len\<rparr>))"

text \<open>\<^verbatim>\<open>do { res |= code & 1; code >>= 1, res <<= 1; } while (--len > 0)\<close>: at least once.\<close>

fun bi_reverse_loop :: "nat \<Rightarrow> u32 \<Rightarrow> u32 \<Rightarrow> u32" where
  "bi_reverse_loop len code res =
     (let res = res OR (code AND 1); code = drop_bit 1 code; res = push_bit 1 res
      in if 1 < len then bi_reverse_loop (len - 1) code res else res)"

definition bi_reverse :: "u32 \<Rightarrow> nat \<Rightarrow> u32" where
  "bi_reverse code len = drop_bit 1 (bi_reverse_loop len code 0)"

definition bi_windup :: "sysio \<Rightarrow> gz \<Rightarrow> unit gzip" where
  "bi_windup S g =
     out_bind (if bi_valid g > 8 then put_short S (bi_buf g) g
               else if bi_valid g > 0 then put_byte S (ucast (bi_buf g)) g
               else Return () g)
       (\<lambda>_ h. Return () (h\<lparr>bi_buf := 0, bi_valid := 0\<rparr>))"

fun put_bytes :: "sysio \<Rightarrow> byte list \<Rightarrow> gz \<Rightarrow> unit gzip" where
  "put_bytes S [] g = Return () g"
| "put_bytes S (x # xs) g = out_bind (put_byte S x g) (\<lambda>_. put_bytes S xs)"

text \<open>The bytes \<^verbatim>\<open>buf[0..len-1]\<close> are a list.\<close>

definition copy_block :: "sysio \<Rightarrow> byte list \<Rightarrow> bool \<Rightarrow> gz \<Rightarrow> unit gzip" where
  "copy_block S buf header g =
     out_bind (bi_windup S g) (\<lambda>_ g1.
     out_bind (if header
               then out_bind (put_short S (of_nat (length buf)) g1) (\<lambda>_. put_short S (NOT (of_nat (length buf))))
               else Return () g1) (\<lambda>_.
     put_bytes S buf))"

section \<open>What was sent\<close>

definition zbits :: "gz \<Rightarrow> bool list" where
  "zbits g = bytes_bits (outstream g) @ bits_of (bi_valid g) (bi_buf g)"

definition bi_inv :: "gz \<Rightarrow> bool" where
  "bi_inv g \<longleftrightarrow> bi_valid g \<le> 16 \<and> take_bit (bi_valid g) (bi_buf g) = bi_buf g \<and> outcnt g < OUTBUFSIZ"

lemma not_bit_take: "take_bit n w = w \<Longrightarrow> n \<le> i \<Longrightarrow> \<not> bit (w :: 'a::len word) i"
  by (metis bit_take_bit_iff not_le)

lemma outstream_bi [simp]: "outstream (g\<lparr>bi_buf := x\<rparr>) = outstream g" "outstream (g\<lparr>bi_valid := k\<rparr>) = outstream g"
  by (simp_all add: outstream_def)

definition same_but_sent :: "gz \<Rightarrow> gz \<Rightarrow> bool" where
  "same_but_sent g h \<longleftrightarrow> same_but_out (g\<lparr>bi_buf := 0, bi_valid := 0\<rparr>) (h\<lparr>bi_buf := 0, bi_valid := 0\<rparr>)"

lemma same_but_sent_trans: "same_but_sent g h \<Longrightarrow> same_but_sent h k \<Longrightarrow> same_but_sent g k"
  unfolding same_but_sent_def by (rule same_but_out_trans)

lemma same_but_sentI: "same_but_out g h \<Longrightarrow> same_but_sent g h"
  by (cases g; cases h; simp add: same_but_sent_def same_but_out_def Let_def)

lemma same_but_sent_bi [simp]:
  "same_but_sent (g\<lparr>bi_buf := x\<rparr>) h = same_but_sent g h" "same_but_sent (g\<lparr>bi_valid := k\<rparr>) h = same_but_sent g h"
  "same_but_sent g (h\<lparr>bi_buf := x\<rparr>) = same_but_sent g h" "same_but_sent g (h\<lparr>bi_valid := k\<rparr>) = same_but_sent g h"
  "same_but_sent g g"
  by (simp_all add: same_but_sent_def same_but_out_def)

lemma same_but_sentD:
  assumes "same_but_sent g h"
  shows "crc_reg h = crc_reg g" "crc h = crc g" "test h = test g" "src h = src g" "bytes_in h = bytes_in g"
    "inbuf h = inbuf g" "window h = window g"
  using same_but_outD [OF assms [unfolded same_but_sent_def]] by simp_all

text \<open>A sender: it returns, its bits are appended, nothing but the output changes, and if \<open>al\<close> it ends
  at a byte boundary.\<close>

definition sends :: "bool \<Rightarrow> unit gzip \<Rightarrow> gz \<Rightarrow> bool list \<Rightarrow> bool" where
  "sends al r g xs \<longleftrightarrow> (\<exists>h. r = Return () h \<and> bi_inv h \<and> (al \<longrightarrow> bi_valid h = 0) \<and> zbits h = zbits g @ xs \<and> same_but_sent g h)"

lemma sends_Nil: "bi_inv g \<Longrightarrow> (al \<Longrightarrow> bi_valid g = 0) \<Longrightarrow> sends al (Return () g) g []"
  by (simp add: sends_def)

lemma sends_bind:
  assumes "sends a r g xs" "\<And>h. bi_inv h \<Longrightarrow> (a \<Longrightarrow> bi_valid h = 0) \<Longrightarrow> same_but_sent g h \<Longrightarrow> sends al (k h) h ys"
  shows "sends al (out_bind r (\<lambda>_. k)) g (xs @ ys)"
  using assms unfolding sends_def by (fastforce intro: same_but_sent_trans)

lemma send_bits_sends:
  assumes "io_ok S" "bi_inv g" "1 \<le> n" "n \<le> 16" "take_bit n v = v"
  shows "sends False (send_bits S v n g) g (bits_of n v)"
proof -
  let ?k = "bi_valid g"
  define buf where "buf = bi_buf g OR ucast (push_bit ?k v)"
  have k: "?k \<le> 16" "outcnt g < OUTBUFSIZ" "take_bit ?k (bi_buf g) = bi_buf g" using assms(2) by (simp_all add: bi_inv_def)
  have b: "bit buf i \<longleftrightarrow> i < 16 \<and> (if i < ?k then bit (bi_buf g) i else bit v (i - ?k))" for i
    using not_bit_take [OF k(3), of i] bit_imp_le_length [of "bi_buf g" i] by (auto simp: buf_def bit_simps)
  show ?thesis
  proof (cases "?k + n > 16")
    case True
    let ?g = "g\<lparr>bi_buf := buf\<rparr>"
    obtain h where h: "put_short S buf ?g = Return () h" "outcnt h < OUTBUFSIZ" "same_but_out ?g h"
      "outstream h = outstream ?g @ [ucast buf, ucast (drop_bit 8 buf)]"
      by (rule put_short_ok [OF assms(1), of ?g buf]) (use k(2) in auto)
    let ?h = "h\<lparr>bi_buf := drop_bit (16 - bi_valid h) (ucast v), bi_valid := bi_valid h + n - 16\<rparr>"
    have v: "bi_valid h = ?k" using same_but_outD(2) [OF h(3)] by simp
    have o: "outstream h = outstream g @ [ucast buf, ucast (drop_bit 8 buf)]"
      using h(4) by simp
    have "bits_of 16 buf @ bits_of (?k + n - 16) (drop_bit (16 - ?k) (ucast v :: 16 word)) = bits_of ?k (bi_buf g) @ bits_of n v"
      using True k(1) assms(4) by (intro nth_equalityI) (auto simp: nth_append b bit_simps)
    then have z: "zbits ?h = zbits g @ bits_of n v" by (simp add: zbits_def o v bits_of_short)
    have "take_bit (?k + n - 16) (drop_bit (16 - ?k) (ucast v)) = (drop_bit (16 - ?k) (ucast v) :: 16 word)"
    proof (rule bit_word_eqI)
      fix i
      have "bit v (16 - ?k + i) \<Longrightarrow> i < ?k + n - 16"
        using True k(1) not_bit_take [OF assms(5), of "16 - ?k + i"] by linarith
      then show "bit (take_bit (?k + n - 16) (drop_bit (16 - ?k) (ucast v :: 16 word))) i = bit (drop_bit (16 - ?k) (ucast v :: 16 word)) i"
        by (auto simp: bit_simps)
    qed
    then have "bi_inv ?h" using h(2) v assms(4) k(1) by (simp add: bi_inv_def)
    then show ?thesis using h(1) same_but_sentI [OF h(3)] z True
      by (auto simp: sends_def send_bits_def Let_def buf_def [symmetric])
  next
    case False
    let ?h = "g\<lparr>bi_buf := buf, bi_valid := ?k + n\<rparr>"
    have "bits_of (?k + n) buf = bits_of ?k (bi_buf g) @ bits_of n v"
      using False by (intro nth_equalityI) (auto simp: nth_append b)
    then have z: "zbits ?h = zbits g @ bits_of n v" by (simp add: zbits_def)
    have "take_bit (?k + n) buf = buf"
    proof (rule bit_word_eqI)
      fix i
      have "bit v (i - ?k) \<Longrightarrow> i < ?k + n" using not_bit_take [OF assms(5), of "i - ?k"] by linarith
      then show "bit (take_bit (?k + n) buf) i = bit buf i" by (auto simp: bit_simps b)
    qed
    then have "bi_inv ?h" using False k by (simp add: bi_inv_def)
    then show ?thesis using z False
      by (auto simp: sends_def send_bits_def Let_def buf_def [symmetric])
  qed
qed

lemma put_byte_sends:
  assumes "io_ok S" "bi_inv g" "bi_valid g = 0"
  shows "sends True (put_byte S c g) g (bits_of 8 c)"
proof -
  obtain h where h: "put_byte S c g = Return () h" "outstream h = outstream g @ [c]" "outcnt h < OUTBUFSIZ" "same_but_out g h"
    by (rule put_byte_ok [OF assms(1)]) (use assms(2) in \<open>auto simp: bi_inv_def\<close>)
  then show ?thesis using assms(2,3) same_but_outD [OF h(4)] same_but_sentI
    by (auto simp: sends_def zbits_def bi_inv_def)
qed

lemma put_short_sends:
  assumes "io_ok S" "bi_inv g" "bi_valid g = 0"
  shows "sends True (put_short S w g) g (bits_of 16 w)"
proof -
  obtain h where h: "put_short S w g = Return () h" "outcnt h < OUTBUFSIZ" "same_but_out g h"
    "outstream h = outstream g @ [ucast w, ucast (drop_bit 8 w)]"
    by (rule put_short_ok [OF assms(1)]) (use assms(2) in \<open>auto simp: bi_inv_def\<close>)
  then show ?thesis using assms(2,3) same_but_outD [OF h(3)] same_but_sentI
    by (auto simp: sends_def zbits_def bi_inv_def bits_of_short)
qed

text \<open>The end of an incomplete byte is filled with zeros.\<close>

definition pad :: "nat \<Rightarrow> bool list" where
  "pad n = replicate ((8 - n mod 8) mod 8) False"

lemma bi_windup_sends:
  assumes "io_ok S" "bi_inv g"
  shows "sends True (bi_windup S g) g (pad (bi_valid g))"
proof -
  let ?g = "g\<lparr>bi_buf := 0, bi_valid := 0\<rparr>"
  have k: "bi_valid g \<le> 16" "outcnt g < OUTBUFSIZ" "take_bit (bi_valid g) (bi_buf g) = bi_buf g"
    using assms(2) by (simp_all add: bi_inv_def)
  note nb = not_bit_take [OF k(3)]
  have done': ?thesis if "r = Return () h" "outcnt h < OUTBUFSIZ" "same_but_out g h" "bi_windup S g = out_bind r (\<lambda>_ h. Return () (h\<lparr>bi_buf := 0, bi_valid := 0\<rparr>))"
    "bytes_bits (outstream h) = zbits g @ pad (bi_valid g)" for r h
    using that same_but_sentI by (auto simp: sends_def bi_inv_def zbits_def)
  consider "bi_valid g > 8" | "bi_valid g \<le> 8" "bi_valid g > 0" | "bi_valid g = 0" by linarith
  then show ?thesis
  proof cases
    case 1
    obtain h where h: "put_short S (bi_buf g) g = Return () h" "outcnt h < OUTBUFSIZ" "same_but_out g h"
      "outstream h = outstream g @ [ucast (bi_buf g), ucast (drop_bit 8 (bi_buf g))]"
      by (rule put_short_ok [OF assms(1) k(2), of "bi_buf g"])
    have m: "(8 - bi_valid g mod 8) mod 8 = 16 - bi_valid g"
    proof -
      have "bi_valid g mod 8 = (if bi_valid g = 16 then 0 else bi_valid g - 8)"
        using 1 k(1) by (auto simp: mod_if [of "bi_valid g" 8])
      then show ?thesis using 1 k(1) by auto
    qed
    have "bits_of 16 (bi_buf g) = bits_of (bi_valid g) (bi_buf g) @ pad (bi_valid g)"
      using k(1) nb unfolding pad_def m by (intro nth_equalityI) (auto simp: nth_append)
    then show ?thesis using h 1 by (intro done' [OF h(1-3)]) (simp_all add: bi_windup_def zbits_def bits_of_short)
  next
    case 2
    obtain h where h: "put_byte S (ucast (bi_buf g)) g = Return () h" "outstream h = outstream g @ [ucast (bi_buf g)]"
      "outcnt h < OUTBUFSIZ" "same_but_out g h" by (rule put_byte_ok [OF assms(1) k(2), of "ucast (bi_buf g)"])
    have m: "(8 - bi_valid g mod 8) mod 8 = 8 - bi_valid g" using 2 by (cases "bi_valid g = 8") auto
    have "bits_of 8 (ucast (bi_buf g) :: byte) = bits_of (bi_valid g) (bi_buf g) @ pad (bi_valid g)"
      using 2 nb unfolding pad_def m by (intro nth_equalityI) (auto simp: nth_append bit_simps)
    then show ?thesis using h 2 by (intro done' [OF h(1,3,4)]) (simp_all add: bi_windup_def zbits_def)
  next
    case 3
    then show ?thesis using k by (intro done' [of "Return () g" g]) (simp_all add: bi_windup_def zbits_def pad_def same_but_out_def)
  qed
qed

lemma put_bytes_sends:
  "io_ok S \<Longrightarrow> bi_inv g \<Longrightarrow> bi_valid g = 0 \<Longrightarrow> sends True (put_bytes S xs g) g (bytes_bits xs)"
proof (induction xs arbitrary: g)
  case (Cons x xs)
  show ?case using Cons by (auto intro!: sends_bind put_byte_sends)
qed (simp add: sends_Nil)

lemma copy_block_sends:
  assumes "io_ok S" "bi_inv g"
  shows "sends True (copy_block S buf header g) g (pad (bi_valid g) @
    (if header then bits_of 16 (of_nat (length buf) :: 16 word) @ bits_of 16 (NOT (of_nat (length buf)) :: 16 word) else []) @
    bytes_bits buf)"
proof -
  have "sends True (if header
      then out_bind (put_short S (of_nat (length buf)) h) (\<lambda>_. put_short S (NOT (of_nat (length buf)))) else Return () h) h
    (if header then bits_of 16 (of_nat (length buf) :: 16 word) @ bits_of 16 (NOT (of_nat (length buf)) :: 16 word) else [])"
    if "bi_inv h" "bi_valid h = 0" for h
    using that assms(1) by (auto intro!: sends_bind put_short_sends sends_Nil)
  then show ?thesis
    unfolding copy_block_def using assms
    by (intro sends_bind [OF bi_windup_sends] sends_bind put_bytes_sends) auto
qed

section \<open>Reading\<close>

text \<open>The decoder keeps the window position in a local variable \<^verbatim>\<open>w\<close>; a refill stores it in \<^verbatim>\<open>wp\<close>.\<close>

definition NEXTBYTE :: "sysio \<Rightarrow> nat \<Rightarrow> gz \<Rightarrow> byte gzip" where
  "NEXTBYTE S w g =
     out_bind (if inptr g < insize g then Return (ucast (inbuf g (inptr g))) (g\<lparr>inptr := inptr g + 1\<rparr>)
               else fill_inbuf S False (g\<lparr>outcnt := w\<rparr>)) (\<lambda>c. Return (ucast (c :: u32)))"

type_synonym bitbuf = "u32 \<times> nat"  \<comment> \<open>\<^verbatim>\<open>b\<close> and \<^verbatim>\<open>k\<close>\<close>

function NEEDBITS :: "sysio \<Rightarrow> nat \<Rightarrow> nat \<Rightarrow> bitbuf \<Rightarrow> gz \<Rightarrow> bitbuf gzip" where
  "NEEDBITS S w n (b, k) g =
     (if k < n then out_bind (NEXTBYTE S w g) (\<lambda>c. NEEDBITS S w n (b OR push_bit k (ucast c), k + 8))
      else Return (b, k) g)"
  by pat_completeness auto
termination by (relation "measure (\<lambda>(S, w, n, (b, k), g). n - k)") auto

declare NEEDBITS.simps [simp del]

definition DUMPBITS :: "nat \<Rightarrow> bitbuf \<Rightarrow> bitbuf" where
  "DUMPBITS n = (\<lambda>(b, k). (drop_bit n b, k - n))"

section \<open>What is still to be read\<close>

definition ubits :: "bitbuf \<Rightarrow> gz \<Rightarrow> bool list" where
  "ubits = (\<lambda>(b, k) g. bits_of k b @ bytes_bits (instream g))"

text \<open>The last bits of the buffer are those of the byte that was read last.\<close>

definition last_read :: "bitbuf \<Rightarrow> gz \<Rightarrow> bool" where
  "last_read = (\<lambda>(b, k) g. 0 < k \<longrightarrow> 0 < inptr g \<and> (\<forall>i. i < 8 \<longrightarrow> i < k \<longrightarrow> bit b (k - 1 - i) = bit (inbuf g (inptr g - 1)) (7 - i)))"

lemma last_read_0 [simp]: "last_read (b, 0) g"
  by (simp add: last_read_def)

definition ready :: "bitbuf \<Rightarrow> gz \<Rightarrow> bool" where
  "ready = (\<lambda>(b, k) g. k \<le> 32 \<and> take_bit k b = b \<and> insize g \<le> INBUFSIZ \<and> inptr g \<le> insize g \<and> last_read (b, k) g)"

lemma NEXTBYTE_get: "NEXTBYTE S w g = out_bind (get_byte S (if inptr g < insize g then g else g\<lparr>outcnt := w\<rparr>)) (\<lambda>c. Return (ucast c))"
  by (simp add: NEXTBYTE_def get_byte_def)

lemma same_but_in_outcnt [simp]:
  "same_but_in (g\<lparr>outcnt := w\<rparr>) h = same_but_in g h" "same_but_in g (h\<lparr>outcnt := w\<rparr>) = same_but_in g h" "same_but_in g g"
  by (simp_all add: same_but_in_def Let_def)

lemma instream_outcnt [simp]: "instream (g\<lparr>outcnt := w\<rparr>) = instream g"
  by (simp add: instream_def)

lemma NEXTBYTE_ok:
  assumes "io_ok S" "instream g = x # xs" "insize g \<le> INBUFSIZ" "inptr g \<le> insize g"
  obtains h where "NEXTBYTE S w g = Return x h" "instream h = xs" "insize h \<le> INBUFSIZ" "inptr h \<le> insize h" "same_but_in g h"
    "0 < inptr h" "inbuf h (inptr h - 1) = x"
proof -
  let ?g = "if inptr g < insize g then g else g\<lparr>outcnt := w\<rparr>"
  obtain h where "get_byte S ?g = Return (ucast x) h" "instream h = xs" "insize h \<le> INBUFSIZ" "inptr h \<le> insize h" "same_but_in ?g h"
    "0 < inptr h" "inbuf h (inptr h - 1) = x"
    by (rule get_byte_ok [OF assms(1), of ?g x xs]) (use assms in auto)
  moreover have "ucast (ucast x :: u32) = x" by (rule bit_word_eqI) (auto simp: bit_simps)
  ultimately show ?thesis using that [of h] by (auto simp: NEXTBYTE_get split: if_splits)
qed

lemma NEEDBITS_ok:
  assumes "io_ok S" "ready (b, k) g" "n \<le> length (ubits (b, k) g)" "n \<le> 25"
  obtains b' k' h where "NEEDBITS S w n (b, k) g = Return (b', k') h" "n \<le> k'" "k \<le> k'" "ready (b', k') h"
    "ubits (b', k') h = ubits (b, k) g" "same_but_in g h" "k' \<le> max k (n + 7)"
  using assms(2-)
proof (induction "n - k" arbitrary: b k g thesis rule: less_induct)
  case less
  show ?case
  proof (cases "k < n")
    case False
    then show ?thesis using less.prems by (intro less.prems(1) [of b k g]) (auto simp: NEEDBITS.simps)
  next
    case True
    then obtain x xs where i: "instream g = x # xs"
      using less.prems(3) by (cases "instream g") (auto simp: ubits_def)
    have r: "k \<le> 32" "take_bit k b = b" "insize g \<le> INBUFSIZ" "inptr g \<le> insize g" using less.prems(2) by (simp_all add: ready_def)
    obtain h where h: "NEXTBYTE S w g = Return x h" "instream h = xs" "insize h \<le> INBUFSIZ" "inptr h \<le> insize h" "same_but_in g h"
      "0 < inptr h" "inbuf h (inptr h - 1) = x"
      by (rule NEXTBYTE_ok [OF assms(1) i r(3,4)])
    define b2 where "b2 = b OR push_bit k (ucast x)"
    have k8: "k + 8 \<le> 32" using True less.prems(4) by simp
    have bx: "bit b2 j \<longleftrightarrow> j < k + 8 \<and> (if j < k then bit b j else bit x (j - k))" for j
      using not_bit_take [OF r(2), of j] bit_imp_le_length [of x "j - k"] k8 by (auto simp: b2_def bit_simps)
    have "bits_of (k + 8) b2 = bits_of k b @ bits_of 8 x"
      by (intro nth_equalityI) (auto simp: nth_append bx)
    then have u: "ubits (b2, k + 8) h = ubits (b, k) g" using i h(2) by (simp add: ubits_def)
    have "take_bit (k + 8) b2 = b2" by (intro bit_word_eqI) (auto simp: bit_take_bit_iff bx)
    moreover have "last_read (b2, k + 8) h"
      unfolding last_read_def prod.case h(7)
    proof (intro impI conjI allI h(6))
      fix i :: nat assume "i < 8" "i < k + 8"
      then have "k + 8 - 1 - i < k + 8" "\<not> k + 8 - 1 - i < k" "k + 8 - 1 - i - k = 7 - i" by simp_all
      then show "bit b2 (k + 8 - 1 - i) = bit x (7 - i)" unfolding bx by simp
    qed
    ultimately have R: "ready (b2, k + 8) h" using h k8 by (simp add: ready_def)
    have lt: "n - (k + 8) < n - k" using True by simp
    obtain b' k' h' where h': "NEEDBITS S w n (b2, k + 8) h = Return (b', k') h'" "n \<le> k'" "k + 8 \<le> k'" "ready (b', k') h'"
      "ubits (b', k') h' = ubits (b2, k + 8) h" "same_but_in h h'" "k' \<le> max (k + 8) (n + 7)"
      by (rule less.hyps [OF lt _ R]) (use less.prems(3,4) u in auto)
    have "NEEDBITS S w n (b, k) g = Return (b', k') h'"
      using True h(1) h'(1) by (simp add: NEEDBITS.simps [of S w n b k g] b2_def)
    then show ?thesis using h'(2-5,7) u same_but_in_trans [OF h(5) h'(6)] True by (intro less.prems(1) [of b' k' h']) auto
  qed
qed

text \<open>Reading a value that comes next.\<close>

lemma bits_prefix:
  assumes "bits_of k b @ ys = bits_of n v @ zs" "n \<le> k"
  shows "take_bit n b = take_bit n v" "bits_of (k - n) (drop_bit n b) @ ys = zs"
proof -
  have "bits_of n b = bits_of n v" using arg_cong [OF assms(1), of "take n"] assms(2) by (simp add: take_bits_of)
  then show "take_bit n b = take_bit n v" by (simp add: bits_of_eq_iff)
  show "bits_of (k - n) (drop_bit n b) @ ys = zs"
    using arg_cong [OF assms(1), of "drop n"] assms(2) by (simp add: drop_bits_of)
qed

lemma DUMPBITS_ok:
  assumes "ready (b, k) g" "n \<le> k" "ubits (b, k) g = bits_of n (v :: u32) @ xs"
  shows "ready (DUMPBITS n (b, k)) g" "ubits (DUMPBITS n (b, k)) g = xs" "take_bit n b = take_bit n v"
proof -
  have r: "k \<le> 32" "take_bit k b = b" using assms(1) by (simp_all add: ready_def)
  have "take_bit (k - n) (drop_bit n b) = drop_bit n b"
  proof (rule bit_word_eqI)
    fix i
    have "bit b (n + i) \<Longrightarrow> i < k - n" using not_bit_take [OF r(2), of "n + i"] by linarith
    then show "bit (take_bit (k - n) (drop_bit n b)) i = bit (drop_bit n b) i" by (auto simp: bit_simps)
  qed
  moreover have "last_read (drop_bit n b, k - n) g"
  proof -
    have "n + (k - n - 1 - i) = k - 1 - i" if "i < k - n" for i using that by simp
    moreover have "0 < inptr g" "\<And>i. i < 8 \<Longrightarrow> i < k \<Longrightarrow> bit b (k - 1 - i) = bit (inbuf g (inptr g - 1)) (7 - i)" if "0 < k"
      using assms(1) that by (simp_all add: ready_def last_read_def)
    ultimately show ?thesis by (simp add: last_read_def bit_drop_bit_eq)
  qed
  ultimately show "ready (DUMPBITS n (b, k)) g" using assms(1) by (auto simp: ready_def DUMPBITS_def)
  show "ubits (DUMPBITS n (b, k)) g = xs" "take_bit n b = take_bit n v"
    using bits_prefix [of k b "bytes_bits (instream g)" n v xs] assms(2,3) by (simp_all add: ubits_def DUMPBITS_def)
qed

lemma get_bits:
  assumes "io_ok S" "ready B g" "ubits B g = bits_of n (v :: u32) @ xs" "n \<le> 16"
  obtains b k h where "NEEDBITS S w n B g = Return (b, k) h" "n \<le> k" "take_bit n b = take_bit n v"
    "ready (b, k) h" "ubits (b, k) h = ubits B g"
    "ready (DUMPBITS n (b, k)) h" "ubits (DUMPBITS n (b, k)) h = xs" "same_but_in g h"
    "k - n \<le> max 7 (snd B)"
proof -
  obtain b0 k0 where B: "B = (b0, k0)" by (cases B)
  obtain b k h where n: "NEEDBITS S w n B g = Return (b, k) h" "n \<le> k" "ready (b, k) h" "ubits (b, k) h = ubits B g" "same_but_in g h"
    "k \<le> max k0 (n + 7)"
    unfolding B by (rule NEEDBITS_ok [OF assms(1), of b0 k0 g n w]) (use assms(2-) B in auto)
  show ?thesis using that [OF n(1,2) _ n(3,4) _ _ n(5)] DUMPBITS_ok [OF n(3,2), of v xs] n(4,6) assms(3) B by simp
qed

section \<open>Sending and reading back\<close>

fun send_codes :: "sysio \<Rightarrow> (u32 \<times> nat) list \<Rightarrow> gz \<Rightarrow> unit gzip" where
  "send_codes S [] g = bi_windup S g"
| "send_codes S ((v, n) # cs) g = out_bind (send_bits S v n g) (\<lambda>_. send_codes S cs)"

fun read_codes :: "sysio \<Rightarrow> nat list \<Rightarrow> bitbuf \<Rightarrow> gz \<Rightarrow> u32 list gzip" where
  "read_codes S [] B g = Return [] g"
| "read_codes S (n # ns) B g =
     out_bind (NEEDBITS S 0 n B g) (\<lambda>(b, k) h.
       out_bind (read_codes S ns (DUMPBITS n (b, k)) h) (\<lambda>vs. Return ((b AND mask n) # vs)))"

definition codes_ok :: "(u32 \<times> nat) list \<Rightarrow> bool" where
  "codes_ok cs \<longleftrightarrow> (\<forall>(v, n) \<in> set cs. 1 \<le> n \<and> n \<le> 16 \<and> take_bit n v = v)"

definition codes_bits :: "(u32 \<times> nat) list \<Rightarrow> bool list" where
  "codes_bits cs = concat (map (\<lambda>(v, n). bits_of n v) cs)"

lemma send_codes_sends:
  "io_ok S \<Longrightarrow> bi_inv g \<Longrightarrow> codes_ok cs \<Longrightarrow> \<exists>ys. sends True (send_codes S cs g) g (codes_bits cs @ ys)"
proof (induction cs arbitrary: g)
  case Nil
  then show ?case using bi_windup_sends by (fastforce simp: codes_bits_def)
next
  case (Cons c cs)
  obtain v n where c: "c = (v, n)" by (cases c)
  have p: "1 \<le> n" "n \<le> 16" "take_bit n v = v" "codes_ok cs" using Cons.prems(3) by (auto simp: codes_ok_def c)
  obtain h where h: "send_bits S v n g = Return () h" "bi_inv h" "zbits h = zbits g @ bits_of n v" "same_but_sent g h"
    using send_bits_sends [OF Cons.prems(1,2) p(1-3)] by (auto simp: sends_def)
  obtain ys where "sends True (send_codes S cs h) h (codes_bits cs @ ys)" using Cons.IH [OF Cons.prems(1) h(2) p(4)] by blast
  then have "sends True (send_codes S (c # cs) g) g (codes_bits (c # cs) @ ys)"
    using h by (auto simp: sends_def c codes_bits_def intro: same_but_sent_trans)
  then show ?case by blast
qed

lemma read_codes_ok:
  "io_ok S \<Longrightarrow> ready B g \<Longrightarrow> codes_ok cs \<Longrightarrow> ubits B g = codes_bits cs @ ys \<Longrightarrow>
    \<exists>h. read_codes S (map snd cs) B g = Return (map fst cs) h"
proof (induction cs arbitrary: B g)
  case (Cons c cs)
  obtain v n where c: "c = (v, n)" by (cases c)
  have p: "n \<le> 16" "take_bit n v = v" "codes_ok cs" using Cons.prems(3) by (auto simp: codes_ok_def c)
  have u: "ubits B g = bits_of n v @ codes_bits cs @ ys" using Cons.prems(4) by (simp add: codes_bits_def c)
  obtain b k h where h: "NEEDBITS S 0 n B g = Return (b, k) h" "take_bit n b = take_bit n v"
    "ready (DUMPBITS n (b, k)) h" "ubits (DUMPBITS n (b, k)) h = codes_bits cs @ ys"
    by (rule get_bits [OF Cons.prems(1,2) u p(1)])
  show ?case using Cons.IH [OF Cons.prems(1) h(3) p(3) h(4)] h(1,2) p(2) by (auto simp: c take_bit_eq_mask)
qed simp

text \<open>Claim C40. Values sent with \<^verbatim>\<open>send_bits\<close>, however they straddle its 16-bit buffer and the output
  buffer, are read back by \<^verbatim>\<open>NEEDBITS\<close> and \<^verbatim>\<open>DUMPBITS\<close> from the bytes that were written, whatever sizes
  the kernel's reads and writes transfer.\<close>

theorem bits_roundtrip:
  assumes "io_ok S" "codes_ok cs" "sink g = []"
  shows "\<exists>h. send_codes S cs (bi_init (clear_bufs g)) = Return () h \<and>
    (\<forall>g'. instream g' = outstream h @ rest \<and> insize g' \<le> INBUFSIZ \<and> inptr g' \<le> insize g' \<longrightarrow>
      (\<exists>h'. read_codes S (map snd cs) (0, 0) g' = Return (map fst cs) h'))"
proof -
  let ?g = "bi_init (clear_bufs g)"
  have i: "bi_inv ?g" "zbits ?g = bytes_bits (sink g)"
    by (simp_all add: bi_inv_def zbits_def outstream_def bi_init_def clear_bufs_def OUTBUFSIZ_def)
  obtain ys h where h: "send_codes S cs ?g = Return () h" "bi_valid h = 0" "zbits h = bytes_bits (sink g) @ codes_bits cs @ ys"
    using send_codes_sends [OF assms(1) i(1) assms(2)] unfolding sends_def i(2) by auto
  then have d: "bytes_bits (outstream h) = codes_bits cs @ ys" using assms(3) by (simp add: zbits_def)
  show ?thesis
  proof (rule exI [of _ h], intro conjI allI impI h(1))
    fix g' assume g': "instream g' = outstream h @ rest \<and> insize g' \<le> INBUFSIZ \<and> inptr g' \<le> insize g'"
    then have "ready (0, 0) g'" by (simp add: ready_def)
    moreover have "ubits (0, 0) g' = codes_bits cs @ (ys @ bytes_bits rest)" using g' d by (simp add: ubits_def)
    ultimately show "\<exists>h'. read_codes S (map snd cs) (0, 0) g' = Return (map fst cs) h'"
      by (rule read_codes_ok [OF assms(1) _ assms(2)])
  qed
qed

definition fx_io :: sysio where
  "fx_io = \<lparr>rlen = \<lambda>i. int (i mod 3), wlen = \<lambda>i. int (i mod 5), hmalloc = \<lambda>_. True\<rparr>"

definition fx_gz :: "byte list \<Rightarrow> gz" where
  "fx_gz xs = \<lparr>src = xs, reads = 0, sink = [], writes = 0, inbuf = \<lambda>_. 0, insize = 0, inptr = 0, outbuf = \<lambda>_. 0,
     window = \<lambda>_. 0, outcnt = 0, crc_reg = 0xffffffff, crc = 0, bytes_in = 0, bytes_out = 0, test = False,
     bi_buf = 0, bi_valid = 0, bb = 0, bk = 0,
     hm = \<lparr>tabs = \<lambda>_ _. \<lparr>h_e = 0, h_b = 0, h_v = Vn 0\<rparr>, links = \<lambda>_. None, live = [], nalloc = 0, hufts = 0\<rparr>\<rparr>"

lemma fx_io_ok: "io_ok fx_io"
  by (simp add: io_ok_def fx_io_def)

theorem bits_roundtrip_witness:
  "\<exists>h. send_codes fx_io [(5, 3), (0x7fff, 15), (1, 1)] (bi_init (clear_bufs (fx_gz []))) = Return () h \<and>
    (\<exists>h'. read_codes fx_io [3, 15, 1] (0, 0) (fx_gz (outstream h)) = Return [5, 0x7fff, 1] h')"
proof -
  have c: "codes_ok [(5, 3), (0x7fff, 15), (1, 1)]" by (simp add: codes_ok_def)
  have g: "sink (fx_gz []) = []" by (simp add: fx_gz_def)
  have r: "instream (fx_gz xs) = xs @ [] \<and> insize (fx_gz xs) \<le> INBUFSIZ \<and> inptr (fx_gz xs) \<le> insize (fx_gz xs)" for xs
    by (simp add: fx_gz_def instream_def)
  show ?thesis using bits_roundtrip [OF fx_io_ok c g, of "[]"] r
    unfolding list.map fst_conv snd_conv by blast
qed

section \<open>Reversal\<close>

declare bi_reverse_loop.simps [simp del]

lemma bi_reverse_loop_bits:
  "len \<noteq> 0 \<Longrightarrow> \<not> bit res 0 \<Longrightarrow>
    bit (bi_reverse_loop len code res) i \<longleftrightarrow> i < 32 \<and> i \<noteq> 0 \<and> (if i \<le> len then bit code (len - i) else bit res (i - len))"
proof (induction len code res arbitrary: i rule: bi_reverse_loop.induct)
  case (1 len code res)
  let ?res = "push_bit 1 (res OR (code AND 1))"
  have r: "bit ?res j \<longleftrightarrow> j < 32 \<and> j \<noteq> 0 \<and> (if j = 1 then bit code 0 else bit res (j - 1))" for j
    using "1.prems"(2) by (simp only: bit_push_bit_iff bit_or_iff bit_and_iff bit_1_iff) (auto simp: possible_bit_word)
  show ?case
  proof (cases "1 < len")
    case True
    have "bit (bi_reverse_loop (len - 1) (drop_bit 1 code) ?res) i \<longleftrightarrow>
      i < 32 \<and> i \<noteq> 0 \<and> (if i \<le> len - 1 then bit (drop_bit 1 code) (len - 1 - i) else bit ?res (i - (len - 1)))"
      using "1.IH" [OF refl refl refl True, of i] True r [of 0] by simp
    also have "\<dots> \<longleftrightarrow> i < 32 \<and> i \<noteq> 0 \<and> (if i \<le> len then bit code (len - i) else bit res (i - len))"
      unfolding r using True by (auto simp: bit_simps le_eq_less_or_eq Suc_diff_le Suc_diff_Suc)
    finally show ?thesis using True by (simp only: bi_reverse_loop.simps [of len code res] Let_def if_True)
  next
    case False
    then have len: "len = 1" using "1.prems"(1) by simp
    have "bi_reverse_loop len code res = ?res"
      using False by (simp only: bi_reverse_loop.simps [of len code res] Let_def if_False)
    then show ?thesis unfolding len using r [of i]
      by (auto simp: le_Suc_eq)
  qed
qed

lemma bi_reverse_bits:
  assumes "1 \<le> n" "n \<le> 16"
  shows "bit (bi_reverse code n) i \<longleftrightarrow> i < n \<and> bit code (n - 1 - i)"
  using bi_reverse_loop_bits [of n 0 code "1 + i"] assms by (auto simp: bi_reverse_def bit_simps)

lemma bi_reverse_rev:
  assumes "1 \<le> n" "n \<le> 16"
  shows "bits_of n (bi_reverse code n) = rev (bits_of n code)" "take_bit n (bi_reverse code n) = bi_reverse code n"
proof -
  show "bits_of n (bi_reverse code n) = rev (bits_of n code)"
    by (rule nth_equalityI) (auto simp: bi_reverse_bits [OF assms] rev_nth)
  show "take_bit n (bi_reverse code n) = bi_reverse code n"
    by (rule bit_word_eqI) (auto simp: bit_simps bi_reverse_bits [OF assms])
qed

end
