(* ===== verification/SFI_Huft.thy ===== *)
theory SFI_Huft
  imports SFI_Bits
begin

text \<open>
  The construction of the decoder's multi-level lookup tables, \<^verbatim>\<open>huft_build\<close> in \<^verbatim>\<open>src/gzip-mod.c\<close>, one
  definition for each of its loops. Arrays of counters are functions; codes are 32-bit words, as
  their reversed increment is bitwise. A table is known by a number, and the kernel's parameter
  says which allocations succeed.
\<close>

unbundle bit_operations_syntax

definition BMAX :: nat where "BMAX = 16"

section \<open>Building the lookup tables\<close>

text \<open>The counts of each length, the shortest and the longest length in use.\<close>

definition count_lengths :: "nat list \<Rightarrow> nat \<Rightarrow> nat" where
  "count_lengths b = foldl (\<lambda>c l. c(l := c l + 1)) (\<lambda>_. 0) b"

function first_length :: "(nat \<Rightarrow> nat) \<Rightarrow> nat \<Rightarrow> nat" where
  "first_length c j = (if j \<le> BMAX \<and> c j = 0 then first_length c (j + 1) else j)"
  by pat_completeness auto
termination by (relation "measure (\<lambda>(c, j). BMAX + 1 - j)") auto

fun last_length :: "(nat \<Rightarrow> nat) \<Rightarrow> nat \<Rightarrow> nat" where
  "last_length c 0 = 0"
| "last_length c (Suc i) = (if c (Suc i) \<noteq> 0 then Suc i else last_length c i)"

text \<open>\<^verbatim>\<open>for (y = 1 << j; j < i; j++, y <<= 1) if ((y -= c[j]) < 0) return 2;\<close> and the test after it;
  \<^verbatim>\<open>y\<close> is the number of codes that are missing.\<close>

function missing_codes :: "(nat \<Rightarrow> nat) \<Rightarrow> nat \<Rightarrow> nat \<Rightarrow> int \<Rightarrow> int option" where
  "missing_codes c j i y =
     (let y = y - int (c j)
      in if y < 0 then None else if j < i then missing_codes c (j + 1) i (2 * y) else Some y)"
  by pat_completeness auto
termination by (relation "measure (\<lambda>(c, j, i, y). i - j)") auto

text \<open>The offsets into the value table, and the values in order of their lengths.\<close>

fun length_offsets :: "(nat \<Rightarrow> nat) \<Rightarrow> nat \<Rightarrow> nat \<Rightarrow> nat \<Rightarrow> (nat \<Rightarrow> nat) \<Rightarrow> nat \<Rightarrow> nat" where
  "length_offsets c 0 j p x = x"
| "length_offsets c (Suc i) j p x = (let j = j + c p in length_offsets c i j (p + 1) (x(p + 1 := j)))"

fun sort_values :: "nat list \<Rightarrow> nat \<Rightarrow> (nat \<Rightarrow> nat) \<Rightarrow> (nat \<Rightarrow> nat) \<Rightarrow> (nat \<Rightarrow> nat) \<times> (nat \<Rightarrow> nat)" where
  "sort_values [] i x v = (x, v)"
| "sort_values (l # b) i x v =
     (if l \<noteq> 0 then sort_values b (i + 1) (x(l := x l + 1)) (v(x l := i)) else sort_values b (i + 1) x v)"

text \<open>\<^verbatim>\<open>while (++j < z) { if ((f <<= 1) <= *++xp) break; f -= *xp; }\<close>\<close>

function table_bits :: "(nat \<Rightarrow> nat) \<Rightarrow> nat \<Rightarrow> nat \<Rightarrow> nat \<Rightarrow> nat \<Rightarrow> nat" where
  "table_bits c z j f xp =
     (let j = j + 1
      in if j < z then (let f = 2 * f; xp = xp + 1 in if f \<le> c xp then j else table_bits c z j (f - c xp) xp) else j)"
  by pat_completeness auto
termination by (relation "measure (\<lambda>(c, z, j, f, xp). z - j)") auto

text \<open>The number of bits of a new table for codes from length \<open>k\<close>, of which \<open>a + 1\<close> are left, after \<open>w\<close>
  bits were used, at most \<open>l\<close>; \<open>g\<close> is the longest length.\<close>

definition new_table_bits :: "(nat \<Rightarrow> nat) \<Rightarrow> nat \<Rightarrow> nat \<Rightarrow> nat \<Rightarrow> nat \<Rightarrow> nat \<Rightarrow> nat" where
  "new_table_bits c g l w k a =
     (let z = (if g - w > l then l else g - w); j = k - w; f = 2 ^ j
      in if f > a + 1 then (if j < z then table_bits c z j (f - (a + 1)) k else j) else j)"

definition table_alloc :: "sysio \<Rightarrow> nat \<Rightarrow> nat option \<Rightarrow> gz \<Rightarrow> (nat option \<times> gz)" where
  "table_alloc S z prev g =
     (let m = hm g; q = nalloc m
      in if hmalloc S q
         then (Some q, g\<lparr>hm := m\<lparr>nalloc := q + 1, live := q # live m, hufts := hufts m + z + 1,
                links := (case prev of None \<Rightarrow> links m | Some r \<Rightarrow> (links m)(r := Some q))(q := None)\<rparr>\<rparr>)
         else (None, g\<lparr>hm := m\<lparr>nalloc := q + 1\<rparr>\<rparr>))"

definition set_entry :: "nat \<Rightarrow> nat \<Rightarrow> huft \<Rightarrow> gz \<Rightarrow> gz" where
  "set_entry q j r g = g\<lparr>hm := (hm g)\<lparr>tabs := (tabs (hm g))(q := (tabs (hm g) q)(j := r))\<rparr>\<rparr>"

text \<open>\<^verbatim>\<open>huft_free\<close> follows the list; freeing a block that is not allocated would be undefined.\<close>

function huft_free :: "nat option \<Rightarrow> gz \<Rightarrow> unit gzip" where
  "huft_free None g = Return () g"
| "huft_free (Some p) g =
     (if p \<in> set (live (hm g))
      then huft_free (links (hm g) p) (g\<lparr>hm := (hm g)\<lparr>live := remove1 p (live (hm g))\<rparr>\<rparr>)
      else Halt (Out_of_bounds (int p)))"
  by pat_completeness auto
termination
  by (relation "measure (\<lambda>(t, g). length (live (hm g)) + (if t = None then 0 else 1))")
    (auto simp: length_remove1 intro!: diff_less length_pos_if_in_set split: if_splits)

text \<open>The variables of the main loop: the current code \<^verbatim>\<open>i\<close> with its bits reversed, the next value \<^verbatim>\<open>p\<close>,
  the level \<^verbatim>\<open>h\<close> and the bits \<^verbatim>\<open>w\<close> before it, the stack of tables \<^verbatim>\<open>u\<close> and of codes \<^verbatim>\<open>x\<close>, the table \<^verbatim>\<open>q\<close>
  with its size \<^verbatim>\<open>z\<close>, the entry \<^verbatim>\<open>r\<close>, the result \<^verbatim>\<open>*t\<close> and the table whose link comes next.\<close>

record build =
  b_i :: u32
  b_p :: nat
  b_h :: int
  b_w :: int
  b_u :: "nat \<Rightarrow> nat"
  b_x :: "nat \<Rightarrow> u32"
  b_q :: nat
  b_z :: nat
  b_r :: huft
  b_t :: "nat option"
  b_last :: "nat option"

text \<open>\<^verbatim>\<open>while (k > w + l)\<close>, with the memory ran out as \<open>None\<close>.\<close>

function make_tables :: "sysio \<Rightarrow> (nat \<Rightarrow> nat) \<Rightarrow> nat \<Rightarrow> nat \<Rightarrow> nat \<Rightarrow> nat \<Rightarrow> build \<Rightarrow> gz \<Rightarrow> build option gzip" where
  "make_tables S c g l k a st gz =
     (if \<not> int k > b_w st + int l then Return (Some st) gz
      else if l = 0 then Halt Unterminated
      else let h = b_h st + 1; w = b_w st + int l; j = new_table_bits c g l (nat w) k a; z = 2 ^ j
        in case table_alloc S z (b_last st) gz of
          (None, gz) \<Rightarrow> out_bind (if h \<noteq> 0 then huft_free (Some (b_u st 0)) gz else Return () gz) (\<lambda>_. Return None)
        | (Some q, gz) \<Rightarrow>
            let st = st\<lparr>b_h := h, b_w := w, b_z := z, b_q := q, b_u := (b_u st)(nat h := q), b_last := Some q,
                b_t := (if b_last st = None then Some q else b_t st)\<rparr>
            in if h = 0 then make_tables S c g l k a st gz
              else let r = \<lparr>h_e = 16 + j, h_b = l, h_v = Vt q\<rparr>
                in make_tables S c g l k a (st\<lparr>b_x := (b_x st)(nat h := b_i st), b_r := r\<rparr>)
                  (set_entry (b_u st (nat (h - 1))) (unat (drop_bit (nat (w - int l)) (b_i st))) r gz))"
  by pat_completeness auto
termination
  by (relation "measure (\<lambda>(S, c, g, l, k, a, st, gz). nat (int k - b_w st - int l))") (auto simp: Let_def)

text \<open>The entry for the next value: 99 when there is none left.\<close>

definition code_entry :: "(nat \<Rightarrow> nat) \<Rightarrow> nat \<Rightarrow> nat \<Rightarrow> nat list \<Rightarrow> nat list \<Rightarrow> nat \<Rightarrow> build \<Rightarrow> build" where
  "code_entry v n s d e k st =
     (let b = nat (int k - b_w st); p = b_p st
      in if p \<ge> n then st\<lparr>b_r := (b_r st)\<lparr>h_b := b, h_e := 99\<rparr>\<rparr>
         else if v p < s
         then st\<lparr>b_r := \<lparr>h_e = (if v p < 256 then 16 else 15), h_b = b, h_v = Vn (of_nat (v p))\<rparr>, b_p := p + 1\<rparr>
         else st\<lparr>b_r := \<lparr>h_e = e ! (v p - s), h_b = b, h_v = Vn (of_nat (d ! (v p - s)))\<rparr>, b_p := p + 1\<rparr>)"

text \<open>\<^verbatim>\<open>for (j = i >> w; j < z; j += f) q[j] = r;\<close> with \<open>f = 2 ^ b\<close>.\<close>

function fill_entries :: "nat \<Rightarrow> nat \<Rightarrow> nat \<Rightarrow> nat \<Rightarrow> huft \<Rightarrow> gz \<Rightarrow> gz" where
  "fill_entries j z b q r gz = (if j < z then fill_entries (j + 2 ^ b) z b q r (set_entry q j r gz) else gz)"
  by pat_completeness auto
termination by (relation "measure (\<lambda>(j, z, b, q, r, gz). z - j)") (auto intro!: diff_less_mono2)

text \<open>Adding one to a code whose bits are reversed, from its last bit \<^verbatim>\<open>j\<close> up.\<close>

function next_code :: "u32 \<Rightarrow> u32 \<Rightarrow> u32" where
  "next_code i j = (if i AND j \<noteq> 0 then next_code (i XOR j) (drop_bit 1 j) else i XOR j)"
  by pat_completeness auto
termination
proof (relation "measure (\<lambda>(i, j). unat j)")
  fix i j :: u32 assume "i AND j \<noteq> 0"
  then have "0 < unat j" by (auto simp: unat_gt_0)
  moreover have "unat (drop_bit 1 j) = unat j div 2" by (simp only: unat_drop_bit_eq) (simp add: drop_bit_eq_div)
  ultimately have "unat (drop_bit 1 j) < unat j" by linarith
  then show "((i XOR j, drop_bit 1 j), i, j) \<in> measure (\<lambda>(i, j). unat j)" by simp
qed simp

function back_up :: "nat \<Rightarrow> build \<Rightarrow> gz \<Rightarrow> build gzip" where
  "back_up l st gz =
     (if b_h st < 0 then Halt (Out_of_bounds (b_h st))
      else if b_i st AND mask (nat (b_w st)) \<noteq> b_x st (nat (b_h st))
      then back_up l (st\<lparr>b_h := b_h st - 1, b_w := b_w st - int l\<rparr>) gz
      else Return st gz)"
  by pat_completeness auto
termination by (relation "measure (\<lambda>(l, st, gz). nat (b_h st + 1))") auto

declare first_length.simps [simp del] missing_codes.simps [simp del] table_bits.simps [simp del]
declare make_tables.simps [simp del] fill_entries.simps [simp del] next_code.simps [simp del] back_up.simps [simp del]

text \<open>\<^verbatim>\<open>while (a--)\<close> and the loop over the lengths.\<close>

record build_args =
  a_c :: "nat \<Rightarrow> nat"
  a_g :: nat
  a_l :: nat
  a_v :: "nat \<Rightarrow> nat"
  a_n :: nat
  a_s :: nat
  a_d :: "nat list"
  a_e :: "nat list"

fun codes_loop :: "sysio \<Rightarrow> build_args \<Rightarrow> nat \<Rightarrow> nat \<Rightarrow> build \<Rightarrow> gz \<Rightarrow> build option gzip" where
  "codes_loop S A k 0 st gz = Return (Some st) gz"
| "codes_loop S A k (Suc a) st gz =
     out_bind (make_tables S (a_c A) (a_g A) (a_l A) k a st gz) (\<lambda>r gz.
       case r of
         None \<Rightarrow> Return None gz
       | Some st \<Rightarrow>
           let st = code_entry (a_v A) (a_n A) (a_s A) (a_d A) (a_e A) k st;
             gz = fill_entries (unat (drop_bit (nat (b_w st)) (b_i st))) (b_z st) (nat (int k - b_w st)) (b_q st) (b_r st) gz
           in out_bind (back_up (a_l A) (st\<lparr>b_i := next_code (b_i st) (push_bit (k - 1) 1)\<rparr>) gz)
             (codes_loop S A k a))"

function lengths_loop :: "sysio \<Rightarrow> build_args \<Rightarrow> nat \<Rightarrow> build \<Rightarrow> gz \<Rightarrow> build option gzip" where
  "lengths_loop S A k st gz =
     (if k \<le> a_g A
      then out_bind (codes_loop S A k (a_c A k) st gz) (\<lambda>r.
        case r of None \<Rightarrow> Return None | Some st \<Rightarrow> lengths_loop S A (k + 1) st)
      else Return (Some st) gz)"
  by pat_completeness auto
termination by (relation "measure (\<lambda>(S, A, k, st, gz). a_g A + 1 - k)") auto

declare lengths_loop.simps [simp del]

definition empty_build :: "nat \<Rightarrow> build" where
  "empty_build l = \<lparr>b_i = 0, b_p = 0, b_h = -1, b_w = - int l, b_u = \<lambda>_. 0, b_x = \<lambda>_. 0, b_q = 0, b_z = 0,
     b_r = \<lparr>h_e = 0, h_b = 0, h_v = Vn 0\<rparr>, b_t = None, b_last = None\<rparr>"

text \<open>The result: the return value, the table (none for the null pointer) and the actual lookup bits.\<close>

definition huft_build ::
  "sysio \<Rightarrow> nat list \<Rightarrow> nat \<Rightarrow> nat list \<Rightarrow> nat list \<Rightarrow> nat \<Rightarrow> gz \<Rightarrow> (nat \<times> nat option \<times> nat) gzip" where
  "huft_build S b s d e m gz =
     (let c = count_lengths b
      in if c 0 = length b then Return (0, None, 0) gz
         else let j = first_length c 1; k = j; i = last_length c BMAX; g = i;
           l = (if m < j then j else m); l = (if l > i then i else l)
         in case missing_codes c j i (2 ^ j) of
              None \<Rightarrow> Return (2, None, l) gz
            | Some y \<Rightarrow>
                let c = c(i := c i + nat y);
                  x = length_offsets c (i - 1) 0 1 ((\<lambda>_. 0)(1 := 0));
                  (x, v) = sort_values b 0 x (\<lambda>_. 0);
                  A = \<lparr>a_c = c, a_g = g, a_l = l, a_v = v, a_n = x g, a_s = s, a_d = d, a_e = e\<rparr>
                in out_bind (lengths_loop S A k (empty_build l) gz) (\<lambda>r gz.
                     case r of
                       None \<Rightarrow> Return (3, None, l) gz
                     | Some st \<Rightarrow> Return (if y \<noteq> 0 \<and> g \<noteq> 1 then 1 else 0, b_t st, l) gz))"

end
