(* ===== verification/SFI_Huft_Props.thy ===== *)
theory SFI_Huft_Props
  imports SFI_Huft
begin

text \<open>
  The tables that \<^verbatim>\<open>huft_build\<close> makes. A code of length \<open>k\<close> stands for the interval of all \<open>g\<close>-bit
  numbers that begin with it, where \<open>g\<close> is the longest length; in the order in which the program
  takes them the codes cover the numbers from 0 up without a gap. A table stands for the interval of
  its prefix. The invariant of the main loop says that every table answers correctly for the numbers
  below the frontier, and that the tables on the stack are those whose intervals contain it.
\<close>

unbundle bit_operations_syntax

section \<open>Numbers and reversed codes\<close>

definition rv :: "nat \<Rightarrow> nat \<Rightarrow> u32" where
  "rv g N = horner_sum of_bool 2 (map (\<lambda>t. bit N (g - 1 - t)) [0..<g])"

lemma bit_rv: "g \<le> 32 \<Longrightarrow> bit (rv g N) t \<longleftrightarrow> t < g \<and> bit N (g - 1 - t)"
  by (auto simp: rv_def bit_horner_sum_bit_iff possible_bit_word)

lemma nat_bit_less: "bit (N :: nat) i \<Longrightarrow> N < 2 ^ g \<Longrightarrow> i < g"
  by (metis bit_take_bit_iff take_bit_nat_eq_self_iff)

lemma rv_0: "rv g 0 = 0"
  by (simp add: rv_def horner_sum_eq_sum)

lemma rv_prefix:
  assumes "g \<le> 32" "k \<le> g" "N < 2 ^ g" "M < 2 ^ g"
  shows "take_bit k (rv g N) = take_bit k (rv g M) \<longleftrightarrow> N div 2 ^ (g - k) = M div 2 ^ (g - k)"
proof
  assume e: "take_bit k (rv g N) = take_bit k (rv g M)"
  have b: "bit N (g - k + n) = bit M (g - k + n)" for n
  proof (cases "n < k")
    case True
    then have "g - 1 - (k - 1 - n) = g - k + n" "k - 1 - n < g" using assms(2) by simp_all
    then show ?thesis using arg_cong [OF e, of "\<lambda>w. bit w (k - 1 - n)"] True assms(1,2)
      by (simp add: bit_take_bit_iff bit_rv)
  next
    case False
    then show ?thesis using nat_bit_less [of N "g - k + n" g] nat_bit_less [of M "g - k + n" g] assms by auto
  qed
  then show "N div 2 ^ (g - k) = M div 2 ^ (g - k)"
    by (simp flip: drop_bit_eq_div add: bit_eq_iff bit_simps)
next
  assume "N div 2 ^ (g - k) = M div 2 ^ (g - k)"
  then have d: "drop_bit (g - k) N = drop_bit (g - k) M" by (simp add: drop_bit_eq_div)
  have "bit N (g - 1 - t) = bit M (g - 1 - t)" if "t < k" for t
  proof -
    have "g - 1 - t = g - k + (k - 1 - t)" using that assms(2) by simp
    then show ?thesis using arg_cong [OF d, of "\<lambda>x. bit x (k - 1 - t)"] by (simp add: bit_simps)
  qed
  then show "take_bit k (rv g N) = take_bit k (rv g M)"
    using assms(1,2) by (intro bit_word_eqI) (auto simp: bit_take_bit_iff bit_rv)
qed

lemma rv_aligned:
  assumes "g \<le> 32" "k \<le> g" "2 ^ (g - k) dvd N"
  shows "take_bit k (rv g N) = rv g N"
proof (rule bit_word_eqI)
  fix t
  have "\<not> bit N (g - 1 - t)" if "k \<le> t" "t < g"
  proof -
    have "take_bit (g - k) N = 0" using assms(3) by (simp add: take_bit_eq_mod)
    then have "\<not> bit (take_bit (g - k) N) (g - 1 - t)" by simp
    then show ?thesis using that unfolding bit_take_bit_iff by auto
  qed
  then show "bit (take_bit k (rv g N)) t = bit (rv g N) t"
    using assms(1) by (cases "k \<le> t") (auto simp: bit_take_bit_iff bit_rv)
qed

lemma rv_wrap: "g \<le> 32 \<Longrightarrow> rv g (N + 2 ^ g) = rv g N"
proof (rule bit_word_eqI)
  fix t assume "g \<le> 32"
  have "take_bit g (N + 2 ^ g) = take_bit g N" by (simp add: take_bit_eq_mod)
  then have "bit (N + 2 ^ g) i = bit N i" if "i < g" for i
    using that by (metis bit_take_bit_iff)
  then show "bit (rv g (N + 2 ^ g)) t = bit (rv g N) t" using \<open>g \<le> 32\<close> by (auto simp: bit_rv)
qed

lemma rv_xor:
  assumes "g \<le> 32" "1 \<le> k" "k \<le> g"
  shows "rv g N XOR push_bit (k - 1) 1 = rv g (N XOR 2 ^ (g - k))"
  using assms by (intro bit_word_eqI) (auto simp: bit_simps bit_rv bit_exp_iff possible_bit_def)

lemma xor_exp_clear: "\<not> bit (M :: nat) n \<Longrightarrow> M XOR 2 ^ n = M + 2 ^ n"
  by (simp add: disjunctive_add_eq_xor and_exp_eq_0_iff_not_bit)

lemma xor_exp_set:
  assumes "bit (N :: nat) n" shows "N = (N XOR 2 ^ n) + 2 ^ n"
proof -
  have "\<not> bit (N XOR 2 ^ n) n" using assms by (simp add: bit_simps)
  then have "(N XOR 2 ^ n) XOR 2 ^ n = (N XOR 2 ^ n) + 2 ^ n" by (rule xor_exp_clear)
  then show ?thesis by (simp add: xor.assoc)
qed

text \<open>The increment carries through the reversed bits.\<close>

lemma next_code_rv:
  assumes "g \<le> 32"
  shows "k \<le> g \<Longrightarrow> 2 ^ (g - k) dvd N \<Longrightarrow>
    next_code (rv g N) (if k = 0 then 0 else push_bit (k - 1) 1) = rv g (N + 2 ^ (g - k))"
proof (induction k arbitrary: N)
  case 0
  then show ?case using rv_wrap [OF assms] by (simp add: next_code.simps)
next
  case (Suc k)
  let ?j = "push_bit k 1 :: u32" and ?D = "2 ^ (g - Suc k) :: nat"
  have "rv g N AND ?j \<noteq> 0 \<longleftrightarrow> bit (rv g N) k"
    using Suc.prems(1) assms by (simp add: push_bit_eq_mult and_exp_eq_0_iff_not_bit)
  then have c: "rv g N AND ?j \<noteq> 0 \<longleftrightarrow> bit N (g - Suc k)" using Suc.prems(1) assms by (simp add: bit_rv)
  have x: "rv g N XOR ?j = rv g (N XOR ?D)" using rv_xor [OF assms, of "Suc k" N] Suc.prems(1) by simp
  have gk: "2 ^ (g - k) = 2 * ?D" using Suc.prems(1) by (simp flip: power_Suc add: Suc_diff_Suc)
  show ?case
  proof (cases "bit N (g - Suc k)")
    case True
    let ?M = "N XOR ?D"
    have M: "N = (N XOR ?D) + ?D" by (rule xor_exp_set [OF True])
    obtain q where q: "N = ?D * q" using Suc.prems(2) by blast
    then have "odd q" using True by (simp add: bit_iff_odd)
    then obtain r where "q = 2 * r + 1" by (auto elim: oddE)
    then have "?M = 2 * ?D * r" using M q by simp
    then have d: "2 ^ (g - k) dvd ?M" unfolding gk by simp
    have "drop_bit 1 ?j = (if k = 0 then 0 else push_bit (k - 1) 1)"
      using Suc.prems(1) assms by (intro bit_word_eqI) (auto simp: bit_simps bit_1_iff)
    then have "next_code (rv g N) ?j = rv g (?M + 2 ^ (g - k))"
      using c True x Suc.IH [OF _ d] Suc.prems(1) by (simp add: next_code.simps [of "rv g N"])
    moreover have "?M + 2 ^ (g - k) = N + ?D" using M gk by linarith
    ultimately show ?thesis by simp
  next
    case False
    then show ?thesis using c x xor_exp_clear [OF False] by (simp add: next_code.simps [of "rv g N"])
  qed
qed

section \<open>The codes as intervals\<close>

text \<open>\<open>csize\<close> is the size of the interval of a code of length \<open>k\<close>, \<open>cpoint k m\<close> the first number of the
  \<open>m\<close>-th code of length \<open>k\<close>, and \<open>cpos\<close> its position among all codes.\<close>

definition csize :: "build_args \<Rightarrow> nat \<Rightarrow> nat" where
  "csize A k = 2 ^ (a_g A - k)"

definition cpoint :: "build_args \<Rightarrow> nat \<Rightarrow> nat \<Rightarrow> nat" where
  "cpoint A k m = (\<Sum>i = 1..<k. a_c A i * csize A i) + m * csize A k"

definition cpos :: "build_args \<Rightarrow> nat \<Rightarrow> nat \<Rightarrow> nat" where
  "cpos A k m = (\<Sum>i = 1..<k. a_c A i) + m"

definition args_ok :: "build_args \<Rightarrow> bool" where
  "args_ok A \<longleftrightarrow> 1 \<le> a_l A \<and> a_l A \<le> a_g A \<and> a_g A \<le> 16 \<and> cpoint A (a_g A + 1) 0 = 2 ^ a_g A \<and>
     0 < a_c A (a_g A) \<and> (\<exists>i. 1 \<le> i \<and> i \<le> a_l A \<and> 0 < a_c A i) \<and> (a_g A \<le> 2 * a_l A \<or> cpos A (a_g A + 1) 0 < 2 ^ (a_l A + 1))"

lemma dvd_next:
  assumes "d dvd a" "d dvd b" "a < b" shows "a + d \<le> (b :: nat)"
proof -
  have "d dvd b - a" using assms by (intro dvd_diff_nat) simp_all
  then have "d \<le> b - a" using assms(3) by (intro dvd_imp_le) simp_all
  then show ?thesis using assms(3) by simp
qed

lemma csize_pos [simp]: "0 < csize A k" "csize A k \<noteq> 0"
  by (simp_all add: csize_def)

lemma cpoint_0: "cpoint A k 0 = (\<Sum>i = 1..<k. a_c A i * csize A i)"
  by (simp add: cpoint_def)

lemma args_okD:
  assumes "args_ok A"
  shows "1 \<le> a_l A" "a_l A \<le> a_g A" "a_g A \<le> 16" "cpoint A (a_g A + 1) 0 = 2 ^ a_g A" "0 < a_c A (a_g A)"
  using assms by (simp_all add: args_ok_def)

lemma csize_mono: "i \<le> k \<Longrightarrow> csize A k dvd csize A i"
  by (simp add: csize_def le_imp_power_dvd)

lemma cpoint_Suc: "1 \<le> k \<Longrightarrow> cpoint A (Suc k) 0 = cpoint A k (a_c A k)"
  by (simp add: cpoint_def)

lemma cpoint_add: "cpoint A k (Suc m) = cpoint A k m + csize A k"
  by (simp add: cpoint_def)

lemma cpoint_mono: "1 \<le> k \<Longrightarrow> k \<le> k' \<Longrightarrow> cpoint A k 0 \<le> cpoint A k' 0"
  unfolding cpoint_def by (simp add: sum_mono2)

lemma cpoint_dvd: "csize A k dvd cpoint A k m"
proof -
  have "csize A k dvd (\<Sum>i = 1..<k. a_c A i * csize A i)"
    by (intro dvd_sum dvd_mult) (auto intro: csize_mono)
  then show ?thesis by (simp add: cpoint_def)
qed

lemma cpoint_end:
  assumes "args_ok A" "1 \<le> k" "k \<le> a_g A" "m < a_c A k"
  shows "cpoint A k m + csize A k \<le> 2 ^ a_g A"
proof -
  have "cpoint A k m + csize A k = cpoint A k (Suc m)" by (simp add: cpoint_add)
  also have "\<dots> \<le> cpoint A k (a_c A k)" using assms(4) unfolding cpoint_def by (simp add: mult_le_mono1 Suc_leI del: mult_Suc)
  also have "\<dots> = cpoint A (Suc k) 0" using assms(2) by (simp add: cpoint_Suc)
  also have "\<dots> \<le> cpoint A (a_g A + 1) 0" by (rule cpoint_mono) (use assms(3) in auto)
  finally show ?thesis using assms(1) by (simp add: args_ok_def)
qed

lemma cpoint_less: "args_ok A \<Longrightarrow> 1 \<le> k \<Longrightarrow> k \<le> a_g A \<Longrightarrow> m < a_c A k \<Longrightarrow> cpoint A k m < 2 ^ a_g A"
  using cpoint_end [of A k m] csize_pos [of A k] by linarith

text \<open>The code to which a number belongs.\<close>

definition code_holds :: "build_args \<Rightarrow> nat \<Rightarrow> nat \<Rightarrow> nat \<Rightarrow> bool" where
  "code_holds A k m N \<longleftrightarrow> 1 \<le> k \<and> k \<le> a_g A \<and> m < a_c A k \<and> cpoint A k m \<le> N \<and> N < cpoint A k m + csize A k"

text \<open>The entry that a table for the bits from \<open>w\<close> on has for it.\<close>

definition code_cell :: "build_args \<Rightarrow> nat \<Rightarrow> nat \<Rightarrow> nat \<Rightarrow> huft \<Rightarrow> bool" where
  "code_cell A w k m r \<longleftrightarrow> w < k \<and> h_b r = k - w \<and>
     (let p = cpos A k m; v = a_v A p
      in if p \<ge> a_n A then h_e r = 99
         else if v < a_s A then h_e r = (if v < 256 then 16 else 15) \<and> h_v r = Vn (of_nat v)
         else h_e r = a_e A ! (v - a_s A) \<and> h_v r = Vn (of_nat (a_d A ! (v - a_s A))))"

text \<open>The index into a table with \<open>j\<close> bits after \<open>w\<close> bits.\<close>

definition tindex :: "build_args \<Rightarrow> nat \<Rightarrow> nat \<Rightarrow> nat \<Rightarrow> nat" where
  "tindex A w j N = unat (take_bit j (drop_bit w (rv (a_g A) N)))"

lemma tindex_eq_iff:
  assumes "a_g A \<le> 16" "w + j \<le> a_g A" "N < 2 ^ a_g A" "M < 2 ^ a_g A" "N div 2 ^ (a_g A - w) = M div 2 ^ (a_g A - w)"
  shows "tindex A w j N = tindex A w j M \<longleftrightarrow> N div csize A (w + j) = M div csize A (w + j)"
proof -
  let ?g = "a_g A"
  have p: "take_bit w (rv ?g N) = take_bit w (rv ?g M)" using rv_prefix [of ?g w N M] assms by simp
  have "tindex A w j N = tindex A w j M \<longleftrightarrow> take_bit (w + j) (rv ?g N) = take_bit (w + j) (rv ?g M)"
  proof
    assume "tindex A w j N = tindex A w j M"
    then have e: "take_bit j (drop_bit w (rv ?g N)) = take_bit j (drop_bit w (rv ?g M))"
      unfolding tindex_def by (rule unsigned_word_eqI)
    show "take_bit (w + j) (rv ?g N) = take_bit (w + j) (rv ?g M)"
    proof (rule bit_word_eqI)
      fix t
      show "bit (take_bit (w + j) (rv ?g N)) t = bit (take_bit (w + j) (rv ?g M)) t"
        using arg_cong [OF p, of "\<lambda>x. bit x t"] arg_cong [OF e, of "\<lambda>x. bit x (t - w)"]
        by (cases "t < w") (auto simp: bit_take_bit_iff bit_drop_bit_eq)
    qed
  next
    assume e: "take_bit (w + j) (rv ?g N) = take_bit (w + j) (rv ?g M)"
    have "take_bit j (drop_bit w (rv ?g N)) = take_bit j (drop_bit w (rv ?g M))"
    proof (rule bit_word_eqI)
      fix t
      show "bit (take_bit j (drop_bit w (rv ?g N))) t = bit (take_bit j (drop_bit w (rv ?g M))) t"
        using arg_cong [OF e, of "\<lambda>x. bit x (w + t)"] by (auto simp: bit_take_bit_iff bit_drop_bit_eq)
    qed
    then show "tindex A w j N = tindex A w j M" by (simp add: tindex_def)
  qed
  then show ?thesis using rv_prefix [of ?g "w + j" N M] assms by (simp add: csize_def)
qed

section \<open>The size of a new table\<close>

lemma csize_Suc: "k < a_g A \<Longrightarrow> csize A k = 2 * csize A (Suc k)"
  by (simp add: csize_def Suc_diff_Suc flip: power_Suc)

lemma csize_shift: "w \<le> k \<Longrightarrow> k \<le> a_g A \<Longrightarrow> csize A w = 2 ^ (k - w) * csize A k"
  by (simp add: csize_def flip: power_add)

text \<open>While the loop runs, \<open>f\<close> patterns of \<open>j\<close> bits are left up to \<open>e\<close>.\<close>

lemma table_bits_ok:
  "cpoint A (w + j + 1) 0 + f * csize A (w + j) = e \<Longrightarrow> j < z \<Longrightarrow> w + z \<le> a_g A \<Longrightarrow>
    j < table_bits (a_c A) z j f (w + j) \<and> table_bits (a_c A) z j f (w + j) \<le> z \<and>
    (table_bits (a_c A) z j f (w + j) = z \<or> e \<le> cpoint A (w + table_bits (a_c A) z j f (w + j) + 1) 0)"
proof (induction "z - j" arbitrary: j f rule: less_induct)
  case less
  note u = table_bits.simps [of "a_c A" z j f "w + j"]
  show ?case
  proof (cases "j + 1 < z")
    case False
    then show ?thesis using less.prems(2) unfolding u Let_def by simp
  next
    case True
    have s: "csize A (w + j) = 2 * csize A (w + j + 1)" using csize_Suc [of "w + j" A] True less.prems(3) by simp
    have p: "cpoint A (w + j + 2) 0 = cpoint A (w + j + 1) 0 + a_c A (w + j + 1) * csize A (w + j + 1)"
      using cpoint_Suc [of "w + j + 1" A] by (simp add: cpoint_def)
    show ?thesis
    proof (cases "2 * f \<le> a_c A (w + j + 1)")
      case le: True
      have "2 * f * csize A (w + j + 1) \<le> a_c A (w + j + 1) * csize A (w + j + 1)" using le by (rule mult_le_mono1)
      moreover have "e = cpoint A (w + j + 1) 0 + 2 * f * csize A (w + j + 1)" using less.prems(1) s by (simp add: ac_simps)
      ultimately have "e \<le> cpoint A (w + j + 2) 0" unfolding p by linarith
      then show ?thesis using True le unfolding u Let_def by simp
    next
      case False
      let ?f = "2 * f - a_c A (w + j + 1)"
      have "a_c A (w + j + 1) * csize A (w + j + 1) + ?f * csize A (w + j + 1) = 2 * f * csize A (w + j + 1)"
        using False by (simp flip: add_mult_distrib)
      then have e: "cpoint A (w + (j + 1) + 1) 0 + ?f * csize A (w + (j + 1)) = e"
        using less.prems(1) p s by (simp add: ac_simps)
      have "z - (j + 1) < z - j" using True by simp
      from less.hyps [OF this e True less.prems(3)] show ?thesis
        using True False unfolding u Let_def by (simp add: ac_simps)
    qed
  qed
qed

lemma new_table_bits_ok:
  assumes "args_ok A" "w < k" "k \<le> w + a_l A" "k \<le> a_g A" "m + Suc a = a_c A k" "csize A w dvd cpoint A k m"
  defines "j \<equiv> new_table_bits (a_c A) (a_g A) (a_l A) w k a"
  shows "k \<le> w + j" "j \<le> a_l A" "w + j \<le> a_g A" "j = a_l A \<or> cpoint A k m + csize A w \<le> cpoint A (w + j + 1) 0"
proof -
  let ?F = "cpoint A k m" and ?z = "min (a_l A) (a_g A - w)"
  have z: "(if a_g A - w > a_l A then a_l A else a_g A - w) = ?z" by auto
  have w: "csize A w = 2 ^ (k - w) * csize A k" using csize_shift [of w k A] assms(2,4) by simp
  have next': "cpoint A (k + 1) 0 = ?F + Suc a * csize A k"
    using cpoint_Suc [of k A] assms(2,5) by (simp add: cpoint_def add_mult_distrib flip: assms(5))
  have "k \<le> w + j \<and> j \<le> ?z \<and> (j = ?z \<or> ?F + csize A w \<le> cpoint A (w + j + 1) 0)"
  proof (cases "2 ^ (k - w) > a + 1")
    case True
    have f: "cpoint A (w + (k - w) + 1) 0 + (2 ^ (k - w) - (a + 1)) * csize A (w + (k - w)) = ?F + csize A w"
    proof -
      have "Suc a * csize A k + (2 ^ (k - w) - Suc a) * csize A k = 2 ^ (k - w) * csize A k"
        using True by (simp only: add_mult_distrib [symmetric] Suc_eq_plus1 le_add_diff_inverse less_imp_le)
      then show ?thesis using next' w assms(2) by simp
    qed
    show ?thesis
    proof (cases "k - w < ?z")
      case lt: True
      have "w + ?z \<le> a_g A" using assms(2,4) by simp
      moreover have "table_bits (a_c A) ?z (k - w) (2 ^ (k - w) - (a + 1)) (w + (k - w)) = j"
        using True lt assms(2) unfolding j_def new_table_bits_def z Let_def by simp
      ultimately have "k - w < j \<and> j \<le> ?z \<and> (j = ?z \<or> ?F + csize A w \<le> cpoint A (w + j + 1) 0)"
        using table_bits_ok [OF f lt] by simp
      then show ?thesis using assms(2) by auto
    next
      case False
      then show ?thesis using True assms(2-4) unfolding j_def new_table_bits_def z Let_def by auto
    qed
  next
    case False
    have "2 ^ (k - w) * csize A k \<le> Suc a * csize A k" using False by (intro mult_le_mono1) simp
    then have "?F + csize A w \<le> cpoint A (k + 1) 0" using next' w by simp
    moreover have "j = k - w" using False unfolding j_def new_table_bits_def z Let_def by simp
    moreover have "k - w \<le> ?z" using assms(2-4) by linarith
    ultimately show ?thesis using assms(2) by simp
  qed
  moreover have "?F + csize A w \<le> cpoint A (w + j + 1) 0" if "j = a_g A - w"
  proof -
    have "?F < 2 ^ a_g A" using cpoint_less [OF assms(1) _ assms(4)] assms(2,5) by simp
    moreover have "csize A w dvd 2 ^ a_g A" by (simp add: csize_def le_imp_power_dvd)
    ultimately have "?F + csize A w \<le> 2 ^ a_g A" using dvd_next [OF assms(6)] by blast
    then show ?thesis using that assms(1,2,4) by (simp add: args_ok_def)
  qed
  ultimately show "k \<le> w + j" "j \<le> a_l A" "w + j \<le> a_g A" "j = a_l A \<or> ?F + csize A w \<le> cpoint A (w + j + 1) 0"
    using assms(2,4) by (auto simp: min_def split: if_splits)
qed

section \<open>No code is more than one table away\<close>

lemma sum_shift:
  assumes "1 \<le> k" "k \<le> (g :: nat)"
  shows "(\<Sum>i = 1..<g + 1. f i) = (\<Sum>i = 1..<k. f i) + f k + (\<Sum>i = k + 1..<g + 1. f i :: nat)"
proof -
  have "{1..<g + 1} = {1..<k} \<union> ({k} \<union> {k + 1..<g + 1})" using assms by auto
  then show ?thesis by (simp add: sum.union_disjoint add.assoc)
qed

lemma codes_left:
  assumes "args_ok A" "1 \<le> k" "k \<le> a_g A" "m < a_c A k"
  shows "2 ^ a_g A \<le> cpoint A k m + cpos A (a_g A + 1) 0 * csize A k"
proof -
  let ?s = "\<lambda>i. a_c A i * csize A i"
  have "2 ^ a_g A = sum ?s {1..<a_g A + 1}" using args_okD(4) [OF assms(1)] by (simp only: cpoint_0)
  also have "\<dots> = sum ?s {1..<k} + ?s k + sum ?s {k + 1..<a_g A + 1}" by (rule sum_shift [OF assms(2,3)])
  also have "sum ?s {k + 1..<a_g A + 1} \<le> (\<Sum>i = k + 1..<a_g A + 1. a_c A i) * csize A k"
    unfolding sum_distrib_right
    by (intro sum_mono mult_le_mono2) (auto simp: csize_def intro!: power_increasing)
  also have "sum ?s {1..<k} + ?s k + (\<Sum>i = k + 1..<a_g A + 1. a_c A i) * csize A k
      \<le> cpoint A k m + (a_c A k + (\<Sum>i = k + 1..<a_g A + 1. a_c A i)) * csize A k"
    by (simp add: cpoint_def add_mult_distrib)
  also have "a_c A k + (\<Sum>i = k + 1..<a_g A + 1. a_c A i) \<le> cpos A (a_g A + 1) 0"
    unfolding cpos_def sum_shift [OF assms(2,3)] by simp
  finally show ?thesis by simp
qed

lemma code_near:
  assumes "args_ok A" "1 \<le> k" "k \<le> a_g A" "m < a_c A k" "csize A w dvd cpoint A k m" "w < k"
    and w: "w = 0 \<and> cpoint A k m = 0 \<or> a_l A \<le> w"
  shows "k \<le> w + a_l A"
proof (cases "w = 0 \<and> cpoint A k m = 0")
  case True
  obtain i where i: "1 \<le> i" "i \<le> a_l A" "0 < a_c A i" using assms(1) by (auto simp: args_ok_def)
  have "\<not> i < k"
  proof
    assume "i < k"
    then have "i \<in> {1..<k}" using i(1) by simp
    moreover have "\<forall>i \<in> {1..<k}. a_c A i * csize A i = 0" using True by (simp add: cpoint_def)
    ultimately show False using i(3) by fastforce
  qed
  then show ?thesis using i by simp
next
  case False
  then have l: "a_l A \<le> w" using w by blast
  show ?thesis
  proof (cases "a_g A \<le> 2 * a_l A")
    case True
    then show ?thesis using l assms(3) by simp
  next
    case f: False
    have "cpoint A k m + csize A w \<le> 2 ^ a_g A"
      by (rule dvd_next [OF assms(5)]) (use cpoint_less [OF assms(1-4)] in \<open>simp_all add: csize_def le_imp_power_dvd\<close>)
    then have "csize A w \<le> cpos A (a_g A + 1) 0 * csize A k" using codes_left [OF assms(1-4)] by linarith
    then have "2 ^ (k - w) \<le> cpos A (a_g A + 1) 0" using csize_shift [of w k A] assms(3,6) by simp
    also have "\<dots> < 2 ^ (a_l A + 1)" using f assms(1) by (simp add: args_ok_def)
    finally have "k - w < a_l A + 1" by (rule power_less_imp_less_exp [rotated]) simp
    then show ?thesis by simp
  qed
qed

section \<open>The invariant\<close>

text \<open>What a table is for: the bits used before it, its own bits, and the first number of its interval.\<close>

record tinfo =
  t_w :: nat
  t_j :: nat
  t_s :: nat

definition covers :: "build_args \<Rightarrow> tinfo \<Rightarrow> nat \<Rightarrow> bool" where
  "covers A t N \<longleftrightarrow> t_s t \<le> N \<and> N < t_s t + csize A (t_w t)"

text \<open>The entry for a number: that of its code, or a pointer to a table for it.\<close>

definition cell_ok :: "build_args \<Rightarrow> nat set \<Rightarrow> (nat \<Rightarrow> tinfo) \<Rightarrow> tinfo \<Rightarrow> nat \<Rightarrow> huft \<Rightarrow> bool" where
  "cell_ok A Q I t N r \<longleftrightarrow>
     (\<exists>k m. code_holds A k m N \<and> k \<le> t_w t + t_j t \<and> code_cell A (t_w t) k m r) \<or>
     (\<exists>q \<in> Q. h_v r = Vt q \<and> h_b r = t_j t \<and> h_e r = 16 + t_j (I q) \<and> t_w (I q) = t_w t + t_j t \<and> covers A (I q) N)"

definition table_ok :: "build_args \<Rightarrow> nat set \<Rightarrow> (nat \<Rightarrow> tinfo) \<Rightarrow> (nat \<Rightarrow> huft) \<Rightarrow> tinfo \<Rightarrow> nat \<Rightarrow> bool" where
  "table_ok A Q I a t F \<longleftrightarrow> 1 \<le> t_j t \<and> t_j t \<le> a_l A \<and> t_w t + t_j t \<le> a_g A \<and> csize A (t_w t) dvd t_s t \<and> t_s t < 2 ^ a_g A \<and>
     (\<forall>N < F. covers A t N \<longrightarrow> cell_ok A Q I t N (a (tindex A (t_w t) (t_j t) N)))"

text \<open>The tables allocated from number \<open>a0\<close> on form the list that \<^verbatim>\<open>huft_free\<close> follows.\<close>

definition chained :: "nat \<Rightarrow> nat list \<Rightarrow> hmem \<Rightarrow> bool" where
  "chained a0 L M \<longleftrightarrow> a0 \<le> nalloc M \<and> live M = rev [a0..<nalloc M] @ L \<and>
     (\<forall>q. a0 \<le> q \<longrightarrow> q < nalloc M \<longrightarrow> links M q = (if Suc q < nalloc M then Some (Suc q) else None))"

text \<open>The stack at the frontier \<open>F\<close>.\<close>

definition stack_ok :: "build_args \<Rightarrow> nat set \<Rightarrow> (nat \<Rightarrow> tinfo) \<Rightarrow> (nat \<Rightarrow> nat \<Rightarrow> huft) \<Rightarrow> build \<Rightarrow> nat \<Rightarrow> nat \<Rightarrow> bool" where
  "stack_ok A Q I T st n F \<longleftrightarrow>
     (\<forall>h < n. b_u st h \<in> Q \<and> t_w (I (b_u st h)) = h * a_l A \<and> covers A (I (b_u st h)) F \<and>
        b_x st h = rv (a_g A) (t_s (I (b_u st h)))) \<and>
     (\<forall>h. Suc h < n \<longrightarrow> t_j (I (b_u st h)) = a_l A \<and>
        T (b_u st h) (tindex A (h * a_l A) (a_l A) F) =
          \<lparr>h_e = 16 + t_j (I (b_u st (Suc h))), h_b = a_l A, h_v = Vt (b_u st (Suc h))\<rparr>) \<and>
     (\<forall>q \<in> Q. covers A (I q) F \<longrightarrow> q \<in> b_u st ` {..<n})"

text \<open>The current table, when the next code has length \<open>k\<close> or more: it is \<^verbatim>\<open>q\<close>, or a new one will be
  made; if it has fewer than \<open>l\<close> bits then the codes up to its bits fill it.\<close>

definition level_ok :: "build_args \<Rightarrow> (nat \<Rightarrow> tinfo) \<Rightarrow> build \<Rightarrow> nat \<Rightarrow> nat \<Rightarrow> nat \<Rightarrow> bool" where
  "level_ok A I st n k F \<longleftrightarrow>
     (k \<le> n * a_l A \<or> csize A (n * a_l A) dvd F) \<and>
     (if n = 0 then F = 0
      else let u = b_u st (n - 1); t = I u
        in (b_q st = u \<and> b_z st = 2 ^ t_j t \<and> (n - 1) * a_l A < k \<or> n * a_l A < k) \<and>
           (t_j t = a_l A \<or> t_s t + csize A (t_w t) \<le> cpoint A (t_w t + t_j t + 1) 0))"

definition tables_step :: "nat \<Rightarrow> nat list \<Rightarrow> gz \<Rightarrow> gz \<Rightarrow> bool" where
  "tables_step a0 L g0 g \<longleftrightarrow> g = g0\<lparr>hm := hm g\<rparr> \<and> chained a0 L (hm g) \<and>
     (\<forall>q < a0. tabs (hm g) q = tabs (hm g0) q \<and> links (hm g) q = links (hm g0) q)"

definition build_inv ::
  "build_args \<Rightarrow> nat \<Rightarrow> nat list \<Rightarrow> gz \<Rightarrow> nat \<Rightarrow> nat \<Rightarrow> (nat \<Rightarrow> tinfo) \<Rightarrow> nat \<Rightarrow> build \<Rightarrow> gz \<Rightarrow> bool" where
  "build_inv A a0 L g0 k m I n st g \<longleftrightarrow>
     (let F = cpoint A k m; Q = {a0..<nalloc (hm g)}; T = tabs (hm g)
      in tables_step a0 L g0 g \<and>
         (\<forall>q \<in> Q. t_s (I q) \<le> F \<and> table_ok A Q I (T q) (I q) F) \<and>
         b_p st = min (cpos A k m) (a_n A) \<and> b_i st = rv (a_g A) F \<and> b_x st 0 = 0 \<and>
         b_h st = int n - 1 \<and> b_w st = int (n * a_l A) - int (a_l A) \<and>
         b_t st = (if n = 0 then None else Some a0) \<and> b_last st = (if n = 0 then None else Some (nalloc (hm g) - 1)) \<and>
         (n = 0 \<longrightarrow> F = 0) \<and> (n = 0 \<longleftrightarrow> Q = {}) \<and> (n \<noteq> 0 \<longrightarrow> I a0 = \<lparr>t_w = 0, t_j = a_l A, t_s = 0\<rparr> \<and> b_u st 0 = a0) \<and>
         (F < 2 ^ a_g A \<longrightarrow> stack_ok A Q I T st n F \<and> level_ok A I st n k F))"

text \<open>Intervals of the same prefix nest.\<close>

lemma nested:
  fixes s s' :: nat
  assumes "d' dvd d" "d dvd s" "d' dvd s'" "s \<le> x" "x < s + d" "s' \<le> x" "x < s' + d'"
  shows "s \<le> s'" "s' + d' \<le> s + d"
proof -
  have "s + d' \<le> s' + d'" by (rule dvd_next) (use assms in \<open>auto intro: dvd_trans\<close>)
  then show "s \<le> s'" by simp
  show "s' + d' \<le> s + d" by (rule dvd_next) (use assms in \<open>auto intro: dvd_trans\<close>)
qed

lemma same_div:
  assumes "d dvd s" "s \<le> x" "x < s + d" "s \<le> y" "y < s + (d :: nat)"
  shows "x div d = y div d"
proof -
  obtain q where s: "s = d * q" using assms(1) by blast
  have "x div d = q" if "s \<le> x" "x < s + d" for x
    using that unfolding s by (intro div_nat_eqI) (simp_all add: ac_simps)
  then show ?thesis using assms by simp
qed

lemma aligned_div:
  assumes "d dvd s" "x div d = s div d" "0 < (d :: nat)" shows "s \<le> x" "x < s + d"
proof -
  obtain q where s: "s = d * q" using assms(1) by blast
  have "x div d = q" using assms(2,3) unfolding s by simp
  then have "x = s + x mod d" unfolding s using mult_div_mod_eq [of d x] by simp
  then show "s \<le> x" "x < s + d" using mod_less_divisor [OF assms(3), of x] by linarith+
qed

text \<open>Filling and linking change only the cells they name.\<close>

lemma tabs_set_entry: "tabs (hm (set_entry q j r g)) = (tabs (hm g))(q := (tabs (hm g) q)(j := r))"
  by (simp add: set_entry_def)

lemma hm_set_entry: "set_entry q j r g = g\<lparr>hm := (hm g)\<lparr>tabs := (tabs (hm g))(q := (tabs (hm g) q)(j := r))\<rparr>\<rparr>"
  by (simp add: set_entry_def)

lemma fill_entries_tabs:
  "\<exists>T. fill_entries j z b q r g = g\<lparr>hm := (hm g)\<lparr>tabs := T\<rparr>\<rparr> \<and>
     (\<forall>q' t. T q' t = (if q' = q \<and> j \<le> t \<and> t < z \<and> 2 ^ b dvd t - j then r else tabs (hm g) q' t))"
proof (induction "z - j" arbitrary: j g rule: less_induct)
  case less
  show ?case
  proof (cases "j < z")
    case False
    then show ?thesis by (intro exI [of _ "tabs (hm g)"]) (auto simp: fill_entries.simps [of j])
  next
    case True
    then have "z - (j + 2 ^ b) < z - j" by (intro diff_less_mono2) simp_all
    from less [OF this, of "set_entry q j r g"] obtain T where T:
      "fill_entries (j + 2 ^ b) z b q r (set_entry q j r g) = g\<lparr>hm := (hm g)\<lparr>tabs := T\<rparr>\<rparr>"
      "\<And>q' t. T q' t = (if q' = q \<and> j + 2 ^ b \<le> t \<and> t < z \<and> 2 ^ b dvd t - (j + 2 ^ b) then r
        else tabs (hm (set_entry q j r g)) q' t)"
      by (auto simp: hm_set_entry)
    have d: "j \<le> t \<and> 2 ^ b dvd t - j \<longleftrightarrow> t = j \<or> j + 2 ^ b \<le> t \<and> 2 ^ b dvd t - (j + 2 ^ b)" for t
    proof
      assume a: "j \<le> t \<and> 2 ^ b dvd t - j"
      show "t = j \<or> j + 2 ^ b \<le> t \<and> 2 ^ b dvd t - (j + 2 ^ b)"
      proof (cases "t = j")
        case False
        then have "2 ^ b \<le> t - j" using a by (intro dvd_imp_le) auto
        moreover have "2 ^ b dvd t - j - 2 ^ b" unfolding dvd_minus_self using a by blast
        ultimately show ?thesis using a by auto
      qed simp
    next
      assume a: "t = j \<or> j + 2 ^ b \<le> t \<and> 2 ^ b dvd t - (j + 2 ^ b)"
      show "j \<le> t \<and> 2 ^ b dvd t - j"
      proof (cases "t = j")
        case False
        then have "2 ^ b dvd (t - (j + 2 ^ b)) + 2 ^ b" using a by (metis dvd_add_triv_right_iff)
        moreover have "(t - (j + 2 ^ b)) + 2 ^ b = t - j" "j \<le> t" using a False by auto
        ultimately show ?thesis by metis
      qed simp
    qed
    show ?thesis
      by (intro exI [of _ T]) (use T True d in \<open>auto simp: fill_entries.simps [of j] tabs_set_entry\<close>)
  qed
qed

section \<open>Making a table\<close>

lemma table_okD:
  assumes "table_ok A Q I a t F"
  shows "1 \<le> t_j t" "t_w t + t_j t \<le> a_g A" "csize A (t_w t) dvd t_s t" "t_s t < 2 ^ a_g A"
    "\<And>N. N < F \<Longrightarrow> covers A t N \<Longrightarrow> cell_ok A Q I t N (a (tindex A (t_w t) (t_j t) N))" "t_j t \<le> a_l A"
  using assms by (simp_all add: table_ok_def)

lemma cell_ok_mono: "cell_ok A Q I t N r \<Longrightarrow> Q \<subseteq> Q' \<Longrightarrow> (\<And>q. q \<in> Q \<Longrightarrow> I' q = I q) \<Longrightarrow> cell_ok A Q' I' t N r"
  unfolding cell_ok_def by (metis subsetD)

lemma covers_less:
  assumes "table_ok A Q I a t F" "covers A t N" shows "N < 2 ^ a_g A"
proof -
  have "t_s t + csize A (t_w t) \<le> 2 ^ a_g A"
    by (rule dvd_next) (use table_okD [OF assms(1)] in \<open>simp_all add: csize_def le_imp_power_dvd\<close>)
  then show ?thesis using assms(2) by (simp add: covers_def)
qed

text \<open>Two numbers of a table's interval have the same entry iff their codes agree up to its bits.\<close>

lemma tindex_covers:
  assumes "a_g A \<le> 16" "table_ok A Q I a t F" "covers A t N" "covers A t M" "w = t_w t" "w + j \<le> a_g A"
  shows "tindex A w j N = tindex A w j M \<longleftrightarrow> N div csize A (w + j) = M div csize A (w + j)"
proof (rule tindex_eq_iff [OF assms(1)])
  show "N < 2 ^ a_g A" "M < 2 ^ a_g A" using covers_less [OF assms(2)] assms(3,4) by simp_all
  show "N div 2 ^ (a_g A - w) = M div 2 ^ (a_g A - w)"
    using same_div [OF table_okD(3) [OF assms(2)]] assms(3-5) by (simp add: covers_def csize_def)
qed (use assms in auto)

text \<open>The index at which the frontier's link goes in.\<close>

lemma link_index:
  assumes "a_g A \<le> 16" "w + j \<le> a_g A" "csize A (w + j) dvd F"
  shows "unat (drop_bit w (rv (a_g A) F)) = tindex A w j F"
proof -
  have "take_bit (w + j) (rv (a_g A) F) = rv (a_g A) F"
    by (rule rv_aligned) (use assms in \<open>simp_all add: csize_def\<close>)
  then have "take_bit j (drop_bit w (rv (a_g A) F)) = drop_bit w (rv (a_g A) F)"
    by (metis take_bit_drop_bit drop_bit_take_bit add.commute add_diff_cancel_left')
  then show ?thesis by (simp add: tindex_def)
qed

lemma chained_alloc:
  assumes "chained a0 L M" "prev = (if nalloc M = a0 then None else Some (nalloc M - 1))"
  shows "chained a0 L (M\<lparr>nalloc := nalloc M + 1, live := nalloc M # live M, hufts := x,
    links := (case prev of None \<Rightarrow> links M | Some r \<Rightarrow> (links M)(r := Some (nalloc M)))(nalloc M := None)\<rparr>)"
  using assms unfolding chained_def by (auto simp: less_Suc_eq split: if_splits)

definition at_code :: "build_args \<Rightarrow> (nat \<Rightarrow> tinfo) \<Rightarrow> build \<Rightarrow> nat \<Rightarrow> nat \<Rightarrow> bool" where
  "at_code A I st n k \<longleftrightarrow> 0 < n \<and> b_q st = b_u st (n - 1) \<and> b_z st = 2 ^ t_j (I (b_u st (n - 1))) \<and>
     (n - 1) * a_l A < k \<and> k \<le> (n - 1) * a_l A + t_j (I (b_u st (n - 1)))"

lemma build_invD:
  assumes "build_inv A a0 L g0 k m I n st g"
  defines "F \<equiv> cpoint A k m" and "Q \<equiv> {a0..<nalloc (hm g)}" and "T \<equiv> tabs (hm g)"
  shows "tables_step a0 L g0 g" "\<And>q. q \<in> Q \<Longrightarrow> t_s (I q) \<le> F" "\<And>q. q \<in> Q \<Longrightarrow> table_ok A Q I (T q) (I q) F"
    "b_p st = min (cpos A k m) (a_n A)" "b_i st = rv (a_g A) F" "b_x st 0 = 0"
    "b_h st = int n - 1" "b_w st = int (n * a_l A) - int (a_l A)"
    "b_t st = (if n = 0 then None else Some a0)" "b_last st = (if n = 0 then None else Some (nalloc (hm g) - 1))"
    "n = 0 \<longleftrightarrow> Q = {}" "n \<noteq> 0 \<Longrightarrow> I a0 = \<lparr>t_w = 0, t_j = a_l A, t_s = 0\<rparr> \<and> b_u st 0 = a0"
    "F < 2 ^ a_g A \<Longrightarrow> stack_ok A Q I T st n F" "F < 2 ^ a_g A \<Longrightarrow> level_ok A I st n k F" "n = 0 \<Longrightarrow> F = 0"
  using assms unfolding build_inv_def Let_def by blast+

lemma stack_okD:
  assumes "stack_ok A Q I T st n F"
  shows "\<And>h. h < n \<Longrightarrow> b_u st h \<in> Q" "\<And>h. h < n \<Longrightarrow> t_w (I (b_u st h)) = h * a_l A" "\<And>h. h < n \<Longrightarrow> covers A (I (b_u st h)) F"
    "\<And>h. h < n \<Longrightarrow> b_x st h = rv (a_g A) (t_s (I (b_u st h)))"
    "\<And>h. Suc h < n \<Longrightarrow> t_j (I (b_u st h)) = a_l A"
    "\<And>h. Suc h < n \<Longrightarrow> T (b_u st h) (tindex A (h * a_l A) (a_l A) F) =
          \<lparr>h_e = 16 + t_j (I (b_u st (Suc h))), h_b = a_l A, h_v = Vt (b_u st (Suc h))\<rparr>"
    "\<And>q. q \<in> Q \<Longrightarrow> covers A (I q) F \<Longrightarrow> \<exists>h < n. q = b_u st h"
  using assms unfolding stack_ok_def by auto

text \<open>A table that is not full size is left before a code is longer than its bits.\<close>

lemma table_bits_enough:
  assumes "args_ok A" "1 \<le> k" "covers A t (cpoint A k m)" "t_w t = w" 
    "t_j t = a_l A \<or> t_s t + csize A (t_w t) \<le> cpoint A (t_w t + t_j t + 1) 0"
  shows "t_j t = a_l A \<or> k \<le> w + t_j t"
proof (rule ccontr)
  assume n: "\<not> ?thesis"
  then have "cpoint A (w + t_j t + 1) 0 \<le> cpoint A k 0" by (intro cpoint_mono) auto
  also have "\<dots> \<le> cpoint A k m" by (simp add: cpoint_def)
  finally show False using n assms(3-5) by (simp add: covers_def)
qed

lemma new_table_inv:
  assumes ok: "args_ok A" and k: "1 \<le> k" "k \<le> a_g A" "m < a_c A k" and inv: "build_inv A a0 L g0 k m I n st g"
    and n: "n * a_l A < k" "csize A (n * a_l A) dvd cpoint A k m" "n \<noteq> 0 \<Longrightarrow> t_j (I (b_u st (n - 1))) = a_l A"
    and j: "k \<le> n * a_l A + j" "j \<le> a_l A" "n * a_l A + j \<le> a_g A"
      "j = a_l A \<or> cpoint A k m + csize A (n * a_l A) \<le> cpoint A (n * a_l A + j + 1) 0" "n = 0 \<Longrightarrow> j = a_l A"
    and g': "tables_step a0 L g0 g'" "nalloc (hm g') = Suc (nalloc (hm g))"
      "\<And>q t. q < nalloc (hm g) \<Longrightarrow> tabs (hm g') q t =
        (if n \<noteq> 0 \<and> q = b_u st (n - 1) \<and> t = tindex A ((n - 1) * a_l A) (a_l A) (cpoint A k m)
         then \<lparr>h_e = 16 + j, h_b = a_l A, h_v = Vt (nalloc (hm g))\<rparr> else tabs (hm g) q t)"
    and st': "b_h st' = int n" "b_w st' = int (n * a_l A)" "b_z st' = 2 ^ j" "b_q st' = nalloc (hm g)"
      "b_u st' = (b_u st)(n := nalloc (hm g))" "b_last st' = Some (nalloc (hm g))" "b_p st' = b_p st" "b_i st' = b_i st"
      "b_t st' = (if n = 0 then Some (nalloc (hm g)) else b_t st)" "b_x st' = (if n = 0 then b_x st else (b_x st)(n := b_i st))"
  defines "I' \<equiv> I(nalloc (hm g) := \<lparr>t_w = n * a_l A, t_j = j, t_s = cpoint A k m\<rparr>)"
  shows "build_inv A a0 L g0 k m I' (Suc n) st' g' \<and> at_code A I' st' (Suc n) k"
proof -
  let ?F = "cpoint A k m" and ?Q = "{a0..<nalloc (hm g)}" and ?T = "tabs (hm g)" and ?l = "a_l A"
  let ?q = "nalloc (hm g)" and ?Q' = "{a0..<nalloc (hm g')}" and ?T' = "tabs (hm g')"
  note D = build_invD [OF inv]
  have F: "?F < 2 ^ a_g A" by (rule cpoint_less [OF ok k])
  note st = stack_okD [OF D(13) [OF F]]
  have a0: "a0 \<le> ?q" using D(1) by (simp add: tables_step_def chained_def)
  then have Q': "?Q' = insert ?q ?Q" "?q \<notin> ?Q" using g'(2) by auto
  have I: "I' q = I q" if "q \<in> ?Q" for q using that by (simp add: I'_def)
  have Iq: "I' ?q = \<lparr>t_w = n * ?l, t_j = j, t_s = ?F\<rparr>" by (simp add: I'_def)
  have cF: "covers A (I' ?q) ?F" using csize_pos [of A "n * ?l"] by (simp add: Iq covers_def)
  have tables: "table_ok A ?Q' I' (?T' q) (I' q) ?F" if q: "q \<in> ?Q'" for q
  proof (cases "q = ?q")
    case True
    moreover have "1 \<le> j" using j(1) n(1) by simp
    ultimately show ?thesis using j n F by (simp add: table_ok_def Iq covers_def)
  next
    case False
    then have qQ: "q \<in> ?Q" using q Q' by auto
    note t = table_okD [OF D(3) [OF qQ]]
    have "cell_ok A ?Q' I' (I q) N (?T' q (tindex A (t_w (I q)) (t_j (I q)) N))" if N: "N < ?F" "covers A (I q) N" for N
    proof -
      have "\<not> (n \<noteq> 0 \<and> q = b_u st (n - 1) \<and> tindex A (t_w (I q)) (t_j (I q)) N = tindex A ((n - 1) * ?l) ?l ?F)"
      proof safe
        assume n0: "0 < n" and qu: "q = b_u st (n - 1)"
          and e: "tindex A (t_w (I (b_u st (n - 1)))) (t_j (I (b_u st (n - 1)))) N = tindex A ((n - 1) * ?l) ?l ?F"
        have w: "t_w (I q) = (n - 1) * ?l" "t_j (I q) = ?l" "covers A (I q) ?F" using st(2,3) n(3) n0 qu by auto
        have nl: "(n - 1) * ?l + ?l = n * ?l" using n0 by (cases n) auto
        have "N div csize A (n * ?l) = ?F div csize A (n * ?l)"
          using tindex_covers [OF args_okD(3) [OF ok] D(3) [OF qQ] N(2) w(3) w(1) [symmetric], of ?l] e w(1,2) qu nl t(2)
          by (simp add: ac_simps)
        then have "?F \<le> N" using aligned_div(1) [OF n(2) _ csize_pos(1)] by blast
        then show False using N(1) by simp
      qed
      then have "?T' q (tindex A (t_w (I q)) (t_j (I q)) N) = ?T q (tindex A (t_w (I q)) (t_j (I q)) N)"
        using g'(3) [of q] qQ by auto
      then show ?thesis using cell_ok_mono [OF t(5) [OF N], of ?Q' I'] Q'(1) I by auto
    qed
    then show ?thesis using t(1-4,6) I [OF qQ] by (simp add: table_ok_def)
  qed
  have starts: "t_s (I' q) \<le> ?F" if "q \<in> ?Q'" for q using that Q'(1) Iq I D(2) by (cases "q = ?q") auto
  have F0: "?F = 0" if "n = 0" using D(14) [OF F] that by (simp add: level_ok_def)
  have top: "h = n - 1" if "h < n" "b_u st h = b_u st (n - 1)" for h
    using st(2) [of h] st(2) [of "n - 1"] that args_okD(1) [OF ok] by simp
  have stack: "stack_ok A ?Q' I' ?T' st' (Suc n) ?F"
    unfolding stack_ok_def
  proof (intro conjI allI impI ballI)
    fix h assume h: "h < Suc n"
    show "b_u st' h \<in> ?Q'" "t_w (I' (b_u st' h)) = h * ?l" "covers A (I' (b_u st' h)) ?F"
      "b_x st' h = rv (a_g A) (t_s (I' (b_u st' h)))"
      using h st(1-4) [of h] Q'(1) cF Iq I F0 D(5,6) by (cases "h = n"; auto simp: st' rv_0)+
  next
    fix h assume h: "Suc h < Suc n"
    then have u: "b_u st' h = b_u st h" "b_u st h \<in> ?Q" using st(1) by (simp_all add: st')
    show "t_j (I' (b_u st' h)) = ?l"
      using u I n(3) st(5) [of h] h by (cases "Suc h = n") auto
    show "?T' (b_u st' h) (tindex A (h * ?l) ?l ?F) =
        \<lparr>h_e = 16 + t_j (I' (b_u st' (Suc h))), h_b = ?l, h_v = Vt (b_u st' (Suc h))\<rparr>"
    proof (cases "Suc h = n")
      case True
      then have "h = n - 1" "n \<noteq> 0" by auto
      then show ?thesis using u g'(3) [of "b_u st h"] Iq by (simp add: st')
    next
      case False
      then have "b_u st h \<noteq> b_u st (n - 1)" using top [of h] h by auto
      then show ?thesis using u g'(3) [of "b_u st h"] st(1,6) [of h] st(1) [of "Suc h"] False h I by (simp add: st')
    qed
  next
    fix q assume q: "q \<in> ?Q'" "covers A (I' q) ?F"
    show "q \<in> b_u st' ` {..<Suc n}"
    proof (cases "q = ?q")
      case True
      then show ?thesis by (auto simp: st')
    next
      case False
      then have "q \<in> ?Q" using q(1) Q'(1) by auto
      then obtain h where "h < n" "q = b_u st h" using st(7) q(2) I by metis
      then show ?thesis by (auto simp: st')
    qed
  qed
  have lev: "level_ok A I' st' (Suc n) k ?F"
    using j(1,2,4) n(1) by (auto simp: level_ok_def Let_def st' Iq)
  have root: "I' a0 = \<lparr>t_w = 0, t_j = ?l, t_s = 0\<rparr> \<and> b_u st' 0 = a0"
  proof (cases "n = 0")
    case True
    then have "?q = a0" using D(11) a0 by auto
    then show ?thesis using True Iq F0 j(5) by (simp add: st')
  next
    case False
    then have "a0 \<in> ?Q" using D(11) a0 by auto
    then show ?thesis using D(12) False I by (simp add: st')
  qed
  have "build_inv A a0 L g0 k m I' (Suc n) st' g'"
    unfolding build_inv_def Let_def
    using g'(1,2) starts tables stack lev root D(4-9,11) Q' a0 by (auto simp: st')
  moreover have "at_code A I' st' (Suc n) k" using n(1) j(1) by (simp add: at_code_def st' Iq)
  ultimately show ?thesis ..
qed

lemma alloc_step:
  assumes "tables_step a0 L g0 g" "\<forall>i. hmalloc S i" "prev = (if nalloc (hm g) = a0 then None else Some (nalloc (hm g) - 1))"
  shows "\<exists>g'. table_alloc S z prev g = (Some (nalloc (hm g)), g') \<and> tables_step a0 L g0 g' \<and>
    nalloc (hm g') = Suc (nalloc (hm g)) \<and> tabs (hm g') = tabs (hm g)"
proof -
  let ?g' = "snd (table_alloc S z prev g)"
  have t: "table_alloc S z prev g = (Some (nalloc (hm g)), ?g')" using assms(2) by (simp add: table_alloc_def Let_def)
  have h: "g = g0\<lparr>hm := hm g\<rparr>" "chained a0 L (hm g)" "a0 \<le> nalloc (hm g)"
    "\<And>q. q < a0 \<Longrightarrow> tabs (hm g) q = tabs (hm g0) q \<and> links (hm g) q = links (hm g0) q"
    using assms(1) by (auto simp: tables_step_def chained_def)
  have "chained a0 L (hm ?g')"
    using chained_alloc [OF h(2) assms(3), of "hufts (hm g) + z + 1"] assms(2) by (simp add: table_alloc_def Let_def)
  moreover have "?g' = g0\<lparr>hm := hm ?g'\<rparr>"
    using assms(2) by (simp add: table_alloc_def Let_def) (subst h(1), simp)
  ultimately have "tables_step a0 L g0 ?g'"
    using h(3,4) assms(2,3) by (auto simp: tables_step_def table_alloc_def Let_def)
  then show ?thesis using t assms(2) by (intro exI [of _ ?g']) (simp add: table_alloc_def Let_def)
qed

lemma tables_stepI:
  assumes "tables_step a0 L g0 g" "g' = g\<lparr>hm := M\<rparr>" "chained a0 L M" "\<And>q. q < a0 \<Longrightarrow> tabs M q = tabs (hm g) q \<and> links M q = links (hm g) q"
  shows "tables_step a0 L g0 g'"
proof -
  have e: "g = g0\<lparr>hm := hm g\<rparr>" using assms(1) by (simp add: tables_step_def)
  have "g' = g0\<lparr>hm := M\<rparr>" unfolding assms(2) using arg_cong [OF e, of "\<lambda>g. g\<lparr>hm := M\<rparr>"] by simp
  then show ?thesis using assms by (simp add: tables_step_def)
qed

lemma set_entry_step: "tables_step a0 L g0 g \<Longrightarrow> a0 \<le> q \<Longrightarrow> tables_step a0 L g0 (set_entry q t r g)"
  by (rule tables_stepI [OF _ hm_set_entry]) (auto simp: tables_step_def chained_def)

lemma make_tables_ok:
  assumes ok: "args_ok A" and mem: "\<forall>i. hmalloc S i" and k: "1 \<le> k" "k \<le> a_g A" and m: "m + Suc a = a_c A k"
    and inv: "build_inv A a0 L g0 k m I n st g"
  shows "\<exists>I' n' st' g'. make_tables S (a_c A) (a_g A) (a_l A) k a st g = Return (Some st') g' \<and>
    build_inv A a0 L g0 k m I' n' st' g' \<and> at_code A I' st' n' k"
proof -
  let ?F = "cpoint A k m" and ?Q = "{a0..<nalloc (hm g)}" and ?T = "tabs (hm g)" and ?l = "a_l A"
  have mc: "m < a_c A k" using m by simp
  have F: "?F < 2 ^ a_g A" by (rule cpoint_less [OF ok k mc])
  note D = build_invD [OF inv]
  note st = stack_okD [OF D(13) [OF F]]
  have lev: "k \<le> n * ?l \<or> csize A (n * ?l) dvd ?F" "n = 0 \<Longrightarrow> ?F = 0"
    "0 < n \<Longrightarrow> b_q st = b_u st (n - 1) \<and> b_z st = 2 ^ t_j (I (b_u st (n - 1))) \<and> (n - 1) * ?l < k \<or> n * ?l < k"
    "0 < n \<Longrightarrow> t_j (I (b_u st (n - 1))) = ?l \<or> t_s (I (b_u st (n - 1))) + csize A (t_w (I (b_u st (n - 1))))
       \<le> cpoint A (t_w (I (b_u st (n - 1))) + t_j (I (b_u st (n - 1))) + 1) 0"
    using D(14) [OF F] by (auto simp: level_ok_def Let_def split: if_splits)
  have top: "t_j (I (b_u st (n - 1))) = ?l \<or> k \<le> (n - 1) * ?l + t_j (I (b_u st (n - 1)))" if "0 < n"
    by (rule table_bits_enough [OF ok k(1) st(3) st(2) lev(4)]) (use that in auto)
  have nl: "(n - 1) * ?l + ?l = n * ?l" if "0 < n" using that by (cases n) auto
  note l = args_okD(1-3) [OF ok]
  have len: "int k > b_w st + int ?l \<longleftrightarrow> n * ?l < k" unfolding D(8) by (simp del: of_nat_mult)
  show ?thesis
  proof (cases "n * ?l < k")
    case False
    then have n: "0 < n" using k(1) by (cases n) auto
    then have "at_code A I st n k" using lev(3) top nl False by (auto simp: at_code_def)
    moreover have "make_tables S (a_c A) (a_g A) ?l k a st g = Return (Some st) g"
      using False len by (simp add: make_tables.simps)
    ultimately show ?thesis using inv by blast
  next
    case True
    then have al: "csize A (n * ?l) dvd ?F" using lev(1) by simp
    have near: "k \<le> n * ?l + ?l"
    proof (rule code_near [OF ok k mc al True])
      show "n * ?l = 0 \<and> ?F = 0 \<or> ?l \<le> n * ?l" using lev(2) by (cases n) auto
    qed
    define j where "j = new_table_bits (a_c A) (a_g A) ?l (n * ?l) k a"
    note j = new_table_bits_ok [OF ok True near k(2) m al, folded j_def]
    have j0: "j = ?l" if "n = 0"
    proof (rule ccontr)
      assume "j \<noteq> ?l"
      then have "2 ^ a_g A \<le> cpoint A (j + 1) 0" using j(4) that by (simp add: csize_def)
      also have "\<dots> \<le> cpoint A (a_g A) 0" by (rule cpoint_mono) (use \<open>j \<noteq> ?l\<close> j(2) l(2) in auto)
      also have "\<dots> < cpoint A (a_g A + 1) 0" using args_okD(1,2,5) [OF ok] cpoint_Suc [of "a_g A" A] by (simp add: cpoint_def)
      finally show False using args_okD(4) [OF ok] by simp
    qed
    have tj: "t_j (I (b_u st (n - 1))) = ?l" if "n \<noteq> 0"
    proof (rule ccontr)
      assume ne: "t_j (I (b_u st (n - 1))) \<noteq> ?l"
      then have "k \<le> (n - 1) * ?l + t_j (I (b_u st (n - 1)))" using top that by auto
      moreover have "t_j (I (b_u st (n - 1))) \<le> ?l" using table_okD(6) [OF D(3)] st(1) [of "n - 1"] that by simp
      ultimately show False using True nl that by simp
    qed
    have e: "nalloc (hm g) = a0 \<longleftrightarrow> n = 0" using D(1,11) by (auto simp: tables_step_def chained_def)
    let ?q = "nalloc (hm g)" let ?t = "tindex A ((n - 1) * ?l) ?l ?F" let ?r = "\<lparr>h_e = 16 + j, h_b = ?l, h_v = Vt ?q\<rparr>"
    obtain g1 where g1: "table_alloc S (2 ^ j) (b_last st) g = (Some ?q, g1)" "tables_step a0 L g0 g1"
      "nalloc (hm g1) = Suc ?q" "tabs (hm g1) = tabs (hm g)"
      using alloc_step [OF D(1) mem, of "b_last st" "2 ^ j"] D(10) e by auto
    let ?st = "st\<lparr>b_h := int n, b_w := int (n * ?l), b_z := 2 ^ j, b_q := ?q, b_u := (b_u st)(n := ?q), b_last := Some ?q,
        b_t := (if b_last st = None then Some ?q else b_t st)\<rparr>"
    have stop: "make_tables S (a_c A) (a_g A) ?l k a s h = Return (Some s) h" if "b_w s = int (n * ?l)" for s h
    proof -
      have "\<not> int k > b_w s + int ?l" using near unfolding that by linarith
      then show ?thesis by (subst make_tables.simps) (simp only: if_True not_False_eq_True)
    qed
    have u: "make_tables S (a_c A) (a_g A) ?l k a st g =
      (if n = 0 then Return (Some ?st) g1
       else Return (Some (?st\<lparr>b_x := (b_x st)(n := b_i st), b_r := ?r\<rparr>)) (set_entry (b_u st (n - 1)) ?t ?r g1))"
    proof -
      have w: "nat (b_w st + int ?l) = n * ?l" "b_w st + int ?l = int (n * ?l)" "b_h st + 1 = int n"
        unfolding D(7,8) by (simp_all del: of_nat_mult)
      have i: "unat (drop_bit (nat (int (n * ?l) - int ?l)) (b_i st)) = ?t" if "n \<noteq> 0"
      proof -
        have "int (n * ?l) - int ?l = int ((n - 1) * ?l)" using nl that by (simp flip: nl del: of_nat_mult)
        then have "nat (int (n * ?l) - int ?l) = (n - 1) * ?l" by (simp only: nat_int)
        then show ?thesis using link_index [of A "(n - 1) * ?l" ?l ?F] l(3) al nl that True k(2) D(5) by simp
      qed
      have "int k > b_w st + int ?l" "?l \<noteq> 0" using True len l(1) by auto
      then show ?thesis
        using g1(1) stop i by (subst make_tables.simps) (simp add: w Let_def j_def [symmetric] nat_diff_distrib' del: of_nat_mult)
    qed
    show ?thesis
    proof (cases "n = 0")
      case n0: True
      have "build_inv A a0 L g0 k m (I(?q := \<lparr>t_w = n * ?l, t_j = j, t_s = ?F\<rparr>)) (Suc n) ?st g1 \<and>
          at_code A (I(?q := \<lparr>t_w = n * ?l, t_j = j, t_s = ?F\<rparr>)) ?st (Suc n) k"
        by (rule new_table_inv [OF ok k mc inv True al _ j(1-3) _ _ g1(2,3)]) (use n0 j0 j(4) g1(4) D(10) in simp_all)
      moreover have "make_tables S (a_c A) (a_g A) ?l k a st g = Return (Some ?st) g1" using u unfolding if_P [OF n0] .
      ultimately show ?thesis by blast
    next
      case n0: False
      let ?g = "set_entry (b_u st (n - 1)) ?t ?r g1" let ?st2 = "?st\<lparr>b_x := (b_x st)(n := b_i st), b_r := ?r\<rparr>"
      have "a0 \<le> b_u st (n - 1)" using st(1) [of "n - 1"] n0 by simp
      then have h: "tables_step a0 L g0 ?g" by (rule set_entry_step [OF g1(2)])
      have "build_inv A a0 L g0 k m (I(?q := \<lparr>t_w = n * ?l, t_j = j, t_s = ?F\<rparr>)) (Suc n) ?st2 ?g \<and>
          at_code A (I(?q := \<lparr>t_w = n * ?l, t_j = j, t_s = ?F\<rparr>)) ?st2 (Suc n) k"
        by (rule new_table_inv [OF ok k mc inv True al _ j(1-3) _ _ h])
          (use n0 tj j(4) g1(3,4) D(10) in \<open>simp_all add: hm_set_entry\<close>)
      moreover have "make_tables S (a_c A) (a_g A) ?l k a st g = Return (Some ?st2) ?g" using u unfolding if_not_P [OF n0] .
      ultimately show ?thesis by blast
    qed
  qed
qed

end
