(* ===== verification/SFI_Huft_Build.thy ===== *)
theory SFI_Huft_Build
  imports SFI_Huft_Props
begin

text \<open>
  The main loop of \<^verbatim>\<open>huft_build\<close>: filling in the entries of a code, going on to the next code and
  back to the table it belongs to keep the invariant, and so every number has its entry at the end.
\<close>

unbundle bit_operations_syntax

section \<open>One code\<close>

text \<open>The entries that begin with the same bits.\<close>

lemma tindex_mod: "i \<le> j \<Longrightarrow> tindex A w j N mod 2 ^ i = tindex A w i N"
  unfolding tindex_def unsigned_take_bit_eq by (simp add: min_absorb1 flip: take_bit_eq_mod)

lemma tindex_less: "tindex A w j N < 2 ^ j"
  by (simp add: tindex_def unsigned_take_bit_eq)

lemma dvd_diff_mod:
  assumes "s < 2 ^ b" shows "s \<le> t \<and> 2 ^ b dvd t - s \<longleftrightarrow> t mod 2 ^ b = (s :: nat)"
proof
  assume "s \<le> t \<and> 2 ^ b dvd t - s"
  then have "t mod 2 ^ b = s mod 2 ^ b" by (simp add: mod_eq_dvd_iff_nat)
  then show "t mod 2 ^ b = s" using assms by simp
next
  assume m: "t mod 2 ^ b = s"
  then have "s \<le> t" using mod_less_eq_dividend by blast
  moreover have "t mod 2 ^ b = s mod 2 ^ b" using m assms by simp
  ultimately show "s \<le> t \<and> 2 ^ b dvd t - s" by (simp add: mod_eq_dvd_iff_nat)
qed

lemma code_entry_ok:
  assumes "b_w st = int w" "w < k" "b_p st = min (cpos A k m) (a_n A)"
  shows "code_cell A w k m (b_r (code_entry (a_v A) (a_n A) (a_s A) (a_d A) (a_e A) k st))"
    "b_p (code_entry (a_v A) (a_n A) (a_s A) (a_d A) (a_e A) k st) = min (cpos A k (Suc m)) (a_n A)"
    "code_entry (a_v A) (a_n A) (a_s A) (a_d A) (a_e A) k st =
      st\<lparr>b_p := b_p (code_entry (a_v A) (a_n A) (a_s A) (a_d A) (a_e A) k st),
         b_r := b_r (code_entry (a_v A) (a_n A) (a_s A) (a_d A) (a_e A) k st)\<rparr>"
  using assms by (auto simp: code_entry_def code_cell_def Let_def cpos_def min_def nat_diff_distrib)

lemma mask_take: "x AND mask n = take_bit n (x :: u32)"
  by (simp add: take_bit_eq_mask)

text \<open>Going back: the loop stops at the highest level whose prefix the next code has.\<close>

lemma back_up_ok:
  "1 \<le> n \<Longrightarrow> b_h st = int n - 1 \<Longrightarrow> b_w st = int (n * l) - int l \<Longrightarrow> b_x st 0 = 0 \<Longrightarrow>
    \<exists>n'. 1 \<le> n' \<and> n' \<le> n \<and> back_up l st g = Return (st\<lparr>b_h := int n' - 1, b_w := int (n' * l) - int l\<rparr>) g \<and>
      take_bit ((n' - 1) * l) (b_i st) = b_x st (n' - 1) \<and>
      (\<forall>h. n' \<le> h \<longrightarrow> h < n \<longrightarrow> take_bit (h * l) (b_i st) \<noteq> b_x st h)"
proof (induction n arbitrary: st rule: nat_induct_at_least [of 1, consumes 1, case_names base step])
  case base
  then have "back_up l st g = Return st g" by (simp add: back_up.simps mask_take)
  moreover have "st = st\<lparr>b_h := int 1 - 1, b_w := int (1 * l) - int l\<rparr>" using base by simp
  ultimately show ?case using base by (intro exI [of _ 1]) simp
next
  case (step n)
  have w: "nat (b_w st) = n * l" "nat (b_h st) = n" "\<not> b_h st < 0" using step.prems by (simp_all add: algebra_simps flip: of_nat_mult)
  show ?case
  proof (cases "take_bit (n * l) (b_i st) = b_x st n")
    case True
    then have "back_up l st g = Return st g" using w by (simp add: back_up.simps mask_take)
    moreover have "st = st\<lparr>b_h := int (Suc n) - 1, b_w := int (Suc n * l) - int l\<rparr>" using step.prems by simp
    ultimately show ?thesis using True by (intro exI [of _ "Suc n"]) simp
  next
    case False
    let ?st = "st\<lparr>b_h := b_h st - 1, b_w := b_w st - int l\<rparr>"
    have "back_up l st g = back_up l ?st g" using False w by (subst back_up.simps) (simp add: mask_take)
    moreover obtain n' where n': "1 \<le> n'" "n' \<le> n"
      "back_up l ?st g = Return (?st\<lparr>b_h := int n' - 1, b_w := int (n' * l) - int l\<rparr>) g"
      "take_bit ((n' - 1) * l) (b_i st) = b_x st (n' - 1)"
      "\<And>h. n' \<le> h \<Longrightarrow> h < n \<Longrightarrow> take_bit (h * l) (b_i st) \<noteq> b_x st h"
      using step.IH [of ?st] step.prems by (auto simp: algebra_simps)
    ultimately show ?thesis using False by (intro exI [of _ n']) (auto simp: less_Suc_eq)
  qed
qed

lemma code_holds_frontier:
  "1 \<le> k \<Longrightarrow> k \<le> a_g A \<Longrightarrow> m < a_c A k \<Longrightarrow> cpoint A k m \<le> N \<Longrightarrow> N < cpoint A k (Suc m) \<Longrightarrow> code_holds A k m N"
  by (simp add: code_holds_def cpoint_add)

text \<open>A table that contains the code's first number contains the whole code.\<close>

lemma covers_code:
  assumes "csize A (t_w t) dvd t_s t" "t_w t \<le> k" "covers A t (cpoint A k m)" "cpoint A k m \<le> N" "N < cpoint A k (Suc m)"
  shows "covers A t N" "cpoint A k (Suc m) \<le> t_s t + csize A (t_w t)"
proof -
  show "cpoint A k (Suc m) \<le> t_s t + csize A (t_w t)"
    using nested(2) [OF csize_mono [OF assms(2), of A] assms(1) cpoint_dvd [of A k m], of "cpoint A k m"] assms(3)
    by (simp add: covers_def cpoint_add)
  then show "covers A t N" using assms(3-5) by (simp add: covers_def)
qed

text \<open>Filling the entries of a code in the table on top.\<close>

lemma fill_ok:
  assumes ok: "args_ok A" and k: "1 \<le> k" "k \<le> a_g A" "m < a_c A k" and inv: "build_inv A a0 L g0 k m I n st g"
    and at: "at_code A I st n k"
  defines "st1 \<equiv> code_entry (a_v A) (a_n A) (a_s A) (a_d A) (a_e A) k st" and "u \<equiv> b_u st (n - 1)"
  defines "g1 \<equiv> fill_entries (unat (drop_bit (nat (b_w st1)) (b_i st1))) (b_z st1) (nat (int k - b_w st1)) (b_q st1) (b_r st1) g"
  shows "\<exists>T. g1 = g\<lparr>hm := (hm g)\<lparr>tabs := T\<rparr>\<rparr> \<and> (\<forall>q. q \<noteq> u \<longrightarrow> T q = tabs (hm g) q) \<and>
    (\<forall>N. covers A (I u) N \<longrightarrow> T u (tindex A (t_w (I u)) (t_j (I u)) N) =
      (if cpoint A k m \<le> N \<and> N < cpoint A k (Suc m) then b_r st1 else tabs (hm g) u (tindex A (t_w (I u)) (t_j (I u)) N)))"
proof -
  let ?F = "cpoint A k m" and ?w = "(n - 1) * a_l A" and ?j = "t_j (I u)"
  note D = build_invD [OF inv]
  have F: "?F < 2 ^ a_g A" by (rule cpoint_less [OF ok k])
  note st = stack_okD [OF D(13) [OF F]]
  have n: "0 < n" "b_q st = u" "b_z st = 2 ^ ?j" "?w < k" "k \<le> ?w + ?j" using at by (simp_all add: at_code_def u_def)
  have uQ: "u \<in> {a0..<nalloc (hm g)}" "t_w (I u) = ?w" "covers A (I u) ?F" using st(1-3) n(1) by (simp_all add: u_def)
  note t = D(3) [OF uQ(1)]
  have wg: "?w + ?j \<le> a_g A" using table_okD(2) [OF t] uQ(2) by simp
  have bw: "b_w st = int ?w" using D(8) n(1) by (cases n) simp_all
  have s1: "b_w st1 = int ?w" "b_i st1 = rv (a_g A) ?F" "b_z st1 = 2 ^ ?j" "b_q st1 = u"
    unfolding st1_def by (subst code_entry_ok(3) [OF bw n(4) D(4)], simp add: bw D(5) n(2,3))+
  have start: "unat (drop_bit ?w (rv (a_g A) ?F)) = tindex A ?w (k - ?w) ?F"
    by (rule link_index) (use args_okD(3) [OF ok] n(4) k(2) cpoint_dvd [of A k m] in simp_all)
  have wn: "nat (b_w st1) = ?w" "nat (int k - b_w st1) = k - ?w" unfolding s1 using n(4) by (simp_all only: nat_int nat_minus_as_int)
  have g1: "g1 = fill_entries (tindex A ?w (k - ?w) ?F) (2 ^ ?j) (k - ?w) u (b_r st1) g"
    unfolding g1_def wn s1(2-4) start ..
  obtain T where T: "g1 = g\<lparr>hm := (hm g)\<lparr>tabs := T\<rparr>\<rparr>"
    "\<And>q t. T q t = (if q = u \<and> tindex A ?w (k - ?w) ?F \<le> t \<and> t < 2 ^ ?j \<and> 2 ^ (k - ?w) dvd t - tindex A ?w (k - ?w) ?F
      then b_r st1 else tabs (hm g) q t)"
    using fill_entries_tabs [of "tindex A ?w (k - ?w) ?F" "2 ^ ?j" "k - ?w" u "b_r st1" g] unfolding g1 by blast
  have "T u (tindex A ?w ?j N) = (if ?F \<le> N \<and> N < cpoint A k (Suc m) then b_r st1 else tabs (hm g) u (tindex A ?w ?j N))"
    if N: "covers A (I u) N" for N
  proof -
    have "tindex A ?w (k - ?w) ?F \<le> tindex A ?w ?j N \<and> 2 ^ (k - ?w) dvd tindex A ?w ?j N - tindex A ?w (k - ?w) ?F \<longleftrightarrow>
        tindex A ?w ?j N mod 2 ^ (k - ?w) = tindex A ?w (k - ?w) ?F"
      by (rule dvd_diff_mod [OF tindex_less])
    also have "\<dots> \<longleftrightarrow> tindex A ?w (k - ?w) N = tindex A ?w (k - ?w) ?F" using tindex_mod [of "k - ?w" ?j] n(5) by simp
    also have "\<dots> \<longleftrightarrow> N div csize A k = ?F div csize A k"
      using tindex_covers [OF args_okD(3) [OF ok] t N uQ(3) uQ(2) [symmetric], of "k - ?w"] n(4) k(2) by simp
    also have "\<dots> \<longleftrightarrow> ?F \<le> N \<and> N < cpoint A k (Suc m)"
      using aligned_div [OF cpoint_dvd [of A k m] _ csize_pos(1), of N] same_div [OF cpoint_dvd [of A k m], of ?F N]
      by (auto simp: cpoint_add)
    finally show ?thesis unfolding T(2) using tindex_less [of A ?w ?j N] by auto
  qed
  then show ?thesis using T uQ(2) by (intro exI [of _ T]) (auto simp: fun_eq_iff)
qed

text \<open>The links on the stack lead to every number of the code.\<close>

lemma stack_link:
  assumes ok: "args_ok A" and inv: "build_inv A a0 L g0 k m I n st g" and F: "cpoint A k m < 2 ^ a_g A"
    and h: "Suc h < n" and k: "Suc h * a_l A < k" and N: "covers A (I (b_u st (Suc h))) N"
  shows "tindex A (h * a_l A) (a_l A) N = tindex A (h * a_l A) (a_l A) (cpoint A k m)"
proof -
  let ?F = "cpoint A k m" and ?Q = "{a0..<nalloc (hm g)}" and ?q = "b_u st h" and ?r = "b_u st (Suc h)"
  note D = build_invD [OF inv]
  note st = stack_okD [OF D(13) [OF F]]
  have q: "?q \<in> ?Q" "t_w (I ?q) = h * a_l A" "covers A (I ?q) ?F" "t_j (I ?q) = a_l A" using st(1-3) [of h] st(5) [OF h] h by simp_all
  have r: "?r \<in> ?Q" "t_w (I ?r) = Suc h * a_l A" "covers A (I ?r) ?F" using st(1-3) [of "Suc h"] h by simp_all
  note tq = table_okD [OF D(3) [OF q(1)]]
  note tr = table_okD [OF D(3) [OF r(1)]]
  have c: "covers A (I ?q) N"
  proof -
    have "csize A (t_w (I ?r)) dvd csize A (t_w (I ?q))" unfolding q(2) r(2) by (rule csize_mono) simp
    from nested [OF this tq(3) tr(3)] have "t_s (I ?q) \<le> t_s (I ?r)" "t_s (I ?r) + csize A (t_w (I ?r)) \<le> t_s (I ?q) + csize A (t_w (I ?q))"
      using q(3) r(3) by (auto simp: covers_def)
    then show ?thesis using N by (simp add: covers_def)
  qed
  have "N div csize A (Suc h * a_l A) = ?F div csize A (Suc h * a_l A)"
    using same_div [OF tr(3)] N r(2,3) by (simp add: covers_def)
  then show ?thesis
    using tindex_covers [OF args_okD(3) [OF ok] D(3) [OF q(1)] c q(3) q(2) [symmetric], of "a_l A"] tq(2) q(2,4) by (simp add: ac_simps)
qed

lemma stack_inj:
  assumes "args_ok A" "stack_ok A Q I T st n F" "h < n" "h' < n" "b_u st h = b_u st h'" shows "h = h'"
proof -
  have "h * a_l A = h' * a_l A" using stack_okD(2) [OF assms(2)] assms(3-5) by metis
  then show ?thesis using args_okD(1) [OF assms(1)] by simp
qed

lemma fill_tables:
  assumes ok: "args_ok A" and k: "1 \<le> k" "k \<le> a_g A" "m < a_c A k" and inv: "build_inv A a0 L g0 k m I n st g"
    and at: "at_code A I st n k"
    and T: "\<forall>q. q \<noteq> b_u st (n - 1) \<longrightarrow> T q = tabs (hm g) q"
      "\<forall>N. covers A (I (b_u st (n - 1))) N \<longrightarrow> T (b_u st (n - 1)) (tindex A (t_w (I (b_u st (n - 1)))) (t_j (I (b_u st (n - 1)))) N) =
        (if cpoint A k m \<le> N \<and> N < cpoint A k (Suc m) then r
         else tabs (hm g) (b_u st (n - 1)) (tindex A (t_w (I (b_u st (n - 1)))) (t_j (I (b_u st (n - 1)))) N))"
    and r: "code_cell A ((n - 1) * a_l A) k m r" and q: "q \<in> {a0..<nalloc (hm g)}"
  shows "table_ok A {a0..<nalloc (hm g)} I (T q) (I q) (cpoint A k (Suc m))"
proof -
  let ?F = "cpoint A k m" and ?u = "b_u st (n - 1)" and ?Q = "{a0..<nalloc (hm g)}" and ?l = "a_l A"
  note D = build_invD [OF inv]
  have F: "?F < 2 ^ a_g A" by (rule cpoint_less [OF ok k])
  note st = stack_okD [OF D(13) [OF F]]
  have n: "0 < n" "(n - 1) * ?l < k" "k \<le> (n - 1) * ?l + t_j (I ?u)" using at by (simp_all add: at_code_def)
  note t = table_okD [OF D(3) [OF q]]
  have "cell_ok A ?Q I (I q) N (T q (tindex A (t_w (I q)) (t_j (I q)) N))" if N: "N < cpoint A k (Suc m)" "covers A (I q) N" for N
  proof (cases "N < ?F")
    case True
    then have "T q (tindex A (t_w (I q)) (t_j (I q)) N) = tabs (hm g) q (tindex A (t_w (I q)) (t_j (I q)) N)"
      using T N(2) by (cases "q = ?u") auto
    then show ?thesis using t(5) [OF True N(2)] by simp
  next
    case False
    then have "covers A (I q) ?F" using D(2) [OF q] N(2) by (simp add: covers_def)
    then obtain h where h: "h < n" "q = b_u st h" using st(7) [OF q] by blast
    show ?thesis
    proof (cases "Suc h < n")
      case False
      then have u: "q = ?u" using h by (metis Suc_lessI diff_Suc_1)
      have "code_holds A k m N" using k N(1) \<open>\<not> N < ?F\<close> by (intro code_holds_frontier) auto
      moreover have "T q (tindex A (t_w (I q)) (t_j (I q)) N) = r" using T(2) N \<open>\<not> N < ?F\<close> u by simp
      moreover have "t_w (I q) = (n - 1) * ?l" using st(2) n(1) u by simp
      ultimately show ?thesis using r n(3) u unfolding cell_ok_def by auto
    next
      case True
      let ?v = "b_u st (Suc h)"
      have v: "?v \<in> ?Q" "t_w (I ?v) = Suc h * ?l" "covers A (I ?v) ?F" using st(1-3) True by auto
      have "Suc h * ?l \<le> (n - 1) * ?l" using True by (intro mult_le_mono1) simp
      then have hk: "Suc h * ?l < k" using n(2) by simp
      have cN: "covers A (I ?v) N"
        by (rule covers_code(1) [OF table_okD(3) [OF D(3) [OF v(1)]] _ v(3)]) (use v(2) hk N \<open>\<not> N < ?F\<close> in simp_all)
      have "q \<noteq> ?u" using stack_inj [OF ok D(13) [OF F] h(1), of "n - 1"] True h n(1) by auto
      then have "T q (tindex A (t_w (I q)) (t_j (I q)) N) = \<lparr>h_e = 16 + t_j (I ?v), h_b = ?l, h_v = Vt ?v\<rparr>"
        using T(1) stack_link [OF ok inv F True hk cN] st(6) [OF True] st(2) [OF h(1)] st(5) [OF True] h(2) by simp
      then show ?thesis using v cN st(2) [OF h(1)] st(5) [OF True] h(2) unfolding cell_ok_def by auto
    qed
  qed
  then show ?thesis using t(1-4,6) by (simp add: table_ok_def)
qed

section \<open>The next code\<close>

lemma prefix_covers:
  assumes ok: "args_ok A" and t: "table_ok A Q I a t F0" and w: "t_w t = w" and F: "F < 2 ^ a_g A"
  shows "take_bit w (rv (a_g A) F) = rv (a_g A) (t_s t) \<longleftrightarrow> covers A t F"
proof -
  note D = table_okD [OF t]
  have w': "w \<le> a_g A" "a_g A \<le> 32" using D(2) w args_okD(3) [OF ok] by simp_all
  have "take_bit w (rv (a_g A) (t_s t)) = rv (a_g A) (t_s t)" using rv_aligned [OF w'(2,1)] D(3) w by (simp add: csize_def)
  then have "take_bit w (rv (a_g A) F) = rv (a_g A) (t_s t) \<longleftrightarrow> F div csize A w = t_s t div csize A w"
    using rv_prefix [OF w'(2,1) F D(4)] by (simp add: csize_def)
  also have "\<dots> \<longleftrightarrow> covers A t F"
  proof
    have d: "csize A w dvd t_s t" using D(3) w by simp
    show "covers A t F" if "F div csize A w = t_s t div csize A w"
      using aligned_div [OF d that csize_pos(1)] w by (simp add: covers_def)
    show "F div csize A w = t_s t div csize A w" if "covers A t F"
      by (rule same_div [OF d]) (use that w csize_pos(1) [of A w] in \<open>simp_all add: covers_def\<close>)
  qed
  finally show ?thesis .
qed

text \<open>The tables of the stack up to the level at which the loop stops are those of the new frontier.\<close>

lemma stack_back:
  assumes ok: "args_ok A" and k: "1 \<le> k" "k \<le> a_g A" "m < a_c A k" and inv: "build_inv A a0 L g0 k m I n st g"
    and at: "at_code A I st n k" and F': "cpoint A k (Suc m) < 2 ^ a_g A"
    and n': "1 \<le> n'" "n' \<le> n" "take_bit ((n' - 1) * a_l A) (rv (a_g A) (cpoint A k (Suc m))) = b_x st (n' - 1)"
      "\<And>h. n' \<le> h \<Longrightarrow> h < n \<Longrightarrow> take_bit (h * a_l A) (rv (a_g A) (cpoint A k (Suc m))) \<noteq> b_x st h"
    and h: "h < n"
  shows "covers A (I (b_u st h)) (cpoint A k (Suc m)) \<longleftrightarrow> h < n'"
proof -
  let ?F = "cpoint A k m" and ?F' = "cpoint A k (Suc m)" and ?l = "a_l A"
  note D = build_invD [OF inv]
  have F: "?F < 2 ^ a_g A" by (rule cpoint_less [OF ok k])
  note st = stack_okD [OF D(13) [OF F]]
  have c: "take_bit (h * ?l) (rv (a_g A) ?F') = b_x st h \<longleftrightarrow> covers A (I (b_u st h)) ?F'" if "h < n" for h
    using prefix_covers [OF ok D(3) [OF st(1) [OF that]] st(2) [OF that] F'] st(4) [OF that] by simp
  show ?thesis
  proof (cases "h < n'")
    case True
    have "n' - 1 < n" using n'(1,2) by simp
    from st(1-3) [OF this] c [OF this] n'(3) have r: "b_u st (n' - 1) \<in> {a0..<nalloc (hm g)}" "t_w (I (b_u st (n' - 1))) = (n' - 1) * ?l"
      "covers A (I (b_u st (n' - 1))) ?F" "covers A (I (b_u st (n' - 1))) ?F'" by simp_all
    have "csize A (t_w (I (b_u st (n' - 1)))) dvd csize A (t_w (I (b_u st h)))"
      unfolding r(2) st(2) [OF h] by (rule csize_mono, rule mult_le_mono1) (use True in simp)
    from nested [OF this table_okD(3) [OF D(3) [OF st(1) [OF h]]] table_okD(3) [OF D(3) [OF r(1)]], of ?F] st(3) [OF h] r(3,4)
    show ?thesis using True by (simp add: covers_def)
  next
    case False
    then show ?thesis using c [OF h] n'(4) [of h] h by auto
  qed
qed

lemma level_back:
  assumes ok: "args_ok A" and k: "1 \<le> k" "k \<le> a_g A" "m < a_c A k" and inv: "build_inv A a0 L g0 k m I n st g"
    and at: "at_code A I st n k" and n': "1 \<le> n'" "n' \<le> n"
    and c: "\<And>h. h < n \<Longrightarrow> covers A (I (b_u st h)) (cpoint A k (Suc m)) \<longleftrightarrow> h < n'"
    and st': "b_q st' = b_q st" "b_z st' = b_z st" "b_u st' = b_u st"
  shows "level_ok A I st' n' k (cpoint A k (Suc m))"
proof -
  let ?F = "cpoint A k m" and ?F' = "cpoint A k (Suc m)" and ?l = "a_l A"
  note D = build_invD [OF inv]
  have F: "?F < 2 ^ a_g A" by (rule cpoint_less [OF ok k])
  note st = stack_okD [OF D(13) [OF F]]
  have n: "b_q st = b_u st (n - 1)" "b_z st = 2 ^ t_j (I (b_u st (n - 1)))" "(n - 1) * ?l < k"
    "k \<le> (n - 1) * ?l + t_j (I (b_u st (n - 1)))" "0 < n" using at by (simp_all add: at_code_def)
  show ?thesis
  proof (cases "n' = n")
    case True
    have "t_j (I (b_u st (n - 1))) \<le> ?l" using table_okD(6) [OF D(3) [OF st(1)]] n(5) by simp
    moreover have "(n - 1) * ?l + ?l = n * ?l" using n(5) by (cases n) auto
    ultimately have "k \<le> n * ?l" using n(4) by simp
    moreover have "t_j (I (b_u st (n - 1))) = ?l \<or> t_s (I (b_u st (n - 1))) + csize A (t_w (I (b_u st (n - 1))))
        \<le> cpoint A (t_w (I (b_u st (n - 1))) + t_j (I (b_u st (n - 1))) + 1) 0"
      using D(14) [OF F] n(5) by (auto simp: level_ok_def Let_def)
    ultimately show ?thesis using n True by (simp add: level_ok_def Let_def st')
  next
    case False
    then have lt: "n' < n" using n'(2) by simp
    have "n' * ?l \<le> (n - 1) * ?l" using lt by (intro mult_le_mono1) simp
    then have nk: "n' * ?l < k" using n(3) by (rule le_less_trans)
    have t: "t_w (I (b_u st n')) = n' * ?l" "csize A (t_w (I (b_u st n'))) dvd t_s (I (b_u st n'))" "covers A (I (b_u st n')) ?F"
      using st(2,3) [OF lt] table_okD(3) [OF D(3) [OF st(1) [OF lt]]] by simp_all
    have "?F' \<le> t_s (I (b_u st n')) + csize A (t_w (I (b_u st n')))" 
      by (rule covers_code(2) [where N = ?F, OF t(2) _ t(3)]) (use t(1) nk in \<open>simp_all add: cpoint_add\<close>)
    moreover have "\<not> covers A (I (b_u st n')) ?F'" using c [OF lt] by simp
    moreover have "t_s (I (b_u st n')) \<le> ?F'" using t(3) by (simp add: covers_def cpoint_add)
    ultimately have "?F' = t_s (I (b_u st n')) + csize A (t_w (I (b_u st n')))" unfolding covers_def by linarith
    then have "csize A (n' * ?l) dvd ?F'" using t(1,2) by simp
    moreover have "t_j (I (b_u st (n' - 1))) = ?l" using st(5) [of "n' - 1"] lt n'(1) by simp
    ultimately show ?thesis using nk n'(1) by (simp add: level_ok_def Let_def st')
  qed
qed


lemma code_step_ok:
  assumes ok: "args_ok A" and k: "1 \<le> k" "k \<le> a_g A" "m < a_c A k" and inv: "build_inv A a0 L g0 k m I n st g"
    and at: "at_code A I st n k"
  defines "st1 \<equiv> code_entry (a_v A) (a_n A) (a_s A) (a_d A) (a_e A) k st"
  defines "g1 \<equiv> fill_entries (unat (drop_bit (nat (b_w st1)) (b_i st1))) (b_z st1) (nat (int k - b_w st1)) (b_q st1) (b_r st1) g"
  shows "\<exists>n' st'. back_up (a_l A) (st1\<lparr>b_i := next_code (b_i st1) (push_bit (k - 1) 1)\<rparr>) g1 = Return st' g1 \<and>
    build_inv A a0 L g0 k (Suc m) I n' st' g1"
proof -
  let ?F = "cpoint A k m" and ?F' = "cpoint A k (Suc m)" and ?l = "a_l A" and ?u = "b_u st (n - 1)"
  note D = build_invD [OF inv]
  have F: "?F < 2 ^ a_g A" by (rule cpoint_less [OF ok k])
  note st = stack_okD [OF D(13) [OF F]]
  have n: "0 < n" "b_w st = int ((n - 1) * ?l)" "(n - 1) * ?l < k" using at D(8) by (cases n; simp add: at_code_def)+
  note ce = code_entry_ok [OF n(2,3) D(4), folded st1_def]
  obtain T where T: "g1 = g\<lparr>hm := (hm g)\<lparr>tabs := T\<rparr>\<rparr>" "\<forall>q. q \<noteq> ?u \<longrightarrow> T q = tabs (hm g) q"
    "\<forall>N. covers A (I ?u) N \<longrightarrow> T ?u (tindex A (t_w (I ?u)) (t_j (I ?u)) N) =
      (if ?F \<le> N \<and> N < ?F' then b_r st1 else tabs (hm g) ?u (tindex A (t_w (I ?u)) (t_j (I ?u)) N))"
    using fill_ok [OF ok k inv at] unfolding st1_def g1_def by blast
  have uQ: "a0 \<le> ?u" using st(1) n(1) by simp
  have heap: "tables_step a0 L g0 g1"
    by (rule tables_stepI [OF D(1) T(1)]) (use D(1) T(2) uQ in \<open>auto simp: tables_step_def chained_def\<close>)
  let ?st2 = "st1\<lparr>b_i := next_code (b_i st1) (push_bit (k - 1) 1)\<rparr>"
  have s: "b_i st1 = rv (a_g A) ?F" "b_h st1 = b_h st" "b_w st1 = b_w st" "b_x st1 = b_x st" "b_u st1 = b_u st" "b_q st1 = b_q st"
    "b_z st1 = b_z st" "b_t st1 = b_t st" "b_last st1 = b_last st" by (subst ce(3), simp add: D(5))+
  have i: "next_code (b_i st1) (push_bit (k - 1) 1) = rv (a_g A) ?F'"
    using next_code_rv [of "a_g A" k ?F] args_okD(3) [OF ok] k(1,2) cpoint_dvd [of A k m] by (simp add: s cpoint_add csize_def)
  obtain n' where n': "1 \<le> n'" "n' \<le> n" "back_up ?l ?st2 g1 = Return (?st2\<lparr>b_h := int n' - 1, b_w := int (n' * ?l) - int ?l\<rparr>) g1"
    "take_bit ((n' - 1) * ?l) (rv (a_g A) ?F') = b_x st (n' - 1)"
    "\<And>h. n' \<le> h \<Longrightarrow> h < n \<Longrightarrow> take_bit (h * ?l) (rv (a_g A) ?F') \<noteq> b_x st h"
    using back_up_ok [of n ?st2 ?l g1] n(1) D(6-8) s i by auto
  let ?st = "?st2\<lparr>b_h := int n' - 1, b_w := int (n' * ?l) - int ?l\<rparr>" and ?Q = "{a0..<nalloc (hm g)}"
  have nn: "n \<noteq> 0" "n' \<noteq> 0" "nalloc (hm g1) = nalloc (hm g)" "tabs (hm g1) = T" using n(1) n'(1) T(1) by simp_all
  have tables: "table_ok A ?Q I (T q) (I q) ?F'" if "q \<in> ?Q" for q by (rule fill_tables [OF ok k inv at T(2,3) ce(1) that])
  have starts: "t_s (I q) \<le> ?F'" if "q \<in> ?Q" for q using D(2) [OF that] by (simp add: cpoint_add)
  have front: "stack_ok A ?Q I T ?st n' ?F' \<and> level_ok A I ?st n' k ?F'" if F': "?F' < 2 ^ a_g A"
  proof
    have c: "covers A (I (b_u st h)) ?F' \<longleftrightarrow> h < n'" if "h < n" for h
      by (rule stack_back [OF ok k inv at F' n'(1,2,4,5) that])
    show "level_ok A I ?st n' k ?F'" by (rule level_back [OF ok k inv at n'(1,2) c]) (simp_all add: s)
    have link: "T (b_u st h) (tindex A (h * ?l) ?l ?F') = \<lparr>h_e = 16 + t_j (I (b_u st (Suc h))), h_b = ?l, h_v = Vt (b_u st (Suc h))\<rparr>"
      if h: "Suc h < n'" for h
    proof -
      have hn: "Suc h < n" using h n'(2) by simp
      have "Suc h * ?l \<le> (n - 1) * ?l" using hn by (intro mult_le_mono1) simp
      then have hk: "Suc h * ?l < k" using n(3) by (rule le_less_trans)
      have "b_u st h \<noteq> ?u" using stack_inj [OF ok D(13) [OF F], of h "n - 1"] hn by auto
      then show ?thesis
        using T(2) st(6) [OF hn] stack_link [OF ok inv F hn hk] c [OF hn] h by simp
    qed
    have all: "q \<in> b_u st ` {..<n'}" if q: "q \<in> ?Q" "covers A (I q) ?F'" for q
    proof (cases "covers A (I q) ?F")
      case True
      then show ?thesis using st(7) [OF q(1) True] c q(2) by auto
    next
      case False
      then show ?thesis using q D(2) [OF q(1)] by (auto simp: covers_def cpoint_add)
    qed
    show "stack_ok A ?Q I T ?st n' ?F'"
      unfolding stack_ok_def
      using st(1-5) c link all n'(2) by (auto simp: s)
  qed
  have "build_inv A a0 L g0 k (Suc m) I n' ?st g1"
    unfolding build_inv_def Let_def nn(3,4)
    using heap starts tables front ce(2) i D(6,9-12) nn(1,2) by (auto simp: s)
  then show ?thesis using n'(3) by blast
qed


section \<open>All codes\<close>

lemma codes_loop_ok:
  assumes ok: "args_ok A" and mem: "\<forall>i. hmalloc S i" and k: "1 \<le> k" "k \<le> a_g A"
  shows "build_inv A a0 L g0 k m I n st g \<Longrightarrow> m + a = a_c A k \<Longrightarrow>
    \<exists>I' n' st' g'. codes_loop S A k a st g = Return (Some st') g' \<and> build_inv A a0 L g0 k (a_c A k) I' n' st' g'"
proof (induction a arbitrary: m I n st g)
  case 0
  then show ?case by auto
next
  case (Suc a)
  obtain I1 n1 st1 g1 where 1: "make_tables S (a_c A) (a_g A) (a_l A) k a st g = Return (Some st1) g1"
    "build_inv A a0 L g0 k m I1 n1 st1 g1" "at_code A I1 st1 n1 k"
    using make_tables_ok [OF ok mem k Suc.prems(2,1)] by blast
  have m: "m < a_c A k" "Suc m + a = a_c A k" using Suc.prems(2) by simp_all
  obtain n2 st2 g2 where 2: "build_inv A a0 L g0 k (Suc m) I1 n2 st2 g2"
    "codes_loop S A k (Suc a) st g = codes_loop S A k a st2 g2"
    using code_step_ok [OF ok k m(1) 1(2,3)] 1(1) by (auto simp: Let_def)
  show ?case unfolding 2(2) by (rule Suc.IH [OF 2(1) m(2)])
qed

lemma next_length:
  assumes "build_inv A a0 L g0 k (a_c A k) I n st g" "1 \<le> k" shows "build_inv A a0 L g0 (Suc k) 0 I n st g"
proof -
  have F: "cpoint A (Suc k) 0 = cpoint A k (a_c A k)" "cpos A (Suc k) 0 = cpos A k (a_c A k)"
    using assms(2) by (simp_all add: cpoint_def cpos_def)
  have "level_ok A I st n (Suc k) (cpoint A k (a_c A k))" if l: "level_ok A I st n k (cpoint A k (a_c A k))"
  proof -
    have "Suc k \<le> n * a_l A \<or> csize A (n * a_l A) dvd cpoint A k (a_c A k)"
      using l cpoint_dvd [of A k "a_c A k"] by (cases "k = n * a_l A") (auto simp: level_ok_def)
    then show ?thesis using l less_SucI [of "(n - 1) * a_l A" k] less_SucI [of "n * a_l A" k] unfolding level_ok_def Let_def by argo
  qed
  then show ?thesis using assms(1) unfolding build_inv_def F Let_def by blast
qed

lemma lengths_loop_ok:
  assumes ok: "args_ok A" and mem: "\<forall>i. hmalloc S i"
  shows "1 \<le> k \<Longrightarrow> k \<le> a_g A + 1 \<Longrightarrow> build_inv A a0 L g0 k 0 I n st g \<Longrightarrow>
    \<exists>I' n' st' g'. lengths_loop S A k st g = Return (Some st') g' \<and> build_inv A a0 L g0 (a_g A + 1) 0 I' n' st' g'"
proof (induction "a_g A + 1 - k" arbitrary: k I n st g rule: less_induct)
  case less
  show ?case
  proof (cases "k \<le> a_g A")
    case False
    then show ?thesis using less.prems by (auto simp: lengths_loop.simps le_Suc_eq)
  next
    case True
    obtain I1 n1 st1 g1 where 1: "codes_loop S A k (a_c A k) st g = Return (Some st1) g1" "build_inv A a0 L g0 k (a_c A k) I1 n1 st1 g1"
      using codes_loop_ok [OF ok mem less.prems(1) True less.prems(3)] by auto
    have "a_g A + 1 - Suc k < a_g A + 1 - k" using True by simp
    from less.hyps [OF this _ _ next_length [OF 1(2) less.prems(1)]] show ?thesis
      using True 1(1) by (simp add: lengths_loop.simps [of S A k])
  qed
qed

text \<open>The tables for all codes, with their root.\<close>

definition decodes :: "build_args \<Rightarrow> nat \<Rightarrow> (nat \<Rightarrow> tinfo) \<Rightarrow> nat \<Rightarrow> (nat \<Rightarrow> nat \<Rightarrow> huft) \<Rightarrow> bool" where
  "decodes A a0 I z T \<longleftrightarrow> a0 < z \<and> I a0 = \<lparr>t_w = 0, t_j = a_l A, t_s = 0\<rparr> \<and>
     (\<forall>q \<in> {a0..<z}. table_ok A {a0..<z} I (T q) (I q) (2 ^ a_g A))"

lemma build_start:
  assumes "\<And>i. 1 \<le> i \<Longrightarrow> i < k \<Longrightarrow> a_c A i = 0"
  shows "build_inv A (nalloc (hm g)) (live (hm g)) g k 0 I 0 (empty_build (a_l A)) g"
proof -
  have "cpoint A k 0 = 0" "cpos A k 0 = 0" using assms by (simp_all add: cpoint_def cpos_def)
  then show ?thesis
    by (simp add: build_inv_def Let_def tables_step_def chained_def empty_build_def stack_ok_def level_ok_def rv_0)
qed

lemma build_loop_ok:
  assumes ok: "args_ok A" and mem: "\<forall>i. hmalloc S i" and k: "1 \<le> k" "k \<le> a_g A" "\<And>i. 1 \<le> i \<Longrightarrow> i < k \<Longrightarrow> a_c A i = 0"
  shows "\<exists>I st h. lengths_loop S A k (empty_build (a_l A)) g = Return (Some st) h \<and> b_t st = Some (nalloc (hm g)) \<and>
    decodes A (nalloc (hm g)) I (nalloc (hm h)) (tabs (hm h)) \<and> tables_step (nalloc (hm g)) (live (hm g)) g h"
proof -
  obtain I n st h where h: "lengths_loop S A k (empty_build (a_l A)) g = Return (Some st) h"
    "build_inv A (nalloc (hm g)) (live (hm g)) g (a_g A + 1) 0 I n st h"
    using lengths_loop_ok [OF ok mem k(1) _ build_start [OF k(3)]] k(2) by fastforce
  note D = build_invD [OF h(2)]
  have "n \<noteq> 0"
  proof
    assume "n = 0"
    then show False using D(15) args_okD(4) [OF ok] by simp
  qed
  then show ?thesis using h(1) D(1-3,9,11,12) args_okD(4) [OF ok] by (auto simp: decodes_def)
qed

end
