(* ===== verification/SFI_Inflate.thy ===== *)
theory SFI_Inflate
  imports SFI_Huft
begin

text \<open>
  The decoder of the compression program (\<^verbatim>\<open>inflate\<close> in \<^verbatim>\<open>src/gzip-mod.c\<close>): the three kinds of block and
  the driver. Positions in the window and bit counts are natural numbers; the distance of a match
  is computed in 32-bit arithmetic as in the source. A loop that a malformed table could keep
  going for ever is a partial function into options.
\<close>

unbundle bit_operations_syntax

section \<open>Tables\<close>

definition border :: "nat list" where
  "border = [16, 17, 18, 0, 8, 7, 9, 6, 10, 5, 11, 4, 12, 3, 13, 2, 14, 1, 15]"

definition cplens :: "nat list" where
  "cplens = [3, 4, 5, 6, 7, 8, 9, 10, 11, 13, 15, 17, 19, 23, 27, 31,
     35, 43, 51, 59, 67, 83, 99, 115, 131, 163, 195, 227, 258, 0, 0]"

definition cplext :: "nat list" where
  "cplext = [0, 0, 0, 0, 0, 0, 0, 0, 1, 1, 1, 1, 2, 2, 2, 2,
     3, 3, 3, 3, 4, 4, 4, 4, 5, 5, 5, 5, 0, 99, 99]"

definition cpdist :: "nat list" where
  "cpdist = [1, 2, 3, 4, 5, 7, 9, 13, 17, 25, 33, 49, 65, 97, 129, 193,
     257, 385, 513, 769, 1025, 1537, 2049, 3073, 4097, 6145, 8193, 12289, 16385, 24577]"

definition cpdext :: "nat list" where
  "cpdext = [0, 0, 0, 0, 1, 1, 2, 2, 3, 3, 4, 4, 5, 5, 6, 6,
     7, 7, 8, 8, 9, 9, 10, 10, 11, 11, 12, 12, 13, 13]"

definition mask_bits :: "u32 list" where
  "mask_bits = [0x0000,
     0x0001, 0x0003, 0x0007, 0x000f, 0x001f, 0x003f, 0x007f, 0x00ff,
     0x01ff, 0x03ff, 0x07ff, 0x0fff, 0x1fff, 0x3fff, 0x7fff, 0xffff]"

definition lbits :: nat where "lbits = 9"
definition dbits :: nat where "dbits = 6"

text \<open>The value of the last bits, \<^verbatim>\<open>(unsigned)b & mask_bits[n]\<close>.\<close>

definition low_bits :: "nat \<Rightarrow> u32 \<Rightarrow> nat" where
  "low_bits n b = unat (b AND mask_bits ! n)"

section \<open>The window\<close>

text \<open>\<^verbatim>\<open>if (w == WSIZE) { flush_output(w); w = 0; }\<close>, with the new \<^verbatim>\<open>w\<close> as the result.\<close>

definition wrap_window :: "sysio \<Rightarrow> nat \<Rightarrow> gz \<Rightarrow> nat gzip" where
  "wrap_window S w g =
     (if w = WSIZE then out_bind (flush_window S (g\<lparr>outcnt := w\<rparr>)) (\<lambda>_. Return 0) else Return w g)"

definition put_slide :: "sysio \<Rightarrow> byte \<Rightarrow> nat \<Rightarrow> gz \<Rightarrow> nat gzip" where
  "put_slide S c w g = wrap_window S (w + 1) (g\<lparr>window := (window g)(w := c)\<rparr>)"

text \<open>\<^verbatim>\<open>memcpy(slide + w, slide + d, e)\<close>, the forward copy of the sandbox library, and the slow loop.\<close>

definition slide_memcpy :: "nat \<Rightarrow> nat \<Rightarrow> nat \<Rightarrow> (nat \<Rightarrow> byte) \<Rightarrow> nat \<Rightarrow> byte" where
  "slide_memcpy w d e = fold (\<lambda>i a. a(w + i := a (d + i))) [0..<e]"

fun slide_slow :: "nat \<Rightarrow> nat \<Rightarrow> nat \<Rightarrow> (nat \<Rightarrow> byte) \<Rightarrow> nat \<Rightarrow> byte" where
  "slide_slow w d e a =
     (let a = a(w := a d) in if 1 < e then slide_slow (w + 1) (d + 1) (e - 1) a else a)"

text \<open>The copy of a match: \<^verbatim>\<open>d &= WSIZE-1\<close>, then as much as neither end of the window interrupts.\<close>

function copy_match :: "sysio \<Rightarrow> nat \<Rightarrow> u32 \<Rightarrow> nat \<Rightarrow> gz \<Rightarrow> nat gzip" where
  "copy_match S n d w g =
     (let d = d AND 0x7fff; e = min n (WSIZE - max (unat d) w); n' = n - e;
          fast = (of_nat w - d \<ge> (of_nat e :: u32));
          a = (if fast then slide_memcpy w (unat d) e (window g) else slide_slow w (unat d) e (window g))
      in out_bind (wrap_window S (w + e) (g\<lparr>window := a\<rparr>)) (\<lambda>w' g.
           if n' = 0 then Return w' g
           else if e = 0 then Halt Unterminated
           else copy_match S n' (d + of_nat e) w' g))"
  by pat_completeness auto
termination by (relation "measure (\<lambda>(S, n, d, w, g). n)") (auto simp: Let_def)

declare slide_slow.simps [simp del] copy_match.simps [simp del]

section \<open>Codes\<close>

text \<open>The value of an entry, \<^verbatim>\<open>t->v.n\<close>.\<close>

definition huft_n :: "huft \<Rightarrow> nat" where
  "huft_n t = (case h_v t of Vn n \<Rightarrow> unat n | Vt _ \<Rightarrow> 0)"

text \<open>The loop through the sub-tables: \<open>None\<close> is an invalid code.\<close>

partial_function (option) sub_tables :: "sysio \<Rightarrow> nat \<Rightarrow> huft \<Rightarrow> bitbuf \<Rightarrow> gz \<Rightarrow> (huft option \<times> bitbuf) gzip option" where
  "sub_tables S w t B g =
     (if h_e t \<le> 16 then Some (Return (Some t, B) g)
      else if h_e t = 99 then Some (Return (None, B) g)
      else let e = h_e t - 16
        in if 16 < e then Some (Halt (Out_of_bounds (int e)))
           else case NEEDBITS S w e (DUMPBITS (h_b t) B) g of
             Return B g \<Rightarrow>
               (case h_v t of
                  Vt q \<Rightarrow> sub_tables S w (tabs (hm g) q (low_bits e (fst B))) B g
                | Vn _ \<Rightarrow> Some (Halt (Out_of_bounds (int e))))
           | Longjmp g \<Rightarrow> Some (Longjmp g)
           | Halt s \<Rightarrow> Some (Halt s))"

definition opt_bind :: "'a gzip option \<Rightarrow> ('a \<Rightarrow> gz \<Rightarrow> 'b gzip option) \<Rightarrow> 'b gzip option" where
  "opt_bind r k = Option.bind r (\<lambda>r.
     case r of Return x g \<Rightarrow> k x g | Longjmp g \<Rightarrow> Some (Longjmp g) | Halt s \<Rightarrow> Some (Halt s))"

lemma opt_bind_simps [simp]:
  "opt_bind (Some (Return x g)) k = k x g" "opt_bind (Some (Halt s)) k = Some (Halt s)"
  by (simp_all add: opt_bind_def)

text \<open>One code of a tree: the table for \<open>bl\<close> bits first, then its sub-tables; a null table is undefined.\<close>

definition decode_entry :: "sysio \<Rightarrow> nat option \<Rightarrow> nat \<Rightarrow> nat \<Rightarrow> bitbuf \<Rightarrow> gz \<Rightarrow> (huft option \<times> bitbuf) gzip option" where
  "decode_entry S lt bl w B g =
     opt_bind (Some (NEEDBITS S w bl B g)) (\<lambda>(b, k) g.
       case lt of
         None \<Rightarrow> Some (Halt (Out_of_bounds 0))
       | Some q \<Rightarrow>
           opt_bind (sub_tables S w (tabs (hm g) q (low_bits bl b)) (b, k) g) (\<lambda>(t, B) g.
             case t of None \<Rightarrow> Some (Return (None, B) g) | Some t \<Rightarrow> Some (Return (Some t, DUMPBITS (h_b t) B) g)))"

text \<open>A number of extra bits, \<^verbatim>\<open>NEEDBITS(e)\<close> and \<^verbatim>\<open>DUMPBITS(e)\<close>.\<close>

definition extra_bits :: "sysio \<Rightarrow> nat \<Rightarrow> nat \<Rightarrow> bitbuf \<Rightarrow> gz \<Rightarrow> (nat \<times> bitbuf) gzip" where
  "extra_bits S w e B g = out_bind (NEEDBITS S w e B g) (\<lambda>(b, k). Return (low_bits e b, DUMPBITS e (b, k)))"

text \<open>What one turn of the main loop ends with.\<close>

datatype decoded = Bad | End_block bitbuf nat | Next bitbuf nat

definition inflate_match :: "sysio \<Rightarrow> huft \<Rightarrow> nat option \<Rightarrow> nat \<Rightarrow> nat \<Rightarrow> bitbuf \<Rightarrow> gz \<Rightarrow> decoded gzip option" where
  "inflate_match S t dt bd w B g =
     opt_bind (Some (extra_bits S w (h_e t) B g)) (\<lambda>(x, B) g.
     opt_bind (decode_entry S dt bd w B g) (\<lambda>(t', B) g.
       case t' of
         None \<Rightarrow> Some (Return Bad g)
       | Some t' \<Rightarrow>
           opt_bind (Some (extra_bits S w (h_e t') B g)) (\<lambda>(y, B) g.
             Some (out_bind (copy_match S (huft_n t + x) (of_nat w - of_nat (huft_n t') - of_nat y) w g)
               (\<lambda>w'. Return (Next B w'))))))"

definition inflate_turn ::
  "sysio \<Rightarrow> nat option \<Rightarrow> nat option \<Rightarrow> nat \<Rightarrow> nat \<Rightarrow> nat \<Rightarrow> bitbuf \<Rightarrow> gz \<Rightarrow> decoded gzip option" where
  "inflate_turn S lt dt bl bd w B g =
     opt_bind (decode_entry S lt bl w B g) (\<lambda>(t, B) g.
       case t of
         None \<Rightarrow> Some (Return Bad g)
       | Some t \<Rightarrow>
           if h_e t = 16 then Some (out_bind (put_slide S (of_nat (huft_n t)) w g) (\<lambda>w'. Return (Next B w')))
           else if h_e t = 15 then Some (Return (End_block B w) g)
           else inflate_match S t dt bd w B g)"

text \<open>The local copies of the globals are stored back at the end of the block only.\<close>

partial_function (option) codes_turns ::
  "sysio \<Rightarrow> nat option \<Rightarrow> nat option \<Rightarrow> nat \<Rightarrow> nat \<Rightarrow> nat \<Rightarrow> bitbuf \<Rightarrow> gz \<Rightarrow> nat gzip option" where
  "codes_turns S lt dt bl bd w B g =
     Option.bind (inflate_turn S lt dt bl bd w B g) (\<lambda>r.
       case r of
         Return t g \<Rightarrow>
           (case t of
              Bad \<Rightarrow> Some (Return 1 g)
            | End_block B w \<Rightarrow> Some (Return 0 (g\<lparr>outcnt := w, bb := fst B, bk := snd B\<rparr>))
            | Next B w \<Rightarrow> codes_turns S lt dt bl bd w B g)
       | Longjmp g \<Rightarrow> Some (Longjmp g)
       | Halt s \<Rightarrow> Some (Halt s))"

definition inflate_codes :: "sysio \<Rightarrow> nat option \<Rightarrow> nat option \<Rightarrow> nat \<Rightarrow> nat \<Rightarrow> gz \<Rightarrow> nat gzip option" where
  "inflate_codes S lt dt bl bd g = codes_turns S lt dt bl bd (outcnt g) (bb g, bk g) g"

section \<open>Blocks\<close>

fun stored_bytes :: "sysio \<Rightarrow> nat \<Rightarrow> nat \<Rightarrow> bitbuf \<Rightarrow> gz \<Rightarrow> (nat \<times> bitbuf) gzip" where
  "stored_bytes S 0 w B g = Return (w, B) g"
| "stored_bytes S (Suc n) w B g =
     out_bind (NEEDBITS S w 8 B g) (\<lambda>(b, k) g.
     out_bind (put_slide S (ucast b) w g) (\<lambda>w'. stored_bytes S n w' (DUMPBITS 8 (b, k))))"

definition inflate_stored :: "sysio \<Rightarrow> gz \<Rightarrow> nat gzip" where
  "inflate_stored S g =
     (let w = outcnt g; B = DUMPBITS (bk g mod 8) (bb g, bk g)
      in out_bind (NEEDBITS S w 16 B g) (\<lambda>(b, k) g.
         let n = low_bits 16 b
         in out_bind (NEEDBITS S w 16 (DUMPBITS 16 (b, k)) g) (\<lambda>(b, k) g.
            if of_nat n \<noteq> NOT b AND (0xffff :: u32) then Return 1 g
            else out_bind (stored_bytes S n w (DUMPBITS 16 (b, k)) g) (\<lambda>(w, b, k) g.
              Return 0 (g\<lparr>outcnt := w, bb := b, bk := k\<rparr>)))))"

definition fixed_lit_lengths :: "nat list" where
  "fixed_lit_lengths = replicate 144 8 @ replicate 112 9 @ replicate 24 7 @ replicate 8 8"

definition inflate_fixed :: "sysio \<Rightarrow> gz \<Rightarrow> nat gzip option" where
  "inflate_fixed S g =
     opt_bind (Some (huft_build S fixed_lit_lengths 257 cplens cplext 7 g)) (\<lambda>(i, lt, bl) g.
       if i \<noteq> 0 then Some (Return i g)
       else opt_bind (Some (huft_build S (replicate 30 5) 0 cpdist cpdext 5 g)) (\<lambda>(i, dt, bd) g.
         if i > 1 then Some (out_bind (huft_free lt g) (\<lambda>_. Return i))
         else opt_bind (inflate_codes S lt dt bl bd g) (\<lambda>r g.
           if r \<noteq> 0 then Some (Return 1 g)
           else Some (out_bind (huft_free lt g) (\<lambda>_ g. out_bind (huft_free dt g) (\<lambda>_. Return 0))))))"

text \<open>The lengths of the code for lengths, in the order of \<^verbatim>\<open>border\<close>.\<close>

fun bl_lengths :: "sysio \<Rightarrow> nat \<Rightarrow> nat list \<Rightarrow> nat list \<Rightarrow> bitbuf \<Rightarrow> gz \<Rightarrow> (nat list \<times> bitbuf) gzip" where
  "bl_lengths S w [] ll B g = Return (ll, B) g"
| "bl_lengths S w (o' # os) ll B g =
     out_bind (extra_bits S w 3 B g) (\<lambda>(x, B). bl_lengths S w os (ll[o' := x]) B)"

text \<open>The lengths of both codes: \<^verbatim>\<open>i\<close> of \<^verbatim>\<open>n\<close> are known. \<open>None\<close> is \<^verbatim>\<open>return 1\<close>. The inner \<^verbatim>\<open>while (j--)\<close>
  writes a run.\<close>

definition put_run :: "nat \<Rightarrow> nat \<Rightarrow> nat \<Rightarrow> nat list \<Rightarrow> nat list" where
  "put_run i j l ll = fold (\<lambda>m ll. ll[i + m := l]) [0..<j] ll"

function code_lengths ::
  "sysio \<Rightarrow> nat \<Rightarrow> nat \<Rightarrow> nat \<Rightarrow> nat \<Rightarrow> nat \<Rightarrow> nat \<Rightarrow> nat list \<Rightarrow> bitbuf \<Rightarrow> gz \<Rightarrow> (nat list \<times> bitbuf) option gzip" where
  "code_lengths S w q bl n i l ll B g =
     (if i < n
      then out_bind (NEEDBITS S w bl B g) (\<lambda>(b, k) g.
        let t = tabs (hm g) q (low_bits bl b); B = DUMPBITS (h_b t) (b, k); j = huft_n t
        in if j < 16 then code_lengths S w q bl n (i + 1) j (ll[i := j]) B g
           else if j = 16
           then out_bind (extra_bits S w 2 B g) (\<lambda>(x, B).
             if i + (3 + x) > n then Return None else code_lengths S w q bl n (i + (3 + x)) l (put_run i (3 + x) l ll) B)
           else if j = 17
           then out_bind (extra_bits S w 3 B g) (\<lambda>(x, B).
             if i + (3 + x) > n then Return None else code_lengths S w q bl n (i + (3 + x)) 0 (put_run i (3 + x) 0 ll) B)
           else out_bind (extra_bits S w 7 B g) (\<lambda>(x, B).
             if i + (11 + x) > n then Return None else code_lengths S w q bl n (i + (11 + x)) 0 (put_run i (11 + x) 0 ll) B))
      else Return (Some (ll, B)) g)"
  by pat_completeness auto
termination by (relation "measure (\<lambda>(S, w, q, bl, n, i, l, ll, B, g). n - i)") auto

declare code_lengths.simps [simp del]

text \<open>After the lengths: build the two tables, decode, free.\<close>

definition dynamic_codes :: "sysio \<Rightarrow> nat list \<Rightarrow> nat \<Rightarrow> nat \<Rightarrow> gz \<Rightarrow> nat gzip option" where
  "dynamic_codes S ll nl nd g =
     opt_bind (Some (huft_build S (take nl ll) 257 cplens cplext lbits g)) (\<lambda>(i, lt, bl) g.
       if i \<noteq> 0 then Some (out_bind (if i = 1 then huft_free lt g else Return () g) (\<lambda>_. Return i))
       else opt_bind (Some (huft_build S (take nd (drop nl ll)) 0 cpdist cpdext dbits g)) (\<lambda>(i, dt, bd) g.
         if i \<noteq> 0
         then Some (out_bind (if i = 1 then huft_free dt g else Return () g) (\<lambda>_ g. out_bind (huft_free lt g) (\<lambda>_. Return i)))
         else opt_bind (inflate_codes S lt dt bl bd g) (\<lambda>r g.
           if r \<noteq> 0 then Some (Return 1 g)
           else Some (out_bind (huft_free lt g) (\<lambda>_ g. out_bind (huft_free dt g) (\<lambda>_. Return 0))))))"

text \<open>The array \<^verbatim>\<open>ll\<close> is not initialised; every entry that is used is set.\<close>

definition inflate_dynamic :: "sysio \<Rightarrow> gz \<Rightarrow> nat gzip option" where
  "inflate_dynamic S g =
     (let w = outcnt g in
      opt_bind (Some (extra_bits S w 5 (bb g, bk g) g)) (\<lambda>(x, B) g. let nl = 257 + x in
      opt_bind (Some (extra_bits S w 5 B g)) (\<lambda>(x, B) g. let nd = 1 + x in
      opt_bind (Some (extra_bits S w 4 B g)) (\<lambda>(x, B) g. let nb = 4 + x in
      if nl > 286 \<or> nd > 30 then Some (Return 1 g)
      else opt_bind (Some (bl_lengths S w (take nb border) (replicate 316 0) B g)) (\<lambda>(ll, B) g.
        let ll = fold (\<lambda>o' ll. ll[o' := 0]) (drop nb border) ll in
        opt_bind (Some (huft_build S (take 19 ll) 19 [] [] 7 g)) (\<lambda>(i, lt, bl) g.
          if i \<noteq> 0 then Some (out_bind (if i = 1 then huft_free lt g else Return () g) (\<lambda>_. Return i))
          else case lt of
            None \<Rightarrow> Some (Return 2 g)
          | Some q \<Rightarrow>
              opt_bind (Some (code_lengths S w q bl (nl + nd) 0 0 ll B g)) (\<lambda>r g.
                case r of
                  None \<Rightarrow> Some (Return 1 g)
                | Some (ll, b, k) \<Rightarrow>
                    opt_bind (Some (huft_free lt g)) (\<lambda>_ g.
                      dynamic_codes S ll nl nd (g\<lparr>bb := b, bk := k\<rparr>)))))))))"

section \<open>The driver\<close>

text \<open>The result and the last-block flag.\<close>

definition inflate_block :: "sysio \<Rightarrow> gz \<Rightarrow> (nat \<times> bool) gzip option" where
  "inflate_block S g =
     (let w = outcnt g in
      opt_bind (Some (extra_bits S w 1 (bb g, bk g) g)) (\<lambda>(e, B) g.
      opt_bind (Some (extra_bits S w 2 B g)) (\<lambda>(t, b, k) g.
        let g = g\<lparr>bb := b, bk := k\<rparr>; ret = (\<lambda>r g. Some (Return (r, e \<noteq> 0) g))
        in if t = 2 then opt_bind (inflate_dynamic S g) ret
           else if t = 0 then opt_bind (Some (inflate_stored S g)) ret
           else if t = 1 then opt_bind (inflate_fixed S g) ret
           else ret 2 g)))"

fun return_bytes :: "nat \<Rightarrow> gz \<Rightarrow> gz" where
  "return_bytes k g = (if 8 \<le> k then return_bytes (k - 8) (g\<lparr>bk := k - 8, inptr := inptr g - 1\<rparr>) else g)"

partial_function (option) inflate_blocks :: "sysio \<Rightarrow> gz \<Rightarrow> nat gzip option" where
  "inflate_blocks S g =
     Option.bind (inflate_block S (g\<lparr>hm := (hm g)\<lparr>hufts := 0\<rparr>\<rparr>)) (\<lambda>r.
       case r of
         Return (r, e) g \<Rightarrow>
           if r \<noteq> 0 then Some (Return r g)
           else if e
           then (let g = return_bytes (bk g) g in Some (out_bind (flush_window S g) (\<lambda>_. Return 0)))
           else inflate_blocks S g
       | Longjmp g \<Rightarrow> Some (Longjmp g)
       | Halt s \<Rightarrow> Some (Halt s))"

definition inflate :: "sysio \<Rightarrow> gz \<Rightarrow> nat gzip option" where
  "inflate S g = inflate_blocks S (g\<lparr>outcnt := 0, bk := 0, bb := 0\<rparr>)"

end
