(* ===== verification/SFI_Huft_Decode.thy ===== *)
theory SFI_Huft_Decode
  imports SFI_Huft_Build SFI_Inflate
begin

text \<open>
  The contract of \<^verbatim>\<open>huft_build\<close>: from a list of code lengths it builds tables with which the decoder
  reads the canonical code of each symbol, consumes exactly its bits, and finds its entry.
\<close>

unbundle bit_operations_syntax

section \<open>The counts\<close>

lemma count_lengths_eq: "count_lengths b = count_list b"
proof -
  have "foldl (\<lambda>c l. c(l := c l + 1)) f b = (\<lambda>l. f l + count_list b l)" for f :: "nat \<Rightarrow> nat"
    by (induction b arbitrary: f) (auto simp: fun_eq_iff)
  then show ?thesis by (simp add: count_lengths_def)
qed

lemma first_length_ok:
  "c k \<noteq> 0 \<Longrightarrow> j \<le> k \<Longrightarrow> k \<le> BMAX \<Longrightarrow>
    j \<le> first_length c j \<and> first_length c j \<le> k \<and> c (first_length c j) \<noteq> 0 \<and> (\<forall>i. j \<le> i \<longrightarrow> i < first_length c j \<longrightarrow> c i = 0)"
proof (induction c j rule: first_length.induct)
  case (1 c j)
  show ?case
  proof (cases "c j = 0")
    case True
    then have "Suc j \<le> k" using "1.prems" by (metis not_less_eq_eq le_antisym)
    then have u: "first_length c j = first_length c (j + 1)" "j \<le> BMAX" "j + 1 \<le> k"
      using True "1.prems" by (simp_all add: first_length.simps [of c j])
    have "c i = 0" if "\<forall>i. j + 1 \<le> i \<longrightarrow> i < n \<longrightarrow> c i = 0" "j \<le> i" "i < n" for i n using that True by (cases "i = j") auto
    moreover note "1.IH" [OF conjI [OF u(2) True] "1.prems"(1) u(3) "1.prems"(3)]
    ultimately show ?thesis unfolding u(1) using add_leD1 by blast
  next
    case False
    then show ?thesis using "1.prems" by (simp add: first_length.simps [of c j])
  qed
qed

lemma last_length_ok:
  "c k \<noteq> 0 \<Longrightarrow> 1 \<le> k \<Longrightarrow> k \<le> i \<Longrightarrow>
    k \<le> last_length c i \<and> last_length c i \<le> i \<and> c (last_length c i) \<noteq> 0 \<and> (\<forall>j. last_length c i < j \<longrightarrow> j \<le> i \<longrightarrow> c j = 0)"
  by (induction c i rule: last_length.induct) (auto simp: le_Suc_eq)

text \<open>The numbers of \<open>t\<close> bits that begin with a code of at most \<open>t\<close> bits.\<close>

definition taken :: "(nat \<Rightarrow> nat) \<Rightarrow> nat \<Rightarrow> nat" where
  "taken c t = (\<Sum>s = 1..t. c s * 2 ^ (t - s))"

lemma taken_Suc: "taken c (Suc t) = 2 * taken c t + c (Suc t)"
  by (simp add: taken_def sum_distrib_left Suc_diff_le ac_simps)

lemma taken_mono: "t \<le> i \<Longrightarrow> 2 ^ t < taken c t \<Longrightarrow> 2 ^ i < taken c i"
  by (induction i rule: dec_induct) (auto simp: taken_Suc)

lemma missing_codes_ok:
  "j \<le> i \<Longrightarrow> missing_codes c (Suc j) (Suc i) (2 * (2 ^ j - int (taken c j))) =
    (if taken c (Suc i) \<le> 2 ^ Suc i then Some (2 ^ Suc i - int (taken c (Suc i))) else None)"
proof (induction "i - j" arbitrary: j rule: less_induct)
  case less
  have y: "2 * (2 ^ j - int (taken c j)) - int (c (Suc j)) = 2 ^ Suc j - int (taken c (Suc j))" by (simp add: taken_Suc)
  have p: "int (taken c t) > 2 ^ t \<longleftrightarrow> 2 ^ t < taken c t" for t by (metis of_nat_less_iff of_nat_numeral of_nat_power)
  show ?case
  proof (cases "2 ^ Suc j < taken c (Suc j)")
    case True
    then have "2 ^ Suc i < taken c (Suc i)" by (rule taken_mono [rotated]) (use less.prems in simp)
    then show ?thesis using True p [of "Suc j"] by (subst missing_codes.simps) (simp only: y Let_def if_True, simp)
  next
    case False
    show ?thesis
    proof (cases "j < i")
      case True
      then have "i - Suc j < i - j" "Suc j \<le> i" by simp_all
      from less.hyps [OF this] show ?thesis using False True p [of "Suc j"]
        by (subst missing_codes.simps) (simp only: y Let_def, simp add: taken_Suc)
    next
      case nl: False
      then have "j = i" using less.prems by simp
      then show ?thesis using False p [of "Suc j"] by (subst missing_codes.simps) (simp only: y Let_def, simp add: taken_Suc)
    qed
  qed
qed

lemma length_offsets_ok:
  "length_offsets c n j p x = (\<lambda>q. if p < q \<and> q \<le> p + n then j + (\<Sum>s = p..<q. c s) else x q)"
proof (induction c n j p x rule: length_offsets.induct)
  case (2 c i j p x)
  have "(\<Sum>s = p..<q. c s) = c p + (\<Sum>s = Suc p..<q. c s)" if "p < q" for q using that by (rule sum.atLeast_Suc_lessThan)
  moreover have "length_offsets c (Suc i) j p x = (\<lambda>q. if p + 1 < q \<and> q \<le> p + 1 + i then j + c p + (\<Sum>s = p + 1..<q. c s)
      else (x(p + 1 := j + c p)) q)"
    using "2.IH" by (simp only: length_offsets.simps Let_def)
  ultimately show ?case by (auto simp: fun_eq_iff)
qed (auto simp: fun_eq_iff)

lemma sort_values_ok:
  "(\<And>l l'. 1 \<le> l \<Longrightarrow> l < l' \<Longrightarrow> l' \<le> g \<Longrightarrow> x l + count_list b l \<le> x l') \<Longrightarrow> \<forall>l \<in> set b. l \<le> g \<Longrightarrow> sort_values b i x v = (x', v') \<Longrightarrow>
    (\<forall>l. 1 \<le> l \<longrightarrow> x' l = x l + count_list b l) \<and>
    (\<forall>p. (\<forall>l. 1 \<le> l \<longrightarrow> l \<le> g \<longrightarrow> \<not> (x l \<le> p \<and> p < x l + count_list b l)) \<longrightarrow> v' p = v p) \<and>
    (\<forall>t < length b. b ! t \<noteq> 0 \<longrightarrow> v' (x (b ! t) + count_list (take t b) (b ! t)) = i + t)"
proof (induction b i x v rule: sort_values.induct)
  case (2 l b i x v)
  show ?case
  proof (cases "l = 0")
    case True
    have "\<forall>l \<in> set b. l \<le> g" "sort_values b (i + 1) x v = (x', v')" using "2.prems" True by simp_all
    from "2.IH"(2) [OF _ _ this] True "2.prems"(1) show ?thesis
      by (auto simp: nth_Cons less_Suc_eq_0_disj split: nat.splits)
  next
    case False
    let ?x = "x(l := x l + 1)" and ?v = "v(x l := i)"
    have s: "\<forall>l \<in> set b. l \<le> g" "sort_values b (i + 1) ?x ?v = (x', v')" using "2.prems"(2,3) False by simp_all
    have d: "?x k + count_list b k \<le> ?x k'" if "1 \<le> k" "k < k'" "k' \<le> g" for k k'
      using "2.prems"(1) [OF that] by (auto split: if_splits)
    have D: "\<And>k. 1 \<le> k \<Longrightarrow> x' k = ?x k + count_list b k"
      "\<And>p. (\<And>k. 1 \<le> k \<Longrightarrow> k \<le> g \<Longrightarrow> \<not> (?x k \<le> p \<and> p < ?x k + count_list b k)) \<Longrightarrow> v' p = ?v p"
      "\<And>t. t < length b \<Longrightarrow> b ! t \<noteq> 0 \<Longrightarrow> v' (?x (b ! t) + count_list (take t b) (b ! t)) = i + 1 + t"
      using "2.IH"(1) [OF False d s] by blast+
    have out: "\<not> (?x k \<le> x l \<and> x l < ?x k + count_list b k)" if k: "1 \<le> k" "k \<le> g" for k
    proof (cases k l rule: linorder_cases)
      case less
      then show ?thesis using "2.prems"(1) [of k l] "2.prems"(2) k by auto
    next
      case greater
      then show ?thesis using "2.prems"(1) [of l k] k False by auto
    qed simp
    have "v' (x l) = i" using D(2) [OF out] by simp
    moreover have "v' p = v p" if o: "\<And>k. 1 \<le> k \<Longrightarrow> k \<le> g \<Longrightarrow> \<not> (x k \<le> p \<and> p < x k + count_list (l # b) k)" for p
    proof -
      have "l \<le> g" using "2.prems"(2) by simp
      then have "p \<noteq> x l" using o [of l] False by auto
      moreover have "\<not> (?x k \<le> p \<and> p < ?x k + count_list b k)" if "1 \<le> k" "k \<le> g" for k using o [OF that] by auto
      ultimately show ?thesis using D(2) [of p] by simp
    qed
    moreover have "x' k = x k + count_list (l # b) k" if "1 \<le> k" for k using D(1) [OF that] by auto
    moreover have "v' (x ((l # b) ! t) + count_list (take t (l # b)) ((l # b) ! t)) = i + t"
      if "t < length (l # b)" "(l # b) ! t \<noteq> 0" for t
    proof (cases t)
      case (Suc t')
      then show ?thesis using D(3) [of t'] that by (cases "b ! t' = l") simp_all
    qed (use \<open>v' (x l) = i\<close> in simp)
    ultimately show ?thesis by blast
  qed
qed simp

section \<open>The arguments of the main loop\<close>

text \<open>The share of all codes that the lengths take, in units of \<open>2\<^sup>-\<^sup>1\<^sup>6\<close>; at most all of them.\<close>

definition kraft :: "nat list \<Rightarrow> nat" where
  "kraft b = (\<Sum>l\<leftarrow>b. if l = 0 then 0 else 2 ^ (16 - l))"

definition lengths_ok :: "nat list \<Rightarrow> bool" where
  "lengths_ok b \<longleftrightarrow> (\<forall>l \<in> set b. l \<le> 16) \<and> (\<exists>l \<in> set b. l \<noteq> 0) \<and> kraft b \<le> 2 ^ 16"

lemma taken_longest:
  assumes "\<And>s. g < s \<Longrightarrow> c s = 0" "g \<le> n" shows "taken c n = 2 ^ (n - g) * taken c g"
  using assms(2) by (induction n rule: dec_induct) (simp_all add: taken_Suc assms(1) Suc_diff_le)

lemma kraft_taken:
  assumes "\<And>l. l \<in> set b \<Longrightarrow> l \<le> g" "g \<le> 16" shows "kraft b = 2 ^ (16 - g) * taken (count_list b) g"
proof -
  have z: "count_list b s = 0" if "g < s" for s using assms(1) [of s] that by (auto simp: count_list_0_iff)
  have "kraft b = (\<Sum>l \<in> {..16}. count_list b l * (if l = 0 then 0 else 2 ^ (16 - l)))"
    unfolding kraft_def by (rule sum_list_map_eq_sum_count2) (use assms in \<open>auto intro: order_trans\<close>)
  also have "\<dots> = taken (count_list b) 16"
    unfolding taken_def by (rule sum.mono_neutral_cong_right) auto
  also have "\<dots> = 2 ^ (16 - g) * taken (count_list b) g" by (rule taken_longest) (use z assms(2) in auto)
  finally show ?thesis .
qed

text \<open>The root has at most \<open>m\<close> bits, unless all codes are longer.\<close>

definition root_ok :: "nat \<Rightarrow> nat list \<Rightarrow> nat \<Rightarrow> bool" where
  "root_ok m b bl \<longleftrightarrow> bl \<le> m \<or> (\<forall>l \<in> set b. l \<noteq> 0 \<longrightarrow> bl \<le> l)"

lemma root_ok_mono: "root_ok m b bl \<Longrightarrow> m \<le> n \<Longrightarrow> root_ok n b bl"
  by (auto simp: root_ok_def)

text \<open>The arguments are those of the code: the counts are completed with the missing codes.\<close>

definition args_for :: "nat list \<Rightarrow> nat \<Rightarrow> nat \<Rightarrow> nat list \<Rightarrow> nat list \<Rightarrow> nat \<Rightarrow> build_args \<Rightarrow> bool" where
  "args_for b y s d e m A \<longleftrightarrow>
     1 \<le> a_l A \<and> a_l A \<le> a_g A \<and> a_g A \<le> 16 \<and> (m \<le> a_l A \<or> a_l A = a_g A) \<and> root_ok m b (a_l A) \<and>
     (\<exists>j. 1 \<le> j \<and> j \<le> a_l A \<and> count_list b j \<noteq> 0) \<and> count_list b (a_g A) \<noteq> 0 \<and> (\<forall>l \<in> set b. l \<le> a_g A) \<and>
     a_c A = (count_list b)(a_g A := count_list b (a_g A) + y) \<and> taken (count_list b) (a_g A) + y = 2 ^ a_g A \<and>
     a_n A = (\<Sum>t = 1..a_g A. count_list b t) \<and> a_s A = s \<and> a_d A = d \<and> a_e A = e \<and>
     (\<forall>t < length b. b ! t \<noteq> 0 \<longrightarrow> a_v A (cpos A (b ! t) (count_list (take t b) (b ! t))) = t)"

lemma sort_offsets:
  assumes "\<forall>l \<in> set b. l \<le> i" "1 \<le> i" "c = (count_list b)(i := count_list b i + y)"
    "sort_values b 0 (length_offsets c (i - 1) 0 1 ((\<lambda>_. 0)(1 := 0))) (\<lambda>_. 0) = (x, v)"
  shows "x i = (\<Sum>t = 1..i. count_list b t)"
    "\<forall>t < length b. b ! t \<noteq> 0 \<longrightarrow> v ((\<Sum>s = 1..<b ! t. c s) + count_list (take t b) (b ! t)) = t"
proof -
  let ?x = "length_offsets c (i - 1) 0 1 ((\<lambda>_. 0)(1 := 0))"
  have x: "?x l = (\<Sum>s = 1..<l. c s)" if "1 \<le> l" "l \<le> i" for l using that assms(2) by (simp add: length_offsets_ok)
  have cs: "(\<Sum>s = 1..<l. c s) = (\<Sum>s = 1..<l. count_list b s)" if "l \<le> i" for l
    using that by (intro sum.cong) (auto simp: assms(3))
  have o: "?x l + count_list b l \<le> ?x l'" if l: "1 \<le> l" "l < l'" "l' \<le> i" for l l'
  proof -
    have "(\<Sum>s = 1..<l. c s) + c l = (\<Sum>s = 1..<Suc l. c s)" using l(1) by simp
    also have "\<dots> \<le> (\<Sum>s = 1..<l'. c s)" using l(2) by (intro sum_mono2) auto
    finally show ?thesis using l x by (simp add: assms(3))
  qed
  from sort_values_ok [OF o assms(1,4)] have s: "x i = ?x i + count_list b i"
    "\<And>t. t < length b \<Longrightarrow> b ! t \<noteq> 0 \<Longrightarrow> v (?x (b ! t) + count_list (take t b) (b ! t)) = t" using assms(2) by auto
  have "(\<Sum>t = 1..i. count_list b t) = (\<Sum>s = 1..<i. count_list b s) + count_list b i"
    using assms(2) by (simp flip: atLeastLessThanSuc_atLeastAtMost)
  then show "x i = (\<Sum>t = 1..i. count_list b t)" using s(1) x [of i] cs [of i] assms(2) by simp
  show "\<forall>t < length b. b ! t \<noteq> 0 \<longrightarrow> v ((\<Sum>s = 1..<b ! t. c s) + count_list (take t b) (b ! t)) = t"
  proof (intro allI impI)
    fix t assume t: "t < length b" "b ! t \<noteq> 0"
    then have "?x (b ! t) = (\<Sum>s = 1..<b ! t. c s)" using assms(1) by (intro x) auto
    then show "v ((\<Sum>s = 1..<b ! t. c s) + count_list (take t b) (b ! t)) = t" using s(2) [OF t] by simp
  qed
qed

lemma huft_build_args:
  assumes "lengths_ok b"
  obtains A y j where "args_for b y s d e m A" "1 \<le> j" "j \<le> a_g A" "\<And>t. 1 \<le> t \<Longrightarrow> t < j \<Longrightarrow> a_c A t = 0"
    "kraft b + 2 ^ (16 - a_g A) * y = 2 ^ 16"
    "\<And>g. huft_build S b s d e m g = out_bind (lengths_loop S A j (empty_build (a_l A)) g) (\<lambda>r gz.
       case r of None \<Rightarrow> Return (3, None, a_l A) gz
       | Some st \<Rightarrow> Return (if y \<noteq> 0 \<and> a_g A \<noteq> 1 then 1 else 0, b_t st, a_l A) gz)"
proof -
  let ?c = "count_list b"
  obtain l0 where l0: "l0 \<in> set b" "l0 \<noteq> 0" using assms by (auto simp: lengths_ok_def)
  have l16: "\<forall>l \<in> set b. l \<le> 16" using assms by (simp add: lengths_ok_def)
  have c0: "?c l0 \<noteq> 0" "1 \<le> l0" "l0 \<le> BMAX" using l0 l16 by (auto simp: BMAX_def count_list_0_iff)
  define j where "j = first_length ?c 1"
  define i where "i = last_length ?c BMAX"
  have j: "1 \<le> j" "j \<le> l0" "?c j \<noteq> 0" "\<And>t. 1 \<le> t \<Longrightarrow> t < j \<Longrightarrow> ?c t = 0" using first_length_ok [where c = ?c, OF c0] by (auto simp: j_def)
  have i: "l0 \<le> i" "i \<le> 16" "?c i \<noteq> 0" "\<And>t. i < t \<Longrightarrow> t \<le> 16 \<Longrightarrow> ?c t = 0" using last_length_ok [where c = ?c, OF c0] by (auto simp: i_def BMAX_def)
  have bi: "l \<le> i" if "l \<in> set b" for l using i(4) [of l] l16 that by (auto simp: count_list_0_iff not_le [symmetric])
  define l where "l = (if (if m < j then j else m) > i then i else (if m < j then j else m))"
  have l: "1 \<le> l" "l \<le> i" "j \<le> l" "m \<le> l \<or> l = i" using j i by (auto simp: l_def)
  have kr: "kraft b = 2 ^ (16 - i) * taken ?c i" by (rule kraft_taken) (use bi i(2) in auto)
  have p16: "2 ^ (16 - i) * 2 ^ i = (2 ^ 16 :: nat)" using i(2) by (simp flip: power_add)
  have t: "taken ?c i \<le> 2 ^ i"
  proof -
    have "2 ^ (16 - i) * taken ?c i \<le> 2 ^ (16 - i) * 2 ^ i" using assms unfolding p16 kr [symmetric] by (simp add: lengths_ok_def)
    then show ?thesis by simp
  qed
  define y where "y = 2 ^ i - taken ?c i"
  have y: "taken ?c i + y = 2 ^ i" using t by (simp add: y_def)
  have "taken ?c (j - 1) = 0" unfolding taken_def using j(1) by (intro sum.neutral) (auto simp: j(4))
  then have "missing_codes ?c j i (2 ^ j) = Some (int y)"
    using missing_codes_ok [of "j - 1" "i - 1" ?c] j(1,2) i(1) t
    by (cases j; cases i) (simp_all add: y_def of_nat_diff)
  note mc = this
  define c' where "c' = ?c(i := ?c i + y)"
  obtain x v where xv: "sort_values b 0 (length_offsets c' (i - 1) 0 1 ((\<lambda>_. 0)(1 := 0))) (\<lambda>_. 0) = (x, v)" by fastforce
  define A where "A = \<lparr>a_c = c', a_g = i, a_l = l, a_v = v, a_n = x i, a_s = s, a_d = d, a_e = e\<rparr>"
  have so: "x i = (\<Sum>t = 1..i. count_list b t)"
    "\<forall>t < length b. b ! t \<noteq> 0 \<longrightarrow> v ((\<Sum>s = 1..<b ! t. c' s) + count_list (take t b) (b ! t)) = t"
    using sort_offsets [OF _ _ c'_def xv] bi j i by auto
  have "j \<le> t" if "t \<in> set b" "t \<noteq> 0" for t
    using j(4) [of t] that by (cases "t < j") (auto simp: count_list_0_iff)
  then have root: "root_ok m b l" by (force simp: root_ok_def l_def)
  have "args_for b y s d e m A"
    unfolding args_for_def A_def using l i bi y so j root by (auto simp: c'_def cpos_def)
  moreover have "a_c A t = 0" if "1 \<le> t" "t < j" for t
  proof -
    have "t \<noteq> i" using that j(3,4) i(3) by metis
    then show ?thesis using j(4) [OF that] by (simp add: A_def c'_def)
  qed
  moreover have "kraft b + 2 ^ (16 - a_g A) * y = 2 ^ 16"
    using p16 unfolding kr y [symmetric] by (simp add: A_def add_mult_distrib2)
  moreover have "huft_build S b s d e m g = out_bind (lengths_loop S A j (empty_build (a_l A)) g) (\<lambda>r gz.
       case r of None \<Rightarrow> Return (3, None, a_l A) gz
       | Some st \<Rightarrow> Return (if y \<noteq> 0 \<and> a_g A \<noteq> 1 then 1 else 0, b_t st, a_l A) gz)" for g
  proof -
    have "?c 0 \<noteq> length b" 
      using length_filter_less [OF l0(1), of "(=) 0"] l0(2) by (simp add: count_list_eq_length_filter)
    then show ?thesis
      unfolding huft_build_def Let_def count_lengths_eq j_def [symmetric] i_def [symmetric] l_def [symmetric] mc
      by (simp only: if_False option.case nat_int c'_def [symmetric] xv prod.case A_def build_args.simps of_nat_eq_0_iff)
  qed
  ultimately show ?thesis using that [of y A j] j(1,2) i(1) by (simp add: A_def)
qed

text \<open>No code is more than two tables away from the root.\<close>

definition near_ok :: "nat list \<Rightarrow> nat \<Rightarrow> bool" where
  "near_ok b m \<longleftrightarrow> (\<forall>l \<in> set b. l \<le> 2 * m) \<or> kraft b = 2 ^ 16 \<and> length b < 2 ^ (m + 1)"

lemma args_for_ok:
  assumes A: "args_for b y s d e m A" and y: "kraft b + 2 ^ (16 - a_g A) * y = 2 ^ 16" and n: "near_ok b m"
  shows "args_ok A"
proof -
  let ?g = "a_g A" and ?c = "count_list b"
  have l: "1 \<le> a_l A" "a_l A \<le> ?g" "?g \<le> 16" "m \<le> a_l A \<or> a_l A = ?g" "?c ?g \<noteq> 0"
    and c: "a_c A = ?c(?g := ?c ?g + y)" "taken ?c ?g + y = 2 ^ ?g" using A by (simp_all add: args_for_def)
  have g: "{1..<?g + 1} = insert ?g {1..<?g}" "?g \<notin> {1..<?g}" using l(1,2) by auto
  have split: "(\<Sum>t = 1..<?g + 1. f t) = f ?g + (\<Sum>t = 1..<?g. f t)" for f :: "nat \<Rightarrow> nat" unfolding g(1) using g(2) by simp
  have eq: "(\<Sum>t = 1..<?g. a_c A t * f t) = (\<Sum>t = 1..<?g. ?c t * f t)" for f by (intro sum.cong) (simp_all add: c(1))
  have "cpoint A (?g + 1) 0 = taken ?c ?g + y"
    using split [of "\<lambda>t. a_c A t * csize A t"] split [of "\<lambda>t. ?c t * 2 ^ (?g - t)"] eq [of "csize A"]
    by (simp add: cpoint_0 taken_def csize_def c(1) flip: atLeastLessThanSuc_atLeastAtMost)
  then have total: "cpoint A (?g + 1) 0 = 2 ^ ?g" using c(2) by simp
  have near: "?g \<le> 2 * a_l A \<or> cpos A (?g + 1) 0 < 2 ^ (a_l A + 1)"
  proof (cases "a_l A = ?g \<or> (\<forall>l \<in> set b. l \<le> 2 * m)")
    case True
    moreover have "?g \<in> set b" using l(5) by (metis count_notin)
    ultimately show ?thesis using l(4) by force
  next
    case False
    then have "kraft b = 2 ^ 16" "length b < 2 ^ (m + 1)" "m \<le> a_l A" using n l(4) by (auto simp: near_ok_def)
    then have "y = 0" using y by simp
    then have "cpos A (?g + 1) 0 = (\<Sum>t \<in> {1..<?g + 1}. ?c t)" by (simp add: cpos_def c(1) fun_upd_idem)
    also have "\<dots> \<le> (\<Sum>t \<in> insert 0 {1..<?g + 1} \<union> set b. ?c t)" by (intro sum_mono2) auto
    also have "\<dots> = length b"
    proof -
      have "(\<Sum>t\<leftarrow>b. 1) = (\<Sum>t \<in> insert 0 {1..<?g + 1} \<union> set b. ?c t * 1)" by (rule sum_list_map_eq_sum_count2) auto
      then show ?thesis by (simp add: sum_list_triv)
    qed
    also have "\<dots> < 2 ^ (a_l A + 1)" using \<open>length b < 2 ^ (m + 1)\<close> \<open>m \<le> a_l A\<close> by (meson add_le_mono1 less_le_trans one_le_numeral power_increasing)
    finally show ?thesis ..
  qed
  obtain j where "1 \<le> j" "j \<le> a_l A" "?c j \<noteq> 0" using A by (auto simp: args_for_def)
  then have "\<exists>i. 1 \<le> i \<and> i \<le> a_l A \<and> 0 < a_c A i" by (intro exI [of _ j]) (auto simp: c(1))
  moreover have "0 < a_c A ?g" using l(5) by (simp add: c(1))
  ultimately show ?thesis using l total near by (simp add: args_ok_def)
qed

section \<open>Decoding a code\<close>

lemma mask_bits_mask:
  assumes "n \<le> 16" shows "mask_bits ! n = mask n"
proof -
  have e: "mask_bits = map mask [0..<17]" by (simp add: mask_bits_def upt_rec mask_eq_exp_minus_1)
  have n: "n < length [0..<17]" "0 + n < 17" using assms by simp_all
  show ?thesis unfolding e nth_map [OF n(1)] nth_upt [OF n(2)] by simp
qed

lemma low_bits_take: "n \<le> 16 \<Longrightarrow> low_bits n b = unat (take_bit n b)"
  by (simp add: low_bits_def mask_bits_mask take_bit_eq_mask)

lemma code_holds_unique:
  assumes "code_holds A k m N" "code_holds A k' m' N" shows "k' = k \<and> m' = m"
proof -
  have less: "cpoint A k m + csize A k \<le> cpoint A k' 0" if "code_holds A k m N" "k < k'" for k k' m
  proof -
    have "cpoint A k m + csize A k = cpoint A k (Suc m)" by (simp add: cpoint_add)
    also have "\<dots> \<le> cpoint A k (a_c A k)" using that(1) by (simp add: cpoint_def code_holds_def mult_le_mono1 Suc_leI del: mult_Suc)
    also have "\<dots> = cpoint A (Suc k) 0" using that(1) by (simp add: cpoint_Suc code_holds_def)
    also have "\<dots> \<le> cpoint A k' 0" using that by (intro cpoint_mono) auto
    finally show ?thesis .
  qed
  have le: "cpoint A k 0 \<le> cpoint A k m" for k m by (simp add: cpoint_def)
  have k: "k' = k"
    using less [OF assms(1), of k'] less [OF assms(2), of k] le [of k m] le [of k' m'] assms
    by (cases k k' rule: linorder_cases) (auto simp: code_holds_def)
  have m: "\<not> m1 < m2" if "code_holds A k m1 N" "code_holds A k m2 N" for m1 m2
  proof
    assume "m1 < m2"
    then have "Suc m1 * csize A k \<le> m2 * csize A k" by (intro mult_le_mono1) simp
    then show False using that by (simp add: code_holds_def cpoint_def)
  qed
  show ?thesis using k m [of m m'] m [of m' m] assms by auto
qed


lemma sub_tables_ok:
  assumes io: "io_ok S" and ok: "args_ok A" and E: "\<And>w t. code_cell A w k m t \<Longrightarrow> h_e t \<le> 16"
    and C: "code_holds A k m N" "N < 2 ^ a_g A" and xs: "16 \<le> length xs"
  defines "R \<equiv> rv (a_g A) N"
  shows "decodes A a0 I z (tabs (hm g)) \<Longrightarrow> q \<in> {a0..<z} \<Longrightarrow> covers A (I q) N \<Longrightarrow> ready (b, kk) g \<Longrightarrow> t_j (I q) \<le> kk \<Longrightarrow>
    ubits (b, kk) g = drop (t_w (I q)) (bits_of (a_g A) R) @ xs \<Longrightarrow>
    t_w (I q) = 0 \<and> t_j (I q) = a_l A \<or> a_l A \<le> t_w (I q) \<Longrightarrow>
    \<exists>t w' b' k' h. sub_tables S wp (tabs (hm g) q (low_bits (t_j (I q)) b)) (b, kk) g = Some (Return (Some t, b', k') h) \<and>
      code_cell A w' k m t \<and> h_b t \<le> k' \<and> ready (b', k') h \<and> ubits (b', k') h = drop w' (bits_of (a_g A) R) @ xs \<and> same_but_in g h \<and>
      (kk \<le> t_j (I q) + 15 \<longrightarrow> w' = t_w (I q) \<and> k' = kk \<or> k' \<le> 16)"
proof (induction "a_g A - t_w (I q)" arbitrary: q b kk g rule: less_induct)
  case less
  let ?w = "t_w (I q)" and ?j = "t_j (I q)" and ?G = "a_g A"
  note l = args_okD(1-3) [OF ok]
  have tab: "table_ok A {a0..<z} I (tabs (hm g) q) (I q) (2 ^ ?G)" if "q \<in> {a0..<z}" for q
    using less.prems(1) that by (simp add: decodes_def)
  have t: "1 \<le> ?j" "?w + ?j \<le> ?G" "?j \<le> a_l A" "\<And>M. M < 2 ^ ?G \<Longrightarrow> covers A (I q) M \<Longrightarrow> cell_ok A {a0..<z} I (I q) M (tabs (hm g) q (tindex A ?w ?j M))"
    using table_okD(1,2,5,6) [OF tab [OF less.prems(2)]] by blast+
  have "bits_of ?j b = bits_of ?j (drop_bit ?w R)"
    using arg_cong [OF less.prems(6), of "take ?j"] less.prems(5) t(2) unfolding drop_bits_of
    by (simp add: ubits_def take_bits_of)
  then have i: "low_bits ?j b = tindex A ?w ?j N" using t(3) l by (simp add: low_bits_take bits_of_eq_iff tindex_def R_def)
  define r where "r = tabs (hm g) q (low_bits ?j b)"
  have "cell_ok A {a0..<z} I (I q) N r" unfolding r_def i by (rule t(4) [OF C(2) less.prems(3)])
  then consider "code_cell A ?w k m r" "k \<le> ?w + ?j"
    | q' where "q' \<in> {a0..<z}" "h_v r = Vt q'" "h_b r = ?j" "h_e r = 16 + t_j (I q')" "t_w (I q') = ?w + ?j" "covers A (I q') N"
    unfolding cell_ok_def using code_holds_unique [OF C(1)] by blast
  then show ?case
  proof cases
    case 1
    then have "sub_tables S wp r (b, kk) g = Some (Return (Some r, b, kk) g)" using E by (simp add: sub_tables.simps)
    moreover have "h_b r \<le> kk" using 1 less.prems(5) by (simp add: code_cell_def)
    ultimately show ?thesis using 1 less.prems(4,6) unfolding r_def [symmetric] by auto
  next
    case 2
    let ?j' = "t_j (I q')"
    have t': "1 \<le> ?j'" "?w + ?j + ?j' \<le> ?G" "?j' \<le> 16" using table_okD(1,2,6) [OF tab [OF 2(1)]] 2(5) l by simp_all
    have s: "bits_of (?G - ?w) (drop_bit ?w R) = bits_of ?j (drop_bit ?w R) @ drop (?w + ?j) (bits_of ?G R)"
      using bits_of_add [of ?j "?G - ?w - ?j" "drop_bit ?w R"] t(2) by (simp add: drop_bits_of drop_bit_drop_bit add.commute)
    then have u: "ubits (b, kk) g = bits_of ?j (drop_bit ?w R) @ (drop (?w + ?j) (bits_of ?G R) @ xs)"
      using less.prems(6) by (simp add: drop_bits_of)
    note d = DUMPBITS_ok [OF less.prems(4,5) u]
    obtain b0 k0 where B: "DUMPBITS ?j (b, kk) = (b0, k0)" by (cases "DUMPBITS ?j (b, kk)")
    obtain b' k' h where h: "NEEDBITS S wp ?j' (b0, k0) g = Return (b', k') h" "?j' \<le> k'" "ready (b', k') h"
      "ubits (b', k') h = ubits (b0, k0) g" "same_but_in g h" "k' \<le> max k0 (?j' + 7)"
      by (rule NEEDBITS_ok [OF io, of b0 k0 g ?j' wp]) (use d(1,2) B xs t'(3) in simp_all)
    have w': "a_l A \<le> t_w (I q')" using less.prems(7) 2(5) by auto
    then have j8: "?j' \<le> 8" using t'(2) 2(5) l table_okD(6) [OF tab [OF 2(1)]] by linarith
    have k16: "k' \<le> 15" if "kk \<le> ?j + 15"
      using h(6) j8 B that by (auto simp: DUMPBITS_def)
    have hm: "hm h = hm g" by (rule same_but_inD(9) [OF h(5)])
    have lt: "?G - t_w (I q') < ?G - ?w" using t(1) t'(1,2) 2(5) by simp
    obtain t2 w2 b2 k2 h2 where 3: "sub_tables S wp (tabs (hm h) q' (low_bits ?j' b')) (b', k') h = Some (Return (Some t2, b2, k2) h2)"
      "code_cell A w2 k m t2" "h_b t2 \<le> k2" "ready (b2, k2) h2" "ubits (b2, k2) h2 = drop w2 (bits_of ?G R) @ xs" "same_but_in h h2"
      "k' \<le> ?j' + 15 \<longrightarrow> w2 = t_w (I q') \<and> k2 = k' \<or> k2 \<le> 16"
      using less.hyps [OF lt _ 2(1,6) h(3,2) _ disjI2 [OF w']] less.prems(1) hm h(4) d(2) B 2(5) by auto
    have "k2 \<le> 16" if "kk \<le> ?j + 15" using 3(7) k16 [OF that] by auto
    moreover have "sub_tables S wp r (b, kk) g = Some (Return (Some t2, b2, k2) h2)"
      using 2(2-4) t'(1,3) B h(1) 3(1) by (subst sub_tables.simps) simp
    ultimately show ?thesis using 3 same_but_in_trans [OF h(5) 3(6)] unfolding r_def [symmetric] by blast
  qed
qed

section \<open>Canonical codes\<close>

text \<open>The code of a symbol: codes are numbered in order of their lengths, then of the symbols; the
  first bit is the highest.\<close>

definition canon_code :: "nat list \<Rightarrow> nat \<Rightarrow> nat" where
  "canon_code b t = (\<Sum>s = 1..<b ! t. count_list b s * 2 ^ (b ! t - s)) + count_list (take t b) (b ! t)"

definition canon_bits :: "nat list \<Rightarrow> nat \<Rightarrow> bool list" where
  "canon_bits b t = map (\<lambda>i. bit (canon_code b t) (b ! t - 1 - i)) [0..<b ! t]"

lemma length_canon_bits [simp]: "length (canon_bits b t) = b ! t"
  by (simp add: canon_bits_def)

lemma count_before:
  assumes "t < length b" shows "count_list (take t b) (b ! t) < count_list b (b ! t)"
proof -
  have "count_list b (b ! t) = count_list (take t b) (b ! t) + count_list (b ! t # drop (Suc t) b) (b ! t)"
    by (subst id_take_nth_drop [OF assms]) (simp only: count_list_append)
  then show ?thesis by simp
qed

lemma args_for_code:
  assumes A: "args_for b y s d e m A" and t: "t < length b" "b ! t \<noteq> 0"
  defines "k \<equiv> b ! t" and "r \<equiv> count_list (take t b) (b ! t)"
  shows "1 \<le> k" "k \<le> a_g A" "r < a_c A k" "bits_of k (rv (a_g A) (cpoint A k r)) = canon_bits b t"
    "cpos A k r < a_n A" "a_v A (cpos A k r) = t"
proof -
  let ?g = "a_g A" and ?c = "count_list b"
  have D: "?g \<le> 16" "\<forall>l \<in> set b. l \<le> ?g" "a_c A = ?c(?g := ?c ?g + y)" "a_n A = (\<Sum>i = 1..?g. ?c i)"
    "\<forall>t < length b. b ! t \<noteq> 0 \<longrightarrow> a_v A (cpos A (b ! t) (count_list (take t b) (b ! t))) = t"
    using A by (simp_all add: args_for_def)
  show k: "1 \<le> k" "k \<le> ?g" using t D(2) by (simp_all add: k_def Suc_le_eq)
  have r: "r < ?c k" using count_before [OF t(1)] by (simp add: r_def k_def)
  then show "r < a_c A k" by (auto simp: D(3))
  show "a_v A (cpos A k r) = t" using D(5) t by (simp add: k_def r_def)
  have c: "a_c A i = ?c i" if "i < k" for i using that k(2) by (simp add: D(3))
  have "cpos A k r = (\<Sum>i = 1..<k. ?c i) + r" by (simp add: cpos_def c)
  also have "\<dots> < (\<Sum>i = 1..<k. ?c i) + ?c k" using r by simp
  also have "\<dots> = (\<Sum>i = 1..<Suc k. ?c i)" using k(1) by simp
  also have "\<dots> \<le> (\<Sum>i = 1..?g. ?c i)" using k(2) by (intro sum_mono2) auto
  finally show "cpos A k r < a_n A" by (simp add: D(4))
  have "(\<Sum>i = 1..<k. a_c A i * csize A i) = (\<Sum>i = 1..<k. ?c i * 2 ^ (k - i)) * csize A k"
    unfolding sum_distrib_right
  proof (rule sum.cong)
    fix i assume "i \<in> {1..<k}"
    then have "i < k" by simp
    then show "a_c A i * csize A i = ?c i * 2 ^ (k - i) * csize A k" using csize_shift [of i k A] k(2) c by simp
  qed simp
  then have p: "cpoint A k r = push_bit (?g - k) (canon_code b t)"
    by (simp add: cpoint_def canon_code_def k_def r_def push_bit_eq_mult csize_def add_mult_distrib)
  show "bits_of k (rv ?g (cpoint A k r)) = canon_bits b t"
    unfolding p by (rule nth_equalityI) (use k D(1) in \<open>auto simp: bit_rv bit_push_bit_iff canon_bits_def k_def\<close>)
qed

lemma ex_number:
  assumes "length bs = n" "n \<le> 32" shows "\<exists>N < 2 ^ n. bits_of n (rv n N) = bs"
proof (intro exI conjI)
  let ?N = "horner_sum of_bool 2 (rev bs) :: nat"
  show "?N < 2 ^ n" using horner_sum_of_bool_2_less [of "rev bs", where 'a = nat] assms(1) by simp
  show "bits_of n (rv n ?N) = bs"
    by (rule nth_equalityI) (use assms in \<open>auto simp: bit_rv bit_horner_sum_bit_iff rev_nth\<close>)
qed

text \<open>What the entry of a symbol says.\<close>

definition symbol_entry :: "nat \<Rightarrow> nat list \<Rightarrow> nat list \<Rightarrow> nat \<Rightarrow> huft \<Rightarrow> bool" where
  "symbol_entry s d e t r \<longleftrightarrow>
     (if t < s then h_e r = (if t < 256 then 16 else 15) \<and> h_v r = Vn (of_nat t)
      else h_e r = e ! (t - s) \<and> h_v r = Vn (of_nat (d ! (t - s))))"

text \<open>Tables \<open>lt\<close> for the lengths \<open>b\<close>, which use table numbers below \<open>z\<close>.\<close>

definition tree :: "nat list \<Rightarrow> nat \<Rightarrow> nat list \<Rightarrow> nat list \<Rightarrow> nat option \<Rightarrow> nat \<Rightarrow> nat \<Rightarrow> (nat \<Rightarrow> nat \<Rightarrow> huft) \<Rightarrow> bool" where
  "tree b s d e lt bl z T \<longleftrightarrow> (\<exists>A I y m a0. lt = Some a0 \<and> args_ok A \<and> args_for b y s d e m A \<and> a_l A = bl \<and> decodes A a0 I z T)"

lemma tree_mono: "tree b s d e lt bl z T \<Longrightarrow> (\<And>q. q < z \<Longrightarrow> T' q = T q) \<Longrightarrow> tree b s d e lt bl z T'"
  unfolding tree_def decodes_def by (metis atLeastLessThan_iff)

text \<open>The number that the next \<open>g\<close> bits stand for.\<close>

lemma code_number:
  assumes ok: "args_ok A" and A: "args_for b y s d e m A" and t: "t < length b" "b ! t \<noteq> 0" and xs: "32 \<le> length xs"
  defines "k \<equiv> b ! t"
  obtains N ys where "N < 2 ^ a_g A" "code_holds A k (count_list (take t b) k) N" "16 \<le> length ys"
    "canon_bits b t @ xs = bits_of (a_g A) (rv (a_g A) N) @ ys" "drop k (bits_of (a_g A) (rv (a_g A) N)) @ ys = xs"
proof -
  let ?g = "a_g A" and ?m = "count_list (take t b) k"
  note D = args_for_code [OF A t, folded k_def]
  have l: "?g \<le> 16" by (rule args_okD(3) [OF ok])
  have "length (take ?g (canon_bits b t @ xs)) = ?g" "?g \<le> 32" using xs l by simp_all
  then obtain N where N: "N < 2 ^ ?g" "bits_of ?g (rv ?g N) = take ?g (canon_bits b t @ xs)" using ex_number by metis
  have "bits_of k (rv ?g N) = canon_bits b t" using arg_cong [OF N(2), of "take k"] D(2) by (simp add: take_bits_of k_def)
  then have "take_bit k (rv ?g N) = take_bit k (rv ?g (cpoint A k ?m))" using D(4) by (simp flip: bits_of_eq_iff)
  then have "N div csize A k = cpoint A k ?m div csize A k"
    using rv_prefix [of ?g k N "cpoint A k ?m"] N(1) l D(2) cpoint_less [OF ok D(1-3)] by (simp add: csize_def)
  then have C: "code_holds A k ?m N" using aligned_div [OF cpoint_dvd [of A k ?m] _ csize_pos(1)] D(1-3) by (simp add: code_holds_def)
  define ys where "ys = drop ?g (canon_bits b t @ xs)"
  have e: "canon_bits b t @ xs = bits_of ?g (rv ?g N) @ ys" unfolding ys_def N(2) append_take_drop_id ..
  then have "drop k (bits_of ?g (rv ?g N) @ ys) = xs" by (metis append_eq_conv_conj k_def length_canon_bits)
  then have "drop k (bits_of ?g (rv ?g N)) @ ys = xs" using D(2) by simp
  then show ?thesis using that [OF N(1) C _ e] xs l by (simp add: ys_def)
qed

lemma entry_symbol:
  assumes "args_for b y s d e m A" "t < length b" "b ! t \<noteq> 0" "code_cell A w (b ! t) (count_list (take t b) (b ! t)) r"
  shows "symbol_entry s d e t r" "w < b ! t" "h_b r = b ! t - w"
  using assms(4) args_for_code(5,6) [OF assms(1-3)] assms(1)
  by (auto simp: code_cell_def symbol_entry_def args_for_def Let_def)

lemma decode_entry_ok:
  assumes io: "io_ok S" and T: "tree b s d e lt bl z (tabs (hm g))" and t: "t < length b" "b ! t \<noteq> 0" "s \<le> t \<Longrightarrow> e ! (t - s) \<le> 16"
    and B: "ready B g" "ubits B g = canon_bits b t @ xs" "32 \<le> length xs"
  shows "\<exists>r B' h. decode_entry S lt bl w B g = Some (Return (Some r, B') h) \<and> symbol_entry s d e t r \<and>
    ready B' h \<and> ubits B' h = xs \<and> same_but_in g h \<and> (root_ok 9 b bl \<longrightarrow> snd B \<le> 15 \<longrightarrow> snd B' \<le> 15)"
proof -
  obtain A I y m a0 where lt: "lt = Some a0" and ok: "args_ok A" and A: "args_for b y s d e m A" "a_l A = bl"
    and dec: "decodes A a0 I z (tabs (hm g))" using T by (auto simp: tree_def)
  let ?g = "a_g A" and ?k = "b ! t" and ?m = "count_list (take t b) (b ! t)"
  have l: "1 \<le> bl" "bl \<le> ?g" "?g \<le> 16" using args_okD(1-3) [OF ok] A(2) by simp_all
  obtain N ys where N: "N < 2 ^ ?g" "code_holds A ?k ?m N" "16 \<le> length ys" "canon_bits b t @ xs = bits_of ?g (rv ?g N) @ ys"
    "drop ?k (bits_of ?g (rv ?g N)) @ ys = xs" by (rule code_number [OF ok A(1) t(1,2) B(3)])
  note E = entry_symbol [OF A(1) t(1,2)]
  have E16: "h_e r \<le> 16" if "code_cell A w ?k ?m r" for w r
    using E(1) [OF that] t(3) by (auto simp: symbol_entry_def split: if_splits)
  obtain b0 k0 where Bp: "B = (b0, k0)" by (cases B)
  obtain b' k' h where h: "NEEDBITS S w bl (b0, k0) g = Return (b', k') h" "bl \<le> k'" "ready (b', k') h"
    "ubits (b', k') h = ubits B g" "same_but_in g h" "k' \<le> max k0 (bl + 7)"
    by (rule NEEDBITS_ok [OF io, of b0 k0 g bl w]) (use B l Bp in simp_all)
  have hm: "hm h = hm g" by (rule same_but_inD(9) [OF h(5)])
  have a0: "a0 \<in> {a0..<z}" "I a0 = \<lparr>t_w = 0, t_j = bl, t_s = 0\<rparr>" "covers A (I a0) N"
    using dec A(2) N(1) by (simp_all add: decodes_def covers_def csize_def)
  have "\<exists>r w' b2 k2 h2. sub_tables S w (tabs (hm h) a0 (low_bits (t_j (I a0)) b')) (b', k') h = Some (Return (Some r, b2, k2) h2) \<and>
    code_cell A w' ?k ?m r \<and> h_b r \<le> k2 \<and> ready (b2, k2) h2 \<and> ubits (b2, k2) h2 = drop w' (bits_of ?g (rv ?g N)) @ ys \<and> same_but_in h h2 \<and>
    (k' \<le> t_j (I a0) + 15 \<longrightarrow> w' = t_w (I a0) \<and> k2 = k' \<or> k2 \<le> 16)"
    by (rule sub_tables_ok [OF io ok _ N(2,1,3), of a0 I z]) (use dec hm a0 h(2-4) B(2) N(4) E16 A(2) in simp_all)
  then obtain r w' b2 k2 h2 where r: "sub_tables S w (tabs (hm h) a0 (low_bits bl b')) (b', k') h = Some (Return (Some r, b2, k2) h2)"
    "code_cell A w' ?k ?m r" "h_b r \<le> k2" "ready (b2, k2) h2" "ubits (b2, k2) h2 = drop w' (bits_of ?g (rv ?g N)) @ ys" "same_but_in h h2"
    "k' \<le> bl + 15 \<longrightarrow> w' = 0 \<and> k2 = k' \<or> k2 \<le> 16"
    using a0(2) by auto
  have w': "w' < ?k" "h_b r = ?k - w'" "?k \<le> ?g" using E(2,3) [OF r(2)] args_for_code(2) [OF A(1) t(1,2)] by simp_all
  have s: "drop w' (bits_of ?g (rv ?g N)) = bits_of (?k - w') (drop_bit w' (rv ?g N)) @ drop ?k (bits_of ?g (rv ?g N))"
    using bits_of_add [of "?k - w'" "?g - ?k" "drop_bit w' (rv ?g N)"] w'(1,3) by (simp add: drop_bits_of drop_bit_drop_bit add.commute)
  have u: "ubits (b2, k2) h2 = bits_of (h_b r) (drop_bit w' (rv ?g N)) @ xs" unfolding r(5) s w'(2) append_assoc N(5) ..
  note d = DUMPBITS_ok [OF r(4,3) u]
  have "k2 - h_b r \<le> 15" if "root_ok 9 b bl" "snd B \<le> 15"
  proof -
    have "?k \<in> set b" using t(1) by simp
    then have "bl \<le> 9 \<or> bl \<le> ?k" using that(1) t(2) by (auto simp: root_ok_def)
    moreover have "k' \<le> max 15 (bl + 7)" using h(6) that(2) Bp by simp
    ultimately show ?thesis using r(7) w'(1,2) l(1) by auto
  qed
  then have k15: "root_ok 9 b bl \<longrightarrow> snd B \<le> 15 \<longrightarrow> snd (DUMPBITS (h_b r) (b2, k2)) \<le> 15" by (simp add: DUMPBITS_def)
  have "decode_entry S lt bl w B g = Some (Return (Some r, DUMPBITS (h_b r) (b2, k2)) h2)"
    using h(1) r(1) hm by (simp add: decode_entry_def lt Bp)
  then show ?thesis using E(1) [OF r(2)] d(1,2) same_but_in_trans [OF h(5) r(6)] k15 by blast
qed

text \<open>When no code is longer than the root's bits the root has the entry itself.\<close>

lemma decode_direct:
  assumes io: "io_ok S" and T: "tree b s d e (Some q) bl z (tabs (hm g))" and bl: "\<forall>l \<in> set b. l \<le> bl"
    and t: "t < length b" "b ! t \<noteq> 0" and B: "ready B g" "ubits B g = canon_bits b t @ xs" "32 \<le> length xs"
  shows "\<exists>b' k' h r. NEEDBITS S w bl B g = Return (b', k') h \<and> r = tabs (hm h) q (low_bits bl b') \<and> symbol_entry s d e t r \<and>
    ready (DUMPBITS (h_b r) (b', k')) h \<and> ubits (DUMPBITS (h_b r) (b', k')) h = xs \<and> same_but_in g h \<and>
    (bl \<le> 9 \<longrightarrow> snd B \<le> 15 \<longrightarrow> k' - h_b r \<le> 15)"
proof -
  obtain A I y m where ok: "args_ok A" and A: "args_for b y s d e m A" "a_l A = bl" and dec: "decodes A q I z (tabs (hm g))"
    using T by (auto simp: tree_def)
  let ?g = "a_g A" and ?k = "b ! t" and ?m = "count_list (take t b) (b ! t)"
  have "?g \<in> set b" using A(1) by (auto simp: args_for_def count_list_0_iff)
  then have g: "?g = bl" using args_okD(2) [OF ok] A(2) bl by (simp add: le_antisym)
  have l: "1 \<le> bl" "bl \<le> 16" using args_okD(1-3) [OF ok] A(2) g by simp_all
  obtain N ys where N: "N < 2 ^ ?g" "code_holds A ?k ?m N" "16 \<le> length ys" "canon_bits b t @ xs = bits_of ?g (rv ?g N) @ ys"
    "drop ?k (bits_of ?g (rv ?g N)) @ ys = xs" by (rule code_number [OF ok A(1) t B(3)])
  obtain b0 k0 where Bp: "B = (b0, k0)" by (cases B)
  obtain b' k' h where h: "NEEDBITS S w bl (b0, k0) g = Return (b', k') h" "bl \<le> k'" "ready (b', k') h"
    "ubits (b', k') h = ubits B g" "same_but_in g h" "k' \<le> max k0 (bl + 7)"
    by (rule NEEDBITS_ok [OF io, of b0 k0 g bl w]) (use B l Bp in simp_all)
  have hm: "hm h = hm g" by (rule same_but_inD(9) [OF h(5)])
  have Iq: "I q = \<lparr>t_w = 0, t_j = bl, t_s = 0\<rparr>" "q \<in> {q..<z}" using dec A(2) by (simp_all add: decodes_def)
  have tab: "table_ok A {q..<z} I (tabs (hm g) p) (I p) (2 ^ ?g)" if "p \<in> {q..<z}" for p using dec that by (simp add: decodes_def)
  have "bits_of bl b' = bits_of bl (rv ?g N)"
    using arg_cong [of _ _ "take bl", OF h(4) [unfolded B(2) N(4)]] h(2) g by (simp add: ubits_def take_bits_of)
  then have i: "low_bits bl b' = tindex A 0 bl N" using l by (simp add: low_bits_take bits_of_eq_iff tindex_def)
  let ?r = "tabs (hm h) q (low_bits bl b')"
  have "cell_ok A {q..<z} I (I q) N ?r"
    using table_okD(5) [OF tab [OF Iq(2)] N(1)] N(1) unfolding i hm Iq(1) by (simp add: covers_def csize_def)
  moreover have "t_w (I p) \<noteq> ?g" if "p \<in> {q..<z}" for p using table_okD(1,2) [OF tab [OF that]] by simp
  ultimately obtain k2 m2 where "code_holds A k2 m2 N" "code_cell A 0 k2 m2 ?r" unfolding cell_ok_def Iq(1) using g by fastforce
  then have r: "code_cell A 0 ?k ?m ?r" using code_holds_unique [OF N(2)] by metis
  note E = entry_symbol [OF A(1) t r]
  have "?k \<le> ?g" using args_for_code(2) [OF A(1) t] .
  then have sp: "bits_of ?g (rv ?g N) = bits_of ?k (rv ?g N) @ drop ?k (bits_of ?g (rv ?g N))"
    using bits_of_add [of ?k "?g - ?k" "rv ?g N"] by (simp add: drop_bits_of)
  have "ubits (b', k') h = bits_of ?g (rv ?g N) @ ys" by (rule trans [OF h(4) trans [OF B(2) N(4)]])
  also have "\<dots> = (bits_of ?k (rv ?g N) @ drop ?k (bits_of ?g (rv ?g N))) @ ys" by (rule arg_cong [OF sp])
  finally have u: "ubits (b', k') h = bits_of (h_b ?r) (rv ?g N) @ xs" by (simp only: append_assoc N(5) E(3) diff_zero)
  have "h_b ?r \<le> k'" using E(3) h(2) \<open>?k \<le> ?g\<close> g by simp
  note d = DUMPBITS_ok [OF h(3) this u]
  have "k' - h_b ?r \<le> 15" if "bl \<le> 9" "snd B \<le> 15" using h(6) that Bp E(3) t(2) by auto
  then show ?thesis using h(1,5) E(1) d(1,2) Bp by blast
qed

section \<open>The contract\<close>

lemma huft_build_ok:
  assumes "\<forall>i. hmalloc S i" "lengths_ok b" "near_ok b m"
  obtains bl h where
    "huft_build S b s d e m g =
       Return (if kraft b = 2 ^ 16 \<or> (\<forall>l \<in> set b. l \<le> 1) then 0 else 1, Some (nalloc (hm g)), bl) h"
    "tables_step (nalloc (hm g)) (live (hm g)) g h" "nalloc (hm g) < nalloc (hm h)"
    "tree b s d e (Some (nalloc (hm g))) bl (nalloc (hm h)) (tabs (hm h))" "(\<forall>l \<in> set b. l \<le> m) \<longrightarrow> (\<forall>l \<in> set b. l \<le> bl)" "root_ok m b bl"
proof -
  obtain A y j where A: "args_for b y s d e m A" "1 \<le> j" "j \<le> a_g A" "\<And>t. 1 \<le> t \<Longrightarrow> t < j \<Longrightarrow> a_c A t = 0"
    "kraft b + 2 ^ (16 - a_g A) * y = 2 ^ 16"
    "\<And>g. huft_build S b s d e m g = out_bind (lengths_loop S A j (empty_build (a_l A)) g) (\<lambda>r gz.
       case r of None \<Rightarrow> Return (3, None, a_l A) gz
       | Some st \<Rightarrow> Return (if y \<noteq> 0 \<and> a_g A \<noteq> 1 then 1 else 0, b_t st, a_l A) gz)"
    by (rule huft_build_args [OF assms(2), where s = s and d = d and e = e and m = m and S = S]) blast
  have ok: "args_ok A" by (rule args_for_ok [OF A(1,5) assms(3)])
  obtain I st h where h: "lengths_loop S A j (empty_build (a_l A)) g = Return (Some st) h" "b_t st = Some (nalloc (hm g))"
    "decodes A (nalloc (hm g)) I (nalloc (hm h)) (tabs (hm h))" "tables_step (nalloc (hm g)) (live (hm g)) g h"
    using build_loop_ok [OF ok assms(1) A(2-4)] by blast
  have "a_g A \<in> set b" "\<forall>l \<in> set b. l \<le> a_g A" using A(1) by (auto simp: args_for_def count_list_0_iff)
  note mx = this
  have g1: "1 \<le> a_g A" using args_okD(1,2) [OF ok] by simp
  have one: "a_g A = 1 \<longleftrightarrow> (\<forall>l \<in> set b. l \<le> 1)"
  proof
    show "\<forall>l \<in> set b. l \<le> 1" if "a_g A = 1" using mx(2) unfolding that .
    show "a_g A = 1" if "\<forall>l \<in> set b. l \<le> 1" using bspec [OF that mx(1)] g1 by simp
  qed
  have y: "y = 0 \<longleftrightarrow> kraft b = 2 ^ 16" using A(5) by (cases "y = 0") auto
  have "huft_build S b s d e m g =
      Return (if kraft b = 2 ^ 16 \<or> (\<forall>l \<in> set b. l \<le> 1) then 0 else 1, Some (nalloc (hm g)), a_l A) h"
    unfolding A(6) h(1) y [symmetric] one [symmetric] using h(2) by simp
  moreover have "nalloc (hm g) < nalloc (hm h)" using h(3) by (simp add: decodes_def)
  moreover have "tree b s d e (Some (nalloc (hm g))) (a_l A) (nalloc (hm h)) (tabs (hm h))"
    using ok A(1) h(3) by (auto simp: tree_def)
  moreover have "(\<forall>l \<in> set b. l \<le> m) \<longrightarrow> (\<forall>l \<in> set b. l \<le> a_l A)" using A(1) mx by (auto simp: args_for_def)
  moreover have "root_ok m b (a_l A)" using A(1) by (simp add: args_for_def)
  ultimately show ?thesis using that h(4) by blast
qed

text \<open>Claim C11. From code lengths of at most 16 bits that do not claim more codes than there are, and
  that suit the lookup bits \<open>m\<close> asked for (\<open>near_ok\<close>: no length above \<open>2 * m\<close>, or a complete set of
  fewer than \<open>2 ^ (m + 1)\<close> symbols, as for all tables the program decodes with), \<^verbatim>\<open>huft_build\<close> makes tables, if
  memory lasts, and returns 0 if the set is complete (or has only one code) and 1 otherwise; with
  these tables the decoder reads the canonical code of any symbol that is followed by at least 32
  bits, finds the entry that belongs to it, and leaves exactly the bits that follow.\<close>

theorem huft_build_decodes:
  assumes "io_ok S" "\<forall>i. hmalloc S i" "lengths_ok b" "near_ok b m"
  shows "\<exists>lt bl h. huft_build S b s d e m g = Return (if kraft b = 2 ^ 16 \<or> (\<forall>l \<in> set b. l \<le> 1) then 0 else 1, lt, bl) h \<and>
    (\<forall>t B g' xs w. t < length b \<and> b ! t \<noteq> 0 \<and> (s \<le> t \<longrightarrow> e ! (t - s) \<le> 16) \<and> hm g' = hm h \<and>
       ready B g' \<and> ubits B g' = canon_bits b t @ xs \<and> 32 \<le> length xs \<longrightarrow>
       (\<exists>r B' h'. decode_entry S lt bl w B g' = Some (Return (Some r, B') h') \<and> symbol_entry s d e t r \<and>
          ready B' h' \<and> ubits B' h' = xs))"
proof -
  obtain bl h where h: "huft_build S b s d e m g =
      Return (if kraft b = 2 ^ 16 \<or> (\<forall>l \<in> set b. l \<le> 1) then 0 else 1, Some (nalloc (hm g)), bl) h"
    "tree b s d e (Some (nalloc (hm g))) bl (nalloc (hm h)) (tabs (hm h))"
    by (rule huft_build_ok [OF assms(2-4)]) blast
  have "\<exists>r B' h'. decode_entry S (Some (nalloc (hm g))) bl w B g' = Some (Return (Some r, B') h') \<and> symbol_entry s d e t r \<and>
      ready B' h' \<and> ubits B' h' = xs"
    if "t < length b \<and> b ! t \<noteq> 0 \<and> (s \<le> t \<longrightarrow> e ! (t - s) \<le> 16) \<and> hm g' = hm h \<and>
       ready B g' \<and> ubits B g' = canon_bits b t @ xs \<and> 32 \<le> length xs" for t B g' xs w
    using decode_entry_ok [OF assms(1), of b s d e "Some (nalloc (hm g))" bl "nalloc (hm h)" g' t B xs w] that h(2) by auto
  then show ?thesis using h(1) by blast
qed

theorem huft_build_decodes_witness:
  "\<exists>lt bl h. huft_build fx_io [1, 2, 2] 257 cplens cplext 9 (fx_gz [1, 0, 0, 0, 0, 0]) = Return (0, lt, bl) h \<and>
    (\<exists>r B h'. decode_entry fx_io lt bl 0 (0, 0) ((fx_gz [1, 0, 0, 0, 0, 0])\<lparr>hm := hm h\<rparr>) = Some (Return (Some r, B) h') \<and>
       h_e r = 16 \<and> h_v r = Vn 1 \<and> length (ubits B h') = 46)"
proof -
  let ?g = "fx_gz [1, 0, 0, 0, 0, 0]" and ?b = "[1, 2, 2] :: nat list"
  have a: "\<forall>i. hmalloc fx_io i" "lengths_ok ?b" "near_ok ?b 9" "kraft ?b = 2 ^ 16"
    by (simp_all add: fx_io_def lengths_ok_def near_ok_def kraft_def)
  have c: "canon_bits ?b 1 = [True, False]" by code_simp
  define xs where "xs = drop 2 (bytes_bits [1, 0, 0, 0, 0, 0])"
  have l: "length xs = 46" by (simp add: xs_def bytes_bits_def)
  have "take 2 (bytes_bits [1, 0, 0, 0, 0, 0]) = [True, False]"
    by (simp add: bytes_bits_def bits_of_def numeral_eq_Suc)
  then have "bytes_bits [1, 0, 0, 0, 0, 0] = canon_bits ?b 1 @ xs" unfolding xs_def c by (metis append_take_drop_id)
  then have u: "ready (0, 0) (?g\<lparr>hm := M\<rparr>)" "ubits (0, 0) (?g\<lparr>hm := M\<rparr>) = canon_bits ?b 1 @ xs" for M
    by (simp_all add: ready_def ubits_def fx_gz_def instream_def)
  obtain lt bl h where h: "huft_build fx_io ?b 257 cplens cplext 9 ?g = Return (0, lt, bl) h"
    "\<exists>r B h'. decode_entry fx_io lt bl 0 (0, 0) (?g\<lparr>hm := hm h\<rparr>) = Some (Return (Some r, B) h') \<and>
       symbol_entry 257 cplens cplext 1 r \<and> ready B h' \<and> ubits B h' = xs"
    using huft_build_decodes [OF fx_io_ok a(1-3), of 257 cplens cplext ?g] u l a(4) by fastforce
  then show ?thesis using l by (fastforce simp: symbol_entry_def)
qed

text \<open>Outside \<open>near_ok\<close> the limit on the size of a sub-table is not applied: when a code is longer than
  the next table may be, the table gets all its remaining bits, yet the loop goes on as if it had
  \<open>l\<close>, and fills only the first \<open>2 ^ l\<close> of its entries. The complete lengths 3, 1, 3, 3, 3 with one
  lookup bit are the smallest such set: the table of the second level has 4 entries, its link asks
  for 2 bits, and the loop opens tables of a third level behind its entries 0 and 1 only.\<close>

lemma sub_table_over_limit: "l < k - w \<Longrightarrow> new_table_bits c g l w k a = k - w"
  by (simp add: new_table_bits_def Let_def)

lemma sub_table_over_limit_example:
  "kraft [3, 1, 3, 3, 3] = 2 ^ 16" "\<not> near_ok [3, 1, 3, 3, 3] 1"
  "new_table_bits (count_lengths [3, 1, 3, 3, 3]) 3 1 1 3 3 = 2"
  by (simp_all add: kraft_def near_ok_def sub_table_over_limit)

text \<open>Freeing the tables.\<close>

definition heap_wf :: "gz \<Rightarrow> bool" where
  "heap_wf g \<longleftrightarrow> distinct (live (hm g)) \<and> (\<forall>q \<in> set (live (hm g)). q < nalloc (hm g))"

definition tables_at :: "nat \<Rightarrow> nat \<Rightarrow> gz \<Rightarrow> bool" where
  "tables_at a z g \<longleftrightarrow> a < z \<and> {a..<z} \<subseteq> set (live (hm g)) \<and>
     (\<forall>q. a \<le> q \<longrightarrow> q < z \<longrightarrow> links (hm g) q = (if Suc q < z then Some (Suc q) else None))"

lemma huft_free_ok:
  assumes "distinct (live (hm g))" "tables_at a z g"
  shows "huft_free (Some a) g = Return () (g\<lparr>hm := (hm g)\<lparr>live := filter (\<lambda>q. q \<notin> {a..<z}) (live (hm g))\<rparr>\<rparr>)"
  using assms
proof (induction "z - a" arbitrary: a g rule: less_induct)
  case less
  let ?L = "live (hm g)" let ?g = "g\<lparr>hm := (hm g)\<lparr>live := remove1 a ?L\<rparr>\<rparr>"
  have a: "a < z" "a \<in> set ?L" "links (hm g) a = (if Suc a < z then Some (Suc a) else None)"
    using less.prems(2) by (auto simp: tables_at_def)
  have r: "remove1 a ?L = filter (\<lambda>q. q \<noteq> a) ?L" using less.prems(1) by (simp add: distinct_remove1_removeAll removeAll_filter_not_eq neq_commute)
  show ?case
  proof (cases "Suc a < z")
    case True
    have t: "tables_at (Suc a) z ?g" using less.prems(2) True unfolding tables_at_def r by (auto simp: Suc_le_eq)
    have "z - Suc a < z - a" using True by simp
    from less.hyps [OF this _ t] less.prems(1) have
      "huft_free (Some (Suc a)) ?g = Return () (?g\<lparr>hm := (hm ?g)\<lparr>live := filter (\<lambda>q. q \<notin> {Suc a..<z}) (live (hm ?g))\<rparr>\<rparr>)"
      by simp
    moreover have "filter (\<lambda>q. q \<notin> {Suc a..<z}) (filter (\<lambda>q. q \<noteq> a) ?L) = filter (\<lambda>q. q \<notin> {a..<z}) ?L"
      using a(1) by (auto simp: filter_filter le_Suc_eq Suc_le_eq nat_less_le intro!: filter_cong)
    ultimately show ?thesis using a True by (simp add: r)
  next
    case False
    then have "{a..<z} = {a}" using a(1) by auto
    then show ?thesis using a False by (simp add: r)
  qed
qed

end
