(* ===== verification/SFI_Window.thy ===== *)
theory SFI_Window
  imports SFI_Inflate
begin

text \<open>
  The decoder's window. It is circular, and flushed when it is full; what it stands for is the list
  \<open>H\<close> of all bytes produced so far. Writing a byte appends to \<open>H\<close>, copying a match repeats bytes of
  \<open>H\<close>, and a flush writes the bytes not written yet and brings the checksum up to date.
\<close>

unbundle bit_operations_syntax

section \<open>Contents\<close>

definition wins :: "byte list \<Rightarrow> (nat \<Rightarrow> byte) \<Rightarrow> bool" where
  "wins H a \<longleftrightarrow> (\<forall>i < length H. length H \<le> i + WSIZE \<longrightarrow> a (i mod WSIZE) = H ! i)"

lemma WSIZE_pos [simp]: "0 < WSIZE"
  by (simp add: WSIZE_def)

lemma wins_put:
  assumes "wins H a" shows "wins (H @ [c]) (a(length H mod WSIZE := c))"
  unfolding wins_def
proof (intro allI impI)
  fix i assume i: "i < length (H @ [c])" "length (H @ [c]) \<le> i + WSIZE"
  show "(a(length H mod WSIZE := c)) (i mod WSIZE) = (H @ [c]) ! i"
  proof (cases "i = length H")
    case False
    then have lt: "i < length H" using i(1) by simp
    have "i mod WSIZE \<noteq> length H mod WSIZE"
    proof
      assume "i mod WSIZE = length H mod WSIZE"
      then have "WSIZE dvd length H - i" using lt by (metis mod_eq_dvd_iff_nat less_imp_le)
      then have "WSIZE \<le> length H - i" using lt by (intro dvd_imp_le) simp_all
      then show False using i(2) lt by simp
    qed
    then show ?thesis using assms lt i(2) by (simp add: wins_def nth_append)
  qed (simp add: nth_append)
qed

text \<open>A match: \<open>n\<close> bytes, each a copy of the one \<open>d\<close> before it.\<close>

fun lz_copy :: "nat \<Rightarrow> nat \<Rightarrow> 'a list \<Rightarrow> 'a list" where
  "lz_copy 0 d H = H"
| "lz_copy (Suc n) d H = lz_copy n d (H @ [H ! (length H - d)])"

lemma length_lz_copy [simp]: "length (lz_copy n d H) = length H + n"
  by (induction n d H rule: lz_copy.induct) auto

lemma lz_copy_add: "lz_copy (m + n) d H = lz_copy n d (lz_copy m d H)"
  by (induction m d H rule: lz_copy.induct) auto

lemma lz_copy_snoc: "lz_copy (Suc n) d H = (let H' = lz_copy n d H in H' @ [H' ! (length H' - d)])"
  using lz_copy_add [of n 1 d H] by (simp add: Let_def)

lemma lz_copy_prefix: "m \<le> length H \<Longrightarrow> take m (lz_copy n d H) = take m H"
  by (induction n d H rule: lz_copy.induct) auto

lemma wins_copy:
  assumes "wins H a" "w = length H mod WSIZE" "d = (length H - k) mod WSIZE" "1 \<le> k" "k \<le> WSIZE" "k \<le> length H"
  shows "w + e \<le> WSIZE \<Longrightarrow> d + e \<le> WSIZE \<Longrightarrow> wins (lz_copy e k H) (slide_memcpy w d e a)"
proof (induction e)
  case (Suc e)
  let ?H = "lz_copy e k H" and ?a = "slide_memcpy w d e a"
  have H: "wins ?H ?a" using Suc by simp
  have w: "length ?H mod WSIZE = w + e"
  proof -
    have "(length H mod WSIZE + e) mod WSIZE = w + e" using Suc.prems assms(2) by simp
    then show ?thesis by (simp add: mod_simps)
  qed
  have d: "(length ?H - k) mod WSIZE = d + e"
  proof -
    have "((length H - k) mod WSIZE + e) mod WSIZE = d + e" using Suc.prems assms(3) by simp
    then show ?thesis using assms(6) by (simp add: mod_simps)
  qed
  have "?a (d + e) = ?H ! (length ?H - k)"
    using H d assms(4-6) unfolding wins_def by (metis (no_types, lifting) diff_diff_cancel diff_less le_add_diff_inverse2 length_lz_copy less_le_trans trans_le_add1 le_diff_conv less_eq_Suc_le One_nat_def add_leD1 nat_add_left_cancel_le add.commute)
  then have "slide_memcpy w d (Suc e) a = ?a(length ?H mod WSIZE := ?H ! (length ?H - k))"
    unfolding w by (simp add: slide_memcpy_def)
  then show ?case using wins_put [OF H, of "?H ! (length ?H - k)"] by (simp only: lz_copy_snoc Let_def)
qed (use assms(1) in \<open>simp add: slide_memcpy_def\<close>)

lemma slide_memcpy_Suc: "slide_memcpy w d (Suc e) a = slide_memcpy (w + 1) (d + 1) e (a(w := a d))"
proof -
  have "[0..<Suc e] = 0 # map Suc [0..<e]" by (metis upt_conv_Cons map_Suc_upt zero_less_Suc)
  then show ?thesis by (simp add: slide_memcpy_def fold_map comp_def)
qed

lemma slide_slow_memcpy: "1 \<le> e \<Longrightarrow> slide_slow w d e a = slide_memcpy w d e a"
proof (induction w d e a rule: slide_slow.induct)
  case (1 w d e a)
  obtain m where m: "e = Suc m" using "1.prems" by (cases e) auto
  show ?case
  proof (cases "1 < e")
    case True
    then have "slide_slow (w + 1) (d + 1) (e - 1) (a(w := a d)) = slide_memcpy (w + 1) (d + 1) (e - 1) (a(w := a d))"
      by (intro "1.IH") (simp_all add: fun_upd_def)
    then show ?thesis using True unfolding m slide_memcpy_Suc by (simp add: slide_slow.simps [of w d "Suc m" a] Let_def)
  next
    case False
    then have "e = 1" using "1.prems" by simp
    then show ?thesis by (simp add: slide_slow.simps [of w d "Suc 0" a] slide_memcpy_def Let_def fun_upd_def cong: if_cong)
  qed
qed

section \<open>The state between two writes\<close>

text \<open>\<open>s0\<close> was written and \<open>c0\<close> has the test flag, the checksum register and the count of bytes before;
  of the bytes \<open>H\<close> all but the last \<open>w\<close> were flushed.\<close>

definition filled :: "byte list \<Rightarrow> bool \<times> u32 \<times> u32 \<Rightarrow> byte list \<Rightarrow> nat \<Rightarrow> gz \<Rightarrow> bool" where
  "filled s0 c0 H w g \<longleftrightarrow> w \<le> WSIZE \<and> w \<le> length H \<and> (length H - w) mod WSIZE = 0 \<and> wins H (window g) \<and>
     test g = fst c0 \<and> sink g = s0 @ (if test g then [] else take (length H - w) H) \<and>
     crc_reg g = foldl crc_step (fst (snd c0)) (take (length H - w) H) \<and> bytes_out g = snd (snd c0) + of_nat (length H - w)"

definition slides :: "byte list \<Rightarrow> bool \<times> u32 \<times> u32 \<Rightarrow> byte list \<Rightarrow> nat \<Rightarrow> gz \<Rightarrow> bool" where
  "slides s0 c0 H w g \<longleftrightarrow> filled s0 c0 H w g \<and> w < WSIZE"

lemma filled_mod:
  assumes "filled s0 c0 H w g" "w < WSIZE" shows "w = length H mod WSIZE"
proof -
  have l: "length H = w + (length H - w)" "(length H - w) mod WSIZE = 0" using assms(1) by (simp_all add: filled_def)
  then have "length H mod WSIZE = w mod WSIZE" by (metis mod_add_right_eq add_0_right)
  then show ?thesis using assms(2) by simp
qed

lemma filled_array:
  assumes "filled s0 c0 H w g" shows "get_array (window g) 0 w = drop (length H - w) H"
proof (rule nth_equalityI)
  fix i assume "i < length (get_array (window g) 0 w)"
  then have i: "i < w" by simp
  have f: "w \<le> WSIZE" "w \<le> length H" "(length H - w) mod WSIZE = 0" "wins H (window g)" using assms by (simp_all add: filled_def)
  let ?j = "length H - w + i"
  have "?j mod WSIZE = i" using f(1,3) i by (metis add_0_left mod_add_left_eq mod_less less_le_trans)
  then show "get_array (window g) 0 w ! i = drop (length H - w) H ! i"
    using f(4) [unfolded wins_def, rule_format, of ?j] f(1,2) i by (simp add: get_array_def)
qed (use assms in \<open>simp add: filled_def\<close>)

text \<open>What the output side of the decoder leaves alone.\<close>

definition same_but_win :: "gz \<Rightarrow> gz \<Rightarrow> bool" where
  "same_but_win g h \<longleftrightarrow> (let e = (\<lambda>x. x\<lparr>window := \<lambda>_. 0, outcnt := 0, sink := [], writes := 0, crc_reg := 0, bytes_out := 0\<rparr>) in e g = e h)"

lemma same_but_win_trans: "same_but_win g h \<Longrightarrow> same_but_win h k \<Longrightarrow> same_but_win g k"
  by (simp add: same_but_win_def Let_def)

lemma same_but_win_refl [simp]: "same_but_win g g" "same_but_win g (g\<lparr>outcnt := w\<rparr>)" "same_but_win g (g\<lparr>window := a\<rparr>)"
  by (simp_all add: same_but_win_def Let_def)

lemma same_but_winD:
  assumes "same_but_win g h"
  shows "instream h = instream g" "insize h = insize g" "inptr h = inptr g" "test h = test g" "hm h = hm g" "bb h = bb g" "bk h = bk g"
    "ready B h = ready B g" "ubits B h = ubits B g"
  using assms by (cases g; cases h; cases B; simp add: same_but_win_def instream_def ready_def last_read_def ubits_def Let_def)+

lemma flush_filled:
  assumes "io_ok S" "filled s0 c0 H w g" "outcnt g = w"
  obtains h where "flush_window S g = Return () h" "same_but_win g h" "outcnt h = 0" "window h = window g"
    "sink h = s0 @ (if test g then [] else H)" "crc_reg h = foldl crc_step (fst (snd c0)) H"
    "bytes_out h = snd (snd c0) + of_nat (length H)"
proof -
  obtain h where h: "flush_window S g = Return () h" "outcnt h = 0"
    "sink h = (if test g then sink g else sink g @ get_array (window g) 0 (outcnt g))"
    "crc_reg h = foldl crc_step (crc_reg g) (get_array (window g) 0 (outcnt g))"
    "h = g\<lparr>sink := sink h, writes := writes h, crc_reg := crc_reg h, bytes_out := bytes_out h, outcnt := 0\<rparr>"
    "bytes_out h = bytes_out g + of_nat (outcnt g)"
    by (rule flush_window_ok [OF assms(1)])
  have f: "sink g = s0 @ (if test g then [] else take (length H - w) H)" "crc_reg g = foldl crc_step (fst (snd c0)) (take (length H - w) H)"
    "bytes_out g = snd (snd c0) + of_nat (length H - w)" "w \<le> length H"
    using assms(2) by (simp_all add: filled_def)
  have "same_but_win g h" "window h = window g" by (subst h(5), simp add: same_but_win_def Let_def)+
  moreover have "sink h = s0 @ (if test g then [] else H)" "crc_reg h = foldl crc_step (fst (snd c0)) H"
    using h(3,4) f unfolding assms(3) filled_array [OF assms(2)] by (simp_all flip: foldl_append)
  moreover have "bytes_out h = snd (snd c0) + of_nat (length H)" using h(6) f(3,4) assms(3) by (simp add: of_nat_diff)
  ultimately show ?thesis using that h(1,2) by blast
qed

lemma wrap_window_ok:
  assumes "io_ok S" "filled s0 c0 H w g"
  obtains w' h where "wrap_window S w g = Return w' h" "slides s0 c0 H w' h" "same_but_win g h"
proof (cases "w = WSIZE")
  case True
  obtain h where h: "flush_window S (g\<lparr>outcnt := w\<rparr>) = Return () h" "same_but_win (g\<lparr>outcnt := w\<rparr>) h" "window h = window g"
    "sink h = s0 @ (if test g then [] else H)" "crc_reg h = foldl crc_step (fst (snd c0)) H"
    "bytes_out h = snd (snd c0) + of_nat (length H)"
    by (rule flush_filled [OF assms(1), of s0 c0 H w "g\<lparr>outcnt := w\<rparr>"]) (use assms(2) in \<open>simp_all add: filled_def\<close>)
  have s: "same_but_win g h" using h(2) same_but_win_trans same_but_win_refl(2) by blast
  have "WSIZE dvd length H - WSIZE" "WSIZE \<le> length H" using assms(2) True by (simp_all add: filled_def dvd_eq_mod_eq_0)
  then have "length H mod WSIZE = 0" by (metis dvd_eq_mod_eq_0 le_mod_geq)
  then have "slides s0 c0 H 0 h"
    using assms(2) h(3-6) same_but_winD(4) [OF s] by (simp add: slides_def filled_def)
  then show ?thesis using that h(1) s True by (simp add: wrap_window_def)
next
  case False
  then show ?thesis using that [of w g] assms(2) by (auto simp: wrap_window_def slides_def filled_def)
qed

lemma put_slide_ok:
  assumes "io_ok S" "slides s0 c0 H w g"
  obtains w' h where "put_slide S c w g = Return w' h" "slides s0 c0 (H @ [c]) w' h" "same_but_win g h"
proof -
  let ?g = "g\<lparr>window := (window g)(w := c)\<rparr>"
  have f: "filled s0 c0 H w g" "w < WSIZE" using assms(2) by (simp_all add: slides_def)
  have "filled s0 c0 (H @ [c]) (w + 1) ?g"
    using f wins_put [of H "window g" c] filled_mod [OF f] by (auto simp: filled_def Suc_le_eq less_Suc_eq_le)
  then obtain w' h where "wrap_window S (w + 1) ?g = Return w' h" "slides s0 c0 (H @ [c]) w' h" "same_but_win ?g h"
    by (rule wrap_window_ok [OF assms(1)])
  then show ?thesis using that same_but_win_trans [OF same_but_win_refl(3)] by (simp add: put_slide_def)
qed

lemma unat_low15: "unat (d AND 0x7fff) = unat (d :: u32) mod WSIZE"
proof -
  have "(0x7fff :: u32) = mask 15" by (simp add: mask_eq_exp_minus_1)
  then show ?thesis by (simp only: take_bit_eq_mask [symmetric] unat_take_bit) (simp add: WSIZE_def)
qed

lemma copy_match_ok:
  assumes "io_ok S" "slides s0 c0 H w g" "1 \<le> k" "k \<le> WSIZE" "k \<le> length H" "unat (d AND 0x7fff) = (length H - k) mod WSIZE"
  shows "\<exists>w' h. copy_match S n d w g = Return w' h \<and> slides s0 c0 (lz_copy n k H) w' h \<and> same_but_win g h"
  using assms(2-)
proof (induction n arbitrary: d w g H rule: less_induct)
  case (less n)
  let ?d = "unat (d AND 0x7fff)"
  define e where "e = min n (WSIZE - max ?d w)"
  have f: "filled s0 c0 H w g" "w < WSIZE" using less.prems(1) by (simp_all add: slides_def)
  have d: "?d < WSIZE" unfolding less.prems(5) by simp
  define a where "a = (if of_nat w - (d AND 0x7fff) \<ge> (of_nat e :: u32) then slide_memcpy w ?d e (window g)
    else slide_slow w ?d e (window g))"
  have a: "a = slide_memcpy w ?d e (window g)"
    using slide_slow_memcpy [of e w ?d "window g"] by (cases "e = 0") (auto simp: a_def)
  have b: "w + e \<le> WSIZE" "?d + e \<le> WSIZE" using f(2) d by (auto simp: e_def)
  have t: "take (length H + e - (w + e)) (lz_copy e k H) = take (length H - w) H"
    using lz_copy_prefix [of "length H - w" H e k] by simp
  have "filled s0 c0 (lz_copy e k H) (w + e) (g\<lparr>window := a\<rparr>)"
    using f(1) b wins_copy [OF _ filled_mod [OF f] less.prems(5,2-4) b] t unfolding a filled_def by simp
  then obtain w' h where h: "wrap_window S (w + e) (g\<lparr>window := a\<rparr>) = Return w' h" "slides s0 c0 (lz_copy e k H) w' h"
    "same_but_win (g\<lparr>window := a\<rparr>) h" by (rule wrap_window_ok [OF assms(1)])
  have s: "same_but_win g h" by (rule same_but_win_trans [OF same_but_win_refl(3) h(3)])
  have u: "copy_match S n d w g = (if n - e = 0 then Return w' h else if e = 0 then Halt Unterminated
      else copy_match S (n - e) ((d AND 0x7fff) + of_nat e) w' h)"
    unfolding copy_match.simps [of S n d w g] Let_def e_def [symmetric] a_def [symmetric] h(1) out_bind.simps ..
  show ?case
  proof (cases "n - e = 0")
    case True
    then have "e = n" by (simp add: e_def)
    then show ?thesis using u h s by auto
  next
    case False
    have e: "0 < e" using False f(2) d by (auto simp: e_def)
    have "unat ((d AND 0x7fff) + of_nat e) = ?d + e"
      using b(2) by (subst unat_add_lem [THEN iffD1]) (simp_all add: WSIZE_def unsigned_of_nat take_bit_nat_eq_self)
    then have m: "unat (((d AND 0x7fff) + of_nat e) AND 0x7fff) = (?d + e) mod WSIZE"
      using unat_low15 [of "(d AND 0x7fff) + of_nat e"] by simp
    have "((length H - k) mod WSIZE + e) mod WSIZE = (length H - k + e) mod WSIZE" by (simp add: mod_simps)
    then have d': "unat (((d AND 0x7fff) + of_nat e) AND 0x7fff) = (length (lz_copy e k H) - k) mod WSIZE"
      unfolding m less.prems(5) using less.prems(4) by simp
    have lt: "n - e < n" using e False by simp
    obtain w'' h' where h': "copy_match S (n - e) ((d AND 0x7fff) + of_nat e) w' h = Return w'' h'"
      "slides s0 c0 (lz_copy (n - e) k (lz_copy e k H)) w'' h'" "same_but_win h h'"
      using less.IH [OF lt h(2) less.prems(2,3) _ d'] less.prems(4) by auto
    have "lz_copy (n - e) k (lz_copy e k H) = lz_copy n k H" using False lz_copy_add [of e "n - e" k H] by simp
    then show ?thesis using u e False h' same_but_win_trans [OF s h'(3)] by simp
  qed
qed

end
