(* ===== verification/SFI_Codes.thy ===== *)
theory SFI_Codes
  imports SFI_Huft_Decode SFI_Window
begin

text \<open>
  What the decoder of a block does with the bits of a well-formed block: literals and matches, the
  end-of-block code, and the stored and fixed blocks around them. The meaning of a sequence of
  literals and matches is the list of bytes that it expands to.
\<close>

unbundle bit_operations_syntax

section \<open>The state of the decoder\<close>

text \<open>\<open>H\<close> is what was produced so far, \<open>xs\<close> the bits that are still to come. The decoder never holds
  two whole bytes that it does not need.\<close>

definition dec :: "byte list \<Rightarrow> bool \<times> u32 \<times> u32 \<Rightarrow> byte list \<Rightarrow> nat \<Rightarrow> bitbuf \<Rightarrow> gz \<Rightarrow> bool list \<Rightarrow> bool" where
  "dec s0 c0 H w B g xs \<longleftrightarrow> slides s0 c0 H w g \<and> ready B g \<and> ubits B g = xs \<and> snd B \<le> 15"

lemma slides_same_in: "same_but_in g h \<Longrightarrow> slides s0 c0 H w g \<Longrightarrow> slides s0 c0 H w h"
  by (simp add: slides_def filled_def same_but_inD)

lemma dec_read:
  "dec s0 c0 H w B g xs \<Longrightarrow> same_but_in g h \<Longrightarrow> ready B' h \<Longrightarrow> ubits B' h = ys \<Longrightarrow> snd B' \<le> 15 \<Longrightarrow> dec s0 c0 H w B' h ys"
  by (simp add: dec_def slides_same_in)

lemma dec_write:
  "dec s0 c0 H w B g xs \<Longrightarrow> same_but_win g h \<Longrightarrow> slides s0 c0 H' w' h \<Longrightarrow> dec s0 c0 H' w' B h xs"
  by (simp add: dec_def same_but_winD)

lemma dec_globals:
  "dec s0 c0 H w B g xs \<Longrightarrow> dec s0 c0 H w B (g\<lparr>hm := M\<rparr>) xs"
  "dec s0 c0 H w (b, k) g xs \<Longrightarrow> dec s0 c0 H w (b, k) (g\<lparr>outcnt := w, bb := b, bk := k\<rparr>) xs"
  "dec s0 c0 H w (b, k) g xs \<Longrightarrow> dec s0 c0 H w (b, k) (g\<lparr>bb := b, bk := k\<rparr>) xs"
  by (cases B; simp add: dec_def slides_def filled_def ready_def last_read_def ubits_def instream_def)+

text \<open>Reading leaves \<^verbatim>\<open>outcnt\<close> alone or stores the decoder's position there.\<close>

lemma sys_read_outcnt: "sys_read S n g = (r, h) \<Longrightarrow> outcnt h = outcnt g"
  by (auto simp: sys_read_def Let_def split: if_splits)

lemma fill_loop_outcnt: "fill_loop S g = Return u h \<Longrightarrow> outcnt h = outcnt g"
proof (induction S g rule: fill_loop.induct)
  case (1 S g)
  obtain r g1 where r: "sys_read S (INBUFSIZ - insize g) g = (r, g1)" by fastforce
  show ?case
  proof (cases r)
    case None
    then show ?thesis using "1.prems" r by (simp add: fill_loop.simps [of S g] read_error_def abort_gzip_def)
  next
    case (Some xs)
    then show ?thesis
      using "1.prems" "1.IH" [OF r [symmetric] Some _ refl] sys_read_outcnt [OF r] r
      by (auto simp: fill_loop.simps [of S g] Let_def split: if_splits)
  qed
qed

lemma get_byte_outcnt:
  assumes "get_byte S g = Return x h" shows "outcnt h = outcnt g"
  using assms fill_loop_outcnt [of S "g\<lparr>insize := 0\<rparr>"]
  by (auto simp: get_byte_def fill_inbuf_def read_error_def abort_gzip_def split: if_splits outcome.splits)

lemma NEEDBITS_outcnt: "NEEDBITS S w n B g = Return C h \<Longrightarrow> outcnt h = outcnt g \<or> outcnt h = w"
proof (induction S w n B g rule: NEEDBITS.induct)
  case (1 S w n b k g)
  show ?case
  proof (cases "k < n")
    case True
    then obtain x g1 where x: "NEXTBYTE S w g = Return x g1" "NEEDBITS S w n (b OR push_bit k (ucast x), k + 8) g1 = Return C h"
      using "1.prems" by (auto simp: NEEDBITS.simps [of S w n b k g] split: outcome.splits)
    have "outcnt g1 = outcnt g \<or> outcnt g1 = w"
      using x(1) get_byte_outcnt [of S "if inptr g < insize g then g else g\<lparr>outcnt := w\<rparr>"]
      by (auto simp: NEXTBYTE_get split: outcome.splits if_splits)
    then show ?thesis using "1.IH" [OF True x(2)] by auto
  next
    case False
    then show ?thesis using "1.prems" by (simp add: NEEDBITS.simps [of S w n b k g])
  qed
qed

lemma extra_bits_ok:
  assumes "io_ok S" "dec s0 c0 H w B g (bits_of n (v :: u32) @ xs)" "n \<le> 16"
  obtains B' h where "extra_bits S wp n B g = Return (unat (take_bit n v), B') h" "dec s0 c0 H w B' h xs" "hm h = hm g"
    "outcnt h = outcnt g \<or> outcnt h = wp"
proof -
  have B: "ready B g" "ubits B g = bits_of n v @ xs" using assms(2) by (simp_all add: dec_def)
  obtain b k h where h: "NEEDBITS S wp n B g = Return (b, k) h" "take_bit n b = take_bit n v"
    "ready (DUMPBITS n (b, k)) h" "ubits (DUMPBITS n (b, k)) h = xs" "same_but_in g h"
    "k - n \<le> max 7 (snd B)"
    by (rule get_bits [OF assms(1) B assms(3)])
  have "snd (DUMPBITS n (b, k)) \<le> 15" using h(6) assms(2) by (auto simp: DUMPBITS_def dec_def)
  note D = dec_read [OF assms(2) h(5,3,4) this]
  have "extra_bits S wp n B g = Return (unat (take_bit n v), DUMPBITS n (b, k)) h"
    using h(1,2) assms(3) by (simp add: extra_bits_def low_bits_take)
  moreover have "dec s0 c0 H w (DUMPBITS n (b, k)) h xs" by (rule D)
  ultimately show ?thesis using that same_but_inD(9) [OF h(5)] NEEDBITS_outcnt [OF h(1)] by blast
qed

text \<open>Writing a byte and copying a match.\<close>

lemma dec_put:
  assumes "io_ok S" "dec s0 c0 H w B g xs"
  obtains w' h where "put_slide S c w g = Return w' h" "dec s0 c0 (H @ [c]) w' B h xs" "hm h = hm g"
proof -
  have "slides s0 c0 H w g" using assms(2) by (simp add: dec_def)
  from put_slide_ok [OF assms(1) this, of c] obtain w' h where h: "put_slide S c w g = Return w' h"
    "slides s0 c0 (H @ [c]) w' h" "same_but_win g h" by blast
  show ?thesis by (rule that [OF h(1) dec_write [OF assms(2) h(3,2)] same_but_winD(5) [OF h(3)]])
qed

lemma distance_index:
  assumes "w = n mod WSIZE" "k \<le> n" shows "unat ((of_nat w - of_nat k :: u32) AND 0x7fff) = (n - k) mod WSIZE"
proof -
  let ?x = "of_nat w - of_nat k :: u32" and ?m = "n div WSIZE * WSIZE"
  have m: "a mod 4294967296 mod WSIZE = a mod WSIZE" for a by (rule mod_mod_cancel) (simp add: WSIZE_def)
  have "n = ?m + w" using assms(1) by simp
  then have "(of_nat n :: u32) = of_nat ?m + of_nat w" by (metis of_nat_add)
  then have "?x + of_nat ?m = of_nat (n - k)" using assms(2) by (simp add: of_nat_diff)
  then have "unat (of_nat (n - k) :: u32) mod WSIZE = unat (?x + of_nat ?m) mod WSIZE" by simp
  also have "\<dots> = (unat ?x + unat (of_nat ?m :: u32)) mod WSIZE"
    by (simp only: unat_word_ariths) (simp add: m)
  also have "\<dots> = unat ?x mod WSIZE"
  proof -
    have "unat (of_nat ?m :: u32) mod WSIZE = 0" by (simp only: unat_of_nat) (simp add: m)
    then show ?thesis by (metis mod_add_right_eq add_0_right)
  qed
  moreover have "unat (of_nat (n - k) :: u32) mod WSIZE = (n - k) mod WSIZE"
    by (simp only: unat_of_nat) (simp add: m)
  ultimately show ?thesis by (simp add: unat_low15)
qed

lemma dec_copy:
  assumes "io_ok S" "dec s0 c0 H w B g xs" "1 \<le> k" "k \<le> WSIZE" "k \<le> length H"
  obtains w' h where "copy_match S n (of_nat w - of_nat k) w g = Return w' h" "dec s0 c0 (lz_copy n k H) w' B h xs" "hm h = hm g"
proof -
  have s: "slides s0 c0 H w g" using assms(2) by (simp add: dec_def)
  then have "w = length H mod WSIZE" unfolding slides_def by (blast intro: filled_mod)
  from copy_match_ok [OF assms(1) s assms(3-5) distance_index [OF this assms(5)], of n] obtain w' h where
    h: "copy_match S n (of_nat w - of_nat k) w g = Return w' h" "slides s0 c0 (lz_copy n k H) w' h" "same_but_win g h" by blast
  show ?thesis by (rule that [OF h(1) dec_write [OF assms(2) h(3,2)] same_but_winD(5) [OF h(3)]])
qed

section \<open>Literals and matches\<close>

text \<open>A match has the number \<open>lc\<close> of its length range with its offset \<open>x\<close>, and the same for its distance.\<close>

datatype token = Lit byte | Match nat nat nat nat

definition match_len :: "nat \<Rightarrow> nat \<Rightarrow> nat" where "match_len lc x = cplens ! lc + x"
definition match_dist :: "nat \<Rightarrow> nat \<Rightarrow> nat" where "match_dist dc y = cpdist ! dc + y"

fun expand :: "token list \<Rightarrow> byte list \<Rightarrow> byte list" where
  "expand [] H = H"
| "expand (Lit c # ts) H = expand ts (H @ [c])"
| "expand (Match lc x dc y # ts) H = expand ts (lz_copy (match_len lc x) (match_dist dc y) H)"

text \<open>The symbols exist, and a distance does not go back before the start.\<close>

fun token_ok :: "nat list \<Rightarrow> nat list \<Rightarrow> nat \<Rightarrow> token \<Rightarrow> bool" where
  "token_ok lb db n (Lit c) \<longleftrightarrow> unat c < length lb \<and> lb ! unat c \<noteq> 0"
| "token_ok lb db n (Match lc x dc y) \<longleftrightarrow>
     lc < 29 \<and> x < 2 ^ (cplext ! lc) \<and> 257 + lc < length lb \<and> lb ! (257 + lc) \<noteq> 0 \<and>
     dc < 30 \<and> y < 2 ^ (cpdext ! dc) \<and> dc < length db \<and> db ! dc \<noteq> 0 \<and> match_dist dc y \<le> n"

fun tokens_ok :: "nat list \<Rightarrow> nat list \<Rightarrow> nat \<Rightarrow> token list \<Rightarrow> bool" where
  "tokens_ok lb db n [] \<longleftrightarrow> 256 < length lb \<and> lb ! 256 \<noteq> 0"
| "tokens_ok lb db n (t # ts) \<longleftrightarrow> token_ok lb db n t \<and> tokens_ok lb db (length (expand [t] (replicate n 0))) ts"

fun token_bits :: "nat list \<Rightarrow> nat list \<Rightarrow> token \<Rightarrow> bool list" where
  "token_bits lb db (Lit c) = canon_bits lb (unat c)"
| "token_bits lb db (Match lc x dc y) =
     canon_bits lb (257 + lc) @ bits_of (cplext ! lc) (of_nat x :: u32) @
     canon_bits db dc @ bits_of (cpdext ! dc) (of_nat y :: u32)"

definition tokens_bits :: "nat list \<Rightarrow> nat list \<Rightarrow> token list \<Rightarrow> bool list" where
  "tokens_bits lb db ts = concat (map (token_bits lb db) ts) @ canon_bits lb 256"

lemma length_expand: "length H = length H' \<Longrightarrow> length (expand ts H) = length (expand ts H')"
  by (induction ts H arbitrary: H' rule: expand.induct) simp_all

lemma expand_append: "expand (ts @ us) H = expand us (expand ts H)"
  by (induction ts H rule: expand.induct) simp_all

text \<open>The two code tables that the decoder has in memory.\<close>

definition trees :: "nat list \<Rightarrow> nat list \<Rightarrow> nat option \<Rightarrow> nat option \<Rightarrow> nat \<Rightarrow> nat \<Rightarrow> (nat \<Rightarrow> nat \<Rightarrow> huft) \<Rightarrow> bool" where
  "trees lb db lt dt bl bd T \<longleftrightarrow>
     (\<exists>zl. tree lb 257 cplens cplext lt bl zl T) \<and> (\<exists>zd. tree db 0 cpdist cpdext dt bd zd T) \<and> root_ok 9 lb bl \<and> root_ok 9 db bd"

lemma length_tables:
  "lc < 29 \<Longrightarrow> cplext ! lc \<le> 5 \<and> 3 \<le> cplens ! lc \<and> cplens ! lc + 2 ^ (cplext ! lc) \<le> 259"
  "dc < 30 \<Longrightarrow> cpdext ! dc \<le> 13 \<and> 1 \<le> cpdist ! dc \<and> cpdist ! dc + 2 ^ (cpdext ! dc) \<le> 32769"
proof -
  have "list_all (\<lambda>i. cplext ! i \<le> 5 \<and> 3 \<le> cplens ! i \<and> cplens ! i + 2 ^ (cplext ! i) \<le> 259) [0..<29]"
    by (simp add: cplext_def cplens_def upt_rec)
  then show "lc < 29 \<Longrightarrow> cplext ! lc \<le> 5 \<and> 3 \<le> cplens ! lc \<and> cplens ! lc + 2 ^ (cplext ! lc) \<le> 259"
    unfolding list_all_iff set_upt by simp
  have "list_all (\<lambda>i. cpdext ! i \<le> 13 \<and> 1 \<le> cpdist ! i \<and> cpdist ! i + 2 ^ (cpdext ! i) \<le> 32769) [0..<30]"
    by (simp add: cpdext_def cpdist_def upt_rec)
  then show "dc < 30 \<Longrightarrow> cpdext ! dc \<le> 13 \<and> 1 \<le> cpdist ! dc \<and> cpdist ! dc + 2 ^ (cpdext ! dc) \<le> 32769"
    unfolding list_all_iff set_upt by simp
qed

lemma dec_symbol:
  assumes io: "io_ok S" and T: "tree b s d e lt bl z (tabs (hm g))" and t: "t < length b" "b ! t \<noteq> 0" "s \<le> t \<Longrightarrow> e ! (t - s) \<le> 16"
    and R: "root_ok 9 b bl" and D: "dec s0 c0 H w B g (canon_bits b t @ xs)" "32 \<le> length xs"
  obtains r B' h where "decode_entry S lt bl wp B g = Some (Return (Some r, B') h)" "symbol_entry s d e t r"
    "dec s0 c0 H w B' h xs" "hm h = hm g"
proof -
  have B: "ready B g" "ubits B g = canon_bits b t @ xs" using D(1) by (simp_all add: dec_def)
  obtain r B' h where h: "decode_entry S lt bl wp B g = Some (Return (Some r, B') h)" "symbol_entry s d e t r"
    "ready B' h" "ubits B' h = xs" "same_but_in g h" "snd B' \<le> 15"
    using decode_entry_ok [OF io T t B D(2), of wp] R D(1) by (auto simp: dec_def)
  show ?thesis by (rule that [OF h(1,2) dec_read [OF D(1) h(5,3,4,6)] same_but_inD(9) [OF h(5)]])
qed

lemma unat_symbol: "n < 65536 \<Longrightarrow> h_v r = Vn (of_nat n) \<Longrightarrow> huft_n r = n"
  by (simp add: huft_n_def unsigned_of_nat take_bit_nat_eq_self)

lemma match_turn:
  assumes io: "io_ok S" and T: "trees lb db lt dt bl bd (tabs (hm g))" and ok: "token_ok lb db (length H) (Match lc x dc y)"
    and r: "symbol_entry 257 cplens cplext (257 + lc) r"
    and D: "dec s0 c0 H w B g (bits_of (cplext ! lc) (of_nat x :: u32) @ canon_bits db dc @ bits_of (cpdext ! dc) (of_nat y :: u32) @ xs)"
    and xs: "32 \<le> length xs"
  shows "\<exists>B' w' h. inflate_match S r dt bd w B g = Some (Return (Next B' w') h) \<and>
    dec s0 c0 (lz_copy (match_len lc x) (match_dist dc y) H) w' B' h xs \<and> hm h = hm g"
proof -
  have lc: "lc < 29" "x < 2 ^ (cplext ! lc)" "dc < 30" "y < 2 ^ (cpdext ! dc)" "dc < length db" "db ! dc \<noteq> 0" "match_dist dc y \<le> length H"
    using ok by simp_all
  note lt1 = length_tables(1) [OF lc(1)] and lt2 = length_tables(2) [OF lc(3)]
  have hr: "h_e r = cplext ! lc" "huft_n r = cplens ! lc"
    using r lt1 by (simp_all add: symbol_entry_def unat_symbol)
  have tb: "unat (take_bit n (of_nat v :: u32)) = v" if "v < 2 ^ n" "n \<le> 13" for n v
  proof -
    have "v < 2 ^ 13" using that power_increasing [of n 13 "2 :: nat"] by simp
    then show ?thesis using that by (simp add: unsigned_take_bit_eq unsigned_of_nat take_bit_nat_eq_self)
  qed
  obtain B1 g1 where 1: "extra_bits S w (h_e r) B g = Return (x, B1) g1" "hm g1 = hm g"
    "dec s0 c0 H w B1 g1 (canon_bits db dc @ bits_of (cpdext ! dc) (of_nat y :: u32) @ xs)"
    by (rule extra_bits_ok [OF io D, of w]) (use lt1 lc tb [OF lc(2)] hr in auto)
  obtain zd where T2: "tree db 0 cpdist cpdext dt bd zd (tabs (hm g1))" "root_ok 9 db bd" using T 1(2) by (auto simp: trees_def)
  obtain r2 B2 g2 where 2: "decode_entry S dt bd w B1 g1 = Some (Return (Some r2, B2) g2)" "symbol_entry 0 cpdist cpdext dc r2" "hm g2 = hm g1"
    "dec s0 c0 H w B2 g2 (bits_of (cpdext ! dc) (of_nat y :: u32) @ xs)"
    by (rule dec_symbol [OF io T2(1) lc(5,6) _ T2(2) 1(3)]) (use lt2 xs in auto)
  have hr2: "h_e r2 = cpdext ! dc" "huft_n r2 = cpdist ! dc" using 2(2) lt2 by (simp_all add: symbol_entry_def unat_symbol)
  obtain B3 g3 where 3: "extra_bits S w (h_e r2) B2 g2 = Return (y, B3) g3" "hm g3 = hm g2" "dec s0 c0 H w B3 g3 xs"
    by (rule extra_bits_ok [OF io 2(4), of w]) (use lt2 lc tb [OF lc(4)] hr2 in auto)
  have k: "1 \<le> match_dist dc y" "match_dist dc y \<le> WSIZE" using lt2 lc(4) by (simp_all add: match_dist_def WSIZE_def)
  obtain w' h where 4: "copy_match S (match_len lc x) (of_nat w - of_nat (match_dist dc y)) w g3 = Return w' h" "hm h = hm g3"
    "dec s0 c0 (lz_copy (match_len lc x) (match_dist dc y) H) w' B3 h xs"
    by (rule dec_copy [OF io 3(3) k lc(7)])
  have "of_nat w - of_nat (huft_n r2) - of_nat y = (of_nat w - of_nat (match_dist dc y) :: u32)"
    using hr2 by (simp add: match_dist_def)
  note dist = this
  have "inflate_match S r dt bd w B g = Some (Return (Next B3 w') h)"
    unfolding inflate_match_def 1(1) opt_bind_simps prod.case 2(1) option.case 3(1) dist hr(2) match_len_def [symmetric] 4(1) by simp
  then show ?thesis using 1(2) 2(3) 3(2) 4(2,3) by auto
qed

lemma token_turn:
  assumes io: "io_ok S" and T: "trees lb db lt dt bl bd (tabs (hm g))" and ok: "token_ok lb db (length H) t"
    and D: "dec s0 c0 H w B g (token_bits lb db t @ xs)" and xs: "32 \<le> length xs"
  shows "\<exists>B' w' h. inflate_turn S lt dt bl bd w B g = Some (Return (Next B' w') h) \<and>
    dec s0 c0 (expand [t] H) w' B' h xs \<and> hm h = hm g"
proof -
  obtain zl where T1: "tree lb 257 cplens cplext lt bl zl (tabs (hm g))" "root_ok 9 lb bl" using T by (auto simp: trees_def)
  show ?thesis
  proof (cases t)
    case (Lit c)
    have c: "unat c < length lb" "lb ! unat c \<noteq> 0" "unat c < 256" using ok Lit unsigned_less [of c, where 'a = nat] by simp_all
    obtain r B1 g1 where 1: "decode_entry S lt bl w B g = Some (Return (Some r, B1) g1)" "symbol_entry 257 cplens cplext (unat c) r"
      "dec s0 c0 H w B1 g1 xs" "hm g1 = hm g"
      by (rule dec_symbol [OF io T1(1) c(1,2) _ T1(2) D [unfolded Lit token_bits.simps] xs]) (use c(3) in auto)
    have r: "h_e r = 16" "huft_n r = unat c" using 1(2) c(3) by (simp_all add: symbol_entry_def unat_symbol)
    obtain w' h where "put_slide S c w g1 = Return w' h" "dec s0 c0 (H @ [c]) w' B1 h xs" "hm h = hm g1"
      by (rule dec_put [OF io 1(3)])
    then show ?thesis using 1(1,4) r Lit by (auto simp: inflate_turn_def)
  next
    case (Match lc x dc y)
    have lc: "lc < 29" "257 + lc < length lb" "lb ! (257 + lc) \<noteq> 0" using ok Match by simp_all
    have D': "dec s0 c0 H w B g (canon_bits lb (257 + lc) @ bits_of (cplext ! lc) (of_nat x :: u32) @ canon_bits db dc @
        bits_of (cpdext ! dc) (of_nat y :: u32) @ xs)" using D Match by simp
    obtain r B1 g1 where 1: "decode_entry S lt bl w B g = Some (Return (Some r, B1) g1)" "symbol_entry 257 cplens cplext (257 + lc) r"
      "dec s0 c0 H w B1 g1 (bits_of (cplext ! lc) (of_nat x :: u32) @ canon_bits db dc @ bits_of (cpdext ! dc) (of_nat y :: u32) @ xs)" "hm g1 = hm g"
      by (rule dec_symbol [OF io T1(1) lc(2,3) _ T1(2) D']) (use xs length_tables(1) [OF lc(1)] in auto)
    have "h_e r \<noteq> 16" "h_e r \<noteq> 15" using 1(2) length_tables(1) [OF lc(1)] by (simp_all add: symbol_entry_def)
    moreover have T': "trees lb db lt dt bl bd (tabs (hm g1))" using T 1(4) by simp
    moreover obtain B' w' h where "inflate_match S r dt bd w B1 g1 = Some (Return (Next B' w') h)"
      "dec s0 c0 (lz_copy (match_len lc x) (match_dist dc y) H) w' B' h xs" "hm h = hm g1"
      using match_turn [OF io T' ok [unfolded Match] 1(2,3) xs] by blast
    ultimately show ?thesis using 1(1,4) Match by (auto simp: inflate_turn_def)
  qed
qed

lemma codes_turns_ok:
  assumes io: "io_ok S" and xs: "32 \<le> length xs"
  shows "trees lb db lt dt bl bd (tabs (hm g)) \<Longrightarrow> tokens_ok lb db (length H) ts \<Longrightarrow> dec s0 c0 H w B g (tokens_bits lb db ts @ xs) \<Longrightarrow>
    \<exists>h. codes_turns S lt dt bl bd w B g = Some (Return 0 h) \<and> dec s0 c0 (expand ts H) (outcnt h) (bb h, bk h) h xs \<and> hm h = hm g"
proof (induction ts arbitrary: g H w B)
  case Nil
  obtain zl where T1: "tree lb 257 cplens cplext lt bl zl (tabs (hm g))" "root_ok 9 lb bl" using Nil.prems(1) by (auto simp: trees_def)
  have e: "256 < length lb" "lb ! 256 \<noteq> 0" "dec s0 c0 H w B g (canon_bits lb 256 @ xs)"
    using Nil.prems by (simp_all add: tokens_bits_def)
  obtain r B1 g1 where 1: "decode_entry S lt bl w B g = Some (Return (Some r, B1) g1)" "symbol_entry 257 cplens cplext 256 r"
    "dec s0 c0 H w B1 g1 xs" "hm g1 = hm g"
    by (rule dec_symbol [OF io T1(1) e(1,2) _ T1(2) e(3) xs]) auto
  obtain b k where B1: "B1 = (b, k)" by (cases B1)
  have "h_e r = 15" using 1(2) by (simp add: symbol_entry_def)
  then have "inflate_turn S lt dt bl bd w B g = Some (Return (End_block B1 w) g1)" using 1(1) by (simp add: inflate_turn_def)
  then have "codes_turns S lt dt bl bd w B g = Some (Return 0 (g1\<lparr>outcnt := w, bb := b, bk := k\<rparr>))"
    by (subst codes_turns.simps) (simp add: B1)
  then show ?case using dec_globals(2) [of s0 c0 H w b k g1 xs] 1(3,4) B1 by auto
next
  case (Cons t ts)
  have t: "token_ok lb db (length H) t" "tokens_ok lb db (length (expand [t] H)) ts"
    using Cons.prems(2) length_expand [of H "replicate (length H) 0" "[t]"] by simp_all
  have D: "dec s0 c0 H w B g (token_bits lb db t @ (tokens_bits lb db ts @ xs))" using Cons.prems(3) by (simp add: tokens_bits_def)
  obtain B1 w1 g1 where 1: "inflate_turn S lt dt bl bd w B g = Some (Return (Next B1 w1) g1)"
    "dec s0 c0 (expand [t] H) w1 B1 g1 (tokens_bits lb db ts @ xs)" "hm g1 = hm g"
    using token_turn [OF io Cons.prems(1) t(1) D] xs by auto
  have "codes_turns S lt dt bl bd w B g = codes_turns S lt dt bl bd w1 B1 g1" by (subst codes_turns.simps) (simp add: 1(1))
  moreover have "expand ts (expand [t] H) = expand (t # ts) H" using expand_append [of "[t]" ts H] by simp
  ultimately show ?case using Cons.IH [OF _ t(2) 1(2)] Cons.prems(1) 1(3) by auto
qed

lemma inflate_codes_ok:
  assumes "io_ok S" "32 \<le> length xs" "trees lb db lt dt bl bd (tabs (hm g))" "tokens_ok lb db (length H) ts"
    "dec s0 c0 H (outcnt g) (bb g, bk g) g (tokens_bits lb db ts @ xs)"
  obtains h where "inflate_codes S lt dt bl bd g = Some (Return 0 h)" "dec s0 c0 (expand ts H) (outcnt h) (bb h, bk h) h xs" "hm h = hm g"
  using codes_turns_ok [OF assms] by (auto simp: inflate_codes_def)

section \<open>Fixed blocks\<close>

definition fixed_dist_lengths :: "nat list" where
  "fixed_dist_lengths = replicate 30 5"

lemma fixed_lengths:
  "lengths_ok fixed_lit_lengths" "near_ok fixed_lit_lengths 7" "kraft fixed_lit_lengths = 2 ^ 16"
  "lengths_ok fixed_dist_lengths" "near_ok fixed_dist_lengths 5" "kraft fixed_dist_lengths \<noteq> 2 ^ 16"
  by (simp_all add: lengths_ok_def near_ok_def kraft_def fixed_lit_lengths_def fixed_dist_lengths_def sum_list_replicate)

text \<open>What a block does to the state between two blocks.\<close>

definition block_done :: "byte list \<Rightarrow> bool \<times> u32 \<times> u32 \<Rightarrow> byte list \<Rightarrow> gz \<Rightarrow> bool list \<Rightarrow> bool" where
  "block_done s0 c0 H g xs \<longleftrightarrow> dec s0 c0 H (outcnt g) (bb g, bk g) g xs \<and> heap_wf g"

lemma build_and_free:
  assumes "tables_step (nalloc (hm g)) (live (hm g)) g h" "nalloc (hm g) < nalloc (hm h)" "heap_wf g"
  shows "h = g\<lparr>hm := hm h\<rparr>" "heap_wf h" "tables_at (nalloc (hm g)) (nalloc (hm h)) h"
    "live (hm h) = rev [nalloc (hm g)..<nalloc (hm h)] @ live (hm g)"
  using assms by (auto simp: tables_step_def chained_def heap_wf_def tables_at_def)


lemma block_heap:
  assumes D: "block_done s0 c0 H g xs" and "tables_step a L g h1" "tables_step b M h1 h2"
  shows "dec s0 c0 H (outcnt h2) (bb h2, bk h2) h2 xs"
proof -
  have e: "h2 = h1\<lparr>hm := hm h2\<rparr>" "h1 = g\<lparr>hm := hm h1\<rparr>" using assms(2,3) by (simp_all add: tables_step_def)
  have h2: "h2 = g\<lparr>hm := hm h2\<rparr>" using e(1) arg_cong [OF e(2), of "\<lambda>g. g\<lparr>hm := hm h2\<rparr>"] by simp
  have gl: "outcnt h2 = outcnt g" "bb h2 = bb g" "bk h2 = bk g" by (subst h2, simp)+
  have "dec s0 c0 H (outcnt g) (bb g, bk g) (g\<lparr>hm := hm h2\<rparr>) xs" by (rule dec_globals(1)) (use D in \<open>simp add: block_done_def\<close>)
  then show ?thesis unfolding gl h2 [symmetric] .
qed

lemma fixed_trees:
  assumes "\<forall>i. hmalloc S i"
  obtains bl bd h1 h2 where
    "huft_build S fixed_lit_lengths 257 cplens cplext 7 g = Return (0, Some (nalloc (hm g)), bl) h1"
    "huft_build S (replicate 30 5) 0 cpdist cpdext 5 h1 = Return (1, Some (nalloc (hm h1)), bd) h2"
    "tables_step (nalloc (hm g)) (live (hm g)) g h1" "nalloc (hm g) < nalloc (hm h1)"
    "tables_step (nalloc (hm h1)) (live (hm h1)) h1 h2" "nalloc (hm h1) < nalloc (hm h2)"
    "trees fixed_lit_lengths fixed_dist_lengths (Some (nalloc (hm g))) (Some (nalloc (hm h1))) bl bd (tabs (hm h2))"
proof -
  obtain bl h1 where 1: "huft_build S fixed_lit_lengths 257 cplens cplext 7 g = Return (0, Some (nalloc (hm g)), bl) h1"
    "tables_step (nalloc (hm g)) (live (hm g)) g h1" "nalloc (hm g) < nalloc (hm h1)"
    "tree fixed_lit_lengths 257 cplens cplext (Some (nalloc (hm g))) bl (nalloc (hm h1)) (tabs (hm h1))" "root_ok 7 fixed_lit_lengths bl"
    by (rule huft_build_ok [OF assms fixed_lengths(1,2), of 257 cplens cplext g]) (simp add: fixed_lengths(3))
  have n1: "\<not> (\<forall>l \<in> set fixed_dist_lengths. l \<le> 1)" by (simp add: fixed_dist_lengths_def)
  obtain bd h2 where 2: "huft_build S fixed_dist_lengths 0 cpdist cpdext 5 h1 = Return (1, Some (nalloc (hm h1)), bd) h2"
    "tables_step (nalloc (hm h1)) (live (hm h1)) h1 h2" "nalloc (hm h1) < nalloc (hm h2)"
    "tree fixed_dist_lengths 0 cpdist cpdext (Some (nalloc (hm h1))) bd (nalloc (hm h2)) (tabs (hm h2))" "root_ok 5 fixed_dist_lengths bd"
    by (rule huft_build_ok [OF assms fixed_lengths(4,5), of 0 cpdist cpdext h1]) (use n1 fixed_lengths(6) in auto)
  have "tree fixed_lit_lengths 257 cplens cplext (Some (nalloc (hm g))) bl (nalloc (hm h1)) (tabs (hm h2))"
    by (rule tree_mono [OF 1(4)]) (use 2(2) in \<open>simp add: tables_step_def\<close>)
  then show ?thesis using that 1(1-3) 2(1-4) root_ok_mono [OF 1(5), of 9] root_ok_mono [OF 2(5), of 9] by (auto simp: trees_def fixed_dist_lengths_def)
qed

text \<open>Both tables are freed after the block.\<close>

lemma free_both:
  assumes wf: "heap_wf g" and 1: "tables_step (nalloc (hm g)) (live (hm g)) g h1" "nalloc (hm g) < nalloc (hm h1)"
    and 2: "tables_step (nalloc (hm h1)) (live (hm h1)) h1 h2" "nalloc (hm h1) < nalloc (hm h2)" and h: "hm h = hm h2"
  shows "\<exists>h3 M. huft_free (Some (nalloc (hm g))) h = Return () h3 \<and> huft_free (Some (nalloc (hm h1))) h3 = Return () (h\<lparr>hm := M\<rparr>) \<and>
    live M = live (hm g) \<and> nalloc M = nalloc (hm h2)"
proof -
  let ?a = "nalloc (hm g)" and ?b = "nalloc (hm h1)" and ?c = "nalloc (hm h2)" and ?L = "live (hm g)"
  note s1 = build_and_free [OF 1 wf]
  note s2 = build_and_free [OF 2 s1(2)]
  have L: "live (hm h) = rev [?b..<?c] @ rev [?a..<?b] @ ?L" "distinct (live (hm h))" "\<And>q. q \<in> set ?L \<Longrightarrow> q < ?a"
    using s1(4) s2(4) s2(2) wf h by (auto simp: heap_wf_def)
  have "tables_at ?a ?b h"
    using s1(3) 2(1) L(1) h by (auto simp: tables_at_def tables_step_def)
  from huft_free_ok [OF L(2) this] have f1:
    "huft_free (Some ?a) h = Return () (h\<lparr>hm := (hm h)\<lparr>live := filter (\<lambda>q. q \<notin> {?a..<?b}) (live (hm h))\<rparr>\<rparr>)" .
  have e: "filter (\<lambda>q. q \<notin> {?a..<?b}) (live (hm h)) = rev [?b..<?c] @ ?L"
  proof -
    have "filter (\<lambda>q. q \<notin> {?a..<?b}) ?L = ?L" by (rule filter_True) (use L(3) in fastforce)
    moreover have "filter (\<lambda>q. q \<notin> {?a..<?b}) (rev [?b..<?c]) = rev [?b..<?c]" by (rule filter_True) auto
    moreover have "filter (\<lambda>q. q \<notin> {?a..<?b}) (rev [?a..<?b]) = []" by (rule filter_False) auto
    ultimately show ?thesis unfolding L(1) filter_append by simp
  qed
  let ?h = "h\<lparr>hm := (hm h)\<lparr>live := rev [?b..<?c] @ ?L\<rparr>\<rparr>"
  have "tables_at ?b ?c ?h" using s2(3) h by (auto simp: tables_at_def)
  moreover have "distinct (live (hm ?h))" using L(2) unfolding L(1) by auto
  ultimately have f2: "huft_free (Some ?b) ?h = Return () (?h\<lparr>hm := (hm ?h)\<lparr>live := filter (\<lambda>q. q \<notin> {?b..<?c}) (live (hm ?h))\<rparr>\<rparr>)"
    by (intro huft_free_ok)
  have "filter (\<lambda>q. q \<notin> {?b..<?c}) (live (hm ?h)) = ?L"
  proof -
    have "filter (\<lambda>q. q \<notin> {?b..<?c}) ?L = ?L" by (rule filter_True) (use L(3) 1(2) in fastforce)
    moreover have "filter (\<lambda>q. q \<notin> {?b..<?c}) (rev [?b..<?c]) = []" by (rule filter_False) auto
    ultimately show ?thesis by simp
  qed
  then show ?thesis using f1 f2 e h by (intro exI conjI) (assumption | simp)+
qed

lemma inflate_fixed_ok:
  assumes io: "io_ok S" "\<forall>i. hmalloc S i" and xs: "32 \<le> length xs"
    and ok: "tokens_ok fixed_lit_lengths fixed_dist_lengths (length H) ts"
    and D: "block_done s0 c0 H g (tokens_bits fixed_lit_lengths fixed_dist_lengths ts @ xs)"
  obtains h where "inflate_fixed S g = Some (Return 0 h)" "block_done s0 c0 (expand ts H) h xs" "live (hm h) = live (hm g)"
proof -
  have wf: "heap_wf g" using D by (simp add: block_done_def)
  obtain bl bd h1 h2 where b: "huft_build S fixed_lit_lengths 257 cplens cplext 7 g = Return (0, Some (nalloc (hm g)), bl) h1"
    "huft_build S (replicate 30 5) 0 cpdist cpdext 5 h1 = Return (1, Some (nalloc (hm h1)), bd) h2"
    "tables_step (nalloc (hm g)) (live (hm g)) g h1" "nalloc (hm g) < nalloc (hm h1)"
    "tables_step (nalloc (hm h1)) (live (hm h1)) h1 h2" "nalloc (hm h1) < nalloc (hm h2)"
    "trees fixed_lit_lengths fixed_dist_lengths (Some (nalloc (hm g))) (Some (nalloc (hm h1))) bl bd (tabs (hm h2))"
    by (rule fixed_trees [OF io(2)])
  note block_heap [OF D b(3,5)]
  from inflate_codes_ok [OF io(1) xs b(7) ok this] obtain h3 where
    h3: "inflate_codes S (Some (nalloc (hm g))) (Some (nalloc (hm h1))) bl bd h2 = Some (Return 0 h3)"
    "dec s0 c0 (expand ts H) (outcnt h3) (bb h3, bk h3) h3 xs" "hm h3 = hm h2" by blast
  obtain h4 M where f: "huft_free (Some (nalloc (hm g))) h3 = Return () h4" "huft_free (Some (nalloc (hm h1))) h4 = Return () (h3\<lparr>hm := M\<rparr>)"
    "live M = live (hm g)" "nalloc M = nalloc (hm h2)"
    using free_both [OF wf b(3-6) h3(3)] by blast
  have "inflate_fixed S g = Some (Return 0 (h3\<lparr>hm := M\<rparr>))" 
    unfolding inflate_fixed_def b(1) opt_bind_simps prod.case b(2) by (simp only: h3(1) f(1,2) opt_bind_simps out_bind.simps) simp
  moreover have "block_done s0 c0 (expand ts H) (h3\<lparr>hm := M\<rparr>) xs"
    using dec_globals(1) [OF h3(2), of M] wf f(3,4) b(4,6) by (fastforce simp: block_done_def heap_wf_def)
  ultimately show ?thesis using that f(3) by simp
qed

section \<open>Stored blocks\<close>

lemma dec_needbits:
  assumes "io_ok S" "dec s0 c0 H w B g (bits_of n (v :: u32) @ xs)" "n \<le> 16"
  obtains b k h where "NEEDBITS S wp n B g = Return (b, k) h" "take_bit n b = take_bit n v" "dec s0 c0 H w (DUMPBITS n (b, k)) h xs"
    "hm h = hm g"
proof -
  have B: "ready B g" "ubits B g = bits_of n v @ xs" using assms(2) by (simp_all add: dec_def)
  obtain b k h where h: "NEEDBITS S wp n B g = Return (b, k) h" "take_bit n b = take_bit n v"
    "ready (DUMPBITS n (b, k)) h" "ubits (DUMPBITS n (b, k)) h = xs" "same_but_in g h"
    "k - n \<le> max 7 (snd B)"
    by (rule get_bits [OF assms(1) B assms(3)])
  have "snd (DUMPBITS n (b, k)) \<le> 15" using h(6) assms(2) by (auto simp: DUMPBITS_def dec_def)
  note D = dec_read [OF assms(2) h(5,3,4) this]
  show ?thesis by (rule that [OF h(1,2) D same_but_inD(9) [OF h(5)]])
qed

lemma bits_of_byte: "bits_of 8 (ucast (c :: byte) :: u32) = bits_of 8 c"
  by (rule nth_equalityI) (auto simp: bit_simps)

lemma stored_bytes_ok:
  assumes io: "io_ok S"
  shows "dec s0 c0 H w B g (bytes_bits cs @ xs) \<Longrightarrow>
    \<exists>w' B' h. stored_bytes S (length cs) w B g = Return (w', B') h \<and> dec s0 c0 (H @ cs) w' B' h xs \<and> hm h = hm g"
proof (induction cs arbitrary: H w B g)
  case (Cons c cs)
  have D: "dec s0 c0 H w B g (bits_of 8 (ucast c :: u32) @ (bytes_bits cs @ xs))" using Cons.prems by (simp add: bits_of_byte)
  obtain b k g1 where 1: "NEEDBITS S w 8 B g = Return (b, k) g1" "take_bit 8 b = take_bit 8 (ucast c)"
    "dec s0 c0 H w (DUMPBITS 8 (b, k)) g1 (bytes_bits cs @ xs)" "hm g1 = hm g"
    by (rule dec_needbits [OF io D]) simp
  have "ucast b = c"
  proof (rule bit_word_eqI)
    fix i assume "i < LENGTH(8)"
    then show "bit (ucast b :: 8 word) i = bit c i" using arg_cong [OF 1(2), of "\<lambda>x. bit x i"] by (simp add: bit_simps)
  qed
  then obtain w1 g2 where 2: "put_slide S (ucast b) w g1 = Return w1 g2" "dec s0 c0 (H @ [c]) w1 (DUMPBITS 8 (b, k)) g2 (bytes_bits cs @ xs)" "hm g2 = hm g1"
    by (metis dec_put [OF io 1(3)])
  show ?case using Cons.IH [OF 2(2)] 1(1,4) 2(1,3) by auto
qed (auto simp: bytes_bits_def)

lemma length_bytes_bits [simp]: "length (bytes_bits xs) = 8 * length xs"
  by (induction xs) (simp_all add: bytes_bits_def)

lemma inflate_stored_ok:
  assumes io: "io_ok S" and len: "length cs < 2 ^ 16" and pad: "length ps < 8" "length xs mod 8 = 0"
    and D: "block_done s0 c0 H g (ps @ bits_of 16 (of_nat (length cs) :: u32) @ bits_of 16 (NOT (of_nat (length cs)) :: u32) @ bytes_bits cs @ xs)"
  obtains h where "inflate_stored S g = Return 0 h" "block_done s0 c0 (H @ cs) h xs" "hm h = hm g"
proof -
  let ?n = "of_nat (length cs) :: u32" let ?ys = "bits_of 16 ?n @ bits_of 16 (NOT ?n) @ bytes_bits cs @ xs"
  have d: "dec s0 c0 H (outcnt g) (bb g, bk g) g (ps @ ?ys)" and wf: "heap_wf g" using D by (simp_all add: block_done_def)
  have u: "bits_of (bk g) (bb g) @ bytes_bits (instream g) = ps @ ?ys" and r: "ready (bb g, bk g) g"
    using d by (simp_all add: dec_def ubits_def)
  have "8 dvd length ?ys" using pad(2) by (simp add: mod_eq_0_iff_dvd)
  then obtain N where N: "length ?ys = 8 * N" by blast
  have "bk g + 8 * length (instream g) = length ps + length ?ys"
    using arg_cong [OF u, of length] by (simp only: length_append length_bits_of length_bytes_bits)
  then have "(bk g + 8 * length (instream g)) mod 8 = (length ps + 8 * N) mod 8" unfolding N by simp
  then have p: "bk g mod 8 = length ps" using pad(1) by simp
  then have le: "length ps \<le> bk g" by (metis mod_less_eq_dividend)
  have "ps = bits_of (length ps) (bb g)" using arg_cong [OF u, of "take (length ps)"] le by (simp add: take_bits_of)
  then have u2: "ubits (bb g, bk g) g = bits_of (length ps) (bb g) @ ?ys" using u by (simp add: ubits_def)
  note dump = DUMPBITS_ok [OF r le u2]
  have d1: "dec s0 c0 H (outcnt g) (DUMPBITS (bk g mod 8) (bb g, bk g)) g ?ys" using d dump(1,2) p by (auto simp: dec_def DUMPBITS_def)
  obtain b1 k1 g1 where 1: "NEEDBITS S (outcnt g) 16 (DUMPBITS (bk g mod 8) (bb g, bk g)) g = Return (b1, k1) g1" "take_bit 16 b1 = take_bit 16 ?n"
    "dec s0 c0 H (outcnt g) (DUMPBITS 16 (b1, k1)) g1 (bits_of 16 (NOT ?n) @ bytes_bits cs @ xs)" "hm g1 = hm g"
    by (rule dec_needbits [OF io d1]) simp
  obtain b2 k2 g2 where 2: "NEEDBITS S (outcnt g) 16 (DUMPBITS 16 (b1, k1)) g1 = Return (b2, k2) g2" "take_bit 16 b2 = take_bit 16 (NOT ?n)"
    "dec s0 c0 H (outcnt g) (DUMPBITS 16 (b2, k2)) g2 (bytes_bits cs @ xs)" "hm g2 = hm g1"
    by (rule dec_needbits [OF io 1(3)]) simp
  have n: "low_bits 16 b1 = length cs"
    using 1(2) len by (simp add: low_bits_take unsigned_take_bit_eq unsigned_of_nat take_bit_nat_eq_self)
  have c: "of_nat (length cs) = NOT b2 AND (0xffff :: u32)"
  proof -
    have "take_bit 16 (NOT b2) = take_bit 16 (NOT (take_bit 16 b2))" by (rule bit_word_eqI) (auto simp: bit_simps)
    also have "\<dots> = take_bit 16 ?n" unfolding 2(2) by (rule bit_word_eqI) (auto simp: bit_simps)
    also have "\<dots> = ?n" using len by (simp add: take_bit_of_nat take_bit_nat_eq_self)
    finally show ?thesis by (simp add: take_bit_eq_mask mask_eq_exp_minus_1)
  qed
  obtain w3 b3 k3 g3 where 3: "stored_bytes S (length cs) (outcnt g) (DUMPBITS 16 (b2, k2)) g2 = Return (w3, b3, k3) g3"
    "dec s0 c0 (H @ cs) w3 (b3, k3) g3 xs" "hm g3 = hm g2" using stored_bytes_ok [OF io 2(3)] by auto
  have "inflate_stored S g = Return 0 (g3\<lparr>outcnt := w3, bb := b3, bk := k3\<rparr>)"
    unfolding inflate_stored_def Let_def 1(1) out_bind.simps prod.case n 2(1) c [symmetric] 3(1) by simp
  moreover have "block_done s0 c0 (H @ cs) (g3\<lparr>outcnt := w3, bb := b3, bk := k3\<rparr>) xs"
    using dec_globals(2) [OF 3(2)] wf 1(4) 2(4) 3(3) by (simp add: block_done_def heap_wf_def)
  ultimately show ?thesis using that 1(4) 2(4) 3(3) by simp
qed

end
