(* ===== verification/SFI_Dynamic.thy ===== *)
theory SFI_Dynamic
  imports SFI_Codes
begin

text \<open>
  Blocks with their own codes: the lengths of the codes are themselves coded, with runs, by a third
  code whose lengths come first. Then all kinds of blocks together, and the decoder's main loop.
\<close>

unbundle bit_operations_syntax

lemma extra_value:
  assumes io: "io_ok S" and D: "dec s0 c0 H w B g (bits_of n (of_nat v :: u32) @ xs)" and v: "v < 2 ^ n" "n \<le> 13"
  shows "\<exists>B' h. extra_bits S wp n B g = Return (v, B') h \<and> dec s0 c0 H w B' h xs \<and> hm h = hm g \<and>
    (outcnt h = outcnt g \<or> outcnt h = wp)"
proof -
  have "v < 2 ^ 13" using v power_increasing [of n 13 "2 :: nat"] by simp
  then have u: "unat (take_bit n (of_nat v :: u32)) = v"
    using v by (simp add: unsigned_take_bit_eq unsigned_of_nat take_bit_nat_eq_self)
  have n: "n \<le> 16" using v(2) by simp
  obtain B' h where "extra_bits S wp n B g = Return (unat (take_bit n (of_nat v :: u32)), B') h" "dec s0 c0 H w B' h xs"
    "hm h = hm g" "outcnt h = outcnt g \<or> outcnt h = wp"
    by (rule extra_bits_ok [OF io D n])
  then show ?thesis unfolding u by blast
qed

section \<open>The lengths of the third code\<close>

definition set_lengths :: "nat list \<Rightarrow> nat list \<Rightarrow> nat list \<Rightarrow> nat list" where
  "set_lengths cb os ll = fold (\<lambda>o' ll. ll[o' := cb ! o']) os ll"

lemma length_set_lengths [simp]: "length (set_lengths cb os ll) = length ll"
  unfolding set_lengths_def by (induction os arbitrary: ll) simp_all

lemma nth_set_lengths: "i < length ll \<Longrightarrow> set_lengths cb os ll ! i = (if i \<in> set os then cb ! i else ll ! i)"
  unfolding set_lengths_def by (induction os arbitrary: ll) (auto simp: nth_list_update)

lemma bl_lengths_ok:
  assumes io: "io_ok S" and cb: "\<And>i. i \<in> set os \<Longrightarrow> cb ! i < 8"
  shows "dec s0 c0 H w B g (concat (map (\<lambda>o'. bits_of 3 (of_nat (cb ! o') :: u32)) os) @ xs) \<Longrightarrow>
    \<exists>B' h. bl_lengths S wp os ll B g = Return (set_lengths cb os ll, B') h \<and> dec s0 c0 H w B' h xs \<and> hm h = hm g"
  using cb
proof (induction os arbitrary: ll B g)
  case (Cons o' os)
  have D: "dec s0 c0 H w B g (bits_of 3 (of_nat (cb ! o') :: u32) @ (concat (map (\<lambda>o'. bits_of 3 (of_nat (cb ! o') :: u32)) os) @ xs))"
    using Cons.prems(1) by simp
  obtain B1 g1 where 1: "extra_bits S wp 3 B g = Return (cb ! o', B1) g1" "hm g1 = hm g"
    "dec s0 c0 H w B1 g1 (concat (map (\<lambda>o'. bits_of 3 (of_nat (cb ! o') :: u32)) os) @ xs)"
    using extra_value [OF io D, of wp] Cons.prems(2) [of o'] by auto
  show ?case using Cons.IH [OF 1(3), of "ll[o' := cb ! o']"] Cons.prems(2) 1(1,2) by (auto simp: set_lengths_def)
qed (simp add: set_lengths_def)

section \<open>Runs of lengths\<close>

datatype clen = CLen nat | CRep nat | CZero nat | CZeros nat

fun clen_symbol :: "clen \<Rightarrow> nat" where
  "clen_symbol (CLen n) = n" | "clen_symbol (CRep x) = 16" | "clen_symbol (CZero x) = 17" | "clen_symbol (CZeros x) = 18"

fun clen_extra :: "clen \<Rightarrow> bool list" where
  "clen_extra (CLen n) = []"
| "clen_extra (CRep x) = bits_of 2 (of_nat x :: u32)"
| "clen_extra (CZero x) = bits_of 3 (of_nat x :: u32)"
| "clen_extra (CZeros x) = bits_of 7 (of_nat x :: u32)"

fun clen_ok :: "nat list \<Rightarrow> clen \<Rightarrow> bool" where
  "clen_ok cb (CLen n) \<longleftrightarrow> n < 16 \<and> cb ! n \<noteq> 0"
| "clen_ok cb (CRep x) \<longleftrightarrow> x < 4 \<and> cb ! 16 \<noteq> 0"
| "clen_ok cb (CZero x) \<longleftrightarrow> x < 8 \<and> cb ! 17 \<noteq> 0"
| "clen_ok cb (CZeros x) \<longleftrightarrow> x < 128 \<and> cb ! 18 \<noteq> 0"

text \<open>What an item says after the length \<open>l\<close>, and the last length then.\<close>

fun clen_run :: "nat \<Rightarrow> clen \<Rightarrow> nat list" where
  "clen_run l (CLen n) = [n]"
| "clen_run l (CRep x) = replicate (3 + x) l"
| "clen_run l (CZero x) = replicate (3 + x) 0"
| "clen_run l (CZeros x) = replicate (11 + x) 0"

fun clen_last :: "nat \<Rightarrow> clen \<Rightarrow> nat" where
  "clen_last l (CLen n) = n" | "clen_last l (CRep x) = l" | "clen_last l (CZero x) = 0" | "clen_last l (CZeros x) = 0"

fun clens_expand :: "nat \<Rightarrow> clen list \<Rightarrow> nat list" where
  "clens_expand l [] = []"
| "clens_expand l (c # cs) = clen_run l c @ clens_expand (clen_last l c) cs"

definition clen_bits :: "nat list \<Rightarrow> clen \<Rightarrow> bool list" where
  "clen_bits cb c = canon_bits cb (clen_symbol c) @ clen_extra c"

lemma put_run_eq:
  "i + j \<le> length ll \<Longrightarrow> put_run i j l ll = take i ll @ replicate j l @ drop (i + j) ll"
proof (induction j)
  case (Suc j)
  then have e: "put_run i j l ll = take i ll @ replicate j l @ drop (i + j) ll" by simp
  have "put_run i (Suc j) l ll = (put_run i j l ll)[i + j := l]" by (simp add: put_run_def)
  also have "\<dots> = take i ll @ replicate j l @ (drop (i + j) ll)[0 := l]"
    unfolding e using Suc.prems by (simp add: list_update_append)
  also have "(drop (i + j) ll)[0 := l] = l # drop (i + Suc j) ll"
    using Suc.prems by (simp add: Cons_nth_drop_Suc [symmetric])
  finally show ?case by (simp add: replicate_app_Cons_same)
qed (simp add: put_run_def)

text \<open>One step of the loop: the symbol comes from the table itself.\<close>

lemma code_lengths_step:
  assumes io: "io_ok S" and T: "tree cb 19 [] [] (Some q) bl z (tabs (hm g))" and bl: "\<forall>l \<in> set cb. l \<le> bl" "bl \<le> 9"
    and len: "length cb = 19" and c: "clen_ok cb c" and n: "i + length (clen_run l c) \<le> n" "n \<le> length ll"
    and D: "dec s0 c0 H w B g (clen_bits cb c @ xs)" and xs: "32 \<le> length xs"
  shows "\<exists>B' h. code_lengths S wp q bl n i l ll B g =
      code_lengths S wp q bl n (i + length (clen_run l c)) (clen_last l c)
        (take i ll @ clen_run l c @ drop (i + length (clen_run l c)) ll) B' h \<and> dec s0 c0 H w B' h xs \<and> hm h = hm g \<and>
      (outcnt g = wp \<longrightarrow> outcnt h = wp)"
proof -
  let ?s = "clen_symbol c"
  have s: "?s < length cb" "cb ! ?s \<noteq> 0" "?s < 19" using c len by (cases c; simp)+
  have i: "i < n" using n(1) by (cases c) simp_all
  have B: "ready B g" "ubits B g = canon_bits cb ?s @ (clen_extra c @ xs)" using D by (simp_all add: dec_def clen_bits_def)
  obtain b k g1 r where 1: "NEEDBITS S wp bl B g = Return (b, k) g1" "r = tabs (hm g1) q (low_bits bl b)" "symbol_entry 19 [] [] ?s r"
    "ready (DUMPBITS (h_b r) (b, k)) g1" "ubits (DUMPBITS (h_b r) (b, k)) g1 = clen_extra c @ xs" "same_but_in g g1"
    "k - h_b r \<le> 15"
    using decode_direct [OF io T bl(1) s(1,2) B, where w = wp] xs bl(2) D by (auto simp: dec_def)
  let ?B = "DUMPBITS (h_b r) (b, k)"
  have d1: "dec s0 c0 H w ?B g1 (clen_extra c @ xs)" by (rule dec_read [OF D 1(6,4,5)]) (use 1(7) in \<open>simp add: DUMPBITS_def\<close>)
  have m1: "hm g1 = hm g" "outcnt g = wp \<longrightarrow> outcnt g1 = wp" using same_but_inD(9) [OF 1(6)] NEEDBITS_outcnt [OF 1(1)] by auto
  have j: "huft_n r = ?s" using 1(3) s(3) by (intro unat_symbol) (simp_all add: symbol_entry_def)
  note u = code_lengths.simps [of S wp q bl n i l ll B g]
  show ?thesis
  proof (cases c)
    case (CLen v)
    have "code_lengths S wp q bl n i l ll B g = code_lengths S wp q bl n (i + 1) v (ll[i := v]) ?B g1"
      using i 1(1) j CLen c by (simp add: u 1(2) [symmetric] Let_def)
    moreover have "ll[i := v] = take i ll @ [v] @ drop (i + 1) ll" using i n(2) by (simp add: upd_conv_take_nth_drop)
    ultimately show ?thesis using d1 m1 CLen by (intro exI [of _ ?B] exI [of _ g1]) simp
  next
    case (CRep x)
    obtain B2 g2 where 2: "extra_bits S wp 2 ?B g1 = Return (x, B2) g2" "dec s0 c0 H w B2 g2 xs" "hm g2 = hm g1"
      "outcnt g2 = outcnt g1 \<or> outcnt g2 = wp"
      using extra_value [OF io, of s0 c0 H w ?B g1 2 x xs wp] d1 CRep c by auto
    have "code_lengths S wp q bl n i l ll B g = code_lengths S wp q bl n (i + (3 + x)) l (put_run i (3 + x) l ll) B2 g2"
      using i 1(1) j CRep n(1) 2(1) by (simp add: u 1(2) [symmetric] Let_def)
    then show ?thesis using 2(2-4) m1 CRep n put_run_eq [of i "3 + x" ll l] by (intro exI [of _ B2] exI [of _ g2]) auto
  next
    case (CZero x)
    obtain B2 g2 where 2: "extra_bits S wp 3 ?B g1 = Return (x, B2) g2" "dec s0 c0 H w B2 g2 xs" "hm g2 = hm g1"
      "outcnt g2 = outcnt g1 \<or> outcnt g2 = wp"
      using extra_value [OF io, of s0 c0 H w ?B g1 3 x xs wp] d1 CZero c by auto
    have "code_lengths S wp q bl n i l ll B g = code_lengths S wp q bl n (i + (3 + x)) 0 (put_run i (3 + x) 0 ll) B2 g2"
      using i 1(1) j CZero n(1) 2(1) by (simp add: u 1(2) [symmetric] Let_def)
    then show ?thesis using 2(2-4) m1 CZero n put_run_eq [of i "3 + x" ll 0] by (intro exI [of _ B2] exI [of _ g2]) auto
  next
    case (CZeros x)
    obtain B2 g2 where 2: "extra_bits S wp 7 ?B g1 = Return (x, B2) g2" "dec s0 c0 H w B2 g2 xs" "hm g2 = hm g1"
      "outcnt g2 = outcnt g1 \<or> outcnt g2 = wp"
      using extra_value [OF io, of s0 c0 H w ?B g1 7 x xs wp] d1 CZeros c by auto
    have "code_lengths S wp q bl n i l ll B g = code_lengths S wp q bl n (i + (11 + x)) 0 (put_run i (11 + x) 0 ll) B2 g2"
      using i 1(1) j CZeros n(1) 2(1) by (simp add: u 1(2) [symmetric] Let_def)
    then show ?thesis using 2(2-4) m1 CZeros n put_run_eq [of i "11 + x" ll 0] by (intro exI [of _ B2] exI [of _ g2]) auto
  qed
qed

lemma code_lengths_ok:
  assumes io: "io_ok S" and bl: "\<forall>l \<in> set cb. l \<le> bl" "bl \<le> 9" and len: "length cb = 19" and xs: "32 \<le> length xs"
  shows "tree cb 19 [] [] (Some q) bl z (tabs (hm g)) \<Longrightarrow> \<forall>c \<in> set cs. clen_ok cb c \<Longrightarrow> i + length (clens_expand l cs) = n \<Longrightarrow>
    n \<le> length ll \<Longrightarrow> dec s0 c0 H w B g (concat (map (clen_bits cb) cs) @ xs) \<Longrightarrow>
    \<exists>B' h. code_lengths S wp q bl n i l ll B g = Return (Some (take i ll @ clens_expand l cs @ drop n ll, B')) h \<and>
      dec s0 c0 H w B' h xs \<and> hm h = hm g \<and> (outcnt g = wp \<longrightarrow> outcnt h = wp)"
proof (induction cs arbitrary: i l ll B g)
  case Nil
  then show ?case by (auto simp: code_lengths.simps)
next
  case (Cons c cs)
  let ?r = "clen_run l c" let ?ll = "take i ll @ ?r @ drop (i + length ?r) ll"
  have p: "clen_ok cb c" "\<forall>c \<in> set cs. clen_ok cb c" "i + length ?r \<le> n"
    "i + length ?r + length (clens_expand (clen_last l c) cs) = n" using Cons.prems(2,3) by simp_all
  have D: "dec s0 c0 H w B g (clen_bits cb c @ (concat (map (clen_bits cb) cs) @ xs))" using Cons.prems(5) by simp
  obtain B1 g1 where 1: "code_lengths S wp q bl n i l ll B g = code_lengths S wp q bl n (i + length ?r) (clen_last l c) ?ll B1 g1"
    "dec s0 c0 H w B1 g1 (concat (map (clen_bits cb) cs) @ xs)" "hm g1 = hm g" "outcnt g = wp \<longrightarrow> outcnt g1 = wp"
    using code_lengths_step [OF io Cons.prems(1) bl len p(1,3) Cons.prems(4) D _, of wp] xs by auto
  have l: "n \<le> length ?ll" "i \<le> length ll" using p(3) Cons.prems(4) by simp_all
  have "take (i + length ?r) ?ll = take i ll @ ?r" "drop n ?ll = drop n ll" using p(3) l by simp_all
  note ll = this
  have "tree cb 19 [] [] (Some q) bl z (tabs (hm g1))" using Cons.prems(1) 1(3) by simp
  from Cons.IH [OF this p(2,4) l(1) 1(2)] obtain B2 g2 where
    "code_lengths S wp q bl n (i + length ?r) (clen_last l c) ?ll B1 g1 =
       Return (Some (take (i + length ?r) ?ll @ clens_expand (clen_last l c) cs @ drop n ?ll, B2)) g2"
    "dec s0 c0 H w B2 g2 xs" "hm g2 = hm g1" "outcnt g1 = wp \<longrightarrow> outcnt g2 = wp" by blast
  then show ?case using 1(1,3,4) unfolding ll by (intro exI [of _ B2] exI [of _ g2]) simp
qed

section \<open>Dynamic blocks\<close>

text \<open>A complete set of lengths, or a single code.\<close>

definition set_ok :: "nat list \<Rightarrow> bool" where
  "set_ok b \<longleftrightarrow> lengths_ok b \<and> (kraft b = 2 ^ 16 \<or> (\<forall>l \<in> set b. l \<le> 1))"

text \<open>The header: the lengths of the third code, as many of them as are sent, and the runs.\<close>

record header =
  h_nb :: nat
  h_cb :: "nat list"
  h_runs :: "clen list"
  h_lb :: "nat list"
  h_db :: "nat list"

definition header_ok :: "header \<Rightarrow> bool" where
  "header_ok d \<longleftrightarrow> 4 \<le> h_nb d \<and> h_nb d \<le> 19 \<and> length (h_cb d) = 19 \<and> (\<forall>i < 19. h_cb d ! i < 8) \<and>
     (\<forall>i \<in> set (drop (h_nb d) border). h_cb d ! i = 0) \<and> set_ok (h_cb d) \<and>
     (\<forall>c \<in> set (h_runs d). clen_ok (h_cb d) c) \<and> clens_expand 0 (h_runs d) = h_lb d @ h_db d \<and>
     257 \<le> length (h_lb d) \<and> length (h_lb d) \<le> 286 \<and> 1 \<le> length (h_db d) \<and> length (h_db d) \<le> 30 \<and>
     set_ok (h_lb d) \<and> set_ok (h_db d)"

definition header_bits :: "header \<Rightarrow> bool list" where
  "header_bits d = bits_of 5 (of_nat (length (h_lb d) - 257) :: u32) @ bits_of 5 (of_nat (length (h_db d) - 1) :: u32) @
     bits_of 4 (of_nat (h_nb d - 4) :: u32) @ concat (map (\<lambda>o'. bits_of 3 (of_nat (h_cb d ! o') :: u32)) (take (h_nb d) border)) @
     concat (map (clen_bits (h_cb d)) (h_runs d))"

lemma set_border: "set border = {..<19}" "length border = 19"
proof -
  have "distinct border" "set border \<subseteq> {..<19}" "length border = 19" by (simp_all add: border_def)
  then show "set border = {..<19}" by (intro card_subset_eq) (simp_all add: distinct_card)
qed (simp add: border_def)

lemma set_ok_near: "set_ok b \<Longrightarrow> near_ok b 9" "set_ok b \<Longrightarrow> length b \<le> 30 \<Longrightarrow> near_ok b 6"
  by (auto simp: set_ok_def near_ok_def lengths_ok_def)

lemma dynamic_codes_ok:
  assumes io: "io_ok S" "\<forall>i. hmalloc S i" and xs: "32 \<le> length xs" and b: "set_ok lb" "set_ok db" "length db \<le> 30"
    and ll: "take nl ll = lb" "take nd (drop nl ll) = db"
    and ok: "tokens_ok lb db (length H) ts" and D: "block_done s0 c0 H g (tokens_bits lb db ts @ xs)"
  obtains h where "dynamic_codes S ll nl nd g = Some (Return 0 h)" "block_done s0 c0 (expand ts H) h xs" "live (hm h) = live (hm g)"
proof -
  have wf: "heap_wf g" using D by (simp add: block_done_def)
  have o: "lengths_ok lb" "near_ok lb lbits" "lengths_ok db" "near_ok db dbits" "kraft lb = 2 ^ 16 \<or> (\<forall>l \<in> set lb. l \<le> 1)"
    "kraft db = 2 ^ 16 \<or> (\<forall>l \<in> set db. l \<le> 1)"
    using b set_ok_near by (auto simp: set_ok_def lbits_def dbits_def)
  obtain bl h1 where 1: "huft_build S lb 257 cplens cplext lbits g = Return (0, Some (nalloc (hm g)), bl) h1"
    "tables_step (nalloc (hm g)) (live (hm g)) g h1" "nalloc (hm g) < nalloc (hm h1)"
    "tree lb 257 cplens cplext (Some (nalloc (hm g))) bl (nalloc (hm h1)) (tabs (hm h1))" "root_ok lbits lb bl"
    by (rule huft_build_ok [OF io(2) o(1,2), of 257 cplens cplext g]) (use o(5) in auto)
  obtain bd h2 where 2: "huft_build S db 0 cpdist cpdext dbits h1 = Return (0, Some (nalloc (hm h1)), bd) h2"
    "tables_step (nalloc (hm h1)) (live (hm h1)) h1 h2" "nalloc (hm h1) < nalloc (hm h2)"
    "tree db 0 cpdist cpdext (Some (nalloc (hm h1))) bd (nalloc (hm h2)) (tabs (hm h2))" "root_ok dbits db bd"
    by (rule huft_build_ok [OF io(2) o(3,4), of 0 cpdist cpdext h1]) (use o(6) in auto)
  have "tree lb 257 cplens cplext (Some (nalloc (hm g))) bl (nalloc (hm h1)) (tabs (hm h2))"
    by (rule tree_mono [OF 1(4)]) (use 2(2) in \<open>simp add: tables_step_def\<close>)
  then have T: "trees lb db (Some (nalloc (hm g))) (Some (nalloc (hm h1))) bl bd (tabs (hm h2))" 
    using 2(4) root_ok_mono [OF 1(5), of 9] root_ok_mono [OF 2(5), of 9] by (auto simp: trees_def lbits_def dbits_def)
  note d2 = block_heap [OF D 1(2) 2(2)]
  obtain h3 where 3: "inflate_codes S (Some (nalloc (hm g))) (Some (nalloc (hm h1))) bl bd h2 = Some (Return 0 h3)"
    "dec s0 c0 (expand ts H) (outcnt h3) (bb h3, bk h3) h3 xs" "hm h3 = hm h2" by (rule inflate_codes_ok [OF io(1) xs T ok d2])
  obtain h4 M where f: "huft_free (Some (nalloc (hm g))) h3 = Return () h4" "huft_free (Some (nalloc (hm h1))) h4 = Return () (h3\<lparr>hm := M\<rparr>)"
    "live M = live (hm g)" "nalloc M = nalloc (hm h2)"
    using free_both [OF wf 1(2,3) 2(2,3) 3(3)] by blast
  have "dynamic_codes S ll nl nd g = Some (Return 0 (h3\<lparr>hm := M\<rparr>))"
    unfolding dynamic_codes_def ll 1(1) opt_bind_simps prod.case 2(1) by (simp only: 3(1) f(1,2) opt_bind_simps out_bind.simps) simp
  moreover have "block_done s0 c0 (expand ts H) (h3\<lparr>hm := M\<rparr>) xs"
    using dec_globals(1) [OF 3(2), of M] wf f(3,4) 1(3) 2(3) by (fastforce simp: block_done_def heap_wf_def)
  ultimately show ?thesis using that f(3) by simp
qed

lemma third_lengths:
  assumes "length cb = 19" "\<forall>i \<in> set (drop nb border). cb ! i = 0"
  defines "ll \<equiv> fold (\<lambda>o' ll. ll[o' := 0]) (drop nb border) (set_lengths cb (take nb border) (replicate 316 0))"
  shows "take 19 ll = cb" "length ll = 316"
proof -
  have f: "fold (\<lambda>o' ll. ll[o' := 0]) os l = set_lengths cb os l" if "\<forall>i \<in> set os. cb ! i = 0" for os and l :: "nat list"
    using that unfolding set_lengths_def by (induction os arbitrary: l) simp_all
  show l: "length ll = 316" by (simp add: ll_def f [OF assms(2)])
  show "take 19 ll = cb"
  proof (rule nth_equalityI)
    fix i assume "i < length (take 19 ll)"
    then have i: "i < 19" using l by simp
    then have "i \<in> set (take nb border) \<union> set (drop nb border)" using set_border(1) by (metis append_take_drop_id set_append lessThan_iff)
    then show "take 19 ll ! i = cb ! i" using i by (auto simp: ll_def f [OF assms(2)] nth_set_lengths)
  qed (use assms(1) l in simp)
qed

lemma extra_bits_outcnt: "extra_bits S w n B g = Return r h \<Longrightarrow> outcnt g = w \<Longrightarrow> outcnt h = w"
  using NEEDBITS_outcnt by (fastforce simp: extra_bits_def split: prod.splits)

lemma bl_lengths_outcnt: "bl_lengths S w os ll B g = Return r h \<Longrightarrow> outcnt g = w \<Longrightarrow> outcnt h = w"
  by (induction S w os ll B g rule: bl_lengths.induct) (auto split: prod.splits dest!: extra_bits_outcnt)

lemma free_one:
  assumes wf: "heap_wf g" and 1: "tables_step (nalloc (hm g)) (live (hm g)) g h1" "nalloc (hm g) < nalloc (hm h1)" and h: "hm h = hm h1"
  shows "\<exists>M. huft_free (Some (nalloc (hm g))) h = Return () (h\<lparr>hm := M\<rparr>) \<and> live M = live (hm g) \<and> nalloc M = nalloc (hm h1)"
proof -
  let ?a = "nalloc (hm g)" and ?b = "nalloc (hm h1)"
  note s1 = build_and_free [OF 1 wf]
  have "distinct (live (hm h))" "tables_at ?a ?b h" using s1(2,3) h by (simp_all add: heap_wf_def tables_at_def)
  from huft_free_ok [OF this] have f: "huft_free (Some ?a) h =
    Return () (h\<lparr>hm := (hm h)\<lparr>live := filter (\<lambda>q. q \<notin> {?a..<?b}) (live (hm h))\<rparr>\<rparr>)" .
  have "filter (\<lambda>q. q \<notin> {?a..<?b}) (live (hm g)) = live (hm g)" by (rule filter_True) (use wf in \<open>fastforce simp: heap_wf_def\<close>)
  moreover have "filter (\<lambda>q. q \<notin> {?a..<?b}) (rev [?a..<?b]) = []" by (rule filter_False) auto
  ultimately have "filter (\<lambda>q. q \<notin> {?a..<?b}) (live (hm h)) = live (hm g)" unfolding h s1(4) filter_append by simp
  then show ?thesis using f h by auto
qed

lemma inflate_dynamic_ok:
  assumes io: "io_ok S" "\<forall>i. hmalloc S i" and xs: "32 \<le> length xs" and d: "header_ok d"
    and ok: "tokens_ok (h_lb d) (h_db d) (length H) ts"
    and D: "block_done s0 c0 H g (header_bits d @ tokens_bits (h_lb d) (h_db d) ts @ xs)"
  obtains h where "inflate_dynamic S g = Some (Return 0 h)" "block_done s0 c0 (expand ts H) h xs" "live (hm h) = live (hm g)"
proof -
  let ?lb = "h_lb d" and ?db = "h_db d" and ?cb = "h_cb d" and ?nb = "h_nb d" let ?w = "outcnt g"
  let ?nl = "length ?lb" and ?nd = "length ?db" and ?cs = "concat (map (clen_bits ?cb) (h_runs d))"
  let ?ts = "tokens_bits ?lb ?db ts @ xs" and ?os = "concat (map (\<lambda>o'. bits_of 3 (of_nat (?cb ! o') :: u32)) (take ?nb border))"
  have h: "4 \<le> ?nb" "?nb \<le> 19" "length ?cb = 19" "\<forall>i < 19. ?cb ! i < 8" "\<forall>i \<in> set (drop ?nb border). ?cb ! i = 0" "set_ok ?cb"
    "\<forall>c \<in> set (h_runs d). clen_ok ?cb c" "clens_expand 0 (h_runs d) = ?lb @ ?db" "257 \<le> ?nl" "?nl \<le> 286" "1 \<le> ?nd" "?nd \<le> 30"
    "set_ok ?lb" "set_ok ?db" using d by (simp_all add: header_ok_def)
  have wf: "heap_wf g" using D by (simp add: block_done_def)
  have D0: "dec s0 c0 H ?w (bb g, bk g) g (bits_of 5 (of_nat (?nl - 257) :: u32) @ bits_of 5 (of_nat (?nd - 1) :: u32) @
      bits_of 4 (of_nat (?nb - 4) :: u32) @ ?os @ ?cs @ ?ts)" using D by (simp add: block_done_def header_bits_def)
  have lt: "?nl - 257 < 2 ^ 5" "?nd - 1 < 2 ^ 5" "?nb - 4 < 2 ^ 4" using h by simp_all
  obtain B1 g1 where 1: "extra_bits S ?w 5 (bb g, bk g) g = Return (?nl - 257, B1) g1" "hm g1 = hm g"
    "dec s0 c0 H ?w B1 g1 (bits_of 5 (of_nat (?nd - 1) :: u32) @ bits_of 4 (of_nat (?nb - 4) :: u32) @ ?os @ ?cs @ ?ts)"
    using extra_value [OF io(1) D0 lt(1), of ?w] by auto
  obtain B2 g2 where 2: "extra_bits S ?w 5 B1 g1 = Return (?nd - 1, B2) g2" "hm g2 = hm g1"
    "dec s0 c0 H ?w B2 g2 (bits_of 4 (of_nat (?nb - 4) :: u32) @ ?os @ ?cs @ ?ts)"
    using extra_value [OF io(1) 1(3) lt(2), of ?w] by auto
  obtain B3 g3 where 3: "extra_bits S ?w 4 B2 g2 = Return (?nb - 4, B3) g3" "hm g3 = hm g2" "dec s0 c0 H ?w B3 g3 (?os @ ?cs @ ?ts)"
    using extra_value [OF io(1) 2(3) lt(3), of ?w] by auto
  have c8: "?cb ! i < 8" if "i \<in> set (take ?nb border)" for i using in_set_takeD [OF that] h(4) set_border(1) by simp
  let ?l1 = "set_lengths ?cb (take ?nb border) (replicate 316 0)"
  obtain B4 g4 where 4: "bl_lengths S ?w (take ?nb border) (replicate 316 0) B3 g3 = Return (?l1, B4) g4" "hm g4 = hm g3"
    "dec s0 c0 H ?w B4 g4 (?cs @ ?ts)"
    using bl_lengths_ok [OF io(1) _ 3(3), of ?w "replicate 316 0"] c8 by blast
  define ll where "ll = fold (\<lambda>o' ll. ll[o' := 0]) (drop ?nb border) ?l1"
  have ll: "take 19 ll = ?cb" "length ll = 316" unfolding ll_def by (rule third_lengths [OF h(3,5)])+
  have c7: "\<forall>l \<in> set ?cb. l \<le> 7" using h(3,4) by (fastforce simp: in_set_conv_nth)
  have cb: "lengths_ok ?cb" "near_ok ?cb 7" "kraft ?cb = 2 ^ 16 \<or> (\<forall>l \<in> set ?cb. l \<le> 1)"
    using h(6) c7 by (auto simp: set_ok_def near_ok_def)
  obtain bl g5 where 5: "huft_build S ?cb 19 [] [] 7 g4 = Return (0, Some (nalloc (hm g4)), bl) g5"
    "tables_step (nalloc (hm g4)) (live (hm g4)) g4 g5" "nalloc (hm g4) < nalloc (hm g5)"
    "tree ?cb 19 [] [] (Some (nalloc (hm g4))) bl (nalloc (hm g5)) (tabs (hm g5))" "\<forall>l \<in> set ?cb. l \<le> bl" "root_ok 7 ?cb bl"
    by (rule huft_build_ok [OF io(2) cb(1,2), of 19 "[]" "[]" g4]) (use cb(3) c7 in auto)
  have bl9: "bl \<le> 9"
  proof -
    obtain l where "l \<in> set ?cb" "l \<noteq> 0" using cb(1) by (auto simp: lengths_ok_def)
    then show ?thesis using 5(6) c7 by (fastforce simp: root_ok_def)
  qed
  have D5: "dec s0 c0 H ?w B4 g5 (?cs @ ?ts)"
    using dec_globals(1) [OF 4(3), of "hm g5"] 5(2) by (simp add: tables_step_def)
  have n: "0 + length (clens_expand 0 (h_runs d)) = ?nl + ?nd" "?nl + ?nd \<le> length ll" using h ll(2) by simp_all
  obtain B6 g6 where 6: "code_lengths S ?w (nalloc (hm g4)) bl (?nl + ?nd) 0 0 ll B4 g5 =
      Return (Some (take 0 ll @ clens_expand 0 (h_runs d) @ drop (?nl + ?nd) ll, B6)) g6" "dec s0 c0 H ?w B6 g6 ?ts" "hm g6 = hm g5"
    "outcnt g5 = ?w \<longrightarrow> outcnt g6 = ?w"
    using code_lengths_ok [OF io(1) 5(5) bl9 h(3) _ 5(4) h(7) n D5, of ?w] xs by auto
  obtain b k where B6: "B6 = (b, k)" by (cases B6)
  define l2 where "l2 = ?lb @ ?db @ drop (?nl + ?nd) ll"
  have l2: "take ?nl l2 = ?lb" "take ?nd (drop ?nl l2) = ?db" by (simp_all add: l2_def)
  have o6: "outcnt g6 = ?w"
  proof -
    have "outcnt g1 = ?w" by (rule extra_bits_outcnt [OF 1(1) refl])
    then have "outcnt g2 = ?w" by (rule extra_bits_outcnt [OF 2(1)])
    then have "outcnt g3 = ?w" by (rule extra_bits_outcnt [OF 3(1)])
    then have "outcnt g4 = ?w" by (rule bl_lengths_outcnt [OF 4(1)])
    moreover have "g5 = g4\<lparr>hm := hm g5\<rparr>" using 5(2) by (simp add: tables_step_def)
    from arg_cong [OF this, of outcnt] have "outcnt g5 = outcnt g4" by simp
    ultimately show ?thesis using 6(4) by simp
  qed
  have wf4: "heap_wf g4" "live (hm g4) = live (hm g)" using wf 1(2) 2(2) 3(2) 4(2) by (simp_all add: heap_wf_def)
  obtain M where 7: "huft_free (Some (nalloc (hm g4))) g6 = Return () (g6\<lparr>hm := M\<rparr>)" "live M = live (hm g4)" "nalloc M = nalloc (hm g5)"
    using free_one [OF wf4(1) 5(2,3) 6(3)] by blast
  let ?g = "g6\<lparr>hm := M, bb := b, bk := k\<rparr>"
  have "block_done s0 c0 H ?g ?ts"
    using dec_globals(3) [OF dec_globals(1) [OF 6(2) [unfolded B6], of M]] o6 wf4(1) 7(2,3) 5(3)
    by (fastforce simp: block_done_def heap_wf_def)
  from dynamic_codes_ok [OF io xs h(13,14,12) l2 ok this] obtain h' where
    8: "dynamic_codes S l2 ?nl ?nd ?g = Some (Return 0 h')" "block_done s0 c0 (expand ts H) h' xs" "live (hm h') = live (hm ?g)" by blast
  have e: "257 + (?nl - 257) = ?nl" "1 + (?nd - 1) = ?nd" "4 + (?nb - 4) = ?nb" "\<not> (?nl > 286 \<or> ?nd > 30)" using h by simp_all
  have "inflate_dynamic S g = Some (Return 0 h')"
    unfolding inflate_dynamic_def Let_def 1(1) opt_bind_simps prod.case 2(1) 3(1) e if_not_P [OF e(4)] 4(1) ll_def [symmetric] ll(1) 5(1)
      option.case
    by (simp only: 6(1) opt_bind_simps option.case B6 prod.case 7(1) h(8) take_0 append_Nil append_assoc l2_def [symmetric] 8(1) HOL.simp_thms if_False)
  then show ?thesis using that 8(2,3) 7(2) wf4(2) by simp
qed

section \<open>All blocks\<close>

datatype block = Stored "bool list" "byte list" | Fixed "token list" | Dynamic header "token list"

fun block_expand :: "block \<Rightarrow> byte list \<Rightarrow> byte list" where
  "block_expand (Stored ps cs) H = H @ cs"
| "block_expand (Fixed ts) H = expand ts H"
| "block_expand (Dynamic d ts) H = expand ts H"

fun block_type :: "block \<Rightarrow> nat" where
  "block_type (Stored ps cs) = 0" | "block_type (Fixed ts) = 1" | "block_type (Dynamic d ts) = 2"

fun block_body :: "block \<Rightarrow> bool list" where
  "block_body (Stored ps cs) =
     ps @ bits_of 16 (of_nat (length cs) :: u32) @ bits_of 16 (NOT (of_nat (length cs)) :: u32) @ bytes_bits cs"
| "block_body (Fixed ts) = tokens_bits fixed_lit_lengths fixed_dist_lengths ts"
| "block_body (Dynamic d ts) = header_bits d @ tokens_bits (h_lb d) (h_db d) ts"

text \<open>A block is well-formed after \<open>n\<close> bytes of output, and with \<open>m\<close> bits after it: a stored block is
  filled up to a byte boundary.\<close>

fun block_ok :: "nat \<Rightarrow> nat \<Rightarrow> block \<Rightarrow> bool" where
  "block_ok n m (Stored ps cs) \<longleftrightarrow> length cs < 2 ^ 16 \<and> length ps < 8 \<and> m mod 8 = 0"
| "block_ok n m (Fixed ts) \<longleftrightarrow> tokens_ok fixed_lit_lengths fixed_dist_lengths n ts"
| "block_ok n m (Dynamic d ts) \<longleftrightarrow> header_ok d \<and> tokens_ok (h_lb d) (h_db d) n ts"

definition block_bits :: "bool \<Rightarrow> block \<Rightarrow> bool list" where
  "block_bits fin b = bits_of 1 (of_nat (of_bool fin) :: u32) @ bits_of 2 (of_nat (block_type b) :: u32) @ block_body b"

fun blocks_bits :: "block list \<Rightarrow> bool list" where
  "blocks_bits [] = []"
| "blocks_bits (b # bs) = block_bits (bs = []) b @ blocks_bits bs"

fun blocks_expand :: "block list \<Rightarrow> byte list \<Rightarrow> byte list" where
  "blocks_expand [] H = H"
| "blocks_expand (b # bs) H = blocks_expand bs (block_expand b H)"

fun blocks_ok :: "nat \<Rightarrow> nat \<Rightarrow> block list \<Rightarrow> bool" where
  "blocks_ok n m [] \<longleftrightarrow> True"
| "blocks_ok n m (b # bs) \<longleftrightarrow> block_ok n (length (blocks_bits bs) + m) b \<and> blocks_ok (length (block_expand b (replicate n 0))) m bs"

lemma length_block_expand: "length H = length H' \<Longrightarrow> length (block_expand b H) = length (block_expand b H')"
  by (cases b) (simp, (simp only: block_expand.simps, erule length_expand)+)

lemma block_body_ok:
  assumes io: "io_ok S" "\<forall>i. hmalloc S i" and xs: "32 \<le> length xs" and ok: "block_ok (length H) (length xs) b"
    and D: "block_done s0 c0 H g (block_body b @ xs)"
  shows "\<exists>h. (if block_type b = 2 then inflate_dynamic S g else if block_type b = 0 then Some (inflate_stored S g)
      else inflate_fixed S g) = Some (Return 0 h) \<and> block_done s0 c0 (block_expand b H) h xs \<and> live (hm h) = live (hm g)"
proof (cases b)
  case (Stored ps cs)
  have "length cs < 2 ^ 16" "length ps < 8" "length xs mod 8 = 0" using ok Stored by simp_all
  moreover have "block_done s0 c0 H g (ps @ bits_of 16 (of_nat (length cs) :: u32) @ bits_of 16 (NOT (of_nat (length cs)) :: u32) @
      bytes_bits cs @ xs)" using D Stored by simp
  ultimately obtain h where "inflate_stored S g = Return 0 h" "block_done s0 c0 (H @ cs) h xs" "hm h = hm g"
    by (rule inflate_stored_ok [OF io(1)])
  then show ?thesis using Stored by simp
next
  case (Fixed ts)
  obtain h where "inflate_fixed S g = Some (Return 0 h)" "block_done s0 c0 (expand ts H) h xs" "live (hm h) = live (hm g)"
    by (rule inflate_fixed_ok [OF io xs]) (use ok D Fixed in auto)
  then show ?thesis using Fixed by simp
next
  case (Dynamic d ts)
  obtain h where "inflate_dynamic S g = Some (Return 0 h)" "block_done s0 c0 (expand ts H) h xs" "live (hm h) = live (hm g)"
    by (rule inflate_dynamic_ok [OF io xs]) (use ok D Dynamic in auto)
  then show ?thesis using Dynamic by simp
qed

lemma inflate_block_ok:
  assumes io: "io_ok S" "\<forall>i. hmalloc S i" and xs: "32 \<le> length xs" and ok: "block_ok (length H) (length xs) b"
    and D: "block_done s0 c0 H g (block_bits fin b @ xs)"
  shows "\<exists>h. inflate_block S g = Some (Return (0, fin) h) \<and> block_done s0 c0 (block_expand b H) h xs \<and> live (hm h) = live (hm g)"
proof -
  let ?w = "outcnt g"
  have D0: "dec s0 c0 H ?w (bb g, bk g) g (bits_of 1 (of_nat (of_bool fin) :: u32) @ bits_of 2 (of_nat (block_type b) :: u32) @ block_body b @ xs)"
    and wf: "heap_wf g" using D by (simp_all add: block_done_def block_bits_def)
  obtain B1 g1 where 1: "extra_bits S ?w 1 (bb g, bk g) g = Return (of_bool fin, B1) g1" "hm g1 = hm g"
    "dec s0 c0 H ?w B1 g1 (bits_of 2 (of_nat (block_type b) :: u32) @ block_body b @ xs)"
    using extra_value [OF io(1) D0, of ?w] by (cases fin) auto
  have t: "block_type b < 2 ^ 2" "block_type b \<in> {0, 1, 2}" by (cases b; simp)+
  obtain B2 g2 where 2: "extra_bits S ?w 2 B1 g1 = Return (block_type b, B2) g2" "hm g2 = hm g1" "dec s0 c0 H ?w B2 g2 (block_body b @ xs)"
    using extra_value [OF io(1) 1(3) t(1), of ?w] by auto
  obtain p k where B2: "B2 = (p, k)" by (cases B2)
  have "outcnt g1 = ?w" by (rule extra_bits_outcnt [OF 1(1) refl])
  then have o2: "outcnt g2 = ?w" by (rule extra_bits_outcnt [OF 2(1)])
  let ?g = "g2\<lparr>bb := p, bk := k\<rparr>"
  have "block_done s0 c0 H ?g (block_body b @ xs)"
    using dec_globals(3) [OF 2(3) [unfolded B2]] o2 wf 1(2) 2(2) by (simp add: block_done_def heap_wf_def)
  from block_body_ok [OF io xs ok this] obtain h where
    h: "(if block_type b = 2 then inflate_dynamic S ?g else if block_type b = 0 then Some (inflate_stored S ?g)
      else inflate_fixed S ?g) = Some (Return 0 h)" "block_done s0 c0 (block_expand b H) h xs" "live (hm h) = live (hm ?g)" by blast
  have "inflate_block S g = Some (Return (0, fin) h)"
    unfolding inflate_block_def Let_def 1(1) opt_bind_simps prod.case 2(1) B2
    using h(1) t(2) by (auto split: if_splits)
  then show ?thesis using h(2,3) 1(2) 2(2) by simp
qed

declare return_bytes.simps [simp del]

lemma instream_back:
  assumes "0 < inptr g" "inptr g \<le> insize g"
  shows "instream (g\<lparr>bk := k, inptr := inptr g - 1\<rparr>) = inbuf g (inptr g - 1) # instream g"
  using get_array_Cons [of "inptr g - 1" "insize g" "inbuf g"] assms by (simp add: instream_def)

text \<open>At most one whole byte is given back, and it is the byte before the position.\<close>

lemma return_bytes_ok:
  assumes r: "ready (bb g, bk g) g" and k: "bk g \<le> 15"
  obtains k' p where "return_bytes (bk g) g = g\<lparr>bk := k', inptr := p\<rparr>" "p \<le> insize g"
    "bytes_bits (instream (g\<lparr>bk := k', inptr := p\<rparr>)) =
       drop (length (ubits (bb g, bk g) g) mod 8) (ubits (bb g, bk g) g)"
proof -
  let ?b = "bb g" and ?k = "bk g" and ?u = "ubits (bb g, bk g) g"
  have u: "?u = bits_of ?k ?b @ bytes_bits (instream g)" by (simp add: ubits_def)
  have lu: "length ?u mod 8 = ?k mod 8" unfolding u by simp
  have p: "inptr g \<le> insize g" "last_read (?b, ?k) g" using r by (simp_all add: ready_def)
  show ?thesis
  proof (cases "8 \<le> ?k")
    case False
    then have "return_bytes ?k g = g\<lparr>bk := ?k, inptr := inptr g\<rparr>" by (simp add: return_bytes.simps)
    moreover have "drop (length ?u mod 8) ?u = bytes_bits (instream g)" using False unfolding lu u by simp
    ultimately show ?thesis using that [of "inptr g" ?k] p(1) by simp
  next
    case True
    let ?h = "g\<lparr>bk := ?k - 8, inptr := inptr g - 1\<rparr>" and ?x = "inbuf g (inptr g - 1)"
    have e: "return_bytes ?k g = ?h" using True k by (simp add: return_bytes.simps)
    have l: "0 < inptr g" "\<And>i. i < 8 \<Longrightarrow> bit ?b (?k - 1 - i) = bit ?x (7 - i)" using p(2) True by (simp_all add: last_read_def)
    have "bits_of 8 (drop_bit (?k - 8) ?b) = bits_of 8 ?x"
    proof (rule nth_equalityI)
      fix i assume "i < length (bits_of 8 (drop_bit (?k - 8) ?b))"
      then have i: "i < 8" by simp
      then have "?k - 1 - (7 - i) = ?k - 8 + i" using True by simp
      then show "bits_of 8 (drop_bit (?k - 8) ?b) ! i = bits_of 8 ?x ! i" using l(2) [of "7 - i"] i by (simp add: bit_drop_bit_eq)
    qed simp
    moreover have "?k mod 8 = ?k - 8" using True k by (simp add: mod_if)
    ultimately have "drop (length ?u mod 8) ?u = bits_of 8 ?x @ bytes_bits (instream g)"
      using True unfolding lu u by (simp add: drop_bits_of)
    also have "\<dots> = bytes_bits (instream ?h)" unfolding instream_back [OF l(1) p(1)] by simp
    finally show ?thesis using that [OF e] p(1) by simp
  qed
qed

text \<open>The state after the last block: \<open>xs\<close> was left unread, from the next whole byte on.\<close>

definition inflated :: "byte list \<Rightarrow> bool \<times> u32 \<times> u32 \<Rightarrow> byte list \<Rightarrow> bool list \<Rightarrow> gz \<Rightarrow> bool" where
  "inflated s0 c0 H xs h \<longleftrightarrow> test h = fst c0 \<and> sink h = s0 @ (if fst c0 then [] else H) \<and> crc_reg h = foldl crc_step (fst (snd c0)) H \<and>
     bytes_out h = snd (snd c0) + of_nat (length H) \<and> outcnt h = 0 \<and> insize h \<le> INBUFSIZ \<and> inptr h \<le> insize h \<and>
     bytes_bits (instream h) = drop (length xs mod 8) xs"

lemma finish_ok:
  assumes io: "io_ok S" and D: "block_done s0 c0 H g xs"
  shows "\<exists>h. flush_window S (return_bytes (bk g) g) = Return () h \<and> inflated s0 c0 H xs h \<and> live (hm h) = live (hm g)"
proof -
  have d: "ready (bb g, bk g) g" "bk g \<le> 15" "ubits (bb g, bk g) g = xs" "slides s0 c0 H (outcnt g) g" "insize g \<le> INBUFSIZ"
    using D by (simp_all add: block_done_def dec_def ready_def)
  obtain k p where r: "return_bytes (bk g) g = g\<lparr>bk := k, inptr := p\<rparr>" "p \<le> insize g"
    "bytes_bits (instream (g\<lparr>bk := k, inptr := p\<rparr>)) = drop (length xs mod 8) xs"
    by (rule return_bytes_ok [OF d(1,2), unfolded d(3)])
  let ?g = "g\<lparr>bk := k, inptr := p\<rparr>"
  have f: "filled s0 c0 H (outcnt g) ?g" "test g = fst c0" using d(4) by (simp_all add: slides_def filled_def)
  obtain h where h: "flush_window S ?g = Return () h" "same_but_win ?g h" "outcnt h = 0" "sink h = s0 @ (if test ?g then [] else H)"
    "crc_reg h = foldl crc_step (fst (snd c0)) H" "bytes_out h = snd (snd c0) + of_nat (length H)"
    by (rule flush_filled [OF io f(1)]) simp
  show ?thesis using h r f(2) d(5) same_but_winD [OF h(2)] by (intro exI [of _ h]) (simp add: inflated_def)
qed

lemma inflate_blocks_ok:
  assumes io: "io_ok S" "\<forall>i. hmalloc S i" and xs: "32 \<le> length xs"
  shows "bs \<noteq> [] \<Longrightarrow> blocks_ok (length H) (length xs) bs \<Longrightarrow> block_done s0 c0 H g (blocks_bits bs @ xs) \<Longrightarrow>
    \<exists>h. inflate_blocks S g = Some (Return 0 h) \<and> inflated s0 c0 (blocks_expand bs H) xs h \<and> live (hm h) = live (hm g)"
proof (induction bs arbitrary: H g)
  case (Cons b bs)
  let ?g = "g\<lparr>hm := (hm g)\<lparr>hufts := 0\<rparr>\<rparr>"
  have "block_done s0 c0 H ?g (block_bits (bs = []) b @ (blocks_bits bs @ xs))"
    using Cons.prems(3) dec_globals(1) by (simp add: block_done_def heap_wf_def)
  moreover have "32 \<le> length (blocks_bits bs @ xs)" "block_ok (length H) (length (blocks_bits bs @ xs)) b" using xs Cons.prems(2) by simp_all
  ultimately obtain h where h: "inflate_block S ?g = Some (Return (0, bs = []) h)"
    "block_done s0 c0 (block_expand b H) h (blocks_bits bs @ xs)" "live (hm h) = live (hm g)"
    using inflate_block_ok [OF io] by fastforce
  show ?case
  proof (cases "bs = []")
    case True
    obtain h2 where h2: "flush_window S (return_bytes (bk h) h) = Return () h2" "inflated s0 c0 (block_expand b H) xs h2"
      "live (hm h2) = live (hm h)" using finish_ok [OF io(1), of s0 c0 "block_expand b H" h xs] h(2) True by auto
    have "inflate_blocks S g = Some (Return 0 h2)" by (subst inflate_blocks.simps) (simp add: h(1) True h2(1) Let_def)
    then show ?thesis using h2(2,3) h(3) True by simp
  next
    case False
    have "blocks_ok (length (block_expand b H)) (length xs) bs"
      using Cons.prems(2) length_block_expand [of H "replicate (length H) 0" b] by simp
    note IH = Cons.IH [OF False this h(2)]
    have "inflate_blocks S g = inflate_blocks S h" using h(1) False by (subst inflate_blocks.simps) simp
    note e = this
    show ?thesis unfolding e blocks_expand.simps using IH unfolding h(3) .
  qed
qed simp

lemma inflate_ok:
  assumes "io_ok S" "\<forall>i. hmalloc S i" "heap_wf g" "insize g \<le> INBUFSIZ" "inptr g \<le> insize g"
    and "bs \<noteq> []" "blocks_ok 0 (length xs) bs" "bytes_bits (instream g) = blocks_bits bs @ xs" "32 \<le> length xs"
  shows "\<exists>h. inflate S g = Some (Return 0 h) \<and>
    inflated (sink g) (test g, crc_reg g, bytes_out g) (blocks_expand bs []) xs h \<and> live (hm h) = live (hm g)"
proof -
  let ?g = "g\<lparr>outcnt := 0, bk := 0, bb := 0\<rparr>"
  have "block_done (sink g) (test g, crc_reg g, bytes_out g) [] ?g (blocks_bits bs @ xs)"
    using assms(3-5,8)
    by (simp add: block_done_def dec_def slides_def filled_def wins_def ready_def ubits_def instream_def heap_wf_def)
  from inflate_blocks_ok [OF assms(1,2,9,6) _ this] show ?thesis
    using assms(7) by (simp add: inflate_def)
qed

text \<open>Claim C9. From the bits of any sequence of well-formed blocks (stored, with the fixed codes, or with
  their own codes), \<^verbatim>\<open>inflate\<close> ends with success, whatever sizes the kernel transfers, if transfers and allocations
  succeed and 32 more bits follow; it has written
  exactly the bytes that the blocks stand for (nothing with \<^verbatim>\<open>-t\<close>), brought the checksum and the count
  up to date, freed every table, and left the input at the first whole byte behind the last block.\<close>

theorem inflate_decodes:
  assumes "io_ok S" "\<forall>i. hmalloc S i" "heap_wf g" "insize g \<le> INBUFSIZ" "inptr g \<le> insize g"
    and "bs \<noteq> []" "blocks_ok 0 (length xs) bs" "bytes_bits (instream g) = blocks_bits bs @ xs" "32 \<le> length xs"
  shows "\<exists>h. inflate S g = Some (Return 0 h) \<and> sink h = sink g @ (if test g then [] else blocks_expand bs []) \<and>
    crc_reg h = foldl crc_step (crc_reg g) (blocks_expand bs []) \<and>
    bytes_out h = bytes_out g + of_nat (length (blocks_expand bs [])) \<and>
    bytes_bits (instream h) = drop (length xs mod 8) xs \<and> live (hm h) = live (hm g)"
  using inflate_ok [OF assms] by (auto simp: inflated_def)

text \<open>The fixed codes as numbers.\<close>

lemma count_list_replicate: "count_list (replicate n x) y = (if x = y then n else 0)"
  by (induction n) auto

lemma fixed_lengths_nth:
  "t < 288 \<Longrightarrow> fixed_lit_lengths ! t = (if t < 144 then 8 else if t < 256 then 9 else if t < 280 then 7 else 8)"
  by (auto simp: fixed_lit_lengths_def nth_append)

lemma fixed_dist_nth: "t < 30 \<Longrightarrow> fixed_dist_lengths ! t = 5"
  by (simp add: fixed_dist_lengths_def)

lemma length_fixed: "length fixed_lit_lengths = 288" "length fixed_dist_lengths = 30"
  by (simp_all add: fixed_lit_lengths_def fixed_dist_lengths_def)

lemma fixed_lit_code:
  assumes "t < 288"
  shows "canon_code fixed_lit_lengths t =
    (if t < 144 then 48 + t else if t < 256 then 256 + t else if t < 280 then t - 256 else t - 88)"
proof -
  have c: "count_list fixed_lit_lengths s = (if s = 7 then 24 else if s = 8 then 152 else if s = 9 then 112 else 0)" for s
    by (simp add: fixed_lit_lengths_def count_list_replicate)
  have s: "(\<Sum>s = 1..<k. count_list fixed_lit_lengths s * 2 ^ (k - s)) = (if k = 7 then 0 else if k = 8 then 48 else 400)"
    if "k \<in> {7, 8, 9}" for k
    using that by (auto simp: c numeral_eq_Suc sum.atLeastLessThan_Suc)
  have k: "count_list (take t fixed_lit_lengths) (fixed_lit_lengths ! t) =
      (if t < 144 then t else if t < 256 then t - 144 else if t < 280 then t - 256 else t - 136)"
    using assms unfolding fixed_lengths_nth [OF assms]
    by (simp add: fixed_lit_lengths_def count_list_replicate take_replicate min_def) linarith
  show ?thesis unfolding canon_code_def k using assms s [of "fixed_lit_lengths ! t"] fixed_lengths_nth [OF assms]
    by (simp split: if_splits)
qed

lemma fixed_dist_code:
  assumes "t < 30" shows "canon_code fixed_dist_lengths t = t"
  using assms by (simp add: canon_code_def fixed_dist_lengths_def take_replicate count_list_replicate min_def)

text \<open>An example: one literal and a match of length 3 at distance 1.\<close>

definition fx_blocks :: "block list" where "fx_blocks = [Fixed [Lit 97, Match 0 0 0 0]]"

lemma fx_blocks_bits: "bytes_bits [0x4b, 0x04, 0x02, 0x00] = blocks_bits fx_blocks @ [False, False]"
proof -
  have u: "unat (97 :: byte) = 97" by simp
  have c: "canon_bits fixed_lit_lengths 97 = [True, False, False, True, False, False, False, True]"
    "canon_bits fixed_lit_lengths 257 = [False, False, False, False, False, False, True]"
    "canon_bits fixed_lit_lengths 256 = [False, False, False, False, False, False, False]"
    "canon_bits fixed_dist_lengths 0 = [False, False, False, False, False]"
    by (simp_all add: canon_bits_def fixed_lit_code fixed_dist_code fixed_lengths_nth fixed_dist_nth upt_rec bit_0)
  have "blocks_bits fx_blocks = [True, True, False] @ canon_bits fixed_lit_lengths 97 @ canon_bits fixed_lit_lengths 257 @
      canon_bits fixed_dist_lengths 0 @ canon_bits fixed_lit_lengths 256"
    by (simp add: fx_blocks_def block_bits_def tokens_bits_def u cplext_def cpdext_def) (simp add: bits_of_def numeral_2_eq_2)
  then show ?thesis unfolding c by (simp add: bits_of_def upt_rec bit_0)
qed

lemma fx_blocks_ok: "fx_blocks \<noteq> []" "blocks_ok 0 n fx_blocks" "blocks_expand fx_blocks [] = [97, 97, 97, 97]"
proof -
  have u: "unat (97 :: byte) = 97" by simp
  show "fx_blocks \<noteq> []" by (simp add: fx_blocks_def)
  show "blocks_ok 0 n fx_blocks"
    by (simp add: fx_blocks_def u fixed_lengths_nth fixed_dist_nth match_dist_def cpdist_def length_fixed cplext_def cpdext_def)
  show "blocks_expand fx_blocks [] = [97, 97, 97, 97]"
    by (simp add: fx_blocks_def match_len_def match_dist_def cplens_def cpdist_def numeral_eq_Suc)
qed

theorem inflate_decodes_witness:
  "\<exists>h. inflate fx_io (fx_gz [0x4b, 0x04, 0x02, 0x00, 1, 2, 3, 4]) = Some (Return 0 h) \<and> sink h = [97, 97, 97, 97] \<and>
    bytes_bits (instream h) = bytes_bits [1, 2, 3, 4]"
proof -
  let ?g = "fx_gz [0x4b, 0x04, 0x02, 0x00, 1, 2, 3, 4]" and ?xs = "[False, False] @ bytes_bits [1, 2, 3, 4]"
  have i: "bytes_bits (instream ?g) = blocks_bits fx_blocks @ ?xs"
    using fx_blocks_bits bytes_bits_simps(3) [of "[0x4b, 0x04, 0x02, 0x00]" "[1, 2, 3, 4]"] by (simp add: instream_def fx_gz_def)
  have l: "length ?xs = 34" by simp
  have "\<exists>h. inflate fx_io ?g = Some (Return 0 h) \<and> sink h = sink ?g @ (if test ?g then [] else blocks_expand fx_blocks []) \<and>
    crc_reg h = foldl crc_step (crc_reg ?g) (blocks_expand fx_blocks []) \<and>
    bytes_out h = bytes_out ?g + of_nat (length (blocks_expand fx_blocks [])) \<and>
    bytes_bits (instream h) = drop (length ?xs mod 8) ?xs \<and> live (hm h) = live (hm ?g)"
    by (rule inflate_decodes [OF fx_io_ok _ _ _ _ fx_blocks_ok(1,2) i]) (simp_all add: fx_io_def fx_gz_def heap_wf_def)
  then show ?thesis unfolding l fx_blocks_ok(3) by (auto simp: fx_gz_def)
qed

end
