(* ===== verification/SFI_Trees.thy ===== *)
theory SFI_Trees
  imports SFI_Dynamic
begin

text \<open>
  The entropy coder of the compression program (the part of \<^verbatim>\<open>src/gzip-mod.c\<close> from \<^verbatim>\<open>ct_init\<close> to
  \<^verbatim>\<open>set_file_type\<close>): the tables of length and distance codes, the recording of literals and matches, the
  construction of the Huffman trees with limited lengths, the transmission of the trees and of the
  data, and the choice between the three kinds of block. The two unions of a tree node are two
  16-bit fields, each under two names as in the source. The buffer \<^verbatim>\<open>l_buf\<close>, which the source overlays
  on the input buffer that the encoder does not use, is an array of its own.
\<close>

unbundle bit_operations_syntax

section \<open>Constants and state\<close>

definition MAX_BITS :: nat where "MAX_BITS = 15"
definition MAX_BL_BITS :: nat where "MAX_BL_BITS = 7"
definition LENGTH_CODES :: nat where "LENGTH_CODES = 29"
definition LITERALS :: nat where "LITERALS = 256"
definition END_BLOCK :: nat where "END_BLOCK = 256"
definition L_CODES :: nat where "L_CODES = LITERALS + 1 + LENGTH_CODES"
definition D_CODES :: nat where "D_CODES = 30"
definition BL_CODES :: nat where "BL_CODES = 19"
definition HEAP_SIZE :: nat where "HEAP_SIZE = 2 * L_CODES + 1"
definition LIT_BUFSIZE :: nat where "LIT_BUFSIZE = 0x8000"
definition DIST_BUFSIZE :: nat where "DIST_BUFSIZE = 0x8000"
definition STORED_BLOCK :: u32 where "STORED_BLOCK = 0"
definition STATIC_TREES :: u32 where "STATIC_TREES = 1"
definition DYN_TREES :: u32 where "DYN_TREES = 2"
definition REP_3_6 :: nat where "REP_3_6 = 16"
definition REPZ_3_10 :: nat where "REPZ_3_10 = 17"
definition REPZ_11_138 :: nat where "REPZ_11_138 = 18"
definition UNKNOWN :: nat where "UNKNOWN = 0xffff"
definition BINARY :: nat where "BINARY = 0"
definition ASCII :: nat where "ASCII = 1"

definition extra_lbits :: "nat list" where
  "extra_lbits = [0, 0, 0, 0, 0, 0, 0, 0, 1, 1, 1, 1, 2, 2, 2, 2, 3, 3, 3, 3, 4, 4, 4, 4, 5, 5, 5, 5, 0]"

definition extra_dbits :: "nat list" where
  "extra_dbits = [0, 0, 0, 0, 1, 1, 2, 2, 3, 3, 4, 4, 5, 5, 6, 6, 7, 7, 8, 8, 9, 9, 10, 10, 11, 11, 12, 12, 13, 13]"

definition extra_blbits :: "nat list" where
  "extra_blbits = [0, 0, 0, 0, 0, 0, 0, 0, 0, 0, 0, 0, 0, 0, 0, 0, 2, 3, 7]"

definition bl_order :: "nat list" where
  "bl_order = [16, 17, 18, 0, 8, 7, 9, 6, 10, 5, 11, 4, 12, 3, 13, 2, 14, 1, 15]"

record ct_data =
  fc :: "16 word"
  dl :: "16 word"

abbreviation Freq :: "ct_data \<Rightarrow> 16 word" where "Freq \<equiv> fc"
abbreviation Code :: "ct_data \<Rightarrow> 16 word" where "Code \<equiv> fc"
abbreviation Dad :: "ct_data \<Rightarrow> 16 word" where "Dad \<equiv> dl"
abbreviation Len :: "ct_data \<Rightarrow> 16 word" where "Len \<equiv> dl"

type_synonym ct_tree = "nat \<Rightarrow> ct_data"

definition set_fc :: "nat \<Rightarrow> 16 word \<Rightarrow> ct_tree \<Rightarrow> ct_tree" where
  "set_fc n x t = t(n := (t n)\<lparr>fc := x\<rparr>)"

definition set_dl :: "nat \<Rightarrow> 16 word \<Rightarrow> ct_tree \<Rightarrow> ct_tree" where
  "set_dl n x t = t(n := (t n)\<lparr>dl := x\<rparr>)"

text \<open>A descriptor without the tree, which is passed to the routines and returned by them, and without
  \<^verbatim>\<open>max_code\<close>, which is part of the state.\<close>

record tree_desc =
  extra_bits :: "nat list"
  extra_base :: nat
  elems :: nat
  max_length :: nat

definition l_desc :: tree_desc where
  "l_desc = \<lparr>extra_bits = extra_lbits, extra_base = LITERALS + 1, elems = L_CODES, max_length = MAX_BITS\<rparr>"

definition d_desc :: tree_desc where
  "d_desc = \<lparr>extra_bits = extra_dbits, extra_base = 0, elems = D_CODES, max_length = MAX_BITS\<rparr>"

definition bl_desc :: tree_desc where
  "bl_desc = \<lparr>extra_bits = extra_blbits, extra_base = 0, elems = BL_CODES, max_length = MAX_BL_BITS\<rparr>"

record ct =
  dyn_ltree :: ct_tree
  dyn_dtree :: ct_tree
  bl_tree :: ct_tree
  static_ltree :: ct_tree
  static_dtree :: ct_tree
  bl_count :: "nat \<Rightarrow> 16 word"
  heap :: "nat \<Rightarrow> nat"
  heap_len :: nat
  heap_max :: nat
  depth :: "nat \<Rightarrow> byte"
  length_code :: "byte list"
  dist_code :: "byte list"
  base_length :: "nat list"
  base_dist :: "nat list"
  l_max :: int                \<comment> \<open>\<^verbatim>\<open>l_desc.max_code\<close>\<close>
  d_max :: int
  l_buf :: "nat \<Rightarrow> byte"
  d_buf :: "nat \<Rightarrow> 16 word"
  flag_buf :: "nat \<Rightarrow> byte"
  last_lit :: nat
  last_dist :: nat
  last_flags :: nat
  flags :: byte
  flag_bit :: byte
  opt_len :: u32
  static_len :: u32
  compressed_len :: u32
  input_len :: u32
  file_type :: nat

section \<open>Codes\<close>

text \<open>\<^verbatim>\<open>next_code[bits] = code = (code + bl_count[bits-1]) << 1\<close> for the bits from 1.\<close>

fun first_codes :: "(nat \<Rightarrow> 16 word) \<Rightarrow> nat list \<Rightarrow> 16 word \<Rightarrow> (nat \<Rightarrow> 16 word) \<Rightarrow> nat \<Rightarrow> 16 word" where
  "first_codes c [] code nc = nc"
| "first_codes c (b # bs) code nc =
     (let code = push_bit 1 (code + c (b - 1)) in first_codes c bs code (nc(b := code)))"

text \<open>A length is at most \<^verbatim>\<open>MAX_BITS\<close>; the code is the next one of its length, reversed.\<close>

fun give_codes :: "nat list \<Rightarrow> (nat \<Rightarrow> 16 word) \<Rightarrow> ct_tree \<Rightarrow> ct_tree" where
  "give_codes [] nc t = t"
| "give_codes (n # ns) nc t =
     (let len = unat (Len (t n))
      in if len = 0 then give_codes ns nc t
         else give_codes ns (nc(len := nc len + 1)) (set_fc n (ucast (bi_reverse (ucast (nc len)) len)) t))"

definition gen_codes :: "(nat \<Rightarrow> 16 word) \<Rightarrow> ct_tree \<Rightarrow> int \<Rightarrow> ct_tree" where
  "gen_codes c t max_code =
     give_codes [0..<nat (max_code + 1)] (first_codes c [1..<MAX_BITS + 1] 0 (\<lambda>_. 0)) t"

section \<open>Initialisation\<close>

definition init_block :: "ct \<Rightarrow> ct" where
  "init_block s = s\<lparr>
     dyn_ltree := set_fc END_BLOCK 1 (fold (\<lambda>n. set_fc n 0) [0..<L_CODES] (dyn_ltree s)),
     dyn_dtree := fold (\<lambda>n. set_fc n 0) [0..<D_CODES] (dyn_dtree s),
     bl_tree := fold (\<lambda>n. set_fc n 0) [0..<BL_CODES] (bl_tree s),
     opt_len := 0, static_len := 0, last_lit := 0, last_dist := 0, last_flags := 0, flags := 0, flag_bit := 1\<rparr>"

text \<open>The tables are filled from the front: \<^verbatim>\<open>length_code[length++] = (uch)code\<close> is appending.\<close>

definition length_tables_init :: "nat list \<times> byte list" where
  "length_tables_init =
     (let (base, lc) = fold (\<lambda>code (base, lc). (base @ [length lc], lc @ replicate (2 ^ (extra_lbits ! code)) (of_nat code)))
        [0..<LENGTH_CODES - 1] ([], [])
      in (base @ [0], lc[length lc - 1 := of_nat (LENGTH_CODES - 1)]))"

definition dist_tables_init :: "nat list \<times> byte list" where
  "dist_tables_init =
     (let (base, dc) = fold (\<lambda>code (base, dc). (base @ [length dc], dc @ replicate (2 ^ (extra_dbits ! code)) (of_nat code)))
          [0..<16] ([], []);
        dist = length dc div 2 ^ 7;
        dc = dc @ replicate dist 0
      in fold (\<lambda>code (base, dc). (base @ [(length dc - 256) * 2 ^ 7],
          dc @ replicate (2 ^ (extra_dbits ! code - 7)) (of_nat code))) [16..<D_CODES] (base, dc))"

text \<open>\<^verbatim>\<open>while (n <= 143) static_ltree[n++].Len = 8, bl_count[8]++;\<close> and so on.\<close>

definition static_lengths :: "nat list \<Rightarrow> nat \<Rightarrow> ct_tree \<times> (nat \<Rightarrow> 16 word) \<Rightarrow> ct_tree \<times> (nat \<Rightarrow> 16 word)" where
  "static_lengths ns l = fold (\<lambda>n (t, c). (set_dl n (of_nat l) t, c(l := c l + 1))) ns"

definition ct_init :: "ct \<Rightarrow> ct" where
  "ct_init s =
     (let s = s\<lparr>compressed_len := 0, input_len := 0\<rparr>
      in if Len (static_dtree s 0) \<noteq> 0 then s
         else let (bl, lc) = length_tables_init; (bd, dc) = dist_tables_init;
           c = fold (\<lambda>bits c. c(bits := 0)) [0..<MAX_BITS + 1] (bl_count s);
           (t, c) = static_lengths [280..<288] 8 (static_lengths [256..<280] 7 (static_lengths [144..<256] 9
             (static_lengths [0..<144] 8 (static_ltree s, c))))
         in init_block (s\<lparr>base_length := bl, length_code := lc, base_dist := bd, dist_code := dc, bl_count := c,
              static_ltree := gen_codes c t (int (L_CODES + 1)),
              static_dtree := fold (\<lambda>n t. set_fc n (ucast (bi_reverse (of_nat n) 5)) (set_dl n 5 t)) [0..<D_CODES] (static_dtree s)\<rparr>))"

section \<open>Recording\<close>

definition d_code :: "ct \<Rightarrow> nat \<Rightarrow> nat" where
  "d_code s dist = unat (if dist < 256 then dist_code s ! dist else dist_code s ! (256 + dist div 2 ^ 7))"

definition inc_freq :: "nat \<Rightarrow> ct_tree \<Rightarrow> ct_tree" where
  "inc_freq n t = set_fc n (Freq (t n) + 1) t"

text \<open>\<open>dist = 0\<close> is a literal. \<open>level\<close> and \<open>in_length\<close> (that is \<^verbatim>\<open>strstart - block_start\<close>) are the globals of
  the matcher that the guess on the block's end uses.\<close>

definition tally_item :: "nat \<Rightarrow> byte \<Rightarrow> ct \<Rightarrow> ct" where
  "tally_item dist lc s =
     (let s = s\<lparr>l_buf := (l_buf s)(last_lit s := lc), last_lit := last_lit s + 1\<rparr>
      in if dist = 0 then s\<lparr>dyn_ltree := inc_freq (unat lc) (dyn_ltree s)\<rparr>
         else let d = dist - 1
           in s\<lparr>dyn_ltree := inc_freq (unat (length_code s ! unat lc) + LITERALS + 1) (dyn_ltree s),
                dyn_dtree := inc_freq (d_code s d) (dyn_dtree s),
                d_buf := (d_buf s)(last_dist s := of_nat d), last_dist := last_dist s + 1, flags := flags s OR flag_bit s\<rparr>)"

definition tally_flags :: "ct \<Rightarrow> ct" where
  "tally_flags s =
     (let s = s\<lparr>flag_bit := push_bit 1 (flag_bit s)\<rparr>
      in if last_lit s mod 8 = 0
         then s\<lparr>flag_buf := (flag_buf s)(last_flags s := flags s), last_flags := last_flags s + 1, flags := 0, flag_bit := 1\<rparr>
         else s)"

definition stop_early :: "nat \<Rightarrow> u32 \<Rightarrow> ct \<Rightarrow> bool" where
  "stop_early level in_length s \<longleftrightarrow>
     level > 2 \<and> last_lit s mod 0x1000 = 0 \<and>
     (let out = foldl (\<lambda>out d. out + ucast (Freq (dyn_dtree s d)) * (5 + of_nat (extra_dbits ! d))) (of_nat (last_lit s) * 8) [0..<D_CODES];
          out = drop_bit 3 (out :: u32)
      in last_dist s < last_lit s div 2 \<and> out < in_length div 2)"

definition ct_tally :: "nat \<Rightarrow> u32 \<Rightarrow> nat \<Rightarrow> byte \<Rightarrow> ct \<Rightarrow> bool \<times> ct" where
  "ct_tally level in_length dist lc s =
     (let s = tally_flags (tally_item dist lc s)
      in (stop_early level in_length s \<or> last_lit s = LIT_BUFSIZE - 1 \<or> last_dist s = DIST_BUFSIZE, s))"

section \<open>Building a tree\<close>

text \<open>Frequencies are compared as numbers, depths break ties.\<close>

definition smaller :: "ct_tree \<Rightarrow> (nat \<Rightarrow> byte) \<Rightarrow> nat \<Rightarrow> nat \<Rightarrow> bool" where
  "smaller t d n m \<longleftrightarrow> Freq (t n) < Freq (t m) \<or> Freq (t n) = Freq (t m) \<and> d n \<le> d m"

text \<open>The loop of \<^verbatim>\<open>pqdownheap\<close>; the left son \<open>j = 2 * k\<close> is positive.\<close>

function pq_down :: "ct_tree \<Rightarrow> (nat \<Rightarrow> byte) \<Rightarrow> nat \<Rightarrow> nat \<Rightarrow> nat \<Rightarrow> nat \<Rightarrow> (nat \<Rightarrow> nat) \<Rightarrow> nat \<Rightarrow> nat" where
  "pq_down t d len v k j hp =
     (if 0 < j \<and> j \<le> len
      then let j = (if j < len \<and> smaller t d (hp (j + 1)) (hp j) then j + 1 else j)
        in if smaller t d v (hp j) then hp(k := v) else pq_down t d len v j (2 * j) (hp(k := hp j))
      else hp(k := v))"
  by pat_completeness auto
termination by (relation "measure (\<lambda>(t, d, len, v, k, j, hp). len + 1 - j)") (auto simp: Let_def)

declare pq_down.simps [simp del]

definition pqdownheap :: "ct_tree \<Rightarrow> nat \<Rightarrow> ct \<Rightarrow> ct" where
  "pqdownheap t k s = s\<lparr>heap := pq_down t (depth s) (heap_len s) (heap s k) k (2 * k) (heap s)\<rparr>"

definition pqremove :: "ct_tree \<Rightarrow> ct \<Rightarrow> nat \<times> ct" where
  "pqremove t s =
     (heap s 1, pqdownheap t 1 (s\<lparr>heap := (heap s)(1 := heap s (heap_len s)), heap_len := heap_len s - 1\<rparr>))"

text \<open>One turn of the loop that combines the two least frequent nodes.\<close>

definition join_nodes :: "nat \<Rightarrow> ct_tree \<Rightarrow> ct \<Rightarrow> ct_tree \<times> ct" where
  "join_nodes node t s =
     (let (n, s) = pqremove t s; m = heap s 1;
        s = s\<lparr>heap_max := heap_max s - 2, heap := (heap s)(heap_max s - 1 := n, heap_max s - 2 := m)\<rparr>;
        t = set_fc node (Freq (t n) + Freq (t m)) t;
        s = s\<lparr>depth := (depth s)(node := (if depth s n \<ge> depth s m then depth s n else depth s m) + 1)\<rparr>;
        t = set_dl n (of_nat node) (set_dl m (of_nat node) t)
      in (t, pqdownheap t 1 (s\<lparr>heap := (heap s)(1 := node)\<rparr>)))"

lemma heap_len_join: "heap_len (snd (join_nodes node t s)) = heap_len s - 1"
  by (simp add: join_nodes_def pqremove_def pqdownheap_def Let_def)

lemma heap_len_join': "(t', s') = join_nodes node t s \<Longrightarrow> heap_len s' = heap_len s - 1"
  by (metis heap_len_join snd_conv)

function join_loop :: "nat \<Rightarrow> ct_tree \<Rightarrow> ct \<Rightarrow> ct_tree \<times> ct" where
  "join_loop node t s =
     (case join_nodes node t s of (t, s) \<Rightarrow> if heap_len s \<ge> 2 then join_loop (node + 1) t s else (t, s))"
  by pat_completeness auto
termination
  by (relation "measure (\<lambda>(node, t, s). heap_len s)") (auto simp: case_prod_unfold heap_len_join dest: heap_len_join')

declare join_loop.simps [simp del]

text \<open>The first pass of \<^verbatim>\<open>gen_bitlen\<close>, for the node at index \<open>h\<close> of the heap.\<close>

definition bitlen_step ::
  "tree_desc \<Rightarrow> int \<Rightarrow> ct_tree option \<Rightarrow> nat \<Rightarrow> ct_tree \<times> ct \<times> int \<Rightarrow> ct_tree \<times> ct \<times> int" where
  "bitlen_step d max_code stree h = (\<lambda>(t, s, overflow).
     let n = heap s h; bits = unat (Len (t (unat (Dad (t n))))) + 1;
       (bits, overflow) = (if bits > max_length d then (max_length d, overflow + 1) else (bits, overflow));
       t = set_dl n (of_nat bits) t
     in if int n > max_code then (t, s, overflow)
        else let s = s\<lparr>bl_count := (bl_count s)(bits := bl_count s bits + 1)\<rparr>;
          xbits = (if n \<ge> extra_base d then extra_bits d ! (n - extra_base d) else 0);
          f = ucast (Freq (t n)) :: u32;
          s = s\<lparr>opt_len := opt_len s + f * of_nat (bits + xbits)\<rparr>
        in (t, (case stree of None \<Rightarrow> s
                | Some st \<Rightarrow> s\<lparr>static_len := static_len s + f * of_nat (unat (Len (st n)) + xbits)\<rparr>), overflow))"

text \<open>\<^verbatim>\<open>while (bl_count[bits] == 0) bits--;\<close> \<open>None\<close> is an index below zero.\<close>

fun last_used :: "(nat \<Rightarrow> 16 word) \<Rightarrow> nat \<Rightarrow> nat option" where
  "last_used c 0 = (if c 0 = 0 then None else Some 0)"
| "last_used c (Suc n) = (if c (Suc n) = 0 then last_used c n else Some (Suc n))"

function fix_overflow :: "nat \<Rightarrow> int \<Rightarrow> (nat \<Rightarrow> 16 word) \<Rightarrow> (nat \<Rightarrow> 16 word) option" where
  "fix_overflow ml overflow c =
     (case last_used c (ml - 1) of
        None \<Rightarrow> None
      | Some bits \<Rightarrow>
          let c = c(bits := c bits - 1); c = c(bits + 1 := c (bits + 1) + 2); c = c(ml := c ml - 1)
          in if overflow - 2 > 0 then fix_overflow ml (overflow - 2) c else Some c)"
  by pat_completeness auto
termination by (relation "measure (\<lambda>(ml, overflow, c). nat overflow)") auto

declare fix_overflow.simps [simp del]

text \<open>The lengths are given out again: \<open>n\<close> leaves of length \<open>bits\<close>, from the end of the heap.\<close>

fun give_lengths :: "int \<Rightarrow> (nat \<Rightarrow> nat) \<Rightarrow> nat \<Rightarrow> nat \<Rightarrow> nat \<Rightarrow> ct_tree \<Rightarrow> u32 \<Rightarrow> (nat \<times> ct_tree \<times> u32) option" where
  "give_lengths max_code hp bits 0 h t ol = Some (h, t, ol)"
| "give_lengths max_code hp bits (Suc n) 0 t ol = None"
| "give_lengths max_code hp bits (Suc n) (Suc h) t ol =
     (let m = hp h
      in if int m > max_code then give_lengths max_code hp bits (Suc n) h t ol
         else if Len (t m) \<noteq> of_nat bits
         then give_lengths max_code hp bits n h (set_dl m (of_nat bits) t)
           (ol + (of_nat bits - ucast (Len (t m))) * ucast (Freq (t m)))
         else give_lengths max_code hp bits n h t ol)"

fun all_lengths :: "int \<Rightarrow> (nat \<Rightarrow> nat) \<Rightarrow> (nat \<Rightarrow> 16 word) \<Rightarrow> nat \<Rightarrow> nat \<Rightarrow> ct_tree \<Rightarrow> u32 \<Rightarrow> (ct_tree \<times> u32) option" where
  "all_lengths max_code hp c 0 h t ol = Some (t, ol)"
| "all_lengths max_code hp c (Suc bits) h t ol =
     (case give_lengths max_code hp (Suc bits) (unat (c (Suc bits))) h t ol of
        None \<Rightarrow> None
      | Some (h, t, ol) \<Rightarrow> all_lengths max_code hp c bits h t ol)"

definition gen_bitlen :: "tree_desc \<Rightarrow> int \<Rightarrow> ct_tree option \<Rightarrow> ct_tree \<Rightarrow> ct \<Rightarrow> (ct_tree \<times> ct) option" where
  "gen_bitlen d max_code stree t s =
     (let s = s\<lparr>bl_count := fold (\<lambda>bits c. c(bits := 0)) [0..<MAX_BITS + 1] (bl_count s)\<rparr>;
        t = set_dl (heap s (heap_max s)) 0 t;
        (t, s, overflow) = fold (bitlen_step d max_code stree) [heap_max s + 1..<HEAP_SIZE] (t, s, 0)
      in if overflow = 0 then Some (t, s)
         else case fix_overflow (max_length d) overflow (bl_count s) of
             None \<Rightarrow> None
           | Some c \<Rightarrow>
               (case all_lengths max_code (heap s) c (max_length d) HEAP_SIZE t (opt_len s) of
                  None \<Rightarrow> None
                | Some (t, ol) \<Rightarrow> Some (t, s\<lparr>bl_count := c, opt_len := ol\<rparr>)))"

text \<open>The symbols in use go to the heap, in their order.\<close>

definition init_heap :: "nat \<Rightarrow> ct_tree \<Rightarrow> ct \<Rightarrow> ct_tree \<times> ct \<times> int" where
  "init_heap n t s =
     fold (\<lambda>n (t, s, max_code).
         if Freq (t n) \<noteq> 0
         then (t, s\<lparr>heap_len := heap_len s + 1, heap := (heap s)(heap_len s + 1 := n), depth := (depth s)(n := 0)\<rparr>, int n)
         else (set_dl n 0 t, s, max_code))
       [0..<n] (t, s\<lparr>heap_len := 0, heap_max := HEAP_SIZE\<rparr>, -1)"

function force_two :: "ct_tree option \<Rightarrow> ct_tree \<Rightarrow> ct \<Rightarrow> int \<Rightarrow> ct_tree \<times> ct \<times> int" where
  "force_two stree t s max_code =
     (if heap_len s < 2
      then let (new, max_code) = (if max_code < 2 then (nat (max_code + 1), max_code + 1) else (0, max_code));
        s = s\<lparr>heap_len := heap_len s + 1, heap := (heap s)(heap_len s + 1 := new), depth := (depth s)(new := 0),
          opt_len := opt_len s - 1,
          static_len := (case stree of None \<Rightarrow> static_len s | Some st \<Rightarrow> static_len s - ucast (Len (st new)))\<rparr>
        in force_two stree (set_fc new 1 t) s max_code
      else (t, s, max_code))"
  by pat_completeness auto
termination by (relation "measure (\<lambda>(st, t, s, m). 2 - heap_len s)") (auto split: if_splits)

declare force_two.simps [simp del]

text \<open>The result: the tree, the state and the largest symbol in use.\<close>

definition build_tree_1 :: "tree_desc \<Rightarrow> ct_tree option \<Rightarrow> ct_tree \<Rightarrow> ct \<Rightarrow> (ct_tree \<times> int \<times> ct) option" where
  "build_tree_1 d stree t s =
     (let (t, s, max_code) = init_heap (elems d) t s;
        (t, s, max_code) = force_two stree t s max_code;
        s = fold (pqdownheap t) (rev [1..<heap_len s div 2 + 1]) s;
        (t, s) = join_loop (elems d) t s;
        s = s\<lparr>heap_max := heap_max s - 1, heap := (heap s)(heap_max s - 1 := heap s 1)\<rparr>
      in case gen_bitlen d max_code stree t s of
           None \<Rightarrow> None
         | Some (t, s) \<Rightarrow> Some (gen_codes (bl_count s) t max_code, max_code, s))"

section \<open>Sending the trees\<close>

text \<open>The limits for the next run: its longest length and the least for a repeat code.\<close>

definition run_limits :: "nat \<Rightarrow> nat \<Rightarrow> nat \<times> nat" where
  "run_limits curlen nextlen = (if nextlen = 0 then (138, 3) else if curlen = nextlen then (6, 3) else (7, 4))"

definition add_freq :: "nat \<Rightarrow> nat \<Rightarrow> ct_tree \<Rightarrow> ct_tree" where
  "add_freq n k t = set_fc n (Freq (t n) + of_nat k) t"

text \<open>The arguments are the indices that are left, \<^verbatim>\<open>prevlen\<close> (\<open>None\<close> for -1), \<^verbatim>\<open>nextlen\<close>, \<^verbatim>\<open>count\<close> and the two
  limits. The result is the tree of the lengths.\<close>

fun scan_loop :: "ct_tree \<Rightarrow> nat list \<Rightarrow> nat option \<Rightarrow> nat \<Rightarrow> nat \<Rightarrow> nat \<times> nat \<Rightarrow> ct_tree \<Rightarrow> ct_tree" where
  "scan_loop t [] prevlen nextlen count lim bl = bl"
| "scan_loop t (n # ns) prevlen nextlen count lim bl =
     (let curlen = nextlen; nextlen = unat (Len (t (n + 1))); count = count + 1
      in if count < fst lim \<and> curlen = nextlen then scan_loop t ns prevlen nextlen count lim bl
         else scan_loop t ns (Some curlen) nextlen 0 (run_limits curlen nextlen)
           (if count < snd lim then add_freq curlen count bl
            else if curlen \<noteq> 0
            then inc_freq REP_3_6 (if prevlen \<noteq> Some curlen then inc_freq curlen bl else bl)
            else if count \<le> 10 then inc_freq REPZ_3_10 bl
            else inc_freq REPZ_11_138 bl))"

definition start_limits :: "nat \<Rightarrow> nat \<times> nat" where
  "start_limits nextlen = (if nextlen = 0 then (138, 3) else (7, 4))"

definition scan_tree :: "ct_tree \<Rightarrow> int \<Rightarrow> ct_tree \<Rightarrow> ct_tree \<times> ct_tree" where
  "scan_tree t max_code bl =
     (let nextlen = unat (Len (t 0)); t = set_dl (nat (max_code + 1)) 0xffff t
      in (t, scan_loop t [0..<nat (max_code + 1)] None nextlen 0 (start_limits nextlen) bl))"

definition send_code :: "sysio \<Rightarrow> nat \<Rightarrow> ct_tree \<Rightarrow> gz \<Rightarrow> unit gzip" where
  "send_code S c t g = send_bits S (ucast (Code (t c))) (unat (Len (t c))) g"

text \<open>\<^verbatim>\<open>do { send_code(curlen, bl_tree); } while (--count != 0);\<close> with a positive count.\<close>

fun send_times :: "sysio \<Rightarrow> nat \<Rightarrow> nat \<Rightarrow> ct_tree \<Rightarrow> gz \<Rightarrow> unit gzip" where
  "send_times S 0 c t g = Return () g"
| "send_times S (Suc n) c t g = out_bind (send_code S c t g) (\<lambda>_. send_times S n c t)"

fun send_loop :: "sysio \<Rightarrow> ct_tree \<Rightarrow> ct_tree \<Rightarrow> nat list \<Rightarrow> nat option \<Rightarrow> nat \<Rightarrow> nat \<Rightarrow> nat \<times> nat \<Rightarrow> gz \<Rightarrow> unit gzip" where
  "send_loop S bl t [] prevlen nextlen count lim g = Return () g"
| "send_loop S bl t (n # ns) prevlen nextlen count lim g =
     (let curlen = nextlen; nextlen = unat (Len (t (n + 1))); count = count + 1
      in if count < fst lim \<and> curlen = nextlen then send_loop S bl t ns prevlen nextlen count lim g
         else out_bind
           (if count < snd lim then send_times S count curlen bl g
            else if curlen \<noteq> 0
            then let (count, first) = (if prevlen \<noteq> Some curlen then (count - 1, send_code S curlen bl g) else (count, Return () g))
              in out_bind first (\<lambda>_ g. out_bind (send_code S REP_3_6 bl g) (\<lambda>_. send_bits S (of_nat (count - 3)) 2))
            else if count \<le> 10
            then out_bind (send_code S REPZ_3_10 bl g) (\<lambda>_. send_bits S (of_nat (count - 3)) 3)
            else out_bind (send_code S REPZ_11_138 bl g) (\<lambda>_. send_bits S (of_nat (count - 11)) 7))
           (\<lambda>_. send_loop S bl t ns (Some curlen) nextlen 0 (run_limits curlen nextlen)))"

definition send_tree :: "sysio \<Rightarrow> ct_tree \<Rightarrow> ct_tree \<Rightarrow> int \<Rightarrow> gz \<Rightarrow> unit gzip" where
  "send_tree S bl t max_code g =
     (let nextlen = unat (Len (t 0))
      in send_loop S bl t [0..<nat (max_code + 1)] None nextlen 0 (start_limits nextlen) g)"

text \<open>\<^verbatim>\<open>for (max_blindex = BL_CODES-1; max_blindex >= 3; max_blindex--)\<close>\<close>

function last_blindex :: "ct_tree \<Rightarrow> nat \<Rightarrow> nat" where
  "last_blindex bl i = (if i \<ge> 3 \<and> Len (bl (bl_order ! i)) = 0 then last_blindex bl (i - 1) else i)"
  by pat_completeness auto
termination by (relation "measure snd") auto

declare last_blindex.simps [simp del]

definition build_bl_tree :: "ct \<Rightarrow> (nat \<times> ct) option" where
  "build_bl_tree s =
     (let (lt, bl) = scan_tree (dyn_ltree s) (l_max s) (bl_tree s); (dt, bl) = scan_tree (dyn_dtree s) (d_max s) bl;
        s = s\<lparr>dyn_ltree := lt, dyn_dtree := dt\<rparr>
      in case build_tree_1 bl_desc None bl s of
           None \<Rightarrow> None
         | Some (bl, _, s) \<Rightarrow>
             let i = last_blindex bl (BL_CODES - 1)
             in Some (i, s\<lparr>bl_tree := bl, opt_len := opt_len s + of_nat (3 * (i + 1) + 5 + 5 + 4)\<rparr>))"

fun send_bl_lengths :: "sysio \<Rightarrow> ct_tree \<Rightarrow> nat list \<Rightarrow> gz \<Rightarrow> unit gzip" where
  "send_bl_lengths S bl [] g = Return () g"
| "send_bl_lengths S bl (i # is) g = out_bind (send_bits S (ucast (Len (bl i))) 3 g) (\<lambda>_. send_bl_lengths S bl is)"

definition send_all_trees :: "sysio \<Rightarrow> ct \<Rightarrow> int \<Rightarrow> int \<Rightarrow> nat \<Rightarrow> gz \<Rightarrow> unit gzip" where
  "send_all_trees S s lcodes dcodes blcodes g =
     out_bind (send_bits S (of_int (lcodes - 257)) 5 g) (\<lambda>_ g.
     out_bind (send_bits S (of_int (dcodes - 1)) 5 g) (\<lambda>_ g.
     out_bind (send_bits S (of_nat blcodes - 4) 4 g) (\<lambda>_ g.
     out_bind (send_bl_lengths S (bl_tree s) (take blcodes bl_order) g) (\<lambda>_ g.
     out_bind (send_tree S (bl_tree s) (dyn_ltree s) (lcodes - 1) g) (\<lambda>_.
       send_tree S (bl_tree s) (dyn_dtree s) (dcodes - 1))))))"

section \<open>Sending a block\<close>

definition send_match :: "sysio \<Rightarrow> ct \<Rightarrow> ct_tree \<Rightarrow> ct_tree \<Rightarrow> nat \<Rightarrow> nat \<Rightarrow> gz \<Rightarrow> unit gzip" where
  "send_match S s lt dt lc dist g =
     (let code = unat (length_code s ! lc); extra = extra_lbits ! code
      in out_bind (send_code S (code + LITERALS + 1) lt g) (\<lambda>_ g.
         out_bind (if extra \<noteq> 0 then send_bits S (of_nat (lc - base_length s ! code)) extra g else Return () g) (\<lambda>_ g.
         let code = d_code s dist; extra = extra_dbits ! code
         in out_bind (send_code S code dt g) (\<lambda>_ g.
            if extra \<noteq> 0 then send_bits S (of_nat (dist - base_dist s ! code)) extra g else Return () g))))"

text \<open>The arguments are the indices of the items that are left, \<^verbatim>\<open>dx\<close>, \<^verbatim>\<open>fx\<close> and \<^verbatim>\<open>flag\<close>.\<close>

fun send_items :: "sysio \<Rightarrow> ct \<Rightarrow> ct_tree \<Rightarrow> ct_tree \<Rightarrow> nat list \<Rightarrow> nat \<Rightarrow> nat \<Rightarrow> byte \<Rightarrow> gz \<Rightarrow> unit gzip" where
  "send_items S s lt dt [] dx fx flag g = Return () g"
| "send_items S s lt dt (lx # lxs) dx fx flag g =
     (let (flag, fx) = (if lx mod 8 = 0 then (flag_buf s fx, fx + 1) else (flag, fx)); lc = unat (l_buf s lx)
      in if flag AND 1 = 0
         then out_bind (send_code S lc lt g) (\<lambda>_. send_items S s lt dt lxs dx fx (drop_bit 1 flag))
         else out_bind (send_match S s lt dt lc (unat (d_buf s dx)) g) (\<lambda>_. send_items S s lt dt lxs (dx + 1) fx (drop_bit 1 flag)))"

definition compress_block :: "sysio \<Rightarrow> ct \<Rightarrow> ct_tree \<Rightarrow> ct_tree \<Rightarrow> gz \<Rightarrow> unit gzip" where
  "compress_block S s lt dt g =
     out_bind (send_items S s lt dt [0..<last_lit s] 0 0 0 g) (\<lambda>_. send_code S END_BLOCK lt)"

definition set_file_type :: "ct \<Rightarrow> ct" where
  "set_file_type s =
     (let total = (\<lambda>ns. foldl (\<lambda>a n. a + ucast (Freq (dyn_ltree s n))) (0 :: u32) ns);
        bin = foldl (\<lambda>a n. a + ucast (Freq (dyn_ltree s n))) (total [0..<7]) [128..<LITERALS]; ascii = total [7..<128]
      in s\<lparr>file_type := (if bin > drop_bit 2 ascii then BINARY else ASCII)\<rparr>)"

text \<open>The input block is there or too old. \<^verbatim>\<open>seekable()\<close> is 0, so that the whole file is never stored.
  The result is \<^verbatim>\<open>compressed_len >> 3\<close>.\<close>

definition build_trees :: "ct \<Rightarrow> (nat \<times> ct) option" where
  "build_trees s =
     (case build_tree_1 l_desc (Some (static_ltree s)) (dyn_ltree s) s of
        None \<Rightarrow> None
      | Some (lt, lmax, s) \<Rightarrow>
          (let s = s\<lparr>dyn_ltree := lt, l_max := lmax\<rparr>
           in case build_tree_1 d_desc (Some (static_dtree s)) (dyn_dtree s) s of
                None \<Rightarrow> None
              | Some (dt, dmax, s) \<Rightarrow> build_bl_tree (s\<lparr>dyn_dtree := dt, d_max := dmax\<rparr>)))"

definition round_up :: "u32 \<Rightarrow> u32" where
  "round_up n = (n + 3 + 7) AND NOT 7"

definition send_block :: "sysio \<Rightarrow> byte list option \<Rightarrow> u32 \<Rightarrow> bool \<Rightarrow> nat \<Rightarrow> ct \<Rightarrow> gz \<Rightarrow> (ct gzip)" where
  "send_block S buf stored_len eof max_blindex s g =
     (let opt_lenb = drop_bit 3 (opt_len s + 3 + 7); static_lenb = drop_bit 3 (static_len s + 3 + 7);
        opt_lenb = (if static_lenb \<le> opt_lenb then static_lenb else opt_lenb); e = (if eof then 1 else 0)
      in if stored_len + 4 \<le> opt_lenb \<and> buf \<noteq> None
         then out_bind (send_bits S (push_bit 1 STORED_BLOCK + e) 3 g) (\<lambda>_ g.
           out_bind (copy_block S (the buf) True g) (\<lambda>_.
             Return (s\<lparr>compressed_len := round_up (compressed_len s) + push_bit 3 (stored_len + 4)\<rparr>)))
         else if static_lenb = opt_lenb
         then out_bind (send_bits S (push_bit 1 STATIC_TREES + e) 3 g) (\<lambda>_ g.
           out_bind (compress_block S s (static_ltree s) (static_dtree s) g) (\<lambda>_.
             Return (s\<lparr>compressed_len := compressed_len s + 3 + static_len s\<rparr>)))
         else out_bind (send_bits S (push_bit 1 DYN_TREES + e) 3 g) (\<lambda>_ g.
           out_bind (send_all_trees S s (l_max s + 1) (d_max s + 1) (max_blindex + 1) g) (\<lambda>_ g.
           out_bind (compress_block S s (dyn_ltree s) (dyn_dtree s) g) (\<lambda>_.
             Return (s\<lparr>compressed_len := compressed_len s + 3 + opt_len s\<rparr>)))))"

definition end_block :: "sysio \<Rightarrow> bool \<Rightarrow> bool \<Rightarrow> ct \<Rightarrow> gz \<Rightarrow> (u32 \<times> ct) gzip" where
  "end_block S padded eof s g =
     (let s = init_block s
      in if eof then out_bind (bi_windup S g) (\<lambda>_. let s = s\<lparr>compressed_len := compressed_len s + 7\<rparr>
           in Return (drop_bit 3 (compressed_len s), s))
         else if padded \<and> compressed_len s AND 7 \<noteq> 0
         then out_bind (send_bits S (push_bit 1 STORED_BLOCK) 3 g) (\<lambda>_ g.
           out_bind (copy_block S [] True g) (\<lambda>_. let s = s\<lparr>compressed_len := round_up (compressed_len s)\<rparr>
             in Return (drop_bit 3 (compressed_len s), s)))
         else Return (drop_bit 3 (compressed_len s), s) g)"

definition flush_block ::
  "sysio \<Rightarrow> byte list option \<Rightarrow> u32 \<Rightarrow> bool \<Rightarrow> bool \<Rightarrow> ct \<Rightarrow> gz \<Rightarrow> (u32 \<times> ct) gzip option" where
  "flush_block S buf stored_len padded eof s g =
     (let s = s\<lparr>flag_buf := (flag_buf s)(last_flags s := flags s)\<rparr>;
        s = (if file_type s = UNKNOWN then set_file_type s else s)
      in case build_trees s of
           None \<Rightarrow> None
         | Some (max_blindex, s) \<Rightarrow>
             Some (out_bind (send_block S buf stored_len eof max_blindex (s\<lparr>input_len := input_len s + stored_len\<rparr>) g)
               (end_block S padded eof)))"

end
