(* ===== verification/SFI_Trees_Items.thy ===== *)
theory SFI_Trees_Items
  imports SFI_Trees
begin

text \<open>
  The data of a block: the tables of length and distance codes agree with those of the decoder, the
  recorded items are the ones that are sent, and what is sent with the static codes is the body of
  a well-formed block.
\<close>

unbundle bit_operations_syntax

section \<open>The tables of codes\<close>

lemma fold_spans:
  "a \<le> b \<Longrightarrow> fold (\<lambda>c (base, xs). (base @ [f (length xs)], xs @ replicate (n c) (g c))) [a..<b] (bs, xs) =
     (bs @ map (\<lambda>c. f (length xs + sum n {a..<c})) [a..<b], xs @ concat (map (\<lambda>c. replicate (n c) (g c)) [a..<b]))"
proof (induction b)
  case (Suc b)
  have l: "length (concat (map (\<lambda>c. replicate (n c) (g c)) [a..<b])) = sum n {a..<b}"
    by (simp add: length_concat comp_def sum_list_distinct_conv_sum_set)
  show ?case
  proof (cases "a \<le> b")
    case True
    then show ?thesis using Suc.IH by (simp add: l)
  qed (use Suc.prems in simp)
qed simp

lemma spans_nth:
  "i < sum n {a..<b} \<Longrightarrow>
    \<exists>c. a \<le> c \<and> c < b \<and> sum n {a..<c} \<le> i \<and> i < sum n {a..<c} + n c \<and> concat (map (\<lambda>c. replicate (n c) (g c)) [a..<b]) ! i = g c"
proof (induction b)
  case (Suc b)
  have ab: "a \<le> b" using Suc.prems by (cases "a \<le> b") auto
  have l: "length (concat (map (\<lambda>c. replicate (n c) (g c)) [a..<b])) = sum n {a..<b}"
    by (simp add: length_concat comp_def sum_list_distinct_conv_sum_set)
  show ?case
  proof (cases "i < sum n {a..<b}")
    case True
    then obtain c where "a \<le> c" "c < b" "sum n {a..<c} \<le> i" "i < sum n {a..<c} + n c"
      "concat (map (\<lambda>c. replicate (n c) (g c)) [a..<b]) ! i = g c" using Suc.IH by blast
    then show ?thesis using True ab by (intro exI [of _ c]) (simp add: nth_append l)
  next
    case False
    then show ?thesis using Suc.prems ab by (intro exI [of _ b]) (simp add: nth_append l)
  qed
qed simp

definition lspan :: "nat \<Rightarrow> nat" where "lspan c = 2 ^ (extra_lbits ! c)"
definition dspan :: "nat \<Rightarrow> nat" where "dspan c = 2 ^ (extra_dbits ! c)"
definition dspan2 :: "nat \<Rightarrow> nat" where "dspan2 c = 2 ^ (extra_dbits ! c - 7)"

lemma length_spans:
  "c < 28 \<Longrightarrow> cplens ! c = sum lspan {0..<c} + 3" "sum lspan {0..<28} = 256"
  "c < 16 \<Longrightarrow> cpdist ! c = sum dspan {0..<c} + 1" "sum dspan {0..<16} = 256"
  "16 \<le> c \<Longrightarrow> c < 30 \<Longrightarrow> cpdist ! c = (2 + sum dspan2 {16..<c}) * 128 + 1 \<and> 2 ^ (extra_dbits ! c) = dspan2 c * 128" "sum dspan2 {16..<30} = 254"
proof -
  have "list_all (\<lambda>c. cplens ! c = sum_list (map lspan [0..<c]) + 3) [0..<28]"
    by (simp add: cplens_def lspan_def extra_lbits_def upt_rec)
  then show "c < 28 \<Longrightarrow> cplens ! c = sum lspan {0..<c} + 3"
    unfolding list_all_iff set_upt by (simp add: sum_list_distinct_conv_sum_set)
  have "list_all (\<lambda>c. cpdist ! c = sum_list (map dspan [0..<c]) + 1) [0..<16]"
    by (simp add: cpdist_def dspan_def extra_dbits_def upt_rec)
  then show "c < 16 \<Longrightarrow> cpdist ! c = sum dspan {0..<c} + 1"
    unfolding list_all_iff set_upt by (simp add: sum_list_distinct_conv_sum_set)
  have "list_all (\<lambda>c. cpdist ! c = (2 + sum_list (map dspan2 [16..<c])) * 128 + 1 \<and> 2 ^ (extra_dbits ! c) = dspan2 c * 128) [16..<30]"
    by (simp add: cpdist_def dspan2_def extra_dbits_def upt_rec)
  then show "16 \<le> c \<Longrightarrow> c < 30 \<Longrightarrow> cpdist ! c = (2 + sum dspan2 {16..<c}) * 128 + 1 \<and> 2 ^ (extra_dbits ! c) = dspan2 c * 128"
    unfolding list_all_iff set_upt by (simp add: sum_list_distinct_conv_sum_set)
  have "sum_list (map lspan [0..<28]) = 256" "sum_list (map dspan [0..<16]) = 256" "sum_list (map dspan2 [16..<30]) = 254"
    by (simp_all add: lspan_def extra_lbits_def dspan_def dspan2_def extra_dbits_def upt_rec)
  then show "sum lspan {0..<28} = 256" "sum dspan {0..<16} = 256" "sum dspan2 {16..<30} = 254"
    by (simp_all only: interv_sum_list_conv_sum_set_nat set_upt)
qed

lemma extra_tables: "c < 29 \<Longrightarrow> cplext ! c = extra_lbits ! c" "cpdext = extra_dbits"
proof -
  have "take 29 cplext = extra_lbits" by (simp add: cplext_def extra_lbits_def)
  then show "c < 29 \<Longrightarrow> cplext ! c = extra_lbits ! c" by (metis nth_take)
qed (simp add: cpdext_def extra_dbits_def)

lemma length_tables_init_eq:
  "length_tables_init = (map (\<lambda>c. sum lspan {0..<c}) [0..<28] @ [0],
     (concat (map (\<lambda>c. replicate (lspan c) (of_nat c)) [0..<28]))[255 := 28])"
  using fold_spans [of 0 28 "\<lambda>x. x" lspan "of_nat :: nat \<Rightarrow> byte" "[]" "[]"] length_spans(2)
  by (simp add: length_tables_init_def LENGTH_CODES_def lspan_def [abs_def] length_concat comp_def sum_list_distinct_conv_sum_set)

lemma dist_tables_init_eq:
  "dist_tables_init = (map (\<lambda>c. sum dspan {0..<c}) [0..<16] @ map (\<lambda>c. (2 + sum dspan2 {16..<c}) * 128) [16..<30],
     concat (map (\<lambda>c. replicate (dspan c) (of_nat c)) [0..<16]) @ replicate 2 0 @
     concat (map (\<lambda>c. replicate (dspan2 c) (of_nat c)) [16..<30]))"
proof -
  let ?d = "concat (map (\<lambda>c. replicate (dspan c) (of_nat c)) [0..<16]) :: byte list"
  have l: "length ?d = 256"
    using length_spans(4) by (simp only: length_concat map_map comp_def length_replicate interv_sum_list_conv_sum_set_nat set_upt)
  have 1: "fold (\<lambda>code (base, dc). (base @ [length dc], dc @ replicate (2 ^ (extra_dbits ! code)) (of_nat code))) [0..<16] ([], []) =
      (map (\<lambda>c. sum dspan {0..<c}) [0..<16], ?d)"
    using fold_spans [of 0 16 "\<lambda>x. x" dspan "of_nat :: nat \<Rightarrow> byte" "[]" "[]"] by (simp add: dspan_def [abs_def])
  have 2: "fold (\<lambda>code (base, dc). (base @ [(length dc - 256) * 2 ^ 7], dc @ replicate (2 ^ (extra_dbits ! code - 7)) (of_nat code)))
      [16..<30] (bs, ?d @ replicate 2 0) =
      (bs @ map (\<lambda>c. (2 + sum dspan2 {16..<c}) * 128) [16..<30],
       (?d @ replicate 2 0) @ concat (map (\<lambda>c. replicate (dspan2 c) (of_nat c)) [16..<30]))" for bs
    using fold_spans [of 16 30 "\<lambda>x. (x - 256) * 2 ^ 7" dspan2 "of_nat :: nat \<Rightarrow> byte" bs "?d @ replicate 2 0"]
    unfolding length_append l length_replicate by (simp only: dspan2_def [abs_def]) simp
  have "length ?d div 2 ^ 7 = 2" unfolding l by simp
  then show ?thesis unfolding dist_tables_init_def 1 Let_def prod.case D_CODES_def by (simp only: 2 append_assoc)
qed

text \<open>What \<^verbatim>\<open>ct_init\<close> leaves in the tables.\<close>

definition tables_set :: "ct \<Rightarrow> bool" where
  "tables_set s \<longleftrightarrow> length_tables_init = (base_length s, length_code s) \<and> dist_tables_init = (base_dist s, dist_code s)"

lemma length_entry:
  assumes "tables_set s" "i < 256"
  defines "c \<equiv> unat (length_code s ! i)"
  shows "c < 29" "extra_lbits ! c = 0 \<Longrightarrow> cplens ! c = i + 3"
    "extra_lbits ! c \<noteq> 0 \<Longrightarrow> base_length s ! c \<le> i \<and> cplens ! c = base_length s ! c + 3 \<and> i - base_length s ! c < 2 ^ (extra_lbits ! c)"
proof -
  let ?l = "concat (map (\<lambda>c. replicate (lspan c) (of_nat c)) [0..<28]) :: byte list"
  have t: "base_length s = map (\<lambda>c. sum lspan {0..<c}) [0..<28] @ [0]" "length_code s = ?l[255 := 28]"
    using assms(1) by (simp_all add: tables_set_def length_tables_init_eq)
  have l: "length ?l = 256"
    using length_spans(2) by (simp only: length_concat map_map comp_def length_replicate interv_sum_list_conv_sum_set_nat set_upt)
  have "c < 29 \<and> (extra_lbits ! c = 0 \<longrightarrow> cplens ! c = i + 3) \<and>
    (extra_lbits ! c \<noteq> 0 \<longrightarrow> base_length s ! c \<le> i \<and> cplens ! c = base_length s ! c + 3 \<and> i - base_length s ! c < 2 ^ (extra_lbits ! c))"
  proof (cases "i = 255")
    case True
    then have "c = 28" using l by (simp add: c_def t(2))
    then show ?thesis using True by (simp add: extra_lbits_def cplens_def)
  next
    case False
    have "i < sum lspan {0..<28}" using assms(2) length_spans(2) by simp
    from spans_nth [OF this, of "of_nat :: nat \<Rightarrow> byte"] obtain k where
      k: "k < 28" "sum lspan {0..<k} \<le> i" "i < sum lspan {0..<k} + lspan k" "?l ! i = of_nat k" by blast
    have c: "c = k" using k(1,4) False by (simp add: c_def t(2) unat_of_nat)
    have "base_length s ! k = sum lspan {0..<k}" using k(1) unfolding t(1) by (simp add: nth_append)
    moreover have "lspan k = 2 ^ (extra_lbits ! k)" by (simp add: lspan_def)
    ultimately show ?thesis using k(1-3) length_spans(1) [OF k(1)] unfolding c by auto
  qed
  then show "c < 29" "extra_lbits ! c = 0 \<Longrightarrow> cplens ! c = i + 3"
    "extra_lbits ! c \<noteq> 0 \<Longrightarrow> base_length s ! c \<le> i \<and> cplens ! c = base_length s ! c + 3 \<and> i - base_length s ! c < 2 ^ (extra_lbits ! c)"
    by simp_all
qed

lemma dist_entry:
  assumes "tables_set s" "i < 32768"
  defines "c \<equiv> d_code s i"
  shows "c < 30" "base_dist s ! c \<le> i" "cpdist ! c = base_dist s ! c + 1" "i - base_dist s ! c < 2 ^ (extra_dbits ! c)"
proof -
  let ?d = "concat (map (\<lambda>c. replicate (dspan c) (of_nat c)) [0..<16]) :: byte list"
  let ?e = "concat (map (\<lambda>c. replicate (dspan2 c) (of_nat c)) [16..<30]) :: byte list"
  have t: "base_dist s = map (\<lambda>c. sum dspan {0..<c}) [0..<16] @ map (\<lambda>c. (2 + sum dspan2 {16..<c}) * 128) [16..<30]"
    "dist_code s = ?d @ replicate 2 0 @ ?e"
    using assms(1) by (simp_all add: tables_set_def dist_tables_init_eq)
  have l: "length ?d = 256"
    using length_spans(4) by (simp only: length_concat map_map comp_def length_replicate interv_sum_list_conv_sum_set_nat set_upt)
  have "c < 30 \<and> base_dist s ! c \<le> i \<and> cpdist ! c = base_dist s ! c + 1 \<and> i - base_dist s ! c < 2 ^ (extra_dbits ! c)"
  proof (cases "i < 256")
    case True
    then have "i < sum dspan {0..<16}" using length_spans(4) by simp
    from spans_nth [OF this, of "of_nat :: nat \<Rightarrow> byte"] obtain k where
      k: "k < 16" "sum dspan {0..<k} \<le> i" "i < sum dspan {0..<k} + dspan k" "?d ! i = of_nat k" by blast
    have "dist_code s ! i = of_nat k" using k(4) True l unfolding t(2) by (simp add: nth_append)
    then have c: "c = k" using True k(1) by (simp add: c_def d_code_def unat_of_nat)
    have "base_dist s ! k = sum dspan {0..<k}" using k(1) unfolding t(1) by (simp add: nth_append)
    then show ?thesis using k(1-3) length_spans(3) [OF k(1)] unfolding c by (auto simp: dspan_def)
  next
    case False
    let ?q = "i div 128"
    have q: "2 \<le> ?q" "?q < 256" "?q * 128 \<le> i" "i < ?q * 128 + 128" using False assms(2) by auto
    then have "?q - 2 < sum dspan2 {16..<30}" using length_spans(6) by simp
    from spans_nth [OF this, of "of_nat :: nat \<Rightarrow> byte"] obtain k where
      k: "16 \<le> k" "k < 30" "sum dspan2 {16..<k} \<le> ?q - 2" "?q - 2 < sum dspan2 {16..<k} + dspan2 k" "?e ! (?q - 2) = of_nat k" by blast
    have "dist_code s ! (256 + ?q) = of_nat k" using k(5) l q(1) unfolding t(2) by (simp add: nth_append)
    then have c: "c = k" using False k(2) by (simp add: c_def d_code_def unat_of_nat)
    have k16: "k - 16 < length [16..<30]" "16 + (k - 16) < 30" "16 + (k - 16) = k" using k(1,2) by (simp_all only: length_upt)
    have "base_dist s ! k = map (\<lambda>c. (2 + sum dspan2 {16..<c}) * 128) [16..<30] ! (k - 16)"
      using k(1) unfolding t(1) nth_append by (simp only: length_map length_upt) simp
    then have b: "base_dist s ! k = (2 + sum dspan2 {16..<k}) * 128"
      unfolding nth_map [OF k16(1)] nth_upt [OF k16(2)] k16(3) .
    have sp: "cpdist ! k = base_dist s ! k + 1" "2 ^ (extra_dbits ! k) = dspan2 k * 128"
      using length_spans(5) [OF k(1,2)] b by simp_all
    have "base_dist s ! k \<le> ?q * 128" "?q * 128 + 128 \<le> base_dist s ! k + dspan2 k * 128"
      using k(3,4) q(1) unfolding b by simp_all
    then have "base_dist s ! k \<le> i" "i - base_dist s ! k < dspan2 k * 128" using q(3,4) by linarith+
    then show ?thesis using k(2) sp unfolding c by simp
  qed
  then show "c < 30" "base_dist s ! c \<le> i" "cpdist ! c = base_dist s ! c + 1" "i - base_dist s ! c < 2 ^ (extra_dbits ! c)"
    by simp_all
qed

end
