(* ===== verification/SFI_Trees_Codes.thy ===== *)
theory SFI_Trees_Codes
  imports SFI_Trees_Items
begin

text \<open>
  The codes that \<^verbatim>\<open>gen_codes\<close> gives to the symbols of a tree are the canonical codes of its lengths, bit by
  bit those that the decoder reads, and \<^verbatim>\<open>send_code\<close> sends them.
\<close>

unbundle bit_operations_syntax

section \<open>The codes of a tree\<close>

definition tree_lengths :: "ct_tree \<Rightarrow> nat \<Rightarrow> nat list" where
  "tree_lengths t k = map (\<lambda>n. unat (Len (t n))) [0..<k]"

lemma tree_lengths_simps [simp]: "length (tree_lengths t k) = k" "n < k \<Longrightarrow> tree_lengths t k ! n = unat (Len (t n))"
  by (simp_all add: tree_lengths_def)

lemma tree_lengths_cong: "(\<And>n. n < k \<Longrightarrow> Len (t n) = Len (t' n)) \<Longrightarrow> tree_lengths t k = tree_lengths t' k"
  by (simp add: tree_lengths_def)

text \<open>The first code of a length.\<close>

definition code_start :: "(nat \<Rightarrow> nat) \<Rightarrow> nat \<Rightarrow> nat" where
  "code_start c l = (\<Sum>s = 1..<l. c s * 2 ^ (l - s))"

lemma code_start_Suc: "1 \<le> l \<Longrightarrow> code_start c (Suc l) = 2 * (code_start c l + c l)"
  by (simp add: code_start_def sum_distrib_left Suc_diff_le mult.left_commute)

lemma canon_code_start: "canon_code b t = code_start (count_list b) (b ! t) + count_list (take t b) (b ! t)"
  by (simp add: canon_code_def code_start_def)

lemma first_codes_ok:
  assumes "c 0 = 0" "\<And>l. 1 \<le> l \<Longrightarrow> l < m \<Longrightarrow> c l = of_nat (f l)" "1 \<le> a" "code = of_nat (code_start f (a - 1))"
  shows "first_codes c [a..<m] code nc l = (if a \<le> l \<and> l < m then of_nat (code_start f l) else nc l)"
  using assms(3,4)
proof (induction "m - a" arbitrary: a code nc)
  case (Suc d)
  have am: "a < m" using Suc.hyps(2) by simp
  have s: "push_bit 1 (code + c (a - 1)) = of_nat (code_start f a)"
  proof (cases "a = 1")
    case True
    then show ?thesis using Suc.prems(2) assms(1) by (simp add: code_start_def)
  next
    case False
    then have "code_start f a = 2 * (code_start f (a - 1) + f (a - 1))"
      using code_start_Suc [of "a - 1" f] Suc.prems(1) by simp
    then show ?thesis using Suc.prems assms(2) [of "a - 1"] False am by (simp add: push_bit_eq_mult)
  qed
  have "first_codes c [a..<m] code nc l = first_codes c [Suc a..<m] (of_nat (code_start f a)) (nc(a := of_nat (code_start f a))) l"
    using am s by (simp add: upt_conv_Cons Let_def)
  then show ?case using Suc.hyps(1) [of "Suc a"] Suc.hyps(2) am by auto
qed auto

lemma give_codes_ok:
  assumes "\<And>n. n < k \<Longrightarrow> unat (Len (t n)) = b ! n" "length b = k" "i \<le> k"
    and "\<And>l. 1 \<le> l \<Longrightarrow> l \<le> 15 \<Longrightarrow> nc l = of_nat (code_start f l + count_list (take i b) l)" "\<And>l. l \<in> set b \<Longrightarrow> l \<le> 15"
  shows "give_codes [i..<k] nc t n = (if i \<le> n \<and> n < k \<and> b ! n \<noteq> 0
    then (t n)\<lparr>fc := ucast (bi_reverse (ucast (of_nat (code_start f (b ! n) + count_list (take n b) (b ! n)) :: 16 word)) (b ! n))\<rparr> else t n)"
  using assms(1,3,4)
proof (induction "k - i" arbitrary: i nc t)
  case (Suc d)
  have ik: "i < k" using Suc.hyps(2) by simp
  have h: "unat (Len (t i)) = b ! i" "b ! i \<le> 15" using Suc.prems(1) ik assms(2,5) by simp_all
  have tk: "take (Suc i) b = take i b @ [b ! i]" using ik assms(2) by (simp add: take_Suc_conv_app_nth)
  show ?case
  proof (cases "b ! i = 0")
    case True
    have "give_codes [i..<k] nc t n = give_codes [Suc i..<k] nc t n" using ik h True by (simp add: upt_conv_Cons)
    also have "\<dots> = (if Suc i \<le> n \<and> n < k \<and> b ! n \<noteq> 0
      then (t n)\<lparr>fc := ucast (bi_reverse (ucast (of_nat (code_start f (b ! n) + count_list (take n b) (b ! n)) :: 16 word)) (b ! n))\<rparr> else t n)"
      by (rule Suc.hyps(1)) (use Suc.hyps(2) Suc.prems ik True tk in auto)
    finally show ?thesis using True by (auto simp: le_less Suc_le_eq)
  next
    case False
    let ?nc = "nc(b ! i := nc (b ! i) + 1)" and ?t = "set_fc i (ucast (bi_reverse (ucast (nc (b ! i))) (b ! i))) t"
    have nc: "nc (b ! i) = of_nat (code_start f (b ! i) + count_list (take i b) (b ! i))" using Suc.prems(3) [of "b ! i"] h False by simp
    have "give_codes [i..<k] nc t n = give_codes [Suc i..<k] ?nc ?t n" using ik h False by (simp add: upt_conv_Cons Let_def)
    also have "\<dots> = (if Suc i \<le> n \<and> n < k \<and> b ! n \<noteq> 0
      then (?t n)\<lparr>fc := ucast (bi_reverse (ucast (of_nat (code_start f (b ! n) + count_list (take n b) (b ! n)) :: 16 word)) (b ! n))\<rparr> else ?t n)"
    proof (rule Suc.hyps(1))
      show "?nc l = of_nat (code_start f l + count_list (take (Suc i) b) l)" if "1 \<le> l" "l \<le> 15" for l
        using Suc.prems(3) [OF that] nc unfolding tk by (simp add: algebra_simps)
    qed (use Suc.hyps(2) Suc.prems ik in \<open>auto simp: set_fc_def\<close>)
    finally show ?thesis using False ik by (auto simp: set_fc_def le_less Suc_le_eq nc)
  qed
qed auto

section \<open>The codes as bits\<close>

text \<open>The codes in a tree are the canonical ones of the lengths \<open>b\<close>.\<close>

definition coded :: "ct_tree \<Rightarrow> nat list \<Rightarrow> bool" where
  "coded t b \<longleftrightarrow> (\<forall>n < length b. unat (Len (t n)) = b ! n \<and> b ! n \<le> 15 \<and> (b ! n \<noteq> 0 \<longrightarrow>
     take_bit (b ! n) (ucast (Code (t n)) :: u32) = ucast (Code (t n)) \<and> bits_of (b ! n) (ucast (Code (t n)) :: u32) = canon_bits b n))"

lemma reversed_code:
  assumes "1 \<le> l" "l \<le> 15" "Code x = ucast (bi_reverse (ucast (of_nat c :: 16 word)) l)"
  shows "take_bit l (ucast (Code x) :: u32) = ucast (Code x)" "bits_of l (ucast (Code x) :: u32) = map (\<lambda>i. bit c (l - 1 - i)) [0..<l]"
proof -
  have b: "bit (ucast (Code x) :: u32) i \<longleftrightarrow> i < l \<and> bit c (l - 1 - i)" for i
    using assms(1,2) unfolding assms(3) bit_ucast_iff by (auto simp: bi_reverse_bits bit_of_nat_iff bit_ucast_iff possible_bit_word)
  show "take_bit l (ucast (Code x) :: u32) = ucast (Code x)" by (rule bit_word_eqI) (auto simp: bit_take_bit_iff b)
  show "bits_of l (ucast (Code x) :: u32) = map (\<lambda>i. bit c (l - 1 - i)) [0..<l]" by (rule nth_equalityI) (auto simp: b)
qed

lemma gen_codes_ok:
  assumes "k = nat (max_code + 1)" "\<And>n. n < k \<Longrightarrow> unat (Len (t n)) \<le> 15" "c 0 = 0"
    and "\<And>l. 1 \<le> l \<Longrightarrow> l \<le> 15 \<Longrightarrow> c l = of_nat (count_list (tree_lengths t k) l)"
  shows "coded (gen_codes c t max_code) (tree_lengths t k)" "Len (gen_codes c t max_code n) = Len (t n)"
    "k \<le> n \<Longrightarrow> gen_codes c t max_code n = t n"
proof -
  let ?b = "tree_lengths t k" and ?t = "gen_codes c t max_code"
  let ?f = "count_list ?b"
  have "first_codes c [1..<16] 0 (\<lambda>_. 0) l = (if 1 \<le> l \<and> l < 16 then of_nat (code_start ?f l) else 0)" for l
    by (rule first_codes_ok) (use assms(3,4) in \<open>auto simp: code_start_def\<close>)
  then have nc: "first_codes c [1..<MAX_BITS + 1] 0 (\<lambda>_. 0) l = of_nat (code_start ?f l + count_list (take 0 ?b) l)"
    if "1 \<le> l" "l \<le> 15" for l using that by (simp add: MAX_BITS_def)
  have le: "l \<le> 15" if "l \<in> set ?b" for l using that assms(2) by (auto simp: tree_lengths_def)
  have e: "?t n = (if n < k \<and> ?b ! n \<noteq> 0
    then (t n)\<lparr>fc := ucast (bi_reverse (ucast (of_nat (canon_code ?b n) :: 16 word)) (?b ! n))\<rparr> else t n)" for n
    unfolding gen_codes_def assms(1) [symmetric] canon_code_start
    by (subst give_codes_ok [of k t ?b 0 _ ?f, OF _ _ _ nc le]) auto
  show "Len (?t n) = Len (t n)" by (simp add: e)
  show "k \<le> n \<Longrightarrow> ?t n = t n" by (simp add: e)
  show "coded ?t ?b" unfolding coded_def
  proof (intro allI impI conjI)
    fix n assume n: "n < length ?b"
    show "unat (Len (?t n)) = ?b ! n" "?b ! n \<le> 15" using n assms(2) by (simp_all add: e)
    assume z: "?b ! n \<noteq> 0"
    have c: "Code (?t n) = ucast (bi_reverse (ucast (of_nat (canon_code ?b n) :: 16 word)) (?b ! n))" using n z by (simp add: e)
    show "take_bit (?b ! n) (ucast (Code (?t n)) :: u32) = ucast (Code (?t n))"
      "bits_of (?b ! n) (ucast (Code (?t n)) :: u32) = canon_bits ?b n"
      using reversed_code [OF _ _ c] z \<open>?b ! n \<le> 15\<close> by (simp_all add: canon_bits_def)
  qed
qed

lemma send_code_sends:
  assumes "io_ok S" "bi_inv g" "coded t b" "n < length b" "b ! n \<noteq> 0"
  shows "sends False (send_code S n t g) g (canon_bits b n)"
proof -
  have "unat (Len (t n)) = b ! n" "b ! n \<le> 15" "take_bit (b ! n) (ucast (Code (t n)) :: u32) = ucast (Code (t n))"
    "bits_of (b ! n) (ucast (Code (t n)) :: u32) = canon_bits b n" using assms(3-5) by (auto simp: coded_def)
  then show ?thesis using send_bits_sends [OF assms(1,2), of "b ! n" "ucast (Code (t n))"] assms(5) by (simp add: send_code_def)
qed

end
