(* ===== verification/SFI_Trees_Block.thy ===== *)
theory SFI_Trees_Block
  imports SFI_Trees_Codes
begin

text \<open>
  The data of a block: \<^verbatim>\<open>ct_tally\<close> records literals and matches, \<^verbatim>\<open>compress_block\<close> sends the ones that were
  recorded. An item is a pair as \<^verbatim>\<open>ct_tally\<close> takes it: a distance (zero for a literal) and a byte, the
  literal or the length of the match less three.
\<close>

unbundle bit_operations_syntax

type_synonym item = "nat \<times> byte"

section \<open>Items as tokens\<close>

definition item_token :: "ct \<Rightarrow> item \<Rightarrow> token" where
  "item_token s it = (case it of (dist, lc) \<Rightarrow> if dist = 0 then Lit lc else
     let i = unat lc; c = unat (length_code s ! i); d = d_code s (dist - 1)
     in Match c (if extra_lbits ! c = 0 then 0 else i - base_length s ! c) d (dist - 1 - base_dist s ! d))"

fun items_expand :: "item list \<Rightarrow> byte list \<Rightarrow> byte list" where
  "items_expand [] H = H"
| "items_expand ((dist, lc) # its) H = items_expand its (if dist = 0 then H @ [lc] else lz_copy (unat lc + 3) dist H)"

lemma items_expand_append: "items_expand (is @ js) H = items_expand js (items_expand is H)"
  by (induction "is" H rule: items_expand.induct) simp_all

lemma item_token_match:
  assumes "tables_set s" "dist \<noteq> 0" "dist \<le> 32768"
  obtains c x d y where "item_token s (dist, lc) = Match c x d y" "c = unat (length_code s ! unat lc)" "d = d_code s (dist - 1)"
    "extra_lbits ! c \<noteq> 0 \<Longrightarrow> x = unat lc - base_length s ! c" "extra_dbits ! d \<noteq> 0 \<Longrightarrow> y = dist - 1 - base_dist s ! d"
    "c < 29" "x < 2 ^ (cplext ! c)" "d < 30" "y < 2 ^ (cpdext ! d)" "match_len c x = unat lc + 3" "match_dist d y = dist"
proof -
  let ?c = "unat (length_code s ! unat lc)" and ?d = "d_code s (dist - 1)"
  have b: "unat lc < 256" "dist - 1 < 32768" using unsigned_less [of lc] assms by simp_all
  note l = length_entry [OF assms(1) b(1)] and d = dist_entry [OF assms(1) b(2)]
  show ?thesis
  proof (rule that [of ?c "if extra_lbits ! ?c = 0 then 0 else unat lc - base_length s ! ?c" ?d "dist - 1 - base_dist s ! ?d"])
    show "(if extra_lbits ! ?c = 0 then 0 else unat lc - base_length s ! ?c) < 2 ^ (cplext ! ?c)"
      using l extra_tables(1) [OF l(1)] by simp
    show "match_len ?c (if extra_lbits ! ?c = 0 then 0 else unat lc - base_length s ! ?c) = unat lc + 3"
      using l by (simp add: match_len_def)
    show "match_dist ?d (dist - 1 - base_dist s ! ?d) = dist" using d assms(2) by (simp add: match_dist_def)
    show "dist - 1 - base_dist s ! ?d < 2 ^ (cpdext ! ?d)" using d by (simp add: extra_tables(2))
  qed (use assms(2) l(1) d(1) in \<open>simp_all add: item_token_def Let_def\<close>)
qed

definition near :: "item \<Rightarrow> bool" where "near it \<longleftrightarrow> fst it \<le> 32768"

lemma expand_items:
  assumes "tables_set s" "\<forall>it \<in> set its. near it"
  shows "expand (map (item_token s) its) H = items_expand its H"
  using assms(2)
proof (induction its H rule: items_expand.induct)
  case (2 dist lc its H)
  show ?case
  proof (cases "dist = 0")
    case True
    then show ?thesis using 2 by (simp add: item_token_def)
  next
    case False
    have "dist \<le> 32768" using 2(2) by (simp add: near_def)
    then obtain c x d y where "item_token s (dist, lc) = Match c x d y" "match_len c x = unat lc + 3" "match_dist d y = dist"
      using item_token_match [OF assms(1) False, of lc thesis] by blast
    then show ?thesis using 2 False by simp
  qed
qed simp

section \<open>Sending items\<close>

text \<open>The symbols of a token have codes.\<close>

fun has_codes :: "nat list \<Rightarrow> nat list \<Rightarrow> token \<Rightarrow> bool" where
  "has_codes lb db (Lit c) \<longleftrightarrow> unat c < length lb \<and> lb ! unat c \<noteq> 0"
| "has_codes lb db (Match lc x dc y) \<longleftrightarrow> 257 + lc < length lb \<and> lb ! (257 + lc) \<noteq> 0 \<and> dc < length db \<and> db ! dc \<noteq> 0"

lemma send_extra_sends:
  assumes "io_ok S" "bi_inv g" "n \<le> 16" "x < 2 ^ n" "n \<noteq> 0 \<Longrightarrow> z = x"
  shows "sends False (if n \<noteq> 0 then send_bits S (of_nat z) n g else Return () g) g (bits_of n (of_nat x :: u32))"
proof (cases "n = 0")
  case False
  have "take_bit n (of_nat x :: u32) = of_nat x" using assms(4) by (simp add: take_bit_of_nat take_bit_nat_eq_self)
  then show ?thesis using send_bits_sends [OF assms(1,2), of n "of_nat x"] assms(3,5) False by simp
qed (simp add: sends_Nil assms(2))

lemma sends_bind': "sends False r g xs \<Longrightarrow> (\<And>h. bi_inv h \<Longrightarrow> sends al (k h) h ys) \<Longrightarrow> sends al (out_bind r (\<lambda>_. k)) g (xs @ ys)"
  by (rule sends_bind)

lemma send_match_sends:
  assumes io: "io_ok S" and g: "bi_inv g" and t: "tables_set s" "coded lt lb" "coded dt db" and d: "dist \<noteq> 0" "dist \<le> 32768"
    and h: "has_codes lb db (item_token s (dist, lc))"
  shows "sends False (send_match S s lt dt (unat lc) (dist - 1) g) g (token_bits lb db (item_token s (dist, lc)))"
proof -
  obtain c x d y where m: "item_token s (dist, lc) = Match c x d y" "c = unat (length_code s ! unat lc)" "d = d_code s (dist - 1)"
    "extra_lbits ! c \<noteq> 0 \<Longrightarrow> unat lc - base_length s ! c = x" "extra_dbits ! d \<noteq> 0 \<Longrightarrow> dist - 1 - base_dist s ! d = y"
    "c < 29" "x < 2 ^ (cplext ! c)" "d < 30" "y < 2 ^ (cpdext ! d)"
    by (rule item_token_match [OF t(1) d, of lc]) (auto dest: sym)
  have e: "cplext ! c = extra_lbits ! c" "cpdext ! d = extra_dbits ! d" "extra_lbits ! c \<le> 16" "extra_dbits ! d \<le> 16"
    using extra_tables m(6,8) length_tables(1) [OF m(6)] length_tables(2) [OF m(8)] by simp_all
  have c: "c + LITERALS + 1 = 257 + c" by (simp add: LITERALS_def)
  have hc: "257 + c < length lb" "lb ! (257 + c) \<noteq> 0" "d < length db" "db ! d \<noteq> 0" using h unfolding m(1) by simp_all
  note 1 = send_code_sends [OF io _ t(2) hc(1,2)] and 2 = send_code_sends [OF io _ t(3) hc(3,4)]
  have 3: "sends False (if extra_lbits ! c \<noteq> 0 then send_bits S (of_nat (unat lc - base_length s ! c)) (extra_lbits ! c) g' else Return () g')
      g' (bits_of (extra_lbits ! c) (of_nat x :: u32))" if "bi_inv g'" for g'
    by (rule send_extra_sends [OF io that e(3)]) (use m(4,7) e(1) in simp_all)
  have 4: "sends False (if extra_dbits ! d \<noteq> 0 then send_bits S (of_nat (dist - 1 - base_dist s ! d)) (extra_dbits ! d) g' else Return () g')
      g' (bits_of (extra_dbits ! d) (of_nat y :: u32))" if "bi_inv g'" for g'
    by (rule send_extra_sends [OF io that e(4)]) (use m(5,9) e(2) in simp_all)
  show ?thesis
    unfolding send_match_def Let_def m(1) token_bits.simps m(2) [symmetric] m(3) [symmetric] c e(1,2)
    by (intro sends_bind' 1 2 3 4) (use g in assumption)+
qed

text \<open>The buffers of the state hold the items.\<close>

definition matches :: "item list \<Rightarrow> item list" where "matches its = filter (\<lambda>it. fst it \<noteq> 0) its"

definition holds :: "ct \<Rightarrow> item list \<Rightarrow> bool" where
  "holds s its \<longleftrightarrow> last_lit s = length its \<and> (\<forall>i < length its. l_buf s i = snd (its ! i)) \<and>
     (\<forall>i < length its. bit (flag_buf s (i div 8)) (i mod 8) \<longleftrightarrow> fst (its ! i) \<noteq> 0) \<and>
     (\<forall>j < length (matches its). d_buf s j = of_nat (fst (matches its ! j) - 1))"

lemma matches_at:
  assumes "i < length its" "fst (its ! i) \<noteq> 0"
  shows "length (matches (take i its)) < length (matches its)" "matches its ! length (matches (take i its)) = its ! i"
    "length (matches (take (Suc i) its)) = Suc (length (matches (take i its)))"
proof -
  have "matches its = matches (take i its) @ its ! i # matches (drop (Suc i) its)"
    using assms(2) by (subst id_take_nth_drop [OF assms(1)]) (simp add: matches_def)
  then show "length (matches (take i its)) < length (matches its)" "matches its ! length (matches (take i its)) = its ! i" by simp_all
  show "length (matches (take (Suc i) its)) = Suc (length (matches (take i its)))"
    using assms by (simp add: matches_def take_Suc_conv_app_nth)
qed

lemma next_octet:
  fixes i :: nat
  assumes "i mod 8 \<noteq> 0" shows "(i + 7) div 8 = (Suc i + 7) div 8"
proof -
  have "i + 7 = (i mod 8 - 1) + (i div 8 + 1) * 8" using assms div_mult_mod_eq [of i 8] by simp
  also have "\<dots> div 8 = i div 8 + 1" by (subst div_mult_self1) auto
  finally show ?thesis by simp
qed

lemma send_items_sends:
  assumes io: "io_ok S" and t: "tables_set s" "coded lt lb" "coded dt db" and s: "holds s its"
    and h: "\<forall>it \<in> set its. near it \<and> has_codes lb db (item_token s it)"
  shows "bi_inv g \<Longrightarrow> i \<le> length its \<Longrightarrow> dx = length (matches (take i its)) \<Longrightarrow> fx = (i + 7) div 8 \<Longrightarrow>
    (i mod 8 \<noteq> 0 \<Longrightarrow> flag = drop_bit (i mod 8) (flag_buf s (i div 8))) \<Longrightarrow>
    sends False (send_items S s lt dt [i..<length its] dx fx flag g) g (concat (map (\<lambda>it. token_bits lb db (item_token s it)) (drop i its)))"
proof (induction "length its - i" arbitrary: i dx fx flag g)
  case 0
  then show ?case by (simp add: sends_Nil)
next
  case (Suc n)
  have i: "i < length its" using Suc.hyps(2) by simp
  obtain dist lc where it: "its ! i = (dist, lc)" by fastforce
  have it': "near (its ! i)" "has_codes lb db (item_token s (its ! i))" using h i by simp_all
  let ?flag = "drop_bit (i mod 8) (flag_buf s (i div 8))" and ?fx = "(Suc i + 7) div 8"
  have fl: "(if i mod 8 = 0 then (flag_buf s fx, fx + 1) else (flag, fx)) = (?flag, ?fx)"
  proof (cases "i mod 8 = 0")
    case True
    then obtain q where "i = 8 * q" by blast
    then have "(i + 7) div 8 = i div 8" "fx + 1 = ?fx" using Suc.prems(4) by simp_all
    then show ?thesis using Suc.prems(4) True by simp
  next
    case False
    then have "fx = ?fx" using Suc.prems(4) next_octet by simp
    then show ?thesis using Suc.prems(5) False by simp
  qed
  have hs: "l_buf s i = lc" "bit (flag_buf s (i div 8)) (i mod 8) \<longleftrightarrow> dist \<noteq> 0"
    using s [unfolded holds_def] i it by (metis fst_conv snd_conv)+
  have b: "?flag AND 1 = 0 \<longleftrightarrow> dist = 0" 
    using hs(2) unfolding bit_iff_odd_drop_bit by (auto simp: and_one_eq simp flip: even_iff_mod_2_eq_zero)
  have nx: "drop_bit 1 ?flag = drop_bit (Suc i mod 8) (flag_buf s (Suc i div 8))" if "Suc i mod 8 \<noteq> 0"
    using that by (simp add: mod_Suc div_Suc split: if_splits)
  have IH: "sends False (send_items S s lt dt [Suc i..<length its] dx' ?fx (drop_bit 1 ?flag) h) h
      (concat (map (\<lambda>it. token_bits lb db (item_token s it)) (drop (Suc i) its)))"
    if "bi_inv h" "dx' = length (matches (take (Suc i) its))" for h dx'
    by (rule Suc.hyps(1)) (use Suc.hyps(2) that i nx in auto)
  have up: "[i..<length its] = i # [Suc i..<length its]" "drop i its = its ! i # drop (Suc i) its"
    using i by (simp_all add: upt_conv_Cons Cons_nth_drop_Suc)
  show ?case
  proof (cases "dist = 0")
    case True
    have "dx = length (matches (take (Suc i) its))" using Suc.prems(3) i it True by (simp add: take_Suc_conv_app_nth matches_def)
    then have "sends False (out_bind (send_code S (unat lc) lt g) (\<lambda>_. send_items S s lt dt [Suc i..<length its] dx ?fx (drop_bit 1 ?flag))) g
      (canon_bits lb (unat lc) @ concat (map (\<lambda>it. token_bits lb db (item_token s it)) (drop (Suc i) its)))"
      by (intro sends_bind' send_code_sends [OF io Suc.prems(1) t(2)] IH) (use it' it True in \<open>auto simp: item_token_def\<close>)
    then show ?thesis unfolding up send_items.simps fl Let_def prod.case b
      using True by (simp add: hs(1) it item_token_def)
  next
    case False
    have d: "dist \<le> 32768" using it' it by (simp add: near_def)
    have f: "fst (its ! i) \<noteq> 0" using it False by simp
    have "d_buf s dx = of_nat (dist - 1)" using s [unfolded holds_def] matches_at(1,2) [OF i f] it Suc.prems(3) by (metis fst_conv)
    then have db: "unat (d_buf s dx) = dist - 1" using d by (simp add: unat_of_nat)
    have "dx + 1 = length (matches (take (Suc i) its))" using matches_at(3) [OF i f] Suc.prems(3) by simp
    then have "sends False (out_bind (send_match S s lt dt (unat lc) (dist - 1) g)
        (\<lambda>_. send_items S s lt dt [Suc i..<length its] (dx + 1) ?fx (drop_bit 1 ?flag))) g
      (token_bits lb db (item_token s (dist, lc)) @ concat (map (\<lambda>it. token_bits lb db (item_token s it)) (drop (Suc i) its)))"
      by (intro sends_bind' send_match_sends [OF io Suc.prems(1) t False d] IH) (use it' it in auto)
    then show ?thesis unfolding up send_items.simps fl Let_def prod.case b
      using False by (simp add: hs(1) it db)
  qed
qed

lemma compress_block_sends:
  assumes io: "io_ok S" and g: "bi_inv g" and t: "tables_set s" "coded lt lb" "coded dt db" and s: "holds s its"
    and h: "\<forall>it \<in> set its. near it \<and> has_codes lb db (item_token s it)" "256 < length lb" "lb ! 256 \<noteq> 0"
  shows "sends False (compress_block S s lt dt g) g (tokens_bits lb db (map (item_token s) its))"
proof -
  have l: "last_lit s = length its" using s by (simp add: holds_def)
  show ?thesis
    unfolding compress_block_def tokens_bits_def map_map comp_def l END_BLOCK_def
    by (intro sends_bind' send_code_sends [OF io _ t(2)])
      (use send_items_sends [OF io t s h(1) g, of 0 0 0 0] h(2,3) in \<open>auto simp: matches_def\<close>)
qed

section \<open>Recording items\<close>

text \<open>The flags that were recorded: those of the last, incomplete octet are in the state.\<close>

definition flags_hold :: "ct \<Rightarrow> bool list \<Rightarrow> bool" where
  "flags_hold s fs \<longleftrightarrow> last_lit s = length fs \<and> last_flags s = length fs div 8 \<and> flag_bit s = push_bit (length fs mod 8) 1 \<and>
     (\<forall>i < length fs. bit (if i div 8 = length fs div 8 then flags s else flag_buf s (i div 8)) (i mod 8) \<longleftrightarrow> fs ! i) \<and>
     (\<forall>j \<ge> length fs mod 8. \<not> bit (flags s) j)"

lemma flags_tally:
  assumes "flags_hold s fs"
  shows "flags_hold (tally_flags (s\<lparr>last_lit := Suc (last_lit s), flags := (if f then flags s OR flag_bit s else flags s)\<rparr>)) (fs @ [f])"
proof -
  let ?n = "length fs"
  define F where "F = (if f then flags s OR flag_bit s else flags s)"
  have h: "last_lit s = ?n" "last_flags s = ?n div 8" "flag_bit s = push_bit (?n mod 8) 1"
    "\<And>i. i < ?n \<Longrightarrow> bit (if i div 8 = ?n div 8 then flags s else flag_buf s (i div 8)) (i mod 8) \<longleftrightarrow> fs ! i"
    "\<And>j. ?n mod 8 \<le> j \<Longrightarrow> \<not> bit (flags s) j" using assms unfolding flags_hold_def by blast+
  have b: "bit F j \<longleftrightarrow> bit (flags s) j \<or> f \<and> j = ?n mod 8" for j
    by (auto simp: F_def h(3) bit_or_iff bit_exp_iff possible_bit_word)
  have o: "bit (if i div 8 = ?n div 8 then F else flag_buf s (i div 8)) (i mod 8) \<longleftrightarrow> (fs @ [f]) ! i" if "i < Suc ?n" for i
  proof (cases "i = ?n")
    case True
    then show ?thesis using h(5) [of "?n mod 8"] by (simp add: b)
  next
    case False
    then have i: "i < ?n" using that by simp
    have "i mod 8 \<noteq> ?n mod 8" if "i div 8 = ?n div 8" using that False by (metis div_mult_mod_eq)
    then show ?thesis using h(4) [OF i] i by (cases "i div 8 = ?n div 8") (simp_all only: if_True if_False b nth_append simp_thms)
  qed
  have o': "i div 8 = ?n div 8 \<Longrightarrow> i < Suc ?n \<Longrightarrow> bit F (i mod 8) \<longleftrightarrow> (fs @ [f]) ! i"
    "i div 8 \<noteq> ?n div 8 \<Longrightarrow> i < Suc ?n \<Longrightarrow> bit (flag_buf s (i div 8)) (i mod 8) \<longleftrightarrow> (fs @ [f]) ! i" for i
    using o [of i] by simp_all
  have u: "\<not> bit F j" if "Suc (?n mod 8) \<le> j" for j using h(5) [of j] that unfolding b by simp
  have "flags_hold (tally_flags (s\<lparr>last_lit := Suc (last_lit s), flags := F\<rparr>)) (fs @ [f])" (is ?goal)
  proof (cases "Suc ?n mod 8 = 0")
    case True
    then have d: "Suc ?n div 8 = Suc (?n div 8)" by (simp add: div_Suc)
    have "i div 8 \<noteq> Suc ?n div 8" if "i < Suc ?n" for i
      using that True by (metis less_not_refl mult_div_mod_eq add_0_right le_less_trans times_div_less_eq_dividend)
    then show ?goal using o' True d h(1,2) by (auto simp: flags_hold_def tally_flags_def Let_def)
  next
    case False
    then have d: "Suc ?n div 8 = ?n div 8" "Suc ?n mod 8 = Suc (?n mod 8)" by (simp_all add: div_Suc mod_Suc split: if_splits)
    have e: "tally_flags (s\<lparr>last_lit := Suc (last_lit s), flags := F\<rparr>) =
        s\<lparr>last_lit := Suc ?n, flags := F, flag_bit := push_bit 1 (flag_bit s)\<rparr>"
      using False h(1) by (simp add: tally_flags_def)
    show ?goal unfolding e flags_hold_def
      using o' u d h(2,3) by (simp add: push_bit_push_bit)
  qed
  then show ?thesis by (simp only: F_def)
qed

text \<open>The symbols of the items, and how often each was counted; the end of the block counts once.\<close>

definition lit_symbol :: "ct \<Rightarrow> item \<Rightarrow> nat" where
  "lit_symbol s it = (if fst it = 0 then unat (snd it) else unat (length_code s ! unat (snd it)) + 257)"

definition dist_symbol :: "ct \<Rightarrow> item \<Rightarrow> nat" where
  "dist_symbol s it = d_code s (fst it - 1)"

definition counted :: "ct \<Rightarrow> item list \<Rightarrow> bool" where
  "counted s its \<longleftrightarrow>
     (\<forall>n < L_CODES. Freq (dyn_ltree s n) = of_nat (count_list (map (lit_symbol s) its) n + of_bool (n = END_BLOCK))) \<and>
     (\<forall>n < D_CODES. Freq (dyn_dtree s n) = of_nat (count_list (map (dist_symbol s) (matches its)) n))"

definition recorded :: "ct \<Rightarrow> item list \<Rightarrow> bool" where
  "recorded s its \<longleftrightarrow> flags_hold s (map (\<lambda>it. fst it \<noteq> 0) its) \<and> (\<forall>i < length its. l_buf s i = snd (its ! i)) \<and>
     last_dist s = length (matches its) \<and> (\<forall>j < length (matches its). d_buf s j = of_nat (fst (matches its ! j) - 1)) \<and> counted s its"

lemma fold_set_fc: "fold (\<lambda>n. set_fc n x) [0..<k] t = (\<lambda>n. if n < k then (t n)\<lparr>fc := x\<rparr> else t n)"
  by (induction k) (auto simp: set_fc_def fun_eq_iff less_Suc_eq)

lemma init_block_recorded: "recorded (init_block s) []"
  by (simp add: recorded_def flags_hold_def counted_def init_block_def matches_def fold_set_fc)
    (simp add: set_fc_def END_BLOCK_def)

lemma inc_freq_at: "Freq (inc_freq n t m) = Freq (t m) + of_bool (m = n)" "Len (inc_freq n t m) = Len (t m)"
  by (simp_all add: inc_freq_def set_fc_def)

lemma flags_hold_cong:
  "last_lit s' = last_lit s \<Longrightarrow> last_flags s' = last_flags s \<Longrightarrow> flag_bit s' = flag_bit s \<Longrightarrow> flags s' = flags s \<Longrightarrow>
    flag_buf s' = flag_buf s \<Longrightarrow> flags_hold s' fs = flags_hold s fs"
  by (simp add: flags_hold_def)

text \<open>The fields that the tables and the choice of the block use.\<close>

definition same_tables :: "ct \<Rightarrow> ct \<Rightarrow> bool" where
  "same_tables s s' \<longleftrightarrow> length_code s' = length_code s \<and> dist_code s' = dist_code s \<and> base_length s' = base_length s \<and>
     base_dist s' = base_dist s \<and> static_ltree s' = static_ltree s \<and> static_dtree s' = static_dtree s"

lemma same_tablesD:
  assumes "same_tables s s'"
  shows "lit_symbol s' = lit_symbol s" "dist_symbol s' = dist_symbol s" "item_token s' = item_token s" "tables_set s' = tables_set s"
    "static_ltree s' = static_ltree s" "static_dtree s' = static_dtree s"
proof -
  have e: "length_code s' = length_code s" "dist_code s' = dist_code s" "base_length s' = base_length s" "base_dist s' = base_dist s"
    using assms by (simp_all add: same_tables_def)
  show "lit_symbol s' = lit_symbol s" "dist_symbol s' = dist_symbol s" "item_token s' = item_token s" "tables_set s' = tables_set s"
    by (rule ext, simp only: lit_symbol_def dist_symbol_def item_token_def d_code_def e)+ (simp only: tables_set_def e)
qed (use assms in \<open>simp_all add: same_tables_def\<close>)

lemma tally_flags_simps:
  "dyn_ltree (tally_flags s) = dyn_ltree s" "dyn_dtree (tally_flags s) = dyn_dtree s" "l_buf (tally_flags s) = l_buf s"
  "d_buf (tally_flags s) = d_buf s" "last_dist (tally_flags s) = last_dist s" "same_tables s (tally_flags s)"
  by (simp_all add: tally_flags_def Let_def same_tables_def)

lemma matches_snoc: "matches (its @ [it]) = matches its @ (if fst it \<noteq> 0 then [it] else [])"
  by (simp add: matches_def)

lemma ct_tally_recorded:
  assumes "recorded s its"
  shows "recorded (snd (ct_tally level n dist lc s)) (its @ [(dist, lc)])" "same_tables s (snd (ct_tally level n dist lc s))"
proof -
  let ?f = "dist \<noteq> 0" and ?fs = "map (\<lambda>it. fst it \<noteq> 0) its"
  have h: "flags_hold s ?fs" "\<And>i. i < length its \<Longrightarrow> l_buf s i = snd (its ! i)" "last_dist s = length (matches its)"
    "\<And>j. j < length (matches its) \<Longrightarrow> d_buf s j = of_nat (fst (matches its ! j) - 1)" "counted s its"
    using assms by (simp_all add: recorded_def)
  have l: "last_lit s = length its" using h(1) by (simp add: flags_hold_def)
  define X where "X = (if ?f then s\<lparr>l_buf := (l_buf s)(last_lit s := lc),
      dyn_ltree := inc_freq (unat (length_code s ! unat lc) + LITERALS + 1) (dyn_ltree s),
      dyn_dtree := inc_freq (d_code s (dist - 1)) (dyn_dtree s),
      d_buf := (d_buf s)(last_dist s := of_nat (dist - 1)), last_dist := last_dist s + 1\<rparr>
    else s\<lparr>l_buf := (l_buf s)(last_lit s := lc), dyn_ltree := inc_freq (unat lc) (dyn_ltree s)\<rparr>)"
  let ?Y = "X\<lparr>last_lit := Suc (last_lit X), flags := (if ?f then flags X OR flag_bit X else flags X)\<rparr>"
  have e: "tally_item dist lc s = ?Y" by (simp add: tally_item_def X_def Let_def d_code_def)
  have t: "snd (ct_tally level n dist lc s) = tally_flags ?Y" by (simp add: ct_tally_def Let_def e)
  have st: "same_tables s X" "same_tables s ?Y" by (simp_all add: X_def same_tables_def)
  show "same_tables s (snd (ct_tally level n dist lc s))" using st tally_flags_simps(6) [of ?Y] unfolding t by (simp add: same_tables_def)
  have "flags_hold X ?fs" using h(1) flags_hold_cong [of X s ?fs] by (simp add: X_def)
  then have 1: "flags_hold (tally_flags ?Y) (map (\<lambda>it. fst it \<noteq> 0) (its @ [(dist, lc)]))" using flags_tally [of X ?fs ?f] by simp
  have 2: "l_buf X i = snd ((its @ [(dist, lc)]) ! i)" if "i < Suc (length its)" for i
    using that h(2) [of i] by (cases "i = length its") (simp_all add: X_def l nth_append)
  have 3: "last_dist X = length (matches (its @ [(dist, lc)]))" by (simp add: X_def h(3) matches_snoc)
  have 4: "d_buf X j = of_nat (fst (matches (its @ [(dist, lc)]) ! j) - 1)" if "j < length (matches (its @ [(dist, lc)]))" for j
    using that h(4) [of j] unfolding matches_snoc by (cases "j = length (matches its)") (auto simp: X_def h(3) nth_append)
  have 5: "counted X (its @ [(dist, lc)])"
    using h(5) unfolding counted_def same_tablesD(1,2) [OF st(1)] matches_snoc
    by (auto simp: X_def inc_freq_at lit_symbol_def dist_symbol_def LITERALS_def)
  have 6: "counted (tally_flags ?Y) (its @ [(dist, lc)])"
    using 5 same_tablesD(1,2) [OF st(1)] same_tablesD(1,2) [OF st(2)] same_tablesD(1,2) [OF tally_flags_simps(6) [of ?Y]]
    by (simp add: counted_def tally_flags_simps)
  show "recorded (snd (ct_tally level n dist lc s)) (its @ [(dist, lc)])"
    unfolding t recorded_def using 1 2 3 4 6 by (simp add: tally_flags_simps)
qed

text \<open>\<^verbatim>\<open>flush_block\<close> stores the last flags before the data is sent.\<close>

lemma recorded_holds:
  assumes "recorded s its" "l_buf s' = l_buf s" "d_buf s' = d_buf s" "last_lit s' = last_lit s"
    and "flag_buf s' = (flag_buf s)(last_flags s := flags s)"
  shows "holds s' its"
  unfolding holds_def
proof (intro conjI allI impI)
  have f: "flags_hold s (map (\<lambda>it. fst it \<noteq> 0) its)" using assms(1) by (simp add: recorded_def)
  then show "last_lit s' = length its" by (simp add: flags_hold_def assms(4))
  show "l_buf s' i = snd (its ! i)" if "i < length its" for i using assms(1,2) that by (simp add: recorded_def)
  show "d_buf s' j = of_nat (fst (matches its ! j) - 1)" if "j < length (matches its)" for j using assms(1,3) that by (simp add: recorded_def)
  show "bit (flag_buf s' (i div 8)) (i mod 8) = (fst (its ! i) \<noteq> 0)" if "i < length its" for i
    using f that by (cases "i div 8 = length its div 8") (auto simp: flags_hold_def assms(5))
qed

end
