(* ===== verification/SFI_Trees_Static.thy ===== *)
theory SFI_Trees_Static
  imports SFI_Trees_Block
begin

text \<open>
  The static trees: what \<^verbatim>\<open>ct_init\<close> leaves are the tables of the decoder's fixed blocks.
\<close>

unbundle bit_operations_syntax

lemma static_lengths_eq:
  "static_lengths [a..<b] l (t, c) = (\<lambda>n. if a \<le> n \<and> n < b then (t n)\<lparr>dl := of_nat l\<rparr> else t n, c(l := c l + of_nat (b - a)))"
proof (induction b)
  case (Suc b)
  then show ?case
    by (cases "a \<le> b") (auto simp: static_lengths_def set_dl_def fun_eq_iff less_Suc_eq Suc_diff_le)
qed (simp add: static_lengths_def)

lemma fold_zero: "fold (\<lambda>i c. c(i := 0)) [0..<k] c = (\<lambda>i. if i < k then 0 else c i)"
  by (induction k) (auto simp: fun_eq_iff less_Suc_eq)

lemma count_fixed: "count_list fixed_lit_lengths l = (if l = 7 then 24 else if l = 8 then 152 else if l = 9 then 112 else 0)"
  by (simp add: fixed_lit_lengths_def count_list_replicate)

text \<open>What the routines for a block rely on.\<close>

definition static_set :: "ct \<Rightarrow> bool" where
  "static_set s \<longleftrightarrow> tables_set s \<and> coded (static_ltree s) fixed_lit_lengths \<and> coded (static_dtree s) fixed_dist_lengths"

lemma static_ltree_coded:
  assumes "(t', c') = static_lengths [280..<288] 8 (static_lengths [256..<280] 7 (static_lengths [144..<256] 9 (static_lengths [0..<144] 8
    (t, fold (\<lambda>bits c. c(bits := 0)) [0..<Suc MAX_BITS] c))))"
  shows "coded (gen_codes c' t' (int (L_CODES + 1))) fixed_lit_lengths"
proof -
  have t: "t' = (\<lambda>n. if 280 \<le> n \<and> n < 288 then (t n)\<lparr>dl := 8\<rparr> else if 256 \<le> n \<and> n < 280 then (t n)\<lparr>dl := 7\<rparr>
      else if 144 \<le> n \<and> n < 256 then (t n)\<lparr>dl := 9\<rparr> else if n < 144 then (t n)\<lparr>dl := 8\<rparr> else t n)"
    and c: "c' l = (if l = 7 then 24 else if l = 8 then 152 else if l = 9 then 112 else if l < 16 then 0 else c l)" for l
    using assms unfolding fold_zero static_lengths_eq by (simp_all add: fun_eq_iff MAX_BITS_def)
  have b: "tree_lengths t' 288 = fixed_lit_lengths"
    by (rule nth_equalityI) (auto simp: length_fixed t fixed_lengths_nth)
  have le: "unat (Len (t' n)) \<le> 15" if "n < 288" for n
    using that unfolding t by auto
  have k: "288 = nat (int (L_CODES + 1) + 1)" by (simp add: L_CODES_def LITERALS_def LENGTH_CODES_def)
  have "coded (gen_codes c' t' (int (L_CODES + 1))) (tree_lengths t' 288)"
    by (rule gen_codes_ok(1) [OF k le]) (auto simp: c b count_fixed)
  then show ?thesis unfolding b .
qed

lemma static_dtree_coded: "coded (fold (\<lambda>n t. set_fc n (ucast (bi_reverse (of_nat n) 5)) (set_dl n 5 t)) [0..<D_CODES] t) fixed_dist_lengths"
proof -
  let ?F = "\<lambda>k. fold (\<lambda>n t. set_fc n (ucast (bi_reverse (of_nat n) 5)) (set_dl n 5 t)) [0..<k] t"
  have f: "?F k n = (if n < k then (t n)\<lparr>fc := ucast (bi_reverse (of_nat n) 5), dl := 5\<rparr> else t n)" for k n
    by (induction k) (auto simp: set_fc_def set_dl_def less_Suc_eq)
  show ?thesis unfolding coded_def
  proof (intro allI impI)
    fix n assume "n < length fixed_dist_lengths"
    then have n: "n < 30" by (simp add: length_fixed)
    have "(of_nat n :: u32) = ucast (of_nat n :: 16 word)" using n by (simp add: unsigned_of_nat take_bit_nat_eq_self)
    then have c: "Code (?F D_CODES n) = ucast (bi_reverse (ucast (of_nat n :: 16 word)) 5)" using n by (simp add: f D_CODES_def)
    show "unat (Len (?F D_CODES n)) = fixed_dist_lengths ! n \<and> fixed_dist_lengths ! n \<le> 15 \<and> (fixed_dist_lengths ! n \<noteq> 0 \<longrightarrow>
      take_bit (fixed_dist_lengths ! n) (ucast (Code (?F D_CODES n)) :: u32) = ucast (Code (?F D_CODES n)) \<and>
      bits_of (fixed_dist_lengths ! n) (ucast (Code (?F D_CODES n)) :: u32) = canon_bits fixed_dist_lengths n)"
      using reversed_code [of 5, OF _ _ c] n by (simp add: fixed_dist_nth canon_bits_def fixed_dist_code f D_CODES_def)
  qed
qed

lemma ct_init_ok:
  assumes "Len (static_dtree s 0) = 0"
  shows "static_set (ct_init s)" "recorded (ct_init s) []"
proof -
  obtain bl lc bd dc where l: "length_tables_init = (bl, lc)" and d: "dist_tables_init = (bd, dc)" by fastforce
  obtain t c where tc: "static_lengths [280..<288] 8 (static_lengths [256..<280] 7 (static_lengths [144..<256] 9
      (static_lengths [0..<144] 8 (static_ltree s, fold (\<lambda>bits c. c(bits := 0)) [0..<Suc MAX_BITS] (bl_count s))))) = (t, c)" by fastforce
  obtain x where x: "ct_init s = init_block x" "length_code x = lc" "base_length x = bl" "dist_code x = dc" "base_dist x = bd"
    "static_ltree x = gen_codes c t (int (L_CODES + 1))"
    "static_dtree x = fold (\<lambda>n t. set_fc n (ucast (bi_reverse (of_nat n) 5)) (set_dl n 5 t)) [0..<D_CODES] (static_dtree s)"
    using assms that by (simp add: ct_init_def Let_def l d tc del: upt_rec_numeral upt_Suc)
  have "same_tables x (ct_init s)" by (simp add: x(1) init_block_def same_tables_def)
  moreover have "tables_set x" by (simp add: tables_set_def x l d)
  ultimately show "static_set (ct_init s)"
    using static_ltree_coded [OF tc [symmetric]] static_dtree_coded by (simp add: static_set_def same_tablesD x(6,7))
  show "recorded (ct_init s) []" unfolding x(1) by (rule init_block_recorded)
qed

end
