(* ===== verification/SFI_Trees_Heap.thy ===== *)
theory SFI_Trees_Heap
  imports SFI_Trees_Static "HOL-Library.Multiset"
begin

text \<open>
  The heap of \<^verbatim>\<open>build_tree_1\<close>. Only the contents of the heap matter for the correctness of the codes, so an
  operation is described by what it does to the multiset of its nodes, and the loop that combines
  nodes by the list of the pairs it takes.
\<close>

section \<open>The heap as a multiset\<close>

definition bag :: "(nat \<Rightarrow> nat) \<Rightarrow> nat \<Rightarrow> nat multiset" where
  "bag hp n = image_mset hp (mset_set {1..n})"

lemma bag_split: "i \<in> {1..n} \<Longrightarrow> bag f n = add_mset (f i) (image_mset f (mset_set ({1..n} - {i})))"
  by (simp add: bag_def mset_set.remove)

lemma bag_cong: "(\<And>i. 1 \<le> i \<Longrightarrow> i \<le> n \<Longrightarrow> f i = g i) \<Longrightarrow> bag f n = bag g n"
  unfolding bag_def by (rule image_mset_cong) auto

lemma bag_upd:
  assumes "i \<in> {1..n}" shows "bag (f(i := x)) n = add_mset x (bag f n - {#f i#})"
proof -
  have "image_mset (f(i := x)) (mset_set ({1..n} - {i})) = image_mset f (mset_set ({1..n} - {i}))"
    by (rule image_mset_cong) auto
  then show ?thesis unfolding bag_split [OF assms, of "f(i := x)"] bag_split [OF assms, of f] by simp
qed

lemma bag_swap:
  assumes "i \<in> {1..n}" "j \<in> {1..n}" "i \<noteq> j"
  shows "bag (f(i := f j, j := x)) n = bag (f(i := x)) n"
proof -
  have "f j \<in># bag f n - {#f i#}"
  proof -
    have "j \<in> {1..n} - {i}" using assms by auto
    then show ?thesis unfolding bag_split [OF assms(1), of f] by simp
  qed
  then show ?thesis unfolding bag_upd [OF assms(2)] using bag_upd [OF assms(1)] assms(3) by simp
qed

lemma pq_down_bag:
  assumes "1 \<le> k" "k \<le> len" "j = 2 * k"
  shows "bag (pq_down t d len v k j hp) len = bag (hp(k := v)) len \<and> (\<forall>i. i = 0 \<or> len < i \<longrightarrow> pq_down t d len v k j hp i = hp i)"
  using assms
proof (induction t d len v k j hp rule: pq_down.induct)
  case (1 t d len v k j hp)
  define j' where "j' = (if j < len \<and> smaller t d (hp (j + 1)) (hp j) then j + 1 else j)"
  show ?case
  proof (cases "j \<le> len \<and> \<not> smaller t d v (hp j')")
    case True
    have j: "0 < j" "1 \<le> j'" "j' \<le> len" "j' \<noteq> k" using True "1.prems" by (auto simp: j'_def)
    have e: "pq_down t d len v k j hp = pq_down t d len v j' (2 * j') (hp(k := hp j'))"
      using True j(1) by (subst pq_down.simps, unfold Let_def j'_def [symmetric]) simp
    have "bag (pq_down t d len v j' (2 * j') (hp(k := hp j'))) len = bag (hp(k := hp j', j' := v)) len \<and>
      (\<forall>i. i = 0 \<or> len < i \<longrightarrow> pq_down t d len v j' (2 * j') (hp(k := hp j')) i = (hp(k := hp j')) i)"
      by (rule "1.IH" [OF _ j'_def _ j(2,3) refl]) (use True j(1) in simp_all)
    moreover have "bag (hp(k := hp j', j' := v)) len = bag (hp(k := v)) len" by (rule bag_swap) (use j "1.prems" in auto)
    moreover have "\<forall>i. i = 0 \<or> len < i \<longrightarrow> (hp(k := hp j')) i = hp i" using "1.prems"(1,2) by auto
    ultimately show ?thesis unfolding e by (simp del: fun_upd_apply)
  next
    case False
    then have "pq_down t d len v k j hp = hp(k := v)" by (subst pq_down.simps) (auto simp: Let_def j'_def)
    then show ?thesis using "1.prems" by auto
  qed
qed

text \<open>The fields that building a tree changes before the lengths are known.\<close>

definition same_but_heap :: "ct \<Rightarrow> ct \<Rightarrow> bool" where
  "same_but_heap s s' \<longleftrightarrow> s' = s\<lparr>heap := heap s', heap_len := heap_len s', heap_max := heap_max s', depth := depth s'\<rparr>"

lemma same_but_heap_refl [simp]: "same_but_heap s s"
  by (simp add: same_but_heap_def)

lemma same_but_heap_trans: "same_but_heap s s' \<Longrightarrow> same_but_heap s' s'' \<Longrightarrow> same_but_heap s s''"
  by (cases s; cases s'; cases s'') (auto simp: same_but_heap_def)

lemma same_but_heap_upd [simp]:
  "same_but_heap s (s'\<lparr>heap := x\<rparr>) = same_but_heap s s'" "same_but_heap s (s'\<lparr>heap_len := k\<rparr>) = same_but_heap s s'"
  "same_but_heap s (s'\<lparr>heap_max := k\<rparr>) = same_but_heap s s'" "same_but_heap s (s'\<lparr>depth := d\<rparr>) = same_but_heap s s'"
  by (cases s; cases s'; auto simp: same_but_heap_def)+

lemma pqdownheap_ok:
  assumes "1 \<le> k" "k \<le> heap_len s"
  shows "bag (heap (pqdownheap t k s)) (heap_len s) = bag (heap s) (heap_len s)"
    "i = 0 \<or> heap_len s < i \<Longrightarrow> heap (pqdownheap t k s) i = heap s i"
    "heap_len (pqdownheap t k s) = heap_len s" "heap_max (pqdownheap t k s) = heap_max s" "same_but_heap s (pqdownheap t k s)"
proof -
  note p = pq_down_bag [OF assms refl, of t "depth s" "heap s k" "heap s"]
  show "bag (heap (pqdownheap t k s)) (heap_len s) = bag (heap s) (heap_len s)" using p by (simp add: pqdownheap_def)
  show "heap (pqdownheap t k s) i = heap s i" if "i = 0 \<or> heap_len s < i" using p that unfolding pqdownheap_def by force
qed (simp_all add: pqdownheap_def)

lemma heapify_ok:
  assumes "set ks \<subseteq> {1..heap_len s}" "s' = fold (pqdownheap t) ks s"
  shows "bag (heap s') (heap_len s) = bag (heap s) (heap_len s) \<and> heap_len s' = heap_len s \<and> heap_max s' = heap_max s \<and>
    same_but_heap s s'"
  using assms
proof (induction ks arbitrary: s)
  case (Cons k ks)
  have k: "1 \<le> k" "k \<le> heap_len s" using Cons.prems(1) by auto
  note p = pqdownheap_ok [OF k, where t = t]
  have "bag (heap s') (heap_len s) = bag (heap (pqdownheap t k s)) (heap_len s) \<and> heap_len s' = heap_len s \<and>
      heap_max s' = heap_max s \<and> same_but_heap (pqdownheap t k s) s'"
    using Cons.IH [of "pqdownheap t k s"] Cons.prems p(3,4) by simp
  then show ?case using p(1) same_but_heap_trans [OF p(5)] by simp
qed simp

lemma pqremove_ok:
  assumes "2 \<le> heap_len s" "pqremove t s = (n, s')"
  shows "n = heap s 1" "bag (heap s) (heap_len s) = add_mset n (bag (heap s') (heap_len s - 1))"
    "heap_len s' = heap_len s - 1" "heap_max s' = heap_max s" "heap_len s < i \<Longrightarrow> heap s' i = heap s i" "same_but_heap s s'"
    "depth s' = depth s"
proof -
  let ?L = "heap_len s" and ?s = "s\<lparr>heap := (heap s)(1 := heap s (heap_len s)), heap_len := heap_len s - 1\<rparr>"
  have r: "n = heap s 1" "s' = pqdownheap t 1 ?s" using assms(2) by (simp_all add: pqremove_def)
  have k: "1 \<le> (1::nat)" "1 \<le> heap_len ?s" using assms(1) by simp_all
  note p = pqdownheap_ok [OF k, where t = t, folded r(2)]
  show "n = heap s 1" by (rule r)
  show "heap_len s' = ?L - 1" "heap_max s' = heap_max s" using p by simp_all
  show "?L < i \<Longrightarrow> heap s' i = heap s i" using p(2) [of i] assms(1) by simp
  show "same_but_heap s s'" by (rule same_but_heap_trans [OF _ p(5)]) simp
  show "depth s' = depth s" by (simp add: r(2) pqdownheap_def)
  have i: "{1..?L} - {?L} = {1..?L - 1}" using assms(1) by auto
  have m: "bag (heap s) ?L = add_mset (heap s ?L) (bag (heap s) (?L - 1))"
    using bag_split [of ?L ?L "heap s"] assms(1) unfolding i by (simp add: bag_def)
  have "1 \<in> {1..?L - 1}" using assms(1) by auto
  from bag_upd [OF this, of "heap s" "heap s ?L"] bag_split [OF this, of "heap s"]
  have "add_mset (heap s 1) (bag ((heap s)(1 := heap s ?L)) (?L - 1)) = add_mset (heap s ?L) (bag (heap s) (?L - 1))" by simp
  then show "bag (heap s) ?L = add_mset n (bag (heap s') (?L - 1))" using p(1) unfolding m r(1) by simp
qed

section \<open>Combining nodes\<close>

text \<open>The pairs that are taken from the nodes \<open>H\<close>: a pair becomes the next new node \<open>k\<close>, until one node is left.\<close>

fun joined :: "nat \<Rightarrow> nat set \<Rightarrow> (nat \<times> nat) list \<Rightarrow> nat \<Rightarrow> bool" where
  "joined k H [] r \<longleftrightarrow> H = {r}"
| "joined k H ((n, m) # J) r \<longleftrightarrow> n \<in> H \<and> m \<in> H \<and> n \<noteq> m \<and> joined (Suc k) (insert k (H - {n, m})) J r"

fun fathers :: "nat \<Rightarrow> (nat \<times> nat) list \<Rightarrow> ct_tree \<Rightarrow> bool" where
  "fathers k [] t \<longleftrightarrow> True"
| "fathers k ((n, m) # J) t \<longleftrightarrow> Dad (t n) = of_nat k \<and> Dad (t m) = of_nat k \<and> fathers (Suc k) J t"

text \<open>The order in which the heap keeps the nodes that were taken: the last ones first.\<close>

definition pairs :: "(nat \<times> nat) list \<Rightarrow> nat list" where
  "pairs J = concat (map (\<lambda>(n, m). [m, n]) (rev J))"

lemma pairs_simps [simp]: "pairs [] = []" "pairs ((n, m) # J) = pairs J @ [m, n]" "length (pairs J) = 2 * length J"
proof -
  show "length (pairs J) = 2 * length J" by (induction J) (auto simp: pairs_def)
qed (simp_all add: pairs_def)

lemma join_nodes_ok:
  assumes "2 \<le> heap_len s" "heap_len s < heap_max s - 1" "join_nodes node t s = (t', s')"
    and H: "bag (heap s) (heap_len s) = mset_set H" "finite H" "\<And>x. x \<in> H \<Longrightarrow> x < node"
  obtains n m where "n \<in> H" "m \<in> H" "n \<noteq> m" "bag (heap s') (heap_len s - 1) = mset_set (insert node (H - {n, m}))"
    "heap_len s' = heap_len s - 1" "heap_max s' = heap_max s - 2" "heap s' (heap_max s - 1) = n" "heap s' (heap_max s - 2) = m"
    "\<And>i. heap_max s \<le> i \<Longrightarrow> heap s' i = heap s i" "same_but_heap s s'"
    "\<And>x. Dad (t' x) = (if x = n \<or> x = m then of_nat node else Dad (t x))" "\<And>x. x \<noteq> node \<Longrightarrow> fc (t' x) = fc (t x)"
proof -
  let ?L = "heap_len s" and ?M = "heap_max s"
  obtain n s1 where r: "pqremove t s = (n, s1)" by fastforce
  note p = pqremove_ok [OF assms(1) r]
  define m where "m = heap s1 1"
  let ?d = "(depth s1)(node := (if depth s1 n \<ge> depth s1 m then depth s1 n else depth s1 m) + 1)"
  let ?s2 = "s1\<lparr>heap_max := ?M - 2, depth := ?d, heap := (heap s1)(?M - 1 := n, ?M - 2 := m, 1 := node)\<rparr>"
  let ?t = "set_dl n (of_nat node) (set_dl m (of_nat node) (set_fc node (Freq (t n) + Freq (t m)) t))"
  have e: "t' = ?t" "s' = pqdownheap ?t 1 ?s2"
  proof -
    have "join_nodes node t s = (?t, pqdownheap ?t 1 ?s2)"
      by (simp add: join_nodes_def r m_def p(4) Let_def cong: if_cong split del: if_split)
    then show "t' = ?t" "s' = pqdownheap ?t 1 ?s2" using assms(3) by (simp_all only: prod.inject)
  qed
  have k: "1 \<le> (1::nat)" "1 \<le> heap_len ?s2" using assms(1) p(3) by simp_all
  note q = pqdownheap_ok [OF k, where t = ?t, folded e(2)]
  have one: "1 \<in> {1..?L - 1}" using assms(1) by auto
  have b1: "bag (heap s1) (?L - 1) = add_mset m (bag (heap s1) (?L - 1) - {#m#})"
    using bag_split [OF one, of "heap s1"] by (simp add: m_def)
  have "bag (heap ?s2) (?L - 1) = bag ((heap s1)(1 := node)) (?L - 1)" by (rule bag_cong) (use assms(2) in auto)
  then have b2: "bag (heap ?s2) (?L - 1) = add_mset node (bag (heap s1) (?L - 1) - {#m#})"
    using bag_upd [OF one, of "heap s1" node] by (simp add: m_def)
  define B where "B = bag (heap s1) (?L - 1) - {#m#}"
  have h: "mset_set H = add_mset n (add_mset m B)" using p(2) H(1) b1 by (simp add: B_def)
  then have nm: "n \<in> H" "m \<in> H" using H(2) by (metis elem_mset_set union_single_eq_member multi_member_this add_mset_commute)+
  have "count (mset_set H) n \<le> 1" by (simp add: count_mset_set')
  then have ne: "n \<noteq> m" unfolding h by auto
  have B: "B = mset_set (H - {n, m})"
  proof -
    have "mset_set H = add_mset n (mset_set (H - {n}))" using nm H(2) by (simp add: mset_set.remove)
    moreover have "mset_set (H - {n}) = add_mset m (mset_set (H - {n} - {m}))" using nm ne H(2) by (intro mset_set.remove) auto
    ultimately show ?thesis using h by (simp add: Diff_insert2 [of H n "{m}"])
  qed
  have "node \<notin> H - {n, m}" using H(3) by blast
  then have bag': "bag (heap s') (?L - 1) = mset_set (insert node (H - {n, m}))"
  proof -
    have "bag (heap s') (?L - 1) = add_mset node B" using q(1) b2 p(3) unfolding B_def by simp
    then show ?thesis unfolding B using H(2) \<open>node \<notin> H - {n, m}\<close> by simp
  qed
  have out: "heap s' i = heap ?s2 i" if "?L - 1 < i" for i using q(2) [of i] that p(3) by simp
  show thesis
  proof (rule that [OF nm ne bag'])
    show "heap_len s' = ?L - 1" "heap_max s' = ?M - 2" using q p(3) by simp_all
    show "heap s' (?M - 1) = n" "heap s' (?M - 2) = m" using out [of "?M - 1"] out [of "?M - 2"] assms(1,2) by auto
    show "?M \<le> i \<Longrightarrow> heap s' i = heap s i" for i using out [of i] p(5) [of i] assms(1,2) by auto
    show "same_but_heap s s'" by (rule same_but_heap_trans [OF _ q(5)]) (simp add: p(6))
    show "Dad (t' x) = (if x = n \<or> x = m then of_nat node else Dad (t x))" for x by (auto simp: e(1) set_dl_def set_fc_def)
    show "x \<noteq> node \<Longrightarrow> fc (t' x) = fc (t x)" for x by (simp add: e(1) set_dl_def set_fc_def)
  qed
qed

lemma fathers_cong: "(\<And>x. x \<in> set (pairs J) \<Longrightarrow> Dad (t' x) = Dad (t x)) \<Longrightarrow> fathers k J t' = fathers k J t"
  by (induction J arbitrary: k) auto

lemma join_loop_ok:
  assumes "2 \<le> heap_len s" "2 * heap_len s \<le> heap_max s" "join_loop node t s = (t', s')"
    and "bag (heap s) (heap_len s) = mset_set H" "finite H" "\<And>x. x \<in> H \<Longrightarrow> x < node"
  shows "\<exists>J r. joined node H J r \<and> J \<noteq> [] \<and> heap_len s' = 1 \<and> heap s' 1 = r \<and> heap_max s' = heap_max s - 2 * length J \<and>
    map (heap s') [heap_max s'..<heap_max s] = pairs J \<and> (\<forall>i \<ge> heap_max s. heap s' i = heap s i) \<and> same_but_heap s s' \<and>
    fathers node J t' \<and> (\<forall>x < node. x \<notin> H \<longrightarrow> Dad (t' x) = Dad (t x)) \<and> (\<forall>x < node. fc (t' x) = fc (t x))"
  using assms
proof (induction node t s arbitrary: H rule: join_loop.induct)
  case (1 node t s)
  let ?L = "heap_len s" and ?M = "heap_max s"
  obtain t1 s1 where j: "join_nodes node t s = (t1, s1)" by fastforce
  have lt: "?L < ?M - 1" using "1.prems"(1,2) by simp
  obtain n m where a: "n \<in> H" "m \<in> H" "n \<noteq> m" "bag (heap s1) (?L - 1) = mset_set (insert node (H - {n, m}))"
    "heap_len s1 = ?L - 1" "heap_max s1 = ?M - 2" "heap s1 (?M - 1) = n" "heap s1 (?M - 2) = m"
    "\<And>i. ?M \<le> i \<Longrightarrow> heap s1 i = heap s i" "same_but_heap s s1"
    "\<And>x. Dad (t1 x) = (if x = n \<or> x = m then of_nat node else Dad (t x))" "\<And>x. x \<noteq> node \<Longrightarrow> fc (t1 x) = fc (t x)"
    by (rule join_nodes_ok [OF "1.prems"(1) lt j "1.prems"(4-6)]) blast+
  let ?H = "insert node (H - {n, m})"
  have M: "[?M - 2..<?M] = [?M - 2, ?M - 1]" using lt "1.prems"(1) by (auto simp: upt_rec)
  have nm: "n < node" "m < node" using a(1,2) "1.prems"(6) by simp_all
  show ?case
  proof (cases "heap_len s1 \<ge> 2")
    case True
    have e: "join_loop (node + 1) t1 s1 = (t', s')"
      using "1.prems"(3) True by (subst (asm) join_loop.simps) (simp add: j)
    have "\<exists>J r. joined (node + 1) ?H J r \<and> J \<noteq> [] \<and> heap_len s' = 1 \<and> heap s' 1 = r \<and> heap_max s' = heap_max s1 - 2 * length J \<and>
      map (heap s') [heap_max s'..<heap_max s1] = pairs J \<and> (\<forall>i \<ge> heap_max s1. heap s' i = heap s1 i) \<and> same_but_heap s1 s' \<and>
      fathers (node + 1) J t' \<and> (\<forall>x < node + 1. x \<notin> ?H \<longrightarrow> Dad (t' x) = Dad (t1 x)) \<and> (\<forall>x < node + 1. fc (t' x) = fc (t1 x))"
      by (rule "1.IH" [OF j [symmetric] True True _ e]) (use "1.prems" a(4-6) in \<open>auto simp: less_Suc_eq\<close>)
    then obtain J r where J: "joined (node + 1) ?H J r" "heap_len s' = 1" "heap s' 1 = r" "heap_max s' = heap_max s1 - 2 * length J"
      "map (heap s') [heap_max s'..<heap_max s1] = pairs J" "\<And>i. heap_max s1 \<le> i \<Longrightarrow> heap s' i = heap s1 i" "same_but_heap s1 s'"
      "fathers (node + 1) J t'" "\<And>x. x < node + 1 \<Longrightarrow> x \<notin> ?H \<Longrightarrow> Dad (t' x) = Dad (t1 x)" "\<And>x. x < node + 1 \<Longrightarrow> fc (t' x) = fc (t1 x)"
      by blast
    have u: "[heap_max s'..<?M] = [heap_max s'..<heap_max s1] @ [?M - 2, ?M - 1]"
    proof -
      have "heap_max s1 + 2 = ?M" using a(6) lt "1.prems"(1) by simp
      then show ?thesis using upt_add_eq_append [of "heap_max s'" "heap_max s1" 2] M a(6) J(4) by simp
    qed
    have p: "map (heap s') [heap_max s'..<?M] = pairs ((n, m) # J)"
      using J(5,6) a(6-8) lt unfolding u by simp
    show ?thesis
    proof (intro exI [of _ "(n, m) # J"] exI [of _ r] conjI allI impI)
      show "joined node H ((n, m) # J) r" using a(1-3) J(1) by simp
      show "heap_max s' = ?M - 2 * length ((n, m) # J)" using J(4) a(6) by simp
      show "heap s' i = heap s i" if "?M \<le> i" for i using J(6) [of i] a(6,9) that by simp
      show "same_but_heap s s'" by (rule same_but_heap_trans [OF a(10) J(7)])
      show "fathers node ((n, m) # J) t'" using J(8) J(9) [of n] J(9) [of m] nm a(11) by simp
      show "Dad (t' x) = Dad (t x)" if "x < node" "x \<notin> H" for x using J(9) [of x] that a(1,2,11) by auto
      show "fc (t' x) = fc (t x)" if "x < node" for x using J(10) [of x] that a(12) [of x] by simp
    qed (use J p in simp_all)
  next
    case False
    have e: "t' = t1" "s' = s1" using "1.prems"(3) False by (subst (asm) join_loop.simps; simp add: j)+
    have l: "heap_len s1 = 1" using False a(5) "1.prems"(1) by simp
    have "bag (heap s1) 1 = {#heap s1 1#}" by (simp add: bag_def)
    then have "mset_set ?H = {#heap s1 1#}" using a(4,5) l by simp
    then have "?H = {heap s1 1}" using "1.prems"(5) by (metis finite_Diff finite_insert finite_set_mset_mset_set set_mset_single)
    then have r: "joined node H [(n, m)] (heap s1 1)" using a(1-3) by simp
    show ?thesis
    proof (intro exI [of _ "[(n, m)]"] exI [of _ "heap s1 1"] conjI allI impI)
      show "map (heap s') [heap_max s'..<?M] = pairs [(n, m)]" using a(6-8) M e by simp
      show "Dad (t' x) = Dad (t x)" if "x < node" "x \<notin> H" for x using that a(1,2,11) e by auto
      show "fathers node [(n, m)] t'" using a(11) e by simp
    qed (use r l a e in auto)
  qed
qed

end
