(* ===== verification/SFI_Trees_Lengths.thy ===== *)
theory SFI_Trees_Lengths
  imports SFI_Trees_Heap
begin

text \<open>
  The lengths of the codes. The first pass of \<^verbatim>\<open>gen_bitlen\<close> clips a length at the limit; then too many
  codes are in use, by half the number of nodes that were clipped. Each turn of the second loop gives
  one of them back. In the end the lengths use all codes exactly, whatever the frequencies were.
\<close>

section \<open>The first pass\<close>

text \<open>The fields that \<^verbatim>\<open>gen_bitlen\<close> changes.\<close>

definition same_but_lens :: "ct \<Rightarrow> ct \<Rightarrow> bool" where
  "same_but_lens s s' \<longleftrightarrow> s' = s\<lparr>bl_count := bl_count s', opt_len := opt_len s', static_len := static_len s'\<rparr>"

lemma same_but_lens_simps [simp]:
  "same_but_lens s s"
  "same_but_lens s (s'\<lparr>bl_count := c\<rparr>) = same_but_lens s s'" "same_but_lens s (s'\<lparr>opt_len := n\<rparr>) = same_but_lens s s'"
  "same_but_lens s (s'\<lparr>static_len := n\<rparr>) = same_but_lens s s'"
  by (cases s; cases s'; auto simp: same_but_lens_def)+

lemma same_but_lens_trans: "same_but_lens s s' \<Longrightarrow> same_but_lens s' s'' \<Longrightarrow> same_but_lens s s''"
  by (cases s; cases s'; cases s'') (auto simp: same_but_lens_def)

lemma same_but_lens_heap: "same_but_lens s s' \<Longrightarrow> heap s' = heap s"
  by (cases s; cases s'; simp add: same_but_lens_def)

lemma bitlen_step_ok:
  assumes "bitlen_step d mc st h (t, s, ov) = (t', s', ov')" "max_length d \<le> 15"
    and "heap s h = n" "unat (Dad (t n)) = k" "unat (Len (t k)) = l" "l \<le> max_length d" "b = min (l + 1) (max_length d)"
  shows "t' = set_dl n (of_nat b) t" "ov' = ov + (if l = max_length d then 1 else 0)" "same_but_lens s s'"
    "bl_count s' i = bl_count s i + of_nat (of_bool (int n \<le> mc \<and> b = i))"
  using assms by (auto simp: bitlen_step_def Let_def min_def split: option.splits if_splits)

lemma sum_step:
  fixes g :: "nat \<Rightarrow> nat \<Rightarrow> nat"
  assumes "finite H" "n \<in> H" "m \<in> H" "n \<noteq> m" "k \<notin> H"
    and "\<And>x. x \<in> H - {n, m} \<Longrightarrow> L' x = L x" "L' n = b" "L' m = b"
  shows "(\<Sum>x \<in> H. g x (L' x)) = g n b + g m b + (\<Sum>x \<in> H - {n, m}. g x (L x))"
    "(\<Sum>x \<in> insert k (H - {n, m}). g x (L x)) = g k (L k) + (\<Sum>x \<in> H - {n, m}. g x (L x))"
proof -
  have "H = insert n (insert m (H - {n, m}))" using assms(2,3) by auto
  then have "(\<Sum>x \<in> H. g x (L' x)) = (\<Sum>x \<in> insert n (insert m (H - {n, m})). g x (L' x))" by simp
  also have "(\<Sum>x \<in> insert n (insert m (H - {n, m})). g x (L' x)) = g n b + (g m b + (\<Sum>x \<in> H - {n, m}. g x (L' x)))"
  proof -
    have "finite (H - {n, m})" "n \<notin> insert m (H - {n, m})" "m \<notin> H - {n, m}" using assms(1,4) by auto
    then show ?thesis using sum.insert [of "insert m (H - {n, m})" n "\<lambda>x. g x (L' x)"] sum.insert [of "H - {n, m}" m "\<lambda>x. g x (L' x)"]
      by (simp only: finite_insert assms(7,8) simp_thms)
  qed
  also have "(\<Sum>x \<in> H - {n, m}. g x (L' x)) = (\<Sum>x \<in> H - {n, m}. g x (L x))" using assms(6) by (intro sum.cong) auto
  finally show "(\<Sum>x \<in> H. g x (L' x)) = g n b + g m b + (\<Sum>x \<in> H - {n, m}. g x (L x))" by simp
  show "(\<Sum>x \<in> insert k (H - {n, m}). g x (L x)) = g k (L k) + (\<Sum>x \<in> H - {n, m}. g x (L x))"
    using assms(1,5) by (intro sum.insert) auto
qed

text \<open>After the pass: \<open>m\<close> is half the number of clipped nodes.\<close>

definition clipped :: "nat \<Rightarrow> int \<Rightarrow> nat set \<Rightarrow> ct_tree \<Rightarrow> (nat \<Rightarrow> 16 word) \<Rightarrow> nat \<Rightarrow> bool" where
  "clipped ml mc H t c m \<longleftrightarrow> (\<Sum>x \<in> H. 2 ^ (ml - unat (Len (t x)))) = 2 ^ ml + m \<and> m \<le> (\<Sum>x \<in> H. of_bool (unat (Len (t x)) = ml)) \<and>
     (\<forall>x \<in> H. unat (Len (t x)) \<le> ml \<and> (int x \<le> mc \<longrightarrow> 1 \<le> unat (Len (t x)))) \<and>
     (\<forall>b \<le> ml. c b = of_nat (\<Sum>x \<in> H. of_bool (int x \<le> mc \<and> unat (Len (t x)) = b)))"

lemma clipped_step:
  assumes C: "clipped ml mc (insert k (H - {n, m})) t1 c1 q" and H: "finite H" "n \<in> H" "m \<in> H" "n \<noteq> m" "k \<notin> H" "mc < int k"
    and l: "l = unat (Len (t1 k))" "b = min (l + 1) ml" "1 \<le> ml"
    and t: "\<And>x. x \<in> H - {n, m} \<Longrightarrow> Len (t2 x) = Len (t1 x)" "unat (Len (t2 n)) = b" "unat (Len (t2 m)) = b"
    and c: "\<And>i. c2 i = c1 i + of_nat (of_bool (int n \<le> mc \<and> b = i)) + of_nat (of_bool (int m \<le> mc \<and> b = i))"
  shows "clipped ml mc H t2 c2 (if l = ml then Suc q else q)"
proof -
  let ?L1 = "\<lambda>x. unat (Len (t1 x))" and ?L2 = "\<lambda>x. unat (Len (t2 x))"
  have e: "?L2 x = ?L1 x" if "x \<in> H - {n, m}" for x using t(1) [OF that] by simp
  note sums = sum_step [OF H(1-5) e t(2,3)]
  have C1: "(\<Sum>x \<in> insert k (H - {n, m}). 2 ^ (ml - ?L1 x)) = 2 ^ ml + q" "q \<le> (\<Sum>x \<in> insert k (H - {n, m}). of_bool (?L1 x = ml))"
    "\<And>x. x \<in> insert k (H - {n, m}) \<Longrightarrow> ?L1 x \<le> ml \<and> (int x \<le> mc \<longrightarrow> 1 \<le> ?L1 x)"
    "\<And>b. b \<le> ml \<Longrightarrow> c1 b = of_nat (\<Sum>x \<in> insert k (H - {n, m}). of_bool (int x \<le> mc \<and> ?L1 x = b))"
    using C unfolding clipped_def by blast+
  have lm: "l \<le> ml" using C1(3) [of k] l(1) by simp
  have p: "2 ^ (ml - b) + 2 ^ (ml - b) + (if l = ml then 0 else 0) = (2 :: nat) ^ (ml - l) + of_bool (l = ml)"
  proof (cases "l = ml")
    case False
    then have "ml - l = Suc (ml - b)" using lm l(2) by simp
    then show ?thesis using False by simp
  qed (use l(2) in simp)
  show ?thesis unfolding clipped_def
  proof (intro conjI ballI allI impI)
    show "(\<Sum>x \<in> H. 2 ^ (ml - ?L2 x)) = 2 ^ ml + (if l = ml then Suc q else q)"
      using sums(1) [of "\<lambda>x y. 2 ^ (ml - y)"] sums(2) [of "\<lambda>x y. 2 ^ (ml - y)"] C1(1) p l(1) by (auto split: if_splits)
    show "(if l = ml then Suc q else q) \<le> (\<Sum>x \<in> H. of_bool (?L2 x = ml))"
      using sums(1) [of "\<lambda>x y. of_bool (y = ml)"] sums(2) [of "\<lambda>x y. of_bool (y = ml)"] C1(2) l(1,2) by (auto split: if_splits)
    show "c2 i = of_nat (\<Sum>x \<in> H. of_bool (int x \<le> mc \<and> ?L2 x = i))" if "i \<le> ml" for i
      using sums(1) [of "\<lambda>x y. of_bool (int x \<le> mc \<and> y = i)"] sums(2) [of "\<lambda>x y. of_bool (int x \<le> mc \<and> y = i)"]
        C1(4) [OF that] H(6) c [of i] by simp
    show "?L2 x \<le> ml" if "x \<in> H" for x using that C1(3) [of x] e [of x] t(2,3) l(2) by (cases "x = n \<or> x = m") auto
    show "1 \<le> ?L2 x" if "x \<in> H" "int x \<le> mc" for x using that C1(3) [of x] e [of x] t(2,3) l(2,3) by (cases "x = n \<or> x = m") auto
  qed
qed

lemma first_pass:
  assumes "joined k H J r" "finite H" "\<And>x. x \<in> H \<Longrightarrow> x < k" "mc < int k" "mc < int r" "1 \<le> max_length d" "max_length d \<le> 15"
    and "fathers k J t" "map (heap s) hs = pairs J" "k + length J \<le> 65536" "\<And>i. i \<le> max_length d \<Longrightarrow> bl_count s i = 0"
  shows "\<exists>t' s' m. fold (bitlen_step d mc st) hs (set_dl r 0 t, s, 0) = (t', s', 2 * int m) \<and>
    clipped (max_length d) mc H t' (bl_count s') m \<and> (\<forall>x < k. x \<notin> H \<longrightarrow> Dad (t' x) = Dad (t x)) \<and>
    (\<forall>x. fc (t' x) = fc (t x)) \<and> same_but_lens s s' \<and> (\<forall>i > max_length d. bl_count s' i = bl_count s i)"
  using assms(1-4,8-10)
proof (induction J arbitrary: k H hs)
  case Nil
  then show ?case using assms(5,11) by (auto simp: clipped_def set_dl_def)
next
  case (Cons nm J)
  obtain n m where nm: "nm = (n, m)" by fastforce
  let ?H = "insert k (H - {n, m})" and ?ml = "max_length d"
  have j: "n \<in> H" "m \<in> H" "n \<noteq> m" "joined (Suc k) ?H J r" using Cons.prems(1) by (simp_all add: nm)
  have lt: "n < k" "m < k" "k \<notin> H" using Cons.prems(3) j(1,2) by auto
  have "length hs = 2 * length J + 2" using arg_cong [OF Cons.prems(6), of length] by (simp add: nm)
  then obtain hs1 h1 h2 where hs: "hs = hs1 @ [h1, h2]"
    by (metis add_2_eq_Suc' append_Cons append_Nil append_assoc length_Suc_conv_rev)
  have hp: "map (heap s) hs1 = pairs J" "heap s h1 = m" "heap s h2 = n" using Cons.prems(6) by (simp_all add: hs nm)
  have "\<exists>t' s' q. fold (bitlen_step d mc st) hs1 (set_dl r 0 t, s, 0) = (t', s', 2 * int q) \<and>
    clipped ?ml mc ?H t' (bl_count s') q \<and> (\<forall>x < Suc k. x \<notin> ?H \<longrightarrow> Dad (t' x) = Dad (t x)) \<and>
    (\<forall>x. fc (t' x) = fc (t x)) \<and> same_but_lens s s' \<and> (\<forall>i > ?ml. bl_count s' i = bl_count s i)"
    by (rule Cons.IH [OF j(4)]) (use Cons.prems hp(1) in \<open>auto simp: nm less_Suc_eq\<close>)
  then obtain t1 s1 q where I: "fold (bitlen_step d mc st) hs1 (set_dl r 0 t, s, 0) = (t1, s1, 2 * int q)"
    "clipped ?ml mc ?H t1 (bl_count s1) q" "\<And>x. x < Suc k \<Longrightarrow> x \<notin> ?H \<Longrightarrow> Dad (t1 x) = Dad (t x)"
    "\<And>x. fc (t1 x) = fc (t x)" "same_but_lens s s1" "\<And>i. ?ml < i \<Longrightarrow> bl_count s1 i = bl_count s i" by blast
  define l where "l = unat (Len (t1 k))"
  define b where "b = min (l + 1) ?ml"
  have lm: "l \<le> ?ml" using I(2) by (simp add: clipped_def l_def)
  have b: "unat (of_nat b :: 16 word) = b" using assms(7) by (simp add: b_def unat_of_nat)
  have k: "unat (of_nat k :: 16 word) = k" using Cons.prems(7) by (simp add: unat_of_nat)
  have dads: "unat (Dad (t1 m)) = k" "unat (Dad (t1 n)) = k"
    using I(3) [of m] I(3) [of n] lt Cons.prems(5) k by (simp_all add: nm)
  obtain t2 s2 o2 where s2: "bitlen_step d mc st h1 (t1, s1, 2 * int q) = (t2, s2, o2)" by (metis prod_cases3)
  obtain t3 s3 o3 where s3: "bitlen_step d mc st h2 (t2, s2, o2) = (t3, s3, o3)" by (metis prod_cases3)
  have hs1: "heap s1 h1 = m" using hp same_but_lens_heap [OF I(5)] by simp
  note B = bitlen_step_ok [OF s2 assms(7) hs1 dads(1) l_def [symmetric] lm b_def]
  have hs2: "heap s2 h2 = n" using hp same_but_lens_heap [OF I(5)] same_but_lens_heap [OF B(3)] by simp
  have d2: "unat (Dad (t2 n)) = k" "unat (Len (t2 k)) = l" using dads lt j(2,3) by (auto simp: B(1) set_dl_def l_def)
  note D = bitlen_step_ok [OF s3 assms(7) hs2 d2(1,2) lm b_def]
  have t3: "Len (t3 x) = (if x = n \<or> x = m then of_nat b else Len (t1 x))" "fc (t3 x) = fc (t1 x)" for x
    by (auto simp: D(1) B(1) set_dl_def)
  have c: "bl_count s3 i = bl_count s1 i + of_nat (of_bool (int n \<le> mc \<and> b = i)) + of_nat (of_bool (int m \<le> mc \<and> b = i))" for i
    by (simp add: D(4) B(4))
  have "clipped ?ml mc H t3 (bl_count s3) (if l = ?ml then Suc q else q)"
    by (rule clipped_step [OF I(2) Cons.prems(2) j(1-3) lt(3) Cons.prems(4) l_def b_def assms(6) _ _ _ c]) (auto simp: t3 b)
  moreover have "o3 = 2 * int (if l = ?ml then Suc q else q)" by (simp add: D(2) B(2))
  moreover have "fold (bitlen_step d mc st) hs (set_dl r 0 t, s, 0) = (t3, s3, o3)" by (simp add: hs I(1) s2 s3)
  moreover have "Dad (t3 x) = Dad (t x)" if "x < k" "x \<notin> H" for x using I(3) [of x] that j(1,2) by (auto simp: t3)
  moreover have "bl_count s3 i = bl_count s i" if "?ml < i" for i
  proof -
    have "b \<noteq> i" using that by (simp add: b_def)
    then show ?thesis using I(6) [OF that] by (simp add: c)
  qed
  moreover have "same_but_lens s s3" using I(5) B(3) D(3) same_but_lens_trans by blast
  ultimately show ?case using t3(2) I(4) by auto
qed

section \<open>The overflow\<close>

lemma last_used_ok:
  "x \<le> k \<Longrightarrow> c x \<noteq> 0 \<Longrightarrow> \<exists>b \<le> k. last_used c k = Some b \<and> c b \<noteq> 0 \<and> (\<forall>y. b < y \<and> y \<le> k \<longrightarrow> c y = 0)"
proof (induction k)
  case (Suc k)
  show ?case
  proof (cases "c (Suc k) = 0")
    case True
    then have "x \<le> k" using Suc.prems by (metis le_SucE)
    then obtain b where "b \<le> k" "last_used c k = Some b" "c b \<noteq> 0" "\<forall>y. b < y \<and> y \<le> k \<longrightarrow> c y = 0" using Suc by blast
    then show ?thesis using True by (intro exI [of _ b]) (auto simp: le_Suc_eq)
  qed auto
qed auto

lemma sum_upd:
  fixes g w :: "nat \<Rightarrow> nat"
  assumes "finite S" "i \<in> S"
  shows "(\<Sum>x \<in> S. (g(i := y)) x * w x) + g i * w i = (\<Sum>x \<in> S. g x * w x) + y * w i"
proof -
  have "(\<Sum>x \<in> S - {i}. (g(i := y)) x * w x) = (\<Sum>x \<in> S - {i}. g x * w x)" by (rule sum.cong) auto
  then show ?thesis using sum.remove [OF assms, of "\<lambda>x. (g(i := y)) x * w x"] sum.remove [OF assms, of "\<lambda>x. g x * w x"] by simp
qed

lemma fix_overflow_ok:
  assumes "1 \<le> ml" "\<And>b. b \<le> ml \<Longrightarrow> c b = of_nat (f b)" "f 0 = 0" "(\<Sum>b \<in> {1..ml}. f b * 2 ^ (ml - b)) = 2 ^ ml + m"
    and "(\<Sum>b \<in> {1..ml}. f b) < 2 ^ ml" "(\<Sum>b \<in> {1..ml}. f b) < 65536" "m \<le> f ml" "0 < m"
  shows "\<exists>c' f'. fix_overflow ml (2 * int m) c = Some c' \<and> (\<forall>b \<le> ml. c' b = of_nat (f' b)) \<and> (\<forall>b > ml. c' b = c b) \<and> f' 0 = 0 \<and>
    (\<Sum>b \<in> {1..ml}. f' b * 2 ^ (ml - b)) = 2 ^ ml \<and> (\<Sum>b \<in> {1..ml}. f' b) = (\<Sum>b \<in> {1..ml}. f b)"
  using assms(2-8)
proof (induction m arbitrary: c f)
  case (Suc m)
  let ?S = "{1..ml}"
  have le: "f x \<le> sum f ?S" if "x \<in> ?S" for x using that by (intro member_le_sum) auto
  have z: "c x = 0 \<longleftrightarrow> f x = 0" if "x \<le> ml" for x
    using le [of x] Suc.prems(1,2,5) that by (cases "x = 0") (auto simp: word_of_nat_eq_0_iff)
  have "\<exists>x. 1 \<le> x \<and> x < ml \<and> f x \<noteq> 0"
  proof (rule ccontr)
    assume "\<nexists>x. 1 \<le> x \<and> x < ml \<and> f x \<noteq> 0"
    then have "f x * 2 ^ (ml - x) = f x" if "x \<in> ?S" for x using that by (cases "x = ml") auto
    then have "(\<Sum>b \<in> ?S. f b * 2 ^ (ml - b)) = sum f ?S" by (intro sum.cong) auto
    then show False using Suc.prems(3,4) by simp
  qed
  then obtain x where "x \<le> ml - 1" "c x \<noteq> 0" using z by (metis Suc_leI diff_Suc_1 diff_le_mono less_imp_le)
  from last_used_ok [of x "ml - 1" c, OF this] obtain b where b: "b \<le> ml - 1" "last_used c (ml - 1) = Some b" "c b \<noteq> 0" by blast
  have "f b \<noteq> 0" using b z [of b] assms(1) by simp
  then have fb: "f b \<noteq> 0" "1 \<le> b" "b < ml" using b(1) Suc.prems(2) assms(1) by (cases b; simp)+
  define f1 where "f1 = f(b := f b - 1)"
  define f2 where "f2 = f1(b + 1 := f1 (b + 1) + 2)"
  define f3 where "f3 = f2(ml := f2 ml - 1)"
  let ?c = "c(b := c b - 1)" let ?c = "?c(b + 1 := ?c (b + 1) + 2)" let ?c = "?c(ml := ?c ml - 1)"
  have ml: "1 \<le> f ml" "1 \<le> f2 ml" "f2 ml = f ml + (if b + 1 = ml then 2 else 0)" using Suc.prems(6) fb by (auto simp: f2_def f1_def)
  have sums: "(\<Sum>x \<in> ?S. f3 x * w x) + w b + w ml = (\<Sum>x \<in> ?S. f x * w x) + 2 * w (b + 1)" for w :: "nat \<Rightarrow> nat"
  proof -
    have "(\<Sum>x \<in> ?S. f1 x * w x) + f b * w b = (\<Sum>x \<in> ?S. f x * w x) + (f b - 1) * w b"
      "(\<Sum>x \<in> ?S. f2 x * w x) + f1 (b + 1) * w (b + 1) = (\<Sum>x \<in> ?S. f1 x * w x) + (f1 (b + 1) + 2) * w (b + 1)"
      "(\<Sum>x \<in> ?S. f3 x * w x) + f2 ml * w ml = (\<Sum>x \<in> ?S. f2 x * w x) + (f2 ml - 1) * w ml"
      unfolding f3_def f2_def f1_def by (rule sum_upd; use fb assms(1) in simp)+
    moreover have "f b * w b = (f b - 1) * w b + w b" using fb(1) by (cases "f b") simp_all
    moreover have "f2 ml * w ml = (f2 ml - 1) * w ml + w ml" using ml(2) by (cases "f2 ml") simp_all
    ultimately show ?thesis unfolding add_mult_distrib by linarith
  qed
  have cnt: "sum f3 ?S = sum f ?S" using sums [of "\<lambda>_. 1"] by simp
  have w: "(\<Sum>x \<in> ?S. f3 x * 2 ^ (ml - x)) = 2 ^ ml + m"
  proof -
    have "ml - b = Suc (ml - (b + 1))" using fb by simp
    then show ?thesis using sums [of "\<lambda>x. 2 ^ (ml - x)"] Suc.prems(3) by simp
  qed
  have c: "?c x = of_nat (f3 x)" if "x \<le> ml" for x
    using Suc.prems(1) [of b] Suc.prems(1) [of "b + 1"] Suc.prems(1) [of ml] Suc.prems(1) [OF that] fb ml
    by (auto simp: f3_def f2_def f1_def of_nat_diff)
  have z3: "f3 0 = 0" using Suc.prems(2) fb assms(1) by (auto simp: f3_def f2_def f1_def)
  have e: "fix_overflow ml (2 * int (Suc m)) c = (if 0 < m then fix_overflow ml (2 * int m) ?c else Some ?c)"
  proof -
    have i: "2 * int (Suc m) - 2 = 2 * int m" "0 < 2 * int m \<longleftrightarrow> 0 < m" by simp_all
    show ?thesis by (subst fix_overflow.simps, unfold b(2) option.case Let_def i) (rule refl)
  qed
  have out: "?c x = c x" if "ml < x" for x using that fb by simp
  show ?case
  proof (cases "m = 0")
    case True
    then show ?thesis unfolding e using c z3 w cnt out by (intro exI [of _ ?c] exI [of _ f3]) (simp del: fun_upd_apply)
  next
    case False
    have "m \<le> f3 ml" using Suc.prems(6) ml by (simp add: f3_def)
    then have "\<exists>c' f'. fix_overflow ml (2 * int m) ?c = Some c' \<and> (\<forall>b \<le> ml. c' b = of_nat (f' b)) \<and> (\<forall>b > ml. c' b = ?c b) \<and> f' 0 = 0 \<and>
      (\<Sum>b \<in> ?S. f' b * 2 ^ (ml - b)) = 2 ^ ml \<and> sum f' ?S = sum f3 ?S"
      using Suc.prems(4,5) z3 w cnt False c by (intro Suc.IH) (simp_all del: fun_upd_apply)
    then show ?thesis unfolding e cnt using False out by (simp del: fun_upd_apply)
  qed
qed simp

section \<open>Giving the lengths again\<close>

text \<open>The leaves in the heap below \<open>h\<close>, from the end.\<close>

definition leaves :: "int \<Rightarrow> (nat \<Rightarrow> nat) \<Rightarrow> nat \<Rightarrow> nat \<Rightarrow> nat list" where
  "leaves mc hp lo h = filter (\<lambda>x. int x \<le> mc) (map hp (rev [lo..<h]))"

lemma leaves_Suc: "lo \<le> h \<Longrightarrow> leaves mc hp lo (Suc h) = (if int (hp h) \<le> mc then hp h # leaves mc hp lo h else leaves mc hp lo h)"
  by (simp add: leaves_def)

lemma leaves_empty: "h \<le> lo \<Longrightarrow> leaves mc hp lo h = []"
  by (simp add: leaves_def)

lemma give_lengths_ok:
  assumes "lo \<le> h" "n \<le> length (leaves mc hp lo h)"
  shows "\<exists>h' t' ol' xs. give_lengths mc hp bits n h t ol = Some (h', t', ol') \<and> lo \<le> h' \<and>
    leaves mc hp lo h = xs @ leaves mc hp lo h' \<and> length xs = n \<and>
    (\<forall>x. t' x = (if x \<in> set xs then (t x)\<lparr>dl := of_nat bits\<rparr> else t x))"
  using assms
proof (induction mc hp bits n h t ol rule: give_lengths.induct)
  case (2 mc hp bits n t ol)
  then show ?case by (simp add: leaves_empty)
next
  case (3 mc hp bits n h t ol)
  have lo: "lo \<le> h" using "3.prems" leaves_empty [of "Suc h" lo mc hp] by (cases "lo \<le> h") auto
  note l = leaves_Suc [OF lo, of mc hp]
  show ?case
  proof (cases "int (hp h) > mc")
    case True
    then show ?thesis using "3.IH"(1) [OF refl True lo] "3.prems"(2) l by simp
  next
    case False
    let ?x = "hp h" and ?t = "if Len (t (hp h)) \<noteq> of_nat bits then set_dl (hp h) (of_nat bits) t else t"
    have n: "n \<le> length (leaves mc hp lo h)" using "3.prems"(2) False l by simp
    have "\<exists>h' t' ol' xs. give_lengths mc hp bits (Suc n) (Suc h) t ol = Some (h', t', ol') \<and> lo \<le> h' \<and>
      leaves mc hp lo h = xs @ leaves mc hp lo h' \<and> length xs = n \<and>
      (\<forall>x. t' x = (if x \<in> set xs then (?t x)\<lparr>dl := of_nat bits\<rparr> else ?t x))"
    proof (cases "Len (t ?x) \<noteq> of_nat bits")
      case True
      show ?thesis using "3.IH"(2) [OF refl False True lo n] False True by (simp add: Let_def)
    next
      case eq: False
      show ?thesis using "3.IH"(3) [OF refl False eq lo n] False eq by (simp add: Let_def)
    qed
    then obtain h' t' ol' xs where r: "give_lengths mc hp bits (Suc n) (Suc h) t ol = Some (h', t', ol')" "lo \<le> h'"
      "leaves mc hp lo h = xs @ leaves mc hp lo h'" "length xs = n"
      "\<And>x. t' x = (if x \<in> set xs then (?t x)\<lparr>dl := of_nat bits\<rparr> else ?t x)" by blast
    have "t' x = (if x \<in> set (?x # xs) then (t x)\<lparr>dl := of_nat bits\<rparr> else t x)" for x
      by (auto simp: r(5) set_dl_def)
    then show ?thesis using r(1-4) l False by (intro exI [of _ h'] exI [of _ t'] exI [of _ ol'] exI [of _ "?x # xs"]) auto
  qed
qed auto

lemma all_lengths_ok:
  assumes "lo \<le> h" "length (leaves mc hp lo h) = (\<Sum>b \<in> {1..bits}. f b)" "distinct (leaves mc hp lo h)"
    and "\<And>b. 1 \<le> b \<Longrightarrow> b \<le> bits \<Longrightarrow> c b = of_nat (f b) \<and> f b < 65536" "bits < 65536"
  shows "\<exists>t' ol'. all_lengths mc hp c bits h t ol = Some (t', ol') \<and> (\<forall>x. x \<notin> set (leaves mc hp lo h) \<longrightarrow> t' x = t x) \<and>
    (\<forall>x. fc (t' x) = fc (t x)) \<and> (\<forall>x \<in> set (leaves mc hp lo h). 1 \<le> unat (Len (t' x)) \<and> unat (Len (t' x)) \<le> bits) \<and>
    (\<forall>b. 1 \<le> b \<and> b \<le> bits \<longrightarrow> card {x \<in> set (leaves mc hp lo h). unat (Len (t' x)) = b} = f b)"
  using assms
proof (induction bits arbitrary: h t ol)
  case (Suc bits)
  let ?l = "leaves mc hp lo h"
  have u: "unat (c (Suc bits)) = f (Suc bits)" using Suc.prems(4) [of "Suc bits"] by (simp add: unat_of_nat)
  have n: "f (Suc bits) \<le> length ?l" using Suc.prems(2) by simp
  obtain h1 t1 ol1 xs where g: "give_lengths mc hp (Suc bits) (f (Suc bits)) h t ol = Some (h1, t1, ol1)" "lo \<le> h1"
    "?l = xs @ leaves mc hp lo h1" "length xs = f (Suc bits)"
    "\<And>x. t1 x = (if x \<in> set xs then (t x)\<lparr>dl := of_nat (Suc bits)\<rparr> else t x)"
    using give_lengths_ok [OF Suc.prems(1) n, of "Suc bits" t ol] by blast
  let ?r = "leaves mc hp lo h1"
  have d: "distinct xs" "distinct ?r" "set xs \<inter> set ?r = {}" using Suc.prems(3) g(3) by simp_all
  have "length ?r = (\<Sum>b \<in> {1..bits}. f b)" using Suc.prems(2) g(3,4) by simp
  then obtain t2 ol2 where a: "all_lengths mc hp c bits h1 t1 ol1 = Some (t2, ol2)" "\<And>x. x \<notin> set ?r \<Longrightarrow> t2 x = t1 x"
    "\<And>x. fc (t2 x) = fc (t1 x)" "\<And>x. x \<in> set ?r \<Longrightarrow> 1 \<le> unat (Len (t2 x)) \<and> unat (Len (t2 x)) \<le> bits"
    "\<And>b. 1 \<le> b \<Longrightarrow> b \<le> bits \<Longrightarrow> card {x \<in> set ?r. unat (Len (t2 x)) = b} = f b"
    using Suc.IH [of h1 t1 ol1] g(2) d(2) Suc.prems(4,5) by auto
  have x: "unat (Len (t2 x)) = Suc bits" if "x \<in> set xs" for x
  proof -
    have "x \<notin> set ?r" using that d(3) by blast
    then have "t2 x = (t x)\<lparr>dl := of_nat (Suc bits)\<rparr>" using a(2) that g(5) by simp
    then show ?thesis using Suc.prems(5) by (simp add: unat_of_nat del: of_nat_Suc)
  qed
  have s: "set ?l = set xs \<union> set ?r" using g(3) by simp
  show ?case
  proof (intro exI [of _ t2] exI [of _ ol2] conjI allI ballI impI)
    show "all_lengths mc hp c (Suc bits) h t ol = Some (t2, ol2)" by (simp add: u g(1) a(1))
    show "t2 x = t x" if "x \<notin> set ?l" for x using a(2) [of x] that s g(5) by simp
    show "fc (t2 x) = fc (t x)" for x by (simp add: a(3) g(5))
    show "1 \<le> unat (Len (t2 x))" "unat (Len (t2 x)) \<le> Suc bits" if "x \<in> set ?l" for x
      using that s x [of x] a(4) [of x] by auto
    show "card {x \<in> set ?l. unat (Len (t2 x)) = b} = f b" if "1 \<le> b \<and> b \<le> Suc bits" for b
    proof (cases "b = Suc bits")
      case True
      have "unat (Len (t2 y)) \<noteq> Suc bits" if "y \<in> set ?r" for y using a(4) [OF that] by simp
      then have "{x \<in> set ?l. unat (Len (t2 x)) = b} = set xs" unfolding s True using x by auto
      then show ?thesis using d(1) g(4) by (simp add: distinct_card True)
    next
      case False
      then have "{x \<in> set ?l. unat (Len (t2 x)) = b} = {x \<in> set ?r. unat (Len (t2 x)) = b}" unfolding s using x by auto
      then show ?thesis using a(5) [of b] that False by simp
    qed
  qed
qed auto

section \<open>All lengths\<close>

lemma pairs_leaves:
  assumes "joined k H J r" "\<And>x. x \<in> H \<Longrightarrow> x < k"
  shows "distinct (pairs J) \<and> set (pairs J) \<subseteq> H \<union> {k..} \<and> (r \<in> H \<or> k \<le> r) \<and> r \<notin> set (pairs J) \<and>
    ((\<forall>x \<ge> k. \<not> P x) \<longrightarrow> \<not> P r \<longrightarrow> {x \<in> set (pairs J). P x} = {x \<in> H. P x})"
  using assms
proof (induction J arbitrary: k H)
  case (Cons nm J)
  obtain n m where nm: "nm = (n, m)" by fastforce
  let ?H = "insert k (H - {n, m})"
  have j: "n \<in> H" "m \<in> H" "n \<noteq> m" "joined (Suc k) ?H J r" using Cons.prems(1) by (simp_all add: nm)
  have lt: "n < k" "m < k" using Cons.prems(2) j(1,2) by auto
  have "x < Suc k" if "x \<in> ?H" for x using that Cons.prems(2) by (auto simp: less_Suc_eq)
  note I = Cons.IH [OF j(4) this]
  have r: "r \<noteq> n" "r \<noteq> m" using I lt by auto
  have nin: "n \<notin> set (pairs J)" "m \<notin> set (pairs J)" using I lt by auto
  have "{x \<in> set (pairs (nm # J)). P x} = {x \<in> H. P x}" if P: "\<forall>x \<ge> k. \<not> P x" "\<not> P r"
  proof -
    have "{x \<in> set (pairs J). P x} = {x \<in> ?H. P x}" using I P by auto
    then show ?thesis using j(1,2) P(1) by (auto simp: nm)
  qed
  then show ?case using I j(1-3) r nin by (auto simp: nm)
qed auto

lemma group_lengths:
  fixes g :: "nat \<Rightarrow> nat"
  assumes "finite H" "\<And>x. x \<in> H \<Longrightarrow> 1 \<le> L x \<and> L x \<le> ml"
  shows "(\<Sum>b \<in> {1..ml}. card {x \<in> H. L x = b} * g b) = (\<Sum>x \<in> H. g (L x))"
proof -
  have "(\<Sum>b \<in> {1..ml}. card {x \<in> H. L x = b} * g b) = (\<Sum>b \<in> {1..ml}. \<Sum>x \<in> {x \<in> H. L x = b}. g (L x))"
    by (intro sum.cong refl) simp
  also have "\<dots> = (\<Sum>x \<in> H. g (L x))" by (rule sum.group) (use assms in auto)
  finally show ?thesis .
qed

text \<open>The lengths of the nodes \<open>H\<close> use all codes, and \<open>c\<close> counts them.\<close>

definition complete :: "nat \<Rightarrow> nat set \<Rightarrow> ct_tree \<Rightarrow> (nat \<Rightarrow> 16 word) \<Rightarrow> bool" where
  "complete ml H t c \<longleftrightarrow> (\<forall>x \<in> H. 1 \<le> unat (Len (t x)) \<and> unat (Len (t x)) \<le> ml) \<and>
     (\<Sum>x \<in> H. 2 ^ (ml - unat (Len (t x)))) = (2 :: nat) ^ ml \<and> (\<forall>b \<le> 15. c b = of_nat (card {x \<in> H. unat (Len (t x)) = b}))"

lemma sum_of_bool_card: "finite H \<Longrightarrow> (\<Sum>x \<in> H. of_bool (P x)) = card {x \<in> H. P x}"
  by (simp add: sum.If_cases of_bool_def Int_def)

lemma gen_bitlen_ok:
  assumes J: "joined k H J r" "finite H" "\<And>x. x \<in> H \<Longrightarrow> x < k" "k + length J \<le> 65536" "fathers k J t"
    and mc: "\<And>x. x \<in> H \<Longrightarrow> int x \<le> mc" "mc < int k" "mc < int r"
    and d: "1 \<le> max_length d" "max_length d \<le> 15" "card H < 2 ^ max_length d"
    and hp: "heap s (heap_max s) = r" "map (heap s) [heap_max s + 1..<HEAP_SIZE] = pairs J" "heap_max s < HEAP_SIZE"
  shows "\<exists>t' s'. gen_bitlen d mc st t s = Some (t', s') \<and> complete (max_length d) H t' (bl_count s') \<and>
    (\<forall>x < k. x \<notin> H \<longrightarrow> Len (t' x) = Len (t x)) \<and> (\<forall>x. fc (t' x) = fc (t x)) \<and> same_but_lens s s'"
proof -
  let ?ml = "max_length d" and ?s = "s\<lparr>bl_count := fold (\<lambda>bits c. c(bits := 0)) [0..<MAX_BITS + 1] (bl_count s)\<rparr>"
  have c0: "bl_count ?s i = 0" if "i \<le> 15" for i
    using that by (simp add: fold_zero MAX_BITS_def del: upt_Suc upt_rec_numeral)
  have "\<exists>t' s' m. fold (bitlen_step d mc st) [heap_max s + 1..<HEAP_SIZE] (set_dl r 0 t, ?s, 0) = (t', s', 2 * int m) \<and>
    clipped ?ml mc H t' (bl_count s') m \<and> (\<forall>x < k. x \<notin> H \<longrightarrow> Dad (t' x) = Dad (t x)) \<and>
    (\<forall>x. fc (t' x) = fc (t x)) \<and> same_but_lens ?s s' \<and> (\<forall>i > ?ml. bl_count s' i = bl_count ?s i)"
    by (rule first_pass [OF J(1-3) mc(2,3) d(1,2) J(5) _ J(4)]) (use hp(2) c0 d(2) in simp_all)
  then obtain t1 s1 m where p: "fold (bitlen_step d mc st) [heap_max s + 1..<HEAP_SIZE] (set_dl r 0 t, ?s, 0) = (t1, s1, 2 * int m)"
    "clipped ?ml mc H t1 (bl_count s1) m" "\<And>x. x < k \<Longrightarrow> x \<notin> H \<Longrightarrow> Dad (t1 x) = Dad (t x)"
    "\<And>x. fc (t1 x) = fc (t x)" "same_but_lens ?s s1" "\<And>i. ?ml < i \<Longrightarrow> bl_count s1 i = bl_count ?s i" by blast
  define f where "f b = card {x \<in> H. unat (Len (t1 x)) = b}" for b
  have L: "1 \<le> unat (Len (t1 x)) \<and> unat (Len (t1 x)) \<le> ?ml" if "x \<in> H" for x using p(2) mc(1) that by (simp add: clipped_def)
  have c1: "bl_count s1 b = of_nat (f b)" if "b \<le> ?ml" for b
  proof -
    have "{x \<in> H. int x \<le> mc \<and> unat (Len (t1 x)) = b} = {x \<in> H. unat (Len (t1 x)) = b}" using mc(1) by auto
    then show ?thesis using p(2) that unfolding clipped_def sum_of_bool_card [OF J(2)] by (simp add: f_def)
  qed
  have hi: "card {x \<in> H. unat (Len (t' x)) = b} = 0" if "?ml < b" "\<And>x. x \<in> H \<Longrightarrow> unat (Len (t' x)) \<le> ?ml" for t' :: ct_tree and b
  proof -
    have "{x \<in> H. unat (Len (t' x)) = b} = {}" using that by fastforce
    then show ?thesis by (simp only: card.empty)
  qed
  have sm: "same_but_lens s s1" using p(5) same_but_lens_trans [of s ?s s1] by simp
  have hps: "heap s1 = heap s" by (rule same_but_lens_heap [OF sm])
  have g: "gen_bitlen d mc st t s = (if m = 0 then Some (t1, s1)
    else case fix_overflow ?ml (2 * int m) (bl_count s1) of None \<Rightarrow> None
      | Some c \<Rightarrow> (case all_lengths mc (heap s1) c ?ml HEAP_SIZE t1 (opt_len s1) of None \<Rightarrow> None
        | Some (t, ol) \<Rightarrow> Some (t, s1\<lparr>bl_count := c, opt_len := ol\<rparr>)))"
    unfolding gen_bitlen_def Let_def using p(1) hp(1) by simp
  note g = g [unfolded hps]
  show ?thesis
  proof (cases "m = 0")
    case True
    have "bl_count s1 b = of_nat (card {x \<in> H. unat (Len (t1 x)) = b})" if "b \<le> 15" for b
      using c1 [of b] p(6) [of b] c0 [OF that] hi [of b t1] L by (cases "b \<le> ?ml") (simp_all add: f_def del: upt_Suc)
    then have "complete ?ml H t1 (bl_count s1)" using p(2) L True by (simp add: complete_def clipped_def)
    then show ?thesis using True g p(3,4) sm by auto
  next
    case False
    have w: "(\<Sum>b \<in> {1..?ml}. f b * 2 ^ (?ml - b)) = 2 ^ ?ml + m"
      using group_lengths [OF J(2) L, where g = "\<lambda>b. 2 ^ (?ml - b)"] p(2) by (simp add: clipped_def f_def)
    have n: "(\<Sum>b \<in> {1..?ml}. f b) = card H" using group_lengths [OF J(2) L, where g = "\<lambda>_. 1"] by (simp add: f_def)
    have "(2 :: nat) ^ ?ml \<le> 2 ^ 15" using d(2) by (intro power_increasing) auto
    then have n2: "card H < 65536" using d(3) by simp
    have "{x \<in> H. unat (Len (t1 x)) = 0} = {}" using L by fastforce
    then have "f 0 = 0" by (simp only: f_def card.empty)
    moreover have "m \<le> f ?ml" "0 < m" using p(2) False sum_of_bool_card [OF J(2)] unfolding f_def clipped_def by auto
    ultimately have fm: "f 0 = 0" "m \<le> f ?ml" "0 < m" by blast+
    from fix_overflow_ok [OF d(1) c1 fm(1) w _ _ fm(2,3)] obtain c' f' where
      c': "fix_overflow ?ml (2 * int m) (bl_count s1) = Some c'" "\<And>b. b \<le> ?ml \<Longrightarrow> c' b = of_nat (f' b)"
      "\<And>b. ?ml < b \<Longrightarrow> c' b = bl_count s1 b" "f' 0 = 0" "(\<Sum>b \<in> {1..?ml}. f' b * 2 ^ (?ml - b)) = 2 ^ ?ml"
      "(\<Sum>b \<in> {1..?ml}. f' b) = card H"
      unfolding n using d(3) n2 by blast
    let ?l = "leaves mc (heap s) (heap_max s + 1) HEAP_SIZE"
    have q: "distinct (pairs J)" "{x \<in> set (pairs J). int x \<le> mc} = {x \<in> H. int x \<le> mc}"
      using pairs_leaves [OF J(1,3), of "\<lambda>x. int x \<le> mc"] mc(2,3) by auto
    have le: "?l = filter (\<lambda>x. int x \<le> mc) (rev (pairs J))" by (simp add: leaves_def hp(2) [symmetric] rev_map)
    then have l: "distinct ?l" "set ?l = H" using q mc(1) by auto
    have "f' b < 65536" if "b \<in> {1..?ml}" for b using member_le_sum [of b "{1..?ml}" f'] that c'(6) n2 by simp
    then have "\<exists>t' ol'. all_lengths mc (heap s) c' ?ml HEAP_SIZE t1 (opt_len s1) = Some (t', ol') \<and> (\<forall>x. x \<notin> set ?l \<longrightarrow> t' x = t1 x) \<and>
      (\<forall>x. fc (t' x) = fc (t1 x)) \<and> (\<forall>x \<in> set ?l. 1 \<le> unat (Len (t' x)) \<and> unat (Len (t' x)) \<le> ?ml) \<and>
      (\<forall>b. 1 \<le> b \<and> b \<le> ?ml \<longrightarrow> card {x \<in> set ?l. unat (Len (t' x)) = b} = f' b)"
      using hp(3) l distinct_card [OF l(1)] c'(2,6) d(2) by (intro all_lengths_ok) auto
    then obtain t2 ol where a: "all_lengths mc (heap s) c' ?ml HEAP_SIZE t1 (opt_len s1) = Some (t2, ol)" "\<And>x. x \<notin> H \<Longrightarrow> t2 x = t1 x"
      "\<And>x. fc (t2 x) = fc (t1 x)" "\<And>x. x \<in> H \<Longrightarrow> 1 \<le> unat (Len (t2 x)) \<and> unat (Len (t2 x)) \<le> ?ml"
      "\<And>b. 1 \<le> b \<Longrightarrow> b \<le> ?ml \<Longrightarrow> card {x \<in> H. unat (Len (t2 x)) = b} = f' b" unfolding l(2) by blast
    have "(\<Sum>b \<in> {1..?ml}. card {x \<in> H. unat (Len (t2 x)) = b} * 2 ^ (?ml - b)) = (\<Sum>b \<in> {1..?ml}. f' b * 2 ^ (?ml - b))"
      by (intro sum.cong refl) (simp add: a(5))
    then have w2: "(\<Sum>x \<in> H. 2 ^ (?ml - unat (Len (t2 x)))) = (2 :: nat) ^ ?ml"
      using group_lengths [OF J(2) a(4), where g = "\<lambda>b. 2 ^ (?ml - b)"] c'(5) by simp
    have "c' b = of_nat (card {x \<in> H. unat (Len (t2 x)) = b})" if "b \<le> 15" for b
    proof -
      consider "b = 0" | "1 \<le> b" "b \<le> ?ml" | "?ml < b" by linarith
      then show ?thesis
      proof cases
        case 1
        then have "{x \<in> H. unat (Len (t2 x)) = b} = {}" using a(4) by fastforce
        then have "card {x \<in> H. unat (Len (t2 x)) = b} = 0" by (simp only: card.empty)
        then show ?thesis using c'(2) [of 0] c'(4) 1 by simp
      next
        case 2
        then show ?thesis using c'(2) [of b] a(5) [of b] by simp
      next
        case 3
        then show ?thesis using c'(3) [of b] p(6) [of b] c0 [OF that] hi [of b t2] a(4) by simp
      qed
    qed
    then have "complete ?ml H t2 c'" using w2 a(4) by (simp add: complete_def)
    then show ?thesis using g False c'(1) a(1-3) p(3,4) sm by auto
  qed
qed

end
