(* ===== verification/SFI_Trees_Build.thy ===== *)
theory SFI_Trees_Build
  imports SFI_Trees_Lengths
begin

text \<open>
  \<^verbatim>\<open>build_tree_1\<close> always succeeds: every symbol that occurs gets a code, the lengths keep the limit and use
  all codes, and the codes are the canonical ones.
\<close>

section \<open>The nodes of the heap\<close>

text \<open>The heap holds the symbols \<open>U\<close>, all others have length zero.\<close>

definition heap_of :: "nat \<Rightarrow> nat set \<Rightarrow> ct_tree \<Rightarrow> ct \<Rightarrow> int \<Rightarrow> bool" where
  "heap_of n U t s mc \<longleftrightarrow> U \<subseteq> {..<n} \<and> heap_len s = card U \<and> bag (heap s) (card U) = mset_set U \<and>
     (\<forall>x < n. x \<notin> U \<longrightarrow> Len (t x) = 0) \<and> mc = (if U = {} then -1 else int (Max U)) \<and> heap_max s = HEAP_SIZE"

lemma heap_of_finite: "heap_of n U t s mc \<Longrightarrow> finite U"
  using finite_subset by (auto simp: heap_of_def)

lemma heap_of_add:
  assumes "heap_of n U t s mc" "v < n'" "n \<le> n'" "v \<notin> U" "heap_len s' = heap_len s + 1" "heap s' = (heap s)(heap_len s + 1 := v)"
    and "heap_max s' = heap_max s" "\<And>x. x < n' \<Longrightarrow> x \<notin> insert v U \<Longrightarrow> Len (t' x) = 0" "mc' = int (Max (insert v U))"
  shows "heap_of n' (insert v U) t' s' mc'"
proof -
  have f: "finite U" by (rule heap_of_finite [OF assms(1)])
  have b: "bag ((heap s)(Suc (card U) := v)) (Suc (card U)) = add_mset v (bag (heap s) (card U))"
  proof -
    have "{1..Suc (card U)} - {Suc (card U)} = {1..card U}" by auto
    then have "bag ((heap s)(Suc (card U) := v)) (Suc (card U)) = add_mset v (image_mset ((heap s)(Suc (card U) := v)) (mset_set {1..card U}))"
      using bag_split [of "Suc (card U)" "Suc (card U)" "(heap s)(Suc (card U) := v)"] by simp
    also have "image_mset ((heap s)(Suc (card U) := v)) (mset_set {1..card U}) = bag (heap s) (card U)"
      unfolding bag_def by (rule image_mset_cong) auto
    finally show ?thesis .
  qed
  show ?thesis using assms f b by (auto simp: heap_of_def)
qed

lemma init_heap_ok:
  assumes "init_heap n t s = (t', s', mc)"
  shows "heap_of n {x. x < n \<and> Freq (t x) \<noteq> 0} t' s' mc" "same_but_heap s s'" "n \<le> x \<Longrightarrow> t' x = t x"
    "fc (t' x) = fc (t x)"
proof -
  let ?f = "\<lambda>n (t, s, max_code). if Freq (t n) \<noteq> 0
         then (t, s\<lparr>heap_len := heap_len s + 1, heap := (heap s)(heap_len s + 1 := n), depth := (depth s)(n := 0)\<rparr>, int n)
         else (set_dl n 0 t, s, max_code)"
  have "heap_of n {x. x < n \<and> Freq (t x) \<noteq> 0} t' s' mc \<and> same_but_heap s s' \<and> (\<forall>x. n \<le> x \<longrightarrow> t' x = t x) \<and> (\<forall>x. fc (t' x) = fc (t x))"
    if "fold ?f [0..<n] (t, s\<lparr>heap_len := 0, heap_max := HEAP_SIZE\<rparr>, -1) = (t', s', mc)" for t' s' mc
    using that
  proof (induction n arbitrary: t' s' mc)
    case 0
    then show ?case by (auto simp: heap_of_def bag_def)
  next
    case (Suc n)
    obtain t1 s1 mc1 where r: "fold ?f [0..<n] (t, s\<lparr>heap_len := 0, heap_max := HEAP_SIZE\<rparr>, -1) = (t1, s1, mc1)" by (rule prod_cases3)
    let ?U = "{x. x < n \<and> Freq (t x) \<noteq> 0}"
    have I: "heap_of n ?U t1 s1 mc1" "same_but_heap s s1" "\<And>x. n \<le> x \<Longrightarrow> t1 x = t x" "\<And>x. fc (t1 x) = fc (t x)"
      using Suc.IH [OF r] by blast+
    have last: "?f n (t1, s1, mc1) = (t', s', mc)" using Suc.prems r by simp
    show ?case
    proof (cases "Freq (t n) = 0")
      case True
      have e: "t' = set_dl n 0 t1" "s' = s1" "mc = mc1" using last True I(4) by auto
      have U: "{x. x < Suc n \<and> Freq (t x) \<noteq> 0} = ?U" using True less_Suc_eq by auto
      have "heap_of (Suc n) ?U t' s' mc"
        unfolding heap_of_def
      proof (intro conjI allI impI)
        show "Len (t' x) = 0" if "x < Suc n" "x \<notin> ?U" for x
          using that I(1) by (cases "x = n") (auto simp: heap_of_def e set_dl_def)
      qed (use I(1) in \<open>auto simp: heap_of_def e\<close>)
      moreover have "t' x = t x" if "Suc n \<le> x" for x using I(3) [of x] that by (simp add: e(1) set_dl_def)
      moreover have "fc (t' x) = fc (t x)" for x by (simp add: e(1) set_dl_def I(4))
      ultimately show ?thesis unfolding U using I(2) e(2) by simp
    next
      case False
      have e: "t' = t1" "s' = s1\<lparr>heap_len := heap_len s1 + 1, heap := (heap s1)(heap_len s1 + 1 := n), depth := (depth s1)(n := 0)\<rparr>"
        "mc = int n" using last False I(4) by auto
      have U: "{x. x < Suc n \<and> Freq (t x) \<noteq> 0} = insert n ?U" using False less_Suc_eq by auto
      have m: "Max (insert n ?U) = n" by (rule Max_eqI) auto
      have "heap_of (Suc n) (insert n ?U) t' s' mc"
        by (rule heap_of_add [OF I(1)]) (use I(1) m in \<open>auto simp: e heap_of_def\<close>)
      then show ?thesis unfolding U using I(2-4) by (simp add: e)
    qed
  qed
  then show "heap_of n {x. x < n \<and> Freq (t x) \<noteq> 0} t' s' mc" "same_but_heap s s'" "n \<le> x \<Longrightarrow> t' x = t x" "fc (t' x) = fc (t x)"
    using assms unfolding init_heap_def by auto
qed

lemma force_two_ok:
  assumes "heap_of n U t s mc" "3 \<le> n" "force_two st t s mc = (t', s', mc')"
  shows "\<exists>V. U \<subseteq> V \<and> 2 \<le> card V \<and> heap_of n V t' s' mc' \<and>
    s' = s\<lparr>heap := heap s', heap_len := heap_len s', depth := depth s', opt_len := opt_len s', static_len := static_len s'\<rparr>"
  using assms
proof (induction st t s mc arbitrary: U rule: force_two.induct)
  case (1 st t s mc)
  have f: "finite U" by (rule heap_of_finite [OF "1.prems"(1)])
  have h: "heap_len s = card U" "mc = (if U = {} then -1 else int (Max U))" "U \<subseteq> {..<n}" using "1.prems"(1) by (simp_all add: heap_of_def)
  show ?case
  proof (cases "heap_len s < 2")
    case False
    then have "t' = t" "s' = s" "mc' = mc" using "1.prems"(3) by (subst (asm) force_two.simps; simp)+
    then show ?thesis using "1.prems"(1) False h(1) by (intro exI [of _ U]) simp
  next
    case True
    obtain v m where vm: "(if mc < 2 then (nat (mc + 1), mc + 1) else (0, mc)) = (v, m)" by fastforce
    let ?s = "s\<lparr>heap_len := heap_len s + 1, heap := (heap s)(heap_len s + 1 := v), depth := (depth s)(v := 0),
      opt_len := opt_len s - 1, static_len := (case st of None \<Rightarrow> static_len s | Some t \<Rightarrow> static_len s - ucast (Len (t v)))\<rparr>"
    have "card U = 0 \<or> card U = 1" using True h(1) by auto
    then have "U = {} \<or> (\<exists>x. U = {x})" using f by (simp add: card_1_singleton_iff)
    then have v: "v < n \<and> v \<notin> U \<and> m = int (Max (insert v U))"
    proof
      assume "U = {}"
      then show ?thesis using vm h(2) "1.prems"(2) by auto
    next
      assume "\<exists>u. U = {u}"
      then obtain u where "U = {u}" by blast
      then show ?thesis using vm h(2,3) "1.prems"(2) by (cases "u < 2") (auto simp: nat_add_distrib)
    qed
    have hv: "heap_of n (insert v U) (set_fc v 1 t) ?s m"
      by (rule heap_of_add [OF "1.prems"(1)]) (use v "1.prems"(1) in \<open>auto simp: heap_of_def set_fc_def\<close>)
    have fv: "force_two st (set_fc v 1 t) ?s m = (t', s', mc')"
      using "1.prems"(3) True vm by (subst (asm) force_two.simps) (simp add: Let_def)
    obtain V where V: "insert v U \<subseteq> V" "2 \<le> card V" "heap_of n V t' s' mc'"
      "s' = ?s\<lparr>heap := heap s', heap_len := heap_len s', depth := depth s', opt_len := opt_len s', static_len := static_len s'\<rparr>"
      using "1.IH" [OF True refl vm [symmetric] refl hv "1.prems"(2) fv] by blast
    have "s' = s\<lparr>heap := heap s', heap_len := heap_len s', depth := depth s', opt_len := opt_len s', static_len := static_len s'\<rparr>"
      by (subst V(4)) simp
    then show ?thesis using V(1-3) by blast
  qed
qed

section \<open>The tree\<close>

lemma joined_length:
  assumes "joined k H J r" "finite H" "\<And>x. x \<in> H \<Longrightarrow> x < k"
  shows "card H = Suc (length J)" "J \<noteq> [] \<Longrightarrow> r = k + length J - 1"
proof -
  have "card H = Suc (length J) \<and> (J \<noteq> [] \<longrightarrow> r = k + length J - 1)" using assms
  proof (induction J arbitrary: k H)
    case (Cons nm J)
    obtain n m where nm: "nm = (n, m)" by fastforce
    let ?H = "insert k (H - {n, m})"
    have j: "n \<in> H" "m \<in> H" "n \<noteq> m" "joined (Suc k) ?H J r" using Cons.prems(1) by (simp_all add: nm)
    have "k \<notin> H" using Cons.prems(3) by blast
    have "x < Suc k" if "x \<in> ?H" for x using that Cons.prems(3) by (auto simp: less_Suc_eq)
    then have I: "card ?H = Suc (length J)" "J \<noteq> [] \<longrightarrow> r = Suc k + length J - 1" using Cons.IH [OF j(4)] Cons.prems(2) by simp_all
    have "card (H - {n, m}) = card H - 2" using j(1-3) Cons.prems(2) by (simp add: card_Diff_subset)
    moreover have "2 \<le> card H" using j(1-3) Cons.prems(2) card_mono [of H "{n, m}"] by simp
    ultimately have "card H = Suc (Suc (length J))" using I(1) \<open>k \<notin> H\<close> Cons.prems(2) by simp
    moreover have "J = [] \<Longrightarrow> r = k" using j(4) by auto
    ultimately show ?case using I(2) by (cases J) auto
  qed auto
  then show "card H = Suc (length J)" "J \<noteq> [] \<Longrightarrow> r = k + length J - 1" by blast+
qed

lemma count_map_upt: "count_list (map f [0..<k]) l = card {x. x < k \<and> f x = l}"
proof (induction k)
  case (Suc k)
  have "{x. x < Suc k \<and> f x = l} = (if f k = l then insert k {x. x < k \<and> f x = l} else {x. x < k \<and> f x = l})"
    by (auto simp: less_Suc_eq)
  then show ?case using Suc by simp
qed simp

text \<open>The fields that \<^verbatim>\<open>build_tree_1\<close> leaves alone.\<close>

definition same_but_build :: "ct \<Rightarrow> ct \<Rightarrow> bool" where
  "same_but_build s s' \<longleftrightarrow> s' = s\<lparr>heap := heap s', heap_len := heap_len s', heap_max := heap_max s', depth := depth s',
     bl_count := bl_count s', opt_len := opt_len s', static_len := static_len s'\<rparr>"

lemma same_but_build_trans: "same_but_build s s' \<Longrightarrow> same_but_build s' s'' \<Longrightarrow> same_but_build s s''"
  by (cases s; cases s'; cases s'') (auto simp: same_but_build_def)

lemma same_but_buildI:
  "same_but_heap s s' \<Longrightarrow> same_but_build s s'" "same_but_lens s s' \<Longrightarrow> same_but_build s s'"
  by (cases s; cases s'; auto simp: same_but_build_def same_but_heap_def same_but_lens_def)+

text \<open>A tree for the symbols below \<open>n\<close> with the lengths \<open>b\<close>.\<close>

definition built :: "nat \<Rightarrow> nat \<Rightarrow> (nat \<Rightarrow> bool) \<Rightarrow> ct_tree \<Rightarrow> nat \<Rightarrow> bool" where
  "built n ml used t mc \<longleftrightarrow> 1 \<le> mc \<and> mc < n \<and> coded t (tree_lengths t (Suc mc)) \<and> kraft (tree_lengths t (Suc mc)) = 2 ^ 16 \<and>
     (\<forall>x \<le> mc. unat (Len (t x)) \<le> ml) \<and> (\<forall>x < n. used x \<longrightarrow> x \<le> mc \<and> Len (t x) \<noteq> 0) \<and> (\<forall>x < n. mc < x \<longrightarrow> Len (t x) = 0)"

lemma gen_codes_built:
  assumes "complete ml V t c" "V \<subseteq> {..<n}" "2 \<le> card V" "\<And>x. x < n \<Longrightarrow> x \<notin> V \<Longrightarrow> Len (t x) = 0" "ml \<le> 15" "\<And>x. used x \<Longrightarrow> x \<in> V"
  shows "built n ml used (gen_codes c t (int (Max V))) (Max V)"
proof -
  have f: "finite V" "V \<noteq> {}" using assms(2,3) finite_subset by auto
  let ?mc = "Max V" and ?t = "gen_codes c t (int (Max V))"
  let ?b = "tree_lengths t (Suc ?mc)"
  have m: "?mc \<in> V" "?mc < n" using Max_in [OF f] assms(2) by auto
  have le: "x \<le> ?mc" if "x \<in> V" for x using that f(1) by simp
  have V: "1 \<le> unat (Len (t x))" "unat (Len (t x)) \<le> ml" if "x \<in> V" for x using assms(1) that by (auto simp: complete_def)
  have ml: "unat (Len (t x)) \<le> ml" if "x < n" for x using V [of x] assms(4) [OF that] by (cases "x \<in> V") auto
  have set: "{x. x < Suc ?mc \<and> unat (Len (t x)) = l} = {x \<in> V. unat (Len (t x)) = l}" if "1 \<le> l" for l
  proof -
    have "x \<in> V" if "x \<le> ?mc" "unat (Len (t x)) = l" for x using assms(4) [of x] that m(2) \<open>1 \<le> l\<close> by fastforce
    then show ?thesis using le by (auto simp: less_Suc_eq_le)
  qed
  have k: "Suc ?mc = nat (int ?mc + 1)" by simp
  have c0: "c 0 = 0"
  proof -
    have "{x \<in> V. unat (Len (t x)) = 0} = {}" using V by fastforce
    then have "card {x \<in> V. unat (Len (t x)) = 0} = 0" by (simp only: card.empty)
    then show ?thesis using assms(1) by (simp add: complete_def)
  qed
  have cl: "c l = of_nat (count_list ?b l)" if "1 \<le> l" "l \<le> 15" for l
    using assms(1) set [OF that(1)] that(2) unfolding tree_lengths_def count_map_upt by (simp add: complete_def)
  have l15: "unat (Len (t x)) \<le> 15" if "x < Suc ?mc" for x using ml [of x] that m(2) assms(5) by simp
  note g = gen_codes_ok [OF k l15 c0 cl]
  have gl: "Len (?t x) = Len (t x)" for x using gen_codes_ok(2) [OF k l15 c0 cl] by simp
  have b: "tree_lengths ?t (Suc ?mc) = ?b" by (rule tree_lengths_cong) (simp add: gl)
  have "kraft ?b = (\<Sum>x < Suc ?mc. if unat (Len (t x)) = 0 then 0 else 2 ^ (16 - unat (Len (t x))))"
    by (simp add: kraft_def tree_lengths_def comp_def interv_sum_list_conv_sum_set_nat atLeast0LessThan del: upt_Suc)
  also have "\<dots> = (\<Sum>x \<in> V. if unat (Len (t x)) = 0 then 0 else 2 ^ (16 - unat (Len (t x))))"
    by (rule sum.mono_neutral_right) (use le m(2) assms(4) in \<open>auto simp: less_Suc_eq_le\<close>)
  also have "\<dots> = (\<Sum>x \<in> V. 2 ^ (16 - ml) * 2 ^ (ml - unat (Len (t x))))"
  proof (rule sum.cong)
    fix x assume "x \<in> V"
    then show "(if unat (Len (t x)) = 0 then 0 else 2 ^ (16 - unat (Len (t x)))) = (2 :: nat) ^ (16 - ml) * 2 ^ (ml - unat (Len (t x)))"
      using V [of x] assms(5) by (simp flip: power_add)
  qed simp
  also have "\<dots> = 2 ^ (16 - ml) * 2 ^ ml" using assms(1) by (simp add: complete_def flip: sum_distrib_left)
  also have "\<dots> = 2 ^ 16" using assms(5) by (simp flip: power_add)
  finally have kr: "kraft ?b = 2 ^ 16" .
  have one: "1 \<le> ?mc"
  proof (rule ccontr)
    assume "\<not> 1 \<le> ?mc"
    then have "V \<subseteq> {0}" using le by force
    then have "card V \<le> 1" using card_mono [of "{0::nat}" V] by simp
    then show False using assms(3) by simp
  qed
  show ?thesis
    unfolding built_def b gl
  proof (intro conjI allI impI)
    show "Len (t x) \<noteq> 0" if "used x" for x using V(1) [of x] assms(6) [OF that] by auto
    show "Len (t x) = 0" if "x < n" "?mc < x" for x using assms(4) [OF that(1)] le [of x] that(2) by fastforce
  qed (use one m(2) g(1) kr ml le assms(6) in auto)
qed

lemma build_tree_1_ok:
  assumes "elems d = n" "3 \<le> n" "n \<le> 286" "1 \<le> max_length d" "max_length d \<le> 15" "n < 2 ^ max_length d"
  shows "\<exists>t' mc s'. build_tree_1 d st t s = Some (t', int mc, s') \<and> built n (max_length d) (\<lambda>x. x < n \<and> Freq (t x) \<noteq> 0) t' mc \<and>
    same_but_build s s'"
proof -
  obtain t1 s1 m1 where i: "init_heap n t s = (t1, s1, m1)" by (rule prod_cases3)
  obtain t2 s2 m2 where f: "force_two st t1 s1 m1 = (t2, s2, m2)" by (rule prod_cases3)
  note I = init_heap_ok [OF i]
  obtain V where V: "{x. x < n \<and> Freq (t x) \<noteq> 0} \<subseteq> V" "2 \<le> card V" "heap_of n V t2 s2 m2"
    "s2 = s1\<lparr>heap := heap s2, heap_len := heap_len s2, depth := depth s2, opt_len := opt_len s2, static_len := static_len s2\<rparr>"
    using force_two_ok [OF I(1) assms(2) f] by blast
  have h: "V \<subseteq> {..<n}" "heap_len s2 = card V" "bag (heap s2) (card V) = mset_set V" "\<And>x. x < n \<Longrightarrow> x \<notin> V \<Longrightarrow> Len (t2 x) = 0"
    "m2 = int (Max V)" "heap_max s2 = HEAP_SIZE" using V(2,3) by (auto simp: heap_of_def)
  have fin: "finite V" by (rule heap_of_finite [OF V(3)])
  have cn: "card V \<le> n" using card_mono [OF _ h(1)] by simp
  have hs: "HEAP_SIZE = 573" by (simp add: HEAP_SIZE_def L_CODES_def LITERALS_def LENGTH_CODES_def)
  define s3 where "s3 = fold (pqdownheap t2) (rev [1..<heap_len s2 div 2 + 1]) s2"
  have "set (rev [1..<heap_len s2 div 2 + 1]) \<subseteq> {1..heap_len s2}" by auto
  from heapify_ok [OF this s3_def] have s3: "bag (heap s3) (heap_len s3) = mset_set V" "heap_len s3 = card V" "heap_max s3 = HEAP_SIZE"
    "same_but_heap s2 s3" using h(2,3,6) by simp_all
  obtain t4 s4 where l: "join_loop n t2 s3 = (t4, s4)" by fastforce
  have V': "x < n" if "x \<in> V" for x using h(1) that by blast
  have "2 \<le> heap_len s3" "2 * heap_len s3 \<le> heap_max s3" using s3(2,3) V(2) cn assms(3) hs by simp_all
  from join_loop_ok [OF this l s3(1) fin V'] obtain J r where J: "joined n V J r" "J \<noteq> []" "heap s4 1 = r"
    "heap_max s4 = HEAP_SIZE - 2 * length J" "map (heap s4) [heap_max s4..<HEAP_SIZE] = pairs J" "same_but_heap s3 s4"
    "fathers n J t4" "\<And>x. x < n \<Longrightarrow> x \<notin> V \<Longrightarrow> Dad (t4 x) = Dad (t2 x)" unfolding s3(3) by blast
  have len: "card V = Suc (length J)" "r = n + length J - 1" using joined_length [OF J(1) fin V'] J(2) by simp_all
  let ?s = "s4\<lparr>heap_max := heap_max s4 - 1, heap := (heap s4)(heap_max s4 - 1 := heap s4 1)\<rparr>"
  have M: "2 \<le> heap_max s4" "heap_max s4 < HEAP_SIZE" "heap_max s4 - 1 + 1 = heap_max s4" using J(2,4) len(1) cn assms(3) hs by (cases J; simp)+
  have mp: "map (heap ?s) [heap_max ?s + 1..<HEAP_SIZE] = pairs J"
  proof -
    have "map (heap ?s) [heap_max s4..<HEAP_SIZE] = map (heap s4) [heap_max s4..<HEAP_SIZE]"
      by (rule map_cong) (use M in auto)
    then show ?thesis using J(5) M(3) by simp
  qed
  have mc: "int x \<le> m2" if "x \<in> V" for x using that fin h(5) by simp
  have mn: "m2 < int n" using h(1,5) fin V(2) Max_in [of V] by fastforce
  have mr: "m2 < int r" using len(2) mn J(2) by (cases J) simp_all
  have "\<exists>t' s'. gen_bitlen d m2 st t4 ?s = Some (t', s') \<and> complete (max_length d) V t' (bl_count s') \<and>
    (\<forall>x < n. x \<notin> V \<longrightarrow> Len (t' x) = Len (t4 x)) \<and> (\<forall>x. fc (t' x) = fc (t4 x)) \<and> same_but_lens ?s s'"
    by (rule gen_bitlen_ok [OF J(1) fin V' _ J(7) mc mn mr assms(4,5) _ _ mp])
      (use len mn cn assms(3,6) J(2,3) M in \<open>simp_all add: Suc_le_eq\<close>)
  then obtain t5 s5 where g: "gen_bitlen d m2 st t4 ?s = Some (t5, s5)" "complete (max_length d) V t5 (bl_count s5)"
    "\<And>x. x < n \<Longrightarrow> x \<notin> V \<Longrightarrow> Len (t5 x) = Len (t4 x)" "same_but_lens ?s s5" by blast
  have z: "Len (t5 x) = 0" if "x < n" "x \<notin> V" for x using g(3) J(8) h(4) that by simp
  have B: "built n (max_length d) (\<lambda>x. x < n \<and> Freq (t x) \<noteq> 0) (gen_codes (bl_count s5) t5 (int (Max V))) (Max V)"
    by (rule gen_codes_built [OF g(2) h(1) V(2) z assms(5)]) (use V(1) in auto)
  have e: "build_tree_1 d st t s = Some (gen_codes (bl_count s5) t5 (int (Max V)), int (Max V), s5)"
    using g(1) unfolding build_tree_1_def assms(1) i f prod.case Let_def s3_def [symmetric] l by (simp add: h(5))
  have "same_but_build s s1" "same_but_build s2 s3" "same_but_build s3 s4" using I(2) s3(4) J(6) same_but_buildI by blast+
  moreover have "same_but_build s1 s2" using V(4) by (cases s1; cases s2) (simp add: same_but_build_def)
  moreover have "same_but_build s4 s5"
    by (rule same_but_build_trans [OF _ same_but_buildI(2) [OF g(4)]]) (simp add: same_but_buildI(1))
  ultimately have "same_but_build s s5" using same_but_build_trans by blast
  then show ?thesis using e B by blast
qed

end
