(* ===== verification/SFI_Trees_Header.thy ===== *)
theory SFI_Trees_Header
  imports SFI_Trees_Build
begin

text \<open>
  The trees as they are sent: \<^verbatim>\<open>scan_tree\<close> counts the symbols that \<^verbatim>\<open>send_tree\<close> sends, and these stand for
  the lengths of the tree, so that the header of a block with its own codes is well-formed.
\<close>

unbundle bit_operations_syntax

section \<open>Runs of lengths\<close>

text \<open>The items that both loops speak of, one run after the other.\<close>

definition run_items :: "nat option \<Rightarrow> nat \<Rightarrow> nat \<Rightarrow> nat \<times> nat \<Rightarrow> clen list" where
  "run_items prev cur cnt lim =
     (if cnt < snd lim then replicate cnt (CLen cur)
      else if cur \<noteq> 0 then (if prev \<noteq> Some cur then [CLen cur, CRep (cnt - 1 - 3)] else [CRep (cnt - 3)])
      else if cnt \<le> 10 then [CZero (cnt - 3)] else [CZeros (cnt - 11)])"

fun runs_of :: "ct_tree \<Rightarrow> nat list \<Rightarrow> nat option \<Rightarrow> nat \<Rightarrow> nat \<Rightarrow> nat \<times> nat \<Rightarrow> clen list" where
  "runs_of t [] prev nxt cnt lim = []"
| "runs_of t (n # ns) prev nxt cnt lim =
     (let cur = nxt; nxt = unat (Len (t (n + 1))); cnt = cnt + 1
      in if cnt < fst lim \<and> cur = nxt then runs_of t ns prev nxt cnt lim
         else run_items prev cur cnt lim @ runs_of t ns (Some cur) nxt 0 (run_limits cur nxt))"

text \<open>The limits fit the previous and the next length.\<close>

definition limits_ok :: "nat option \<Rightarrow> nat \<Rightarrow> nat \<times> nat \<Rightarrow> bool" where
  "limits_ok prev cur lim \<longleftrightarrow> lim = (if cur = 0 then (138, 3) else if prev = Some cur then (6, 3) else (7, 4))"

lemma limits_ok_start: "limits_ok None n (start_limits n)" "limits_ok (Some cur) n (run_limits cur n)"
  by (auto simp: limits_ok_def start_limits_def run_limits_def)

lemma run_items_ok:
  assumes "limits_ok prev cur lim" "1 \<le> cnt" "cnt \<le> fst lim" "prev = Some cur \<Longrightarrow> l = cur"
  shows "clens_expand l (run_items prev cur cnt lim @ cs) = replicate cnt cur @ clens_expand cur cs"
proof -
  have rep: "clens_expand l (replicate n (CLen cur) @ cs) = replicate n cur @ clens_expand cur cs" if "1 \<le> n" for n l
    using that
  proof (induction n arbitrary: l)
    case (Suc n)
    then show ?case by (cases n) auto
  qed simp
  consider "cnt < snd lim" | "\<not> cnt < snd lim" "cur \<noteq> 0" "prev \<noteq> Some cur" | "\<not> cnt < snd lim" "cur \<noteq> 0" "prev = Some cur"
    | "\<not> cnt < snd lim" "cur = 0" by blast
  then show ?thesis
  proof cases
    case 1
    then show ?thesis using rep [OF assms(2)] by (simp add: run_items_def)
  next
    case 2
    then have "Suc (3 + (cnt - 1 - 3)) = cnt" using assms(1) by (simp add: limits_ok_def)
    then have "cur # replicate (3 + (cnt - 1 - 3)) cur = replicate cnt cur" by (metis replicate_Suc)
    then show ?thesis using 2 by (simp add: run_items_def)
  next
    case 3
    then show ?thesis using assms(1,4) by (simp add: run_items_def limits_ok_def)
  next
    case 4
    then show ?thesis using assms(1) by (auto simp: run_items_def limits_ok_def)
  qed
qed

definition clen_range :: "clen \<Rightarrow> bool" where
  "clen_range c \<longleftrightarrow> (case c of CLen n \<Rightarrow> n < 16 | CRep x \<Rightarrow> x < 4 | CZero x \<Rightarrow> x < 8 | CZeros x \<Rightarrow> x < 128)"

lemma clen_ok_range: "clen_ok cb c \<longleftrightarrow> clen_range c \<and> cb ! clen_symbol c \<noteq> 0"
  by (cases c) (auto simp: clen_range_def)

lemma run_items_range:
  assumes "limits_ok prev cur lim" "1 \<le> cnt" "cnt \<le> fst lim" "cur < 16" "c \<in> set (run_items prev cur cnt lim)"
  shows "clen_range c"
  using assms by (auto simp: run_items_def limits_ok_def clen_range_def split: if_splits)

text \<open>The lengths of a tree up to the guard behind it.\<close>

definition guarded :: "ct_tree \<Rightarrow> nat \<Rightarrow> bool" where
  "guarded t k \<longleftrightarrow> Len (t k) = 0xffff \<and> (\<forall>n < k. unat (Len (t n)) < 16)"

lemma runs_of_ok:
  assumes "guarded t k"
  shows "i < k \<Longrightarrow> nxt = unat (Len (t i)) \<Longrightarrow> limits_ok prev nxt lim \<Longrightarrow> cnt < fst lim \<Longrightarrow> (prev = Some nxt \<Longrightarrow> l = nxt) \<Longrightarrow>
    clens_expand l (runs_of t [i..<k] prev nxt cnt lim @ cs) =
      replicate cnt nxt @ map (\<lambda>n. unat (Len (t n))) [i..<k] @ clens_expand (unat (Len (t (k - 1)))) cs \<and>
    (\<forall>c \<in> set (runs_of t [i..<k] prev nxt cnt lim). clen_range c)"
proof (induction "k - i" arbitrary: i prev nxt cnt lim l)
  case (Suc d)
  let ?L = "\<lambda>n. unat (Len (t n))"
  have up: "[i..<k] = i # [Suc i..<k]" using Suc.prems(1) by (simp add: upt_conv_Cons)
  have cur: "nxt < 16" using assms Suc.prems(1,2) by (simp add: guarded_def)
  have last: "Suc i = k \<Longrightarrow> nxt \<noteq> ?L (Suc i)" using assms cur by (auto simp: guarded_def)
  show ?case
  proof (cases "cnt + 1 < fst lim \<and> nxt = ?L (Suc i)")
    case True
    then have i: "Suc i < k" using last Suc.prems(1) by (cases "Suc i = k") auto
    have e: "runs_of t [i..<k] prev nxt cnt lim = runs_of t [Suc i..<k] prev (?L (Suc i)) (cnt + 1) lim"
      using True unfolding up by (simp add: Let_def)
    have r: "replicate (cnt + 1) nxt = replicate cnt nxt @ [nxt]" by (simp add: replicate_append_same)
    have "clens_expand l (runs_of t [Suc i..<k] prev (?L (Suc i)) (cnt + 1) lim @ cs) =
        replicate (cnt + 1) (?L (Suc i)) @ map ?L [Suc i..<k] @ clens_expand (?L (k - 1)) cs \<and>
      (\<forall>c \<in> set (runs_of t [Suc i..<k] prev (?L (Suc i)) (cnt + 1) lim). clen_range c)"
      by (rule Suc.hyps(1)) (use Suc.hyps(2) Suc.prems True i in auto)
    then show ?thesis unfolding e using True Suc.prems(2) r by (simp add: up)
  next
    case False
    let ?lim = "run_limits nxt (?L (Suc i))"
    have e: "runs_of t [i..<k] prev nxt cnt lim =
        run_items prev nxt (cnt + 1) lim @ runs_of t [Suc i..<k] (Some nxt) (?L (Suc i)) 0 ?lim"
      using False unfolding up by (auto simp: Let_def)
    have c1: "1 \<le> cnt + 1" "cnt + 1 \<le> fst lim" using Suc.prems(4) by simp_all
    have x: "clens_expand l (run_items prev nxt (cnt + 1) lim @ cs') = replicate (cnt + 1) nxt @ clens_expand nxt cs'" for cs'
      by (rule run_items_ok [OF Suc.prems(3) c1]) (rule Suc.prems(5))
    note rg = run_items_range [OF Suc.prems(3) c1 cur]
    have rest: "clens_expand nxt (runs_of t [Suc i..<k] (Some nxt) (?L (Suc i)) 0 ?lim @ cs) =
        map ?L [Suc i..<k] @ clens_expand (?L (k - 1)) cs \<and>
      (\<forall>c \<in> set (runs_of t [Suc i..<k] (Some nxt) (?L (Suc i)) 0 ?lim). clen_range c)"
    proof (cases "Suc i = k")
      case True
      then show ?thesis using Suc.prems(2) by auto
    next
      case False
      have "clens_expand nxt (runs_of t [Suc i..<k] (Some nxt) (?L (Suc i)) 0 ?lim @ cs) =
          replicate 0 (?L (Suc i)) @ map ?L [Suc i..<k] @ clens_expand (?L (k - 1)) cs \<and>
        (\<forall>c \<in> set (runs_of t [Suc i..<k] (Some nxt) (?L (Suc i)) 0 ?lim). clen_range c)"
        by (rule Suc.hyps(1)) (use Suc.hyps(2) Suc.prems(1) False limits_ok_start(2) in \<open>auto simp: run_limits_def\<close>)
      then show ?thesis by simp
    qed
    have r: "replicate (cnt + 1) nxt = replicate cnt nxt @ [nxt]" by (simp add: replicate_append_same)
    show ?thesis unfolding e append_assoc x using rest rg Suc.prems(2) r by (auto simp: up)
  qed
qed simp

section \<open>Counting the runs\<close>

lemma Freq_add: "Freq (add_freq n k t m) = Freq (t m) + (if m = n then of_nat k else 0)"
  by (simp add: add_freq_def set_fc_def)

lemma scan_loop_ok:
  "Freq (scan_loop t ns prev nxt cnt lim bl m) = Freq (bl m) + of_nat (count_list (map clen_symbol (runs_of t ns prev nxt cnt lim)) m)"
proof (induction t ns prev nxt cnt lim bl rule: scan_loop.induct)
  case (2 t n ns prev nxt cnt lim bl)
  let ?n = "unat (Len (t (n + 1)))"
  have r: "Freq ((if cnt + 1 < snd lim then add_freq nxt (cnt + 1) bl
      else if nxt \<noteq> 0 then inc_freq REP_3_6 (if prev \<noteq> Some nxt then inc_freq nxt bl else bl)
      else if cnt + 1 \<le> 10 then inc_freq REPZ_3_10 bl else inc_freq REPZ_11_138 bl) m) =
    Freq (bl m) + of_nat (count_list (map clen_symbol (run_items prev nxt (cnt + 1) lim)) m)"
    by (auto simp: run_items_def Freq_add inc_freq_at count_list_replicate REP_3_6_def REPZ_3_10_def REPZ_11_138_def)
  show ?case
  proof (cases "cnt + 1 < fst lim \<and> nxt = ?n")
    case True
    then show ?thesis using "2.IH"(1) [OF refl refl refl True] by (simp add: Let_def)
  next
    case False
    show ?thesis unfolding scan_loop.simps runs_of.simps Let_def if_not_P [OF False] "2.IH"(2) [OF refl refl refl False] r
      by simp
  qed
qed simp

section \<open>Sending the runs\<close>

lemma send_times_sends:
  assumes "io_ok S" "coded bl cb" "c < length cb" "n \<noteq> 0 \<Longrightarrow> cb ! c \<noteq> 0"
  shows "bi_inv g \<Longrightarrow> sends False (send_times S n c bl g) g (concat (replicate n (canon_bits cb c)))"
  using assms(4)
proof (induction n arbitrary: g)
  case (Suc n)
  then show ?case by (auto intro!: sends_bind' send_code_sends [OF assms(1) _ assms(2,3)])
qed (simp add: sends_Nil)

lemma send_number_sends:
  assumes "io_ok S" "bi_inv g" "1 \<le> n" "n \<le> 16" "x < 2 ^ n"
  shows "sends False (send_bits S (of_nat x) n g) g (bits_of n (of_nat x :: u32))"
  using send_bits_sends [OF assms(1-4), of "of_nat x"] assms(5) by (simp add: take_bit_of_nat take_bit_nat_eq_self)

lemma send_run_sends:
  assumes io: "io_ok S" and g: "bi_inv g" and c: "coded bl cb" "length cb = 19" and l: "limits_ok prev cur lim" "1 \<le> cnt" "cnt \<le> fst lim"
    and h: "\<forall>c \<in> set (run_items prev cur cnt lim). clen_ok cb c"
  shows "sends False (if cnt < snd lim then send_times S cnt cur bl g
      else if cur \<noteq> 0
      then let (cnt, first) = (if prev \<noteq> Some cur then (cnt - 1, send_code S cur bl g) else (cnt, Return () g))
        in out_bind first (\<lambda>_ g. out_bind (send_code S REP_3_6 bl g) (\<lambda>_. send_bits S (of_nat (cnt - 3)) 2))
      else if cnt \<le> 10
      then out_bind (send_code S REPZ_3_10 bl g) (\<lambda>_. send_bits S (of_nat (cnt - 3)) 3)
      else out_bind (send_code S REPZ_11_138 bl g) (\<lambda>_. send_bits S (of_nat (cnt - 11)) 7)) g
    (concat (map (clen_bits cb) (run_items prev cur cnt lim)))" (is "sends False ?r g (concat (map _ ?items))")
proof -
  note code = send_code_sends [OF io _ c(1)] and num = send_number_sends [OF io]
  consider (short) "cnt < snd lim" | (new) "\<not> cnt < snd lim" "cur \<noteq> 0" "prev \<noteq> Some cur"
    | (old) "\<not> cnt < snd lim" "cur \<noteq> 0" "prev = Some cur" | (few) "\<not> cnt < snd lim" "cur = 0" "cnt \<le> 10"
    | (many) "\<not> cnt < snd lim" "cur = 0" "\<not> cnt \<le> 10" by blast
  then show ?thesis
  proof cases
    case short
    have "concat (map (clen_bits cb) ?items) = concat (replicate cnt (canon_bits cb cur))"
      using short by (simp add: run_items_def clen_bits_def)
    moreover have "cur < 16" "cb ! cur \<noteq> 0" using h short l(2) by (auto simp: run_items_def)
    ultimately show ?thesis using short send_times_sends [OF io c(1) _ _ g, of cur cnt] c(2) by simp
  next
    case new
    have e: "concat (map (clen_bits cb) ?items) = canon_bits cb cur @ canon_bits cb 16 @ bits_of 2 (of_nat (cnt - 1 - 3) :: u32)"
      using new by (simp add: run_items_def clen_bits_def)
    have "cur < 16" "cb ! cur \<noteq> 0" "cb ! 16 \<noteq> 0" "cnt - 1 - 3 < 2 ^ 2" using h new by (auto simp: run_items_def)
    then have "sends False (out_bind (send_code S cur bl g) (\<lambda>_ g. out_bind (send_code S 16 bl g) (\<lambda>_. send_bits S (of_nat (cnt - 1 - 3)) 2))) g
      (canon_bits cb cur @ canon_bits cb 16 @ bits_of 2 (of_nat (cnt - 1 - 3) :: u32))"
      using c(2) by (intro sends_bind' code num g) auto
    then show ?thesis unfolding e using new by (simp add: REP_3_6_def)
  next
    case old
    have e: "concat (map (clen_bits cb) ?items) = canon_bits cb 16 @ bits_of 2 (of_nat (cnt - 3) :: u32)"
      using old by (simp add: run_items_def clen_bits_def)
    have "cb ! 16 \<noteq> 0" "cnt - 3 < 2 ^ 2" using h old by (auto simp: run_items_def)
    then have "sends False (out_bind (send_code S 16 bl g) (\<lambda>_. send_bits S (of_nat (cnt - 3)) 2)) g
      (canon_bits cb 16 @ bits_of 2 (of_nat (cnt - 3) :: u32))"
      using c(2) by (intro sends_bind' code num g) auto
    then show ?thesis unfolding e using old by (simp add: REP_3_6_def)
  next
    case few
    have e: "concat (map (clen_bits cb) ?items) = canon_bits cb 17 @ bits_of 3 (of_nat (cnt - 3) :: u32)"
      using few by (simp add: run_items_def clen_bits_def)
    have "cb ! 17 \<noteq> 0" "cnt - 3 < 2 ^ 3" using h few by (auto simp: run_items_def)
    then have "sends False (out_bind (send_code S 17 bl g) (\<lambda>_. send_bits S (of_nat (cnt - 3)) 3)) g
      (canon_bits cb 17 @ bits_of 3 (of_nat (cnt - 3) :: u32))"
      using c(2) by (intro sends_bind' code num g) auto
    then show ?thesis unfolding e using few by (simp add: REPZ_3_10_def)
  next
    case many
    have e: "concat (map (clen_bits cb) ?items) = canon_bits cb 18 @ bits_of 7 (of_nat (cnt - 11) :: u32)"
      using many by (simp add: run_items_def clen_bits_def)
    have "cb ! 18 \<noteq> 0" "cnt - 11 < 2 ^ 7" using h many by (auto simp: run_items_def)
    then have "sends False (out_bind (send_code S 18 bl g) (\<lambda>_. send_bits S (of_nat (cnt - 11)) 7)) g
      (canon_bits cb 18 @ bits_of 7 (of_nat (cnt - 11) :: u32))"
      using c(2) by (intro sends_bind' code num g) auto
    then show ?thesis unfolding e using many by (simp add: REPZ_11_138_def)
  qed
qed

lemma send_loop_sends:
  assumes io: "io_ok S" and c: "coded bl cb" "length cb = 19"
  shows "bi_inv g \<Longrightarrow> limits_ok prev nxt lim \<Longrightarrow> cnt < fst lim \<Longrightarrow> (\<forall>c \<in> set (runs_of t ns prev nxt cnt lim). clen_ok cb c) \<Longrightarrow>
    sends False (send_loop S bl t ns prev nxt cnt lim g) g (concat (map (clen_bits cb) (runs_of t ns prev nxt cnt lim)))"
proof (induction ns arbitrary: prev nxt cnt lim g)
  case (Cons n ns)
  let ?n = "unat (Len (t (n + 1)))"
  show ?case
  proof (cases "cnt + 1 < fst lim \<and> nxt = ?n")
    case True
    then show ?thesis using Cons.IH [OF Cons.prems(1), of prev nxt lim "cnt + 1"] Cons.prems by (simp add: Let_def)
  next
    case False
    have e: "runs_of t (n # ns) prev nxt cnt lim = run_items prev nxt (cnt + 1) lim @ runs_of t ns (Some nxt) ?n 0 (run_limits nxt ?n)"
      using False by (auto simp: Let_def)
    have c1: "1 \<le> cnt + 1" "cnt + 1 \<le> fst lim" using Cons.prems(3) by simp_all
    have h: "\<forall>c \<in> set (run_items prev nxt (cnt + 1) lim). clen_ok cb c"
      "\<forall>c \<in> set (runs_of t ns (Some nxt) ?n 0 (run_limits nxt ?n)). clen_ok cb c" using Cons.prems(4) unfolding e by auto
    have "0 < fst (run_limits nxt ?n)" by (simp add: run_limits_def)
    note s = sends_bind' [OF send_run_sends [OF io Cons.prems(1) c Cons.prems(2) c1 h(1)] Cons.IH [OF _ limits_ok_start(2) this h(2)]]
    show ?thesis using s unfolding e send_loop.simps Let_def if_not_P [OF False] map_append concat_append .
  qed
qed (simp add: sends_Nil)

section \<open>The header of a block\<close>

lemma canon_bits_zeros:
  assumes "n < length b" "b ! n \<noteq> 0" shows "canon_bits (b @ replicate z 0) n = canon_bits b n"
proof -
  have "count_list (b @ replicate z 0) l = count_list b l" if "l \<noteq> 0" for l using that by (simp add: count_list_replicate)
  then have "(\<Sum>s = 1..<b ! n. count_list (b @ replicate z 0) s * 2 ^ (b ! n - s)) = (\<Sum>s = 1..<b ! n. count_list b s * 2 ^ (b ! n - s))"
    by (intro sum.cong) auto
  then show ?thesis using assms by (simp add: canon_bits_def canon_code_def nth_append)
qed

lemma built_all:
  assumes "built n ml used t mc" "ml \<le> 15"
  shows "tree_lengths t n = tree_lengths t (Suc mc) @ replicate (n - Suc mc) 0" "coded t (tree_lengths t n)"
    "set_ok (tree_lengths t n)" "set_ok (tree_lengths t (Suc mc))"
proof -
  let ?b = "tree_lengths t (Suc mc)"
  have b: "mc < n" "coded t ?b" "kraft ?b = 2 ^ 16" "\<And>x. x \<le> mc \<Longrightarrow> unat (Len (t x)) \<le> ml" "\<And>x. x < n \<Longrightarrow> mc < x \<Longrightarrow> Len (t x) = 0"
    using assms(1) by (auto simp: built_def)
  show e: "tree_lengths t n = ?b @ replicate (n - Suc mc) 0"
    by (rule nth_equalityI) (use b(1,5) in \<open>auto simp: nth_append less_Suc_eq_le\<close>)
  have k: "kraft (tree_lengths t n) = 2 ^ 16" using b(3) unfolding e by (simp add: kraft_def sum_list_replicate)
  have z: "kraft xs = 0" if "\<forall>l \<in> set xs. l = 0" for xs using that by (induction xs) (auto simp: kraft_def)
  have le': "l \<le> 15" if "l \<in> set ?b" for l
  proof -
    obtain x where "x < Suc mc" "l = unat (Len (t x))" using \<open>l \<in> set ?b\<close> unfolding in_set_conv_nth by auto
    then show ?thesis using b(4) [of x] assms(2) by simp
  qed
  have le: "l \<le> 15" if "l \<in> set (tree_lengths t n)" for l using that le' unfolding e by auto
  show "set_ok ?b" using b(3) z [of ?b] le' by (fastforce simp: set_ok_def lengths_ok_def)
  show "set_ok (tree_lengths t n)" using k z [of "tree_lengths t n"] le by (fastforce simp: set_ok_def lengths_ok_def)
  show "coded t (tree_lengths t n)"
    unfolding coded_def
  proof (intro allI impI)
    fix x assume x: "x < length (tree_lengths t n)"
    have l: "tree_lengths t n ! x \<le> 15" using le x nth_mem by blast
    show "unat (Len (t x)) = tree_lengths t n ! x \<and> tree_lengths t n ! x \<le> 15 \<and> (tree_lengths t n ! x \<noteq> 0 \<longrightarrow>
      take_bit (tree_lengths t n ! x) (ucast (Code (t x)) :: u32) = ucast (Code (t x)) \<and>
      bits_of (tree_lengths t n ! x) (ucast (Code (t x)) :: u32) = canon_bits (tree_lengths t n) x)"
    proof (intro conjI impI l)
      show "unat (Len (t x)) = tree_lengths t n ! x" using x by simp
      assume "tree_lengths t n ! x \<noteq> 0"
      then have nz: "unat (Len (t x)) \<noteq> 0" using x by simp
      then have xm: "x < Suc mc" using b(5) [of x] x by (cases "mc < x") auto
      then have c: "canon_bits (tree_lengths t n) x = canon_bits ?b x" unfolding e using nz by (intro canon_bits_zeros) auto
      show "take_bit (tree_lengths t n ! x) (ucast (Code (t x)) :: u32) = ucast (Code (t x))"
        "bits_of (tree_lengths t n ! x) (ucast (Code (t x)) :: u32) = canon_bits (tree_lengths t n) x"
        using b(2) xm nz x unfolding c by (auto simp: coded_def)
    qed
  qed
qed

lemma length_clens: "length cs \<le> length (clens_expand l cs)"
proof (induction cs arbitrary: l)
  case (Cons c cs)
  have "1 \<le> length (clen_run l c)" by (cases c) simp_all
  then show ?case using Cons.IH [of "clen_last l c"] by simp
qed simp

lemma expand_zeros: "(\<And>n. CLen n \<notin> set cs) \<Longrightarrow> set (clens_expand l cs) \<subseteq> {0, l}"
proof (induction cs arbitrary: l)
  case (Cons c cs)
  then have "set (clens_expand (clen_last l c) cs) \<subseteq> {0, clen_last l c}" by auto
  then show ?case using Cons.prems by (cases c) auto
qed simp

lemma last_blindex_ok:
  "3 \<le> j \<Longrightarrow> j \<le> i \<Longrightarrow> Len (bl (bl_order ! j)) \<noteq> 0 \<Longrightarrow>
    3 \<le> last_blindex bl i \<and> last_blindex bl i \<le> i \<and> (\<forall>x. last_blindex bl i < x \<and> x \<le> i \<longrightarrow> Len (bl (bl_order ! x)) = 0)"
proof (induction i)
  case (Suc i)
  show ?case
  proof (cases "Len (bl (bl_order ! Suc i)) = 0")
    case True
    then have j: "j \<le> i" using Suc.prems by (metis le_SucE)
    have "last_blindex bl (Suc i) = last_blindex bl i" using True Suc.prems(1,2) by (subst last_blindex.simps) simp
    then show ?thesis using Suc.IH [OF Suc.prems(1) j Suc.prems(3)] True by (auto simp: le_Suc_eq)
  next
    case False
    have "last_blindex bl (Suc i) = Suc i" using False by (subst last_blindex.simps) simp
    then show ?thesis using Suc.prems by auto
  qed
qed simp

lemma order_border: "bl_order = border"
  by (simp add: bl_order_def border_def)

lemma border_small: "m < 16 \<Longrightarrow> \<exists>j. 3 \<le> j \<and> j \<le> 18 \<and> border ! j = m"
proof -
  assume "m < 16"
  then have "m \<in> set (drop 3 border)" by (simp add: border_def) presburger
  then obtain i where "i < 16" "border ! (3 + i) = m" unfolding in_set_conv_nth by (auto simp: set_border(2))
  then show ?thesis by (intro exI [of _ "3 + i"]) simp
qed

text \<open>The state with the guards, the runs of both trees and the header that they make.\<close>

definition guard_tree :: "ct_tree \<Rightarrow> nat \<Rightarrow> ct_tree" where
  "guard_tree t mc = set_dl (Suc mc) 0xffff t"

definition tree_runs :: "ct_tree \<Rightarrow> nat \<Rightarrow> clen list" where
  "tree_runs t mc = runs_of t [0..<Suc mc] None (unat (Len (t 0))) 0 (start_limits (unat (Len (t 0))))"

definition sent_header :: "ct \<Rightarrow> nat \<Rightarrow> nat \<Rightarrow> nat \<Rightarrow> header" where
  "sent_header s lm dm i = \<lparr>h_nb = i + 1, h_cb = tree_lengths (bl_tree s) 19, h_runs = tree_runs (dyn_ltree s) lm @ tree_runs (dyn_dtree s) dm,
     h_lb = tree_lengths (dyn_ltree s) (Suc lm), h_db = tree_lengths (dyn_dtree s) (Suc dm)\<rparr>"

lemma scan_tree_ok:
  "scan_tree t (int mc) bl = (guard_tree t mc, scan_loop (guard_tree t mc) [0..<Suc mc] None (unat (Len (guard_tree t mc 0))) 0
     (start_limits (unat (Len (guard_tree t mc 0)))) bl)"
  "scan_tree t (int mc) bl = (t', bl') \<Longrightarrow> Freq (bl' m) = Freq (bl m) + of_nat (count_list (map clen_symbol (tree_runs (guard_tree t mc) mc)) m)"
proof -
  have k: "nat (int mc + 1) = Suc mc" by simp
  show 1: "scan_tree t (int mc) bl = (guard_tree t mc, scan_loop (guard_tree t mc) [0..<Suc mc] None (unat (Len (guard_tree t mc 0))) 0
     (start_limits (unat (Len (guard_tree t mc 0)))) bl)"
    unfolding scan_tree_def k Let_def by (simp add: guard_tree_def set_dl_def del: upt_Suc)
  assume "scan_tree t (int mc) bl = (t', bl')"
  then show "Freq (bl' m) = Freq (bl m) + of_nat (count_list (map clen_symbol (tree_runs (guard_tree t mc) mc)) m)"
    unfolding 1 by (auto simp only: prod.inject scan_loop_ok tree_runs_def)
qed

lemma guard_tree_ok:
  assumes "built n ml used t mc" "ml \<le> 15"
  shows "guarded (guard_tree t mc) (Suc mc)" "tree_lengths (guard_tree t mc) (Suc mc) = tree_lengths t (Suc mc)"
    "coded (guard_tree t mc) (tree_lengths t (Suc mc))"
proof -
  have le: "unat (Len (t x)) \<le> 15" if "x < Suc mc" for x using assms that by (fastforce simp: built_def less_Suc_eq_le)
  have "unat (Len (t x)) < 16" if "x < Suc mc" for x using le [OF that] by simp
  then show "guarded (guard_tree t mc) (Suc mc)" by (auto simp: guarded_def guard_tree_def set_dl_def)
  show "tree_lengths (guard_tree t mc) (Suc mc) = tree_lengths t (Suc mc)"
    by (rule tree_lengths_cong) (simp add: guard_tree_def set_dl_def)
  have "coded t (tree_lengths t (Suc mc))" using assms(1) by (simp add: built_def)
  then show "coded (guard_tree t mc) (tree_lengths t (Suc mc))" by (simp add: coded_def guard_tree_def set_dl_def)
qed

lemma tree_runs_ok:
  assumes "guarded t (Suc mc)"
  shows "clens_expand l (tree_runs t mc @ cs) = tree_lengths t (Suc mc) @ clens_expand (unat (Len (t mc))) cs"
    "\<forall>c \<in> set (tree_runs t mc). clen_range c"
  using runs_of_ok [OF assms, of 0 "unat (Len (t 0))" None "start_limits (unat (Len (t 0)))" 0 l cs] limits_ok_start(1)
  by (simp_all add: tree_runs_def tree_lengths_def start_limits_def del: upt_Suc)

lemma border_index: "j \<in> set (drop k border) \<Longrightarrow> k \<le> 19 \<Longrightarrow> \<exists>x. k \<le> x \<and> x \<le> 18 \<and> border ! x = j"
  unfolding in_set_conv_nth
proof (elim exE conjE)
  fix i assume "i < length (drop k border)" "drop k border ! i = j" "k \<le> 19"
  then show "\<exists>x. k \<le> x \<and> x \<le> 18 \<and> border ! x = j" by (intro exI [of _ "k + i"]) (simp add: set_border(2))
qed

lemma same_but_buildD:
  assumes "same_but_build s s'"
  shows "dyn_ltree s' = dyn_ltree s" "dyn_dtree s' = dyn_dtree s" "bl_tree s' = bl_tree s" "last_lit s' = last_lit s" "l_buf s' = l_buf s"
    "d_buf s' = d_buf s" "flag_buf s' = flag_buf s" "same_tables s s'" "l_max s' = l_max s" "d_max s' = d_max s"
    "compressed_len s' = compressed_len s" "input_len s' = input_len s" "file_type s' = file_type s"
  using assms by (cases s; cases s'; simp add: same_but_build_def same_tables_def)+

lemma build_bl_tree_ok:
  assumes L: "built 286 15 ul (dyn_ltree s) lm" "l_max s = int lm" "ul 256" and D: "built 30 15 ud (dyn_dtree s) dm" "d_max s = int dm"
    and z: "\<And>m. m < 19 \<Longrightarrow> Freq (bl_tree s m) = 0"
  shows "\<exists>i s'. build_bl_tree s = Some (i, s') \<and> dyn_ltree s' = guard_tree (dyn_ltree s) lm \<and> dyn_dtree s' = guard_tree (dyn_dtree s) dm \<and>
    header_ok (sent_header s' lm dm i) \<and> coded (bl_tree s') (tree_lengths (bl_tree s') 19) \<and>
    same_but_build (s\<lparr>dyn_ltree := dyn_ltree s', dyn_dtree := dyn_dtree s', bl_tree := bl_tree s'\<rparr>) s'"
proof -
  let ?lt = "guard_tree (dyn_ltree s) lm" and ?dt = "guard_tree (dyn_dtree s) dm"
  obtain bl1 where bl1: "scan_tree (dyn_ltree s) (int lm) (bl_tree s) = (?lt, bl1)" using scan_tree_ok(1) by blast
  obtain bl2 where bl2: "scan_tree (dyn_dtree s) (int dm) bl1 = (?dt, bl2)" using scan_tree_ok(1) by blast
  define runs where "runs = tree_runs ?lt lm @ tree_runs ?dt dm"
  let ?s = "s\<lparr>dyn_ltree := ?lt, dyn_dtree := ?dt\<rparr>"
  let ?lb = "tree_lengths (dyn_ltree s) (Suc lm)" and ?db = "tree_lengths (dyn_dtree s) (Suc dm)"
  have lm: "256 \<le> lm" "lm < 286" "Len (dyn_ltree s 256) \<noteq> 0" and dm: "1 \<le> dm" "dm < 30" using L D by (auto simp: built_def)
  note gl = guard_tree_ok [OF L(1) order_refl] and gd = guard_tree_ok [OF D(1) order_refl]
  note rl = tree_runs_ok [OF gl(1)] and rd = tree_runs_ok [OF gd(1)]
  have ex: "clens_expand 0 runs = ?lb @ ?db" using rl(1) rd(1) [where cs = "[]"] gl(2) gd(2) by (simp add: runs_def)
  have n: "length runs \<le> 316" using length_clens [of runs 0] lm dm unfolding ex by simp
  have rg: "clen_range c" if "c \<in> set runs" for c using that rl(2) rd(2) by (auto simp: runs_def)
  have fr: "Freq (bl2 m) = of_nat (count_list (map clen_symbol runs) m)" if "m < 19" for m
    using scan_tree_ok(2) [OF bl2, of m] scan_tree_ok(2) [OF bl1, of m] z [OF that] by (simp add: runs_def)
  have used: "clen_symbol c < 19 \<and> Freq (bl2 (clen_symbol c)) \<noteq> 0" if "c \<in> set runs" for c
  proof -
    have c: "clen_symbol c < 19" using rg [OF that] by (cases c) (auto simp: clen_range_def)
    have "count_list (map clen_symbol runs) (clen_symbol c) \<noteq> 0" using that by (auto simp: count_list_0_iff)
    moreover have "count_list (map clen_symbol runs) (clen_symbol c) \<le> 316" using n count_le_length [of "map clen_symbol runs" "clen_symbol c"] by simp
    ultimately show ?thesis using c fr [OF c] by (simp add: word_of_nat_eq_0_iff nat_dvd_not_less)
  qed
  have e: "elems bl_desc = 19" "max_length bl_desc = 7" by (simp_all add: bl_desc_def BL_CODES_def MAX_BL_BITS_def)
  obtain bl bm s2 where b: "build_tree_1 bl_desc None bl2 ?s = Some (bl, int bm, s2)" "built 19 7 (\<lambda>x. x < 19 \<and> Freq (bl2 x) \<noteq> 0) bl bm"
    "same_but_build ?s s2" using build_tree_1_ok [OF e(1), of None bl2 ?s] e(2) by auto
  let ?i = "last_blindex bl 18" and ?cb = "tree_lengths bl 19"
  define s' where "s' = s2\<lparr>bl_tree := bl, opt_len := opt_len s2 + of_nat (3 * (?i + 1) + 5 + 5 + 4)\<rparr>"
  have r: "build_bl_tree s = Some (?i, s')"
    unfolding build_bl_tree_def L(2) D(2) bl1 bl2 prod.case Let_def b(1) option.case BL_CODES_def by (simp add: s'_def)
  have f: "dyn_ltree s' = ?lt" "dyn_dtree s' = ?dt" "bl_tree s' = bl"
    using same_but_buildD [OF b(3)] by (simp_all add: s'_def)
  note ba = built_all [OF b(2)]
  have cbn: "?cb ! clen_symbol c \<noteq> 0" if "c \<in> set runs" for c
  proof -
    have "Len (bl (clen_symbol c)) \<noteq> 0" using b(2) used [OF that] unfolding built_def by blast
    then show ?thesis using used [OF that] by (simp add: unat_eq_zero)
  qed
  have le7: "unat (Len (bl x)) \<le> 7" if "x < 19" for x
    using b(2) that by (cases "x \<le> bm") (auto simp: built_def)
  have lt8: "unat (Len (bl x)) < 8" if "x < 19" for x using le7 [OF that] by simp
  have "\<exists>m. CLen m \<in> set runs"
  proof (rule ccontr)
    assume "\<nexists>m. CLen m \<in> set runs"
    then have "set (?lb @ ?db) \<subseteq> {0}" using expand_zeros [of runs 0] unfolding ex by auto
    moreover have "?lb ! 256 \<in> set ?lb" using lm by (intro nth_mem) simp
    ultimately have "?lb ! 256 = 0" by auto
    then show False using lm by (simp add: unat_eq_zero)
  qed
  then obtain m where m: "CLen m \<in> set runs" by blast
  have "m < 16" "Len (bl m) \<noteq> 0" using rg [OF m] cbn [OF m] by (auto simp: clen_range_def)
  then obtain j where "3 \<le> j" "j \<le> 18" "Len (bl (bl_order ! j)) \<noteq> 0" using border_small unfolding order_border by blast
  from last_blindex_ok [where bl = bl, OF this] have i: "3 \<le> ?i" "?i \<le> 18" "\<And>x. ?i < x \<Longrightarrow> x \<le> 18 \<Longrightarrow> Len (bl (border ! x)) = 0"
    unfolding order_border by blast+
  have zero: "?cb ! o' = 0" if "o' \<in> set (drop (?i + 1) border)" for o'
  proof -
    obtain x where "?i + 1 \<le> x" "x \<le> 18" "border ! x = o'" using border_index [OF \<open>o' \<in> set (drop (?i + 1) border)\<close>] i(2) by auto
    moreover have "o' < 19" using that set_border(1) in_set_dropD by fastforce
    ultimately show ?thesis using i(3) [of x] by simp
  qed
  have "header_ok (sent_header s' lm dm ?i)"
    unfolding header_ok_def sent_header_def header.simps f gl(2) gd(2) runs_def [symmetric]
    using i(1,2) zero lt8 ba(3) cbn rg ex lm dm built_all(4) [OF L(1)] built_all(4) [OF D(1)]
    by (auto simp: clen_ok_range less_Suc_eq_le)
  moreover have "same_but_build (s\<lparr>dyn_ltree := dyn_ltree s', dyn_dtree := dyn_dtree s', bl_tree := bl_tree s'\<rparr>) s'"
    using b(3) unfolding f by (cases s; cases s2) (simp add: s'_def same_but_build_def)
  ultimately show ?thesis using r f ba(2) by auto
qed

lemma send_bl_lengths_sends:
  assumes "io_ok S" "\<forall>o' \<in> set os. o' < 19 \<and> unat (Len (bl o')) < 8"
  shows "bi_inv g \<Longrightarrow> sends False (send_bl_lengths S bl os g) g (concat (map (\<lambda>o'. bits_of 3 (of_nat (tree_lengths bl 19 ! o') :: u32)) os))"
  using assms(2)
proof (induction os arbitrary: g)
  case (Cons x os)
  have "ucast (Len (bl x)) = (of_nat (unat (Len (bl x))) :: u32)" by simp
  then have "sends False (send_bits S (ucast (Len (bl x))) 3 g) g (bits_of 3 (of_nat (unat (Len (bl x))) :: u32))"
    using send_number_sends [OF assms(1) Cons.prems(1), of 3 "unat (Len (bl x))"] Cons.prems(2) by simp
  then show ?case using Cons sends_bind' by fastforce
qed (simp add: sends_Nil)

lemma send_tree_sends:
  assumes "io_ok S" "bi_inv g" "coded bl cb" "length cb = 19" "\<forall>c \<in> set (tree_runs t mc). clen_ok cb c"
  shows "sends False (send_tree S bl t (int mc) g) g (concat (map (clen_bits cb) (tree_runs t mc)))"
proof -
  have k: "nat (int mc + 1) = Suc mc" by simp
  have "0 < fst (start_limits (unat (Len (t 0))))" by (simp add: start_limits_def)
  then show ?thesis unfolding send_tree_def k Let_def tree_runs_def
    by (intro send_loop_sends [OF assms(1,3,4,2) limits_ok_start(1)]) (use assms(5) in \<open>simp_all add: tree_runs_def del: upt_Suc\<close>)
qed

lemma send_all_trees_sends:
  assumes io: "io_ok S" and g: "bi_inv g" and h: "header_ok (sent_header s lm dm i)" and c: "coded (bl_tree s) (tree_lengths (bl_tree s) 19)"
  shows "sends False (send_all_trees S s (int lm + 1) (int dm + 1) (i + 1) g) g (header_bits (sent_header s lm dm i))"
proof -
  let ?cb = "tree_lengths (bl_tree s) 19"
  have b: "3 \<le> i" "i + 1 \<le> 19" "256 \<le> lm" "lm < 286" "dm < 30" "\<And>x. x < 19 \<Longrightarrow> unat (Len (bl_tree s x)) < 8"
    "\<forall>c \<in> set (tree_runs (dyn_ltree s) lm). clen_ok ?cb c" "\<forall>c \<in> set (tree_runs (dyn_dtree s) dm). clen_ok ?cb c"
    using h unfolding header_ok_def sent_header_def header.simps set_append ball_Un by simp_all
  have n: "of_int (int lm + 1 - 257) = (of_nat (Suc lm - 257) :: u32)" "of_int (int dm + 1 - 1) = (of_nat (Suc dm - 1) :: u32)"
    "of_nat (i + 1) - 4 = (of_nat (i + 1 - 4) :: u32)" "int lm + 1 - 1 = int lm" "int dm + 1 - 1 = int dm"
    using b(1,3) by (simp_all add: of_nat_diff)
  have o: "\<forall>o' \<in> set (take (i + 1) border). o' < 19 \<and> unat (Len (bl_tree s o')) < 8"
  proof
    fix x assume "x \<in> set (take (i + 1) border)"
    then have "x < 19" using set_border(1) in_set_takeD [of x "i + 1" border] by simp
    then show "x < 19 \<and> unat (Len (bl_tree s x)) < 8" using b(6) by simp
  qed
  note num = send_number_sends [OF io]
  have len: "length (h_lb (sent_header s lm dm i)) = Suc lm" "length (h_db (sent_header s lm dm i)) = Suc dm"
    by (simp_all add: sent_header_def)
  show ?thesis
    unfolding send_all_trees_def header_bits_def n(1-3) order_border len
    unfolding n(4,5)
    unfolding sent_header_def header.simps map_append concat_append
    by (intro sends_bind' num send_bl_lengths_sends [OF io o] send_tree_sends [OF io _ c] g) (use b in simp_all)
qed

end
