(* ===== verification/SFI_Trees_Flush.thy ===== *)
theory SFI_Trees_Flush
  imports SFI_Trees_Header
begin

text \<open>
  \<^verbatim>\<open>flush_block\<close>: whatever kind of block it chooses, it returns, and what it sends is one well-formed block
  for the items that were recorded.
\<close>

unbundle bit_operations_syntax

section \<open>Building the trees of a block\<close>

text \<open>The state between two calls of \<^verbatim>\<open>ct_tally\<close>.\<close>

definition tallied :: "ct \<Rightarrow> item list \<Rightarrow> bool" where
  "tallied s its \<longleftrightarrow> recorded s its \<and> static_set s \<and> (\<forall>m < BL_CODES. Freq (bl_tree s m) = 0)"

lemma fixed_symbols:
  "\<And>x. x < 288 \<Longrightarrow> fixed_lit_lengths ! x \<noteq> 0" "\<And>x. x < 30 \<Longrightarrow> fixed_dist_lengths ! x \<noteq> 0"
  by (auto simp: fixed_lengths_nth fixed_dist_nth)

lemma init_block_tallied: "static_set s \<Longrightarrow> tallied (init_block s) []"
  using init_block_recorded [of s]
  by (simp add: tallied_def static_set_def init_block_def tables_set_def fold_set_fc)

lemma ct_init_tallied:
  assumes "Len (static_dtree s 0) = 0" shows "tallied (ct_init s) []"
proof -
  have "\<exists>x. ct_init s = init_block x" unfolding ct_init_def Let_def by (auto simp: assms simp del: upt_rec_numeral split: prod.split)
  then obtain x where x: "ct_init s = init_block x" ..
  have "\<forall>m < BL_CODES. Freq (bl_tree (ct_init s) m) = 0" by (simp add: x init_block_def fold_set_fc)
  then show ?thesis using ct_init_ok [OF assms] by (simp add: tallied_def)
qed

lemma same_tables_static: "same_tables s s' \<Longrightarrow> static_set s' = static_set s"
  by (simp add: static_set_def same_tablesD)

lemma ct_tally_tallied:
  assumes "tallied s its" shows "tallied (snd (ct_tally level n dist lc s)) (its @ [(dist, lc)])"
proof -
  have "bl_tree (snd (ct_tally level n dist lc s)) = bl_tree s"
    by (simp add: ct_tally_def tally_item_def tally_flags_def Let_def)
  moreover have "recorded s its" using assms by (simp add: tallied_def)
  note r = ct_tally_recorded [OF this, of level n dist lc]
  ultimately show ?thesis using assms r(1) same_tables_static [OF r(2)] by (simp add: tallied_def)
qed

lemma symbol_bounds:
  assumes "tables_set s" "near it"
  shows "lit_symbol s it < 286" "fst it \<noteq> 0 \<Longrightarrow> dist_symbol s it < 30"
proof -
  obtain dist lc where it: "it = (dist, lc)" by fastforce
  have "unat lc < 256" using unsigned_less [of lc] by simp
  from length_entry(1) [OF assms(1) this] show "lit_symbol s it < 286" using \<open>unat lc < 256\<close> by (simp add: lit_symbol_def it)
  show "dist_symbol s it < 30" if "fst it \<noteq> 0"
    using dist_entry(1) [OF assms(1), of "dist - 1"] assms(2) that by (simp add: dist_symbol_def it near_def)
qed

lemma has_codesI:
  assumes "tables_set s" "near it" "lit_symbol s it < length lb" "lb ! lit_symbol s it \<noteq> 0"
    and "fst it \<noteq> 0 \<Longrightarrow> dist_symbol s it < length db \<and> db ! dist_symbol s it \<noteq> 0"
  shows "has_codes lb db (item_token s it)"
proof -
  obtain dist lc where it: "it = (dist, lc)" by fastforce
  show ?thesis
  proof (cases "dist = 0")
    case True
    then show ?thesis using assms(3,4) by (simp add: it item_token_def lit_symbol_def)
  next
    case False
    then show ?thesis using assms(3-5) by (simp add: it item_token_def lit_symbol_def dist_symbol_def Let_def add.commute)
  qed
qed

lemma counted_used:
  assumes "counted s its" "length its < 65535"
  shows "it \<in> set its \<Longrightarrow> lit_symbol s it < 286 \<Longrightarrow> Freq (dyn_ltree s (lit_symbol s it)) \<noteq> 0"
    "it \<in> set its \<Longrightarrow> fst it \<noteq> 0 \<Longrightarrow> dist_symbol s it < 30 \<Longrightarrow> Freq (dyn_dtree s (dist_symbol s it)) \<noteq> 0"
    "Freq (dyn_ltree s 256) \<noteq> 0"
proof -
  have c: "L_CODES = 286" "D_CODES = 30" "END_BLOCK = 256"
    by (simp_all add: L_CODES_def LITERALS_def LENGTH_CODES_def D_CODES_def END_BLOCK_def)
  have nz: "(of_nat n :: 16 word) \<noteq> 0" if "n \<noteq> 0" "n < 65536" for n
    using that by (simp add: word_of_nat_eq_0_iff nat_dvd_not_less)
  have le: "count_list (map (lit_symbol s) its) n \<le> length its" "count_list (map (dist_symbol s) (matches its)) n \<le> length its" for n
    using count_le_length [of "map (lit_symbol s) its" n]
      order_trans [OF count_le_length [of "map (dist_symbol s) (matches its)" n], of "length its"] by (simp_all add: matches_def)
  have C: "\<And>n. n < 286 \<Longrightarrow> Freq (dyn_ltree s n) = of_nat (count_list (map (lit_symbol s) its) n + of_bool (n = 256))"
    "\<And>n. n < 30 \<Longrightarrow> Freq (dyn_dtree s n) = of_nat (count_list (map (dist_symbol s) (matches its)) n)"
    using assms(1) unfolding counted_def c by blast+
  show "Freq (dyn_ltree s (lit_symbol s it)) \<noteq> 0" if "it \<in> set its" "lit_symbol s it < 286"
  proof -
    have "count_list (map (lit_symbol s) its) (lit_symbol s it) \<noteq> 0" using that(1) by (auto simp: count_list_0_iff)
    then show ?thesis unfolding C(1) [OF that(2)] using le(1) [of "lit_symbol s it"] assms(2) by (intro nz) auto
  qed
  show "Freq (dyn_dtree s (dist_symbol s it)) \<noteq> 0" if "it \<in> set its" "fst it \<noteq> 0" "dist_symbol s it < 30"
  proof -
    have "count_list (map (dist_symbol s) (matches its)) (dist_symbol s it) \<noteq> 0"
      using that(1,2) by (auto simp: count_list_0_iff matches_def)
    then show ?thesis unfolding C(2) [OF that(3)] using le(2) [of "dist_symbol s it"] assms(2) by (intro nz) auto
  qed
  show "Freq (dyn_ltree s 256) \<noteq> 0"
  proof -
    have "(256 :: nat) < 286" by simp
    show ?thesis unfolding C(1) [OF \<open>256 < 286\<close>] using le(1) [of 256] assms(2) by (intro nz) auto
  qed
qed

text \<open>The data fields that \<^verbatim>\<open>compress_block\<close> reads.\<close>

definition same_data :: "ct \<Rightarrow> ct \<Rightarrow> bool" where
  "same_data s s' \<longleftrightarrow> last_lit s' = last_lit s \<and> l_buf s' = l_buf s \<and> d_buf s' = d_buf s \<and> flag_buf s' = flag_buf s \<and> same_tables s s'"

lemma same_data_trans: "same_data s s' \<Longrightarrow> same_data s' s'' \<Longrightarrow> same_data s s''"
  by (simp add: same_data_def same_tables_def)

lemma same_data_holds: "same_data s s' \<Longrightarrow> holds s' its = holds s its"
  by (simp add: same_data_def holds_def)

lemma same_data_build: "same_but_build s s' \<Longrightarrow> same_data s s'"
  by (simp add: same_data_def same_but_buildD)

lemma build_trees_ok:
  assumes "counted s its" "length its < 65535" "tables_set s" "\<forall>it \<in> set its. near it" "\<And>m. m < 19 \<Longrightarrow> Freq (bl_tree s m) = 0"
  shows "\<exists>i s' lm dm. build_trees s = Some (i, s') \<and> l_max s' = int lm \<and> d_max s' = int dm \<and> same_data s s' \<and>
    header_ok (sent_header s' lm dm i) \<and> coded (bl_tree s') (tree_lengths (bl_tree s') 19) \<and>
    coded (dyn_ltree s') (tree_lengths (dyn_ltree s') (Suc lm)) \<and> coded (dyn_dtree s') (tree_lengths (dyn_dtree s') (Suc dm)) \<and>
    256 \<le> lm \<and> tree_lengths (dyn_ltree s') (Suc lm) ! 256 \<noteq> 0 \<and>
    (\<forall>it \<in> set its. has_codes (tree_lengths (dyn_ltree s') (Suc lm)) (tree_lengths (dyn_dtree s') (Suc dm)) (item_token s it))"
proof -
  have el: "elems l_desc = 286" "max_length l_desc = 15" by (simp_all add: l_desc_def L_CODES_def LITERALS_def LENGTH_CODES_def MAX_BITS_def)
  have ed: "elems d_desc = 30" "max_length d_desc = 15" by (simp_all add: d_desc_def D_CODES_def MAX_BITS_def)
  obtain lt lm s1 where L: "build_tree_1 l_desc (Some (static_ltree s)) (dyn_ltree s) s = Some (lt, int lm, s1)"
    "built 286 15 (\<lambda>x. x < 286 \<and> Freq (dyn_ltree s x) \<noteq> 0) lt lm" "same_but_build s s1"
    using build_tree_1_ok [OF el(1), of "Some (static_ltree s)" "dyn_ltree s" s] el(2) by auto
  let ?s1 = "s1\<lparr>dyn_ltree := lt, l_max := int lm\<rparr>"
  obtain dt dm s2 where D: "build_tree_1 d_desc (Some (static_dtree ?s1)) (dyn_dtree ?s1) ?s1 = Some (dt, int dm, s2)"
    "built 30 15 (\<lambda>x. x < 30 \<and> Freq (dyn_dtree ?s1 x) \<noteq> 0) dt dm" "same_but_build ?s1 s2"
    using build_tree_1_ok [OF ed(1), of "Some (static_dtree ?s1)" "dyn_dtree ?s1" ?s1] ed(2) by auto
  let ?s2 = "s2\<lparr>dyn_dtree := dt, d_max := int dm\<rparr>"
  have f: "dyn_ltree ?s2 = lt" "l_max ?s2 = int lm" "dyn_dtree ?s2 = dt" "d_max ?s2 = int dm" "dyn_dtree ?s1 = dyn_dtree s" "bl_tree ?s2 = bl_tree s"
    using same_but_buildD [OF L(3)] same_but_buildD [OF D(3)] by simp_all
  note u = counted_used [OF assms(1,2)]
  have bl: "built 286 15 (\<lambda>x. x < 286 \<and> Freq (dyn_ltree s x) \<noteq> 0) (dyn_ltree ?s2) lm" using L(2) unfolding f .
  have bd: "built 30 15 (\<lambda>x. x < 30 \<and> Freq (dyn_dtree ?s1 x) \<noteq> 0) (dyn_dtree ?s2) dm" using D(2) unfolding f(3) .
  have z: "Freq (bl_tree ?s2 m) = 0" if "m < 19" for m using assms(5) [OF that] unfolding f(6) .
  have u256: "(256 :: nat) < 286 \<and> Freq (dyn_ltree s 256) \<noteq> 0" using u(3) by simp
  obtain i s' where B: "build_bl_tree ?s2 = Some (i, s')" "dyn_ltree s' = guard_tree lt lm" "dyn_dtree s' = guard_tree dt dm"
    "header_ok (sent_header s' lm dm i)" "coded (bl_tree s') (tree_lengths (bl_tree s') 19)"
    "same_but_build (?s2\<lparr>dyn_ltree := dyn_ltree s', dyn_dtree := dyn_dtree s', bl_tree := bl_tree s'\<rparr>) s'"
    using build_bl_tree_ok [OF bl f(2) u256 bd f(4) z] unfolding f(1,3) by blast
  note gl = guard_tree_ok [OF L(2) order_refl, folded B(2)] and gd = guard_tree_ok [OF D(2) order_refl, folded B(3)]
  have len: "unat (Len (lt x)) \<noteq> 0 \<and> x \<le> lm" if "x < 286" "Freq (dyn_ltree s x) \<noteq> 0" for x
    using L(2) that by (auto simp: built_def unat_eq_zero)
  have lend: "unat (Len (dt x)) \<noteq> 0 \<and> x \<le> dm" if "x < 30" "Freq (dyn_dtree s x) \<noteq> 0" for x
    using D(2) that unfolding f(5) by (auto simp: built_def unat_eq_zero)
  have codes: "has_codes (tree_lengths (dyn_ltree s') (Suc lm)) (tree_lengths (dyn_dtree s') (Suc dm)) (item_token s it)" if "it \<in> set its" for it
  proof -
    have n: "near it" using assms(4) that by blast
    note b = symbol_bounds [OF assms(3) n]
    show ?thesis unfolding gl(2) gd(2)
      using len [OF b(1) u(1) [OF that b(1)]] lend [OF b(2) u(2) [OF that _ b(2)]]
      by (intro has_codesI [OF assms(3) n]) (auto simp: less_Suc_eq_le)
  qed
  have sd: "same_data s s'"
    using same_data_build [OF L(3)] same_data_build [OF D(3)] same_data_build [OF B(6)]
    by (simp add: same_data_def same_tables_def)
  have mx: "l_max s' = int lm" "d_max s' = int dm" using same_but_buildD(9,10) [OF B(6)] f(2,4) by simp_all
  have "build_trees s = Some (i, s')" unfolding build_trees_def L(1) option.case prod.case Let_def D(1) B(1) ..
  moreover have "coded (dyn_ltree s') (tree_lengths (dyn_ltree s') (Suc lm))" "coded (dyn_dtree s') (tree_lengths (dyn_dtree s') (Suc dm))"
    using gl(2,3) gd(2,3) by simp_all
  moreover have "256 \<le> lm" "tree_lengths (dyn_ltree s') (Suc lm) ! 256 \<noteq> 0"
    using len [of 256] u(3) unfolding gl(2) by simp_all
  ultimately show ?thesis using B(4,5) sd mx codes by blast
qed

section \<open>The items as a block\<close>

text \<open>Items that can follow \<open>n\<close> bytes: no match reaches back further than 32k or before the start.\<close>

fun items_ok :: "nat \<Rightarrow> item list \<Rightarrow> bool" where
  "items_ok n [] \<longleftrightarrow> True"
| "items_ok n ((dist, lc) # its) \<longleftrightarrow> dist \<le> 32768 \<and> dist \<le> n \<and> items_ok (n + (if dist = 0 then 1 else unat lc + 3)) its"

lemma items_ok_near: "items_ok n its \<Longrightarrow> it \<in> set its \<Longrightarrow> near it"
  by (induction n its rule: items_ok.induct) (auto simp: near_def)

lemma items_tokens_ok:
  assumes "tables_set s" "256 < length lb" "lb ! 256 \<noteq> 0"
  shows "items_ok n its \<Longrightarrow> \<forall>it \<in> set its. has_codes lb db (item_token s it) \<Longrightarrow> tokens_ok lb db n (map (item_token s) its)"
proof (induction n its rule: items_ok.induct)
  case (2 n dist lc its)
  show ?case
  proof (cases "dist = 0")
    case True
    have e: "item_token s (0, lc) = Lit lc" by (simp add: item_token_def)
    show ?thesis using 2 True by (simp add: e)
  next
    case False
    obtain c x d y where m: "item_token s (dist, lc) = Match c x d y" "c < 29" "x < 2 ^ (cplext ! c)" "d < 30" "y < 2 ^ (cpdext ! d)"
      "match_len c x = unat lc + 3" "match_dist d y = dist"
      using item_token_match [OF assms(1) False, of lc thesis] 2(2) by auto
    have h: "has_codes lb db (Match c x d y)" using 2(3) unfolding m(1) [symmetric] by simp
    have "length (expand [Match c x d y] (replicate n 0)) = n + (unat lc + 3)" by (simp add: m(6) length_lz_copy)
    then show ?thesis using 2 m(2-5,7) h False by (simp add: m(1))
  qed
qed (use assms in simp)

lemma fixed_has_codes:
  assumes "tables_set s" "near it" shows "has_codes fixed_lit_lengths fixed_dist_lengths (item_token s it)"
  using symbol_bounds [OF assms] fixed_symbols
  by (intro has_codesI [OF assms]) (auto simp: length_fixed)

lemma block_start_bits:
  "bits_of 3 (push_bit 1 STORED_BLOCK + (if eof then 1 else 0)) = bits_of 1 (of_nat (of_bool eof) :: u32) @ bits_of 2 (of_nat 0 :: u32)"
  "bits_of 3 (push_bit 1 STATIC_TREES + (if eof then 1 else 0)) = bits_of 1 (of_nat (of_bool eof) :: u32) @ bits_of 2 (of_nat 1 :: u32)"
  "bits_of 3 (push_bit 1 DYN_TREES + (if eof then 1 else 0)) = bits_of 1 (of_nat (of_bool eof) :: u32) @ bits_of 2 (of_nat 2 :: u32)"
  "take_bit 3 (push_bit 1 STORED_BLOCK + (if eof then 1 else 0)) = push_bit 1 STORED_BLOCK + (if eof then 1 else 0)"
  "take_bit 3 (push_bit 1 STATIC_TREES + (if eof then 1 else 0)) = push_bit 1 STATIC_TREES + (if eof then 1 else 0)"
  "take_bit 3 (push_bit 1 DYN_TREES + (if eof then 1 else 0)) = push_bit 1 DYN_TREES + (if eof then 1 else 0)"
  by (cases eof; simp only: if_True if_False simp_thms; code_simp)+

text \<open>What was sent between two states is one block for the items.\<close>

definition sent_block :: "bool \<Rightarrow> item list \<Rightarrow> byte list \<Rightarrow> gz \<Rightarrow> gz \<Rightarrow> block \<Rightarrow> bool" where
  "sent_block eof its H g h b \<longleftrightarrow> bi_inv h \<and> zbits h = zbits g @ block_bits eof b \<and> same_but_sent g h \<and>
     block_expand b H = items_expand its H \<and> (\<forall>m. (length (zbits h) + m) mod 8 = 0 \<longrightarrow> block_ok (length H) m b)"

lemma start_block_sends:
  assumes "io_ok S" "bi_inv g" "v \<in> {STORED_BLOCK, STATIC_TREES, DYN_TREES}"
  shows "sends False (send_bits S (push_bit 1 v + (if eof then 1 else 0)) 3 g) g (bits_of 3 (push_bit 1 v + (if eof then 1 else 0)))"
proof -
  have "take_bit 3 (push_bit 1 v + (if eof then 1 else 0)) = push_bit 1 v + (if eof then 1 else 0)"
    using assms(3) block_start_bits(4-6) [of eof] unfolding insert_iff empty_iff by metis
  then show ?thesis by (intro send_bits_sends [OF assms(1,2)]) simp_all
qed

text \<open>The first three bits, then the body: \<open>al\<close> says that it ends at a byte boundary.\<close>

lemma block_sent:
  assumes io: "io_ok S" "bi_inv g" and v: "v \<in> {STORED_BLOCK, STATIC_TREES, DYN_TREES}"
    and b: "\<And>g1. bits_of 3 (push_bit 1 v + (if eof then 1 else 0)) @ block_body (b g1) = block_bits eof (b g1)"
      "\<And>g1. bi_inv g1 \<Longrightarrow> sends al (k g1) g1 (block_body (b g1))"
    and ex: "\<And>g1. block_expand (b g1) H = items_expand its H" and ok: "\<And>g1 m. (al \<Longrightarrow> m mod 8 = 0) \<Longrightarrow> block_ok (length H) m (b g1)"
  shows "\<exists>g1 h. send_bits S (push_bit 1 v + (if eof then 1 else 0)) 3 g = Return () g1 \<and> k g1 = Return () h \<and> sent_block eof its H g h (b g1)"
proof -
  obtain g1 where g1: "send_bits S (push_bit 1 v + (if eof then 1 else 0)) 3 g = Return () g1" "bi_inv g1"
    "zbits g1 = zbits g @ bits_of 3 (push_bit 1 v + (if eof then 1 else 0))" "same_but_sent g g1"
    using start_block_sends [OF io v, of eof] unfolding sends_def by blast
  obtain h where h: "k g1 = Return () h" "bi_inv h" "al \<longrightarrow> bi_valid h = 0" "zbits h = zbits g1 @ block_body (b g1)" "same_but_sent g1 h"
    using b(2) [OF g1(2)] unfolding sends_def by blast
  have z: "zbits h = zbits g @ block_bits eof (b g1)" unfolding h(4) g1(3) append_assoc b(1) ..
  have "block_ok (length H) m (b g1)" if "(length (zbits h) + m) mod 8 = 0" for m
  proof (rule ok)
    assume al
    then have "length (zbits h) = 8 * length (outstream h)" using h(3) by (simp add: zbits_def bits_of_0)
    then show "m mod 8 = 0" using that by simp
  qed
  then show ?thesis using g1(1) h(1,2) z same_but_sent_trans [OF g1(4) h(5)] ex unfolding sent_block_def by blast
qed

lemma send_block_ok:
  assumes io: "io_ok S" and g: "bi_inv g" and st: "static_set s" and hd: "holds s its" and it: "items_ok (length H) its"
    and mx: "l_max s = int lm" "d_max s = int dm" and h: "header_ok (sent_header s lm dm i)"
    and c: "coded (bl_tree s) (tree_lengths (bl_tree s) 19)" "coded (dyn_ltree s) (tree_lengths (dyn_ltree s) (Suc lm))"
      "coded (dyn_dtree s) (tree_lengths (dyn_dtree s) (Suc dm))"
    and eb: "256 \<le> lm" "tree_lengths (dyn_ltree s) (Suc lm) ! 256 \<noteq> 0"
    and hc: "\<forall>it \<in> set its. has_codes (tree_lengths (dyn_ltree s) (Suc lm)) (tree_lengths (dyn_dtree s) (Suc dm)) (item_token s it)"
    and bf: "\<And>bs. buf = Some bs \<Longrightarrow> length bs < 65536 \<and> items_expand its H = H @ bs"
  shows "\<exists>b n h. send_block S buf stored_len eof i s g = Return (s\<lparr>compressed_len := n\<rparr>) h \<and> sent_block eof its H g h b"
proof -
  have t: "tables_set s" "coded (static_ltree s) fixed_lit_lengths" "coded (static_dtree s) fixed_dist_lengths"
    using st by (simp_all add: static_set_def)
  have nr: "\<forall>it \<in> set its. near it" using items_ok_near [OF it] by blast
  have ex: "expand (map (item_token s) its) H = items_expand its H" by (rule expand_items [OF t(1) nr])
  let ?e = "(if eof then 1 else 0) :: u32"
  consider (stored) bs where "buf = Some bs" "send_block S buf stored_len eof i s g =
        out_bind (send_bits S (push_bit 1 STORED_BLOCK + ?e) 3 g) (\<lambda>_ g. out_bind (copy_block S bs True g) (\<lambda>_.
          Return (s\<lparr>compressed_len := round_up (compressed_len s) + push_bit 3 (stored_len + 4)\<rparr>)))"
    | (static) "send_block S buf stored_len eof i s g =
        out_bind (send_bits S (push_bit 1 STATIC_TREES + ?e) 3 g) (\<lambda>_ g.
          out_bind (compress_block S s (static_ltree s) (static_dtree s) g) (\<lambda>_.
            Return (s\<lparr>compressed_len := compressed_len s + 3 + static_len s\<rparr>)))"
    | (dynamic) "send_block S buf stored_len eof i s g =
        out_bind (send_bits S (push_bit 1 DYN_TREES + ?e) 3 g) (\<lambda>_ g.
          out_bind (send_all_trees S s (l_max s + 1) (d_max s + 1) (i + 1) g) (\<lambda>_ g.
          out_bind (compress_block S s (dyn_ltree s) (dyn_dtree s) g) (\<lambda>_.
            Return (s\<lparr>compressed_len := compressed_len s + 3 + opt_len s\<rparr>))))"
  proof -
    define sl where "sl = drop_bit 3 (static_len s + 3 + 7)"
    define ol where "ol = (if sl \<le> drop_bit 3 (opt_len s + 3 + 7) then sl else drop_bit 3 (opt_len s + 3 + 7))"
    note u = send_block_def [of S buf stored_len eof i s g, unfolded Let_def, folded sl_def, folded ol_def]
    show thesis
    proof (cases "stored_len + 4 \<le> ol \<and> buf \<noteq> None")
      case True
      then obtain bs where "buf = Some bs" by auto
      then show thesis using stored [of bs] u [unfolded if_P [OF True]] by (simp only: option.sel)
    next
      case F: False
      show thesis
      proof (cases "sl = ol")
        case True
        show thesis by (rule static, rule u [unfolded if_not_P [OF F] if_P [OF True]])
      next
        case False
        show thesis by (rule dynamic, rule u [unfolded if_not_P [OF F] if_not_P [OF False]])
      qed
    qed
  qed
  then show ?thesis
  proof cases
    case (stored bs)
    have b: "length bs < 65536" "items_expand its H = H @ bs" using bf [OF stored(1)] by simp_all
    have w: "bits_of 16 (of_nat (length bs) :: u32) = bits_of 16 (of_nat (length bs) :: 16 word)"
      "bits_of 16 (NOT (of_nat (length bs)) :: u32) = bits_of 16 (NOT (of_nat (length bs)) :: 16 word)"
      by (auto simp: bits_of_def bit_simps)
    have "\<exists>g1 h. send_bits S (push_bit 1 STORED_BLOCK + ?e) 3 g = Return () g1 \<and> copy_block S bs True g1 = Return () h \<and>
        sent_block eof its H g h (Stored (pad (bi_valid g1)) bs)"
    proof (rule block_sent [OF io g, where al = True])
      show "sends True (copy_block S bs True g1) g1 (block_body (Stored (pad (bi_valid g1)) bs))" if "bi_inv g1" for g1
        using copy_block_sends [OF io that, of bs True] by (simp add: w)
    qed (use b block_start_bits(1) in \<open>simp_all add: block_bits_def pad_def\<close>)
    then show ?thesis unfolding stored(2) by fastforce
  next
    case static
    have fc: "\<forall>it \<in> set its. has_codes fixed_lit_lengths fixed_dist_lengths (item_token s it)" using fixed_has_codes [OF t(1)] nr by blast
    have l: "256 < length fixed_lit_lengths" "fixed_lit_lengths ! 256 \<noteq> 0" using fixed_symbols(1) [of 256] by (simp_all add: length_fixed)
    have "\<exists>g1 h. send_bits S (push_bit 1 STATIC_TREES + ?e) 3 g = Return () g1 \<and>
        compress_block S s (static_ltree s) (static_dtree s) g1 = Return () h \<and> sent_block eof its H g h (Fixed (map (item_token s) its))"
    proof (rule block_sent [OF io g, where al = False])
      show "sends False (compress_block S s (static_ltree s) (static_dtree s) g1) g1 (block_body (Fixed (map (item_token s) its)))"
        if "bi_inv g1" for g1
        unfolding block_body.simps by (rule compress_block_sends [OF io that t hd _ l]) (use nr fc in blast)
      show "block_ok (length H) m (Fixed (map (item_token s) its))" for m using items_tokens_ok [OF t(1) l it fc] by simp
    qed (use ex block_start_bits(2) in \<open>simp_all add: block_bits_def\<close>)
    then show ?thesis unfolding static by fastforce
  next
    case dynamic
    let ?d = "sent_header s lm dm i" and ?lb = "tree_lengths (dyn_ltree s) (Suc lm)" and ?db = "tree_lengths (dyn_dtree s) (Suc dm)"
    have d: "h_lb ?d = ?lb" "h_db ?d = ?db" by (simp_all add: sent_header_def)
    have l: "256 < length ?lb" using eb(1) by simp
    have "\<exists>g1 h. send_bits S (push_bit 1 DYN_TREES + ?e) 3 g = Return () g1 \<and>
        out_bind (send_all_trees S s (int lm + 1) (int dm + 1) (i + 1) g1) (\<lambda>_. compress_block S s (dyn_ltree s) (dyn_dtree s)) = Return () h \<and>
        sent_block eof its H g h (Dynamic ?d (map (item_token s) its))"
    proof (rule block_sent [OF io g, where al = False])
      show "sends False (out_bind (send_all_trees S s (int lm + 1) (int dm + 1) (i + 1) g1) (\<lambda>_. compress_block S s (dyn_ltree s) (dyn_dtree s))) g1
          (block_body (Dynamic ?d (map (item_token s) its)))" if "bi_inv g1" for g1
        unfolding block_body.simps d
        by (intro sends_bind' send_all_trees_sends [OF io that h c(1)] compress_block_sends [OF io _ t(1) c(2,3) hd _ l eb(2)]) (use nr hc in auto)
      show "block_ok (length H) m (Dynamic ?d (map (item_token s) its))" for m
        using items_tokens_ok [OF t(1) l eb(2) it hc] h by (simp add: d)
    qed (use ex block_start_bits(3) in \<open>simp_all add: block_bits_def\<close>)
    then show ?thesis unfolding dynamic mx by fastforce
  qed
qed

section \<open>A call of \<^verbatim>\<open>flush_block\<close>\<close>

text \<open>Blocks that are not the last ones, and what follows them.\<close>

definition more_bits :: "block list \<Rightarrow> bool list" where
  "more_bits bs = concat (map (block_bits False) bs)"

lemma length_block_bits: "length (block_bits e b) = length (block_bits e' b)"
  by (simp add: block_bits_def)

lemma length_more_bits: "length (more_bits bs) = length (blocks_bits bs)"
  by (induction bs) (simp_all add: more_bits_def length_block_bits [of False])

lemma blocks_bits_append: "bs2 \<noteq> [] \<Longrightarrow> blocks_bits (bs1 @ bs2) = more_bits bs1 @ blocks_bits bs2"
  by (induction bs1) (auto simp: more_bits_def)

lemma blocks_expand_append: "blocks_expand (bs1 @ bs2) H = blocks_expand bs2 (blocks_expand bs1 H)"
  by (induction bs1 arbitrary: H) simp_all

lemma length_blocks_expand: "length H = length H' \<Longrightarrow> length (blocks_expand bs H) = length (blocks_expand bs H')"
proof (induction bs arbitrary: H H')
  case (Cons b bs)
  show ?case unfolding blocks_expand.simps by (rule Cons.IH, rule length_block_expand, rule Cons.prems)
qed simp

lemma blocks_ok_append:
  "blocks_ok n m (bs1 @ bs2) \<longleftrightarrow> blocks_ok n (length (blocks_bits bs2) + m) bs1 \<and>
     blocks_ok (length (blocks_expand bs1 (replicate n 0))) m bs2"
proof (induction bs1 arbitrary: n)
  case (Cons b bs1)
  have "length (blocks_expand bs1 (replicate (length (block_expand b (replicate n 0))) 0)) =
      length (blocks_expand bs1 (block_expand b (replicate n 0)))" by (rule length_blocks_expand) simp
  moreover have "length (blocks_bits (bs1 @ bs2)) = length (blocks_bits bs1) + length (blocks_bits bs2)"
    by (simp add: length_more_bits [symmetric]) (simp add: more_bits_def)
  ultimately show ?case using Cons.IH by (simp add: add.assoc)
qed simp

text \<open>What a call of \<^verbatim>\<open>flush_block\<close> has sent: blocks for the items, and for the last call the padding.\<close>

definition sent_blocks :: "bool \<Rightarrow> item list \<Rightarrow> byte list \<Rightarrow> gz \<Rightarrow> gz \<Rightarrow> block list \<Rightarrow> bool" where
  "sent_blocks eof its H g h bs \<longleftrightarrow> bs \<noteq> [] \<and> bi_inv h \<and> same_but_sent g h \<and> blocks_expand bs H = items_expand its H \<and>
     (if eof then bi_valid h = 0 \<and> (\<exists>ps. length ps < 8 \<and> zbits h = zbits g @ blocks_bits bs @ ps \<and> blocks_ok (length H) (length ps) bs)
      else zbits h = zbits g @ more_bits bs \<and> (\<forall>m. (length (zbits h) + m) mod 8 = 0 \<longrightarrow> blocks_ok (length H) m bs))"

lemma set_file_type_simps:
  "recorded (set_file_type s) = recorded s" "l_buf (set_file_type s) = l_buf s" "d_buf (set_file_type s) = d_buf s"
  "last_lit (set_file_type s) = last_lit s" "flag_buf (set_file_type s) = flag_buf s" "bl_tree (set_file_type s) = bl_tree s"
  "same_tables s (set_file_type s)" "dyn_ltree (set_file_type s) = dyn_ltree s" "dyn_dtree (set_file_type s) = dyn_dtree s"
proof -
  obtain x where x: "set_file_type s = s\<lparr>file_type := x\<rparr>" by (rule that [OF set_file_type_def [unfolded Let_def]])
  have st: "same_tables s (s\<lparr>file_type := x\<rparr>)" by (simp add: same_tables_def)
  show "recorded (set_file_type s) = recorded s"
    unfolding x by (rule ext) (simp add: recorded_def counted_def flags_hold_def same_tablesD(1,2) [OF st])
  show "l_buf (set_file_type s) = l_buf s" "d_buf (set_file_type s) = d_buf s"
    "last_lit (set_file_type s) = last_lit s" "flag_buf (set_file_type s) = flag_buf s" "bl_tree (set_file_type s) = bl_tree s"
    "same_tables s (set_file_type s)" "dyn_ltree (set_file_type s) = dyn_ltree s" "dyn_dtree (set_file_type s) = dyn_dtree s"
    by (simp_all add: x same_tables_def)
qed

lemma counted_cong: "same_tables s s' \<Longrightarrow> dyn_ltree s' = dyn_ltree s \<Longrightarrow> dyn_dtree s' = dyn_dtree s \<Longrightarrow> counted s' its = counted s its"
  by (simp add: counted_def same_tablesD)

lemma end_block_ok:
  assumes io: "io_ok S" and st: "static_set s" and b: "sent_block eof its H g h b"
  shows "\<exists>n s' h' bs. end_block S padded eof s h = Return (n, s') h' \<and> tallied s' [] \<and> sent_blocks eof its H g h' bs"
proof -
  have h: "bi_inv h" "zbits h = zbits g @ block_bits eof b" "same_but_sent g h" "block_expand b H = items_expand its H"
    "\<And>m. (length (zbits h) + m) mod 8 = 0 \<Longrightarrow> block_ok (length H) m b" using b by (simp_all add: sent_block_def)
  note t = init_block_tallied [OF st]
  have ti: "tallied (init_block s\<lparr>compressed_len := x\<rparr>) []" for x
  proof -
    have "same_tables (init_block s) (init_block s\<lparr>compressed_len := x\<rparr>)" by (simp add: same_tables_def)
    then show ?thesis using t
      by (simp add: tallied_def recorded_def flags_hold_def same_tables_static counted_cong)
  qed
  show ?thesis
  proof (cases eof)
    case True
    obtain h' where w: "bi_windup S h = Return () h'" "bi_inv h'" "bi_valid h' = 0" "zbits h' = zbits h @ pad (bi_valid h)" "same_but_sent h h'"
      using bi_windup_sends [OF io h(1)] by (auto simp: sends_def)
    have "length (zbits h') = 8 * length (outstream h')" using w(3) by (simp add: zbits_def bits_of_0)
    then have "length (zbits h) + length (pad (bi_valid h)) = 8 * length (outstream h')" unfolding w(4) by simp
    then have "sent_blocks eof its H g h' [b]"
      using w(2-4) h(2,4,5) same_but_sent_trans [OF h(3) w(5)] True by (auto simp: sent_blocks_def pad_def)
    then show ?thesis using True w(1) ti by (auto simp: end_block_def Let_def)
  next
    case F: False
    show ?thesis
    proof (cases "padded \<and> compressed_len (init_block s) AND 7 \<noteq> 0")
      case True
      let ?H = "items_expand its H"
      have "\<exists>g1 h'. send_bits S (push_bit 1 STORED_BLOCK + (if False then 1 else 0)) 3 h = Return () g1 \<and> copy_block S [] True g1 = Return () h' \<and>
          sent_block False [] ?H h h' (Stored (pad (bi_valid g1)) [])"
      proof (rule block_sent [OF io h(1), where al = True])
        have w: "bits_of 16 (0 :: 16 word) = bits_of 16 (0 :: u32)" "bits_of 16 (- 1 :: 16 word) = bits_of 16 (- 1 :: u32)"
          by (auto simp: bits_of_def)
        show "sends True (copy_block S [] True g1) g1 (block_body (Stored (pad (bi_valid g1)) []))" if "bi_inv g1" for g1
          using copy_block_sends [OF io that, of "[]" True] by (simp add: w)
      qed (use block_start_bits(1) [of False] in \<open>simp_all add: block_bits_def pad_def\<close>)
      then obtain g1 h' c where p: "send_bits S (push_bit 1 STORED_BLOCK) 3 h = Return () g1" "copy_block S [] True g1 = Return () h'"
        "sent_block False [] ?H h h' c" by (simp only: if_False add_0_right) blast
      have k: "bi_inv h'" "zbits h' = zbits h @ block_bits False c" "same_but_sent h h'" "block_expand c ?H = ?H"
        "\<And>m. (length (zbits h') + m) mod 8 = 0 \<Longrightarrow> block_ok (length ?H) m c" using p(3) by (simp_all add: sent_block_def)
      have "length (block_expand b (replicate (length H) 0)) = length ?H" using length_block_expand [of H "replicate (length H) 0" b] h(4) by simp
      moreover have "block_ok (length H) (length (block_bits True c) + m) b" if "(length (zbits h') + m) mod 8 = 0" for m
        using that h(5) [of "length (block_bits True c) + m"] unfolding k(2) by (simp add: length_block_bits [of False c True] add.assoc)
      ultimately have "sent_blocks eof its H g h' [b, c]"
        using F h(2,4) k same_but_sent_trans [OF h(3) k(3)] by (auto simp: sent_blocks_def more_bits_def)
      then show ?thesis using F True p(1,2) ti by (auto simp: end_block_def Let_def)
    next
      case False
      have "sent_blocks eof its H g h [b]" using F h by (auto simp: sent_blocks_def more_bits_def)
      then show ?thesis using F False t by (auto simp: end_block_def Let_def)
    qed
  qed
qed

text \<open>The buffer handed over, if any, holds what the items stand for.\<close>

definition buffer_ok :: "byte list option \<Rightarrow> item list \<Rightarrow> byte list \<Rightarrow> bool" where
  "buffer_ok buf its H \<longleftrightarrow> (\<forall>bs. buf = Some bs \<longrightarrow> length bs < 65536 \<and> items_expand its H = H @ bs)"

lemma flush_block_ok:
  assumes io: "io_ok S" and g: "bi_inv g" and t: "tallied s its" and n: "length its < 65535"
    and it: "items_ok (length H) its" and bf: "buffer_ok buf its H"
  shows "\<exists>n s' h bs. flush_block S buf stored_len padded eof s g = Some (Return (n, s') h) \<and> tallied s' [] \<and> sent_blocks eof its H g h bs"
proof -
  let ?s1 = "s\<lparr>flag_buf := (flag_buf s)(last_flags s := flags s)\<rparr>"
  define s2 where "s2 = (if file_type ?s1 = UNKNOWN then set_file_type ?s1 else ?s1)"
  have r: "recorded s its" "static_set s" "\<And>m. m < 19 \<Longrightarrow> Freq (bl_tree s m) = 0" using t by (simp_all add: tallied_def BL_CODES_def)
  have e: "l_buf s2 = l_buf s" "d_buf s2 = d_buf s" "last_lit s2 = last_lit s" "flag_buf s2 = (flag_buf s)(last_flags s := flags s)"
    "bl_tree s2 = bl_tree s" "dyn_ltree s2 = dyn_ltree s" "dyn_dtree s2 = dyn_dtree s"
    by (simp_all add: s2_def set_file_type_simps)
  have "same_tables s ?s1" by (simp add: same_tables_def)
  then have st: "same_tables s s2" using set_file_type_simps(7) [of ?s1] by (simp add: s2_def same_tables_def)
  have ss: "static_set s2" using r(2) same_tables_static [OF st] by simp
  then have ts: "tables_set s2" by (simp add: static_set_def)
  have hd: "holds s2 its" by (rule recorded_holds [OF r(1) e(1-4)])
  have ct: "counted s2 its" using r(1) counted_cong [OF st e(6,7)] by (simp add: recorded_def)
  have nr: "\<forall>x \<in> set its. near x" using items_ok_near [OF it] by blast
  have z: "Freq (bl_tree s2 m) = 0" if "m < 19" for m using r(3) [OF that] e(5) by simp
  obtain i s3 lm dm where B: "build_trees s2 = Some (i, s3)" "l_max s3 = int lm" "d_max s3 = int dm" "same_data s2 s3"
    "header_ok (sent_header s3 lm dm i)" "coded (bl_tree s3) (tree_lengths (bl_tree s3) 19)"
    "coded (dyn_ltree s3) (tree_lengths (dyn_ltree s3) (Suc lm))" "coded (dyn_dtree s3) (tree_lengths (dyn_dtree s3) (Suc dm))"
    "256 \<le> lm" "tree_lengths (dyn_ltree s3) (Suc lm) ! 256 \<noteq> 0"
    "\<forall>x \<in> set its. has_codes (tree_lengths (dyn_ltree s3) (Suc lm)) (tree_lengths (dyn_dtree s3) (Suc dm)) (item_token s2 x)"
    using build_trees_ok [OF ct n ts nr z] by blast
  let ?s3 = "s3\<lparr>input_len := input_len s3 + stored_len\<rparr>"
  have t3: "same_tables s2 ?s3" using B(4) by (simp add: same_data_def same_tables_def)
  have s3: "static_set ?s3" "holds ?s3 its"
    using ss same_tables_static [OF t3] hd same_data_holds [OF B(4), of its] by (simp_all add: holds_def)
  have hc: "\<forall>x \<in> set its. has_codes (tree_lengths (dyn_ltree s3) (Suc lm)) (tree_lengths (dyn_dtree s3) (Suc dm)) (item_token ?s3 x)"
    using B(11) same_tablesD(3) [OF t3] by simp
  have "\<exists>b n h. send_block S buf stored_len eof i ?s3 g = Return (?s3\<lparr>compressed_len := n\<rparr>) h \<and> sent_block eof its H g h b"
    by (rule send_block_ok [OF io g s3 it, of lm dm])
      (use B(2,3,5-10) hc bf in \<open>simp_all add: sent_header_def buffer_ok_def\<close>)
  then obtain b k h where s: "send_block S buf stored_len eof i ?s3 g = Return (?s3\<lparr>compressed_len := k\<rparr>) h" "sent_block eof its H g h b" by blast
  have "same_tables ?s3 (?s3\<lparr>compressed_len := k\<rparr>)" by (simp add: same_tables_def)
  then have "static_set (?s3\<lparr>compressed_len := k\<rparr>)" using s3(1) same_tables_static by simp
  from end_block_ok [OF io this s(2), of padded] obtain n s' h' bs where
    "end_block S padded eof (?s3\<lparr>compressed_len := k\<rparr>) h = Return (n, s') h'" "tallied s' []" "sent_blocks eof its H g h' bs" by blast
  moreover have "flush_block S buf stored_len padded eof s g =
      Some (end_block S padded eof (?s3\<lparr>compressed_len := k\<rparr>) h)"
    unfolding flush_block_def Let_def s2_def [symmetric] B(1) option.case prod.case s(1) out_bind.simps ..
  ultimately show ?thesis by auto
qed

section \<open>A whole stream\<close>

text \<open>What the matcher hands over between two calls of \<^verbatim>\<open>flush_block\<close>: the items, and the arguments of the
  call; the last one has \<open>eof\<close>. The level and the position in the input, which the matcher also
  passes, only affect the answer of \<^verbatim>\<open>ct_tally\<close> whether the block should end.\<close>

type_synonym piece = "item list \<times> byte list option \<times> u32 \<times> bool"

lemma ct_tally_guess: "snd (ct_tally level k dist lc s) = snd (ct_tally level' k' dist lc s)"
  by (simp add: ct_tally_def Let_def)

definition tally_all :: "nat \<Rightarrow> u32 \<Rightarrow> item list \<Rightarrow> ct \<Rightarrow> ct" where
  "tally_all level k its s = fold (\<lambda>(dist, lc) s. snd (ct_tally level k dist lc s)) its s"

fun send_pieces :: "sysio \<Rightarrow> nat \<Rightarrow> u32 \<Rightarrow> piece list \<Rightarrow> ct \<Rightarrow> gz \<Rightarrow> ct gzip option" where
  "send_pieces S level k [] s g = Some (Return s g)"
| "send_pieces S level k ((its, buf, stored_len, padded) # ps) s g =
     opt_bind (flush_block S buf stored_len padded (ps = []) (tally_all level k its s) g)
       (\<lambda>(n, s). send_pieces S level k ps s)"

fun pieces_ok :: "byte list \<Rightarrow> piece list \<Rightarrow> bool" where
  "pieces_ok H [] \<longleftrightarrow> True"
| "pieces_ok H ((its, buf, stored_len, padded) # ps) \<longleftrightarrow> length its < 65535 \<and> items_ok (length H) its \<and> buffer_ok buf its H \<and>
     pieces_ok (items_expand its H) ps"

lemma tally_all_ok: "tallied s its \<Longrightarrow> tallied (tally_all level k js s) (its @ js)"
proof (induction js arbitrary: s its)
  case (Cons it js)
  obtain dist lc where i: "it = (dist, lc)" by fastforce
  show ?case using Cons.IH [OF ct_tally_tallied [OF Cons.prems, of level k dist lc]] by (simp add: tally_all_def i)
qed (simp add: tally_all_def)

lemma send_pieces_ok:
  assumes io: "io_ok S"
  shows "ps \<noteq> [] \<Longrightarrow> bi_inv g \<Longrightarrow> tallied s [] \<Longrightarrow> pieces_ok H ps \<Longrightarrow>
    \<exists>s' h bs. send_pieces S level k ps s g = Some (Return s' h) \<and> tallied s' [] \<and> sent_blocks True (concat (map fst ps)) H g h bs"
proof (induction ps arbitrary: s g H)
  case (Cons p ps)
  obtain its buf sl pd where p: "p = (its, buf, sl, pd)" by (cases p)
  have ok: "length its < 65535" "items_ok (length H) its" "buffer_ok buf its H" "pieces_ok (items_expand its H) ps"
    using Cons.prems(4) by (simp_all add: p)
  have t: "tallied (tally_all level k its s) its" using tally_all_ok [OF Cons.prems(3)] by simp
  obtain n s1 h1 bs where 1: "flush_block S buf sl pd (ps = []) (tally_all level k its s) g = Some (Return (n, s1) h1)" "tallied s1 []"
    "sent_blocks (ps = []) its H g h1 bs"
    using flush_block_ok [OF io Cons.prems(2) t ok(1-3)] by blast
  show ?case
  proof (cases "ps = []")
    case True
    then show ?thesis using 1 by (auto simp: p)
  next
    case False
    have b: "bs \<noteq> []" "bi_inv h1" "same_but_sent g h1" "blocks_expand bs H = items_expand its H" "zbits h1 = zbits g @ more_bits bs"
      "\<And>m. (length (zbits h1) + m) mod 8 = 0 \<Longrightarrow> blocks_ok (length H) m bs"
      using 1(3) False by (simp_all add: sent_blocks_def)
    obtain s' h cs where 2: "send_pieces S level k ps s1 h1 = Some (Return s' h)" "tallied s' []"
      "sent_blocks True (concat (map fst ps)) (items_expand its H) h1 h cs"
      using Cons.IH [OF False b(2) 1(2) ok(4)] by blast
    obtain qs where c: "cs \<noteq> []" "bi_inv h" "same_but_sent h1 h"
      "blocks_expand cs (items_expand its H) = items_expand (concat (map fst ps)) (items_expand its H)"
      "bi_valid h = 0" "length qs < 8" "zbits h = zbits h1 @ blocks_bits cs @ qs" "blocks_ok (length (items_expand its H)) (length qs) cs"
      using 2(3) unfolding sent_blocks_def by (simp only: if_True) blast
    have "length (zbits h) = 8 * length (outstream h)" using c(5) by (simp add: zbits_def bits_of_0)
    then have "(length (zbits h1) + (length (blocks_bits cs) + length qs)) mod 8 = 0" unfolding c(7) by simp
    from b(6) [OF this] have "blocks_ok (length H) (length (blocks_bits cs) + length qs) bs" .
    moreover have "length (blocks_expand bs (replicate (length H) 0)) = length (items_expand its H)"
      using length_blocks_expand [of H "replicate (length H) 0" bs] b(4) by simp
    ultimately have "blocks_ok (length H) (length qs) (bs @ cs)" using c(8) by (simp add: blocks_ok_append)
    then have "sent_blocks True (concat (map fst (p # ps))) H g h (bs @ cs)"
      using b(4,5) c same_but_sent_trans [OF b(3) c(3)]
      unfolding sent_blocks_def by (auto simp: p blocks_expand_append items_expand_append blocks_bits_append)
    then show ?thesis using 1(1) 2(1,2) False by (auto simp: p)
  qed
qed simp

end
