(* ===== verification/SFI_Unzip.thy ===== *)
theory SFI_Unzip
  imports SFI_Dynamic
begin

text \<open>
  The extraction of one member (\<^verbatim>\<open>check_zipfile\<close> and \<^verbatim>\<open>unzip\<close> in \<^verbatim>\<open>src/gzip-mod.c\<close>): the local header of a
  pkzip file, the data, and the comparison of checksum and length with those that were stored. The
  theorem says what the comparison is worth: success means that the trailer matches the output.
\<close>

unbundle bit_operations_syntax

section \<open>The globals of a member\<close>

record zglob =
  zmethod :: nat
  pkzip :: bool
  ext_header :: bool
  decrypt :: bool
  exit_code :: nat
  to_stdout :: bool

definition OK :: nat where "OK = 0"
definition ERROR :: nat where "ERROR = 1"
definition WARNING :: nat where "WARNING = 2"
definition STORED :: nat where "STORED = 0"
definition DEFLATED :: nat where "DEFLATED = 8"

text \<open>\<^verbatim>\<open>SH\<close> and \<^verbatim>\<open>LG\<close> read two and four bytes at a position of an array.\<close>

definition SH :: "(nat \<Rightarrow> byte) \<Rightarrow> nat \<Rightarrow> u32" where
  "SH a p = ucast (a p) OR push_bit 8 (ucast (a (p + 1)))"

definition LG :: "(nat \<Rightarrow> byte) \<Rightarrow> nat \<Rightarrow> u32" where
  "LG a p = SH a p OR push_bit 16 (SH a (p + 2))"

definition LOCSIG :: u32 where "LOCSIG = 0x04034b50"
definition LOCFLG :: nat where "LOCFLG = 6"
definition LOCHOW :: nat where "LOCHOW = 8"
definition LOCCRC :: nat where "LOCCRC = 14"
definition LOCSIZ :: nat where "LOCSIZ = 18"
definition LOCLEN :: nat where "LOCLEN = 22"
definition LOCFIL :: nat where "LOCFIL = 26"
definition LOCEXT :: nat where "LOCEXT = 28"
definition LOCHDR :: nat where "LOCHDR = 30"
definition EXTHDR :: nat where "EXTHDR = 16"

text \<open>The flags \<^verbatim>\<open>CRPFLG\<close> and \<^verbatim>\<open>EXTFLG\<close> are the bits 0 and 3. Messages are left out.\<close>

definition check_zipfile :: "zglob \<Rightarrow> gz \<Rightarrow> (nat \<times> zglob) \<times> gz" where
  "check_zipfile z g =
     (let h = inptr g; a = inbuf g;
        g = g\<lparr>inptr := inptr g + LOCHDR + unat (SH a (h + LOCFIL)) + unat (SH a (h + LOCEXT))\<rparr>
      in if inptr g > insize g \<or> LG a h \<noteq> LOCSIG then ((ERROR, z\<lparr>exit_code := ERROR\<rparr>), g)
         else let z = z\<lparr>zmethod := unat (a (h + LOCHOW))\<rparr>
           in if zmethod z \<noteq> STORED \<and> zmethod z \<noteq> DEFLATED then ((ERROR, z\<lparr>exit_code := ERROR\<rparr>), g)
              else let z = z\<lparr>decrypt := bit (a (h + LOCFLG)) 0\<rparr>
                in if decrypt z then ((ERROR, z\<lparr>exit_code := ERROR\<rparr>), g)
                   else ((OK, z\<lparr>ext_header := bit (a (h + LOCFLG)) 3, pkzip := True\<rparr>), g))"

section \<open>Extraction\<close>

definition put_ubyte :: "sysio \<Rightarrow> byte \<Rightarrow> gz \<Rightarrow> unit gzip" where
  "put_ubyte S c g =
     (let g = g\<lparr>window := (window g)(outcnt g := c), outcnt := outcnt g + 1\<rparr>
      in if outcnt g = WSIZE then flush_window S g else Return () g)"

fun copy_stored :: "sysio \<Rightarrow> nat \<Rightarrow> gz \<Rightarrow> unit gzip" where
  "copy_stored S 0 g = Return () g"
| "copy_stored S (Suc n) g =
     out_bind (get_byte S g) (\<lambda>c g. out_bind (put_ubyte S (ucast c) g) (\<lambda>_. copy_stored S n))"

text \<open>\<^verbatim>\<open>error\<close> reports and ends in \<^verbatim>\<open>abort_gzip\<close>.\<close>

definition unzip_data :: "sysio \<Rightarrow> zglob \<Rightarrow> gz \<Rightarrow> unit gzip option" where
  "unzip_data S z g =
     (if zmethod z = DEFLATED
      then opt_bind (inflate S g) (\<lambda>res g. Some (if res \<noteq> 0 then abort_gzip else Return () g))
      else if pkzip z \<and> zmethod z = STORED
      then (let n = LG (inbuf g) LOCLEN
            in if n \<noteq> LG (inbuf g) LOCSIZ - (if decrypt z then 12 else 0) then Some abort_gzip
               else Some (out_bind (copy_stored S (unat n) g) (\<lambda>_. flush_window S)))
      else Some abort_gzip)"

text \<open>\<^verbatim>\<open>for (n = 0; n < 8; n++) buf[n] = (uch)get_byte();\<close>, and the same with 16.\<close>

fun read_buf :: "sysio \<Rightarrow> nat \<Rightarrow> nat \<Rightarrow> (nat \<Rightarrow> byte) \<Rightarrow> gz \<Rightarrow> (nat \<Rightarrow> byte) gzip" where
  "read_buf S 0 n buf g = Return buf g"
| "read_buf S (Suc k) n buf g = out_bind (get_byte S g) (\<lambda>c. read_buf S k (n + 1) (buf(n := ucast c)))"

definition unzip_trailer :: "sysio \<Rightarrow> zglob \<Rightarrow> u32 \<times> u32 \<Rightarrow> gz \<Rightarrow> (u32 \<times> u32) gzip" where
  "unzip_trailer S z orig g =
     (if \<not> pkzip z then out_bind (read_buf S 8 0 (\<lambda>_. 0) g) (\<lambda>buf. Return (LG buf 0, LG buf 4))
      else if ext_header z then out_bind (read_buf S EXTHDR 0 (\<lambda>_. 0) g) (\<lambda>buf. Return (LG buf 4, LG buf 12))
      else Return orig g)"

text \<open>\<^verbatim>\<open>WARN\<close> sets the exit code to \<^verbatim>\<open>WARNING\<close> unless an error was noted before.\<close>

definition unzip_validate :: "zglob \<Rightarrow> u32 \<times> u32 \<Rightarrow> gz \<Rightarrow> (nat \<times> zglob) gzip" where
  "unzip_validate z orig g =
     (case gz_updcrc (Some []) g of (c, g) \<Rightarrow>
        let err = (if fst orig \<noteq> c then ERROR else OK);
          err = (if snd orig \<noteq> bytes_out g then ERROR else err);
          more = (pkzip z \<and> inptr g + 4 < insize g \<and> LG (inbuf g) (inptr g) = LOCSIG);
          z = (if more \<and> to_stdout z \<and> exit_code z = OK then z\<lparr>exit_code := WARNING\<rparr> else z);
          err = (if more \<and> \<not> to_stdout z then ERROR else err);
          z = z\<lparr>ext_header := False, pkzip := False\<rparr>
        in if err = OK then Return (OK, z) g
           else if \<not> test g then abort_gzip else Return (err, z\<lparr>exit_code := ERROR\<rparr>) g)"

definition unzip :: "sysio \<Rightarrow> zglob \<Rightarrow> gz \<Rightarrow> (nat \<times> zglob) gzip option" where
  "unzip S z g =
     (let g = snd (gz_updcrc None g);
        orig = (if pkzip z \<and> \<not> ext_header z then (LG (inbuf g) LOCCRC, LG (inbuf g) LOCLEN) else (0, 0))
      in opt_bind (unzip_data S z g) (\<lambda>_ g.
         opt_bind (Some (unzip_trailer S z orig g)) (\<lambda>orig g. Some (unzip_validate z orig g))))"

section \<open>What success means\<close>

lemma read_buf_ok:
  assumes io: "io_ok S"
  shows "instream g = xs @ ys \<Longrightarrow> insize g \<le> INBUFSIZ \<Longrightarrow> inptr g \<le> insize g \<Longrightarrow>
    \<exists>h. read_buf S (length xs) n buf g = Return (put_array n xs buf) h \<and> instream h = ys \<and>
      insize h \<le> INBUFSIZ \<and> inptr h \<le> insize h \<and> same_but_in g h"
proof (induction xs arbitrary: n buf g)
  case Nil
  have "put_array n [] buf = buf" by (rule ext) (auto simp: put_array_def)
  then show ?case using Nil by simp
next
  case (Cons x xs)
  obtain g1 where 1: "get_byte S g = Return (ucast x) g1" "instream g1 = xs @ ys" "insize g1 \<le> INBUFSIZ" "inptr g1 \<le> insize g1"
    "outcnt g1 = outcnt g" "same_but_in g g1" "0 < inptr g1" "inbuf g1 (inptr g1 - 1) = x"
    by (rule get_byte_ok [OF io, of g x "xs @ ys"]) (use Cons.prems in simp_all)
  have x: "ucast (ucast x :: u32) = x" by (rule bit_word_eqI) (auto simp: bit_simps)
  have "put_array (n + 1) xs (buf(n := x)) = put_array n (x # xs) buf"
    by (rule ext) (auto simp: put_array_def nth_Cons')
  note e = this
  obtain h where "read_buf S (length xs) (n + 1) (buf(n := x)) g1 = Return (put_array (n + 1) xs (buf(n := x))) h"
    "instream h = ys" "insize h \<le> INBUFSIZ" "inptr h \<le> insize h" "same_but_in g1 h"
    using Cons.IH [OF 1(2-4)] by blast
  then show ?case unfolding e using 1(1) x same_but_in_trans [OF 1(6)] by (intro exI [of _ h]) simp
qed

lemma LG_put: "i + 4 \<le> length xs \<Longrightarrow> LG (put_array 0 xs a) i = LG (nth xs) i"
  by (simp add: LG_def SH_def put_array_def)

lemma bytes_bits_inj: "bytes_bits xs = bytes_bits ys \<longleftrightarrow> xs = ys"
proof (induction xs arbitrary: ys)
  case Nil
  then show ?case by (cases ys) (auto simp: bits_of_def)
next
  case (Cons x xs)
  show ?case
  proof (cases ys)
    case (Cons y zs)
    have "take_bit 8 z = z" for z :: byte by (rule bit_word_eqI) (simp add: bit_simps)
    then have "bits_of 8 x = bits_of 8 y \<longleftrightarrow> x = y" by (simp add: bits_of_eq_iff)
    then show ?thesis using Cons.IH [of zs] Cons by (auto simp: append_eq_append_conv)
  qed (auto simp: bits_of_def)
qed

lemma crc_foldl: "foldl crc_step 0xffffffff xs XOR 0xffffffff = crc32 xs"
  by (simp add: crc32_def crc_step_reference [abs_def])

text \<open>The checksum and the length of the output, as the trailer \<open>tr\<close> says them.\<close>

definition trailer_ok :: "byte list \<Rightarrow> byte list \<Rightarrow> bool" where
  "trailer_ok tr xs \<longleftrightarrow> LG (nth tr) 0 = crc32 xs \<and> LG (nth tr) 4 = of_nat (length xs)"

lemma unzip_gzip:
  assumes io: "io_ok S" and z: "\<not> pkzip z" "zmethod z = DEFLATED" and tr: "length tr = 8"
    and i: "inflate S (g\<lparr>crc_reg := 0xffffffff\<rparr>) = Some (Return 0 h)" "inflated s0 (t, 0xffffffff, 0) H xs h" "instream h = tr @ rest"
  shows "\<exists>k. same_but_in h k \<and> instream k = rest \<and> unzip S z g =
    Some (if trailer_ok tr H then Return (OK, z\<lparr>ext_header := False, pkzip := False\<rparr>) k
          else if \<not> t then abort_gzip else Return (ERROR, z\<lparr>ext_header := False, pkzip := False, exit_code := ERROR\<rparr>) k)"
proof -
  have f: "test h = t" "crc_reg h = foldl crc_step 0xffffffff H" "bytes_out h = of_nat (length H)" "insize h \<le> INBUFSIZ" "inptr h \<le> insize h"
    using i(2) by (simp_all add: inflated_def)
  obtain k where k: "read_buf S 8 0 (\<lambda>_. 0) h = Return (put_array 0 tr (\<lambda>_. 0)) k" "instream k = rest" "same_but_in h k"
    using read_buf_ok [OF io i(3) f(4,5), of 0 "\<lambda>_. 0"] tr by auto
  note s = same_but_inD(4-6) [OF k(3)]
  have g: "snd (gz_updcrc None g) = g\<lparr>crc_reg := 0xffffffff\<rparr>" by (simp add: gz_updcrc_def updcrc_def)
  have "unzip_data S z (g\<lparr>crc_reg := 0xffffffff\<rparr>) = Some (Return () h)"
    using i(1) z by (simp add: unzip_data_def)
  moreover have "unzip_trailer S z (0, 0) h = Return (LG (nth tr) 0, LG (nth tr) 4) k"
    using k(1) z tr by (simp add: unzip_trailer_def LG_put)
  moreover have "gz_updcrc (Some []) k = (crc32 H, k)"
    using crc_foldl [of H] s f(2) by (simp add: gz_updcrc_def updcrc_def)
  ultimately have "unzip S z g =
    Some (if trailer_ok tr H then Return (OK, z\<lparr>ext_header := False, pkzip := False\<rparr>) k
          else if \<not> t then abort_gzip else Return (ERROR, z\<lparr>ext_header := False, pkzip := False, exit_code := ERROR\<rparr>) k)"
    using z(1) s f(1,3) by (simp add: unzip_def g unzip_validate_def trailer_ok_def OK_def ERROR_def Let_def)
  then show ?thesis using k(2,3) by blast
qed

text \<open>Claim C10. With transfers and allocations that succeed: a member in the gzip format whose data are well-formed blocks is extracted, and \<^verbatim>\<open>unzip\<close>
  succeeds exactly when the trailer has the CRC-32 and the length (modulo 2^32) of the bytes that the
  blocks stand for; then these bytes were written and the input is left behind the trailer.
  Otherwise the program exits with an error, or returns one with \<^verbatim>\<open>-t\<close>.\<close>

theorem unzip_checks:
  assumes "io_ok S" "\<forall>i. hmalloc S i" "heap_wf g" "insize g \<le> INBUFSIZ" "inptr g \<le> insize g" "bytes_out g = 0"
    and z: "\<not> pkzip z" "zmethod z = DEFLATED"
    and bs: "bs \<noteq> []" "blocks_ok 0 (length ps + 8 * length (tr @ rest)) bs" "length ps < 8" "length tr = 8"
    and g: "bytes_bits (instream g) = blocks_bits bs @ ps @ bytes_bits (tr @ rest)"
  shows "\<exists>h. instream h = rest \<and> sink h = sink g @ (if test g then [] else blocks_expand bs []) \<and> live (hm h) = live (hm g) \<and>
    unzip S z g = Some
      (if trailer_ok tr (blocks_expand bs []) then Return (OK, z\<lparr>ext_header := False, pkzip := False\<rparr>) h
       else if test g then Return (ERROR, z\<lparr>ext_header := False, pkzip := False, exit_code := ERROR\<rparr>) h
       else Halt (Exited 1))"
proof -
  let ?xs = "ps @ bytes_bits (tr @ rest)" and ?g = "g\<lparr>crc_reg := 0xffffffff\<rparr>" and ?H = "blocks_expand bs []"
  have l: "length ?xs = length ps + 8 * length (tr @ rest)" "32 \<le> length ?xs" using bs(4) by simp_all
  have "bytes_bits (instream ?g) = blocks_bits bs @ ?xs" using g by (simp add: instream_def)
  then obtain h where h: "inflate S ?g = Some (Return 0 h)" "inflated (sink g) (test g, 0xffffffff, 0) ?H ?xs h" "live (hm h) = live (hm g)"
    using inflate_ok [OF assms(1,2), of ?g bs ?xs] assms(3-6) bs(1,2) l by (auto simp: heap_wf_def)
  have "length ?xs mod 8 = length ps" unfolding l(1) using bs(3) by (simp del: length_append)
  then have "bytes_bits (instream h) = bytes_bits (tr @ rest)" using h(2) by (simp add: inflated_def)
  then have i: "instream h = tr @ rest" by (simp only: bytes_bits_inj)
  obtain k where k: "same_but_in h k" "instream k = rest" "unzip S z g =
    Some (if trailer_ok tr ?H then Return (OK, z\<lparr>ext_header := False, pkzip := False\<rparr>) k
          else if \<not> test g then abort_gzip else Return (ERROR, z\<lparr>ext_header := False, pkzip := False, exit_code := ERROR\<rparr>) k)"
    using unzip_gzip [OF assms(1) z bs(4) h(1,2) i] by blast
  have "sink k = sink g @ (if test g then [] else ?H)" "live (hm k) = live (hm g)"
    using h(2,3) same_but_inD(2,9) [OF k(1)] by (simp_all add: inflated_def)
  then show ?thesis using k(2,3) by (intro exI [of _ k]) (simp add: abort_gzip_def)
qed

lemma unzip_checks_witness:
  "\<exists>h. sink h = [97, 97, 97, 97] \<and> instream h = [7] \<and>
    unzip fx_io \<lparr>zmethod = 8, pkzip = False, ext_header = False, decrypt = False, exit_code = 0, to_stdout = False\<rparr>
      (fx_gz [0x4b, 0x04, 0x02, 0x00, 0x45, 0xe5, 0x98, 0xad, 4, 0, 0, 0, 7]) =
    Some (Return (OK, \<lparr>zmethod = 8, pkzip = False, ext_header = False, decrypt = False, exit_code = 0, to_stdout = False\<rparr>) h)"
proof -
  let ?z = "\<lparr>zmethod = 8, pkzip = False, ext_header = False, decrypt = False, exit_code = 0, to_stdout = False\<rparr>"
  let ?tr = "[0x45, 0xe5, 0x98, 0xad, 4, 0, 0, 0] :: byte list"
  let ?g = "fx_gz ([0x4b, 0x04, 0x02, 0x00] @ ?tr @ [7])"
  have i: "bytes_bits (instream ?g) = blocks_bits fx_blocks @ [False, False] @ bytes_bits (?tr @ [7])"
    using fx_blocks_bits bytes_bits_simps(3) [of "[0x4b, 0x04, 0x02, 0x00]" "?tr @ [7]"] by (simp add: instream_def fx_gz_def)
  have "LG (nth ?tr) 0 = 0xad98e545" "LG (nth ?tr) 4 = 4" by (simp_all add: LG_def SH_def)
  moreover have "crc32 [97, 97, 97, 97] = 0xad98e545"
    by (simp add: crc_foldl [symmetric] crc_step_def crc_32_tab_def)
  ultimately have t: "trailer_ok ?tr [97, 97, 97, 97]" by (simp add: trailer_ok_def)
  have "\<exists>h. instream h = [7] \<and> sink h = sink ?g @ (if test ?g then [] else blocks_expand fx_blocks []) \<and> live (hm h) = live (hm ?g) \<and>
    unzip fx_io ?z ?g = Some
      (if trailer_ok ?tr (blocks_expand fx_blocks []) then Return (OK, ?z\<lparr>ext_header := False, pkzip := False\<rparr>) h
       else if test ?g then Return (ERROR, ?z\<lparr>ext_header := False, pkzip := False, exit_code := ERROR\<rparr>) h
       else Halt (Exited 1))"
    by (rule unzip_checks [OF fx_io_ok _ _ _ _ _ _ _ fx_blocks_ok(1,2) _ _ i])
      (simp_all add: fx_io_def fx_gz_def heap_wf_def DEFLATED_def)
  then show ?thesis using t unfolding fx_blocks_ok(3) by (auto simp: fx_gz_def)
qed

end
