(* ===== verification/SFI_Deflate.thy ===== *)
theory SFI_Deflate
  imports SFI_Trees_Flush SFI_Unzip
begin

text \<open>
  The round trip of the compression program's two halves: what the entropy coder sends for any items
  the matcher can hand over, the decoder turns back into the bytes that the items stand for.
\<close>

lemma bytes_bits_prefix:
  "bytes_bits ys = bytes_bits xs @ bs \<Longrightarrow> length bs mod 8 = 0 \<Longrightarrow> \<exists>zs. ys = xs @ zs \<and> bs = bytes_bits zs"
proof (induction xs arbitrary: ys)
  case Nil
  then show ?case by (auto simp: bytes_bits_def)
next
  case (Cons x xs)
  obtain y zs where y: "ys = y # zs" using Cons.prems(1) by (cases ys) (auto simp: bytes_bits_def bits_of_def)
  have e: "bits_of 8 y @ bytes_bits zs = bits_of 8 x @ (bytes_bits xs @ bs)" using Cons.prems(1) by (simp add: y bytes_bits_def)
  then have "bits_of 8 y = bits_of 8 x" "bytes_bits zs = bytes_bits xs @ bs" by (simp_all add: append_eq_append_conv)
  moreover from this(1) have "y = x" using bytes_bits_inj [of "[y]" "[x]"] by (simp add: bytes_bits_def)
  ultimately show ?case using Cons.IH Cons.prems(2) y by auto
qed

text \<open>Only the alignment of what follows matters.\<close>

lemma block_ok_mod: "m mod 8 = m' mod 8 \<Longrightarrow> block_ok n m b = block_ok n m' b"
  by (cases b) simp_all

lemma blocks_ok_mod: "m mod 8 = m' mod 8 \<Longrightarrow> blocks_ok n m bs = blocks_ok n m' bs"
proof (induction bs arbitrary: n)
  case (Cons b bs)
  have "(length (blocks_bits bs) + m) mod 8 = (length (blocks_bits bs) + m') mod 8"
    using Cons.prems by (rule mod_add_cong [OF refl])
  from block_ok_mod [OF this] show ?case using Cons by simp
qed simp

text \<open>Claim C12. From the start of a stream (\<^verbatim>\<open>ct_init\<close>, an empty bit buffer), for any pieces of items that
  the matcher can hand over (no match reaching back further than 32k or before the start, less than 65535
  items in a piece, the buffer of a piece that may be stored holding its bytes), the entropy coder ends
  and has sent whole bytes; and whenever a decoder finds these bytes at its input, with at least four
  more behind them and with memory and transfers that succeed, \<^verbatim>\<open>inflate\<close> ends with success, has
  written exactly the bytes the items stand for, with their checksum, and has read no more than was sent.\<close>

theorem deflate_inflates:
  assumes "io_ok S" "Len (static_dtree s 0) = 0" "bi_inv g" "bi_valid g = 0" "ps \<noteq> []" "pieces_ok [] ps"
  shows "\<exists>s' h zs. send_pieces S level k ps (ct_init s) g = Some (Return s' h) \<and> outstream h = outstream g @ zs \<and> bi_valid h = 0 \<and>
    (\<forall>T d tr. io_ok T \<and> (\<forall>i. hmalloc T i) \<and> heap_wf d \<and> insize d \<le> INBUFSIZ \<and> inptr d \<le> insize d \<and>
       instream d = zs @ tr \<and> 4 \<le> length tr \<longrightarrow>
       (\<exists>e. inflate T d = Some (Return 0 e) \<and> sink e = sink d @ (if test d then [] else items_expand (concat (map fst ps)) []) \<and>
          crc_reg e = foldl crc_step (crc_reg d) (items_expand (concat (map fst ps)) []) \<and> instream e = tr))"
proof -
  let ?D = "items_expand (concat (map fst ps)) []"
  obtain s' h bs where 1: "send_pieces S level k ps (ct_init s) g = Some (Return s' h)" "sent_blocks True (concat (map fst ps)) [] g h bs"
    using send_pieces_ok [OF assms(1,5,3) ct_init_tallied [OF assms(2)] assms(6)] by blast
  then obtain qs where b: "bs \<noteq> []" "blocks_expand bs [] = ?D" "bi_valid h = 0" "length qs < 8"
    "zbits h = zbits g @ blocks_bits bs @ qs" "blocks_ok 0 (length qs) bs"
    unfolding sent_blocks_def by auto
  have z: "bytes_bits (outstream h) = bytes_bits (outstream g) @ (blocks_bits bs @ qs)"
    using b(3,5) assms(4) by (simp add: zbits_def bits_of_0)
  then have "length (bytes_bits (outstream h)) = length (bytes_bits (outstream g)) + length (blocks_bits bs @ qs)" by simp
  then have "length (blocks_bits bs @ qs) = 8 * (length (outstream h) - length (outstream g))" by (simp del: length_append)
  then have l8: "length (blocks_bits bs @ qs) mod 8 = 0" by (simp only: mod_mult_self1_is_0)
  obtain zs where zs: "outstream h = outstream g @ zs" "blocks_bits bs @ qs = bytes_bits zs"
    using bytes_bits_prefix [OF z l8] by blast
  have "\<exists>e. inflate T d = Some (Return 0 e) \<and> sink e = sink d @ (if test d then [] else ?D) \<and>
      crc_reg e = foldl crc_step (crc_reg d) ?D \<and> instream e = tr"
    if T: "io_ok T" "\<forall>i. hmalloc T i" and d: "heap_wf d" "insize d \<le> INBUFSIZ" "inptr d \<le> insize d"
      and i: "instream d = zs @ tr" and l: "4 \<le> length tr" for T d tr
  proof -
    let ?xs = "qs @ bytes_bits tr"
    have x: "bytes_bits (instream d) = blocks_bits bs @ ?xs" unfolding i using zs(2) by simp
    have lx: "length ?xs = length qs + 8 * length tr" "32 \<le> length ?xs" using l by simp_all
    have "length ?xs mod 8 = length qs mod 8" unfolding lx(1) by (simp del: length_append)
    from blocks_ok_mod [OF this] have "blocks_ok 0 (length ?xs) bs" using b(6) by blast
    from inflate_ok [OF T d b(1) this x lx(2)] obtain e where
      e: "inflate T d = Some (Return 0 e)" "inflated (sink d) (test d, crc_reg d, bytes_out d) ?D ?xs e"
      using b(2) by auto
    have "length ?xs mod 8 = length qs" unfolding lx(1) using b(4) by (simp del: length_append)
    then have "bytes_bits (instream e) = bytes_bits tr" using e(2) by (simp add: inflated_def)
    then have "instream e = tr" by (simp only: bytes_bits_inj)
    then show ?thesis using e by (auto simp: inflated_def)
  qed
  then show ?thesis using 1(1) zs(1) b(3) by blast
qed

definition fx_ct :: ct where
  "fx_ct = (let t = (\<lambda>_. \<lparr>fc = 0, dl = 0\<rparr>)
    in \<lparr>dyn_ltree = t, dyn_dtree = t, bl_tree = t, static_ltree = t, static_dtree = t, bl_count = \<lambda>_. 0, heap = \<lambda>_. 0,
       heap_len = 0, heap_max = 0, depth = \<lambda>_. 0, length_code = [], dist_code = [], base_length = [], base_dist = [],
       l_max = 0, d_max = 0, l_buf = \<lambda>_. 0, d_buf = \<lambda>_. 0, flag_buf = \<lambda>_. 0, last_lit = 0, last_dist = 0, last_flags = 0,
       flags = 0, flag_bit = 0, opt_len = 0, static_len = 0, compressed_len = 0, input_len = 0, file_type = 0\<rparr>)"

text \<open>Two pieces: a literal and a match of three bytes, which may be stored, then a match into the first piece.\<close>

definition fx_pieces :: "piece list" where
  "fx_pieces = [([(0, 97), (1, 0)], Some [97, 97, 97, 97], 4, True), ([(4, 1), (0, 98)], None, 0, False)]"

theorem deflate_inflates_witness:
  "\<exists>s' h e. send_pieces fx_io 6 0 fx_pieces (ct_init fx_ct) (fx_gz []) = Some (Return s' h) \<and>
    inflate fx_io (fx_gz (outstream h @ [1, 2, 3, 4])) = Some (Return 0 e) \<and>
    sink e = [97, 97, 97, 97, 97, 97, 97, 97, 98] \<and> instream e = [1, 2, 3, 4]"
proof -
  have 3: "items_expand [(0, 97), (1, 0)] [] = [97, 97, 97, 97]" by (simp add: numeral_eq_Suc)
  have "items_expand [(4, 1), (0, 98)] [97, 97, 97, 97] = [97, 97, 97, 97, 97, 97, 97, 97, 98]" by (simp add: numeral_eq_Suc)
  moreover have "concat (map fst fx_pieces) = [(0, 97), (1, 0)] @ [(4, 1), (0, 98)]" by (simp add: fx_pieces_def)
  ultimately have x: "items_expand (concat (map fst fx_pieces)) [] = [97, 97, 97, 97, 97, 97, 97, 97, 98]"
    by (simp only: items_expand_append 3)
  have p: "fx_pieces \<noteq> []" "pieces_ok [] fx_pieces"
    using 3 by (simp_all add: fx_pieces_def buffer_ok_def del: items_expand.simps)
  have g: "bi_inv (fx_gz [])" "bi_valid (fx_gz []) = 0" "outstream (fx_gz []) = []"
    by (simp_all add: bi_inv_def fx_gz_def OUTBUFSIZ_def outstream_def)
  have m: "\<forall>i. hmalloc fx_io i" by (simp add: fx_io_def)
  have d: "heap_wf (fx_gz xs)" "insize (fx_gz xs) \<le> INBUFSIZ" "inptr (fx_gz xs) \<le> insize (fx_gz xs)"
    "instream (fx_gz xs) = xs" "sink (fx_gz xs) = []" "\<not> test (fx_gz xs)" for xs
    by (simp_all add: fx_gz_def heap_wf_def instream_def)
  have "Len (static_dtree fx_ct 0) = 0" by (simp add: fx_ct_def Let_def)
  from deflate_inflates [OF fx_io_ok this g(1,2) p, of 6 0] obtain s' h zs where
    1: "send_pieces fx_io 6 0 fx_pieces (ct_init fx_ct) (fx_gz []) = Some (Return s' h)" "outstream h = zs"
    and 2: "\<And>T d tr. io_ok T \<and> (\<forall>i. hmalloc T i) \<and> heap_wf d \<and> insize d \<le> INBUFSIZ \<and> inptr d \<le> insize d \<and>
       instream d = zs @ tr \<and> 4 \<le> length tr \<Longrightarrow>
       \<exists>e. inflate T d = Some (Return 0 e) \<and> sink e = sink d @ (if test d then [] else items_expand (concat (map fst fx_pieces)) []) \<and>
          crc_reg e = foldl crc_step (crc_reg d) (items_expand (concat (map fst fx_pieces)) []) \<and> instream e = tr"
    unfolding g(3) append_Nil by blast
  have "\<exists>e. inflate fx_io (fx_gz (zs @ [1, 2, 3, 4])) = Some (Return 0 e) \<and> sink e = [97, 97, 97, 97, 97, 97, 97, 97, 98] \<and>
      instream e = [1, 2, 3, 4]"
    using 2 [of fx_io "fx_gz (zs @ [1, 2, 3, 4])" "[1, 2, 3, 4]"] d [of "zs @ [1, 2, 3, 4]"] fx_io_ok m by (auto simp: x)
  then show ?thesis using 1 by blast
qed

end
