(* ===== verification/Spec2Isabelle.thy ===== *)
theory Spec2Isabelle
  imports SFI_Loader SFI_Outside SFI_Qsort SFI_Tests SFI_MD5_Props SFI_Factor SFI_Interp SFI_Deflate
begin

text \<open>
  PittSFIeld runs untrusted x86 code in a sandbox. A module is an ELF file whose instructions were
  rewritten so that every store and every indirect jump goes through a masked register and no
  instruction crosses a 16-byte chunk. The loader (\<^verbatim>\<open>src/loader.c\<close>) maps a module, checks these
  rules (\<^verbatim>\<open>verify\<close>), writes stubs that jump to its trusted wrappers, and enters the module. Inside
  the sandbox the module is linked with a small C library (\<^verbatim>\<open>src/libc.c\<close>, \<^verbatim>\<open>src/libc.h\<close>) that reaches
  the host only through those stubs. \<^verbatim>\<open>src/outside.c\<close> replaces the wrappers in an unsandboxed build.

  \<^bold>\<open>Base.\<close> SFI_Prelude: words, masks and lists, the result types. SFI_Sizes: the three layouts of
  \<^verbatim>\<open>src/sizes.pm\<close>, from which the header with the regions and masks is generated; a masked data
  address lies in the data region or the zero-tag region, a masked jump target is also aligned.

  \<^bold>\<open>Verifier.\<close> SFI_Disasm: the instruction record of the disassembler library. SFI_Verifier:
  \<^verbatim>\<open>classify_ea\<close> and \<^verbatim>\<open>verify\<close>, one definition for each case of the switch over operand types
  (\<open>flags_none\<close>, \<open>flags_expr_reg\<close> and so on), the safety state \<open>vstate\<close>, the loop with a measure that
  shows it ends. SFI_Verifier_Inv: what holds at every instruction of an accepted module.
  SFI_Verifier_Props: the rules on stores, jumps, returns and alignment, and lemmas
  that show modules which are accepted although the rules of \<^verbatim>\<open>src/checks.txt\<close> forbid them.
  SFI_Machine: an execution model of the instructions that the policy speaks of. SFI_Policy: the
  composition, for modules of covered instructions (\<open>covered_module\<close>): such a module, accepted and run
  from a chunk boundary, never writes outside its data and never transfers control outside its
  code, and its stack and frame pointers stay near the data region while the verifier trusts
  them. \<open>covered_module\<close> is a condition of these proofs and not a part of the program: it excludes
  the gaps that SFI_Verifier_Props exhibits, a fact carried over a chunk boundary, and the
  floating-point stores, which \<^verbatim>\<open>verify\<close> does not tell apart (\<^verbatim>\<open>src/README\<close>).

  \<^bold>\<open>Trusted runtime.\<close> SFI_Host: the host's library as parameters of the model. SFI_Streams: the
  contract of a table of open streams, as a locale. SFI_Wrappers: all \<^verbatim>\<open>wrap_\<close> functions. SFI_Runtime:
  the locale interpreted on them; the table and the break keep their invariants under any
  sequence of calls. SFI_Outside: \<^verbatim>\<open>src/outside.c\<close>, the same locale interpreted again, and its
  agreement with the wrappers. SFI_Loader: \<^verbatim>\<open>main\<close>, the stubs and the gate \<^verbatim>\<open>call_in\<close>; the call of
  \<^verbatim>\<open>verify\<close> is under \<^verbatim>\<open>#ifdef VERIFY\<close>, which \<^verbatim>\<open>src/Makefile\<close> leaves undefined, so \<open>load_module\<close> has the macro
  as an argument: with it, what is started has been verified and (if covered) stays contained;
  without it, any code is started.

  \<^bold>\<open>Sandbox library.\<close> SFI_Mem: memory of bytes and its word accesses. SFI_Cstring and SFI_Strings: the
  string functions and their specifications. SFI_Numbers: characters, \<^verbatim>\<open>strtol\<close>, random numbers.
  SFI_Sort: sorting and searching; the byte-wise exchange refines the exchange of elements.
  SFI_Qsort: the three-way quicksort returns and sorts under any total preorder.
  SFI_Libc: system calls and \<^verbatim>\<open>errno\<close>. SFI_Stdio: streams. SFI_Malloc: the bucket allocator. SFI_Heap:
  its invariant, over a locale for a source of memory, interpreted on the loader's \<^verbatim>\<open>sbrk\<close>.
  SFI_Heap_Props and SFI_Libc_Props: what a client relies on.

  \<^bold>\<open>Sandboxed programs.\<close> SFI_MD5 and SFI_MD5_Props: the hash program computes RFC 1321. SFI_Factor: the
  wheel factorisation ends with the prime factors. SFI_Interp: two interpreters of one loop, related
  through a locale interpreted on each. SFI_Tests: the test programs; the allocator's test returns 0
  when there is room, by the laws of SFI_Heap.

  \<^bold>\<open>Compression program.\<close> \<^verbatim>\<open>src/gzip-mod.c\<close> is \<^verbatim>\<open>gzip\<close> in one file, a workload of the sandbox. SFI_Crc: \<^verbatim>\<open>updcrc\<close>
  and its table, equal to the bitwise division. SFI_Gzip: the globals, the input and output buffers
  over a kernel that transfers as much as its parameter says, and what the buffering hides.
  SFI_Bits: \<^verbatim>\<open>send_bits\<close> and the decoder's \<^verbatim>\<open>NEEDBITS\<close> and \<^verbatim>\<open>DUMPBITS\<close>, both related to a list of bits.
  SFI_Huft: \<^verbatim>\<open>huft_build\<close>, one definition for each loop; SFI_Huft_Props: the invariant of the tables
  while they are filled; SFI_Huft_Build: each loop keeps it; SFI_Huft_Decode: canonical codes are
  decoded, for lengths that suit the lookup bits (\<open>near_ok\<close>, a condition of the proof that holds
  at the program's calls), and how \<^verbatim>\<open>huft_build\<close> goes wrong without it. SFI_Inflate: the three kinds of block and \<^verbatim>\<open>inflate\<close>. SFI_Window: the sliding window and
  the copy of a match; SFI_Codes: literals and matches, stored and fixed blocks; SFI_Dynamic: blocks
  with their own codes, and the theorem on a whole stream (with kernel transfers and allocations that succeed). SFI_Unzip: \<^verbatim>\<open>unzip\<close> accepts a member exactly
  when its trailer has the checksum and the length of the output. SFI_Trees: the entropy coder of \<^verbatim>\<open>deflate\<close>, from the recording of
  literals and matches to \<^verbatim>\<open>flush_block\<close>; SFI_Trees_Items: its tables of codes agree with those of the
  decoder; SFI_Trees_Codes: \<^verbatim>\<open>gen_codes\<close> gives the canonical codes that the decoder reads;
  SFI_Trees_Block: what \<^verbatim>\<open>ct_tally\<close> records is what \<^verbatim>\<open>compress_block\<close> sends; SFI_Trees_Static: \<^verbatim>\<open>ct_init\<close>
  sets up the codes of the fixed blocks. SFI_Trees_Heap, SFI_Trees_Lengths and SFI_Trees_Build: \<^verbatim>\<open>build_tree_1\<close>
  returns for any frequencies, with a complete code whose lengths keep
  the limit: the heap is followed as a bag, joining two nodes keeps the tree, \<^verbatim>\<open>gen_bitlen\<close> repairs
  the lengths that overflow. SFI_Trees_Header: the runs of code lengths that \<^verbatim>\<open>scan_tree\<close> counts are those
  that \<^verbatim>\<open>send_tree\<close> sends. SFI_Trees_Flush: \<^verbatim>\<open>flush_block\<close> returns, whichever kind of block it chooses,
  and has sent a well-formed block for the items recorded; \<open>send_pieces\<close> stands for the calls that the
  matcher makes. SFI_Deflate: what was sent is decoded by \<^verbatim>\<open>inflate\<close> to the bytes of the items. The decoder's loops are partial functions
  into options; on well-formed input they are proved to return. \<^verbatim>\<open>huft_build\<close> is called with a
  non-empty list of lengths, as its first loop runs at least once.

  \<^bold>\<open>Conventions.\<close> An \<open>int\<close>, \<open>unsigned\<close> or pointer is a 32-bit word, \<open>long long\<close> a 64-bit word, \<open>char\<close>
  a signed byte. A wrapper is a function from the runtime's state to an outcome: it returns,
  leaves the sandbox through \<^verbatim>\<open>longjmp\<close>, or stops (\<open>Halt\<close>) with a reason; undefined behaviour of C that
  the code can reach (an index out of a table, a shift by the width, an unterminated string) is
  such a reason. Exit and failure messages are values. A loop whose end depends on its input is
  structural, has a measure, or is a partial function into options: \<open>None\<close> is a loop that never
  ends, and the theorems on such functions show the result is \<open>Some\<close>. No fuel is used.
  A scan over memory (\<^verbatim>\<open>strlen\<close> and the like) that does not meet a terminator goes round the
  32-bit address space; there it has no result.

  \<^bold>\<open>Parameters.\<close> Code that is not in the repository is a parameter: the disassembler (it returns the
  instruction at an address), the ELF reader (headers and sections), the host's C library and
  kernel (one function for calls, one each for opening, status and the error number), and \<^verbatim>\<open>atoll\<close>.
  The theorems assume nothing of them but the hypotheses they state. The machine model covers the
  instructions that the policy restricts; other instructions appear through what they write and
  where they jump.

  \<^bold>\<open>Not modelled.\<close> The Perl tools that rewrite and pad assembler code: what they produce is untrusted
  and is checked by the verifier. The C++ library and examples. A floating-point
  test and a deliberate buffer overflow. Of \<^verbatim>\<open>gzip\<close> the search for
  matches, the other formats and the handling of files and options. The programs
  \<^verbatim>\<open>gcc\<close>, \<^verbatim>\<open>oggenc\<close> and \<^verbatim>\<open>bzip2\<close>, which are third-party code merged into single files and used as
  workloads. Declarations,
  linker scripts, start files and shell scripts. Floating-point functions of the wrappers are
  calls to the host on bit patterns.
\<close>

end
